(* ===== verification/Prelude.thy ===== *)
theory Prelude
  imports Main "HOL-Library.Word" "HOL-Library.Char_ord" "HOL-Library.List_Lexorder"
    "HOL-Library.Multiset" "HOL-Library.Sublist"
begin

text \<open>
  Shared vocabulary of the development: the integer types of \<^verbatim>\<open>libs/base/types.hpp\<close>, the fact
  collections the component theories fill and use, and the generic lemmas on lists, words and
  characters that several components need.

  A \<^verbatim>\<open>std::string\<close>, a \<^verbatim>\<open>std::string_view\<close> and a \<^verbatim>\<open>char\<close> array are HOL strings (lists of
  8-bit characters; a C array carries its full length, padding included). \<^verbatim>\<open>i64\<close> values are
  64-bit words read with \<open>sint\<close>; the casts between \<^verbatim>\<open>u64\<close> and \<^verbatim>\<open>i64\<close> are then the identity.
\<close>

unbundle bit_operations_syntax

section \<open>Integer types\<close>

type_synonym u8 = "8 word"
type_synonym u32 = "32 word"
type_synonym u64 = "64 word"
type_synonym i64 = "64 word"
type_synonym usize = "64 word"

section \<open>Collections of facts\<close>

named_theorems std_simps "equations for the modelled parts of the standard library"
named_theorems layout_simps "sizes and round trips of byte layouts"
named_theorems list_ops "updates, splits and lengths of lists used by the containers"

section \<open>Lists\<close>

lemma take_append_drop_mid:
  assumes "i \<le> j" "j \<le> length xs"
  shows "xs = take i xs @ take (j - i) (drop i xs) @ drop j xs"
  using assms by (metis append_take_drop_id drop_drop le_add_diff_inverse2)

lemma list_split3:
  assumes "i < j" "j < length xs"
  shows "xs = take i xs @ xs ! i # take (j - Suc i) (drop (Suc i) xs) @ xs ! j # drop (Suc j) xs"
proof -
  have "xs = take i xs @ xs ! i # drop (Suc i) xs"
    using assms by (simp add: id_take_nth_drop)
  moreover have "drop (Suc i) xs = take (j - Suc i) (drop (Suc i) xs)
      @ drop (Suc i) xs ! (j - Suc i) # drop (Suc (j - Suc i)) (drop (Suc i) xs)"
    using assms by (intro id_take_nth_drop) simp
  ultimately show ?thesis using assms by simp
qed

lemma take_Suc_update [list_ops]:
  "n < length xs \<Longrightarrow> take (Suc n) (xs[n := x]) = take n xs @ [x]"
  by (simp add: take_Suc_conv_app_nth)

lemma take_update_ge [list_ops]: "n \<le> i \<Longrightarrow> take n (xs[i := x]) = take n xs"
  by (rule take_update_cancel)

lemma takeWhile_all: "\<forall>x \<in> set xs. P x \<Longrightarrow> takeWhile P xs = xs"
  by (simp add: takeWhile_eq_all_conv)

lemma takeWhile_append_stop:
  "\<forall>x \<in> set xs. P x \<Longrightarrow> \<not> P y \<Longrightarrow> takeWhile P (xs @ y # ys) = xs"
  by (induction xs) auto

lemma dropWhile_append_stop:
  "\<forall>x \<in> set xs. P x \<Longrightarrow> \<not> P y \<Longrightarrow> dropWhile P (xs @ y # ys) = y # ys"
  by (induction xs) auto

section \<open>Characters and bytes\<close>

definition u8_of_char :: "char \<Rightarrow> u8" where
  "u8_of_char c = word_of_nat (of_char c)"

definition char_of_u8 :: "u8 \<Rightarrow> char" where
  "char_of_u8 b = char_of (unat b)"

lemma unat_u8_of_char: "unat (u8_of_char c) = of_char c"
proof -
  have "(of_char c :: nat) < 256" by simp
  then show ?thesis by (simp add: u8_of_char_def unat_of_nat take_bit_nat_eq_self)
qed

lemma char_of_u8_of_char [simp]: "char_of_u8 (u8_of_char c) = c"
  by (simp add: char_of_u8_def unat_u8_of_char)

lemma u8_of_char_of_u8 [simp]: "u8_of_char (char_of_u8 b) = b"
proof (rule word_unat_eq_iff [THEN iffD2])
  have "unat b < 256" using unsigned_less [of b] by simp
  then show "unat (u8_of_char (char_of_u8 b)) = unat b"
    by (simp add: unat_u8_of_char char_of_u8_def)
qed

lemma u8_of_char_inject [simp]: "u8_of_char c = u8_of_char d \<longleftrightarrow> c = d"
  by (metis char_of_u8_of_char)

lemma char_of_u8_inject [simp]: "char_of_u8 a = char_of_u8 b \<longleftrightarrow> a = b"
  by (metis u8_of_char_of_u8)

lemma map_u8_char_cancel [simp]:
  "map (u8_of_char \<circ> char_of_u8) bs = bs" "map (char_of_u8 \<circ> u8_of_char) s = s"
  by (simp_all add: comp_def)

end
