(* ===== verification/Bytes.thy ===== *)
theory Bytes
  imports Prelude
begin

text \<open>
  Object representations of integers: how a \<^verbatim>\<open>std::memcpy\<close> between an integer and a byte array
  reads and writes memory, on a little- or a big-endian host, and what \<^verbatim>\<open>std::byteswap\<close> does to
  the value. The \<^verbatim>\<open>toNetwork\<close> helpers of the packet layer, the database and the hash are all
  \<^verbatim>\<open>if constexpr\<close> selections between these two; they are modelled where they occur.
\<close>

section \<open>Memory order\<close>

datatype endian = Little | Big

definition le_bytes :: "nat \<Rightarrow> 'a::len word \<Rightarrow> u8 list" where
  "le_bytes n w = map (\<lambda>i. ucast (drop_bit (8 * i) w)) [0..<n]"

definition of_le_bytes :: "u8 list \<Rightarrow> 'a::len word" where
  "of_le_bytes bs = foldr (\<lambda>b acc. ucast b OR push_bit 8 acc) bs 0"

definition be_bytes :: "nat \<Rightarrow> 'a::len word \<Rightarrow> u8 list" where
  "be_bytes n w = rev (le_bytes n w)"

definition of_be_bytes :: "u8 list \<Rightarrow> 'a::len word" where
  "of_be_bytes bs = of_le_bytes (rev bs)"

text \<open>The bytes a \<^verbatim>\<open>memcpy\<close> from an integer of \<open>n\<close> bytes copies, and the integer it makes of them.\<close>

definition mem_bytes :: "endian \<Rightarrow> nat \<Rightarrow> 'a::len word \<Rightarrow> u8 list" where
  "mem_bytes e n w = (case e of Little \<Rightarrow> le_bytes n w | Big \<Rightarrow> be_bytes n w)"

definition of_mem_bytes :: "endian \<Rightarrow> u8 list \<Rightarrow> 'a::len word" where
  "of_mem_bytes e bs = (case e of Little \<Rightarrow> of_le_bytes bs | Big \<Rightarrow> of_be_bytes bs)"

definition byteswap :: "nat \<Rightarrow> 'a::len word \<Rightarrow> 'a word" where
  "byteswap n w = of_le_bytes (rev (le_bytes n w))"

definition net_order :: "endian \<Rightarrow> nat \<Rightarrow> 'a::len word \<Rightarrow> 'a word" where
  "net_order e n w = (case e of Little \<Rightarrow> byteswap n w | Big \<Rightarrow> w)"

section \<open>Sizes\<close>

lemma length_le_bytes [simp]: "length (le_bytes n w) = n"
  by (simp add: le_bytes_def)

lemma length_be_bytes [simp]: "length (be_bytes n w) = n"
  by (simp add: be_bytes_def)

lemma length_mem_bytes [simp]: "length (mem_bytes e n w) = n"
  by (simp add: mem_bytes_def split: endian.split)

section \<open>Round trips\<close>

lemma of_le_bytes_Nil [simp]: "of_le_bytes [] = 0"
  by (simp add: of_le_bytes_def)

lemma of_le_bytes_Cons [simp]: "of_le_bytes (b # bs) = ucast b OR push_bit 8 (of_le_bytes bs)"
  by (simp add: of_le_bytes_def)

lemma bit_of_le_bytes:
  "bit (of_le_bytes bs :: 'a::len word) i \<longleftrightarrow>
     i < LENGTH('a) \<and> i div 8 < length bs \<and> bit (bs ! (i div 8)) (i mod 8)"
proof (induction bs arbitrary: i)
  case Nil
  then show ?case by simp
next
  case (Cons b bs)
  show ?case
  proof (cases "i < 8")
    case True
    then show ?thesis by (auto simp: bit_simps)
  next
    case False
    then obtain k where k: "i = k + 8" by (metis le_add_diff_inverse2 not_less)
    have "\<not> bit b i" using False bit_imp_le_length [of b i] by auto
    moreover have "(k + 8) div 8 = Suc (k div 8)" "(k + 8) mod 8 = k mod 8" by simp_all
    ultimately show ?thesis using Cons.IH [of k] by (auto simp: bit_simps k)
  qed
qed

lemma nth_le_bytes: "i < n \<Longrightarrow> le_bytes n w ! i = ucast (drop_bit (8 * i) w)"
  by (simp add: le_bytes_def)

lemma of_le_bytes_le_bytes [layout_simps]:
  assumes "LENGTH('a) = 8 * n"
  shows "of_le_bytes (le_bytes n w) = (w :: 'a::len word)"
proof (rule bit_word_eqI)
  fix i assume i: "i < LENGTH('a)"
  then have "i div 8 < n" using assms by simp
  moreover have "8 * (i div 8) + i mod 8 = i" by simp
  ultimately show "bit (of_le_bytes (le_bytes n w) :: 'a word) i = bit w i"
    using i by (simp add: bit_of_le_bytes nth_le_bytes bit_simps)
qed

lemma le_bytes_of_le_bytes [layout_simps]:
  assumes "LENGTH('a) = 8 * n" "length bs = n"
  shows "le_bytes n (of_le_bytes bs :: 'a::len word) = bs"
proof (rule nth_equalityI)
  show "length (le_bytes n (of_le_bytes bs :: 'a word)) = length bs" using assms by simp
next
  fix i assume "i < length (le_bytes n (of_le_bytes bs :: 'a word))"
  then have i: "i < n" by simp
  show "le_bytes n (of_le_bytes bs :: 'a word) ! i = bs ! i"
  proof (rule bit_word_eqI)
    fix j assume j: "j < LENGTH(8)"
    then have "(8 * i + j) div 8 = i" "(8 * i + j) mod 8 = j" "8 * i + j < LENGTH('a)"
      using i assms by auto
    with i j assms show "bit (le_bytes n (of_le_bytes bs :: 'a word) ! i) j = bit (bs ! i) j"
      by (simp add: nth_le_bytes bit_simps bit_of_le_bytes)
  qed
qed

lemma of_be_bytes_be_bytes [layout_simps]:
  "LENGTH('a) = 8 * n \<Longrightarrow> of_be_bytes (be_bytes n w) = (w :: 'a::len word)"
  by (simp add: of_be_bytes_def be_bytes_def layout_simps)

lemma of_mem_bytes_mem_bytes [layout_simps]:
  "LENGTH('a) = 8 * n \<Longrightarrow> of_mem_bytes e (mem_bytes e n w) = (w :: 'a::len word)"
  by (simp add: of_mem_bytes_def mem_bytes_def layout_simps split: endian.split)

lemma byteswap_byteswap [layout_simps]:
  "LENGTH('a) = 8 * n \<Longrightarrow> byteswap n (byteswap n w) = (w :: 'a::len word)"
  by (simp add: byteswap_def layout_simps)

text \<open>
  A value in network order, written to memory, is big-endian on either kind of host; a reader of
  either kind gets the value back.
\<close>

lemma mem_bytes_net_order [layout_simps]:
  "LENGTH('a) = 8 * n \<Longrightarrow> mem_bytes e n (net_order e n (w :: 'a::len word)) = be_bytes n w"
  by (simp add: mem_bytes_def net_order_def byteswap_def be_bytes_def layout_simps split: endian.split)

lemma net_order_of_mem_bytes [layout_simps]:
  assumes "LENGTH('a) = 8 * n" "length bs = n"
  shows "net_order e n (of_mem_bytes e bs :: 'a::len word) = of_be_bytes bs"
  using assms
  by (simp add: of_mem_bytes_def net_order_def byteswap_def of_be_bytes_def layout_simps
      split: endian.split)

lemma be_bytes_of_be_bytes [layout_simps]:
  "LENGTH('a) = 8 * n \<Longrightarrow> length bs = n \<Longrightarrow> be_bytes n (of_be_bytes bs :: 'a::len word) = bs"
  by (simp add: of_be_bytes_def be_bytes_def layout_simps)

section \<open>Integers in character arrays\<close>

definition be_chars :: "nat \<Rightarrow> 'a::len word \<Rightarrow> string" where
  "be_chars n w = map char_of_u8 (be_bytes n w)"

definition mem_chars :: "endian \<Rightarrow> nat \<Rightarrow> 'a::len word \<Rightarrow> string" where
  "mem_chars e n w = map char_of_u8 (mem_bytes e n w)"

definition of_mem_chars :: "endian \<Rightarrow> string \<Rightarrow> 'a::len word" where
  "of_mem_chars e cs = of_mem_bytes e (map u8_of_char cs)"

lemma length_mem_chars [simp]: "length (mem_chars e n w) = n"
  by (simp add: mem_chars_def)

lemma length_be_chars [simp]: "length (be_chars n w) = n"
  by (simp add: be_chars_def)

lemma of_mem_chars_mem_chars [layout_simps]:
  "LENGTH('a) = 8 * n \<Longrightarrow> of_mem_chars e (mem_chars e n w) = (w :: 'a::len word)"
  by (simp add: of_mem_chars_def mem_chars_def layout_simps)

lemma mem_chars_net_order [layout_simps]:
  "LENGTH('a) = 8 * n \<Longrightarrow> mem_chars e n (net_order e n (w :: 'a::len word)) = be_chars n w"
  by (simp add: mem_chars_def be_chars_def layout_simps)

lemma net_order_of_mem_chars_be_chars [layout_simps]:
  "LENGTH('a) = 8 * n \<Longrightarrow> net_order e n (of_mem_chars e (be_chars n w)) = (w :: 'a::len word)"
  by (simp add: of_mem_chars_def be_chars_def layout_simps)

end
