(* ===== verification/StdLib.thy ===== *)
theory StdLib
  imports Bytes
begin

text \<open>
  The parts of the C++ standard library that the program's logic rests on, as functions on HOL
  strings and lists: searching and slicing of \<^verbatim>\<open>std::string\<close>, \<^verbatim>\<open>std::getline\<close>, \<^verbatim>\<open>strnlen\<close>, decimal
  conversion (\<^verbatim>\<open>std::to_string\<close>, \<^verbatim>\<open>std::stoull\<close>, \<^verbatim>\<open>std::stoll\<close>, \<^verbatim>\<open>std::from_chars\<close>) and
  \<^verbatim>\<open>std::map<std::string, V>\<close> as an association list kept in key order. They are not code of this
  repository and carry no source lines.
\<close>

section \<open>Strings\<close>

abbreviation NUL :: char where "NUL \<equiv> CHR 0x00"
abbreviation LF :: char where "LF \<equiv> CHR 0x0A"
abbreviation COLON :: char where "COLON \<equiv> CHR '':''"
abbreviation PIPE :: char where "PIPE \<equiv> CHR ''|''"

fun index_of :: "char \<Rightarrow> string \<Rightarrow> nat option" where
  "index_of c [] = None"
| "index_of c (x # xs) = (if x = c then Some 0 else map_option Suc (index_of c xs))"

text \<open>\<open>s.find(c, pos)\<close>; \<open>None\<close> is \<^verbatim>\<open>npos\<close>.\<close>

definition str_find :: "char \<Rightarrow> nat \<Rightarrow> string \<Rightarrow> nat option" where
  "str_find c pos s = map_option ((+) pos) (index_of c (drop pos s))"

text \<open>\<open>s.substr(pos, n)\<close> for \<open>pos\<close> within the string, and \<open>s.substr(pos)\<close>.\<close>

definition substr :: "nat \<Rightarrow> nat \<Rightarrow> string \<Rightarrow> string" where
  "substr pos n s = take n (drop pos s)"

definition substr_from :: "nat \<Rightarrow> string \<Rightarrow> string" where
  "substr_from pos s = drop pos s"

fun contains_sub :: "string \<Rightarrow> string \<Rightarrow> bool" where
  "contains_sub pat [] = (pat = [])"
| "contains_sub pat (x # xs) = (prefix pat (x # xs) \<or> contains_sub pat xs)"

function getlines :: "string \<Rightarrow> string list" where
  "getlines [] = []"
| "getlines (x # xs) = takeWhile (\<lambda>c. c \<noteq> LF) (x # xs) #
     getlines (drop 1 (dropWhile (\<lambda>c. c \<noteq> LF) (x # xs)))"
  by pat_completeness auto
termination
proof (relation "measure length", goal_cases)
  case (2 x xs)
  have "length (dropWhile (\<lambda>c. c \<noteq> LF) (x # xs)) \<le> length (x # xs)" by (rule length_dropWhile_le)
  then show ?case by simp
qed simp

definition strnlen :: "string \<Rightarrow> nat \<Rightarrow> nat" where
  "strnlen s n = length (takeWhile (\<lambda>c. c \<noteq> NUL) (take n s))"

lemma index_of_None [std_simps]: "index_of c s = None \<longleftrightarrow> c \<notin> set s"
  by (induction s) auto

lemma index_of_absent [std_simps]: "c \<notin> set s \<Longrightarrow> index_of c s = None"
  by (simp add: index_of_None)

lemma index_of_append_stop [std_simps]: "c \<notin> set a \<Longrightarrow> index_of c (a @ c # b) = Some (length a)"
  by (induction a) auto

lemma index_of_Some_split:
  "index_of c s = Some i \<Longrightarrow> s = take i s @ c # drop (Suc i) s \<and> c \<notin> set (take i s) \<and> i < length s"
  by (induction s arbitrary: i) (auto split: if_splits)

lemma str_find_0 [std_simps]: "str_find c 0 s = index_of c s"
  by (cases "index_of c s") (simp_all add: str_find_def)

lemma str_find_append_stop [std_simps]:
  "length p = pos \<Longrightarrow> c \<notin> set a \<Longrightarrow> str_find c pos (p @ a @ c # b) = Some (pos + length a)"
  by (simp add: str_find_def index_of_append_stop)

lemma contains_sub_iff: "contains_sub pat s \<longleftrightarrow> (\<exists>a b. s = a @ pat @ b)"
proof (induction s)
  case Nil
  then show ?case by auto
next
  case (Cons x xs)
  show ?case
  proof
    assume "contains_sub pat (x # xs)"
    then consider "prefix pat (x # xs)" | "contains_sub pat xs" by auto
    then show "\<exists>a b. x # xs = a @ pat @ b"
    proof cases
      case 1
      then show ?thesis by (metis append_Nil prefixE)
    next
      case 2
      with Cons show ?thesis by (metis append_Cons)
    qed
  next
    assume "\<exists>a b. x # xs = a @ pat @ b"
    then obtain a b where ab: "x # xs = a @ pat @ b" by blast
    show "contains_sub pat (x # xs)"
    proof (cases a)
      case Nil
      with ab have "prefix pat (x # xs)" by simp
      then show ?thesis by simp
    next
      case (Cons y ys)
      with ab \<open>contains_sub pat xs \<longleftrightarrow> (\<exists>a b. xs = a @ pat @ b)\<close> show ?thesis by auto
    qed
  qed
qed

lemma strnlen_le: "strnlen s n \<le> n"
proof -
  have "length (takeWhile (\<lambda>c. c \<noteq> NUL) (take n s)) \<le> length (take n s)"
    by (rule length_takeWhile_le)
  then show ?thesis by (simp add: strnlen_def)
qed

lemma strnlen_append [std_simps]:
  "NUL \<notin> set a \<Longrightarrow> length a = n \<Longrightarrow> strnlen (a @ b) n = n"
proof -
  assume a: "NUL \<notin> set a" "length a = n"
  then have "takeWhile (\<lambda>c. c \<noteq> NUL) a = a" by (intro takeWhile_all) auto
  moreover have "take n (a @ b) = a" using a by simp
  ultimately show ?thesis unfolding strnlen_def using a(2) by (simp only:)
qed

section \<open>Decimal numbers\<close>

definition digit_char :: "nat \<Rightarrow> char" where
  "digit_char d = char_of (48 + d)"

definition is_digit :: "char \<Rightarrow> bool" where
  "is_digit c \<longleftrightarrow> 48 \<le> (of_char c :: nat) \<and> (of_char c :: nat) \<le> 57"

definition is_space :: "char \<Rightarrow> bool" where
  "is_space c \<longleftrightarrow> (of_char c :: nat) = 32 \<or> 9 \<le> (of_char c :: nat) \<and> (of_char c :: nat) \<le> 13"

definition digit_val :: "char \<Rightarrow> nat" where
  "digit_val c = of_char c - 48"

fun string_of_nat :: "nat \<Rightarrow> string" where
  "string_of_nat n = (if n < 10 then [digit_char n]
     else string_of_nat (n div 10) @ [digit_char (n mod 10)])"

declare string_of_nat.simps [simp del]

definition string_of_u64 :: "u64 \<Rightarrow> string" where
  "string_of_u64 w = string_of_nat (unat w)"

definition string_of_i64 :: "i64 \<Rightarrow> string" where
  "string_of_i64 w = (if sint w < 0 then CHR ''-'' # string_of_nat (nat (- sint w))
     else string_of_nat (nat (sint w)))"

definition nat_of_digits :: "string \<Rightarrow> nat" where
  "nat_of_digits ds = foldl (\<lambda>a c. 10 * a + digit_val c) 0 ds"

text \<open>
  \<open>std::from_chars\<close> into an unsigned integer: digits only, no sign and no leading space. \<open>None\<close>
  when there is no digit or the value does not fit (the target variable then keeps its value).
\<close>

definition from_chars_u :: "nat \<Rightarrow> string \<Rightarrow> nat option" where
  "from_chars_u w s = (let ds = takeWhile is_digit s; n = nat_of_digits ds
     in if ds = [] \<or> n \<ge> 2 ^ w then None else Some n)"

definition split_sign :: "string \<Rightarrow> bool \<times> string" where
  "split_sign s = (let t = dropWhile is_space s in
     case t of [] \<Rightarrow> (False, [])
     | c # r \<Rightarrow> if c = CHR ''-'' then (True, r) else if c = CHR ''+'' then (False, r) else (False, t))"

text \<open>
  \<open>std::stoull\<close> and \<open>std::stoll\<close> in base 10: leading white space and a sign are read, what
  follows the digits is ignored. \<open>None\<close> is either exception (\<open>invalid_argument\<close>,
  \<open>out_of_range\<close>). A minus sign makes \<open>stoull\<close> return the negated value modulo \<open>2 ^ 64\<close>.
\<close>

definition stoull :: "string \<Rightarrow> u64 option" where
  "stoull s = (let (neg, t) = split_sign s; ds = takeWhile is_digit t; n = nat_of_digits ds
     in if ds = [] \<or> n \<ge> 2 ^ 64 then None
        else Some (if neg then - word_of_nat n else word_of_nat n))"

definition stoll :: "string \<Rightarrow> i64 option" where
  "stoll s = (let (neg, t) = split_sign s; ds = takeWhile is_digit t; n = nat_of_digits ds
     in if ds = [] \<or> (if neg then n > 2 ^ 63 else n \<ge> 2 ^ 63) then None
        else Some (if neg then - word_of_nat n else word_of_nat n))"

lemma of_char_digit_char: "d < 10 \<Longrightarrow> (of_char (digit_char d) :: nat) = 48 + d"
  by (simp add: digit_char_def)

lemma is_digit_digit_char [simp]: "d < 10 \<Longrightarrow> is_digit (digit_char d)"
  by (simp add: is_digit_def of_char_digit_char)

lemma digit_val_digit_char [simp]: "d < 10 \<Longrightarrow> digit_val (digit_char d) = d"
  by (simp add: digit_val_def of_char_digit_char)

lemma string_of_nat_digits: "\<forall>c \<in> set (string_of_nat n). is_digit c"
proof (induction n rule: string_of_nat.induct)
  case (1 n)
  then show ?case by (cases "n < 10") (simp_all add: string_of_nat.simps [of n])
qed

lemma string_of_nat_nonempty [simp]: "string_of_nat n \<noteq> []"
  by (subst string_of_nat.simps) simp

lemma nat_of_digits_string_of_nat [std_simps]: "nat_of_digits (string_of_nat n) = n"
proof (induction n rule: string_of_nat.induct)
  case (1 n)
  then show ?case
    by (cases "n < 10") (simp_all add: string_of_nat.simps [of n] nat_of_digits_def)
qed

lemma string_of_nat_inject: "string_of_nat m = string_of_nat n \<longleftrightarrow> m = n"
  by (metis nat_of_digits_string_of_nat)

lemma not_is_digit_stops: "\<not> is_digit COLON" "\<not> is_digit PIPE" "\<not> is_digit LF"
  by (simp_all add: is_digit_def)

lemma string_of_nat_no_stops [simp]:
  "COLON \<notin> set (string_of_nat n)" "PIPE \<notin> set (string_of_nat n)" "LF \<notin> set (string_of_nat n)"
  using string_of_nat_digits [of n] not_is_digit_stops by blast+

lemma takeWhile_digits_append:
  "(rest = [] \<or> \<not> is_digit (hd rest)) \<Longrightarrow> takeWhile is_digit (string_of_nat n @ rest) = string_of_nat n"
proof (cases rest)
  case Nil
  then show ?thesis by (simp add: takeWhile_all string_of_nat_digits)
next
  case (Cons y ys)
  assume "rest = [] \<or> \<not> is_digit (hd rest)"
  with Cons show ?thesis by (simp add: takeWhile_append_stop string_of_nat_digits)
qed

lemma takeWhile_digits [simp]: "takeWhile is_digit (string_of_nat n) = string_of_nat n"
  by (simp add: takeWhile_all string_of_nat_digits)

lemma from_chars_string_of_nat [std_simps]:
  "n < 2 ^ w \<Longrightarrow> from_chars_u w (string_of_nat n) = Some n"
  by (simp add: from_chars_u_def nat_of_digits_string_of_nat)

lemma hd_string_of_nat: "is_digit (hd (string_of_nat n))"
  using string_of_nat_digits [of n] by (simp add: hd_in_set)

lemma digit_not_special:
  "is_digit c \<Longrightarrow> \<not> is_space c \<and> c \<noteq> CHR ''-'' \<and> c \<noteq> CHR ''+''"
  by (auto simp: is_digit_def is_space_def)

lemma split_sign_string_of_nat [std_simps]: "split_sign (string_of_nat n) = (False, string_of_nat n)"
proof (cases "string_of_nat n")
  case Nil
  then show ?thesis by simp
next
  case (Cons c r)
  then have "is_digit c" using hd_string_of_nat [of n] by simp
  with Cons show ?thesis by (simp add: split_sign_def digit_not_special)
qed

lemma split_sign_minus [std_simps]:
  "split_sign (CHR ''-'' # string_of_nat n) = (True, string_of_nat n)"
  by (simp add: split_sign_def is_space_def)

lemma stoull_string_of_u64 [std_simps]: "stoull (string_of_u64 w) = Some w"
proof -
  have "unat w < 2 ^ 64" using unsigned_less [of w] by simp
  then show ?thesis by (simp add: stoull_def string_of_u64_def std_simps Let_def)
qed

lemma stoll_string_of_i64 [std_simps]: "stoll (string_of_i64 w) = Some w"
proof -
  have b: "- (2 ^ 63) \<le> sint w" "sint w < 2 ^ 63"
    using sint_greater_eq [of w] sint_less [of w] by simp_all
  have w: "word_of_int (sint w) = w" by simp
  show ?thesis
  proof (cases "sint w < 0")
    case True
    then have "(word_of_nat (nat (- sint w)) :: i64) = word_of_int (- sint w)"
      by simp
    then have "- (word_of_nat (nat (- sint w)) :: i64) = w"
      by (metis add.inverse_inverse w wi_hom_neg)
    moreover have "\<not> nat (- sint w) > 2 ^ 63" using b by simp
    ultimately show ?thesis using True
      by (simp add: stoll_def string_of_i64_def std_simps)
  next
    case False
    then have "(word_of_nat (nat (sint w)) :: i64) = w" using w by simp
    moreover have "\<not> nat (sint w) \<ge> 2 ^ 63" using b False by simp
    ultimately show ?thesis using False
      by (simp add: stoll_def string_of_i64_def std_simps)
  qed
qed

section \<open>Clock readings\<close>

text \<open>
  \<open>std::format("{:%F %T}", t)\<close> and \<open>{:%T}\<close> for a time point in whole seconds since the epoch, of a
  year between 0 and 9999: the proleptic Gregorian date of the day number.
\<close>

definition civil_of_days :: "int \<Rightarrow> int \<times> int \<times> int" where
  "civil_of_days days =
     (let z = days + 719468; era = z div 146097; doe = z mod 146097;
          yoe = (doe - doe div 1460 + doe div 36524 - doe div 146096) div 365;
          doy = doe - (365 * yoe + yoe div 4 - yoe div 100);
          mp = (5 * doy + 2) div 153;
          d = doy - (153 * mp + 2) div 5 + 1;
          m = (if mp < 10 then mp + 3 else mp - 9);
          y = yoe + era * 400
      in (if m \<le> 2 then y + 1 else y, m, d))"

definition pad_left :: "nat \<Rightarrow> string \<Rightarrow> string" where
  "pad_left n s = replicate (n - length s) (CHR ''0'') @ s"

definition format_T :: "int \<Rightarrow> string" where
  "format_T secs =
     (let t = secs mod 86400
      in pad_left 2 (string_of_nat (nat (t div 3600))) @ '':''
         @ pad_left 2 (string_of_nat (nat (t div 60 mod 60))) @ '':''
         @ pad_left 2 (string_of_nat (nat (t mod 60))))"

definition format_F_T :: "int \<Rightarrow> string" where
  "format_F_T secs =
     (let (y, m, d) = civil_of_days (secs div 86400)
      in pad_left 4 (string_of_nat (nat y)) @ ''-'' @ pad_left 2 (string_of_nat (nat m)) @ ''-''
         @ pad_left 2 (string_of_nat (nat d)) @ '' '' @ format_T secs)"

section \<open>Ordered maps\<close>

type_synonym 'v smap = "(string \<times> 'v) list"

definition map_find :: "string \<Rightarrow> 'v smap \<Rightarrow> 'v option" where
  "map_find k m = map_of m k"

text \<open>\<open>m[k] = v\<close>: overwrites, or inserts at the place the key order gives.\<close>

fun map_put :: "string \<Rightarrow> 'v \<Rightarrow> 'v smap \<Rightarrow> 'v smap" where
  "map_put k v [] = [(k, v)]"
| "map_put k v ((k', v') # m) =
     (if k = k' then (k, v) # m
      else if k < k' then (k, v) # (k', v') # m
      else (k', v') # map_put k v m)"

definition map_ok :: "'v smap \<Rightarrow> bool" where
  "map_ok m \<longleftrightarrow> sorted_wrt (<) (map fst m)"

lemma map_find_put [std_simps]:
  "map_find k' (map_put k v m) = (if k' = k then Some v else map_find k' m)"
  by (induction k v m rule: map_put.induct) (auto simp: map_find_def)

lemma set_map_put: "set (map fst (map_put k v m)) = insert k (set (map fst m))"
  by (induction k v m rule: map_put.induct) auto

lemma map_ok_Nil [simp]: "map_ok []"
  by (simp add: map_ok_def)

lemma map_ok_put [simp]: "map_ok m \<Longrightarrow> map_ok (map_put k v m)"
proof (induction k v m rule: map_put.induct)
  case (1 k v)
  then show ?case by (simp add: map_ok_def)
next
  case (2 k v k' v' m)
  then have lt: "\<forall>x \<in> set (map fst m). k' < x" and ok: "map_ok m"
    by (auto simp: map_ok_def)
  show ?case
  proof (cases "k = k'")
    case True
    with "2.prems" show ?thesis by (simp add: map_ok_def)
  next
    case neq: False
    show ?thesis
    proof (cases "k < k'")
      case True
      have "\<forall>x \<in> set (map fst m). k < x" using lt True less_trans by blast
      with neq True "2.prems" show ?thesis by (simp add: map_ok_def)
    next
      case False
      then have "k' < k" using neq by simp
      then have "\<forall>x \<in> set (map fst (map_put k v m)). k' < x"
        using lt by (simp only: set_map_put) blast
      moreover have "map_ok (map_put k v m)" using "2.IH" neq False ok by blast
      ultimately show ?thesis using neq False by (simp add: map_ok_def)
    qed
  qed
qed

lemma map_ok_distinct: "map_ok m \<Longrightarrow> distinct (map fst m)"
  by (simp add: map_ok_def strict_sorted_iff)

lemma map_find_in_set: "map_find k m = Some v \<Longrightarrow> (k, v) \<in> set m"
  by (simp add: map_find_def map_of_SomeD)

lemma map_find_iff: "map_ok m \<Longrightarrow> map_find k m = Some v \<longleftrightarrow> (k, v) \<in> set m"
  by (simp add: map_find_def map_ok_distinct map_of_eq_Some_iff)

text \<open>Changing a value in place through an iterator the lookup returned.\<close>

fun map_upd :: "string \<Rightarrow> ('v \<Rightarrow> 'v) \<Rightarrow> 'v smap \<Rightarrow> 'v smap" where
  "map_upd k f [] = []"
| "map_upd k f ((k', v) # m) = (if k = k' then (k', f v) # m else (k', v) # map_upd k f m)"

lemma map_find_upd [std_simps]:
  "map_find k' (map_upd k f m) = (if k' = k then map_option f (map_find k m) else map_find k' m)"
  by (induction k f m rule: map_upd.induct) (auto simp: map_find_def)

lemma map_fst_upd [simp]: "map fst (map_upd k f m) = map fst m"
  by (induction k f m rule: map_upd.induct) auto

lemma map_ok_upd [simp]: "map_ok (map_upd k f m) = map_ok m"
  by (simp add: map_ok_def)

lemma map_upd_upd [std_simps]: "map_upd k f (map_upd k g m) = map_upd k (f \<circ> g) m"
  by (induction k g m rule: map_upd.induct) auto

lemma map_upd_commute: "k \<noteq> k' \<Longrightarrow> map_upd k f (map_upd k' g m) = map_upd k' g (map_upd k f m)"
  by (induction m) auto

lemma map_upd_put [std_simps]: "map_upd k f (map_put k v m) = map_put k (f v) m"
  by (induction k v m rule: map_put.induct) auto

lemma map_upd_none [std_simps]: "map_find k m = None \<Longrightarrow> map_upd k f m = m"
  by (induction k f m rule: map_upd.induct) (auto simp: map_find_def split: if_splits)

lemma map_upd_cong:
  "(\<And>v. map_find k m = Some v \<Longrightarrow> f v = g v) \<Longrightarrow> map_upd k f m = map_upd k g m"
  by (induction k f m rule: map_upd.induct) (auto simp: map_find_def)

lemma map_put_mset_new:
  "map_find k m = None \<Longrightarrow> mset (map_put k v m) = add_mset (k, v) (mset m)"
  by (induction k v m rule: map_put.induct) (auto simp: map_find_def split: if_splits)

lemma map_put_mset_old:
  "map_ok m \<Longrightarrow> map_find k m = Some v0 \<Longrightarrow>
     add_mset (k, v0) (mset (map_put k v m)) = add_mset (k, v) (mset m)"
proof (induction k v m rule: map_put.induct)
  case (1 k v)
  then show ?case by (simp add: map_find_def)
next
  case (2 k v k' v' m)
  show ?case
  proof (cases "k = k'")
    case True
    with "2.prems" show ?thesis by (simp add: map_find_def)
  next
    case neq: False
    then have m: "map_find k m = Some v0" using "2.prems" by (simp add: map_find_def)
    then have "k \<in> set (map fst m)" by (force dest: map_find_in_set)
    then have "\<not> k < k'" using "2.prems"(1) by (auto simp: map_ok_def)
    with neq m "2.prems" "2.IH" show ?thesis by (auto simp: map_ok_def add_mset_commute)
  qed
qed

end
