(* ===== verification/Sha256.thy ===== *)
theory Sha256
  imports Complex_Main StdLib
begin

text \<open>
  \<^verbatim>\<open>libs/base/sha256.hpp\<close>: the streaming SHA-256 context (\<^verbatim>\<open>ingest\<close>, \<^verbatim>\<open>finalize\<close>, \<^verbatim>\<open>processBlock\<close>),
  the one-shot \<^verbatim>\<open>hash\<close> and \<^verbatim>\<open>hashHex\<close>, and the password helpers. The model takes the byte order
  of the host as an argument, as the code's \<^verbatim>\<open>if constexpr\<close> does. The results: the streaming
  context absorbs a message the same way however it is cut into pieces, \<^verbatim>\<open>hash\<close> is the padded
  block-by-block computation of FIPS 180-4 on either byte order, and a generated salt has sixteen
  alphanumeric characters. The constants are the code's, written in decimal.
\<close>

section \<open>Word functions and constants\<close>

definition rotr :: "u32 \<Rightarrow> nat \<Rightarrow> u32" where
  "rotr x n = drop_bit n x OR push_bit (32 - n) x"

definition ch :: "u32 \<Rightarrow> u32 \<Rightarrow> u32 \<Rightarrow> u32" where
  "ch x y z = (x AND y) XOR (NOT x AND z)"

definition maj :: "u32 \<Rightarrow> u32 \<Rightarrow> u32 \<Rightarrow> u32" where
  "maj x y z = (x AND y) XOR (x AND z) XOR (y AND z)"

definition sigma0 :: "u32 \<Rightarrow> u32" where
  "sigma0 x = rotr x 2 XOR rotr x 13 XOR rotr x 22"

definition sigma1 :: "u32 \<Rightarrow> u32" where
  "sigma1 x = rotr x 6 XOR rotr x 11 XOR rotr x 25"

definition gamma0 :: "u32 \<Rightarrow> u32" where
  "gamma0 x = rotr x 7 XOR rotr x 18 XOR drop_bit 3 x"

definition gamma1 :: "u32 \<Rightarrow> u32" where
  "gamma1 x = rotr x 17 XOR rotr x 19 XOR drop_bit 10 x"

definition sha_K :: "u32 list" where
  "sha_K =
    [1116352408, 1899447441, 3049323471, 3921009573, 961987163, 1508970993,
     2453635748, 2870763221, 3624381080, 310598401, 607225278, 1426881987,
     1925078388, 2162078206, 2614888103, 3248222580, 3835390401, 4022224774,
     264347078, 604807628, 770255983, 1249150122, 1555081692, 1996064986,
     2554220882, 2821834349, 2952996808, 3210313671, 3336571891, 3584528711,
     113926993, 338241895, 666307205, 773529912, 1294757372, 1396182291,
     1695183700, 1986661051, 2177026350, 2456956037, 2730485921, 2820302411,
     3259730800, 3345764771, 3516065817, 3600352804, 4094571909, 275423344,
     430227734, 506948616, 659060556, 883997877, 958139571, 1322822218,
     1537002063, 1747873779, 1955562222, 2024104815, 2227730452, 2361852424,
     2428436474, 2756734187, 3204031479, 3329325298]"

definition sha_init_state :: "u32 list" where
  "sha_init_state =
    [1779033703, 3144134277, 1013904242, 2773480762,
     1359893119, 2600822924, 528734635, 1541459225]"

section \<open>The context\<close>

record sha256 =
  sha_state :: "u32 list"
  sha_count :: u64
  sha_buf :: "u8 list"
  sha_bufLen :: nat

definition Sha256_ctx :: sha256 where
  "Sha256_ctx = \<lparr>sha_state = sha_init_state, sha_count = 0, sha_buf = replicate 64 0, sha_bufLen = 0\<rparr>"

text \<open>\<^verbatim>\<open>memcpy\<close>/\<^verbatim>\<open>memset\<close> of the bytes \<open>xs\<close> to offset \<open>i\<close> of an array.\<close>

definition write_at :: "nat \<Rightarrow> 'a list \<Rightarrow> 'a list \<Rightarrow> 'a list" where
  "write_at i xs buf = take i buf @ xs @ drop (i + length xs) buf"

definition load_word :: "endian \<Rightarrow> u8 list \<Rightarrow> nat \<Rightarrow> u32" where
  "load_word e block i = net_order e 4 (of_mem_bytes e (take 4 (drop (i * 4) block)))"

definition message_schedule :: "endian \<Rightarrow> u8 list \<Rightarrow> u32 list" where
  "message_schedule e block =
     (let w = foldl (\<lambda>w i. w[i := load_word e block i]) (replicate 64 0) [0..<16]
      in foldl (\<lambda>w i. w[i := gamma1 (w ! (i - 2)) + w ! (i - 7) + gamma0 (w ! (i - 15)) + w ! (i - 16)])
           w [16..<64])"

type_synonym sha_regs = "u32 \<times> u32 \<times> u32 \<times> u32 \<times> u32 \<times> u32 \<times> u32 \<times> u32"

fun sha_round :: "u32 list \<Rightarrow> sha_regs \<Rightarrow> nat \<Rightarrow> sha_regs" where
  "sha_round w (a, b, c, d, e, f, g, h) i =
     (let t1 = sigma1 e + ch e f g + h + sha_K ! i + w ! i;
          t2 = sigma0 a + maj a b c
      in (t1 + t2, a, b, c, d + t1, e, f, g))"

definition processBlock :: "endian \<Rightarrow> u32 list \<Rightarrow> u8 list \<Rightarrow> u32 list" where
  "processBlock en st block =
     (let w = message_schedule en block;
          (a, b, c, d, e, f, g, h) =
            foldl (sha_round w) (st ! 0, st ! 1, st ! 2, st ! 3, st ! 4, st ! 5, st ! 6, st ! 7) [0..<64]
      in [st ! 0 + a, st ! 1 + b, st ! 2 + c, st ! 3 + d, st ! 4 + e, st ! 5 + f, st ! 6 + g, st ! 7 + h])"

text \<open>
  The loop of \<^verbatim>\<open>ingest\<close>. It makes no progress when the buffer is full on entry (\<open>bufLen = 64\<close>), so
  it is a partial function; \<open>ingest_returns\<close> shows that it always returns on a context the class
  can be in.
\<close>

partial_function (option) ingest_loop :: "endian \<Rightarrow> sha256 \<Rightarrow> u8 list \<Rightarrow> sha256 option" where
  "ingest_loop e s data =
     (if data = [] then Some s
      else let space = 64 - sha_bufLen s;
               n = min (length data) space;
               s = s\<lparr>sha_buf := write_at (sha_bufLen s) (take n data) (sha_buf s),
                     sha_bufLen := sha_bufLen s + n\<rparr>;
               data = drop n data;
               s = (if sha_bufLen s = 64
                    then s\<lparr>sha_state := processBlock e (sha_state s) (sha_buf s), sha_bufLen := 0\<rparr>
                    else s)
           in ingest_loop e s data)"

declare ingest_loop.simps [code]

definition ingest :: "endian \<Rightarrow> sha256 \<Rightarrow> u8 list \<Rightarrow> sha256 option" where
  "ingest e s data = ingest_loop e (s\<lparr>sha_count := sha_count s + word_of_nat (length data)\<rparr>) data"

definition finalize :: "endian \<Rightarrow> sha256 \<Rightarrow> u8 list \<times> sha256" where
  "finalize e s =
     (let s = s\<lparr>sha_buf := (sha_buf s)[sha_bufLen s := 128], sha_bufLen := sha_bufLen s + 1\<rparr>;
          s = (if sha_bufLen s > 56
               then let b = write_at (sha_bufLen s) (replicate (64 - sha_bufLen s) 0) (sha_buf s)
                    in s\<lparr>sha_buf := b, sha_state := processBlock e (sha_state s) b, sha_bufLen := 0\<rparr>
               else s);
          b = write_at (sha_bufLen s) (replicate (56 - sha_bufLen s) 0) (sha_buf s);
          bits = net_order e 8 (sha_count s * 8);
          b = write_at 56 (mem_bytes e 8 bits) b;
          st = processBlock e (sha_state s) b
      in (concat (map (\<lambda>i. mem_bytes e 4 (net_order e 4 (st ! i))) [0..<8]),
          s\<lparr>sha_buf := b, sha_state := st\<rparr>))"

definition Sha256_hash :: "endian \<Rightarrow> string \<Rightarrow> u8 list" where
  "Sha256_hash e data =
     (case ingest e Sha256_ctx (map u8_of_char data) of None \<Rightarrow> [] | Some s \<Rightarrow> fst (finalize e s))"

definition hex_digit :: "u8 \<Rightarrow> char" where
  "hex_digit d = ''0123456789abcdef'' ! unat d"

definition Sha256_hashHex :: "endian \<Rightarrow> string \<Rightarrow> string" where
  "Sha256_hashHex e data =
     concat (map (\<lambda>b. [hex_digit (drop_bit 4 b AND 15), hex_digit (b AND 15)]) (Sha256_hash e data))"

section \<open>Passwords and salts\<close>

definition hashPassword :: "endian \<Rightarrow> string \<Rightarrow> string \<Rightarrow> string" where
  "hashPassword e password salt = Sha256_hashHex e (salt @ '':'' @ password)"

definition salt_chars :: string where
  "salt_chars = ''abcdefghijklmnopqrstuvwxyzABCDEFGHIJKLMNOPQRSTUVWXYZ0123456789''"

fun salt_loop :: "nat \<Rightarrow> u64 \<Rightarrow> string" where
  "salt_loop 0 seed = []"
| "salt_loop (Suc n) seed =
     (let seed = seed * 6364136223846793005 + 1442695040888963407
      in salt_chars ! unat (drop_bit 32 seed mod 62) # salt_loop n seed)"

text \<open>
  The clock reading, the address of the local string and the thread's counter are the inputs; the
  incremented counter is returned with the salt.
\<close>

definition generateSalt :: "u64 \<Rightarrow> u64 \<Rightarrow> u64 \<Rightarrow> string \<times> u64" where
  "generateSalt now addr counter =
     (let counter = counter + 1; seed = now XOR addr XOR push_bit 32 counter
      in (salt_loop 16 seed, counter))"

section \<open>Absorbing a message\<close>

lemma length_write_at: "i + length xs \<le> length buf \<Longrightarrow> length (write_at i xs buf) = length buf"
  by (simp add: write_at_def)

lemma take_write_at: "i \<le> length buf \<Longrightarrow> take (i + length xs) (write_at i xs buf) = take i buf @ xs"
  by (simp add: write_at_def)

text \<open>
  \<open>absorbs e s m\<close>: the context has processed the complete blocks of the message \<open>m\<close> and holds the
  rest of it, less than a block, at the start of its buffer.
\<close>

definition absorbs :: "endian \<Rightarrow> sha256 \<Rightarrow> u8 list \<Rightarrow> bool" where
  "absorbs e s m \<longleftrightarrow> (\<exists>bs tail. m = concat bs @ tail \<and> (\<forall>b \<in> set bs. length b = 64) \<and>
     length tail < 64 \<and> sha_bufLen s = length tail \<and> length (sha_buf s) = 64 \<and>
     take (length tail) (sha_buf s) = tail \<and> sha_state s = foldl (processBlock e) sha_init_state bs)"

lemma absorbs_init: "absorbs e Sha256_ctx []"
  unfolding absorbs_def by (rule exI [of _ "[]"]) (simp add: Sha256_ctx_def)

lemma absorbs_count [simp]: "absorbs e (s\<lparr>sha_count := c\<rparr>) m = absorbs e s m"
  by (simp add: absorbs_def)

lemma absorbs_bufLen: "absorbs e s m \<Longrightarrow> sha_bufLen s < 64"
  by (auto simp: absorbs_def)

definition ingest_step :: "endian \<Rightarrow> sha256 \<Rightarrow> u8 list \<Rightarrow> sha256" where
  "ingest_step e s xs =
     (let s = s\<lparr>sha_buf := write_at (sha_bufLen s) xs (sha_buf s), sha_bufLen := sha_bufLen s + length xs\<rparr>
      in if sha_bufLen s = 64
         then s\<lparr>sha_state := processBlock e (sha_state s) (sha_buf s), sha_bufLen := 0\<rparr> else s)"

lemma absorbs_step:
  assumes a: "absorbs e s m" and n: "sha_bufLen s + length xs \<le> 64"
  shows "absorbs e (ingest_step e s xs) (m @ xs)"
proof -
  from a obtain bs tail where m: "m = concat bs @ tail" and bs: "\<forall>b \<in> set bs. length b = 64"
    and l: "length tail < 64" "sha_bufLen s = length tail" "length (sha_buf s) = 64"
    and t: "take (length tail) (sha_buf s) = tail"
    and st: "sha_state s = foldl (processBlock e) sha_init_state bs"
    by (auto simp: absorbs_def)
  let ?b = "write_at (length tail) xs (sha_buf s)"
  have lb: "length ?b = 64" using n l by (simp add: length_write_at)
  have tb: "take (length tail + length xs) ?b = tail @ xs" using l t by (simp add: take_write_at)
  show ?thesis
  proof (cases "length tail + length xs = 64")
    case True
    then have "?b = tail @ xs" using tb lb by simp
    with True st bs lb m show ?thesis
      by (intro absorbs_def [THEN iffD2] exI [of _ "bs @ [tail @ xs]"] exI [of _ "[]"])
        (simp add: ingest_step_def l Let_def)
  next
    case False
    with n l have "length tail + length xs < 64" by simp
    with False st bs lb m tb show ?thesis
      by (intro absorbs_def [THEN iffD2] exI [of _ bs] exI [of _ "tail @ xs"])
        (simp add: ingest_step_def l Let_def)
  qed
qed

lemma ingest_loop_step:
  assumes "data \<noteq> []"
  shows "ingest_loop e s data = (let n = min (length data) (64 - sha_bufLen s)
    in ingest_loop e (ingest_step e s (take n data)) (drop n data))"
proof -
  let ?n = "min (length data) (64 - sha_bufLen s)"
  have l: "length (take ?n data) = ?n" by simp
  show ?thesis unfolding ingest_step_def Let_def l
    by (subst ingest_loop.simps) (simp only: assms if_False Let_def)
qed

lemma ingest_loop_absorbs:
  "absorbs e s m \<Longrightarrow>
     \<exists>s'. ingest_loop e s d = Some s' \<and> absorbs e s' (m @ d) \<and> sha_count s' = sha_count s"
proof (induction "length d" arbitrary: s m d rule: less_induct)
  case less
  show ?case
  proof (cases "d = []")
    case True
    with less.prems show ?thesis by (simp add: ingest_loop.simps)
  next
    case False
    let ?n = "min (length d) (64 - sha_bufLen s)"
    let ?s = "ingest_step e s (take ?n d)"
    have b: "sha_bufLen s < 64" using less.prems by (rule absorbs_bufLen)
    then have "absorbs e ?s (m @ take ?n d)" using less.prems by (intro absorbs_step) auto
    moreover have "length (drop ?n d) < length d" using False b by (cases d) auto
    ultimately obtain s' where "ingest_loop e ?s (drop ?n d) = Some s'"
      "absorbs e s' ((m @ take ?n d) @ drop ?n d)" "sha_count s' = sha_count ?s"
      using less.hyps by blast
    moreover have "sha_count ?s = sha_count s" by (simp add: ingest_step_def Let_def)
    ultimately show ?thesis by (simp add: ingest_loop_step [OF False] Let_def)
  qed
qed

definition absorbed :: "endian \<Rightarrow> sha256 \<Rightarrow> u8 list \<Rightarrow> bool" where
  "absorbed e s m \<longleftrightarrow> absorbs e s m \<and> sha_count s = word_of_nat (length m)"

lemma ingest_absorbed:
  assumes "absorbed e s m"
  shows "\<exists>s'. ingest e s d = Some s' \<and> absorbed e s' (m @ d)"
proof -
  let ?s = "s\<lparr>sha_count := sha_count s + word_of_nat (length d)\<rparr>"
  have "absorbs e ?s m" using assms by (simp add: absorbed_def)
  from ingest_loop_absorbs [OF this, of d] assms show ?thesis
    by (auto simp: ingest_def absorbed_def)
qed

lemma absorbed_init: "absorbed e Sha256_ctx []"
  by (simp add: absorbed_def absorbs_init) (simp add: Sha256_ctx_def)

lemma ingest_returns: "\<exists>s. ingest e Sha256_ctx d = Some s \<and> absorbed e s d"
  using ingest_absorbed [OF absorbed_init] by simp

section \<open>The standard's computation\<close>

text \<open>
  FIPS 180-4, written out from the standard and sharing no definition with the code's model: its six
  logical functions over the library's rotation of words, its constants as the first 32 bits of the
  fractional parts of the cube roots of the first 64 primes (the round constants) and of the square
  roots of the first 8 (the initial hash value), padding to a multiple of 64 bytes, the schedule as a
  recurrence over the big-endian words of a block, the 64 rounds, and the digest as the big-endian
  words of the last hash value.
\<close>

definition fips_Ch :: "u32 \<Rightarrow> u32 \<Rightarrow> u32 \<Rightarrow> u32" where
  "fips_Ch x y z = (x AND y) XOR (NOT x AND z)"

definition fips_Maj :: "u32 \<Rightarrow> u32 \<Rightarrow> u32 \<Rightarrow> u32" where
  "fips_Maj x y z = (x AND y) XOR (x AND z) XOR (y AND z)"

definition fips_Sigma0 :: "u32 \<Rightarrow> u32" where
  "fips_Sigma0 x = word_rotr 2 x XOR word_rotr 13 x XOR word_rotr 22 x"

definition fips_Sigma1 :: "u32 \<Rightarrow> u32" where
  "fips_Sigma1 x = word_rotr 6 x XOR word_rotr 11 x XOR word_rotr 25 x"

definition fips_sigma0 :: "u32 \<Rightarrow> u32" where
  "fips_sigma0 x = word_rotr 7 x XOR word_rotr 18 x XOR drop_bit 3 x"

definition fips_sigma1 :: "u32 \<Rightarrow> u32" where
  "fips_sigma1 x = word_rotr 17 x XOR word_rotr 19 x XOR drop_bit 10 x"

definition is_prime :: "nat \<Rightarrow> bool" where
  "is_prime n \<longleftrightarrow> 1 < n \<and> (\<forall>d \<in> set [2..<n]. \<not> d dvd n)"

definition fips_primes :: "nat list" where
  "fips_primes = take 64 (filter is_prime [2..<312])"

definition fips_fraction :: "nat \<Rightarrow> nat \<Rightarrow> u32" where
  "fips_fraction k p = word_of_int \<lfloor>2 ^ 32 * frac (root k (real p))\<rfloor>"

definition fips_K :: "nat \<Rightarrow> u32" where
  "fips_K t = fips_fraction 3 (fips_primes ! t)"

definition fips_H0 :: "u32 list" where
  "fips_H0 = map (fips_fraction 2) (take 8 fips_primes)"

fun fips_W :: "u8 list \<Rightarrow> nat \<Rightarrow> u32" where
  "fips_W block t = (if t < 16 then of_be_bytes (take 4 (drop (4 * t) block))
     else fips_sigma1 (fips_W block (t - 2)) + fips_W block (t - 7)
        + fips_sigma0 (fips_W block (t - 15)) + fips_W block (t - 16))"

declare fips_W.simps [simp del]

fun fips_round :: "(nat \<Rightarrow> u32) \<Rightarrow> nat \<Rightarrow> sha_regs \<Rightarrow> sha_regs" where
  "fips_round W t (a, b, c, d, e, f, g, h) =
     (let T1 = h + fips_Sigma1 e + fips_Ch e f g + fips_K t + W t;
          T2 = fips_Sigma0 a + fips_Maj a b c
      in (T1 + T2, a, b, c, d + T1, e, f, g))"

fun fips_rounds :: "(nat \<Rightarrow> u32) \<Rightarrow> nat \<Rightarrow> sha_regs \<Rightarrow> sha_regs" where
  "fips_rounds W 0 r = r"
| "fips_rounds W (Suc t) r = fips_round W t (fips_rounds W t r)"

definition fips_compress :: "u32 list \<Rightarrow> u8 list \<Rightarrow> u32 list" where
  "fips_compress st block =
     (let (a, b, c, d, e, f, g, h) =
        fips_rounds (fips_W block) 64
          (st ! 0, st ! 1, st ! 2, st ! 3, st ! 4, st ! 5, st ! 6, st ! 7)
      in map (\<lambda>(x, y). x + y) (zip (take 8 st) [a, b, c, d, e, f, g, h]))"

definition fips_pad :: "u8 list \<Rightarrow> u8 list" where
  "fips_pad m = m @ [128] @ replicate ((119 - length m mod 64) mod 64) 0
     @ be_bytes 8 (word_of_nat (8 * length m) :: u64)"

function fips_blocks :: "u8 list \<Rightarrow> u8 list list" where
  "fips_blocks xs = (if xs = [] then [] else take 64 xs # fips_blocks (drop 64 xs))"
  by pat_completeness auto
termination by (relation "measure length") auto

declare fips_blocks.simps [simp del]

definition fips_sha256 :: "u8 list \<Rightarrow> u8 list" where
  "fips_sha256 m =
     concat (map (be_bytes 4) (foldl fips_compress fips_H0 (fips_blocks (fips_pad m))))"

section \<open>The code's functions and constants are the standard's\<close>

lemma rotr_word_rotr: "0 < n \<Longrightarrow> n < 32 \<Longrightarrow> rotr x n = word_rotr n x"
proof (rule bit_word_eqI)
  fix i :: nat
  assume n: "0 < n" "n < 32" and i: "i < LENGTH(32)"
  then have i: "i < 32" by simp
  have "(i + n) mod 32 = (if i + n < 32 then i + n else i + n - 32)" using n i by (simp add: mod_if)
  moreover have "bit (rotr x n) i \<longleftrightarrow> bit x (i + n) \<or> 32 \<le> i + n \<and> bit x (i + n - 32)"
    using n i by (auto simp: rotr_def bit_or_iff bit_drop_bit_eq bit_push_bit_iff add.commute)
  moreover have "\<not> bit x (i + n)" if "32 \<le> i + n" using that bit_imp_le_length [of x "i + n"] by auto
  moreover have "bit (word_rotr n x) i \<longleftrightarrow> bit x ((i + n) mod 32)"
    using i bit_word_rotr_iff [of n x i] by (simp add: add.commute)
  ultimately show "bit (rotr x n) i = bit (word_rotr n x) i" by auto
qed

lemma sha_functions_fips:
  "ch x y z = fips_Ch x y z" "maj x y z = fips_Maj x y z"
  "sigma0 x = fips_Sigma0 x" "sigma1 x = fips_Sigma1 x"
  "gamma0 x = fips_sigma0 x" "gamma1 x = fips_sigma1 x"
  by (simp_all add: ch_def fips_Ch_def maj_def fips_Maj_def sigma0_def fips_Sigma0_def sigma1_def
      fips_Sigma1_def gamma0_def fips_sigma0_def gamma1_def fips_sigma1_def rotr_word_rotr)

text \<open>
  The first 32 bits of the fraction of a root, from integers: \<open>c\<close> is the root scaled by \<open>2 ^ 32\<close> and
  rounded down exactly when its power brackets the scaled radicand.
\<close>

lemma fips_fraction_eq:
  assumes k: "0 < k" and lo: "c ^ k \<le> p * 2 ^ (32 * k)" and hi: "p * 2 ^ (32 * k) < Suc c ^ k"
  shows "fips_fraction k p = word_of_nat c"
proof -
  let ?x = "root k (real p)"
  have p: "(2 ^ 32 * ?x) ^ k = real p * 2 ^ (32 * k)"
    using k by (simp only: power_mult power_mult_distrib real_root_pow_pos2 of_nat_0_le_iff mult.commute [of _ "real p"])
  have nonneg: "0 \<le> 2 ^ 32 * ?x" using k by (simp add: real_root_ge_zero)
  have "real c ^ k \<le> (2 ^ 32 * ?x) ^ k"
    unfolding p using of_nat_mono [OF lo] by (simp only: of_nat_mult of_nat_numeral of_nat_power)
  then have 1: "real c \<le> 2 ^ 32 * ?x" using k nonneg by (subst (asm) power_mono_iff) simp_all
  have "(2 ^ 32 * ?x) ^ k < real (Suc c) ^ k"
    unfolding p using hi [THEN of_nat_less_iff [THEN iffD2]]
    by (simp only: of_nat_mult of_nat_numeral of_nat_power)
  then have "2 ^ 32 * ?x < real (Suc c)" by (rule power_less_imp_less_base) simp
  then have 2: "2 ^ 32 * ?x < real c + 1" by simp
  have "2 ^ 32 * frac ?x = 2 ^ 32 * ?x - of_int (2 ^ 32 * \<lfloor>?x\<rfloor>)" by (simp add: frac_def algebra_simps)
  then have "\<lfloor>2 ^ 32 * frac ?x\<rfloor> = \<lfloor>2 ^ 32 * ?x\<rfloor> - 2 ^ 32 * \<lfloor>?x\<rfloor>" by (metis floor_diff_of_int)
  moreover have "\<lfloor>2 ^ 32 * ?x\<rfloor> = int c" using 1 2 by (intro floor_unique) simp_all
  moreover have "(word_of_int (2 ^ 32 * \<lfloor>?x\<rfloor>) :: u32) = 0"
    by (simp only: word_of_int_eq_0_iff) simp
  ultimately show ?thesis by (simp add: fips_fraction_def)
qed

lemma fips_fractions_eq:
  "list_all2 (\<lambda>p c. c ^ k \<le> p * 2 ^ (32 * k) \<and> p * 2 ^ (32 * k) < Suc c ^ k) ps cs \<Longrightarrow> 0 < k \<Longrightarrow>
     map (fips_fraction k) ps = map word_of_nat cs"
  by (induction rule: list_all2_induct) (simp_all add: fips_fraction_eq)

text \<open>The primes, and the scaled cube roots of all and square roots of the first eight.\<close>

definition fips_cube_roots :: "nat list" where
  "fips_cube_roots =
    [5411319704, 6194414737, 7344290767, 8215976869, 9551921755, 10098905585, 11043570340,
     11460697813, 12214315672, 13195500289, 13492127166, 14311783875, 14809980276, 15046980094,
     15499789991, 16133124468, 16720292289, 16907126662, 17444216262, 17784676812, 17950125167,
     18429019306, 18734950876, 19175934170, 19734090066, 20001703533, 20132865992, 20390182855,
     20516441075, 20764397895, 21588763473, 21813078375, 22141143685, 22248366392, 22769593852,
     22871018771, 23170020180, 23461497531, 23651862830, 23931792517, 24205322401, 24295138891,
     24734567280, 24820601251, 24990902297, 25075189284, 25569408389, 26045227120, 26200031510,
     26276752392, 26428864332, 26653801653, 26727943347, 27092625994, 27306805839, 27517677555,
     27725365998, 27793908591, 27997534228, 28131656200, 28198240250, 28526537963, 28973835255,
     29099129074]"

definition fips_square_roots :: "nat list" where
  "fips_square_roots =
    [6074000999, 7439101573, 9603838834, 11363415354, 14244795007, 15485724812, 17708603819,
     18721328409]"

lemma small_prime_divisor:
  assumes "2 \<le> (d::nat)" "d \<le> 17"
  shows "\<exists>q \<in> set [2, 3, 5, 7, 11, 13, 17]. q dvd d"
proof -
  have "\<forall>d \<in> set [2..<18]. \<exists>q \<in> set [2, 3, 5, 7, 11, 13, 17 :: nat]. q dvd d" by simp
  moreover have "d \<in> set [2..<18]" using assms by (simp del: upt_rec_numeral)
  ultimately show ?thesis by (rule bspec)
qed

lemma is_prime_iff:
  assumes "n < 324"
  shows "is_prime n \<longleftrightarrow> 1 < n \<and> list_all (\<lambda>q. n mod q = 0 \<longrightarrow> n \<le> q) [2, 3, 5, 7, 11, 13, 17]"
proof (cases "1 < n")
  case True
  let ?P = "\<lambda>q. q \<in> set [2, 3, 5, 7, 11, 13, 17] \<and> q dvd n \<and> q < n"
  have "\<exists>q. ?P q" if "d dvd n" "2 \<le> d" "d < n" for d
  proof -
    note dd = that(2,3)
    from that obtain e where e: "n = d * e" by (auto simp: dvd_def)
    then have b: "1 < e" "e < n" using that by (auto intro: Nat.gr0I)
    have "d \<le> 17 \<or> e \<le> 17"
    proof (rule ccontr)
      assume "\<not> ?thesis"
      then have "18 * 18 \<le> d * e" by (intro mult_le_mono) auto
      with e assms show False by simp
    qed
    moreover have "d dvd n" "e dvd n" "2 \<le> e" using e b by simp_all
    ultimately obtain f where f: "f dvd n" "2 \<le> f" "f \<le> 17" "f < n"
      using dd b(2) by (elim disjE)
    from small_prime_divisor [OF f(2,3)] obtain q where q: "q \<in> set [2, 3, 5, 7, 11, 13, 17]" "q dvd f" ..
    then have "q \<le> f" using f(2) by (intro dvd_imp_le) simp_all
    with q f have "?P q" by (intro conjI) (simp_all only: dvd_trans [OF q(2) f(1)] le_less_trans)
    then show ?thesis ..
  qed
  moreover have "2 \<le> q" if "?P q" for q using that by auto
  ultimately have "(\<forall>d. 2 \<le> d \<and> d < n \<longrightarrow> \<not> d dvd n) \<longleftrightarrow> \<not> (\<exists>q. ?P q)" by metis
  with True show ?thesis
    by (auto simp: is_prime_def list_all_iff mod_eq_0_iff_dvd not_less)
qed (simp add: is_prime_def)

lemma fips_primes_list:
  "fips_primes =
    [2, 3, 5, 7, 11, 13, 17, 19, 23, 29, 31, 37, 41, 43, 47, 53, 59, 61, 67, 71, 73, 79, 83, 89,
     97, 101, 103, 107, 109, 113, 127, 131, 137, 139, 149, 151, 157, 163, 167, 173, 179, 181,
     191, 193, 197, 199, 211, 223, 227, 229, 233, 239, 241, 251, 257, 263, 269, 271, 277, 281,
     283, 293, 307, 311]"
  by (simp add: fips_primes_def is_prime_iff upt_rec_numeral)

lemma fips_K_sha_K:
  assumes "t < 64"
  shows "fips_K t = sha_K ! t"
proof -
  have "list_all2 (\<lambda>p c. c ^ 3 \<le> p * 2 ^ (32 * 3) \<and> p * 2 ^ (32 * 3) < Suc c ^ 3) fips_primes fips_cube_roots"
    by (simp add: fips_primes_list fips_cube_roots_def)
  then have m: "map (fips_fraction 3) fips_primes = map word_of_nat fips_cube_roots"
    by (rule fips_fractions_eq) simp
  have c: "map word_of_nat fips_cube_roots = sha_K"
    by (simp add: fips_cube_roots_def sha_K_def)
  have "length fips_primes = 64" by (simp add: fips_primes_list)
  then have "fips_K t = map (fips_fraction 3) fips_primes ! t" using assms by (simp add: fips_K_def)
  then show ?thesis by (simp only: m c)
qed

lemma fips_H0_sha_init_state: "fips_H0 = sha_init_state"
proof -
  let ?ps = "[2, 3, 5, 7, 11, 13, 17, 19]"
  have "list_all2 (\<lambda>p c. c ^ 2 \<le> p * 2 ^ (32 * 2) \<and> p * 2 ^ (32 * 2) < Suc c ^ 2) ?ps fips_square_roots"
    by (simp add: fips_square_roots_def)
  then have m: "map (fips_fraction 2) ?ps = map word_of_nat fips_square_roots"
    by (rule fips_fractions_eq) simp
  have c: "map word_of_nat fips_square_roots = sha_init_state"
    by (simp add: fips_square_roots_def sha_init_state_def)
  have "fips_H0 = map (fips_fraction 2) ?ps"
    by (simp add: fips_H0_def fips_primes_list)
  then show ?thesis by (simp only: m c)
qed

lemma sha_round_fips:
  "t < 64 \<Longrightarrow> sha_round w r t = fips_round ((!) w) t r"
  by (induction w r t rule: sha_round.induct)
    (simp add: sha_functions_fips fips_K_sha_K Let_def ac_simps)

lemma sha_rounds_fips:
  "n \<le> 64 \<Longrightarrow> foldl (sha_round (map W [0..<64])) r [0..<n] = fips_rounds W n r"
proof (induction n)
  case (Suc n)
  have "fips_round ((!) (map W [0..<64])) n q = fips_round W n q" for q
    using Suc.prems by (cases "(W, n, q)" rule: fips_round.cases) (simp add: Let_def del: upt_rec_numeral)
  with Suc show ?case by (simp add: sha_round_fips)
qed simp

lemma load_word_be:
  "4 * i + 4 \<le> length block \<Longrightarrow> load_word e block i = of_be_bytes (take 4 (drop (4 * i) block))"
  by (simp add: load_word_def net_order_of_mem_bytes mult.commute)

lemma schedule_first:
  "k \<le> 16 \<Longrightarrow> length block = 64 \<Longrightarrow>
     (let w = foldl (\<lambda>w i. w[i := load_word e block i]) (replicate 64 0) [0..<k]
      in length w = 64 \<and> (\<forall>t < k. w ! t = fips_W block t))"
proof (induction k)
  case 0
  then show ?case by simp
next
  case (Suc k)
  then show ?case
    by (auto simp: Let_def nth_list_update less_Suc_eq load_word_be fips_W.simps [of block k])
qed

lemma schedule_rest:
  assumes "length w0 = 64" "\<forall>t < 16. w0 ! t = fips_W block t"
  shows "16 + k \<le> 64 \<Longrightarrow>
     (let w = foldl (\<lambda>w i. w[i := gamma1 (w ! (i - 2)) + w ! (i - 7) + gamma0 (w ! (i - 15)) + w ! (i - 16)])
                w0 [16..<16 + k]
      in length w = 64 \<and> (\<forall>t < 16 + k. w ! t = fips_W block t))"
proof (induction k)
  case 0
  then show ?case using assms by simp
next
  case (Suc k)
  have "[16..<16 + Suc k] = [16..<16 + k] @ [16 + k]"
    using upt_Suc_append [of 16 "16 + k"] by simp
  with Suc show ?case
    by (auto simp: Let_def nth_list_update less_Suc_eq fips_W.simps [of block "16 + k"]
        sha_functions_fips simp del: upt_Suc)
qed

lemma message_schedule_fips:
  assumes "length block = 64"
  shows "message_schedule e block = map (fips_W block) [0..<64]"
proof -
  let ?w0 = "foldl (\<lambda>w i. w[i := load_word e block i]) (replicate 64 0) [0..<16]"
  have "length ?w0 = 64" "\<forall>t < 16. ?w0 ! t = fips_W block t"
    using schedule_first [of 16 block e] assms by (simp_all add: Let_def)
  from schedule_rest [OF this, of 48]
  have "length (message_schedule e block) = 64 \<and> (\<forall>t < 64. message_schedule e block ! t = fips_W block t)"
    unfolding message_schedule_def Let_def by (simp del: upt_rec_numeral)
  then show ?thesis by (intro nth_equalityI) (simp_all del: upt_rec_numeral)
qed

lemma length_processBlock [simp]: "length (processBlock e st block) = 8"
  by (simp add: processBlock_def Let_def split: prod.split)

lemma processBlock_fips:
  assumes "length block = 64" "length st = 8"
  shows "processBlock e st block = fips_compress st block"
proof -
  have "take 8 st = [st ! 0, st ! 1, st ! 2, st ! 3, st ! 4, st ! 5, st ! 6, st ! 7]"
    using assms(2) by (intro nth_equalityI) (auto simp: less_Suc_eq numeral_eq_Suc)
  then show ?thesis
    by (simp add: processBlock_def fips_compress_def message_schedule_fips [OF assms(1)]
        sha_rounds_fips Let_def split: prod.split del: upt_rec_numeral)
qed

lemma length_sha_init_state [simp]: "length sha_init_state = 8"
  by (simp add: sha_init_state_def)

lemma foldl_processBlock_length:
  "length st = 8 \<Longrightarrow> length (foldl (processBlock e) st bs) = 8"
  by (induction bs arbitrary: st) auto

lemma foldl_processBlock_fips:
  "\<forall>b \<in> set bs. length b = 64 \<Longrightarrow> length st = 8 \<Longrightarrow>
     foldl (processBlock e) st bs = foldl fips_compress st bs"
proof (induction bs arbitrary: st)
  case (Cons b bs)
  have "length (processBlock e st b) = 8" by simp
  with Cons.IH [of "processBlock e st b"] Cons.prems show ?case
    by (simp add: processBlock_fips)
qed simp

lemma fips_blocks_concat:
  "\<forall>b \<in> set bs. length b = 64 \<Longrightarrow> fips_blocks (concat bs) = bs"
proof (induction bs)
  case Nil
  then show ?case by (simp add: fips_blocks.simps)
next
  case (Cons b bs)
  then have "b \<noteq> []" by auto
  with Cons show ?case by (simp add: fips_blocks.simps [of "b @ concat bs"])
qed

section \<open>The digest\<close>

text \<open>The padding blocks \<^verbatim>\<open>finalize\<close> processes after the last complete block of the message.\<close>

definition last_blocks :: "u8 list \<Rightarrow> u64 \<Rightarrow> u8 list list" where
  "last_blocks tail bits =
     (if length tail < 56 then [tail @ [128] @ replicate (55 - length tail) 0 @ be_bytes 8 bits]
      else [tail @ [128] @ replicate (63 - length tail) 0, replicate 56 0 @ be_bytes 8 bits])"

lemma write_at_take:
  "i \<le> length buf \<Longrightarrow> i + length xs = j \<Longrightarrow> take j (write_at i xs buf) = take i buf @ xs"
  by (auto simp: write_at_def)

lemma write_at_full:
  "i + length xs = length buf \<Longrightarrow> write_at i xs buf = take i buf @ xs"
  by (simp add: write_at_def)

lemma finalize_blocks:
  assumes b: "length (sha_buf s) = 64" "take (sha_bufLen s) (sha_buf s) = tail" "sha_bufLen s < 64"
  shows "fst (finalize e s) = concat (map (be_bytes 4)
     (map ((!) (foldl (processBlock e) (sha_state s) (last_blocks tail (sha_count s * 8)))) [0..<8]))"
proof -
  let ?n = "sha_bufLen s" and ?bits = "mem_bytes e 8 (net_order e 8 (sha_count s * 8))"
  let ?b1 = "(sha_buf s)[?n := 128]"
  have n: "length tail = ?n" using b by auto
  have bits: "?bits = be_bytes 8 (sha_count s * 8)" by (simp add: mem_bytes_net_order)
  have t1: "take (Suc ?n) ?b1 = tail @ [128]" using b by (simp add: take_Suc_update)
  have out: "map (\<lambda>i. mem_bytes e 4 (net_order e 4 (st ! i))) [0..<8]
      = map (be_bytes 4) (map ((!) st) [0..<8])" for st :: "u32 list"
    by (simp add: mem_bytes_net_order)
  show ?thesis
  proof (cases "?n < 56")
    case True
    let ?b2 = "write_at (Suc ?n) (replicate (55 - ?n) 0) ?b1"
    have t2: "take 56 ?b2 = tail @ [128] @ replicate (55 - ?n) 0"
      using True b by (subst write_at_take) (simp_all add: t1)
    have "length ?b2 = 64" using True b by (simp add: length_write_at)
    then have "write_at 56 ?bits ?b2 = last_blocks tail (sha_count s * 8) ! 0"
      using True by (subst write_at_full) (simp_all add: t2 bits last_blocks_def n)
    then show ?thesis using True
      by (simp add: finalize_def Let_def out last_blocks_def n)
  next
    case False
    let ?b2 = "write_at (Suc ?n) (replicate (63 - ?n) 0) ?b1"
    let ?b3 = "write_at 0 (replicate 56 0) ?b2"
    have b2: "?b2 = tail @ [128] @ replicate (63 - ?n) 0"
      using False b by (subst write_at_full) (simp_all add: t1)
    have "length ?b2 = 64" using b by (simp add: length_write_at)
    then have l3: "length ?b3 = 64" by (simp add: length_write_at)
    have "take 56 ?b3 = replicate 56 0" by (subst write_at_take) simp_all
    with l3 have b3: "write_at 56 ?bits ?b3 = replicate 56 0 @ be_bytes 8 (sha_count s * 8)"
      by (subst write_at_full) (simp_all add: bits)
    have "fst (finalize e s) = concat (map (be_bytes 4) (map ((!) (processBlock e
        (processBlock e (sha_state s) ?b2) (write_at 56 ?bits ?b3))) [0..<8]))"
      using False by (simp add: finalize_def Let_def out)
    then show ?thesis using False by (simp only: b2 b3 [unfolded b2]) (simp add: last_blocks_def n)
  qed
qed

lemma fips_pad_blocks:
  assumes "\<forall>b \<in> set bs. length b = 64" "length tail < 64"
  shows "fips_blocks (fips_pad (concat bs @ tail)) =
    bs @ last_blocks tail (word_of_nat (length (concat bs @ tail)) * 8)"
proof -
  let ?m = "concat bs @ tail" and ?n = "length tail"
  let ?bits = "word_of_nat (length ?m) * 8 :: u64"
  have "length (concat bs) = 64 * length bs"
    using assms(1) by (induction bs) auto
  then have n: "length ?m mod 64 = ?n" using assms(2) by simp
  have bits: "(word_of_nat (8 * length ?m) :: u64) = ?bits" by (simp add: mult.commute)
  have "fips_pad ?m = concat (bs @ last_blocks tail ?bits)"
  proof (cases "?n < 56")
    case True
    then have "119 - ?n = (55 - ?n) + 64" by simp
    moreover have "((55 - ?n) + 64) mod 64 = 55 - ?n" by simp
    ultimately have "(119 - ?n) mod 64 = 55 - ?n" by (simp only:)
    with True show ?thesis unfolding fips_pad_def n bits by (simp add: last_blocks_def)
  next
    case False
    have "(119 - ?n) mod 64 = (63 - ?n) + 56"
    proof -
      have "119 - ?n < 64" using False by simp
      then show ?thesis using False assms(2) by simp
    qed
    with False show ?thesis unfolding fips_pad_def n bits
      by (simp only: replicate_add) (simp add: last_blocks_def)
  qed
  moreover have "\<forall>b \<in> set (bs @ last_blocks tail ?bits). length b = 64"
    using assms by (auto simp: last_blocks_def)
  ultimately show ?thesis by (simp only: fips_blocks_concat)
qed

lemma finalize_fips:
  assumes "absorbed e s m"
  shows "fst (finalize e s) = fips_sha256 m"
proof -
  from assms obtain bs tail where m: "m = concat bs @ tail" and bs: "\<forall>b \<in> set bs. length b = 64"
    and l: "length tail < 64" "sha_bufLen s = length tail" "length (sha_buf s) = 64"
    and t: "take (length tail) (sha_buf s) = tail"
    and st: "sha_state s = foldl (processBlock e) sha_init_state bs"
    and c: "sha_count s = word_of_nat (length m)"
    by (auto simp: absorbed_def absorbs_def)
  let ?bs = "bs @ last_blocks tail (sha_count s * 8)"
  let ?st = "foldl (processBlock e) sha_init_state ?bs"
  have "\<forall>b \<in> set ?bs. length b = 64" using bs l by (auto simp: last_blocks_def)
  then have "?st = foldl fips_compress sha_init_state ?bs" by (rule foldl_processBlock_fips) simp
  moreover have "fips_blocks (fips_pad m) = ?bs" unfolding m c by (rule fips_pad_blocks [OF bs l(1)])
  moreover have "map ((!) ?st) [0..<8] = ?st"
    using foldl_processBlock_length [of sha_init_state e ?bs] map_nth [of ?st] by simp
  ultimately show ?thesis
    using finalize_blocks [of s tail e] l t st by (simp add: fips_sha256_def fips_H0_sha_init_state)
qed

lemma length_fips_sha256: "length (fips_sha256 m) = 32"
proof -
  have "length (foldl fips_compress st bs) = 8" if "length st = 8" for st bs
    using that
    by (induction bs arbitrary: st) (auto simp: fips_compress_def Let_def split: prod.split)
  then show ?thesis
    by (simp add: fips_sha256_def fips_H0_sha_init_state length_concat comp_def sum_list_triv)
qed

lemma Sha256_hash_fips: "Sha256_hash e data = fips_sha256 (map u8_of_char data)"
proof -
  obtain s where "ingest e Sha256_ctx (map u8_of_char data) = Some s"
    "absorbed e s (map u8_of_char data)" using ingest_returns by blast
  then show ?thesis by (simp add: Sha256_hash_def finalize_fips)
qed

lemma length_Sha256_hash [simp]: "length (Sha256_hash e data) = 32"
  by (simp add: Sha256_hash_fips length_fips_sha256)

section \<open>Salts\<close>

lemma length_salt_loop [simp]: "length (salt_loop n seed) = n"
  by (induction n arbitrary: seed) (simp_all add: Let_def)

lemma salt_loop_chars: "set (salt_loop n seed) \<subseteq> set salt_chars"
proof (induction n arbitrary: seed)
  case (Suc n)
  have "unat ((drop_bit 32 s :: u64) mod 62) < length salt_chars" for s
  proof -
    have "unat (drop_bit 32 s mod 62) = unat (drop_bit 32 s) mod 62"
      by (simp add: unat_mod)
    then show ?thesis by (simp add: salt_chars_def)
  qed
  then show ?case using Suc.IH by (auto simp: Let_def)
qed simp

lemma salt_chars_no_stops: "NUL \<notin> set salt_chars" "COLON \<notin> set salt_chars"
  by (simp_all add: salt_chars_def)

section \<open>Properties\<close>

text \<open>
  C11: \<^verbatim>\<open>Sha256::hash\<close> computes the function of the standard (padding to whole blocks with the bit
  length, message schedule, 64 rounds for each block) on every message and either kind of host, and
  its result has 32 bytes.
\<close>

lemma sha256_is_fips:
  "Sha256_hash e data = fips_sha256 (map u8_of_char data) \<and> length (Sha256_hash e data) = 32"
  by (simp add: Sha256_hash_fips length_fips_sha256)

text \<open>
  Feeding a message to \<^verbatim>\<open>ingest\<close> in pieces gives, at \<^verbatim>\<open>finalize\<close>, the hash of the whole: the buffering
  loop returns on every input and the cut is invisible.
\<close>

lemma ingest_in_pieces:
  "\<exists>s s'. ingest e Sha256_ctx a = Some s \<and> ingest e s b = Some s' \<and> fst (finalize e s') = fips_sha256 (a @ b)"
proof -
  obtain s where s: "ingest e Sha256_ctx a = Some s" "absorbed e s a" using ingest_returns by blast
  then obtain s' where "ingest e s b = Some s'" "absorbed e s' (a @ b)" using ingest_absorbed by blast
  with s show ?thesis by (blast intro: finalize_fips)
qed

text \<open>
  A generated salt has 16 characters, all alphanumeric, whatever the clock, the address and the
  counter are, so it holds no NUL and no colon; and each call advances the counter.
\<close>

lemma generated_salt:
  "length (fst (generateSalt now addr c)) = 16 \<and> set (fst (generateSalt now addr c)) \<subseteq> set salt_chars
   \<and> NUL \<notin> set (fst (generateSalt now addr c)) \<and> COLON \<notin> set (fst (generateSalt now addr c))
   \<and> snd (generateSalt now addr c) = c + 1"
  using salt_loop_chars [of 16] salt_chars_no_stops by (auto simp: generateSalt_def Let_def)

end
