(* ===== verification/Accounts.thy ===== *)
theory Accounts
  imports Sha256
begin

text \<open>
  The accounts of \<^verbatim>\<open>server/Database.hpp\<close> and \<^verbatim>\<open>server/Database.cpp\<close>: the user and transaction
  records, the helpers of the anonymous namespace, and one definition per branch of
  \<^verbatim>\<open>DbManager::processItem\<close>, each a function from the state to the state and the callbacks it posts.
  The file system is a map from paths to contents; whether a path opens, the clock readings and
  the stack address that \<^verbatim>\<open>generateSalt\<close> mixes in are the environment of one work item.
\<close>

section \<open>Data\<close>

definition UsernameMaxLen :: nat where "UsernameMaxLen = 23"
definition PasswordSaltLen :: nat where "PasswordSaltLen = 16"
definition PasswordHashLen :: nat where "PasswordHashLen = 32"
definition PasswordStoreLen :: nat where "PasswordStoreLen = PasswordSaltLen + PasswordHashLen"
definition LogFileMaxLen :: nat where "LogFileMaxLen = 31"
definition DefaultBalance :: u64 where "DefaultBalance = 100000"
definition DataDir :: string where "DataDir = ''data''"
definition DatabasePath :: string where "DatabasePath = ''data.db''"

lemmas db_consts = UsernameMaxLen_def PasswordSaltLen_def PasswordHashLen_def PasswordStoreLen_def
  LogFileMaxLen_def

record user_record =
  ur_password :: string
  ur_balance :: u64
  ur_logFile :: string
  ur_isLocked :: u8

datatype transaction_type = deposit | withdraw | transfer_out | transfer_in

fun txn_type_u8 :: "transaction_type \<Rightarrow> u8" where
  "txn_type_u8 deposit = 0"
| "txn_type_u8 withdraw = 1"
| "txn_type_u8 transfer_out = 2"
| "txn_type_u8 transfer_in = 3"

record transaction_record =
  tr_username :: string
  tr_counterparty :: string
  tr_amount :: u64
  tr_balanceAfter :: u64
  tr_timestamp :: u64
  tr_type :: u8

record user_state =
  us_record :: user_record
  us_transactions :: "transaction_record list"

type_synonym files = "string \<Rightarrow> string option"

record db =
  db_data :: "user_state smap"
  db_dirty :: bool
  db_files :: files
  db_salt_counter :: u64

record env =
  env_open :: "string \<Rightarrow> bool"
  env_log1 :: int
  env_log2 :: int
  env_ts :: u64
  env_salt_now :: u64
  env_salt_addr :: u64

datatype reply = RBool bool | RU64 u64 | RString string

type_synonym 'cb posts = "('cb \<times> reply) list"

text \<open>\<^verbatim>\<open>asio::post\<close> of a handler that calls \<^verbatim>\<open>cb\<close> when it is not empty.\<close>

definition post :: "'cb option \<Rightarrow> reply \<Rightarrow> 'cb posts" where
  "post cb r = (case cb of None \<Rightarrow> [] | Some f \<Rightarrow> [(f, r)])"

section \<open>Helpers\<close>

definition asString :: "string \<Rightarrow> string" where
  "asString buf = takeWhile (\<lambda>c. c \<noteq> NUL) buf"

text \<open>\<open>N\<close> is the size of the destination array.\<close>

definition copyFrom :: "nat \<Rightarrow> string \<Rightarrow> string" where
  "copyFrom N src =
     (let dest = replicate N NUL; len = min (length src) (N - 1)
      in write_at 0 (take len src) dest)"

definition copyBinary :: "nat \<Rightarrow> u8 list \<Rightarrow> string" where
  "copyBinary N src =
     (let dest = replicate N NUL; len = min (length src) N
      in write_at 0 (map char_of_u8 (take len src)) dest)"

definition isSafePathComponent :: "string \<Rightarrow> bool" where
  "isSafePathComponent name \<longleftrightarrow>
     name \<noteq> [] \<and> length name \<le> UsernameMaxLen \<and> str_find (CHR ''/'') 0 name = None
     \<and> str_find (CHR 0x5C) 0 name = None \<and> \<not> contains_sub ''..'' name
     \<and> str_find NUL 0 name = None"

text \<open>The stored password and the new salt counter.\<close>

definition hashPasswordInto :: "endian \<Rightarrow> env \<Rightarrow> u64 \<Rightarrow> string \<Rightarrow> string \<times> u64" where
  "hashPasswordInto e env counter password =
     (let (salt, counter) = generateSalt (env_salt_now env) (env_salt_addr env) counter;
          buf = replicate PasswordStoreLen (0 :: u8);
          buf = write_at 0 (map u8_of_char salt) buf;
          rawHash = Sha256_hash e (salt @ '':'' @ password);
          buf = write_at PasswordSaltLen rawHash buf
      in (copyBinary PasswordStoreLen buf, counter))"

definition verifyPassword :: "endian \<Rightarrow> string \<Rightarrow> string \<Rightarrow> bool" where
  "verifyPassword e password stored =
     (let salt = take (strnlen stored PasswordSaltLen) stored
      in if length salt \<noteq> PasswordSaltLen then False
         else let expected = Sha256_hash e (salt @ '':'' @ password);
                  actual = map u8_of_char (take PasswordHashLen (drop PasswordSaltLen stored))
              in expected = actual)"

definition appendLog :: "env \<Rightarrow> int \<Rightarrow> string \<Rightarrow> string \<Rightarrow> files \<Rightarrow> files" where
  "appendLog env now logFile line files =
     (let path = DataDir @ ''/'' @ logFile
      in if env_open env path
         then files(path \<mapsto> (case files path of None \<Rightarrow> [] | Some c \<Rightarrow> c)
                 @ ''['' @ format_F_T now @ ''] '' @ line @ [LF])
         else files)"

section \<open>The branches of \<open>processItem\<close>\<close>

text \<open>What \<open>it->second\<close> is for the account an iterator points to.\<close>

definition account_at :: "string \<Rightarrow> db \<Rightarrow> user_state" where
  "account_at u db = the (map_find u (db_data db))"

definition set_account :: "string \<Rightarrow> (user_state \<Rightarrow> user_state) \<Rightarrow> db \<Rightarrow> db" where
  "set_account u f db = db\<lparr>db_data := map_upd u f (db_data db)\<rparr>"

definition set_record :: "(user_record \<Rightarrow> user_record) \<Rightarrow> user_state \<Rightarrow> user_state" where
  "set_record f st = st\<lparr>us_record := f (us_record st)\<rparr>"

definition push_transaction :: "transaction_record \<Rightarrow> user_state \<Rightarrow> user_state" where
  "push_transaction r st = st\<lparr>us_transactions := us_transactions st @ [r]\<rparr>"

definition log_to :: "env \<Rightarrow> int \<Rightarrow> string \<Rightarrow> string \<Rightarrow> db \<Rightarrow> db" where
  "log_to env now u line db =
     db\<lparr>db_files := appendLog env now (asString (ur_logFile (us_record (account_at u db)))) line
        (db_files db)\<rparr>"

definition locked :: "user_state \<Rightarrow> bool" where
  "locked st \<longleftrightarrow> ur_isLocked (us_record st) \<noteq> 0"

definition process_auth ::
  "endian \<Rightarrow> string \<Rightarrow> string \<Rightarrow> 'cb option \<Rightarrow> db \<Rightarrow> db \<times> 'cb posts" where
  "process_auth e username password cb db =
     (case map_find username (db_data db) of
        None \<Rightarrow> (db, post cb (RBool False))
      | Some st \<Rightarrow> if locked st then (db, post cb (RBool False))
          else let ok = verifyPassword e password (ur_password (us_record st))
               in (db, post cb (RBool ok)))"

definition process_change_password ::
  "endian \<Rightarrow> env \<Rightarrow> string \<Rightarrow> string \<Rightarrow> 'cb option \<Rightarrow> db \<Rightarrow> db \<times> 'cb posts" where
  "process_change_password e env username newPassword cb db =
     (case map_find username (db_data db) of
        None \<Rightarrow> (db, post cb (RBool False))
      | Some st \<Rightarrow>
          let (stored, counter) = hashPasswordInto e env (db_salt_counter db) newPassword;
              db = set_account username (set_record (ur_password_update (\<lambda>_. stored))) db;
              db = db\<lparr>db_salt_counter := counter\<rparr>;
              db = log_to env (env_log1 env) username ''Password changed'' db;
              db = db\<lparr>db_dirty := True\<rparr>
          in (db, post cb (RBool True)))"

definition new_user_state :: user_state where
  "new_user_state =
     \<lparr>us_record = \<lparr>ur_password = replicate PasswordStoreLen NUL, ur_balance = 0,
        ur_logFile = replicate (LogFileMaxLen + 1) NUL, ur_isLocked = 0\<rparr>, us_transactions = []\<rparr>"

definition zero_txn :: transaction_record where
  "zero_txn = \<lparr>tr_username = replicate 24 NUL, tr_counterparty = replicate 24 NUL, tr_amount = 0,
     tr_balanceAfter = 0, tr_timestamp = 0, tr_type = 0\<rparr>"

definition process_create_account ::
  "endian \<Rightarrow> env \<Rightarrow> string \<Rightarrow> string \<Rightarrow> 'cb option \<Rightarrow> db \<Rightarrow> db \<times> 'cb posts" where
  "process_create_account e env username password cb db =
     (if \<not> isSafePathComponent username then (db, post cb (RBool False))
      else let created = (map_find username (db_data db) = None)
           in if created then
                let db = db\<lparr>db_data := map_put username new_user_state (db_data db)\<rparr>;
                    (stored, counter) = hashPasswordInto e env (db_salt_counter db) password;
                    db = set_account username (set_record (ur_password_update (\<lambda>_. stored))) db;
                    db = db\<lparr>db_salt_counter := counter\<rparr>;
                    db = set_account username (set_record (ur_balance_update (\<lambda>_. DefaultBalance))) db;
                    db = set_account username (set_record
                           (ur_logFile_update (\<lambda>_. copyFrom (LogFileMaxLen + 1) (username @ ''.log'')))) db;
                    db = set_account username (set_record (ur_isLocked_update (\<lambda>_. 0))) db;
                    db = db\<lparr>db_dirty := True\<rparr>;
                    balance = ur_balance (us_record (account_at username db));
                    db = log_to env (env_log1 env) username
                           (''Account created with balance '' @ string_of_u64 balance) db;
                    rec = zero_txn\<lparr>tr_username := copyFrom 24 username, tr_amount := DefaultBalance,
                            tr_balanceAfter := balance, tr_timestamp := env_ts env,
                            tr_type := txn_type_u8 deposit\<rparr>;
                    db = set_account username (push_transaction rec) db
                in (db, post cb (RBool created))
              else (db, post cb (RBool created)))"

definition process_toggle_account ::
  "env \<Rightarrow> string \<Rightarrow> 'cb option \<Rightarrow> db \<Rightarrow> db \<times> 'cb posts" where
  "process_toggle_account env username cb db =
     (case map_find username (db_data db) of
        None \<Rightarrow> (db, post cb (RBool False))
      | Some st \<Rightarrow>
          let db = set_account username
                     (set_record (ur_isLocked_update (\<lambda>l. if l = 0 then 1 else 0))) db;
              db = db\<lparr>db_dirty := True\<rparr>;
              status = (if locked (account_at username db) then ''locked'' else ''unlocked'');
              db = log_to env (env_log1 env) username (''Account '' @ status) db
          in (db, post cb (RBool True)))"

definition process_get_balance :: "string \<Rightarrow> 'cb option \<Rightarrow> db \<Rightarrow> db \<times> 'cb posts" where
  "process_get_balance username cb db =
     (let bal = (case map_find username (db_data db) of None \<Rightarrow> 0
                 | Some st \<Rightarrow> ur_balance (us_record st))
      in (db, post cb (RU64 bal)))"

text \<open>
  The comparisons and sums are those of 64-bit words: \<open>-op.change\<close> and the signed addition wrap
  where the C++ is undefined (\<^verbatim>\<open>change\<close> the least \<^verbatim>\<open>i64\<close>, or a sum beyond the signed range).
\<close>

definition process_change_balance ::
  "env \<Rightarrow> string \<Rightarrow> i64 \<Rightarrow> 'cb option \<Rightarrow> db \<Rightarrow> db \<times> 'cb posts" where
  "process_change_balance env username change cb db =
     (case map_find username (db_data db) of
        None \<Rightarrow> (db, post cb (RBool False))
      | Some st \<Rightarrow>
          if locked st then (db, post cb (RBool False))
          else if sint change < 0 \<and> ur_balance (us_record st) < - change
            then (db, post cb (RBool False))
          else
            let newBal = ur_balance (us_record st) + change;
                db = set_account username (set_record (ur_balance_update (\<lambda>_. newBal))) db;
                db = db\<lparr>db_dirty := True\<rparr>;
                opName = (if sint change \<ge> 0 then ''Deposit'' else ''Withdrawal'');
                line = opName @ '' '' @ (if sint change \<ge> 0 then ''+'' else []) @ string_of_i64 change
                  @ '' '' @ string_of_u64 (ur_balance (us_record (account_at username db)));
                db = log_to env (env_log1 env) username line db;
                rec = zero_txn\<lparr>tr_username := copyFrom 24 username,
                        tr_amount := (if sint change < 0 then - change else change),
                        tr_balanceAfter := ur_balance (us_record (account_at username db)),
                        tr_timestamp := env_ts env,
                        tr_type := (if sint change \<ge> 0 then txn_type_u8 deposit
                                    else txn_type_u8 withdraw)\<rparr>;
                db = set_account username (push_transaction rec) db
            in (db, post cb (RBool True)))"

text \<open>
  \<open>src\<close> and \<open>dst\<close> are iterators: when sender and recipient are one account, the second update sees
  the first, and both records read the final balance.
\<close>

definition process_transfer_balance ::
  "env \<Rightarrow> string \<Rightarrow> string \<Rightarrow> u64 \<Rightarrow> 'cb option \<Rightarrow> db \<Rightarrow> db \<times> 'cb posts" where
  "process_transfer_balance env sender recipient amount cb db =
     (case (map_find sender (db_data db), map_find recipient (db_data db)) of
        (Some src, Some dst) \<Rightarrow>
          if locked src \<or> locked dst \<or> ur_balance (us_record src) < amount
          then (db, post cb (RBool False))
          else
            let db = set_account sender (set_record (ur_balance_update (\<lambda>b. b - amount))) db;
                db = set_account recipient (set_record (ur_balance_update (\<lambda>b. b + amount))) db;
                db = db\<lparr>db_dirty := True\<rparr>;
                db = log_to env (env_log1 env) sender
                       (''Transfer to '' @ recipient @ '' -'' @ string_of_u64 amount @ '' ''
                        @ string_of_u64 (ur_balance (us_record (account_at sender db)))) db;
                db = log_to env (env_log2 env) recipient
                       (''Transfer from '' @ sender @ '' +'' @ string_of_u64 amount @ '' ''
                        @ string_of_u64 (ur_balance (us_record (account_at recipient db)))) db;
                senderRec = zero_txn\<lparr>tr_username := copyFrom 24 sender,
                  tr_counterparty := copyFrom 24 recipient, tr_amount := amount,
                  tr_balanceAfter := ur_balance (us_record (account_at sender db)),
                  tr_timestamp := env_ts env, tr_type := txn_type_u8 transfer_out\<rparr>;
                db = set_account sender (push_transaction senderRec) db;
                recipientRec = zero_txn\<lparr>tr_username := copyFrom 24 recipient,
                  tr_counterparty := copyFrom 24 sender, tr_amount := amount,
                  tr_balanceAfter := ur_balance (us_record (account_at recipient db)),
                  tr_timestamp := env_ts env, tr_type := txn_type_u8 transfer_in\<rparr>;
                db = set_account recipient (push_transaction recipientRec) db
            in (db, post cb (RBool True))
      | _ \<Rightarrow> (db, post cb (RBool False)))"

definition history_line :: "transaction_record \<Rightarrow> string" where
  "history_line rec =
     string_of_nat (unat (tr_type rec)) @ ''|'' @ asString (tr_counterparty rec) @ ''|''
     @ string_of_u64 (tr_amount rec) @ ''|'' @ string_of_u64 (tr_balanceAfter rec) @ ''|''
     @ string_of_u64 (tr_timestamp rec) @ [LF]"

definition process_txn_history :: "string \<Rightarrow> u64 \<Rightarrow> 'cb option \<Rightarrow> db \<Rightarrow> db \<times> 'cb posts" where
  "process_txn_history username cnt cb db =
     (let result =
        (case map_find username (db_data db) of None \<Rightarrow> []
         | Some st \<Rightarrow>
             let txns = us_transactions st;
                 start = (if length txns > unat cnt then length txns - unat cnt else 0)
             in foldl (\<lambda>result i. result @ history_line (txns ! i)) [] [start..<length txns])
      in (db, post cb (RString result)))"

definition process_search_users :: "string \<Rightarrow> 'cb option \<Rightarrow> db \<Rightarrow> db \<times> 'cb posts" where
  "process_search_users pfx cb db =
     (let result = foldl (\<lambda>result (username, _).
            if pfx = [] \<or> prefix pfx username
            then (if result \<noteq> [] then result @ ''|'' else result) @ username
            else result) [] (db_data db)
      in (db, post cb (RString result)))"

end
