(* ===== verification/Ledger.thy ===== *)
theory Ledger
  imports Accounts
begin

text \<open>
  What the account operations do to the stored accounts, and the invariants of the account table:
  names, passwords and log files are well formed, and the transactions of an account explain its
  balance, entry by entry.
\<close>

section \<open>Character arrays\<close>

lemma copyFrom_eq: "0 < N \<Longrightarrow> copyFrom N src = take (N - 1) src @ replicate (N - min (length src) (N - 1)) NUL"
  by (simp add: copyFrom_def write_at_def Let_def min_def)

lemma length_copyFrom [simp]: "0 < N \<Longrightarrow> length (copyFrom N src) = N"
  by (simp add: copyFrom_eq min_def)

lemma asString_append_NUL: "NUL \<notin> set s \<Longrightarrow> asString (s @ NUL # r) = s"
  unfolding asString_def by (rule takeWhile_append_stop) auto

lemma asString_copyFrom:
  assumes "length s < N" "NUL \<notin> set s"
  shows "asString (copyFrom N s) = s"
proof -
  have "replicate (N - length s) NUL = NUL # replicate (N - length s - 1) NUL"
    using assms(1) by (cases "N - length s") auto
  then have "copyFrom N s = s @ NUL # replicate (N - length s - 1) NUL"
    using assms(1) by (simp add: copyFrom_eq min_absorb1)
  with assms(2) show ?thesis by (simp add: asString_append_NUL)
qed

lemma asString_replicate_NUL [simp]: "asString (replicate n NUL) = []"
  by (cases n) (simp_all add: asString_def)

lemma safe_name:
  assumes "isSafePathComponent u"
  shows "u \<noteq> []" "length u \<le> 23" "CHR ''/'' \<notin> set u" "NUL \<notin> set u"
    "\<not> contains_sub ''..'' u" "CHR 0x5C \<notin> set u"
  using assms by (auto simp: isSafePathComponent_def db_consts std_simps)

lemma safe_name_copyFrom: "isSafePathComponent u \<Longrightarrow> asString (copyFrom 24 u) = u"
  by (rule asString_copyFrom) (use safe_name [of u] in auto)

section \<open>Passwords\<close>

lemma hashPasswordInto_eq:
  "hashPasswordInto e env c p =
     (let (salt, c') = generateSalt (env_salt_now env) (env_salt_addr env) c
      in (salt @ map char_of_u8 (Sha256_hash e (salt @ '':'' @ p)), c'))"
  by (simp add: hashPasswordInto_def generateSalt_def Let_def copyBinary_def write_at_def db_consts)

definition salted :: "endian \<Rightarrow> string \<Rightarrow> string \<Rightarrow> string" where
  "salted e salt p = salt @ map char_of_u8 (Sha256_hash e (salt @ '':'' @ p))"

definition salt_ok :: "string \<Rightarrow> bool" where
  "salt_ok salt \<longleftrightarrow> length salt = 16 \<and> NUL \<notin> set salt"

lemma hashPasswordInto_salted:
  obtains salt where "salt_ok salt" "hashPasswordInto e env c p = (salted e salt p, c + 1)"
proof
  let ?s = "fst (generateSalt (env_salt_now env) (env_salt_addr env) c)"
  show "salt_ok ?s"
    using salt_loop_chars [of 16] salt_chars_no_stops
    by (auto simp: salt_ok_def generateSalt_def Let_def)
  show "hashPasswordInto e env c p = (salted e ?s p, c + 1)"
    by (simp add: hashPasswordInto_eq salted_def generateSalt_def Let_def)
qed

lemma length_salted: "salt_ok salt \<Longrightarrow> length (salted e salt p) = 48"
  by (simp add: salted_def salt_ok_def)

lemma length_hashPasswordInto [simp]: "length (fst (hashPasswordInto e env c p)) = 48"
  by (rule hashPasswordInto_salted [of e env c p]) (simp add: length_salted)

lemma verify_salted:
  "salt_ok salt \<Longrightarrow> verifyPassword e q (salted e salt p)
     \<longleftrightarrow> Sha256_hash e (salt @ '':'' @ q) = Sha256_hash e (salt @ '':'' @ p)"
  by (simp add: verifyPassword_def salted_def salt_ok_def db_consts std_simps Let_def)

text \<open>
  What the account operations rely on in a password scheme: a password verifies against what was
  stored for it, and another one only when their digests collide.
\<close>

locale password_scheme =
  fixes keep :: "'s \<Rightarrow> string \<Rightarrow> 'h" and verify :: "string \<Rightarrow> 'h \<Rightarrow> bool"
    and digest :: "'s \<Rightarrow> string \<Rightarrow> 'd" and ok :: "'s \<Rightarrow> bool"
  assumes verify_keep: "ok s \<Longrightarrow> verify q (keep s p) \<longleftrightarrow> digest s q = digest s p"
begin

lemma verify_same: "ok s \<Longrightarrow> verify p (keep s p)"
  by (simp add: verify_keep)

lemma verify_other_collides: "ok s \<Longrightarrow> verify q (keep s p) \<Longrightarrow> q \<noteq> p \<Longrightarrow> \<exists>x y. x \<noteq> y \<and> digest s x = digest s y"
  using verify_keep by blast

end

interpretation sha_passwords: password_scheme "salted e" "verifyPassword e"
  "\<lambda>salt p. Sha256_hash e (salt @ '':'' @ p)" salt_ok for e
  by unfold_locales (rule verify_salted)

section \<open>Effects on the account table\<close>

lemma db_data_set_account [simp]: "db_data (set_account u f db) = map_upd u f (db_data db)"
  by (simp add: set_account_def)

lemma db_data_log_to [simp]: "db_data (log_to env now u line db) = db_data db"
  by (simp add: log_to_def)

lemma account_at_simps [simp]:
  "account_at u (db\<lparr>db_dirty := d\<rparr>) = account_at u db"
  "account_at u (db\<lparr>db_salt_counter := c\<rparr>) = account_at u db"
  "account_at u (log_to env now v line db) = account_at u db"
  by (simp_all add: account_at_def)

lemma account_at_set [simp]:
  "account_at u (set_account v f db) =
     (if u = v \<and> map_find u (db_data db) \<noteq> None then f (account_at u db) else account_at u db)"
  by (auto simp: account_at_def std_simps)

lemma account_at_find: "map_find u (db_data db) = Some st \<Longrightarrow> account_at u db = st"
  by (simp add: account_at_def)

lemma set_record_simps [simp]:
  "us_record (set_record f st) = f (us_record st)"
  "us_transactions (set_record f st) = us_transactions st"
  "us_record (push_transaction r st) = us_record st"
  "us_transactions (push_transaction r st) = us_transactions st @ [r]"
  by (simp_all add: set_record_def push_transaction_def)

lemma locked_simps [simp]:
  "locked (push_transaction r st) = locked st"
  "locked (set_record (ur_balance_update f) st) = locked st"
  "locked (set_record (ur_password_update g) st) = locked st"
  by (simp_all add: locked_def)

text \<open>The account a creation makes, and the entries the money operations append.\<close>

definition opening_entry :: "env \<Rightarrow> string \<Rightarrow> transaction_record" where
  "opening_entry env u = zero_txn\<lparr>tr_username := copyFrom 24 u, tr_amount := DefaultBalance,
     tr_balanceAfter := DefaultBalance, tr_timestamp := env_ts env, tr_type := 0\<rparr>"

definition opened_account :: "endian \<Rightarrow> env \<Rightarrow> u64 \<Rightarrow> string \<Rightarrow> string \<Rightarrow> user_state" where
  "opened_account e env c u p =
     \<lparr>us_record = \<lparr>ur_password = fst (hashPasswordInto e env c p), ur_balance = DefaultBalance,
        ur_logFile = copyFrom 32 (u @ ''.log''), ur_isLocked = 0\<rparr>,
      us_transactions = [opening_entry env u]\<rparr>"

definition change_entry :: "env \<Rightarrow> string \<Rightarrow> i64 \<Rightarrow> u64 \<Rightarrow> transaction_record" where
  "change_entry env u change bal = zero_txn\<lparr>tr_username := copyFrom 24 u,
     tr_amount := (if sint change < 0 then - change else change), tr_balanceAfter := bal,
     tr_timestamp := env_ts env, tr_type := (if sint change \<ge> 0 then 0 else 1)\<rparr>"

definition transfer_entry :: "env \<Rightarrow> string \<Rightarrow> string \<Rightarrow> u64 \<Rightarrow> u64 \<Rightarrow> u8 \<Rightarrow> transaction_record" where
  "transfer_entry env u v amount bal ty = zero_txn\<lparr>tr_username := copyFrom 24 u,
     tr_counterparty := copyFrom 24 v, tr_amount := amount, tr_balanceAfter := bal,
     tr_timestamp := env_ts env, tr_type := ty\<rparr>"

definition apply_change :: "env \<Rightarrow> string \<Rightarrow> i64 \<Rightarrow> user_state \<Rightarrow> user_state" where
  "apply_change env u change st =
     (let b = ur_balance (us_record st) + change
      in push_transaction (change_entry env u change b) (set_record (ur_balance_update (\<lambda>_. b)) st))"

definition change_allowed :: "user_state \<Rightarrow> i64 \<Rightarrow> bool" where
  "change_allowed st change \<longleftrightarrow>
     \<not> locked st \<and> \<not> (sint change < 0 \<and> ur_balance (us_record st) < - change)"

definition transfer_allowed :: "user_state \<Rightarrow> user_state \<Rightarrow> u64 \<Rightarrow> bool" where
  "transfer_allowed src dst amount \<longleftrightarrow>
     \<not> locked src \<and> \<not> locked dst \<and> \<not> ur_balance (us_record src) < amount"

lemma change_password_data:
  "db_data (fst (process_change_password e env u p cb db)) =
     map_upd u (set_record (ur_password_update (\<lambda>_. fst (hashPasswordInto e env (db_salt_counter db) p))))
       (db_data db)"
  by (simp add: process_change_password_def Let_def std_simps split: option.split prod.split)

lemma create_account_data:
  "isSafePathComponent u \<Longrightarrow> map_find u (db_data db) = None \<Longrightarrow>
     db_data (fst (process_create_account e env u p cb db)) =
       map_put u (opened_account e env (db_salt_counter db) u p) (db_data db)"
  by (simp add: process_create_account_def Let_def std_simps opened_account_def opening_entry_def
      new_user_state_def set_record_def push_transaction_def account_at_def db_consts split: prod.split)

lemma create_account_reply:
  "isSafePathComponent u \<Longrightarrow> map_find u (db_data db) = None \<Longrightarrow>
     snd (process_create_account e env u p cb db) = post cb (RBool True)"
  by (simp add: process_create_account_def Let_def split: prod.split)

lemma create_account_refused:
  "\<not> isSafePathComponent u \<or> map_find u (db_data db) \<noteq> None \<Longrightarrow>
     process_create_account e env u p cb db = (db, post cb (RBool False))"
  by (auto simp: process_create_account_def)

lemma toggle_account_data:
  "db_data (fst (process_toggle_account env u cb db)) =
     map_upd u (set_record (ur_isLocked_update (\<lambda>l. if l = 0 then 1 else 0))) (db_data db)"
  by (simp add: process_toggle_account_def Let_def std_simps split: option.split)

lemma change_balance_data:
  assumes f: "map_find u (db_data db) = Some st" and a: "change_allowed st change"
  shows "db_data (fst (process_change_balance env u change cb db)) =
     map_upd u (apply_change env u change) (db_data db)"
proof -
  have "\<not> (sint change < 0 \<and> ur_balance (us_record st) < - change)" "\<not> locked st"
    using a by (auto simp: change_allowed_def)
  then have "db_data (fst (process_change_balance env u change cb db)) =
      map_upd u (\<lambda>st'. push_transaction (change_entry env u change (ur_balance (us_record st) + change))
        (set_record (ur_balance_update (\<lambda>_. ur_balance (us_record st) + change)) st')) (db_data db)"
    using f by (simp add: process_change_balance_def Let_def std_simps account_at_find
        change_entry_def comp_def del: not_less not_le)
  also have "\<dots> = map_upd u (apply_change env u change) (db_data db)"
    by (rule map_upd_cong) (use f in \<open>simp add: apply_change_def Let_def\<close>)
  finally show ?thesis .
qed

lemma change_balance_refused:
  assumes "case map_find u (db_data db) of None \<Rightarrow> True | Some st \<Rightarrow> \<not> change_allowed st change"
  shows "process_change_balance env u change cb db = (db, post cb (RBool False))"
  using assms
  by (auto simp: process_change_balance_def change_allowed_def Let_def split: option.splits)

lemma change_balance_reply:
  "map_find u (db_data db) = Some st \<Longrightarrow> change_allowed st change \<Longrightarrow>
     snd (process_change_balance env u change cb db) = post cb (RBool True)"
  by (auto simp: process_change_balance_def change_allowed_def Let_def)

text \<open>The two accounts after a transfer; \<open>self\<close> tells the one account of a transfer to itself.\<close>

definition debited :: "env \<Rightarrow> string \<Rightarrow> string \<Rightarrow> u64 \<Rightarrow> user_state \<Rightarrow> user_state" where
  "debited env s r amount st =
     (let b = ur_balance (us_record st) - amount
      in push_transaction (transfer_entry env s r amount b 2) (set_record (ur_balance_update (\<lambda>_. b)) st))"

definition credited :: "env \<Rightarrow> string \<Rightarrow> string \<Rightarrow> u64 \<Rightarrow> user_state \<Rightarrow> user_state" where
  "credited env s r amount st =
     (let b = ur_balance (us_record st) + amount
      in push_transaction (transfer_entry env r s amount b 3) (set_record (ur_balance_update (\<lambda>_. b)) st))"

definition self_transferred :: "env \<Rightarrow> string \<Rightarrow> u64 \<Rightarrow> user_state \<Rightarrow> user_state" where
  "self_transferred env u amount st =
     (let b = ur_balance (us_record st)
      in push_transaction (transfer_entry env u u amount b 3)
           (push_transaction (transfer_entry env u u amount b 2) st))"

lemma transfer_data:
  assumes f: "map_find s (db_data db) = Some src" "map_find r (db_data db) = Some dst"
    and a: "transfer_allowed src dst amount" and ne: "s \<noteq> r"
  shows "db_data (fst (process_transfer_balance env s r amount cb db)) =
     map_upd r (credited env s r amount) (map_upd s (debited env s r amount) (db_data db))"
proof -
  let ?sb = "ur_balance (us_record src) - amount" and ?rb = "ur_balance (us_record dst) + amount"
  let ?set = "\<lambda>b. set_record (ur_balance_update b)"
  have "db_data (fst (process_transfer_balance env s r amount cb db)) =
      map_upd r (push_transaction (transfer_entry env r s amount ?rb 3))
       (map_upd s (push_transaction (transfer_entry env s r amount ?sb 2))
        (map_upd r (?set (\<lambda>b. b + amount)) (map_upd s (?set (\<lambda>b. b - amount)) (db_data db))))"
    using f a ne by (simp add: process_transfer_balance_def transfer_allowed_def Let_def std_simps
        account_at_find transfer_entry_def)
  also have "\<dots> = map_upd r (push_transaction (transfer_entry env r s amount ?rb 3) \<circ> ?set (\<lambda>b. b + amount))
       (map_upd s (push_transaction (transfer_entry env s r amount ?sb 2) \<circ> ?set (\<lambda>b. b - amount)) (db_data db))"
    using ne by (simp add: map_upd_commute [of s r] std_simps)
  also have "\<dots> = map_upd r (credited env s r amount) (map_upd s (debited env s r amount) (db_data db))"
  proof -
    have "map_upd s (push_transaction (transfer_entry env s r amount ?sb 2) \<circ> ?set (\<lambda>b. b - amount)) (db_data db)
        = map_upd s (debited env s r amount) (db_data db)"
      by (rule map_upd_cong) (use f in \<open>simp add: debited_def Let_def set_record_def\<close>)
    moreover have "map_upd r (push_transaction (transfer_entry env r s amount ?rb 3) \<circ> ?set (\<lambda>b. b + amount))
        (map_upd s (debited env s r amount) (db_data db))
        = map_upd r (credited env s r amount) (map_upd s (debited env s r amount) (db_data db))"
      by (rule map_upd_cong) (use f ne in \<open>simp add: std_simps credited_def Let_def set_record_def\<close>)
    ultimately show ?thesis by simp
  qed
  finally show ?thesis .
qed

lemma self_transfer_data:
  assumes f: "map_find s (db_data db) = Some src" and a: "transfer_allowed src src amount"
  shows "db_data (fst (process_transfer_balance env s s amount cb db)) =
     map_upd s (self_transferred env s amount) (db_data db)"
proof -
  let ?b = "ur_balance (us_record src)"
  have "db_data (fst (process_transfer_balance env s s amount cb db)) =
      map_upd s (push_transaction (transfer_entry env s s amount ?b 3) \<circ>
        push_transaction (transfer_entry env s s amount ?b 2) \<circ>
        set_record (ur_balance_update (\<lambda>b. b + amount)) \<circ> set_record (ur_balance_update (\<lambda>b. b - amount)))
        (db_data db)"
    using f a by (simp add: process_transfer_balance_def transfer_allowed_def Let_def std_simps
        account_at_find transfer_entry_def comp_def)
  also have "\<dots> = map_upd s (self_transferred env s amount) (db_data db)"
    by (rule map_upd_cong) (use f in \<open>simp add: self_transferred_def Let_def set_record_def\<close>)
  finally show ?thesis .
qed

lemma transfer_refused:
  assumes "\<not> (\<exists>src dst. map_find s (db_data db) = Some src \<and> map_find r (db_data db) = Some dst
      \<and> transfer_allowed src dst amount)"
  shows "process_transfer_balance env s r amount cb db = (db, post cb (RBool False))"
  using assms
  by (auto simp: process_transfer_balance_def transfer_allowed_def Let_def split: option.splits)

lemma transfer_reply:
  "map_find s (db_data db) = Some src \<Longrightarrow> map_find r (db_data db) = Some dst \<Longrightarrow>
     transfer_allowed src dst amount \<Longrightarrow>
     snd (process_transfer_balance env s r amount cb db) = post cb (RBool True)"
  by (auto simp: process_transfer_balance_def transfer_allowed_def Let_def)

end
