(* ===== verification/Codec.thy ===== *)
theory Codec
  imports StdLib
begin

text \<open>
  The two contracts of the program's byte formats. \<open>framing\<close> is what a self-delimiting format
  promises: a reader that is given the encoding of a value followed by anything returns the value
  and what follows, and returns nothing on an incomplete encoding. \<open>fixed_codec\<close> is the contract of
  a packed struct of a known size, which is a framing. The clients, the read loops over a socket
  and over a file, are proved correct once, here; the packet format and the two record formats of
  the database are interpretations.
\<close>

section \<open>Read loops\<close>

text \<open>
  Reading values one after the other until the reader fails, at most \<open>n\<close> of them. A reader takes
  at least one byte for each value, so \<open>length s\<close> rounds are enough (\<open>decode_n_enough\<close>).
\<close>

fun decode_n :: "(string \<Rightarrow> ('a \<times> string) option) \<Rightarrow> nat \<Rightarrow> string \<Rightarrow> 'a list \<times> string" where
  "decode_n dec 0 s = ([], s)"
| "decode_n dec (Suc n) s = (case dec s of None \<Rightarrow> ([], s)
     | Some (x, r) \<Rightarrow> (let (xs, r') = decode_n dec n r in (x # xs, r')))"

definition decode_all :: "(string \<Rightarrow> ('a \<times> string) option) \<Rightarrow> string \<Rightarrow> 'a list \<times> string" where
  "decode_all dec s = decode_n dec (length s) s"

text \<open>A reader of a packed struct of \<open>sz\<close> bytes, from the conversion of exactly these bytes.\<close>

definition read_fixed :: "nat \<Rightarrow> (string \<Rightarrow> 'a) \<Rightarrow> string \<Rightarrow> ('a \<times> string) option" where
  "read_fixed sz conv s = (if length s < sz then None else Some (conv (take sz s), drop sz s))"

section \<open>Self-delimiting formats\<close>

locale framing =
  fixes enc :: "'a \<Rightarrow> string" and dec :: "string \<Rightarrow> ('a \<times> string) option" and ok :: "'a \<Rightarrow> bool"
  assumes dec_enc: "ok x \<Longrightarrow> dec (enc x @ rest) = Some (x, rest)"
    and dec_shorter: "dec s = Some (x, r) \<Longrightarrow> length r < length s"
    and dec_strict_prefix: "ok x \<Longrightarrow> strict_prefix p (enc x) \<Longrightarrow> dec p = None"
begin

lemma enc_nonempty: "ok x \<Longrightarrow> enc x \<noteq> []"
  using dec_enc [of x "[]"] dec_shorter [of "enc x" x "[]"] by auto

lemma dec_Nil: "dec [] = None"
  using dec_shorter [of "[]"] by (cases "dec []") auto

lemma decode_n_concat:
  "\<forall>x \<in> set xs. ok x \<Longrightarrow> dec t = None \<Longrightarrow> length xs \<le> n \<Longrightarrow>
     decode_n dec n (concat (map enc xs) @ t) = (xs, t)"
proof (induction xs arbitrary: n)
  case Nil
  then show ?case by (cases n) simp_all
next
  case (Cons x xs)
  then obtain m where "n = Suc m" by (cases n) auto
  with Cons show ?case by (simp add: dec_enc)
qed

lemma length_concat_enc: "\<forall>x \<in> set xs. ok x \<Longrightarrow> length xs \<le> length (concat (map enc xs))"
proof (induction xs)
  case (Cons x xs)
  then have "1 \<le> length (enc x)" using enc_nonempty [of x] by (cases "enc x") auto
  with Cons show ?case by simp
qed simp

lemma decode_all_concat:
  "\<forall>x \<in> set xs. ok x \<Longrightarrow> dec t = None \<Longrightarrow> decode_all dec (concat (map enc xs) @ t) = (xs, t)"
  unfolding decode_all_def
  by (rule decode_n_concat) (use length_concat_enc [of xs] in auto)

text \<open>A stream that ends in the middle of a value yields the complete values and nothing else.\<close>

lemma decode_all_truncated:
  "\<forall>x \<in> set xs. ok x \<Longrightarrow> ok y \<Longrightarrow> strict_prefix p (enc y) \<Longrightarrow>
     decode_all dec (concat (map enc xs) @ p) = (xs, p)"
  by (rule decode_all_concat) (simp_all add: dec_strict_prefix)

lemma decode_n_enough:
  "length s \<le> n \<Longrightarrow> length s \<le> m \<Longrightarrow> decode_n dec n s = decode_n dec m s"
proof (induction n arbitrary: s m)
  case 0
  then show ?case by (cases m) (simp_all add: dec_Nil)
next
  case (Suc n)
  show ?case
  proof (cases m)
    case 0
    then show ?thesis using Suc.prems by (simp add: dec_Nil)
  next
    case (Suc k)
    show ?thesis
    proof (cases "dec s")
      case None
      then show ?thesis using Suc by simp
    next
      case (Some p)
      obtain x r where p: "p = (x, r)" by (cases p)
      have "length r \<le> n" "length r \<le> k"
        using dec_shorter [of s x r] Some p Suc Suc.prems \<open>length s \<le> Suc n\<close> by auto
      then have "decode_n dec n r = decode_n dec k r" by (rule Suc.IH)
      then show ?thesis using Suc Some p by simp
    qed
  qed
qed

end

section \<open>Packed structs\<close>

locale fixed_codec =
  fixes put :: "'a \<Rightarrow> string" and conv :: "string \<Rightarrow> 'a" and sz :: nat and wf :: "'a \<Rightarrow> bool"
  assumes put_size: "wf x \<Longrightarrow> length (put x) = sz"
    and conv_put: "wf x \<Longrightarrow> conv (put x) = x"
    and size_pos: "0 < sz"

sublocale fixed_codec \<subseteq> framing put "read_fixed sz conv" wf
proof unfold_locales
  fix x rest assume "wf x"
  then show "read_fixed sz conv (put x @ rest) = Some (x, rest)"
    by (simp add: read_fixed_def put_size conv_put)
next
  fix s :: string and x r assume "read_fixed sz conv s = Some (x, r)"
  then show "length r < length s"
    using size_pos by (auto simp: read_fixed_def split: if_splits)
next
  fix x p assume "wf x" "strict_prefix p (put x)"
  then show "read_fixed sz conv p = None"
    using prefix_length_less [of p "put x"] by (simp add: read_fixed_def put_size)
qed

end
