(* ===== verification/DbFile.thy ===== *)
theory DbFile
  imports Ledger Codec
begin

text \<open>
  The files of the database: the packed structs \<^verbatim>\<open>Record\<close> and \<^verbatim>\<open>TransactionRecord\<close> as bytes, and
  \<^verbatim>\<open>DbManager::save\<close> and \<^verbatim>\<open>DbManager::load\<close>. Both formats are packed structs of a fixed size and so
  interpretations of \<open>fixed_codec\<close>; from that the load of what was saved is the table that was saved.
\<close>

section \<open>Packed structs\<close>

record db_record =
  rec_username :: string
  rec_password :: string
  rec_balance :: u64
  rec_logFile :: string
  rec_isLocked :: u8

definition db_toNetwork :: "endian \<Rightarrow> u64 \<Rightarrow> u64" where
  "db_toNetwork e val = (case e of Little \<Rightarrow> byteswap 8 val | Big \<Rightarrow> val)"

definition db_fromNetwork :: "endian \<Rightarrow> u64 \<Rightarrow> u64" where
  "db_fromNetwork e val = (case e of Little \<Rightarrow> byteswap 8 val | Big \<Rightarrow> val)"

definition record_size :: nat where "record_size = 113"
definition transaction_size :: nat where "transaction_size = 73"

text \<open>The object representations that \<^verbatim>\<open>file.write\<close> and \<^verbatim>\<open>file.read\<close> copy.\<close>

definition record_bytes :: "endian \<Rightarrow> db_record \<Rightarrow> string" where
  "record_bytes e r = rec_username r @ rec_password r @ mem_chars e 8 (rec_balance r)
     @ rec_logFile r @ [char_of_u8 (rec_isLocked r)]"

definition record_of_bytes :: "endian \<Rightarrow> string \<Rightarrow> db_record" where
  "record_of_bytes e s =
     \<lparr>rec_username = take 24 s, rec_password = take 48 (drop 24 s),
      rec_balance = of_mem_chars e (take 8 (drop 72 s)), rec_logFile = take 32 (drop 80 s),
      rec_isLocked = u8_of_char (s ! 112)\<rparr>"

definition transaction_bytes :: "endian \<Rightarrow> transaction_record \<Rightarrow> string" where
  "transaction_bytes e r = tr_username r @ tr_counterparty r @ mem_chars e 8 (tr_amount r)
     @ mem_chars e 8 (tr_balanceAfter r) @ mem_chars e 8 (tr_timestamp r) @ [char_of_u8 (tr_type r)]"

definition transaction_of_bytes :: "endian \<Rightarrow> string \<Rightarrow> transaction_record" where
  "transaction_of_bytes e s =
     \<lparr>tr_username = take 24 s, tr_counterparty = take 24 (drop 24 s),
      tr_amount = of_mem_chars e (take 8 (drop 48 s)),
      tr_balanceAfter = of_mem_chars e (take 8 (drop 56 s)),
      tr_timestamp = of_mem_chars e (take 8 (drop 64 s)), tr_type = u8_of_char (s ! 72)\<rparr>"

section \<open>\<open>save\<close> and \<open>load\<close>\<close>

definition txn_path :: "string \<Rightarrow> string" where
  "txn_path username = DataDir @ ''/'' @ username @ ''.txn''"

definition save_record :: "endian \<Rightarrow> string \<times> user_state \<Rightarrow> string" where
  "save_record e = (\<lambda>(username, state).
     record_bytes e
       \<lparr>rec_username = copyFrom 24 username, rec_password = ur_password (us_record state),
        rec_balance = db_toNetwork e (ur_balance (us_record state)),
        rec_logFile = ur_logFile (us_record state), rec_isLocked = ur_isLocked (us_record state)\<rparr>)"

definition save_transaction :: "endian \<Rightarrow> transaction_record \<Rightarrow> string" where
  "save_transaction e rec =
     (let netRec = rec;
          netRec = netRec\<lparr>tr_amount := db_toNetwork e (tr_amount netRec)\<rparr>;
          netRec = netRec\<lparr>tr_balanceAfter := db_toNetwork e (tr_balanceAfter netRec)\<rparr>;
          netRec = netRec\<lparr>tr_timestamp := db_toNetwork e (tr_timestamp netRec)\<rparr>
      in transaction_bytes e netRec)"

definition save_user_txns :: "endian \<Rightarrow> env \<Rightarrow> files \<Rightarrow> string \<times> user_state \<Rightarrow> files" where
  "save_user_txns e env files = (\<lambda>(username, state).
     let txnPath = txn_path username
     in if \<not> env_open env txnPath then files
        else files(txnPath \<mapsto> concat (map (save_transaction e) (us_transactions state))))"

definition db_save :: "endian \<Rightarrow> env \<Rightarrow> db \<Rightarrow> db" where
  "db_save e env db =
     (if \<not> env_open env DatabasePath then db
      else let files = (db_files db)(DatabasePath \<mapsto> concat (map (save_record e) (db_data db)))
           in db\<lparr>db_files := foldl (save_user_txns e env) files (db_data db)\<rparr>)"

definition load_record :: "endian \<Rightarrow> user_state smap \<Rightarrow> db_record \<Rightarrow> user_state smap" where
  "load_record e data record0 =
     (let record0 = record0\<lparr>rec_balance := db_fromNetwork e (rec_balance record0)\<rparr>;
          username = asString (rec_username record0);
          entry = (case map_find username data of None \<Rightarrow> new_user_state | Some st \<Rightarrow> st);
          entry = set_record (ur_password_update (\<lambda>_. rec_password record0)) entry;
          entry = set_record (ur_balance_update (\<lambda>_. rec_balance record0)) entry;
          entry = set_record (ur_logFile_update
                    (\<lambda>_. copyFrom (LogFileMaxLen + 1) (asString (rec_logFile record0)))) entry;
          entry = set_record (ur_isLocked_update (\<lambda>_. rec_isLocked record0)) entry
      in map_put username entry data)"

definition load_transaction :: "endian \<Rightarrow> user_state \<Rightarrow> transaction_record \<Rightarrow> user_state" where
  "load_transaction e state txnRecord =
     (let txnRecord = txnRecord\<lparr>tr_amount := db_fromNetwork e (tr_amount txnRecord)\<rparr>;
          txnRecord = txnRecord\<lparr>tr_balanceAfter := db_fromNetwork e (tr_balanceAfter txnRecord)\<rparr>;
          txnRecord = txnRecord\<lparr>tr_timestamp := db_fromNetwork e (tr_timestamp txnRecord)\<rparr>
      in push_transaction txnRecord state)"

definition load_user_txns :: "endian \<Rightarrow> files \<Rightarrow> string \<times> user_state \<Rightarrow> string \<times> user_state" where
  "load_user_txns e files = (\<lambda>(username, state).
     case files (txn_path username) of None \<Rightarrow> (username, state)
     | Some txnFile \<Rightarrow> (username, foldl (load_transaction e) state
         (fst (decode_all (read_fixed transaction_size (transaction_of_bytes e)) txnFile))))"

definition db_load :: "endian \<Rightarrow> db \<Rightarrow> db" where
  "db_load e db =
     (case db_files db DatabasePath of None \<Rightarrow> db
      | Some file \<Rightarrow>
          let data = foldl (load_record e) (db_data db)
                (fst (decode_all (read_fixed record_size (record_of_bytes e)) file))
          in db\<lparr>db_data := map (load_user_txns e (db_files db)) data\<rparr>)"

section \<open>The two formats are fixed-size codecs\<close>

definition record_wf :: "db_record \<Rightarrow> bool" where
  "record_wf r \<longleftrightarrow> length (rec_username r) = 24 \<and> length (rec_password r) = 48
     \<and> length (rec_logFile r) = 32"

definition transaction_wf :: "transaction_record \<Rightarrow> bool" where
  "transaction_wf r \<longleftrightarrow> length (tr_username r) = 24 \<and> length (tr_counterparty r) = 24"

lemma db_network_inverse [simp]: "db_fromNetwork e (db_toNetwork e w) = w"
  by (simp add: db_toNetwork_def db_fromNetwork_def layout_simps split: endian.split)

lemma record_of_bytes_bytes: "record_wf r \<Longrightarrow> record_of_bytes e (record_bytes e r) = r"
  by (cases r) (simp add: record_wf_def record_of_bytes_def record_bytes_def layout_simps nth_append)

lemma transaction_of_bytes_bytes:
  "transaction_wf r \<Longrightarrow> transaction_of_bytes e (transaction_bytes e r) = r"
  by (cases r)
    (simp add: transaction_wf_def transaction_of_bytes_def transaction_bytes_def layout_simps nth_append)

interpretation record_codec: fixed_codec "record_bytes e" "record_of_bytes e" record_size record_wf for e
proof unfold_locales
  fix x :: db_record assume wf: "record_wf x"
  show "length (record_bytes e x) = record_size"
    using wf by (simp add: record_bytes_def record_wf_def record_size_def)
  show "record_of_bytes e (record_bytes e x) = x" by (rule record_of_bytes_bytes [OF wf])
qed (simp add: record_size_def)

interpretation transaction_codec:
  fixed_codec "transaction_bytes e" "transaction_of_bytes e" transaction_size transaction_wf for e
proof unfold_locales
  fix x :: transaction_record assume wf: "transaction_wf x"
  show "length (transaction_bytes e x) = transaction_size"
    using wf by (simp add: transaction_bytes_def transaction_wf_def transaction_size_def)
  show "transaction_of_bytes e (transaction_bytes e x) = x" by (rule transaction_of_bytes_bytes [OF wf])
qed (simp add: transaction_size_def)

section \<open>Loading what was saved\<close>

definition to_record :: "endian \<Rightarrow> string \<times> user_state \<Rightarrow> db_record" where
  "to_record e = (\<lambda>(u, st). \<lparr>rec_username = copyFrom 24 u, rec_password = ur_password (us_record st),
     rec_balance = db_toNetwork e (ur_balance (us_record st)), rec_logFile = ur_logFile (us_record st),
     rec_isLocked = ur_isLocked (us_record st)\<rparr>)"

definition to_net_txn :: "endian \<Rightarrow> transaction_record \<Rightarrow> transaction_record" where
  "to_net_txn e r = r\<lparr>tr_amount := db_toNetwork e (tr_amount r),
     tr_balanceAfter := db_toNetwork e (tr_balanceAfter r),
     tr_timestamp := db_toNetwork e (tr_timestamp r)\<rparr>"

lemma save_record_bytes: "save_record e x = record_bytes e (to_record e x)"
  by (simp add: save_record_def to_record_def split: prod.split)

lemma save_transaction_bytes: "save_transaction e r = transaction_bytes e (to_net_txn e r)"
  by (simp add: save_transaction_def to_net_txn_def)

text \<open>What of an account survives the file: fields of their array sizes, a padded log file name.\<close>

definition storable :: "string \<times> user_state \<Rightarrow> bool" where
  "storable = (\<lambda>(u, st). isSafePathComponent u \<and> length (ur_password (us_record st)) = 48
     \<and> (\<exists>f. length f \<le> 31 \<and> NUL \<notin> set f \<and> ur_logFile (us_record st) = copyFrom 32 f)
     \<and> (\<forall>r \<in> set (us_transactions st). transaction_wf r))"

lemma load_transaction_net: "load_transaction e st (to_net_txn e r) = push_transaction r st"
  by (simp add: load_transaction_def to_net_txn_def)

lemma load_transactions:
  "foldl (load_transaction e) st (map (to_net_txn e) rs) = st\<lparr>us_transactions := us_transactions st @ rs\<rparr>"
  by (induction rs arbitrary: st) (simp_all add: load_transaction_net push_transaction_def)

lemma decode_transactions:
  assumes "\<forall>r \<in> set rs. transaction_wf r"
  shows "decode_all (read_fixed transaction_size (transaction_of_bytes e)) (concat (map (save_transaction e) rs))
    = (map (to_net_txn e) rs, [])"
proof -
  have "\<forall>r \<in> set (map (to_net_txn e) rs). transaction_wf r"
    using assms by (auto simp: transaction_wf_def to_net_txn_def)
  then have "decode_all (read_fixed transaction_size (transaction_of_bytes e))
      (concat (map (transaction_bytes e) (map (to_net_txn e) rs)) @ []) = (map (to_net_txn e) rs, [])"
    by (rule transaction_codec.decode_all_concat [OF _ transaction_codec.dec_Nil])
  then show ?thesis by (simp add: save_transaction_bytes [abs_def] comp_def)
qed

lemma decode_records:
  assumes "\<forall>x \<in> set m. storable x"
  shows "decode_all (read_fixed record_size (record_of_bytes e)) (concat (map (save_record e) m))
    = (map (to_record e) m, [])"
proof -
  have "\<forall>r \<in> set (map (to_record e) m). record_wf r"
    using assms by (auto simp: record_wf_def to_record_def storable_def)
  then have "decode_all (read_fixed record_size (record_of_bytes e))
      (concat (map (record_bytes e) (map (to_record e) m)) @ []) = (map (to_record e) m, [])"
    by (rule record_codec.decode_all_concat [OF _ record_codec.dec_Nil])
  then show ?thesis by (simp add: save_record_bytes [abs_def] comp_def)
qed

lemma map_put_greatest:
  "\<forall>k' \<in> set (map fst m). k' < k \<Longrightarrow> map_put k v m = m @ [(k, v)]"
  by (induction k v m rule: map_put.induct) (auto simp: not_less_iff_gr_or_eq)

lemma load_record_new:
  assumes "storable (u, st)" "map_find u data = None"
  shows "load_record e data (to_record e (u, st)) = map_put u (st\<lparr>us_transactions := []\<rparr>) data"
proof -
  obtain f where f: "length f \<le> 31" "NUL \<notin> set f" "ur_logFile (us_record st) = copyFrom 32 f"
    using assms(1) by (auto simp: storable_def)
  then have "asString (ur_logFile (us_record st)) = f" by (simp add: asString_copyFrom)
  moreover have "asString (copyFrom 24 u) = u"
    using assms(1) by (auto simp: storable_def safe_name_copyFrom)
  ultimately show ?thesis using assms(2) f(3)
    by (cases st; cases "us_record st")
      (simp add: load_record_def to_record_def Let_def new_user_state_def set_record_def db_consts)
qed

lemma load_records:
  "map_ok (pre @ m) \<Longrightarrow> \<forall>x \<in> set m. storable x \<Longrightarrow>
     foldl (load_record e) pre (map (to_record e) m) = pre @ map (\<lambda>(u, st). (u, st\<lparr>us_transactions := []\<rparr>)) m"
proof (induction m arbitrary: pre)
  case (Cons x m)
  obtain u st where x: "x = (u, st)" by (cases x)
  let ?x = "(u, st\<lparr>us_transactions := []\<rparr>)"
  have lt: "\<forall>k' \<in> set (map fst pre). k' < u"
    using Cons.prems(1) x by (auto simp: map_ok_def sorted_wrt_append)
  then have "u \<notin> set (map fst pre)" by blast
  then have "map_find u pre = None" by (simp add: map_find_def map_of_eq_None_iff)
  then have "load_record e pre (to_record e x) = pre @ [?x]"
    using Cons.prems(2) x lt by (simp add: load_record_new map_put_greatest)
  moreover have "map_ok ((pre @ [?x]) @ m)" using Cons.prems(1) x by (simp add: map_ok_def)
  ultimately show ?case using Cons.IH [of "pre @ [?x]"] Cons.prems(2) x by simp
qed simp

lemma txn_path_inject [simp]: "txn_path u = txn_path v \<longleftrightarrow> u = v"
  by (simp add: txn_path_def)

lemma txn_path_not_database [simp]: "txn_path u \<noteq> DatabasePath" "DatabasePath \<noteq> txn_path u"
  by (simp_all add: txn_path_def DatabasePath_def DataDir_def)

lemma save_txns_database:
  "foldl (save_user_txns e env) files m DatabasePath = files DatabasePath"
  by (induction m arbitrary: files) (auto simp: save_user_txns_def Let_def)

lemma save_txns_other:
  "u \<notin> set (map fst m) \<Longrightarrow> foldl (save_user_txns e env) files m (txn_path u) = files (txn_path u)"
  by (induction m arbitrary: files) (auto simp: save_user_txns_def Let_def)

lemma save_txns_path:
  "distinct (map fst m) \<Longrightarrow> (u, st) \<in> set m \<Longrightarrow> env_open env (txn_path u) \<Longrightarrow>
     foldl (save_user_txns e env) files m (txn_path u)
       = Some (concat (map (save_transaction e) (us_transactions st)))"
proof (induction m arbitrary: files)
  case (Cons x m)
  show ?case
  proof (cases "x = (u, st)")
    case True
    with Cons.prems have "u \<notin> set (map fst m)" by simp
    then have "foldl (save_user_txns e env) (save_user_txns e env files x) m (txn_path u)
        = save_user_txns e env files x (txn_path u)" by (rule save_txns_other)
    also have "\<dots> = Some (concat (map (save_transaction e) (us_transactions st)))"
      using True Cons.prems(3) by (simp add: save_user_txns_def)
    finally show ?thesis by simp
  next
    case False
    with Cons show ?thesis by simp
  qed
qed simp

lemma load_saved_user:
  assumes "map_ok (db_data db)" "(u, st) \<in> set (db_data db)" "storable (u, st)"
    "env_open env DatabasePath" "env_open env (txn_path u)"
  shows "load_user_txns e (db_files (db_save e env db)) (u, st\<lparr>us_transactions := []\<rparr>) = (u, st)"
proof -
  have "db_files (db_save e env db) (txn_path u)
      = Some (concat (map (save_transaction e) (us_transactions st)))"
    using assms by (simp add: db_save_def Let_def save_txns_path map_ok_distinct)
  moreover have "\<forall>r \<in> set (us_transactions st). transaction_wf r"
    using assms(3) by (simp add: storable_def)
  ultimately show ?thesis
    by (simp add: load_user_txns_def decode_transactions load_transactions)
qed

lemma load_save:
  assumes ok: "map_ok (db_data db)" and st: "\<forall>x \<in> set (db_data db). storable x"
    and op: "env_open env DatabasePath" "\<forall>(u, st) \<in> set (db_data db). env_open env (txn_path u)"
  shows "db_data (db_load e ((db_save e env db)\<lparr>db_data := []\<rparr>)) = db_data db"
proof -
  let ?files = "db_files (db_save e env db)"
  have "?files DatabasePath = Some (concat (map (save_record e) (db_data db)))"
    using op by (simp add: db_save_def Let_def save_txns_database)
  moreover have "foldl (load_record e) [] (map (to_record e) (db_data db)) =
      map (\<lambda>(u, st). (u, st\<lparr>us_transactions := []\<rparr>)) (db_data db)"
    using load_records [of "[]" "db_data db" e] ok st by simp
  ultimately have "db_data (db_load e ((db_save e env db)\<lparr>db_data := []\<rparr>)) =
      map (load_user_txns e ?files) (map (\<lambda>(u, st). (u, st\<lparr>us_transactions := []\<rparr>)) (db_data db))"
    using st by (simp add: db_load_def decode_records)
  also have "\<dots> = map (\<lambda>x. x) (db_data db)"
    unfolding map_map by (rule map_cong [OF refl]) (use assms in \<open>auto intro!: load_saved_user\<close>)
  finally show ?thesis by simp
qed

end
