(* ===== verification/Database.thy ===== *)
theory Database
  imports DbFile
begin

text \<open>
  \<^verbatim>\<open>DbManager\<close>: the queue of work items, the worker loop, the save timer, construction and
  destruction. The worker thread takes one item at a time under the mutex and processes it outside,
  so the manager is a state that three kinds of steps interleave on: a submission, one round of the
  worker loop, one firing of the timer.
\<close>

section \<open>Work items\<close>

datatype 'cb work_item =
    AuthOp string string "'cb option"
  | ChangePasswordOp string string "'cb option"
  | CreateAccountOp string string "'cb option"
  | ToggleAccountOp string "'cb option"
  | GetBalanceOp string "'cb option"
  | ChangeBalanceOp string i64 "'cb option"
  | TransferBalanceOp string string u64 "'cb option"
  | GetTxnHistoryOp string u64 "'cb option"
  | SearchUsersOp string "'cb option"
  | SaveOp

definition process_save :: "endian \<Rightarrow> env \<Rightarrow> db \<Rightarrow> db \<times> 'cb posts" where
  "process_save e env db =
     (if db_dirty db then ((db_save e env db)\<lparr>db_dirty := False\<rparr>, []) else (db, []))"

fun processItem :: "endian \<Rightarrow> env \<Rightarrow> 'cb work_item \<Rightarrow> db \<Rightarrow> db \<times> 'cb posts" where
  "processItem e env (AuthOp u p cb) db = process_auth e u p cb db"
| "processItem e env (ChangePasswordOp u p cb) db = process_change_password e env u p cb db"
| "processItem e env (CreateAccountOp u p cb) db = process_create_account e env u p cb db"
| "processItem e env (ToggleAccountOp u cb) db = process_toggle_account env u cb db"
| "processItem e env (GetBalanceOp u cb) db = process_get_balance u cb db"
| "processItem e env (ChangeBalanceOp u change cb) db = process_change_balance env u change cb db"
| "processItem e env (TransferBalanceOp s r amount cb) db =
     process_transfer_balance env s r amount cb db"
| "processItem e env (GetTxnHistoryOp u cnt cb) db = process_txn_history u cnt cb db"
| "processItem e env (SearchUsersOp pfx cb) db = process_search_users pfx cb db"
| "processItem e env SaveOp db = process_save e env db"

section \<open>The manager\<close>

record 'cb manager =
  dm_db :: db
  dm_queue :: "'cb work_item list"
  dm_running :: bool
  dm_timer :: bool
  dm_io :: "'cb posts"

text \<open>\<open>dm_io\<close> holds the callbacks posted to the \<^verbatim>\<open>io_context\<close> and not yet run, oldest first.\<close>

definition enqueue :: "'cb work_item \<Rightarrow> 'cb manager \<Rightarrow> 'cb manager" where
  "enqueue item m = m\<lparr>dm_queue := dm_queue m @ [item]\<rparr>"

definition DbManager_authenticate :: "string \<Rightarrow> string \<Rightarrow> 'cb option \<Rightarrow> 'cb manager \<Rightarrow> 'cb manager" where
  "DbManager_authenticate username password cb m = enqueue (AuthOp username password cb) m"

definition DbManager_changePassword :: "string \<Rightarrow> string \<Rightarrow> 'cb option \<Rightarrow> 'cb manager \<Rightarrow> 'cb manager" where
  "DbManager_changePassword username newPassword cb m =
     enqueue (ChangePasswordOp username newPassword cb) m"

definition DbManager_createAccount :: "string \<Rightarrow> string \<Rightarrow> 'cb option \<Rightarrow> 'cb manager \<Rightarrow> 'cb manager" where
  "DbManager_createAccount username password cb m = enqueue (CreateAccountOp username password cb) m"

definition DbManager_toggleAccount :: "string \<Rightarrow> 'cb option \<Rightarrow> 'cb manager \<Rightarrow> 'cb manager" where
  "DbManager_toggleAccount username cb m = enqueue (ToggleAccountOp username cb) m"

definition DbManager_getBalance :: "string \<Rightarrow> 'cb option \<Rightarrow> 'cb manager \<Rightarrow> 'cb manager" where
  "DbManager_getBalance username cb m = enqueue (GetBalanceOp username cb) m"

definition DbManager_changeBalance :: "string \<Rightarrow> i64 \<Rightarrow> 'cb option \<Rightarrow> 'cb manager \<Rightarrow> 'cb manager" where
  "DbManager_changeBalance username change cb m = enqueue (ChangeBalanceOp username change cb) m"

definition DbManager_transferBalance ::
  "string \<Rightarrow> string \<Rightarrow> u64 \<Rightarrow> 'cb option \<Rightarrow> 'cb manager \<Rightarrow> 'cb manager" where
  "DbManager_transferBalance sender recipient amount cb m =
     enqueue (TransferBalanceOp sender recipient amount cb) m"

definition DbManager_getTransactions :: "string \<Rightarrow> u64 \<Rightarrow> 'cb option \<Rightarrow> 'cb manager \<Rightarrow> 'cb manager" where
  "DbManager_getTransactions username cnt cb m = enqueue (GetTxnHistoryOp username cnt cb) m"

definition DbManager_searchUsers :: "string \<Rightarrow> 'cb option \<Rightarrow> 'cb manager \<Rightarrow> 'cb manager" where
  "DbManager_searchUsers pfx cb m = enqueue (SearchUsersOp pfx cb) m"

lemmas DbManager_enqueues = DbManager_authenticate_def DbManager_changePassword_def
  DbManager_createAccount_def DbManager_toggleAccount_def DbManager_getBalance_def
  DbManager_changeBalance_def DbManager_transferBalance_def DbManager_getTransactions_def
  DbManager_searchUsers_def

definition onSaveTimer :: "bool \<Rightarrow> 'cb manager \<Rightarrow> 'cb manager" where
  "onSaveTimer ec m =
     (if ec then m\<lparr>dm_timer := False\<rparr> else (enqueue SaveOp m)\<lparr>dm_timer := True\<rparr>)"

text \<open>
  What the worker finds when it holds the mutex: nothing to do yet, the end of the loop, or an
  item, which it removes and processes.
\<close>

datatype 'cb round_result = Waits | Exits | Worked "'cb manager"

definition dbLoop_round :: "endian \<Rightarrow> env \<Rightarrow> 'cb manager \<Rightarrow> 'cb round_result" where
  "dbLoop_round e env m =
     (if \<not> (dm_queue m \<noteq> [] \<or> \<not> dm_running m) then Waits
      else if \<not> dm_running m \<and> dm_queue m = [] then Exits
      else let item = hd (dm_queue m);
               m = m\<lparr>dm_queue := tl (dm_queue m)\<rparr>;
               (db, posted) = processItem e env item (dm_db m)
           in Worked (m\<lparr>dm_db := db, dm_io := dm_io m @ posted\<rparr>))"

text \<open>
  The loop until it waits or ends, with nothing submitted meanwhile; \<open>envs\<close> gives the environment
  of each round. Each round removes an item.
\<close>

function dbLoop :: "endian \<Rightarrow> (nat \<Rightarrow> env) \<Rightarrow> 'cb manager \<Rightarrow> 'cb manager" where
  "dbLoop e envs m =
     (case dbLoop_round e (envs 0) m of
        Waits \<Rightarrow> m | Exits \<Rightarrow> m | Worked m' \<Rightarrow> dbLoop e (\<lambda>i. envs (Suc i)) m')"
  by pat_completeness auto
termination
  by (relation "measure (\<lambda>(e, envs, m). length (dm_queue m))")
    (auto simp: dbLoop_round_def Let_def split: if_splits prod.splits)

declare dbLoop.simps [simp del]

definition DbManager_init :: "endian \<Rightarrow> files \<Rightarrow> 'cb manager" where
  "DbManager_init e files =
     (let db = \<lparr>db_data = [], db_dirty = False, db_files = files, db_salt_counter = 0\<rparr>;
          db = db_load e db
      in \<lparr>dm_db = db, dm_queue = [], dm_running = True, dm_timer = True, dm_io = []\<rparr>)"

definition DbManager_destroy :: "endian \<Rightarrow> (nat \<Rightarrow> env) \<Rightarrow> env \<Rightarrow> 'cb manager \<Rightarrow> 'cb manager" where
  "DbManager_destroy e envs env m =
     (let m = m\<lparr>dm_timer := False\<rparr>;
          m = m\<lparr>dm_running := False\<rparr>;
          m = dbLoop e envs m
      in m\<lparr>dm_db := db_save e env (dm_db m)\<rparr>)"

text \<open>The interleavings: any item may be submitted, the worker may take a round, the timer may fire.\<close>

datatype 'cb db_event = Submit "'cb work_item" | Round env | Timer bool

inductive manager_step :: "endian \<Rightarrow> 'cb db_event \<Rightarrow> 'cb manager \<Rightarrow> 'cb manager \<Rightarrow> bool" for e where
  submit: "manager_step e (Submit item) m (enqueue item m)"
| round: "dbLoop_round e env m = Worked m' \<Longrightarrow> manager_step e (Round env) m m'"
| timer: "dm_timer m \<Longrightarrow> manager_step e (Timer ec) m (onSaveTimer ec m)"

inductive_cases manager_stepE: "manager_step e ev m m'"
inductive_simps manager_step_simps [simp]:
  "manager_step e (Submit item) m m'" "manager_step e (Round env) m m'" "manager_step e (Timer ec) m m'"

inductive manager_run :: "endian \<Rightarrow> 'cb db_event list \<Rightarrow> 'cb manager \<Rightarrow> 'cb manager \<Rightarrow> bool" for e where
  run_Nil: "manager_run e [] m m"
| run_snoc: "manager_run e evs m m' \<Longrightarrow> manager_step e ev m' m'' \<Longrightarrow> manager_run e (evs @ [ev]) m m''"

section \<open>Processing a list of items\<close>

text \<open>The sequential specification: items processed one after the other.\<close>

fun run_items :: "endian \<Rightarrow> (env \<times> 'cb work_item) list \<Rightarrow> db \<Rightarrow> db \<times> 'cb posts" where
  "run_items e [] db = (db, [])"
| "run_items e ((env, item) # xs) db =
     (let (db', posted) = processItem e env item db; (db'', posted') = run_items e xs db'
      in (db'', posted @ posted'))"

lemma run_items_append:
  "run_items e (xs @ ys) db =
     (let (db', p) = run_items e xs db; (db'', q) = run_items e ys db' in (db'', p @ q))"
  by (induction e xs db rule: run_items.induct) (simp_all add: Let_def split: prod.split)

text \<open>The items an event puts into the queue, and the environments of the rounds taken.\<close>

fun submitted :: "'cb db_event \<Rightarrow> 'cb work_item list" where
  "submitted (Submit item) = [item]"
| "submitted (Round env) = []"
| "submitted (Timer ec) = (if ec then [] else [SaveOp])"

fun rounds :: "'cb db_event \<Rightarrow> env list" where
  "rounds (Round env) = [env]"
| "rounds _ = []"

lemma dbLoop_round_Worked:
  "dbLoop_round e env m = Worked m' \<longleftrightarrow>
     (\<exists>item q. dm_queue m = item # q \<and>
        m' = m\<lparr>dm_queue := q, dm_db := fst (processItem e env item (dm_db m)),
               dm_io := dm_io m @ snd (processItem e env item (dm_db m))\<rparr>)"
  by (cases "dm_queue m") (auto simp: dbLoop_round_def Let_def split: prod.split)

lemma enqueue_simps [simp]:
  "dm_queue (enqueue item m) = dm_queue m @ [item]" "dm_db (enqueue item m) = dm_db m"
  "dm_io (enqueue item m) = dm_io m" "dm_running (enqueue item m) = dm_running m"
  by (simp_all add: enqueue_def)

text \<open>
  Whatever the interleaving, the manager has processed a prefix of the submitted items, in the
  order of submission, and posted exactly their replies.
\<close>

lemma manager_run_sequential:
  assumes "manager_run e evs m m'" "dm_queue m = []" "dm_io m = []"
  shows "\<exists>items q. concat (map submitted evs) = items @ q \<and> dm_queue m' = q
      \<and> length items = length (concat (map rounds evs))
      \<and> (dm_db m', dm_io m') = run_items e (zip (concat (map rounds evs)) items) (dm_db m)"
  using assms
proof (induction rule: manager_run.induct)
  case (run_Nil m)
  then show ?case by simp
next
  case (run_snoc evs m m' ev m'')
  then obtain items q where I: "concat (map submitted evs) = items @ q" "dm_queue m' = q"
    "length items = length (concat (map rounds evs))"
    "(dm_db m', dm_io m') = run_items e (zip (concat (map rounds evs)) items) (dm_db m)" by blast
  from run_snoc.hyps(2) show ?case
  proof (cases rule: manager_step.cases)
    case (submit item)
    show ?thesis by (rule exI [of _ items], rule exI [of _ "q @ [item]"]) (use I submit in simp)
  next
    case (round env)
    then obtain item q' where w: "q = item # q'"
      "m'' = m'\<lparr>dm_queue := q', dm_db := fst (processItem e env item (dm_db m')),
               dm_io := dm_io m' @ snd (processItem e env item (dm_db m'))\<rparr>"
      using I(2) by (auto simp: dbLoop_round_Worked)
    have *: "zip (concat (map rounds evs) @ [env]) (items @ [item])
        = zip (concat (map rounds evs)) items @ [(env, item)]"
      using I(3) by simp
    show ?thesis
      by (rule exI [of _ "items @ [item]"], rule exI [of _ q'])
        (use I w round * in \<open>auto simp: run_items_append Let_def split: prod.split\<close>)
  next
    case (timer ec)
    show ?thesis
      by (rule exI [of _ items], rule exI [of _ "if ec then q else q @ [SaveOp]"])
        (use I timer in \<open>simp add: onSaveTimer_def\<close>)
  qed
qed

text \<open>The loop works off the whole queue.\<close>

lemma dbLoop_drains:
  "(\<exists>envs'. length envs' = length (dm_queue m) \<and>
     (let (db, posted) = run_items e (zip envs' (dm_queue m)) (dm_db m)
      in dbLoop e envs m = m\<lparr>dm_queue := [], dm_db := db, dm_io := dm_io m @ posted\<rparr>))"
proof (induction "dm_queue m" arbitrary: m envs)
  case Nil
  then have "dbLoop e envs m = m"
    by (subst dbLoop.simps) (auto simp: dbLoop_round_def)
  with Nil show ?case by simp
next
  case (Cons item q)
  let ?m = "m\<lparr>dm_queue := q, dm_db := fst (processItem e (envs 0) item (dm_db m)),
               dm_io := dm_io m @ snd (processItem e (envs 0) item (dm_db m))\<rparr>"
  have w: "dbLoop_round e (envs 0) m = Worked ?m"
    unfolding dbLoop_round_Worked
    by (rule exI [of _ item], rule exI [of _ q]) (simp add: Cons.hyps(2) [symmetric])
  obtain envs' where "length envs' = length q" and
    r: "let (db, posted) = run_items e (zip envs' q) (dm_db ?m)
      in dbLoop e (\<lambda>i. envs (Suc i)) ?m = ?m\<lparr>dm_queue := [], dm_db := db, dm_io := dm_io ?m @ posted\<rparr>"
    using Cons.hyps(1) [of ?m "\<lambda>i. envs (Suc i)"] by auto
  moreover have "dbLoop e envs m = dbLoop e (\<lambda>i. envs (Suc i)) ?m"
    using w by (subst dbLoop.simps) simp
  ultimately show ?case using Cons.hyps(2) [symmetric]
    by (intro exI [of _ "envs 0 # envs'"]) (auto simp: Let_def split: prod.splits)
qed

end
