(* ===== verification/Packet.thy ===== *)
theory Packet
  imports Codec
begin

text \<open>
  The packet protocol of \<^verbatim>\<open>libs/network\<close>: the header of four length bytes in network order and one
  type byte, and the synchronous and asynchronous senders and receivers. A socket is the byte
  stream written to it and not yet read; running out of bytes is the error (end of file) that ASIO
  reports for a connection the peer closed.
\<close>

section \<open>Packet types\<close>

text \<open>
  The enumeration has a fixed underlying type, so a received byte outside the enumerators is a
  value too: \<open>unnamed\<close>.
\<close>

datatype packet_type =
  account_auth | account_create | balance_req | balance_change | balance_transfer | ping
| account_change_password | account_toggle | log_req | txn_history_req | user_search_req
| unnamed u8

fun to_underlying :: "packet_type \<Rightarrow> u8" where
  "to_underlying account_auth = 0"
| "to_underlying account_create = 1"
| "to_underlying balance_req = 2"
| "to_underlying balance_change = 3"
| "to_underlying balance_transfer = 4"
| "to_underlying ping = 5"
| "to_underlying account_change_password = 6"
| "to_underlying account_toggle = 7"
| "to_underlying log_req = 8"
| "to_underlying txn_history_req = 9"
| "to_underlying user_search_req = 10"
| "to_underlying (unnamed b) = b"

definition packet_type_of :: "u8 \<Rightarrow> packet_type" where
  "packet_type_of b =
     (if b = 0 then account_auth else if b = 1 then account_create else if b = 2 then balance_req
      else if b = 3 then balance_change else if b = 4 then balance_transfer else if b = 5 then ping
      else if b = 6 then account_change_password else if b = 7 then account_toggle
      else if b = 8 then log_req else if b = 9 then txn_history_req
      else if b = 10 then user_search_req else unnamed b)"

definition proper_type :: "packet_type \<Rightarrow> bool" where
  "proper_type t \<longleftrightarrow> packet_type_of (to_underlying t) = t"

section \<open>Sending and receiving\<close>

definition HeaderSize :: nat where "HeaderSize = 5"
definition LengthSize :: nat where "LengthSize = 4"
definition TypeSize :: nat where "TypeSize = 1"

definition packet_toNetwork :: "endian \<Rightarrow> u32 \<Rightarrow> u32" where
  "packet_toNetwork e val = (case e of Little \<Rightarrow> byteswap 4 val | Big \<Rightarrow> val)"

definition packet_send :: "endian \<Rightarrow> string \<Rightarrow> packet_type \<Rightarrow> string \<Rightarrow> string" where
  "packet_send e socket type data =
     (let len = packet_toNetwork e (word_of_nat (length data));
          header = mem_chars e LengthSize len @ [char_of_u8 (to_underlying type)]
      in socket @ header @ data)"

text \<open>\<open>None\<close> is the exception a read past the end of the stream throws.\<close>

definition packet_recv :: "endian \<Rightarrow> string \<Rightarrow> ((packet_type \<times> string) \<times> string) option" where
  "packet_recv e socket =
     (if length socket < HeaderSize then None
      else let header = take HeaderSize socket; socket = drop HeaderSize socket;
               len = unat (packet_toNetwork e (of_mem_chars e (take LengthSize header)));
               type = packet_type_of (u8_of_char (header ! LengthSize))
           in if length socket < len then None
              else Some ((type, take len socket), drop len socket))"

text \<open>
  The asynchronous pair. The sender queues one write of header and body; the receiver calls its
  handler with an error flag, a type and a body, \<^verbatim>\<open>PacketType{}\<close> (value 0) and the empty string on
  an error.
\<close>

definition packet_asyncSend :: "endian \<Rightarrow> string \<Rightarrow> packet_type \<Rightarrow> string \<Rightarrow> string" where
  "packet_asyncSend e socket type data =
     (let len = packet_toNetwork e (word_of_nat (length data));
          header = mem_chars e LengthSize len @ [char_of_u8 (to_underlying type)];
          body = data
      in socket @ header @ body)"

definition packet_asyncRecv :: "endian \<Rightarrow> string \<Rightarrow> (bool \<times> packet_type \<times> string) \<times> string" where
  "packet_asyncRecv e socket =
     (if length socket < HeaderSize then ((True, packet_type_of 0, []), [])
      else let header = take HeaderSize socket; socket = drop HeaderSize socket;
               len = unat (packet_toNetwork e (of_mem_chars e (take LengthSize header)));
               type = packet_type_of (u8_of_char (header ! LengthSize))
           in if length socket < len then ((True, packet_type_of 0, []), [])
              else ((False, type, take len socket), drop len socket))"

lemmas packet_consts = HeaderSize_def LengthSize_def TypeSize_def

section \<open>The wire format\<close>

lemma proper_packet_type_of [simp]: "proper_type (packet_type_of b)"
  by (simp add: proper_type_def packet_type_of_def)

lemma proper_named [simp]:
  "proper_type account_auth" "proper_type account_create" "proper_type balance_req"
  "proper_type balance_change" "proper_type balance_transfer" "proper_type ping"
  "proper_type account_change_password" "proper_type account_toggle" "proper_type log_req"
  "proper_type txn_history_req" "proper_type user_search_req"
  by (simp_all add: proper_type_def packet_type_of_def)

lemma packet_toNetwork_net_order: "packet_toNetwork e val = net_order e 4 val"
  by (simp add: packet_toNetwork_def net_order_def)

definition frame :: "packet_type \<times> string \<Rightarrow> string" where
  "frame p = be_chars 4 (word_of_nat (length (snd p)) :: u32)
     @ [char_of_u8 (to_underlying (fst p))] @ snd p"

definition frame_ok :: "packet_type \<times> string \<Rightarrow> bool" where
  "frame_ok p \<longleftrightarrow> proper_type (fst p) \<and> length (snd p) < 2 ^ 32"

lemma packet_send_frame: "packet_send e socket t d = socket @ frame (t, d)"
  by (simp add: packet_send_def frame_def Let_def packet_toNetwork_net_order packet_consts
      mem_chars_net_order)

lemma packet_asyncSend_frame: "packet_asyncSend e socket t d = socket @ frame (t, d)"
  by (simp add: packet_asyncSend_def frame_def Let_def packet_toNetwork_net_order packet_consts
      mem_chars_net_order)

lemma length_frame: "length (frame p) = 5 + length (snd p)"
  by (simp add: frame_def)

lemma packet_recv_frame:
  "frame_ok p \<Longrightarrow> packet_recv e (frame p @ rest) = Some (p, rest)"
  by (cases p)
    (simp add: packet_recv_def frame_def frame_ok_def Let_def packet_consts proper_type_def
      packet_toNetwork_net_order net_order_of_mem_chars_be_chars nth_append unat_of_nat
      take_bit_nat_eq_self)

lemma packet_recv_shorter: "packet_recv e s = Some (x, r) \<Longrightarrow> length r < length s"
  by (auto simp: packet_recv_def Let_def packet_consts split: if_splits)

lemma packet_recv_prefix:
  assumes ok: "frame_ok p" and pre: "strict_prefix q (frame p)"
  shows "packet_recv e q = None"
proof (cases "length q < 5")
  case True
  then show ?thesis by (simp add: packet_recv_def packet_consts)
next
  case False
  from pre obtain r where r: "frame p = q @ r" "r \<noteq> []" by (auto simp: strict_prefix_def prefix_def)
  then have q: "take 5 q = take 5 (frame p)" using False by simp
  obtain t d where p: "p = (t, d)" by (cases p)
  have h: "take 5 q = be_chars 4 (word_of_nat (length d) :: u32) @ [char_of_u8 (to_underlying t)]"
    unfolding q p by (simp add: frame_def)
  have "length q < 5 + length d" using length_frame [of p] r by (cases r) (auto simp: p)
  then have "length (drop 5 q) < length d" using False by simp
  moreover have "take 4 q = be_chars 4 (word_of_nat (length d) :: u32)"
    using arg_cong [OF h, of "take 4"] by simp
  ultimately show ?thesis using ok False
    by (simp add: packet_recv_def packet_consts Let_def packet_toNetwork_net_order p
        net_order_of_mem_chars_be_chars frame_ok_def unat_of_nat take_bit_nat_eq_self)
qed

interpretation wire: framing frame "packet_recv e" frame_ok for e
  by unfold_locales (rule packet_recv_frame packet_recv_shorter packet_recv_prefix; assumption)+

lemma asyncRecv_recv:
  "packet_asyncRecv e s = (case packet_recv e s of
     None \<Rightarrow> ((True, account_auth, []), []) | Some ((t, d), r) \<Rightarrow> ((False, t, d), r))"
  by (simp add: packet_asyncRecv_def packet_recv_def Let_def packet_type_of_def)

section \<open>Properties\<close>

text \<open>
  C10: Packets written one after the other by \<^verbatim>\<open>packet::send\<close> are read back by \<^verbatim>\<open>packet::recv\<close> one by
  one, types and bodies intact, whatever the byte orders of the two hosts; a stream that breaks off
  inside a packet yields the complete packets and nothing of the broken one.
\<close>

lemma packet_stream_roundtrip:
  assumes "\<forall>p \<in> set ps. frame_ok p" "frame_ok q" "strict_prefix part (frame q)"
  shows "decode_all (packet_recv e) (foldl (\<lambda>s (t, d). packet_send e' s t d) [] ps @ part) = (ps, part)"
proof -
  have "foldl (\<lambda>s (t, d). packet_send e' s t d) s ps = s @ concat (map frame ps)" for s
    by (induction ps arbitrary: s) (auto simp: packet_send_frame)
  then show ?thesis using wire.decode_all_truncated [OF assms] by simp
qed

lemma packet_stream_roundtrip_witness:
  "decode_all (packet_recv Big) (foldl (\<lambda>s (t, d). packet_send Little s t d) []
     [(balance_req, ''alice''), (ping, [])] @ [NUL, NUL]) = ([(balance_req, ''alice''), (ping, [])], [NUL, NUL])"
proof (rule packet_stream_roundtrip [where q = "(log_req, ''bob'')"])
  show "strict_prefix [NUL, NUL] (frame (log_req, ''bob''))"
    by code_simp
qed (simp_all add: frame_ok_def)

text \<open>
  The asynchronous pair speaks the format of the synchronous one: \<^verbatim>\<open>asyncSend\<close> writes the bytes that
  \<^verbatim>\<open>send\<close> writes, and \<^verbatim>\<open>asyncRecv\<close> reports an error exactly when \<^verbatim>\<open>recv\<close> throws, with the value-zero type
  and an empty body, and otherwise hands over the packet that \<^verbatim>\<open>recv\<close> returns.
\<close>

lemma async_sync_agree:
  "packet_asyncSend e s t d = packet_send e s t d \<and>
   packet_asyncRecv e s = (case packet_recv e s of
     None \<Rightarrow> ((True, account_auth, []), []) | Some ((t, d), r) \<Rightarrow> ((False, t, d), r))"
  by (simp add: packet_asyncSend_frame packet_send_frame asyncRecv_recv)

end
