(* ===== verification/Session.thy ===== *)
theory Session
  imports Database Packet
begin

text \<open>
  One connection of the server (\<^verbatim>\<open>Session\<close> in \<^verbatim>\<open>server/Server.cpp\<close>): what it does with a received
  packet, one definition per case of the switch, and what its callbacks send when the database has
  answered. A callback is the data its lambda captured; the log lines of \<^verbatim>\<open>ServerLog\<close> are a list.
\<close>

section \<open>The log of the server\<close>

type_synonym log_entry = "string \<times> string"

definition ServerLog_info :: "string \<Rightarrow> log_entry" where "ServerLog_info msg = (''INFO'', msg)"
definition ServerLog_warn :: "string \<Rightarrow> log_entry" where "ServerLog_warn msg = (''WARN'', msg)"
definition ServerLog_auth :: "string \<Rightarrow> log_entry" where "ServerLog_auth msg = (''AUTH'', msg)"
definition ServerLog_create :: "string \<Rightarrow> log_entry" where "ServerLog_create msg = (''CREATE'', msg)"
definition ServerLog_balance :: "string \<Rightarrow> log_entry" where "ServerLog_balance msg = (''BALANCE'', msg)"
definition ServerLog_transfer :: "string \<Rightarrow> log_entry" where "ServerLog_transfer msg = (''TRANSFER'', msg)"
definition ServerLog_password :: "string \<Rightarrow> log_entry" where "ServerLog_password msg = (''PASSWORD'', msg)"
definition ServerLog_toggle :: "string \<Rightarrow> log_entry" where "ServerLog_toggle msg = (''TOGGLE'', msg)"

text \<open>The line written to the standard output at the clock reading \<open>now\<close>.\<close>

definition ServerLog_line :: "int \<Rightarrow> log_entry \<Rightarrow> string" where
  "ServerLog_line now entry =
     ''['' @ format_T now @ ''] ['' @ fst entry @ ''] '' @ snd entry @ [LF]"

section \<open>Callbacks\<close>

text \<open>Each carries the session (\<open>self\<close>) and the user name its lambda captures.\<close>

datatype session_cb =
    AuthCb nat string
  | CreateCb nat string
  | BalanceCb nat
  | ChangeCb nat string
  | TransferCb nat string
  | PasswordCb nat string
  | ToggleCb nat
  | HistoryCb nat
  | SearchCb nat

fun cb_session :: "session_cb \<Rightarrow> nat" where
  "cb_session (AuthCb i u) = i"
| "cb_session (CreateCb i u) = i"
| "cb_session (BalanceCb i) = i"
| "cb_session (ChangeCb i u) = i"
| "cb_session (TransferCb i u) = i"
| "cb_session (PasswordCb i u) = i"
| "cb_session (ToggleCb i) = i"
| "cb_session (HistoryCb i) = i"
| "cb_session (SearchCb i) = i"

fun ok_reply :: "reply \<Rightarrow> bool" where
  "ok_reply (RBool ok) = ok"
| "ok_reply _ = False"

fun u64_reply :: "reply \<Rightarrow> u64" where
  "u64_reply (RU64 w) = w"
| "u64_reply _ = 0"

fun string_reply :: "reply \<Rightarrow> string" where
  "string_reply (RString s) = s"
| "string_reply _ = []"

definition ok_fail :: "bool \<Rightarrow> string" where
  "ok_fail ok = (if ok then ''OK'' else ''FAIL'')"

definition quoted :: "string \<Rightarrow> string" where
  "quoted u = [CHR 0x27] @ u @ [CHR 0x27]"

text \<open>The log lines and the packet of the call of \<^verbatim>\<open>doWrite\<close>.\<close>

fun session_reply :: "string \<Rightarrow> session_cb \<Rightarrow> reply \<Rightarrow> log_entry list \<times> u8 \<times> string" where
  "session_reply peer (AuthCb i user) r =
     (let ok = ok_reply r in
      ([ServerLog_auth (peer @ '' user '' @ quoted user @ '' '' @ (if ok then ''OK'' else ''FAIL''))],
       to_underlying account_auth, ok_fail ok))"
| "session_reply peer (CreateCb i user) r =
     (let created = ok_reply r in
      ([if created then ServerLog_create (peer @ '' user '' @ quoted user @ '' created'')
        else ServerLog_warn (peer @ '' user '' @ quoted user @ '' already exists'')],
       to_underlying account_create, ok_fail created))"
| "session_reply peer (BalanceCb i) r =
     ([], to_underlying balance_req, string_of_u64 (u64_reply r))"
| "session_reply peer (ChangeCb i user) r =
     (let ok = ok_reply r in
      (if ok then [ServerLog_balance (peer @ '' user '' @ quoted user @ '' balance changed'')] else [],
       to_underlying balance_change, ok_fail ok))"
| "session_reply peer (TransferCb i sender) r =
     (let ok = ok_reply r in
      (if ok then [ServerLog_transfer (peer @ '' transfer from '' @ quoted sender @ '' OK'')] else [],
       to_underlying balance_transfer, ok_fail ok))"
| "session_reply peer (PasswordCb i user) r =
     (let ok = ok_reply r in
      ([if ok then ServerLog_password (peer @ '' user '' @ quoted user @ '' password changed'')
        else ServerLog_warn (peer @ '' user '' @ quoted user @ '' password change failed'')],
       to_underlying account_change_password, ok_fail ok))"
| "session_reply peer (ToggleCb i) r = ([], to_underlying account_toggle, ''OK'')"
| "session_reply peer (HistoryCb i) r = ([], to_underlying txn_history_req, string_reply r)"
| "session_reply peer (SearchCb i) r = ([], to_underlying user_search_req, string_reply r)"

section \<open>A received packet\<close>

datatype session_action =
    DoWrite u8 string
  | ToDb "session_cb work_item"
  | NoAnswer

type_synonym dispatched = "log_entry list \<times> session_action"

definition session_auth :: "nat \<Rightarrow> string \<Rightarrow> string \<Rightarrow> dispatched" where
  "session_auth i peer data =
     (case str_find COLON 0 data of
        None \<Rightarrow> ([ServerLog_warn (peer @ '' malformed auth packet'')],
                 DoWrite (to_underlying account_auth) ''FAIL'')
      | Some delim \<Rightarrow>
          let user = substr 0 delim data; pass = substr_from (delim + 1) data
          in ([], ToDb (AuthOp user pass (Some (AuthCb i user)))))"

definition session_create :: "nat \<Rightarrow> string \<Rightarrow> dispatched" where
  "session_create i data =
     (case str_find COLON 0 data of
        None \<Rightarrow> ([], DoWrite (to_underlying account_create) ''FAIL'')
      | Some delim \<Rightarrow>
          let user = substr 0 delim data; pass = substr_from (delim + 1) data
          in ([], ToDb (CreateAccountOp user pass (Some (CreateCb i user)))))"

definition session_balance_req :: "nat \<Rightarrow> string \<Rightarrow> dispatched" where
  "session_balance_req i data = ([], ToDb (GetBalanceOp data (Some (BalanceCb i))))"

definition session_balance_change :: "nat \<Rightarrow> string \<Rightarrow> dispatched" where
  "session_balance_change i data =
     (case str_find COLON 0 data of
        None \<Rightarrow> ([], DoWrite (to_underlying balance_change) ''FAIL'')
      | Some delim \<Rightarrow>
          let user = substr 0 delim data
          in case stoll (substr_from (delim + 1) data) of
               None \<Rightarrow> ([], DoWrite (to_underlying balance_change) ''FAIL'')
             | Some change \<Rightarrow> ([], ToDb (ChangeBalanceOp user change (Some (ChangeCb i user)))))"

definition session_transfer :: "nat \<Rightarrow> string \<Rightarrow> dispatched" where
  "session_transfer i data =
     (case str_find COLON 0 data of
        None \<Rightarrow> ([], DoWrite (to_underlying balance_transfer) ''FAIL'')
      | Some delim1 \<Rightarrow>
         (case str_find COLON (delim1 + 1) data of
            None \<Rightarrow> ([], DoWrite (to_underlying balance_transfer) ''FAIL'')
          | Some delim2 \<Rightarrow>
              let sender = substr 0 delim1 data;
                  recipient = substr (delim1 + 1) (delim2 - delim1 - 1) data
              in case stoull (substr_from (delim2 + 1) data) of
                   None \<Rightarrow> ([], DoWrite (to_underlying balance_transfer) ''FAIL'')
                 | Some amount \<Rightarrow>
                     ([], ToDb (TransferBalanceOp sender recipient amount (Some (TransferCb i sender))))))"

definition session_ping :: dispatched where
  "session_ping = ([], DoWrite (to_underlying ping) ''PONG'')"

text \<open>\<^verbatim>\<open>std::ifstream(path)\<close> opens \<^verbatim>\<open>path.c_str()\<close>: the name of the file ends at the first NUL.\<close>

definition c_str :: "string \<Rightarrow> string" where
  "c_str path = takeWhile (\<lambda>c. c \<noteq> NUL) path"

definition session_log_req :: "files \<Rightarrow> string \<Rightarrow> dispatched" where
  "session_log_req files data =
     (if data = [] \<or> str_find (CHR ''/'') 0 data \<noteq> None \<or> contains_sub ''..'' data
      then ([], DoWrite (to_underlying log_req) [])
      else let path = DataDir @ ''/'' @ data @ ''.log''
           in case files (c_str path) of
                None \<Rightarrow> ([], DoWrite (to_underlying log_req) [])
              | Some file \<Rightarrow>
                  let lines = getlines file;
                      cnt = length lines;
                      start = (if cnt > 20 then cnt - 20 else 0);
                      result = foldl (\<lambda>result i. result @ lines ! i @ [LF]) [] [start..<cnt]
                  in ([], DoWrite (to_underlying log_req) result))"

definition session_change_password :: "nat \<Rightarrow> string \<Rightarrow> dispatched" where
  "session_change_password i data =
     (case str_find COLON 0 data of
        None \<Rightarrow> ([], DoWrite (to_underlying account_change_password) ''FAIL'')
      | Some delim \<Rightarrow>
          let user = substr 0 delim data; newPass = substr_from (delim + 1) data
          in ([], ToDb (ChangePasswordOp user newPass (Some (PasswordCb i user)))))"

definition session_toggle :: "nat \<Rightarrow> string \<Rightarrow> dispatched" where
  "session_toggle i data = ([], ToDb (ToggleAccountOp data (Some (ToggleCb i))))"

definition session_history :: "nat \<Rightarrow> string \<Rightarrow> dispatched" where
  "session_history i data =
     (case str_find COLON 0 data of
        None \<Rightarrow> ([], DoWrite (to_underlying txn_history_req) [])
      | Some delim \<Rightarrow>
          let user = substr 0 delim data;
              cnt = (case stoull (substr_from (delim + 1) data) of None \<Rightarrow> 20 | Some n \<Rightarrow> n)
          in ([], ToDb (GetTxnHistoryOp user cnt (Some (HistoryCb i)))))"

definition session_search :: "nat \<Rightarrow> string \<Rightarrow> dispatched" where
  "session_search i data = ([], ToDb (SearchUsersOp data (Some (SearchCb i))))"

fun session_dispatch ::
  "files \<Rightarrow> nat \<Rightarrow> string \<Rightarrow> packet_type \<Rightarrow> string \<Rightarrow> dispatched" where
  "session_dispatch files i peer account_auth data = session_auth i peer data"
| "session_dispatch files i peer account_create data = session_create i data"
| "session_dispatch files i peer balance_req data = session_balance_req i data"
| "session_dispatch files i peer balance_change data = session_balance_change i data"
| "session_dispatch files i peer balance_transfer data = session_transfer i data"
| "session_dispatch files i peer ping data = session_ping"
| "session_dispatch files i peer log_req data = session_log_req files data"
| "session_dispatch files i peer account_change_password data = session_change_password i data"
| "session_dispatch files i peer account_toggle data = session_toggle i data"
| "session_dispatch files i peer txn_history_req data = session_history i data"
| "session_dispatch files i peer user_search_req data = session_search i data"
| "session_dispatch files i peer (unnamed b) data =
     ([ServerLog_warn (peer @ '' unknown packet type '' @ string_of_nat (unat b))], NoAnswer)"

section \<open>One answer of the right type\<close>

text \<open>The type of the packet a callback sends.\<close>

fun cb_type :: "session_cb \<Rightarrow> packet_type" where
  "cb_type (AuthCb i u) = account_auth"
| "cb_type (CreateCb i u) = account_create"
| "cb_type (BalanceCb i) = balance_req"
| "cb_type (ChangeCb i u) = balance_change"
| "cb_type (TransferCb i u) = balance_transfer"
| "cb_type (PasswordCb i u) = account_change_password"
| "cb_type (ToggleCb i) = account_toggle"
| "cb_type (HistoryCb i) = txn_history_req"
| "cb_type (SearchCb i) = user_search_req"

fun item_cb :: "'cb work_item \<Rightarrow> 'cb option" where
  "item_cb (AuthOp u p cb) = cb"
| "item_cb (ChangePasswordOp u p cb) = cb"
| "item_cb (CreateAccountOp u p cb) = cb"
| "item_cb (ToggleAccountOp u cb) = cb"
| "item_cb (GetBalanceOp u cb) = cb"
| "item_cb (ChangeBalanceOp u d cb) = cb"
| "item_cb (TransferBalanceOp s r a cb) = cb"
| "item_cb (GetTxnHistoryOp u n cb) = cb"
| "item_cb (SearchUsersOp p cb) = cb"
| "item_cb SaveOp = None"

fun is_unnamed :: "packet_type \<Rightarrow> bool" where
  "is_unnamed (unnamed b) = True"
| "is_unnamed _ = False"

lemmas session_cases = session_auth_def session_create_def session_balance_req_def
  session_balance_change_def session_transfer_def session_ping_def session_log_req_def
  session_change_password_def session_toggle_def session_history_def session_search_def

definition answers :: "nat \<Rightarrow> packet_type \<Rightarrow> session_action \<Rightarrow> bool" where
  "answers i t a \<longleftrightarrow>
     (case a of DoWrite b s \<Rightarrow> b = to_underlying t \<and> \<not> is_unnamed t
      | ToDb item \<Rightarrow> (\<exists>cb. item_cb item = Some cb \<and> cb_session cb = i \<and> cb_type cb = t)
      | NoAnswer \<Rightarrow> is_unnamed t)"

lemma session_dispatch_answers: "answers i t (snd (session_dispatch files i peer t data))"
  by (cases t) (simp_all add: answers_def session_cases Let_def split: option.split)

lemma session_reply_type: "fst (snd (session_reply peer cb r)) = to_underlying (cb_type cb)"
  by (cases cb) (simp_all add: Let_def)

lemma proper_cb_type [simp]: "proper_type (cb_type cb)"
  by (cases cb) simp_all

text \<open>An item posts its callback once, and \<open>SaveOp\<close> posts nothing.\<close>

lemma processItem_posts:
  "map fst (snd (processItem e env item db)) = (case item_cb item of None \<Rightarrow> [] | Some cb \<Rightarrow> [cb])"
  by (cases item)
    (simp_all add: process_auth_def process_change_password_def process_create_account_def
      process_toggle_account_def process_get_balance_def process_change_balance_def
      process_transfer_balance_def process_txn_history_def process_search_users_def
      process_save_def Let_def post_def split: option.split prod.split)

section \<open>Properties\<close>

lemma foldl_concat_range:
  "k \<le> length xs \<Longrightarrow> foldl (\<lambda>r i. r @ f (xs ! i)) acc [k..<length xs] = acc @ concat (map f (drop k xs))"
proof (induction "length xs - k" arbitrary: k acc)
  case 0
  then show ?case by simp
next
  case (Suc n)
  then have k: "k < length xs" by simp
  then have "[k..<length xs] = k # [Suc k..<length xs]" by (rule upt_conv_Cons)
  moreover have "drop k xs = xs ! k # drop (Suc k) xs" using k by (rule Cons_nth_drop_Suc [symmetric])
  ultimately show ?case using Suc.hyps(1) [of "Suc k" "acc @ f (xs ! k)"] Suc.hyps(2) k by simp
qed

lemma c_str_data: "c_str (DataDir @ CHR ''/'' # name) = DataDir @ CHR ''/'' # c_str name"
  by (simp add: c_str_def DataDir_def)

lemma c_str_id: "NUL \<notin> set name \<Longrightarrow> c_str name = name"
  unfolding c_str_def by (rule takeWhile_eq_all_conv [THEN iffD2]) auto

lemma c_str_stop: "NUL \<notin> set name \<Longrightarrow> c_str (name @ NUL # x) = name"
  unfolding c_str_def by (rule takeWhile_append_stop) auto

lemma session_log_req_lines:
  assumes "data \<noteq> []" "CHR ''/'' \<notin> set data" "\<not> contains_sub ''..'' data"
  shows "session_log_req files data = ([], DoWrite (to_underlying log_req)
     (case files (DataDir @ ''/'' @ c_str (data @ ''.log'')) of None \<Rightarrow> []
      | Some file \<Rightarrow> concat (map (\<lambda>l. l @ [LF]) (drop (length (getlines file) - 20) (getlines file)))))"
proof -
  have "foldl (\<lambda>r i. r @ xs ! i @ [LF]) [] [if 20 < length xs then length xs - 20 else 0..<length xs]
      = concat (map (\<lambda>l. l @ [LF]) (drop (length xs - 20) xs))" for xs :: "string list"
    using foldl_concat_range [of "if 20 < length xs then length xs - 20 else 0" xs "\<lambda>l. l @ [LF]" "[]"]
    by (simp split: if_splits)
  then show ?thesis using assms
    by (simp add: session_log_req_def c_str_data Let_def std_simps split: option.split)
qed

text \<open>
  C18: A log request is answered from a file directly inside the data directory and with its last twenty
  lines at most. A nonempty answer means that the data had no slash and no double dot, and that the
  answer is the tail of the file \<^verbatim>\<open>data/<name>\<close>, where the name, which has no slash and is not the parent
  directory, is the data followed by \<^verbatim>\<open>.log\<close>, cut at the first NUL; it is the data followed by \<^verbatim>\<open>.log\<close>, a
  log file, when the data has no NUL (the check does not exclude it).
\<close>

lemma log_request_confined:
  assumes "snd (session_dispatch files i peer log_req data) = DoWrite b resp" "resp \<noteq> []"
  shows "CHR ''/'' \<notin> set data \<and> \<not> contains_sub ''..'' data \<and>
    (\<exists>name file. name = c_str (data @ ''.log'') \<and> CHR ''/'' \<notin> set name \<and> name \<noteq> ''..'' \<and>
       (NUL \<notin> set data \<longrightarrow> name = data @ ''.log'') \<and>
       files (DataDir @ ''/'' @ name) = Some file \<and>
       resp = concat (map (\<lambda>l. l @ [LF]) (drop (length (getlines file) - 20) (getlines file))))"
proof -
  have g: "data \<noteq> []" "CHR ''/'' \<notin> set data" "\<not> contains_sub ''..'' data"
    using assms by (auto simp: session_log_req_def std_simps split: if_splits)
  let ?name = "c_str (data @ ''.log'')"
  obtain content where f: "files (DataDir @ ''/'' @ ?name) = Some content"
    "resp = concat (map (\<lambda>l. l @ [LF]) (drop (length (getlines content) - 20) (getlines content)))"
    using assms session_log_req_lines [OF g, of files] by (auto split: option.splits)
  have "set ?name \<subseteq> set (data @ ''.log'')" by (auto simp: c_str_def dest: set_takeWhileD)
  then have "CHR ''/'' \<notin> set ?name" using g(2) by auto
  moreover have "?name \<noteq> ''..''"
  proof
    assume n: "?name = ''..''"
    obtain a d where d: "data = a # d" using g(1) by (cases data) auto
    show False
    proof (cases d)
      case Nil
      with n d show False by (auto simp: c_str_def split: if_splits)
    next
      case (Cons b d')
      with n d have "a = CHR ''.''" "b = CHR ''.''" by (auto simp: c_str_def split: if_splits)
      with g(3) d Cons show False by simp
    qed
  qed
  moreover have "?name = data @ ''.log''" if "NUL \<notin> set data" using that by (intro c_str_id) simp
  ultimately show ?thesis using f g by blast
qed

lemma log_request_confined_witness:
  "\<exists>file. [''data/bob.log'' \<mapsto> ''one'' @ [LF] @ ''two''] (DataDir @ ''/'' @ ''bob'' @ ''.log'') = Some file
     \<and> ''one'' @ [LF] @ ''two'' @ [LF] = concat (map (\<lambda>l. l @ [LF]) (drop (length (getlines file) - 20) (getlines file)))"
proof -
  have "snd (session_dispatch [''data/bob.log'' \<mapsto> ''one'' @ [LF] @ ''two''] 0 [] log_req ''bob'')
      = DoWrite 8 (''one'' @ [LF] @ ''two'' @ [LF])"
    by code_simp
  from log_request_confined [OF this] show ?thesis by (auto simp: DataDir_def)
qed

text \<open>
  C19: A NUL in a log request takes the \<^verbatim>\<open>.log\<close> off: any name without a slash, a double dot or a NUL,
  followed by a NUL, is answered with the last twenty lines of the file of exactly that name in the data
  directory, such as the ledger \<^verbatim>\<open>alice.txn\<close> of an account, although the documentation says that null bytes
  are validated against.
\<close>

lemma log_request_stops_at_nul:
  assumes "CHR ''/'' \<notin> set name" "NUL \<notin> set name" "\<not> contains_sub ''..'' (name @ [NUL])"
    and "files (DataDir @ ''/'' @ name) = Some file"
  shows "snd (session_dispatch files i peer log_req (name @ [NUL])) = DoWrite (to_underlying log_req)
    (concat (map (\<lambda>l. l @ [LF]) (drop (length (getlines file) - 20) (getlines file))))"
  using session_log_req_lines [of "name @ [NUL]" files] assms c_str_stop [of name "''.log''"] by simp

lemma log_request_stops_at_nul_witness:
  "snd (session_dispatch [''data/alice.txn'' \<mapsto> ''secret''] 0 [] log_req (''alice.txn'' @ [NUL]))
     = DoWrite 8 (''secret'' @ [LF])"
proof -
  have "\<not> contains_sub ''..'' (''alice.txn'' @ [NUL])" by code_simp
  moreover have "getlines ''secret'' = [''secret'']" by code_simp
  ultimately show ?thesis
    using log_request_stops_at_nul [of "''alice.txn''" "[''data/alice.txn'' \<mapsto> ''secret'']" "''secret''" 0 "[]"]
    by (simp add: DataDir_def)
qed

text \<open>
  C17: The malformed packets of the five kinds of request that have a format to check, and of the history
  request. A login, an account creation, a balance change, a transfer or a password change whose data has
  no colon is answered \<^verbatim>\<open>FAIL\<close> on the spot, in a packet of its own type, and the database is not asked; so is
  a transfer with one colon only, and a balance change or transfer whose amount \<^verbatim>\<open>std::stoll\<close> or
  \<^verbatim>\<open>std::stoull\<close> refuses: a text that does not start with a number (after blanks and a sign) or a
  number out of range (\<^verbatim>\<open>12abc\<close> is read as 12). A history request without a colon is answered with an
  empty text instead, without the database as well. The other requests have no format: every data is accepted.
\<close>

lemma malformed_requests_fail:
  assumes "resp = ''FAIL'' \<and> ((t \<in> {account_auth, account_create, balance_change, balance_transfer, account_change_password}
        \<and> COLON \<notin> set data)
    \<or> (t = balance_change \<and> data = u @ '':'' @ x \<and> COLON \<notin> set u \<and> stoll x = None)
    \<or> (t = balance_transfer \<and> data = u @ '':'' @ v \<and> COLON \<notin> set u \<and> COLON \<notin> set v)
    \<or> (t = balance_transfer \<and> data = u @ '':'' @ v @ '':'' @ x \<and> COLON \<notin> set u \<and> COLON \<notin> set v \<and> stoull x = None))
    \<or> resp = [] \<and> t = txn_history_req \<and> COLON \<notin> set data"
  shows "snd (session_dispatch files i peer t data) = DoWrite (to_underlying t) resp"
proof -
  have two: "str_find COLON (Suc (length u)) (u @ COLON # v) = None" if "COLON \<notin> set v"
    using that by (simp add: str_find_def std_simps)
  have three: "str_find COLON (Suc (length u)) (u @ COLON # v @ COLON # x) = Some (Suc (length u) + length v)"
    if "COLON \<notin> set v"
    using str_find_append_stop [of "u @ '':''" "Suc (length u)" COLON v x] that by simp
  from assms show ?thesis
    by (elim disjE conjE) (auto simp: session_cases Let_def std_simps substr_from_def two three)
qed

lemma malformed_requests_fail_witness:
  "snd (session_dispatch (\<lambda>_. None) 3 ''p'' balance_transfer ''alice:bob:lots'') = DoWrite 4 ''FAIL''"
proof -
  have "stoull ''lots'' = None" by code_simp
  then have "snd (session_dispatch (\<lambda>_. None) 3 ''p'' balance_transfer (''alice'' @ '':'' @ ''bob'' @ '':'' @ ''lots''))
      = DoWrite (to_underlying balance_transfer) ''FAIL''"
    by (intro malformed_requests_fail [where u = "''alice''" and v = "''bob''" and x = "''lots''"]) simp
  then show ?thesis by simp
qed

end
