(* ===== verification/Bank.thy ===== *)
theory Bank
  imports Database
begin

text \<open>
  What the bank promises over \<^verbatim>\<open>processItem\<close>: the invariant of the account table, the abstract bank
  (balances as natural numbers, a lock per account) that the work items implement, where money
  comes from, which accounts an item can touch, and what a password change means to a login.
\<close>

section \<open>The ledger of an account\<close>

definition signed_amount :: "transaction_record \<Rightarrow> u64" where
  "signed_amount r = (if tr_type r = 0 \<or> tr_type r = 3 then tr_amount r else - tr_amount r)"

text \<open>
  Every entry's balance is the one before it changed by the entry's amount; the two entries of a
  transfer of an account to itself both show the unchanged balance.
\<close>

fun ledger_chain :: "string \<Rightarrow> u64 \<Rightarrow> transaction_record list \<Rightarrow> bool" where
  "ledger_chain u b [] = True"
| "ledger_chain u b (r # rs) =
     (tr_balanceAfter r = (if asString (tr_counterparty r) = u then b else b + signed_amount r)
      \<and> ledger_chain u (tr_balanceAfter r) rs)"

definition ledger_end :: "u64 \<Rightarrow> transaction_record list \<Rightarrow> u64" where
  "ledger_end b rs = (if rs = [] then b else tr_balanceAfter (last rs))"

definition account_ok :: "string \<Rightarrow> user_state \<Rightarrow> bool" where
  "account_ok u st \<longleftrightarrow>
     isSafePathComponent u \<and> length (ur_password (us_record st)) = 48
     \<and> ur_logFile (us_record st) = copyFrom 32 (u @ ''.log'') \<and> ur_isLocked (us_record st) \<le> 1
     \<and> ledger_chain u 0 (us_transactions st) \<and> us_transactions st \<noteq> []
     \<and> ledger_end 0 (us_transactions st) = ur_balance (us_record st)
     \<and> sum_list (map signed_amount (us_transactions st)) = ur_balance (us_record st)
     \<and> (\<forall>r \<in> set (us_transactions st). transaction_wf r \<and> asString (tr_username r) = u)"

definition db_inv :: "db \<Rightarrow> bool" where
  "db_inv db \<longleftrightarrow> map_ok (db_data db) \<and> (\<forall>(u, st) \<in> set (db_data db). account_ok u st)"

lemma db_inv_find:
  "db_inv db \<longleftrightarrow> map_ok (db_data db) \<and> (\<forall>u st. map_find u (db_data db) = Some st \<longrightarrow> account_ok u st)"
  by (auto simp: db_inv_def map_find_iff)

lemma ledger_chain_append:
  "ledger_chain u b (rs @ rs') \<longleftrightarrow> ledger_chain u b rs \<and> ledger_chain u (ledger_end b rs) rs'"
  by (induction u b rs rule: ledger_chain.induct) (auto simp: ledger_end_def)

lemma ledger_chain_snoc:
  "ledger_chain u b (rs @ [r]) \<longleftrightarrow> ledger_chain u b rs \<and>
     tr_balanceAfter r = (if asString (tr_counterparty r) = u then ledger_end b rs
                          else ledger_end b rs + signed_amount r)"
  by (induction u b rs rule: ledger_chain.induct) (auto simp: ledger_end_def)

lemma ledger_end_snoc [simp]: "ledger_end b (rs @ [r]) = tr_balanceAfter r"
  by (simp add: ledger_end_def)

text \<open>One more entry whose balance continues the ledger keeps an account well formed.\<close>

lemma account_ok_push:
  assumes ok: "account_ok u st" and wf: "transaction_wf r" "asString (tr_username r) = u"
    and other: "asString (tr_counterparty r) \<noteq> u"
    and b: "b = ur_balance (us_record st) + signed_amount r" "b = tr_balanceAfter r"
  shows "account_ok u (push_transaction r (set_record (ur_balance_update (\<lambda>_. b)) st))"
  using assms by (simp add: account_ok_def ledger_chain_snoc)

lemma safe_name_nonempty [simp]: "\<not> isSafePathComponent []"
  by (simp add: isSafePathComponent_def)

lemma account_ok_opened:
  "isSafePathComponent u \<Longrightarrow> account_ok u (opened_account e env c u p)"
  by (auto simp: account_ok_def opened_account_def opening_entry_def zero_txn_def signed_amount_def
      transaction_wf_def safe_name_copyFrom safe_name ledger_end_def)

lemma zero_txn_sel [simp]:
  "tr_counterparty zero_txn = replicate 24 NUL" "tr_username zero_txn = replicate 24 NUL"
  by (simp_all add: zero_txn_def)

lemma account_ok_safe: "account_ok u st \<Longrightarrow> isSafePathComponent u"
  by (simp add: account_ok_def)

lemma account_ok_change:
  assumes ok: "account_ok u st"
  shows "account_ok u (apply_change env u change st)"
  unfolding apply_change_def Let_def
  using account_ok_safe [OF ok]
  by (intro account_ok_push [OF ok])
    (auto simp: change_entry_def transaction_wf_def signed_amount_def safe_name_copyFrom safe_name)

lemma account_ok_debited:
  assumes ok: "account_ok s st" and r: "isSafePathComponent r" "r \<noteq> s"
  shows "account_ok s (debited env s r amount st)"
  unfolding debited_def Let_def
  using account_ok_safe [OF ok] r
  by (intro account_ok_push [OF ok])
    (auto simp: transfer_entry_def transaction_wf_def signed_amount_def safe_name_copyFrom)

lemma account_ok_credited:
  assumes ok: "account_ok r st" and s: "isSafePathComponent s" "r \<noteq> s"
  shows "account_ok r (credited env s r amount st)"
  unfolding credited_def Let_def
  using account_ok_safe [OF ok] s
  by (intro account_ok_push [OF ok])
    (auto simp: transfer_entry_def transaction_wf_def signed_amount_def safe_name_copyFrom)

lemma account_ok_self:
  assumes ok: "account_ok u st"
  shows "account_ok u (self_transferred env u amount st)"
  using ok account_ok_safe [OF ok]
  by (simp add: self_transferred_def account_ok_def ledger_chain_append Let_def)
    (simp add: transfer_entry_def transaction_wf_def signed_amount_def safe_name_copyFrom ledger_end_def)

lemma account_ok_toggle:
  "account_ok u st \<Longrightarrow> account_ok u (set_record (ur_isLocked_update (\<lambda>l. if l = 0 then 1 else 0)) st)"
  by (simp add: account_ok_def)

lemma account_ok_password:
  "account_ok u st \<Longrightarrow> length pw = 48 \<Longrightarrow> account_ok u (set_record (ur_password_update (\<lambda>_. pw)) st)"
  by (simp add: account_ok_def)

section \<open>The invariant of the table\<close>

lemma db_inv_upd:
  assumes "db_inv db" "db_data db' = map_upd u f (db_data db)"
    "\<And>st. map_find u (db_data db) = Some st \<Longrightarrow> account_ok u (f st)"
  shows "db_inv db'"
  using assms by (auto simp: db_inv_find std_simps)

lemma db_inv_data: "db_data db' = db_data db \<Longrightarrow> db_inv db' \<longleftrightarrow> db_inv db"
  by (simp add: db_inv_def)

lemma db_inv_create:
  assumes "db_inv db"
  shows "db_inv (fst (process_create_account e env u p cb db))"
proof (cases "isSafePathComponent u \<and> map_find u (db_data db) = None")
  case True
  then show ?thesis using assms
    by (auto simp: db_inv_find create_account_data std_simps account_ok_opened)
next
  case False
  with assms show ?thesis by (simp add: create_account_refused)
qed

lemma db_inv_change:
  assumes inv: "db_inv db"
  shows "db_inv (fst (process_change_balance env u change cb db))"
proof (cases "\<exists>st. map_find u (db_data db) = Some st \<and> change_allowed st change")
  case True
  then obtain st where "map_find u (db_data db) = Some st" "change_allowed st change" by blast
  then show ?thesis
    using inv by (intro db_inv_upd [OF inv change_balance_data]) (auto simp: db_inv_find account_ok_change)
next
  case False
  with inv show ?thesis by (subst change_balance_refused) (auto split: option.split)
qed

lemma db_inv_transfer:
  assumes inv: "db_inv db"
  shows "db_inv (fst (process_transfer_balance env s r amount cb db))"
proof (cases "\<exists>src dst. map_find s (db_data db) = Some src \<and> map_find r (db_data db) = Some dst
      \<and> transfer_allowed src dst amount")
  case True
  then obtain src dst where f: "map_find s (db_data db) = Some src" "map_find r (db_data db) = Some dst"
    and a: "transfer_allowed src dst amount" by blast
  then have ok: "account_ok s src" "account_ok r dst" using inv by (auto simp: db_inv_find)
  show ?thesis
  proof (cases "s = r")
    case True
    with f a have "transfer_allowed src src amount" by simp
    with f ok inv show ?thesis unfolding True [symmetric]
      by (intro db_inv_upd [OF inv self_transfer_data]) (auto simp: account_ok_self)
  next
    case False
    let ?db = "db\<lparr>db_data := map_upd s (debited env s r amount) (db_data db)\<rparr>"
    have "db_inv ?db"
      by (rule db_inv_upd [OF inv, where u = s and f = "debited env s r amount"])
        (use f ok False in \<open>auto simp: account_ok_debited account_ok_safe\<close>)
    then show ?thesis
      by (rule db_inv_upd [where u = r and f = "credited env s r amount"])
        (use f ok False a in \<open>auto simp: transfer_data std_simps account_ok_credited account_ok_safe\<close>)
  qed
next
  case False
  then show ?thesis using inv by (simp add: transfer_refused)
qed

lemma db_inv_processItem:
  assumes "db_inv db"
  shows "db_inv (fst (processItem e env item db))"
proof (cases item)
  case (AuthOp u p cb)
  then show ?thesis using assms by (simp add: process_auth_def Let_def split: option.split)
next
  case (ChangePasswordOp u p cb)
  then show ?thesis using assms
    by (simp, intro db_inv_upd [OF assms change_password_data] account_ok_password)
      (simp_all add: db_inv_find)
next
  case (ToggleAccountOp u cb)
  then show ?thesis using assms
    by (simp, intro db_inv_upd [OF assms toggle_account_data] account_ok_toggle)
      (simp_all add: db_inv_find)
next
  case SaveOp
  then show ?thesis using assms
    by (simp add: process_save_def db_save_def db_inv_def Let_def)
qed (use assms in \<open>simp_all add: process_get_balance_def process_txn_history_def Let_def
      process_search_users_def db_inv_create db_inv_change db_inv_transfer\<close>)

section \<open>The abstract bank\<close>

text \<open>
  Accounts with a natural-number balance and a lock. The operations return the new bank and
  whether they were carried out.
\<close>

type_synonym bank = "string \<Rightarrow> (nat \<times> bool) option"

datatype bank_op = Open string | Toggle string | Change string int | Move string string nat

fun bank_step :: "bank_op \<Rightarrow> bank \<Rightarrow> bank \<times> bool" where
  "bank_step (Open u) b =
     (if isSafePathComponent u \<and> b u = None then (b(u \<mapsto> (100000, False)), True) else (b, False))"
| "bank_step (Toggle u) b =
     (case b u of None \<Rightarrow> (b, False) | Some (n, l) \<Rightarrow> (b(u \<mapsto> (n, \<not> l)), True))"
| "bank_step (Change u d) b =
     (case b u of Some (n, False) \<Rightarrow>
        if int n + d \<ge> 0 then (b(u \<mapsto> (nat (int n + d), False)), True) else (b, False)
      | _ \<Rightarrow> (b, False))"
| "bank_step (Move s r n) b =
     (case (b s, b r) of (Some (ns, False), Some (nr, False)) \<Rightarrow>
        if ns < n then (b, False)
        else if s = r then (b, True)
        else (b(s \<mapsto> (ns - n, False), r \<mapsto> (nr + n, False)), True)
      | _ \<Rightarrow> (b, False))"

definition bank_of :: "db \<Rightarrow> bank" where
  "bank_of db u = map_option (\<lambda>st. (unat (ur_balance (us_record st)), locked st)) (map_find u (db_data db))"

fun bank_op_of :: "'cb work_item \<Rightarrow> (bank_op \<times> 'cb option) option" where
  "bank_op_of (CreateAccountOp u p cb) = Some (Open u, cb)"
| "bank_op_of (ToggleAccountOp u cb) = Some (Toggle u, cb)"
| "bank_op_of (ChangeBalanceOp u change cb) = Some (Change u (sint change), cb)"
| "bank_op_of (TransferBalanceOp s r amount cb) = Some (Move s r (unat amount), cb)"
| "bank_op_of _ = None"

text \<open>
  The amounts for which the C++ arithmetic is defined and no balance wraps: signed additions stay
  within \<^verbatim>\<open>i64\<close>, the credited balance within \<^verbatim>\<open>u64\<close>.
\<close>

fun in_range :: "bank_op \<Rightarrow> bank \<Rightarrow> bool" where
  "in_range (Open u) b = True"
| "in_range (Toggle u) b = True"
| "in_range (Change u d) b = (case b u of None \<Rightarrow> True
     | Some (n, l) \<Rightarrow> n < 2 ^ 63 \<and> - (2 ^ 63) < d \<and> int n + d < 2 ^ 63)"
| "in_range (Move s r n) b = (case b r of None \<Rightarrow> True | Some (nr, l) \<Rightarrow> nr + n < 2 ^ 64)"

lemma bank_of_put:
  "bank_of (db\<lparr>db_data := map_put u st (db_data db')\<rparr>) =
     (bank_of db')(u \<mapsto> (unat (ur_balance (us_record st)), locked st))"
  by (rule ext) (simp add: bank_of_def std_simps)

lemma bank_of_upd:
  assumes "db_data db' = map_upd u f (db_data db)" "map_find u (db_data db) = Some st"
  shows "bank_of db' = (bank_of db)(u \<mapsto> (unat (ur_balance (us_record (f st))), locked (f st)))"
  using assms by (intro ext) (simp add: bank_of_def std_simps)

lemma bank_of_same: "db_data db' = db_data db \<Longrightarrow> bank_of db' = bank_of db"
  by (intro ext) (simp add: bank_of_def)

lemma unat_add_sint:
  fixes w d :: u64
  assumes "0 \<le> int (unat w) + sint d" "int (unat w) + sint d < 2 ^ 64"
  shows "unat (w + d) = nat (int (unat w) + sint d)"
proof -
  have "w + d = word_of_int (int (unat w) + sint d)"
    by simp
  then have "uint (w + d) = int (unat w) + sint d"
    using assms by (simp only: uint_word_of_int) simp
  then show ?thesis by (metis nat_uint_eq)
qed

lemma sint_negative_unat:
  fixes d :: u64
  assumes "sint d < 0"
  shows "int (unat (- d)) = - sint d"
proof -
  have "- d = word_of_int (- sint d)" by simp
  moreover have "- (2 ^ 63) \<le> sint d" using sint_greater_eq [of d] by simp
  ultimately have "uint (- d) = - sint d"
    using assms by (simp only: uint_word_of_int) simp
  then show ?thesis by simp
qed

lemma change_refused_iff:
  fixes w d :: u64
  shows "sint d < 0 \<and> w < - d \<longleftrightarrow> int (unat w) + sint d < 0"
proof (cases "sint d < 0")
  case True
  then have "w < - d \<longleftrightarrow> int (unat w) < - sint d"
    using sint_negative_unat [of d] by (simp add: word_less_def)
  with True show ?thesis by auto
next
  case False
  moreover have "0 \<le> int (unat w)" by (rule of_nat_0_le_iff)
  ultimately show ?thesis by linarith
qed

lemma apply_change_simps [simp]:
  "ur_balance (us_record (apply_change env u d st)) = ur_balance (us_record st) + d"
  "locked (apply_change env u d st) = locked st"
  by (simp_all add: apply_change_def Let_def)

lemma transferred_simps [simp]:
  "ur_balance (us_record (debited env s r a st)) = ur_balance (us_record st) - a"
  "locked (debited env s r a st) = locked st"
  "ur_balance (us_record (credited env s r a st)) = ur_balance (us_record st) + a"
  "locked (credited env s r a st) = locked st"
  "us_record (self_transferred env s a st) = us_record st"
  "locked (self_transferred env s a st) = locked st"
  by (simp_all add: debited_def credited_def self_transferred_def Let_def)

lemma opened_account_simps [simp]:
  "unat (ur_balance (us_record (opened_account e env c u p))) = 100000"
  "locked (opened_account e env c u p) = False"
  by (simp_all add: opened_account_def locked_def DefaultBalance_def)

text \<open>One lemma per operation; \<open>refines\<close> is what each shows.\<close>

definition refines :: "bank_op \<Rightarrow> 'cb option \<Rightarrow> db \<Rightarrow> db \<times> 'cb posts \<Rightarrow> bool" where
  "refines op cb db p \<longleftrightarrow> (let (b, ok) = bank_step op (bank_of db)
     in bank_of (fst p) = b \<and> snd p = post cb (RBool ok))"

lemma refines_create: "refines (Open u) cb db (process_create_account e env u p cb db)"
proof (cases "isSafePathComponent u \<and> map_find u (db_data db) = None")
  case True
  then have "bank_of (fst (process_create_account e env u p cb db)) =
      bank_of (db\<lparr>db_data := map_put u (opened_account e env (db_salt_counter db) u p) (db_data db)\<rparr>)"
    by (intro bank_of_same) (simp add: create_account_data)
  with True show ?thesis
    by (auto simp: refines_def bank_of_put) (auto simp: bank_of_def process_create_account_def Let_def
        split: prod.split)
next
  case False
  then have "bank_step (Open u) (bank_of db) = (bank_of db, False)" by (auto simp: bank_of_def)
  with False show ?thesis by (simp add: refines_def create_account_refused)
qed

lemma refines_toggle: "refines (Toggle u) cb db (process_toggle_account env u cb db)"
proof (cases "map_find u (db_data db)")
  case None
  then show ?thesis by (simp add: refines_def process_toggle_account_def bank_of_def)
next
  case (Some st)
  then have "snd (process_toggle_account env u cb db) = post cb (RBool True)"
    by (simp add: process_toggle_account_def Let_def)
  with Some show ?thesis
    by (simp add: refines_def bank_of_upd [OF toggle_account_data Some] locked_def)
      (simp add: bank_of_def locked_def)
qed

lemma refines_change:
  assumes rng: "in_range (Change u (sint d)) (bank_of db)"
  shows "refines (Change u (sint d)) cb db (process_change_balance env u d cb db)"
proof (cases "\<exists>st. map_find u (db_data db) = Some st \<and> change_allowed st d")
  case True
  then obtain st where f: "map_find u (db_data db) = Some st" and a: "change_allowed st d" by blast
  then have n: "\<not> locked st" "0 \<le> int (unat (ur_balance (us_record st))) + sint d"
    using change_refused_iff [of d "ur_balance (us_record st)"] by (auto simp: change_allowed_def)
  have "int (unat (ur_balance (us_record st))) + sint d < 2 ^ 64"
    using rng f by (simp add: bank_of_def)
  with n have "unat (ur_balance (us_record st) + d) = nat (int (unat (ur_balance (us_record st))) + sint d)"
    by (intro unat_add_sint)
  moreover have "bank_of db u = Some (unat (ur_balance (us_record st)), False)"
    using f n by (simp add: bank_of_def)
  ultimately show ?thesis using n
    by (simp add: refines_def bank_of_upd [OF change_balance_data [OF f a] f] change_balance_reply [OF f a])
next
  case False
  then have "case map_find u (db_data db) of None \<Rightarrow> True | Some st \<Rightarrow> \<not> change_allowed st d"
    by (auto split: option.split)
  then have r: "process_change_balance env u d cb db = (db, post cb (RBool False))"
    by (rule change_balance_refused)
  have "bank_step (Change u (sint d)) (bank_of db) = (bank_of db, False)"
    using False by (auto simp: bank_of_def change_allowed_def change_refused_iff split: option.split bool.split)
  with r show ?thesis by (simp add: refines_def)
qed

lemma refines_move:
  assumes rng: "in_range (Move s r (unat a)) (bank_of db)"
  shows "refines (Move s r (unat a)) cb db (process_transfer_balance env s r a cb db)"
proof (cases "\<exists>src dst. map_find s (db_data db) = Some src \<and> map_find r (db_data db) = Some dst
      \<and> transfer_allowed src dst a")
  case True
  then obtain src dst where f: "map_find s (db_data db) = Some src" "map_find r (db_data db) = Some dst"
    and a: "transfer_allowed src dst a" by blast
  let ?db' = "fst (process_transfer_balance env s r a cb db)"
  have b: "bank_of db s = Some (unat (ur_balance (us_record src)), False)"
    "bank_of db r = Some (unat (ur_balance (us_record dst)), False)"
    and le: "a \<le> ur_balance (us_record src)"
    using f a by (auto simp: bank_of_def transfer_allowed_def)
  then have ns: "\<not> unat (ur_balance (us_record src)) < unat a" by (simp add: word_le_nat_alt)
  have "bank_of ?db' = fst (bank_step (Move s r (unat a)) (bank_of db))"
  proof (cases "s = r")
    case True
    then have "src = dst" using f by simp
    then have "transfer_allowed src src a" using a by simp
    then have "bank_of ?db' = (bank_of db)(s \<mapsto> (unat (ur_balance (us_record src)), locked src))"
      using bank_of_upd [OF self_transfer_data [OF f(1)] f(1)] True by auto
    also have "\<dots> = bank_of db" using f by (intro ext) (simp add: bank_of_def)
    finally show ?thesis using True b ns \<open>src = dst\<close> by simp
  next
    case False
    let ?m = "db\<lparr>db_data := map_upd s (debited env s r a) (db_data db)\<rparr>"
    have m: "bank_of ?m = (bank_of db)(s \<mapsto> (unat (ur_balance (us_record src) - a), locked src))"
      using bank_of_upd [where db' = ?m and f = "debited env s r a", OF _ f(1)] by simp
    have "db_data ?db' = map_upd r (credited env s r a) (db_data ?m)"
      using transfer_data [OF f a False] by simp
    moreover have "map_find r (db_data ?m) = Some dst" using f False by (simp add: std_simps)
    ultimately have "bank_of ?db' =
        (bank_of ?m)(r \<mapsto> (unat (ur_balance (us_record dst) + a), locked dst))"
      using bank_of_upd [where db' = ?db' and db = ?m and f = "credited env s r a"] by simp
    moreover have "unat (ur_balance (us_record dst) + a) = unat (ur_balance (us_record dst)) + unat a"
      using rng b(2) by (intro unat_add_lem [THEN iffD1]) simp
    moreover have "unat (ur_balance (us_record src) - a) = unat (ur_balance (us_record src)) - unat a"
      using le by (simp add: unat_sub)
    moreover have "\<not> locked src" "\<not> locked dst" using a by (auto simp: transfer_allowed_def)
    ultimately show ?thesis using m b ns False by simp
  qed
  moreover have "snd (bank_step (Move s r (unat a)) (bank_of db))" using b ns by simp
  ultimately show ?thesis
    unfolding refines_def transfer_reply [OF f a] by (simp add: case_prod_beta)
next
  case False
  have "bank_step (Move s r (unat a)) (bank_of db) = (bank_of db, False)"
    using False by (auto simp: bank_of_def transfer_allowed_def word_less_nat_alt split: option.split bool.split)
  with False show ?thesis by (simp add: refines_def transfer_refused)
qed

section \<open>Money\<close>

text \<open>The sum of all balances, as a natural number.\<close>

definition total_money :: "db \<Rightarrow> nat" where
  "total_money db = sum_list (map (\<lambda>(u, st). unat (ur_balance (us_record st))) (db_data db))"

lemma total_money_upd:
  assumes "db_data db' = map_upd u f (db_data db)" "map_find u (db_data db) = Some st"
  shows "total_money db' + unat (ur_balance (us_record st)) =
    total_money db + unat (ur_balance (us_record (f st)))"
proof -
  let ?g = "\<lambda>(u, st). unat (ur_balance (us_record st))"
  have "map_find u m = Some st \<Longrightarrow> sum_list (map ?g (map_upd u f m)) + unat (ur_balance (us_record st))
      = sum_list (map ?g m) + unat (ur_balance (us_record (f st)))" for m
    by (induction u f m rule: map_upd.induct) (auto simp: map_find_def split: if_splits)
  with assms show ?thesis by (simp add: total_money_def)
qed

lemma total_money_new:
  assumes "db_data db' = map_put u st (db_data db)" "map_find u (db_data db) = None"
  shows "total_money db' = total_money db + unat (ur_balance (us_record st))"
proof -
  let ?g = "\<lambda>(u, st). unat (ur_balance (us_record st))"
  have "map_find u m = None \<Longrightarrow> sum_list (map ?g (map_put u st m))
      = sum_list (map ?g m) + unat (ur_balance (us_record st))" for m
    by (induction u st m rule: map_put.induct) (auto simp: map_find_def split: if_splits)
  with assms show ?thesis by (simp add: total_money_def)
qed

lemma total_money_same: "db_data db' = db_data db \<Longrightarrow> total_money db' = total_money db"
  by (simp add: total_money_def)

lemma balance_le_total:
  "map_find u (db_data db) = Some st \<Longrightarrow> unat (ur_balance (us_record st)) \<le> total_money db"
  unfolding total_money_def
  by (rule member_le_sum_list) (auto dest!: map_find_in_set intro!: image_eqI [of _ _ "(u, st)"])

text \<open>While all the money there is fits in 64 bits, a transfer neither makes nor destroys any.\<close>

lemma transfer_conserves:
  assumes small: "total_money db < 2 ^ 64"
  shows "total_money (fst (process_transfer_balance env s r a cb db)) = total_money db"
proof (cases "\<exists>src dst. map_find s (db_data db) = Some src \<and> map_find r (db_data db) = Some dst
      \<and> transfer_allowed src dst a")
  case True
  then obtain src dst where f: "map_find s (db_data db) = Some src" "map_find r (db_data db) = Some dst"
    and a: "transfer_allowed src dst a" by blast
  show ?thesis
  proof (cases "s = r")
    case True
    then have "transfer_allowed src src a" using f a by simp
    from total_money_upd [OF self_transfer_data [OF f(1) this] f(1)] True show ?thesis by simp
  next
    case False
    let ?m = "db\<lparr>db_data := map_upd s (debited env s r a) (db_data db)\<rparr>"
    let ?sb = "ur_balance (us_record src)" and ?rb = "ur_balance (us_record dst)"
    have le: "unat a \<le> unat ?sb" using a by (auto simp: transfer_allowed_def not_less word_le_nat_alt)
    have m: "total_money ?m + unat ?sb = total_money db + unat (?sb - a)"
      using total_money_upd [where db' = ?m and f = "debited env s r a", OF _ f(1)] by simp
    have sub: "unat (?sb - a) = unat ?sb - unat a" using le by (simp add: unat_sub word_le_nat_alt)
    have fr: "map_find r (db_data ?m) = Some dst" using f False by (simp add: std_simps)
    have "db_data (fst (process_transfer_balance env s r a cb db)) = map_upd r (credited env s r a) (db_data ?m)"
      using transfer_data [OF f a False] by simp
    from total_money_upd [OF this fr]
    have t: "total_money (fst (process_transfer_balance env s r a cb db)) + unat ?rb
        = total_money ?m + unat (?rb + a)" by simp
    have "unat ?rb \<le> total_money ?m" using balance_le_total [OF fr] .
    then have "unat ?rb + unat a < 2 ^ 64" using m sub le small by linarith
    then have "unat (?rb + a) = unat ?rb + unat a" by (intro unat_add_lem [THEN iffD1]) simp
    then show ?thesis using t m sub le by linarith
  qed
next
  case False
  then show ?thesis by (simp add: transfer_refused)
qed

section \<open>What an item can touch\<close>

fun item_users :: "'cb work_item \<Rightarrow> string set" where
  "item_users (ChangePasswordOp u p cb) = {u}"
| "item_users (CreateAccountOp u p cb) = {u}"
| "item_users (ToggleAccountOp u cb) = {u}"
| "item_users (ChangeBalanceOp u d cb) = {u}"
| "item_users (TransferBalanceOp s r a cb) = {s, r}"
| "item_users _ = {}"

lemma change_frame:
  "v \<noteq> u \<Longrightarrow> map_find v (db_data (fst (process_change_balance env u d cb db))) = map_find v (db_data db)"
  by (simp add: process_change_balance_def Let_def std_simps split: option.split)

lemma transfer_frame:
  "v \<noteq> s \<Longrightarrow> v \<noteq> r \<Longrightarrow>
     map_find v (db_data (fst (process_transfer_balance env s r a cb db))) = map_find v (db_data db)"
  by (simp add: process_transfer_balance_def Let_def std_simps split: option.split)

lemma create_frame:
  "v \<noteq> u \<Longrightarrow> map_find v (db_data (fst (process_create_account e env u p cb db))) = map_find v (db_data db)"
  by (cases "isSafePathComponent u \<and> map_find u (db_data db) = None")
    (auto simp: create_account_data create_account_refused std_simps)

lemma process_save_data [simp]: "db_data (fst (process_save e env db)) = db_data db"
  by (simp add: process_save_def db_save_def Let_def)

lemma frame_processItem:
  "v \<notin> item_users item \<Longrightarrow>
     map_find v (db_data (fst (processItem e env item db))) = map_find v (db_data db)"
  by (cases item)
    (simp_all add: process_auth_def Let_def process_get_balance_def process_txn_history_def
      process_search_users_def change_password_data toggle_account_data change_frame transfer_frame
      create_frame std_simps split: option.split)

section \<open>Logins\<close>

lemma auth_after_password_change:
  assumes f: "map_find u (db_data db) = Some st" and l: "\<not> locked st"
  obtains salt where "salt_ok salt"
    "\<And>q. snd (process_auth e u q cb (fst (process_change_password e env u p cb' db)))
      = post cb (RBool (Sha256_hash e (salt @ '':'' @ q) = Sha256_hash e (salt @ '':'' @ p)))"
proof -
  obtain salt where s: "salt_ok salt"
    "hashPasswordInto e env (db_salt_counter db) p = (salted e salt p, db_salt_counter db + 1)"
    by (rule hashPasswordInto_salted)
  have "snd (process_auth e u q cb (fst (process_change_password e env u p cb' db)))
      = post cb (RBool (verifyPassword e q (salted e salt p)))" for q
    using f l s by (simp add: process_auth_def change_password_data std_simps Let_def)
  with s show thesis by (intro that) (simp_all add: sha_passwords.verify_keep)
qed

lemma auth_after_create:
  assumes "isSafePathComponent u" "map_find u (db_data db) = None"
  obtains salt where "salt_ok salt"
    "\<And>q. snd (process_auth e u q cb (fst (process_create_account e env u p cb' db)))
      = post cb (RBool (Sha256_hash e (salt @ '':'' @ q) = Sha256_hash e (salt @ '':'' @ p)))"
proof -
  obtain salt where s: "salt_ok salt"
    "hashPasswordInto e env (db_salt_counter db) p = (salted e salt p, db_salt_counter db + 1)"
    by (rule hashPasswordInto_salted)
  have "snd (process_auth e u q cb (fst (process_create_account e env u p cb' db)))
      = post cb (RBool (verifyPassword e q (salted e salt p)))" for q
    using assms s
    by (simp add: process_auth_def create_account_data std_simps Let_def opened_account_def locked_def)
  with s show thesis by (intro that) (simp_all add: sha_passwords.verify_keep)
qed

section \<open>Properties\<close>

text \<open>Two accounts to apply the properties to.\<close>

definition example_account :: "string \<Rightarrow> u64 \<Rightarrow> user_state" where
  "example_account u n =
     \<lparr>us_record = \<lparr>ur_password = replicate 48 (CHR ''x''), ur_balance = n,
        ur_logFile = copyFrom 32 (u @ ''.log''), ur_isLocked = 0\<rparr>,
      us_transactions = [zero_txn\<lparr>tr_username := copyFrom 24 u, tr_amount := n, tr_balanceAfter := n\<rparr>]\<rparr>"

definition example_env :: env where
  "example_env = \<lparr>env_open = (\<lambda>_. True), env_log1 = 0, env_log2 = 0, env_ts = 1700000000,
     env_salt_now = 5, env_salt_addr = 7\<rparr>"

definition example_db :: db where
  "example_db =
     \<lparr>db_data = [(''alice'', example_account ''alice'' 500), (''bob'', example_account ''bob'' 70)],
      db_dirty = False, db_files = (\<lambda>_. None), db_salt_counter = 0\<rparr>"

lemma example_account_ok: "isSafePathComponent u \<Longrightarrow> account_ok u (example_account u n)"
  by (auto simp: account_ok_def example_account_def signed_amount_def transaction_wf_def
      safe_name_copyFrom ledger_end_def zero_txn_def)

lemma example_names: "isSafePathComponent ''alice''" "isSafePathComponent ''bob''" "isSafePathComponent ''carol''"
  by code_simp+

lemma example_map_ok: "map_ok (db_data example_db)"
  by (simp add: example_db_def map_ok_def)

lemma example_find:
  "map_find ''alice'' (db_data example_db) = Some (example_account ''alice'' 500)"
  "map_find ''bob'' (db_data example_db) = Some (example_account ''bob'' 70)"
  "map_find ''carol'' (db_data example_db) = None"
  by (simp_all add: example_db_def map_find_def)

lemma example_db_inv: "db_inv example_db"
  using example_map_ok
  by (simp add: db_inv_def example_account_ok example_names)
    (simp add: example_db_def example_account_ok example_names)

lemma example_unlocked [simp]: "\<not> locked (example_account u n)"
  by (simp add: locked_def example_account_def)

lemma example_balance [simp]: "ur_balance (us_record (example_account u n)) = n"
  by (simp add: example_account_def)

lemma example_bank: "bank_of example_db ''alice'' = Some (500, False)" "bank_of example_db ''bob'' = Some (70, False)"
  "bank_of example_db ''carol'' = None"
  by (simp_all add: bank_of_def example_find)

text \<open>
  C1: Account creation, locking, deposits and withdrawals, and transfers implement the abstract bank: as
  long as the amounts stay in the range where the C++ arithmetic is defined and no balance wraps, the new
  table abstracts to the bank's next state and the posted answer is whether the bank carried out the
  operation.
\<close>

lemma processItem_refines_bank:
  assumes "bank_op_of item = Some (op, cb)" "in_range op (bank_of db)"
  shows "bank_of (fst (processItem e env item db)) = fst (bank_step op (bank_of db))
    \<and> snd (processItem e env item db) = post cb (RBool (snd (bank_step op (bank_of db))))"
proof -
  have "refines op cb db (processItem e env item db)"
    using assms by (cases item) (auto intro: refines_create refines_toggle refines_change refines_move)
  then show ?thesis by (simp add: refines_def case_prod_beta)
qed

lemma processItem_refines_bank_witness:
  "bank_of (fst (processItem Big example_env (TransferBalanceOp ''alice'' ''bob'' 200 (Some ())) example_db)) ''bob''
     = Some (270, False)"
proof -
  have "in_range (Move ''alice'' ''bob'' 200) (bank_of example_db)" by (simp add: example_bank)
  then have "bank_of (fst (processItem Big example_env (TransferBalanceOp ''alice'' ''bob'' 200 (Some ())) example_db))
      = fst (bank_step (Move ''alice'' ''bob'' 200) (bank_of example_db))"
    by (intro processItem_refines_bank [THEN conjunct1]) simp_all
  then show ?thesis by (simp add: example_bank)
qed

text \<open>
  C12: A transfer conserves money: while the sum of all balances fits in 64 bits, no transfer, accepted or
  refused, between two accounts or from an account to itself, changes that sum.
\<close>

lemma transfer_conserves_money:
  assumes "total_money db < 2 ^ 64"
  shows "total_money (fst (processItem e env (TransferBalanceOp s r a cb) db)) = total_money db"
  using transfer_conserves [OF assms] by simp

lemma transfer_conserves_money_witness:
  "total_money (fst (processItem Little example_env (TransferBalanceOp ''alice'' ''bob'' 200 (Some ())) example_db)) = 570"
proof -
  have t: "total_money example_db = 570" by (simp add: total_money_def example_db_def)
  show ?thesis using transfer_conserves_money [of example_db] t by simp
qed

text \<open>
  An item changes no account other than the ones it names; logins, balance and history queries,
  searches and saves change none.
\<close>

lemma processItem_frame:
  assumes "v \<notin> item_users item"
  shows "map_find v (db_data (fst (processItem e env item db))) = map_find v (db_data db)"
  using assms by (rule frame_processItem)

lemma processItem_frame_witness:
  "map_find ''bob'' (db_data (fst (processItem Little example_env (ToggleAccountOp ''alice'' (None :: unit option)) example_db)))
     = Some (example_account ''bob'' 70)"
  by (subst processItem_frame) (simp_all add: example_find)

text \<open>
  C13: A refused item has no effect at all: when the posted answer is failure, the accounts, the files, the
  dirty flag and the salt counter are as they were.
\<close>

lemma refused_changes_nothing:
  assumes "snd (processItem e env item db) = [(cb, RBool False)]"
  shows "fst (processItem e env item db) = db"
proof (cases item)
  case (AuthOp u p cb)
  with assms show ?thesis by (auto simp: process_auth_def Let_def split: option.splits if_splits)
next
  case (ChangePasswordOp u p cb)
  with assms show ?thesis
    by (auto simp: process_change_password_def post_def Let_def split: option.splits prod.splits)
next
  case (CreateAccountOp u p cb)
  show ?thesis
  proof (cases "isSafePathComponent u \<and> map_find u (db_data db) = None")
    case True
    with CreateAccountOp assms show ?thesis by (simp add: create_account_reply post_def split: option.splits)
  next
    case False
    with CreateAccountOp show ?thesis by (simp add: create_account_refused)
  qed
next
  case (ToggleAccountOp u cb)
  with assms show ?thesis by (auto simp: process_toggle_account_def post_def Let_def split: option.splits)
next
  case (ChangeBalanceOp u d cb)
  with assms show ?thesis
    by (auto simp: process_change_balance_def post_def Let_def split: option.splits if_splits)
next
  case (TransferBalanceOp s r a cb)
  with assms show ?thesis
    by (auto simp: process_transfer_balance_def post_def Let_def split: option.splits if_splits)
qed (use assms in \<open>auto simp: process_get_balance_def process_txn_history_def Let_def
      process_search_users_def process_save_def split: if_splits\<close>)

lemma refused_changes_nothing_witness:
  "fst (processItem Little example_env (ChangeBalanceOp ''bob'' (- 71) (Some ())) example_db) = example_db"
proof (rule refused_changes_nothing [where cb = "()"])
  have "\<not> change_allowed (example_account ''bob'' 70) (- 71)"
    by (simp add: change_allowed_def)
  then show "snd (processItem Little example_env (ChangeBalanceOp ''bob'' (- 71) (Some ())) example_db) = [((), RBool False)]"
    by (simp add: change_balance_refused example_find post_def)
qed

text \<open>
  C14: A locked account cannot log in, deposit, withdraw, send or receive: each such item is answered with
  failure and changes nothing.
\<close>

lemma locked_account_refused:
  assumes "map_find u (db_data db) = Some st" "locked st"
    and "item \<in> {AuthOp u p cb, ChangeBalanceOp u d cb, TransferBalanceOp u v a cb, TransferBalanceOp v u a cb}"
  shows "processItem e env item db = (db, post cb (RBool False))"
proof -
  have "\<not> change_allowed st d" "\<not> transfer_allowed st x a" "\<not> transfer_allowed x st a" for x
    using assms(2) by (auto simp: change_allowed_def transfer_allowed_def)
  then show ?thesis using assms
    by (auto simp: process_auth_def change_balance_refused transfer_refused)
qed

lemma locked_account_refused_witness:
  "processItem Little example_env (AuthOp ''alice'' ''pw'' (Some ()))
     (fst (processItem Little example_env (ToggleAccountOp ''alice'' (None :: unit option)) example_db))
   = (fst (processItem Little example_env (ToggleAccountOp ''alice'' (None :: unit option)) example_db), [((), RBool False)])"
proof -
  let ?db = "fst (processItem Little example_env (ToggleAccountOp ''alice'' (None :: unit option)) example_db)"
  let ?st = "set_record (ur_isLocked_update (\<lambda>l. if l = 0 then 1 else 0)) (example_account ''alice'' 500)"
  have f: "map_find ''alice'' (db_data ?db) = Some ?st"
    by (simp add: toggle_account_data example_find std_simps)
  have l: "locked ?st" by (simp add: locked_def example_account_def)
  have "processItem Little example_env (AuthOp ''alice'' ''pw'' (Some ())) ?db = (?db, post (Some ()) (RBool False))"
    by (rule locked_account_refused [OF f l]) simp
  then show ?thesis by (simp add: post_def)
qed

text \<open>
  C15: After a password change on an unlocked account the new password logs in, and any password that logs
  in has the SHA-256 digest of the new one under the same 16-character salt: the old password stops
  working unless it collides.
\<close>

lemma changed_password_logs_in:
  assumes "map_find u (db_data db) = Some st" "\<not> locked st"
  shows "\<exists>salt. length salt = 16 \<and> (\<forall>q.
    snd (processItem e env' (AuthOp u q cb) (fst (processItem e env (ChangePasswordOp u p cb') db)))
      = post cb (RBool (Sha256_hash e (salt @ '':'' @ q) = Sha256_hash e (salt @ '':'' @ p))))"
proof -
  obtain salt where "salt_ok salt"
    "\<And>q. snd (process_auth e u q cb (fst (process_change_password e env u p cb' db)))
      = post cb (RBool (Sha256_hash e (salt @ '':'' @ q) = Sha256_hash e (salt @ '':'' @ p)))"
    using auth_after_password_change [OF assms] by blast
  then show ?thesis by (intro exI [of _ salt]) (simp add: salt_ok_def)
qed

lemma changed_password_logs_in_witness:
  "snd (processItem Little example_env (AuthOp ''alice'' ''new'' (Some ()))
     (fst (processItem Little example_env (ChangePasswordOp ''alice'' ''new'' (None :: unit option)) example_db)))
   = [((), RBool True)]"
  using changed_password_logs_in [OF example_find(1), of Little example_env "Some ()" example_env "''new''" "None :: unit option"]
  by (auto simp: post_def)

end
