(* ===== verification/ServerSystem.thy ===== *)
theory ServerSystem
  imports Session Bank
begin

text \<open>
  The server as a whole: sessions, the database manager and the handlers of the \<^verbatim>\<open>io_context\<close>, as a
  state and the events that can happen to it in any order. \<open>server_do\<close> is the effect of one event
  (\<open>None\<close> when it cannot happen now) and the packets it receives or sends; a run is a sequence of
  events from the started server. A socket is the bytes that arrived and were not read, the bytes
  written, and whether the peer is gone; a write to it is one step.
\<close>

section \<open>State\<close>

datatype phase = Reading | Waiting | Closed

record session =
  ss_peer :: string
  ss_in :: string
  ss_out :: string
  ss_lost :: bool
  ss_phase :: phase

record server =
  sv_manager :: "session_cb manager"
  sv_sessions :: "session list"
  sv_log :: "log_entry list"

datatype server_event =
    Accept string
  | Arrive nat string
  | HangUp nat
  | ReadDone nat
  | RunHandler
  | DbRound env
  | SaveTimer bool

datatype observation = Received nat packet_type string | Sent nat packet_type string

section \<open>Events\<close>

definition Server_init :: "endian \<Rightarrow> string \<Rightarrow> files \<Rightarrow> server" where
  "Server_init e port files =
     \<lparr>sv_manager = DbManager_init e files, sv_sessions = [],
      sv_log = [ServerLog_info (''listening on port '' @ port)]\<rparr>"

definition upd_session :: "nat \<Rightarrow> (session \<Rightarrow> session) \<Rightarrow> server \<Rightarrow> server" where
  "upd_session i f s = s\<lparr>sv_sessions := (sv_sessions s)[i := f (sv_sessions s ! i)]\<rparr>"

definition add_log :: "log_entry list \<Rightarrow> server \<Rightarrow> server" where
  "add_log es s = s\<lparr>sv_log := sv_log s @ es\<rparr>"

text \<open>\<^verbatim>\<open>doAccept\<close> with a new connection, and \<^verbatim>\<open>Session::start\<close>.\<close>

definition server_accept :: "string \<Rightarrow> server \<Rightarrow> server" where
  "server_accept peer s =
     add_log [ServerLog_info (peer @ '' connected'')]
       (s\<lparr>sv_sessions := sv_sessions s @
           [\<lparr>ss_peer = peer, ss_in = [], ss_out = [], ss_lost = False, ss_phase = Reading\<rparr>]\<rparr>)"

text \<open>\<^verbatim>\<open>Session::doWrite\<close>: a failed write ends the session, a successful one reads on.\<close>

definition session_doWrite :: "endian \<Rightarrow> nat \<Rightarrow> u8 \<Rightarrow> string \<Rightarrow> server \<Rightarrow> server \<times> observation list" where
  "session_doWrite e i type response s =
     (let ses = sv_sessions s ! i
      in if ss_lost ses
         then (add_log [ServerLog_info (ss_peer ses @ '' disconnected'')]
                 (upd_session i (ss_phase_update (\<lambda>_. Closed)) s), [])
         else (upd_session i (\<lambda>ses. ses\<lparr>ss_out := packet_asyncSend e (ss_out ses) (packet_type_of type) response,
                                        ss_phase := Reading\<rparr>) s,
               [Sent i (packet_type_of type) response]))"

text \<open>\<^verbatim>\<open>Session::doRead\<close> when the receive completes.\<close>

definition session_doRead :: "endian \<Rightarrow> nat \<Rightarrow> server \<Rightarrow> (server \<times> observation list) option" where
  "session_doRead e i s =
     (let ses = sv_sessions s ! i; ((ec, type, data), rest) = packet_asyncRecv e (ss_in ses)
      in if ss_phase ses \<noteq> Reading then None
         else if ec then
           (if ss_lost ses
            then Some (add_log [ServerLog_info (ss_peer ses @ '' disconnected'')]
                   (upd_session i (ss_phase_update (\<lambda>_. Closed)) s), [])
            else None)
         else
           let s = upd_session i (ss_in_update (\<lambda>_. rest)) s;
               (lines, action) = session_dispatch (db_files (dm_db (sv_manager s))) i (ss_peer ses) type data;
               s = add_log lines s;
               (s, sent) =
                 (case action of
                    DoWrite b response \<Rightarrow> session_doWrite e i b response s
                  | ToDb item \<Rightarrow> (upd_session i (ss_phase_update (\<lambda>_. Waiting))
                        (s\<lparr>sv_manager := enqueue item (sv_manager s)\<rparr>), [])
                  | NoAnswer \<Rightarrow> (upd_session i (ss_phase_update (\<lambda>_. Closed)) s, []))
           in Some (s, Received i type data # sent))"

text \<open>The \<^verbatim>\<open>io_context\<close> runs the oldest posted callback.\<close>

definition run_handler :: "endian \<Rightarrow> server \<Rightarrow> (server \<times> observation list) option" where
  "run_handler e s =
     (case dm_io (sv_manager s) of [] \<Rightarrow> None
      | (cb, r) # rest \<Rightarrow>
          let i = cb_session cb;
              s = s\<lparr>sv_manager := (sv_manager s)\<lparr>dm_io := rest\<rparr>\<rparr>;
              (lines, type, response) = session_reply (ss_peer (sv_sessions s ! i)) cb r
          in Some (session_doWrite e i type response (add_log lines s)))"

fun server_do :: "endian \<Rightarrow> server_event \<Rightarrow> server \<Rightarrow> (server \<times> observation list) option" where
  "server_do e (Accept peer) s = Some (server_accept peer s, [])"
| "server_do e (Arrive i bytes) s =
     (if i < length (sv_sessions s) \<and> \<not> ss_lost (sv_sessions s ! i)
      then Some (upd_session i (ss_in_update (\<lambda>b. b @ bytes)) s, []) else None)"
| "server_do e (HangUp i) s =
     (if i < length (sv_sessions s) then Some (upd_session i (ss_lost_update (\<lambda>_. True)) s, []) else None)"
| "server_do e (ReadDone i) s = (if i < length (sv_sessions s) then session_doRead e i s else None)"
| "server_do e RunHandler s = run_handler e s"
| "server_do e (DbRound env) s =
     (case dbLoop_round e env (sv_manager s) of
        Worked m \<Rightarrow> Some (s\<lparr>sv_manager := m\<rparr>, []) | _ \<Rightarrow> None)"
| "server_do e (SaveTimer ec) s =
     (if dm_timer (sv_manager s) then Some (s\<lparr>sv_manager := onSaveTimer ec (sv_manager s)\<rparr>, []) else None)"

inductive server_run :: "endian \<Rightarrow> server_event list \<Rightarrow> server \<Rightarrow> observation list \<Rightarrow> server \<Rightarrow> bool" for e where
  server_run_Nil: "server_run e [] s [] s"
| server_run_snoc: "server_run e evs s obs s' \<Longrightarrow> server_do e ev s' = Some (s'', obs') \<Longrightarrow>
    server_run e (evs @ [ev]) s (obs @ obs') s''"

section \<open>One answer for each request, in order\<close>

fun received_by :: "nat \<Rightarrow> observation \<Rightarrow> (packet_type \<times> string) list" where
  "received_by i (Received j t d) = (if i = j then [(t, d)] else [])"
| "received_by i (Sent j t d) = []"

fun sent_by :: "nat \<Rightarrow> observation \<Rightarrow> (packet_type \<times> string) list" where
  "sent_by i (Received j t d) = []"
| "sent_by i (Sent j t d) = (if i = j then [(t, d)] else [])"

definition requests :: "nat \<Rightarrow> observation list \<Rightarrow> (packet_type \<times> string) list" where
  "requests i obs = concat (map (received_by i) obs)"

definition responses :: "nat \<Rightarrow> observation list \<Rightarrow> (packet_type \<times> string) list" where
  "responses i obs = concat (map (sent_by i) obs)"

definition opt_list :: "'a option \<Rightarrow> 'a list" where
  "opt_list x = (case x of None \<Rightarrow> [] | Some y \<Rightarrow> [y])"

text \<open>The callbacks of session \<open>i\<close> that are queued or posted.\<close>

definition manager_cbs :: "session_cb manager \<Rightarrow> session_cb list" where
  "manager_cbs m = concat (map (\<lambda>item. opt_list (item_cb item)) (dm_queue m)) @ map fst (dm_io m)"

definition pending_of :: "nat \<Rightarrow> session_cb manager \<Rightarrow> session_cb multiset" where
  "pending_of i m = filter_mset (\<lambda>cb. cb_session cb = i) (mset (manager_cbs m))"

definition session_inv :: "observation list \<Rightarrow> server \<Rightarrow> nat \<Rightarrow> bool" where
  "session_inv obs s i \<longleftrightarrow>
     (let pend = pending_of i (sv_manager s); rq = map fst (requests i obs); rs = map fst (responses i obs)
      in if i < length (sv_sessions s) then
           ss_out (sv_sessions s ! i) = concat (map frame (responses i obs)) \<and>
           (case ss_phase (sv_sessions s ! i) of
              Reading \<Rightarrow> pend = {#} \<and> rs = rq
            | Waiting \<Rightarrow> \<exists>cb. pend = {#cb#} \<and> rq = rs @ [cb_type cb]
            | Closed \<Rightarrow> pend = {#} \<and> prefix rs rq)
         else pend = {#} \<and> rq = [] \<and> rs = [])"

lemma obs_append [simp]:
  "requests i (obs @ obs') = requests i obs @ requests i obs'"
  "responses i (obs @ obs') = responses i obs @ responses i obs'"
  "requests i [] = []" "responses i [] = []"
  "requests i (ob # obs) = received_by i ob @ requests i obs"
  "responses i (ob # obs) = sent_by i ob @ responses i obs"
  by (simp_all add: requests_def responses_def)

lemma pending_enqueue: "pending_of i (enqueue item m) =
    pending_of i m + filter_mset (\<lambda>cb. cb_session cb = i) (mset (opt_list (item_cb item)))"
  by (simp add: pending_of_def manager_cbs_def)

lemma pending_round:
  assumes "dbLoop_round e env m = Worked m'"
  shows "pending_of i m' = pending_of i m"
proof -
  from assms obtain item q where q: "dm_queue m = item # q" and
    m': "m' = m\<lparr>dm_queue := q, dm_db := fst (processItem e env item (dm_db m)),
               dm_io := dm_io m @ snd (processItem e env item (dm_db m))\<rparr>"
    by (auto simp: dbLoop_round_Worked)
  have "map fst (snd (processItem e env item (dm_db m))) = opt_list (item_cb item)"
    by (simp add: processItem_posts opt_list_def)
  then show ?thesis using q m' by (simp add: pending_of_def manager_cbs_def)
qed

lemma pending_handler:
  "dm_io m = (cb, r) # rest \<Longrightarrow>
     pending_of i m = pending_of i (m\<lparr>dm_io := rest\<rparr>) + (if cb_session cb = i then {#cb#} else {#})"
  by (simp add: pending_of_def manager_cbs_def)

lemma upd_session_simps [simp]:
  "length (sv_sessions (upd_session i f s)) = length (sv_sessions s)"
  "sv_manager (upd_session i f s) = sv_manager s"
  "i < length (sv_sessions s) \<Longrightarrow> sv_sessions (upd_session i f s) ! i = f (sv_sessions s ! i)"
  "j \<noteq> i \<Longrightarrow> sv_sessions (upd_session i f s) ! j = sv_sessions s ! j"
  "sv_sessions (add_log es s) = sv_sessions s" "sv_manager (add_log es s) = sv_manager s"
  by (simp_all add: upd_session_def add_log_def)

lemma session_inv_cong:
  assumes "requests j obs' = requests j obs" "responses j obs' = responses j obs"
    "pending_of j (sv_manager s') = pending_of j (sv_manager s)"
    "length (sv_sessions s') = length (sv_sessions s)"
    "j < length (sv_sessions s) \<Longrightarrow> ss_phase (sv_sessions s' ! j) = ss_phase (sv_sessions s ! j)
       \<and> ss_out (sv_sessions s' ! j) = ss_out (sv_sessions s ! j)"
  shows "session_inv obs' s' j = session_inv obs s j"
  using assms by (simp add: session_inv_def Let_def)

lemma sent_by_other: "j \<noteq> i \<Longrightarrow> sent_by j (Sent i t d) = []" "j \<noteq> i \<Longrightarrow> received_by j (Received i t d) = []"
  by simp_all

text \<open>A write that answers the one open request of its session.\<close>

lemma session_doWrite_inv:
  assumes i: "i < length (sv_sessions s)" and t: "proper_type t"
    and out: "ss_out (sv_sessions s ! i) = concat (map frame (responses i obs))"
    and pend: "pending_of i (sv_manager s) = {#}"
    and open1: "map fst (requests i obs) = map fst (responses i obs) @ [t]"
    and w: "session_doWrite e i (to_underlying t) resp s = (s', sent)"
  shows "session_inv (obs @ sent) s' i"
    and "j \<noteq> i \<Longrightarrow> session_inv (obs @ sent) s' j = session_inv obs s j"
    and "length (sv_sessions s') = length (sv_sessions s)"
proof -
  have pt: "packet_type_of (to_underlying t) = t" using t by (simp add: proper_type_def)
  show "session_inv (obs @ sent) s' i"
  proof (cases "ss_lost (sv_sessions s ! i)")
    case True
    with i out pend open1 w show ?thesis
      by (auto simp: session_doWrite_def Let_def session_inv_def)
  next
    case False
    with i out pend open1 w show ?thesis
      by (auto simp: session_doWrite_def Let_def session_inv_def pt packet_asyncSend_frame)
  qed
  show "j \<noteq> i \<Longrightarrow> session_inv (obs @ sent) s' j = session_inv obs s j"
    using w by (intro session_inv_cong) (auto simp: session_doWrite_def Let_def split: if_splits)
  show "length (sv_sessions s') = length (sv_sessions s)"
    using w by (auto simp: session_doWrite_def Let_def split: if_splits)
qed

lemma accept_inv:
  assumes "\<forall>j. session_inv obs s j"
  shows "session_inv obs (server_accept peer s) j"
proof -
  let ?s = "server_accept peer s" and ?n = "length (sv_sessions s)"
  have s: "sv_manager ?s = sv_manager s" "length (sv_sessions ?s) = Suc ?n"
    "j < ?n \<Longrightarrow> sv_sessions ?s ! j = sv_sessions s ! j"
    "sv_sessions ?s ! ?n = \<lparr>ss_peer = peer, ss_in = [], ss_out = [], ss_lost = False, ss_phase = Reading\<rparr>"
    by (simp_all add: server_accept_def add_log_def nth_append)
  consider "j < ?n" | "j = ?n" | "j > ?n" by linarith
  then show ?thesis
  proof cases
    case 2
    with assms [rule_format, of j] s show ?thesis
      by (auto simp: session_inv_def Let_def)
  qed (use assms [rule_format, of j] s in \<open>auto simp: session_inv_def Let_def\<close>)
qed

lemma read_inv:
  assumes inv: "\<forall>j. session_inv obs s j" and i: "i < length (sv_sessions s)"
    and r: "session_doRead e i s = Some (s', obs')"
  shows "session_inv (obs @ obs') s' j"
proof -
  let ?ses = "sv_sessions s ! i"
  obtain ec t d rest where a: "packet_asyncRecv e (ss_in ?ses) = ((ec, t, d), rest)"
    by (metis prod_cases3 surj_pair)
  have phase: "ss_phase ?ses = Reading" using r by (auto simp: session_doRead_def Let_def a split: if_splits)
  with inv i have I: "ss_out ?ses = concat (map frame (responses i obs))"
    "pending_of i (sv_manager s) = {#}" "map fst (responses i obs) = map fst (requests i obs)"
    by (auto simp: session_inv_def Let_def dest!: spec [of _ i])
  show ?thesis
  proof (cases ec)
    case True
    then have "s' = add_log [ServerLog_info (ss_peer ?ses @ '' disconnected'')]
        (upd_session i (ss_phase_update (\<lambda>_. Closed)) s)" "obs' = []"
      using r by (auto simp: session_doRead_def Let_def a split: if_splits)
    with i I inv [rule_format, of j] show ?thesis
      by (cases "j = i") (auto simp: session_inv_def Let_def)
  next
    case False
    let ?s1 = "upd_session i (ss_in_update (\<lambda>_. rest)) s"
    let ?D = "session_dispatch (db_files (dm_db (sv_manager s))) i (ss_peer ?ses) t d"
    let ?s2 = "add_log (fst ?D) ?s1" and ?obs = "obs @ [Received i t d]"
    have ans: "answers i t (snd ?D)" by (rule session_dispatch_answers)
    have other: "session_inv ?obs ?s2 k" if "k \<noteq> i" for k
      using inv [rule_format, of k] that by (subst session_inv_cong [where s = s and obs = obs]) auto
    have i2: "i < length (sv_sessions ?s2)" "ss_out (sv_sessions ?s2 ! i) = concat (map frame (responses i ?obs))"
      "pending_of i (sv_manager ?s2) = {#}" "map fst (requests i ?obs) = map fst (responses i ?obs) @ [t]"
      using i I by simp_all
    show ?thesis
    proof (cases "snd ?D")
      case (DoWrite b resp)
      then have b: "b = to_underlying t" "proper_type t"
        using ans by (cases t; simp add: answers_def)+
      obtain s3 sent where w: "session_doWrite e i (to_underlying t) resp ?s2 = (s3, sent)"
        by (metis surj_pair)
      have "s' = s3" "obs' = Received i t d # sent"
        using r False w DoWrite b by (auto simp: session_doRead_def Let_def a phase split: prod.splits)
      then show ?thesis
        using session_doWrite_inv [OF i2(1) b(2) i2(2-4) w] other [of j]
        by (cases "j = i") simp_all
    next
      case (ToDb item)
      then obtain cb where cb: "item_cb item = Some cb" "cb_session cb = i" "cb_type cb = t"
        using ans by (auto simp: answers_def)
      have s': "s' = upd_session i (ss_phase_update (\<lambda>_. Waiting))
          (?s2\<lparr>sv_manager := enqueue item (sv_manager ?s2)\<rparr>)" "obs' = [Received i t d]"
        using r False ToDb by (auto simp: session_doRead_def Let_def a phase split: prod.splits)
      show ?thesis
      proof (cases "j = i")
        case True
        with s' i2 cb i show ?thesis
          by (simp add: session_inv_def Let_def pending_enqueue opt_list_def upd_session_def)
      next
        case neq: False
        have "session_inv (obs @ obs') s' j = session_inv ?obs ?s2 j"
          by (rule session_inv_cong)
            (use neq cb s' in \<open>auto simp: pending_enqueue opt_list_def upd_session_def\<close>)
        with other neq show ?thesis by simp
      qed
    next
      case NoAnswer
      then have "s' = upd_session i (ss_phase_update (\<lambda>_. Closed)) ?s2" "obs' = [Received i t d]"
        using r False by (auto simp: session_doRead_def Let_def a phase split: prod.splits)
      with i2 other [of j] show ?thesis
        by (cases "j = i") (auto simp: session_inv_def Let_def)
    qed
  qed
qed

lemma handler_inv:
  assumes inv: "\<forall>j. session_inv obs s j" and r: "run_handler e s = Some (s', obs')"
  shows "session_inv (obs @ obs') s' j"
proof -
  from r obtain cb rep rest where io: "dm_io (sv_manager s) = (cb, rep) # rest"
    by (auto simp: run_handler_def split: list.splits)
  let ?i = "cb_session cb" and ?m = "(sv_manager s)\<lparr>dm_io := rest\<rparr>"
  have p: "pending_of k (sv_manager s) = pending_of k ?m + (if ?i = k then {#cb#} else {#})" for k
    using io by (rule pending_handler)
  have i: "?i < length (sv_sessions s)"
    using inv [rule_format, of ?i] p [of ?i] by (auto simp: session_inv_def Let_def split: if_splits)
  with inv [rule_format, of ?i] p [of ?i]
  have I: "ss_out (sv_sessions s ! ?i) = concat (map frame (responses ?i obs))" "pending_of ?i ?m = {#}"
    "map fst (requests ?i obs) = map fst (responses ?i obs) @ [cb_type cb]"
    by (auto simp: session_inv_def Let_def split: phase.splits)
  obtain lines resp where sr: "session_reply (ss_peer (sv_sessions s ! ?i)) cb rep
      = (lines, to_underlying (cb_type cb), resp)"
    by (metis session_reply_type prod.collapse)
  let ?s2 = "add_log lines (s\<lparr>sv_manager := ?m\<rparr>)"
  obtain s3 sent where w: "session_doWrite e ?i (to_underlying (cb_type cb)) resp ?s2 = (s3, sent)"
    by (metis surj_pair)
  have "s' = s3" "obs' = sent" using r io sr w by (auto simp: run_handler_def Let_def)
  moreover have "j \<noteq> ?i \<Longrightarrow> session_inv obs ?s2 j"
    using inv [rule_format, of j] p [of j] by (subst session_inv_cong [where s = s and obs = obs]) auto
  ultimately show ?thesis
    using session_doWrite_inv [OF _ proper_cb_type _ _ I(3) w] i I
    by (cases "j = ?i") simp_all
qed

lemma server_do_inv:
  assumes inv: "\<forall>j. session_inv obs s j" and r: "server_do e ev s = Some (s', obs')"
  shows "session_inv (obs @ obs') s' j"
proof (cases ev)
  case (Accept peer)
  with r inv show ?thesis by (auto simp: accept_inv)
next
  case (Arrive i bytes)
  with r have "s' = upd_session i (ss_in_update (\<lambda>b. b @ bytes)) s" "obs' = []" "i < length (sv_sessions s)"
    by (auto split: if_splits)
  then show ?thesis using inv [rule_format, of j]
    by (subst session_inv_cong [where s = s and obs = obs]) (cases "j = i"; simp)+
next
  case (HangUp i)
  with r have "s' = upd_session i (ss_lost_update (\<lambda>_. True)) s" "obs' = []" "i < length (sv_sessions s)"
    by (auto split: if_splits)
  then show ?thesis using inv [rule_format, of j]
    by (subst session_inv_cong [where s = s and obs = obs]) (cases "j = i"; simp)+
next
  case (ReadDone i)
  with r inv show ?thesis by (intro read_inv) (auto split: if_splits)
next
  case RunHandler
  with r inv show ?thesis by (intro handler_inv) auto
next
  case (DbRound env)
  with r obtain m where "dbLoop_round e env (sv_manager s) = Worked m" "s' = s\<lparr>sv_manager := m\<rparr>" "obs' = []"
    by (auto split: round_result.splits)
  then show ?thesis using inv [rule_format, of j]
    by (subst session_inv_cong [where s = s and obs = obs]) (simp_all add: pending_round)
next
  case (SaveTimer ec)
  with r have "s' = s\<lparr>sv_manager := onSaveTimer ec (sv_manager s)\<rparr>" "obs' = []"
    by (auto split: if_splits)
  moreover have "pending_of j (onSaveTimer ec (sv_manager s)) = pending_of j (sv_manager s)"
    by (simp add: onSaveTimer_def pending_of_def manager_cbs_def opt_list_def enqueue_def)
  ultimately show ?thesis using inv [rule_format, of j]
    by (subst session_inv_cong [where s = s and obs = obs]) simp_all
qed

lemma server_run_inv:
  "server_run e evs s obs s' \<Longrightarrow> \<forall>j. session_inv [] s j \<Longrightarrow> \<forall>j. session_inv obs s' j"
  by (induction rule: server_run.induct) (auto intro: server_do_inv)

lemma init_inv: "session_inv [] (Server_init e port files) j"
  by (simp add: session_inv_def Server_init_def DbManager_init_def Let_def pending_of_def manager_cbs_def)

section \<open>Every request is answered\<close>

lemma server_run_Cons:
  "server_run e evs s1 obs s2 \<Longrightarrow> server_do e ev s = Some (s1, obs1) \<Longrightarrow>
     server_run e (ev # evs) s (obs1 @ obs) s2"
proof (induction rule: server_run.induct)
  case (server_run_Nil s1)
  then show ?case using server_run_snoc [OF server_run.server_run_Nil [of e s], of ev s1 obs1] by simp
next
  case (server_run_snoc evs s1 obs s' ev' s'' obs')
  from server_run.server_run_snoc [OF server_run_snoc.IH [OF server_run_snoc.prems] server_run_snoc.hyps(2)]
  show ?case by simp
qed

definition backlog :: "server \<Rightarrow> nat" where
  "backlog s = 2 * length (dm_queue (sv_manager s)) + length (dm_io (sv_manager s))"

definition internal :: "server_event \<Rightarrow> bool" where
  "internal ev \<longleftrightarrow> ev = RunHandler \<or> (\<exists>env. ev = DbRound env)"

lemma length_processItem_posts: "length (snd (processItem e env item db)) \<le> 1"
  using arg_cong [OF processItem_posts [of e env item db], of length] by (simp split: option.splits)

lemma backlog_step:
  assumes "0 < backlog s"
  obtains ev s' obs where "internal ev" "server_do e ev s = Some (s', obs)" "backlog s' < backlog s"
proof (cases "dm_io (sv_manager s)")
  case Nil
  then obtain item q where q: "dm_queue (sv_manager s) = item # q"
    using assms by (cases "dm_queue (sv_manager s)") (auto simp: backlog_def)
  let ?env = "undefined :: env"
  let ?p = "processItem e ?env item (dm_db (sv_manager s))"
  let ?m = "(sv_manager s)\<lparr>dm_queue := q, dm_db := fst ?p, dm_io := dm_io (sv_manager s) @ snd ?p\<rparr>"
  have "server_do e (DbRound ?env) s = Some (s\<lparr>sv_manager := ?m\<rparr>, [])"
    using q dbLoop_round_Worked [of e ?env "sv_manager s" ?m] by simp
  moreover have "backlog (s\<lparr>sv_manager := ?m\<rparr>) < backlog s"
    using q length_processItem_posts [of e ?env item "dm_db (sv_manager s)"]
    by (simp add: backlog_def Nil)
  ultimately show thesis by (rule that [rotated]) (simp add: internal_def)
next
  case (Cons x rest)
  obtain s' obs where r: "run_handler e s = Some (s', obs)"
    using Cons by (cases "run_handler e s") (auto simp: run_handler_def Let_def split: prod.splits)
  then have "sv_manager s' = (sv_manager s)\<lparr>dm_io := rest\<rparr>"
    using Cons by (auto simp: run_handler_def session_doWrite_def Let_def split: prod.splits if_splits)
  with Cons have "backlog s' < backlog s" by (simp add: backlog_def)
  with r show thesis by (intro that [of RunHandler]) (simp_all add: internal_def)
qed

lemma server_drains:
  "\<exists>evs obs s'. (\<forall>ev \<in> set evs. internal ev) \<and> length evs \<le> backlog s \<and> server_run e evs s obs s'
     \<and> backlog s' = 0"
proof (induction "backlog s" arbitrary: s rule: less_induct)
  case less
  show ?case
  proof (cases "backlog s = 0")
    case True
    then show ?thesis using server_run_Nil [of e s] by (intro exI [of _ "[]"]) auto
  next
    case False
    then obtain ev s1 obs1 where ev: "internal ev" "server_do e ev s = Some (s1, obs1)" "backlog s1 < backlog s"
      using backlog_step [of s e] by blast
    with less obtain evs obs s' where "\<forall>ev \<in> set evs. internal ev" "length evs \<le> backlog s1"
      "server_run e evs s1 obs s'" "backlog s' = 0" by blast
    with ev server_run_Cons [OF this(3) ev(2)] show ?thesis
      by (intro exI [of _ "ev # evs"] exI [of _ "obs1 @ obs"] exI [of _ s']) auto
  qed
qed

lemma server_run_append:
  "server_run e evs' s1 obs' s2 \<Longrightarrow> server_run e evs s obs s1 \<Longrightarrow> server_run e (evs @ evs') s (obs @ obs') s2"
proof (induction rule: server_run.induct)
  case (server_run_snoc evs' s1 obs' s' ev s'' obs'')
  then show ?case
    using server_run.server_run_snoc [of e "evs @ evs'" s "obs @ obs'" s' ev s'' obs''] by simp
qed simp

lemma no_backlog_not_waiting:
  assumes "session_inv obs s i" "backlog s = 0" "i < length (sv_sessions s)"
  shows "ss_phase (sv_sessions s ! i) \<noteq> Waiting"
  using assms by (auto simp: session_inv_def backlog_def pending_of_def manager_cbs_def Let_def)

section \<open>The account table in a running server\<close>

lemma server_do_db_inv:
  assumes "db_inv (dm_db (sv_manager s))" "server_do e ev s = Some (s', obs)"
  shows "db_inv (dm_db (sv_manager s'))"
proof (cases ev)
  case (ReadDone i)
  with assms show ?thesis
    by (auto simp: session_doRead_def session_doWrite_def Let_def upd_session_def add_log_def
        split: if_splits prod.splits session_action.splits)
next
  case RunHandler
  with assms show ?thesis
    by (auto simp: run_handler_def session_doWrite_def Let_def upd_session_def add_log_def
        split: if_splits prod.splits list.splits)
next
  case (DbRound env)
  with assms show ?thesis
    by (auto simp: dbLoop_round_Worked db_inv_processItem split: round_result.splits)
qed (use assms in \<open>auto simp: server_accept_def add_log_def upd_session_def onSaveTimer_def split: if_splits\<close>)

lemma server_run_db_inv:
  "server_run e evs s obs s' \<Longrightarrow> db_inv (dm_db (sv_manager s)) \<Longrightarrow> db_inv (dm_db (sv_manager s'))"
  by (induction rule: server_run.induct) (auto intro: server_do_db_inv)

section \<open>Properties\<close>

text \<open>
  C3: On every connection the server answers the requests one for one and in order, whatever else happens
  in between: what it wrote to the socket is the frames of its answers, the types of the answers are a
  prefix of the types of the requests received, and while the session is reading nothing is unanswered.
\<close>

lemma answers_in_order:
  assumes "server_run e evs (Server_init e port files) obs s" "i < length (sv_sessions s)"
  shows "ss_out (sv_sessions s ! i) = concat (map frame (responses i obs))
    \<and> prefix (map fst (responses i obs)) (map fst (requests i obs))
    \<and> (ss_phase (sv_sessions s ! i) = Reading \<longrightarrow> map fst (responses i obs) = map fst (requests i obs))"
proof -
  have "session_inv obs s i" using server_run_inv [OF assms(1)] init_inv by blast
  with assms(2) show ?thesis by (auto simp: session_inv_def Let_def split: phase.splits)
qed

text \<open>A connection on which a ping arrives and is answered.\<close>

definition example_run_events :: "server_event list" where
  "example_run_events = [Accept ''p'', Arrive 0 (frame (ping, [])), ReadDone 0]"

definition example_run_end :: server where
  "example_run_end = \<lparr>sv_manager = DbManager_init Little (\<lambda>_. None),
     sv_sessions = [\<lparr>ss_peer = ''p'', ss_in = [], ss_out = frame (ping, ''PONG''), ss_lost = False,
                     ss_phase = Reading\<rparr>],
     sv_log = [ServerLog_info (''listening on port '' @ ''8080''), ServerLog_info (''p'' @ '' connected'')]\<rparr>"

lemma example_server_run:
  "server_run Little example_run_events (Server_init Little ''8080'' (\<lambda>_. None))
     [Received 0 ping [], Sent 0 ping ''PONG''] example_run_end"
proof -
  let ?s0 = "Server_init Little ''8080'' (\<lambda>_. None)"
  let ?s1 = "server_accept ''p'' ?s0"
  let ?s2 = "upd_session 0 (ss_in_update (\<lambda>b. b @ frame (ping, []))) ?s1"
  have recv: "packet_asyncRecv Little (frame (ping, [])) = ((False, ping, []), [])"
    using packet_recv_frame [of "(ping, [])" Little "[]"] by (simp add: asyncRecv_recv frame_ok_def)
  have "packet_type_of 5 = ping" by (simp add: packet_type_of_def)
  then have "session_doRead Little 0 ?s2 = Some (example_run_end, [Received 0 ping [], Sent 0 ping ''PONG''])"
    by (simp add: session_doRead_def server_accept_def Server_init_def add_log_def upd_session_def recv
        session_ping_def session_doWrite_def example_run_end_def packet_asyncSend_frame Let_def)
  moreover have "length (sv_sessions ?s2) = 1" "length (sv_sessions ?s1) = 1"
    "\<not> ss_lost (sv_sessions ?s1 ! 0)"
    by (simp_all add: server_accept_def add_log_def Server_init_def upd_session_def)
  ultimately have "server_run Little ((([] @ [Accept ''p'']) @ [Arrive 0 (frame (ping, []))]) @ [ReadDone 0]) ?s0
      ((([] @ []) @ []) @ [Received 0 ping [], Sent 0 ping ''PONG'']) example_run_end"
    by (intro server_run.intros(2) [where s' = ?s2] server_run.intros(2) [where s' = ?s1]
        server_run.intros(2) [where s' = ?s0] server_run.intros(1)) simp_all
  then show ?thesis by (simp add: example_run_events_def)
qed

lemma answers_in_order_witness:
  "ss_out (sv_sessions example_run_end ! 0) = concat (map frame (responses 0 [Received 0 ping [], Sent 0 ping ''PONG'']))"
  by (rule answers_in_order [OF example_server_run, THEN conjunct1]) (simp add: example_run_end_def)

text \<open>
  C7: Every request is answered: from every state the running server can reach, at most as many steps of
  the worker and the handlers as there is backlog lead to a state in which no session waits for the
  database, so each connection's open request was answered or its connection is gone.
\<close>

lemma every_request_is_answered:
  assumes "server_run e evs (Server_init e port files) obs s"
  shows "\<exists>evs' obs' s'. (\<forall>ev \<in> set evs'. internal ev) \<and> length evs' \<le> backlog s
    \<and> server_run e evs' s obs' s'
    \<and> (\<forall>i < length (sv_sessions s'). ss_phase (sv_sessions s' ! i) \<noteq> Waiting
         \<and> (ss_phase (sv_sessions s' ! i) = Reading \<longrightarrow>
              map fst (responses i (obs @ obs')) = map fst (requests i (obs @ obs'))))"
proof -
  obtain evs' obs' s' where d: "\<forall>ev \<in> set evs'. internal ev" "length evs' \<le> backlog s"
    "server_run e evs' s obs' s'" "backlog s' = 0"
    using server_drains [of s e] by blast
  have "\<forall>j. session_inv (obs @ obs') s' j"
    using server_run_inv [OF server_run_append [OF d(3) assms]] init_inv by blast
  then have "ss_phase (sv_sessions s' ! i) \<noteq> Waiting \<and> (ss_phase (sv_sessions s' ! i) = Reading \<longrightarrow>
      map fst (responses i (obs @ obs')) = map fst (requests i (obs @ obs')))"
    if "i < length (sv_sessions s')" for i
    using that no_backlog_not_waiting [of "obs @ obs'" s' i] d(4)
    by (auto simp: session_inv_def Let_def dest!: spec [of _ i])
  with d show ?thesis by blast
qed

lemma every_request_is_answered_witness:
  "\<exists>evs' obs' s'. length evs' \<le> backlog example_run_end \<and> server_run Little evs' example_run_end obs' s'"
  using every_request_is_answered [OF example_server_run] by blast

text \<open>
  In a running server the account table stays well formed and every ledger explains its balance,
  through all interleavings of connections, requests, worker rounds and timers.
\<close>

lemma running_server_keeps_ledgers:
  assumes "server_run e evs s obs s'" "db_inv (dm_db (sv_manager s))"
  shows "db_inv (dm_db (sv_manager s'))"
  using assms by (rule server_run_db_inv)

lemma running_server_keeps_ledgers_witness: "db_inv (dm_db (sv_manager example_run_end))"
  by (rule running_server_keeps_ledgers [OF example_server_run])
    (simp add: Server_init_def DbManager_init_def db_load_def db_inv_def Let_def)

end
