(* ===== verification/ClientModel.thy ===== *)
theory ClientModel
  imports ServerSystem
begin

text \<open>
  \<^verbatim>\<open>app/client/Client.cpp\<close>: the requests a client sends, the queue of handlers that wait for answers,
  and what arrives at the caller's handler. A caller's handler is a name \<open>'h\<close>; calling it is an entry
  of the list of calls. The socket is the bytes written and the bytes to read, as in the server.
\<close>

section \<open>Handlers\<close>

text \<open>
  The lambdas the operations pass to \<^verbatim>\<open>sendRequest\<close>: one for the operations answered \<^verbatim>\<open>OK\<close>, one for
  the ping, one for the balance and one for the text answers; \<open>None\<close> is an empty \<^verbatim>\<open>std::function\<close>.
\<close>

datatype 'h handler = OkHandler "'h option" | PongHandler "'h option"
  | BalanceHandler "'h option" | TextHandler "'h option"

datatype 'h call = CallBool 'h bool | CallU64 'h "u64 option" | CallString 'h "string option" | CallVoid 'h

definition call_if :: "'h option \<Rightarrow> ('h \<Rightarrow> 'h call) \<Rightarrow> 'h call list" where
  "call_if h f = (case h of None \<Rightarrow> [] | Some g \<Rightarrow> [f g])"

fun run_response :: "'h handler \<Rightarrow> bool \<Rightarrow> string \<Rightarrow> 'h call list" where
  "run_response (OkHandler h) ok resp = call_if h (\<lambda>h. CallBool h (ok \<and> resp = ''OK''))"
| "run_response (PongHandler h) ok resp = call_if h (\<lambda>h. CallBool h (ok \<and> resp = ''PONG''))"
| "run_response (BalanceHandler h) ok resp =
     (if \<not> ok \<or> resp = [] then call_if h (\<lambda>h. CallU64 h None)
      else case from_chars_u 64 resp of
             None \<Rightarrow> call_if h (\<lambda>h. CallU64 h None)
           | Some val \<Rightarrow> call_if h (\<lambda>h. CallU64 h (Some (word_of_nat val))))"
| "run_response (TextHandler h) ok resp =
     call_if h (\<lambda>h. CallString h (if ok then Some resp else None))"

section \<open>Requests\<close>

type_synonym 'h request = "packet_type \<times> string \<times> 'h handler"

definition Client_authenticate :: "string \<Rightarrow> string \<Rightarrow> 'h option \<Rightarrow> 'h request" where
  "Client_authenticate username password h =
     (let payload = username @ '':'' @ password in (account_auth, payload, OkHandler h))"

definition Client_createAccount :: "string \<Rightarrow> string \<Rightarrow> 'h option \<Rightarrow> 'h request" where
  "Client_createAccount username password h =
     (let payload = username @ '':'' @ password in (account_create, payload, OkHandler h))"

definition Client_getBalance :: "string \<Rightarrow> 'h option \<Rightarrow> 'h request" where
  "Client_getBalance username h = (balance_req, username, BalanceHandler h)"

definition Client_changeBalance :: "string \<Rightarrow> i64 \<Rightarrow> 'h option \<Rightarrow> 'h request" where
  "Client_changeBalance username change h =
     (let payload = username @ '':'' @ string_of_i64 change in (balance_change, payload, OkHandler h))"

definition Client_transferBalance :: "string \<Rightarrow> string \<Rightarrow> u64 \<Rightarrow> 'h option \<Rightarrow> 'h request" where
  "Client_transferBalance sender recipient amount h =
     (let payload = sender @ '':'' @ recipient @ '':'' @ string_of_u64 amount
      in (balance_transfer, payload, OkHandler h))"

definition Client_changePassword :: "string \<Rightarrow> string \<Rightarrow> 'h option \<Rightarrow> 'h request" where
  "Client_changePassword username newPassword h =
     (let payload = username @ '':'' @ newPassword in (account_change_password, payload, OkHandler h))"

definition Client_toggleAccount :: "string \<Rightarrow> 'h option \<Rightarrow> 'h request" where
  "Client_toggleAccount username h = (account_toggle, username, OkHandler h)"

definition Client_ping :: "'h option \<Rightarrow> 'h request" where
  "Client_ping h = (ping, [], PongHandler h)"

definition Client_getLogs :: "string \<Rightarrow> 'h option \<Rightarrow> 'h request" where
  "Client_getLogs username h = (log_req, username, TextHandler h)"

definition Client_getTransactionHistory :: "string \<Rightarrow> u64 \<Rightarrow> 'h option \<Rightarrow> 'h request" where
  "Client_getTransactionHistory username cnt h =
     (let payload = username @ '':'' @ string_of_u64 cnt in (txn_history_req, payload, TextHandler h))"

definition Client_searchUsers :: "string \<Rightarrow> 'h option \<Rightarrow> 'h request" where
  "Client_searchUsers pfx h = (user_search_req, pfx, TextHandler h)"

lemmas client_requests = Client_authenticate_def Client_createAccount_def Client_getBalance_def
  Client_changeBalance_def Client_transferBalance_def Client_changePassword_def
  Client_toggleAccount_def Client_ping_def Client_getLogs_def Client_getTransactionHistory_def
  Client_searchUsers_def

section \<open>The connection\<close>

record 'h client =
  cl_connected :: bool
  cl_pending :: "'h handler list"
  cl_disconnect :: "'h option"
  cl_out :: string
  cl_in :: string

definition Client_init :: "'h client" where
  "Client_init = \<lparr>cl_connected = False, cl_pending = [], cl_disconnect = None, cl_out = [], cl_in = []\<rparr>"

definition Client_onDisconnect :: "'h \<Rightarrow> 'h client \<Rightarrow> 'h client" where
  "Client_onDisconnect h c = c\<lparr>cl_disconnect := Some h\<rparr>"

text \<open>The outcomes of resolving the host and of connecting.\<close>

definition Client_connect :: "bool \<Rightarrow> bool \<Rightarrow> 'h option \<Rightarrow> 'h client \<Rightarrow> 'h client \<times> 'h call list" where
  "Client_connect ec ec2 h c =
     (if ec then (c, call_if h (\<lambda>h. CallBool h False))
      else let c = c\<lparr>cl_connected := \<not> ec2\<rparr>
           in (c, call_if h (\<lambda>h. CallBool h (cl_connected c))))"

text \<open>\<^verbatim>\<open>_disconnectHandler\<close> is moved out of the client and called.\<close>

definition take_disconnect :: "'h client \<Rightarrow> 'h client \<times> 'h call list" where
  "take_disconnect c = (c\<lparr>cl_disconnect := None\<rparr>, call_if (cl_disconnect c) CallVoid)"

text \<open>The posted closure of \<^verbatim>\<open>sendRequest\<close>, up to the write it starts, and the completion of the write.\<close>

definition Client_sendRequest :: "endian \<Rightarrow> 'h request \<Rightarrow> 'h client \<Rightarrow> 'h client \<times> 'h call list" where
  "Client_sendRequest e = (\<lambda>(type, payload, handler) c.
     if \<not> cl_connected c then (c, run_response handler False [])
     else let c = c\<lparr>cl_pending := cl_pending c @ [handler]\<rparr>
          in (c\<lparr>cl_out := packet_asyncSend e (cl_out c) type payload\<rparr>, []))"

definition Client_sent :: "bool \<Rightarrow> 'h client \<Rightarrow> 'h client \<times> 'h call list" where
  "Client_sent ec c = (if ec then take_disconnect (c\<lparr>cl_connected := False\<rparr>) else (c, []))"

text \<open>The loop over the waiting handlers at the end of the connection.\<close>

function Client_failPending :: "'h client \<Rightarrow> 'h client \<times> 'h call list" where
  "Client_failPending c =
     (case cl_pending c of
        [] \<Rightarrow> (c, [])
      | h # hs \<Rightarrow>
          let c = c\<lparr>cl_pending := hs\<rparr>;
              calls = run_response h False [];
              (c, calls') = Client_failPending c
          in (c, calls @ calls'))"
  by pat_completeness auto
termination by (relation "measure (\<lambda>c. length (cl_pending c))") auto

declare Client_failPending.simps [simp del]

text \<open>
  One completion of the receive in \<^verbatim>\<open>recvLoop\<close>: the end of the connection, which fails all waiting
  handlers, or a packet, which goes to the oldest one. The flag tells whether the loop goes on.
\<close>

definition Client_recv :: "endian \<Rightarrow> 'h client \<Rightarrow> bool \<times> 'h client \<times> 'h call list" where
  "Client_recv e c =
     (let ((ec, _, data), rest) = packet_asyncRecv e (cl_in c)
      in if ec then
           let (c, calls) = take_disconnect (c\<lparr>cl_connected := False\<rparr>);
               (c, calls') = Client_failPending c
           in (False, c, calls @ calls')
         else let c = c\<lparr>cl_in := rest\<rparr>
           in case cl_pending c of
                [] \<Rightarrow> (True, c, [])
              | handler # hs \<Rightarrow> (True, c\<lparr>cl_pending := hs\<rparr>, run_response handler True data))"

text \<open>The loop over the bytes that have arrived, up to the first incomplete packet.\<close>

function Client_recvLoop :: "endian \<Rightarrow> 'h client \<Rightarrow> 'h client \<times> 'h call list" where
  "Client_recvLoop e c =
     (if packet_recv e (cl_in c) = None then (c, [])
      else let (_, c', calls) = Client_recv e c; (c'', calls') = Client_recvLoop e c'
           in (c'', calls @ calls'))"
  by pat_completeness auto
termination
proof (relation "measure (\<lambda>(e, c). length (cl_in c))", goal_cases)
  case (2 e c p x c' p' calls)
  then show ?case
    by (auto simp: Client_recv_def asyncRecv_recv Let_def split: option.splits list.splits dest: packet_recv_shorter)
qed simp

declare Client_recvLoop.simps [simp del]

section \<open>Answers reach the handler of their request\<close>

lemma Client_recv_packet:
  "packet_recv e (cl_in c) = Some ((t, d), rest) \<Longrightarrow> cl_pending c = h # hs \<Longrightarrow>
     Client_recv e c = (True, c\<lparr>cl_in := rest, cl_pending := hs\<rparr>, run_response h True d)"
  by (simp add: Client_recv_def asyncRecv_recv Let_def)

lemma Client_recvLoop_matches:
  "\<forall>p \<in> set rs. frame_ok p \<Longrightarrow> packet_recv e part = None \<Longrightarrow> length rs \<le> length (cl_pending c) \<Longrightarrow>
     cl_in c = concat (map frame rs) @ part \<Longrightarrow>
     Client_recvLoop e c = (c\<lparr>cl_in := part, cl_pending := drop (length rs) (cl_pending c)\<rparr>,
       concat (map (\<lambda>(h, (t, d)). run_response h True d) (zip (cl_pending c) rs)))"
proof (induction rs arbitrary: c)
  case Nil
  then show ?case by (subst Client_recvLoop.simps) simp
next
  case (Cons p rs)
  obtain t d where p: "p = (t, d)" by (cases p)
  obtain h hs where hs: "cl_pending c = h # hs" using Cons.prems(3) by (cases "cl_pending c") auto
  have r: "packet_recv e (cl_in c) = Some ((t, d), concat (map frame rs) @ part)"
    using Cons.prems(1,4) p packet_recv_frame [of p e] by simp
  let ?c = "c\<lparr>cl_in := concat (map frame rs) @ part, cl_pending := hs\<rparr>"
  have "Client_recvLoop e ?c = (?c\<lparr>cl_in := part, cl_pending := drop (length rs) hs\<rparr>,
       concat (map (\<lambda>(h, (t, d)). run_response h True d) (zip hs rs)))"
    using Cons.IH [of ?c] Cons.prems hs by simp
  then show ?case
    using r hs p by (subst Client_recvLoop.simps) (simp add: Client_recv_packet)
qed

section \<open>From a client call to its answer\<close>

text \<open>The calls that go through the database.\<close>

datatype client_op = CAuth string string | CCreate string string | CBalance string | CChange string i64
  | CTransfer string string u64 | CPassword string string | CToggle string | CHistory string u64
  | CSearch string

fun client_request :: "client_op \<Rightarrow> 'h option \<Rightarrow> 'h request" where
  "client_request (CAuth u p) h = Client_authenticate u p h"
| "client_request (CCreate u p) h = Client_createAccount u p h"
| "client_request (CBalance u) h = Client_getBalance u h"
| "client_request (CChange u d) h = Client_changeBalance u d h"
| "client_request (CTransfer s r a) h = Client_transferBalance s r a h"
| "client_request (CPassword u p) h = Client_changePassword u p h"
| "client_request (CToggle u) h = Client_toggleAccount u h"
| "client_request (CHistory u n) h = Client_getTransactionHistory u n h"
| "client_request (CSearch p) h = Client_searchUsers p h"

fun intended_item :: "nat \<Rightarrow> client_op \<Rightarrow> session_cb work_item" where
  "intended_item i (CAuth u p) = AuthOp u p (Some (AuthCb i u))"
| "intended_item i (CCreate u p) = CreateAccountOp u p (Some (CreateCb i u))"
| "intended_item i (CBalance u) = GetBalanceOp u (Some (BalanceCb i))"
| "intended_item i (CChange u d) = ChangeBalanceOp u d (Some (ChangeCb i u))"
| "intended_item i (CTransfer s r a) = TransferBalanceOp s r a (Some (TransferCb i s))"
| "intended_item i (CPassword u p) = ChangePasswordOp u p (Some (PasswordCb i u))"
| "intended_item i (CToggle u) = ToggleAccountOp u (Some (ToggleCb i))"
| "intended_item i (CHistory u n) = GetTxnHistoryOp u n (Some (HistoryCb i))"
| "intended_item i (CSearch p) = SearchUsersOp p (Some (SearchCb i))"

text \<open>The names that precede a colon in the payload must hold none.\<close>

fun colon_free :: "client_op \<Rightarrow> bool" where
  "colon_free (CAuth u p) = (COLON \<notin> set u)"
| "colon_free (CCreate u p) = (COLON \<notin> set u)"
| "colon_free (CChange u d) = (COLON \<notin> set u)"
| "colon_free (CTransfer s r a) = (COLON \<notin> set s \<and> COLON \<notin> set r)"
| "colon_free (CPassword u p) = (COLON \<notin> set u)"
| "colon_free (CHistory u n) = (COLON \<notin> set u)"
| "colon_free _ = True"

lemma request_parses:
  "colon_free op \<Longrightarrow> client_request op h = (t, payload, hdl) \<Longrightarrow>
     session_dispatch files i peer t payload = ([], ToDb (intended_item i op))"
proof (cases op)
  case (CTransfer s r a)
  assume "colon_free op" "client_request op h = (t, payload, hdl)"
  moreover have "str_find COLON (Suc (length s)) (s @ COLON # r @ COLON # x) = Some (Suc (length s) + length r)"
    if "COLON \<notin> set r" for x
    using str_find_append_stop [of "s @ '':''" "Suc (length s)" COLON r x] that by simp
  ultimately show ?thesis using CTransfer
    by (auto simp: client_requests session_transfer_def Let_def std_simps substr_def substr_from_def)
qed (auto simp: client_requests session_cases Let_def std_simps substr_def substr_from_def)

text \<open>What the caller should be told for each answer of the database.\<close>

fun client_result :: "client_op \<Rightarrow> 'h option \<Rightarrow> reply \<Rightarrow> 'h call list" where
  "client_result (CBalance u) h r = call_if h (\<lambda>h. CallU64 h (Some (u64_reply r)))"
| "client_result (CHistory u n) h r = call_if h (\<lambda>h. CallString h (Some (string_reply r)))"
| "client_result (CSearch p) h r = call_if h (\<lambda>h. CallString h (Some (string_reply r)))"
| "client_result op h r = call_if h (\<lambda>h. CallBool h (ok_reply r))"

lemma from_chars_string_of_u64: "from_chars_u 64 (string_of_u64 w) = Some (unat w)"
proof -
  have "unat w < 2 ^ 64" using unsigned_less [of w] by simp
  then show ?thesis by (simp only: string_of_u64_def from_chars_string_of_nat)
qed

lemma string_of_u64_nonempty [simp]: "string_of_u64 w \<noteq> []"
  by (simp add: string_of_u64_def)

lemma reply_reaches_caller:
  "client_request op h = (t, payload, hdl) \<Longrightarrow> item_cb (intended_item i op) = Some cb \<Longrightarrow>
     run_response hdl True (snd (snd (session_reply peer cb r))) =
       (case op of CToggle u \<Rightarrow> call_if h (\<lambda>h. CallBool h True) | _ \<Rightarrow> client_result op h r)"
  by (cases op)
    (auto simp: client_requests Let_def ok_fail_def from_chars_string_of_u64)

section \<open>Properties\<close>

text \<open>
  C4: A client call means to the server what the caller meant, and the caller hears what the database
  answered: when the names that precede a colon in the payload hold no colon themselves, the payload is
  parsed into exactly the intended work item, that item posts one answer, and the packet sent for it runs
  the caller's handler with the database's answer to the operation. The exception is the toggle of an
  account: its caller hears success whatever the database answered, because the session sends \<^verbatim>\<open>OK\<close> even
  for an account that does not exist.
\<close>

lemma client_call_end_to_end:
  assumes "colon_free op" "client_request op h = (t, payload, hdl)"
  shows "snd (session_dispatch files i peer t payload) = ToDb (intended_item i op) \<and>
    (\<exists>cb r. snd (processItem e env (intended_item i op) db) = [(cb, r)] \<and> cb_session cb = i \<and>
       run_response hdl True (snd (snd (session_reply peer cb r))) =
         (case op of CToggle u \<Rightarrow> call_if h (\<lambda>h. CallBool h True) | _ \<Rightarrow> client_result op h r))"
proof -
  obtain cb where cb: "item_cb (intended_item i op) = Some cb" "cb_session cb = i"
    by (cases op) auto
  then have "map fst (snd (processItem e env (intended_item i op) db)) = [cb]"
    by (simp add: processItem_posts)
  then obtain r where "snd (processItem e env (intended_item i op) db) = [(cb, r)]"
    by (cases "snd (processItem e env (intended_item i op) db)") auto
  with cb request_parses [OF assms] reply_reaches_caller [OF assms(2) cb(1)] show ?thesis by auto
qed

lemma client_call_end_to_end_witness:
  "snd (session_dispatch (\<lambda>_. None) 4 ''p'' balance_transfer ''alice:bob:200'')
     = ToDb (TransferBalanceOp ''alice'' ''bob'' 200 (Some (TransferCb 4 ''alice'')))"
proof -
  have "client_request (CTransfer ''alice'' ''bob'' 200) (Some ())
      = (balance_transfer, ''alice:bob:200'', OkHandler (Some ()))"
    by (simp add: Client_transferBalance_def) code_simp
  from client_call_end_to_end [OF _ this, THEN conjunct1] show ?thesis by simp
qed

text \<open>
  C9: The client gives each answer to the handler of its own request: with the requests a server session
  has received being the first of those the client sent, and the bytes that session wrote being what the
  client reads, the receive loop runs the handlers of the first requests, in the order they were sent, each
  with an answer of the type of its request, and keeps the others waiting.
\<close>

lemma answers_reach_their_handlers:
  assumes run: "server_run e' evs (Server_init e' port files) obs s" and i: "i < length (sv_sessions s)"
    and rq: "prefix (requests i obs) (map (\<lambda>(t, d, h). (t, d)) qs)"
    and c: "cl_pending c = map (\<lambda>(t, d, h). h) qs" "cl_in c = ss_out (sv_sessions s ! i)"
    and ok: "\<forall>p \<in> set (responses i obs). frame_ok p"
  shows "Client_recvLoop e c =
      (c\<lparr>cl_in := [], cl_pending := map (\<lambda>(t, d, h). h) (drop (length (responses i obs)) qs)\<rparr>,
       concat (map (\<lambda>((_, _, h), (_, d)). run_response h True d) (zip qs (responses i obs))))
    \<and> (\<forall>k < length (responses i obs). fst (responses i obs ! k) = fst (qs ! k))"
proof -
  let ?rs = "responses i obs"
  have inv: "session_inv obs s i" using server_run_inv [OF run] init_inv by blast
  then have out: "ss_out (sv_sessions s ! i) = concat (map frame ?rs)"
    and "prefix (map fst ?rs) (map fst (requests i obs))"
    using i by (auto simp: session_inv_def Let_def split: phase.splits)
  moreover have "prefix (map fst (requests i obs)) (map fst (map (\<lambda>(t, d, h). (t, d)) qs))"
    using rq by (rule map_mono_prefix)
  moreover have "map fst (map (\<lambda>(t, d, h). (t, d)) qs) = map fst qs" by (simp add: comp_def case_prod_beta)
  ultimately have pre: "prefix (map fst ?rs) (map fst qs)" using prefix_order.trans by metis
  then have len: "length ?rs \<le> length qs" using prefix_length_le by fastforce
  have "Client_recvLoop e c = (c\<lparr>cl_in := [], cl_pending := drop (length ?rs) (cl_pending c)\<rparr>,
       concat (map (\<lambda>(h, (t, d)). run_response h True d) (zip (cl_pending c) ?rs)))"
    using ok len c out wire.dec_Nil by (intro Client_recvLoop_matches) auto
  moreover have "map (\<lambda>(h, (t, d)). run_response h True d) (zip (cl_pending c) ?rs)
      = map (\<lambda>((_, _, h), (_, d)). run_response h True d) (zip qs ?rs)"
    by (simp add: c(1) zip_map1 comp_def case_prod_beta)
  moreover have "fst (?rs ! k) = fst (qs ! k)" if "k < length ?rs" for k
  proof -
    have "map fst ?rs ! k = map fst qs ! k"
      using pre that by (auto simp: prefix_def nth_append)
    with that len show ?thesis by simp
  qed
  ultimately show ?thesis by (simp add: c(1) drop_map)
qed

lemma answers_reach_their_handlers_witness:
  "snd (Client_recvLoop Little \<lparr>cl_connected = True, cl_pending = [PongHandler (Some (9 :: nat))], cl_disconnect = None,
     cl_out = [], cl_in = ss_out (sv_sessions example_run_end ! 0)\<rparr>) = [CallBool 9 True]"
proof -
  let ?obs = "[Received 0 ping [], Sent 0 ping ''PONG'']"
  have "prefix (requests 0 ?obs) (map (\<lambda>(t, d, h). (t, d)) [(ping, [], PongHandler (Some (9 :: nat)))])" by simp
  from answers_reach_their_handlers [OF example_server_run _ this, of
      "\<lparr>cl_connected = True, cl_pending = [PongHandler (Some (9 :: nat))], cl_disconnect = None,
     cl_out = [], cl_in = ss_out (sv_sessions example_run_end ! 0)\<rparr>" Little]
  show ?thesis by (simp add: example_run_end_def frame_ok_def call_if_def)
qed

section \<open>Every caller is told once\<close>

text \<open>
  The life of a client as a sequence of events: connection attempts, the registration of the disconnect
  handler, requests, completed writes, arriving bytes and completed receives; a receive completes
  with a packet, or, when the bytes hold no whole packet, with the end of the connection. The state
  counts the receive loops that are running; a receive completes only for one of them.
\<close>

datatype 'h client_event = Connect bool bool "'h option" | OnDisconnect 'h | Request "'h request"
  | Sent bool | Data string | Receive

fun client_step :: "endian \<Rightarrow> 'h client_event \<Rightarrow> nat \<times> 'h client \<Rightarrow> (nat \<times> 'h client) \<times> 'h call list" where
  "client_step e (Connect ec ec2 h) (n, c) =
     (let (c, calls) = Client_connect ec ec2 h c in ((if ec \<or> ec2 then n else Suc n, c), calls))"
| "client_step e (OnDisconnect h) (n, c) = ((n, Client_onDisconnect h c), [])"
| "client_step e (Request q) (n, c) = (let (c, calls) = Client_sendRequest e q c in ((n, c), calls))"
| "client_step e (Sent ec) (n, c) = (let (c, calls) = Client_sent ec c in ((n, c), calls))"
| "client_step e (Data bytes) (n, c) = ((n, c\<lparr>cl_in := cl_in c @ bytes\<rparr>), [])"
| "client_step e Receive (n, c) =
     (if n = 0 then ((n, c), [])
      else let (goes_on, c, calls) = Client_recv e c in ((if goes_on then n else n - 1, c), calls))"

fun client_run :: "endian \<Rightarrow> 'h client_event list \<Rightarrow> nat \<times> 'h client \<Rightarrow> (nat \<times> 'h client) \<times> 'h call list" where
  "client_run e [] s = (s, [])"
| "client_run e (ev # evs) s =
     (let (s, calls) = client_step e ev s; (s, calls') = client_run e evs s in (s, calls @ calls'))"

text \<open>Who waits, who was told, and who asked.\<close>

definition names :: "'h option \<Rightarrow> 'h list" where
  "names h = (case h of None \<Rightarrow> [] | Some g \<Rightarrow> [g])"

fun handler_names :: "'h handler \<Rightarrow> 'h list" where
  "handler_names (OkHandler h) = names h"
| "handler_names (PongHandler h) = names h"
| "handler_names (BalanceHandler h) = names h"
| "handler_names (TextHandler h) = names h"

fun call_names :: "'h call \<Rightarrow> 'h list" where
  "call_names (CallBool h b) = [h]"
| "call_names (CallU64 h v) = [h]"
| "call_names (CallString h v) = [h]"
| "call_names (CallVoid h) = []"

fun event_names :: "'h client_event \<Rightarrow> 'h list" where
  "event_names (Connect ec ec2 h) = names h"
| "event_names (Request (t, d, hdl)) = handler_names hdl"
| "event_names _ = []"

definition told :: "'h call list \<Rightarrow> 'h list" where
  "told calls = concat (map call_names calls)"

definition waiting :: "'h client \<Rightarrow> 'h list" where
  "waiting c = concat (map handler_names (cl_pending c))"

lemma told_simps [simp]:
  "told [] = []" "told (calls @ calls') = told calls @ told calls'" "told (call_if h CallVoid) = []"
  "told (call_if h (\<lambda>h. CallBool h b)) = names h" "told (call_if h (\<lambda>h. CallU64 h v)) = names h"
  "told (call_if h (\<lambda>h. CallString h w)) = names h"
  by (cases h; simp add: told_def call_if_def names_def)+

lemma told_run_response [simp]: "told (run_response h ok resp) = handler_names h"
  by (cases h) (simp_all split: option.split)

lemma Client_failPending_told:
  "Client_failPending c = (c', calls) \<Longrightarrow> cl_pending c' = [] \<and> told calls = waiting c
     \<and> cl_connected c' = cl_connected c"
proof (induction c arbitrary: c' calls rule: Client_failPending.induct)
  case (1 c)
  show ?case
  proof (cases "cl_pending c")
    case Nil
    with "1.prems" show ?thesis by (auto simp: Client_failPending.simps [of c] waiting_def)
  next
    case (Cons h hs)
    obtain c1 calls1 where f: "Client_failPending (c\<lparr>cl_pending := hs\<rparr>) = (c1, calls1)" by fastforce
    from "1.IH" [OF Cons refl refl f] "1.prems" Cons f show ?thesis
      by (auto simp: Client_failPending.simps [of c] waiting_def)
  qed
qed

text \<open>What one event keeps: nobody is lost, nobody is told twice, and without a receive loop nobody waits.\<close>

definition client_inv :: "nat \<times> 'h client \<Rightarrow> bool" where
  "client_inv = (\<lambda>(n, c). n = 0 \<longrightarrow> cl_pending c = [] \<and> \<not> cl_connected c)"

lemma client_step_told:
  assumes "client_inv s" "client_step e ev s = (s', calls)"
  shows "client_inv s' \<and>
    mset (told calls) + mset (waiting (snd s')) = mset (waiting (snd s)) + mset (event_names ev)"
proof -
  obtain n c where s: "s = (n, c)" by (cases s)
  show ?thesis
  proof (cases ev)
    case (Request q)
    then show ?thesis using assms s
      by (cases q) (auto simp: client_inv_def Client_sendRequest_def Let_def waiting_def split: if_splits)
  next
    case Receive
    show ?thesis
    proof (cases "packet_recv e (cl_in c)")
      case None
      let ?c = "fst (take_disconnect (c\<lparr>cl_connected := False\<rparr>))"
      obtain c1 calls1 where f: "Client_failPending ?c = (c1, calls1)" by fastforce
      from Client_failPending_told [OF f] assms s Receive None f show ?thesis
        by (auto simp: client_inv_def Client_recv_def asyncRecv_recv take_disconnect_def waiting_def Let_def
            split: if_splits)
    next
      case (Some p)
      then show ?thesis using assms s Receive
        by (cases p) (auto simp: client_inv_def Client_recv_def asyncRecv_recv waiting_def Let_def
            split: if_splits list.splits)
    qed
  qed (use assms s in \<open>auto simp: client_inv_def Client_connect_def Client_onDisconnect_def Client_sent_def
        take_disconnect_def waiting_def Let_def split: if_splits\<close>)
qed

lemma client_run_told:
  "client_inv s \<Longrightarrow> client_run e evs s = (s', calls) \<Longrightarrow> client_inv s' \<and>
    mset (told calls) + mset (waiting (snd s')) = mset (waiting (snd s)) + mset (concat (map event_names evs))"
proof (induction evs arbitrary: s calls)
  case (Cons ev evs)
  obtain s1 calls1 where 1: "client_step e ev s = (s1, calls1)" by fastforce
  obtain s2 calls2 where 2: "client_run e evs s1 = (s2, calls2)" by fastforce
  have e: "s' = s2" "calls = calls1 @ calls2" using Cons.prems(2) 1 2 by simp_all
  have a: "client_inv s1"
    "mset (told calls1) + mset (waiting (snd s1)) = mset (waiting (snd s)) + mset (event_names ev)"
    using client_step_told [OF Cons.prems(1) 1] by simp_all
  have i: "client_inv s'"
    "mset (told calls2) + mset (waiting (snd s')) = mset (waiting (snd s1)) + mset (concat (map event_names evs))"
    using Cons.IH [OF a(1) 2 [folded e(1)]] by simp_all
  have "mset (told calls) + mset (waiting (snd s'))
      = mset (told calls1) + (mset (told calls2) + mset (waiting (snd s')))"
    by (simp add: e(2) add.assoc)
  also have "\<dots> = mset (told calls1) + mset (waiting (snd s1)) + mset (concat (map event_names evs))"
    by (simp only: i(2) add.assoc)
  also have "\<dots> = mset (waiting (snd s)) + mset (concat (map event_names (ev # evs)))"
    by (simp only: a(2)) (simp add: add.assoc)
  finally show ?case using i(1) by blast
qed simp

text \<open>
  C16: Every caller is told exactly once: over any sequence of connection attempts, requests, completed or
  failed writes, arriving bytes and receives, those whose handlers were called together with those whose
  handlers are waiting are, one for one, those who asked for a connection or an answer; and once no receive
  loop is running (the connection has ended, in whatever state) nobody is left waiting.
\<close>

lemma every_caller_told_once:
  assumes "client_run e evs (0, Client_init) = ((n, c), calls)"
  shows "mset (told calls) + mset (waiting c) = mset (concat (map event_names evs))
       \<and> (n = 0 \<longrightarrow> waiting c = [])"
proof -
  have "client_inv (0, Client_init)" by (simp add: client_inv_def Client_init_def)
  from client_run_told [OF this assms] show ?thesis
    by (simp add: client_inv_def waiting_def Client_init_def)
qed

text \<open>A connection that ends with two requests waiting and is followed by a third.\<close>

lemma every_caller_told_once_witness:
  "mset (told (snd (client_run Little [Connect False False (Some 1), OnDisconnect (9 :: nat), Request (Client_ping (Some 2)),
       Request (Client_getLogs ''bob'' (Some 3)), Sent True, Receive, Request (Client_ping (Some 4))] (0, Client_init))))
   = {#1, 2, 3, 4#}"
proof -
  let ?evs = "[Connect False False (Some 1), OnDisconnect (9 :: nat), Request (Client_ping (Some 2)),
       Request (Client_getLogs ''bob'' (Some 3)), Sent True, Receive, Request (Client_ping (Some 4))]"
  obtain n c calls where r: "client_run Little ?evs (0, Client_init) = ((n, c), calls)"
    by (metis surj_pair)
  have p: "packet_recv Little [] = None" by (simp add: packet_recv_def packet_consts)
  have "n = 0" using r p
    by (simp add: Client_connect_def Client_init_def Client_onDisconnect_def Client_sendRequest_def client_requests
        Client_sent_def take_disconnect_def Client_recv_def asyncRecv_recv Client_failPending.simps Let_def)
  with every_caller_told_once [OF r] have "mset (told calls) = mset (concat (map event_names ?evs))"
    by (metis add.right_neutral mset.simps(1))
  also have "\<dots> = {#1, 2, 3, 4#}" by (simp add: client_requests names_def)
  finally show ?thesis by (simp only: r snd_conv)
qed

end
