(* ===== verification/Algorithm.thy ===== *)
theory Algorithm
  imports Prelude
begin

text \<open>
  \<^verbatim>\<open>libs/base/algorithm.hpp\<close>: \<^verbatim>\<open>swap\<close>, \<^verbatim>\<open>find\<close>, \<^verbatim>\<open>find_if\<close> and \<^verbatim>\<open>sort\<close> over a random-access range. The
  array is a list and an iterator an index into it; reading outside the array is \<open>None\<close>. \<^verbatim>\<open>sort\<close>
  recurses on what its partition loop returns, and for a comparator that is not a strict weak
  order the loop can leave the range, so it is a partial function whose \<open>None\<close> stands for reading
  out of bounds or not returning. In the locale \<open>strict_weak\<close>, the contract the comparator must
  meet, it is proved to return a sorted permutation of the range and to leave the rest alone.
\<close>

section \<open>The code\<close>

definition base_swap :: "'a list \<Rightarrow> nat \<Rightarrow> nat \<Rightarrow> 'a list" where
  "base_swap a i j = a[j := a ! i, i := a ! j]"

fun base_find_if :: "('a \<Rightarrow> bool) \<Rightarrow> 'a list \<Rightarrow> nat" where
  "base_find_if p [] = 0"
| "base_find_if p (x # xs) = (if p x then 0 else Suc (base_find_if p xs))"

fun base_find :: "'a list \<Rightarrow> 'a \<Rightarrow> nat" where
  "base_find [] v = 0"
| "base_find (x # xs) v = (if x = v then 0 else Suc (base_find xs v))"

text \<open>The inner loop of the insertion sort: \<open>j\<close> runs down to \<open>first\<close>.\<close>

function insert_down :: "('a \<Rightarrow> 'a \<Rightarrow> bool) \<Rightarrow> 'a list \<Rightarrow> nat \<Rightarrow> nat \<Rightarrow> 'a list option" where
  "insert_down cmp a first j =
     (if j \<le> first then Some a
      else if j < length a
        then if cmp (a ! j) (a ! (j - 1)) then insert_down cmp (base_swap a j (j - 1)) first (j - 1)
             else Some a
      else None)"
  by pat_completeness auto
termination by (relation "measure (\<lambda>(cmp, a, first, j). j)") auto

function insertion_sort :: "('a \<Rightarrow> 'a \<Rightarrow> bool) \<Rightarrow> 'a list \<Rightarrow> nat \<Rightarrow> nat \<Rightarrow> nat \<Rightarrow> 'a list option" where
  "insertion_sort cmp a first i lst =
     (if i < lst
      then case insert_down cmp a first i of None \<Rightarrow> None
           | Some a \<Rightarrow> insertion_sort cmp a first (i + 1) lst
      else Some a)"
  by pat_completeness auto
termination by (relation "measure (\<lambda>(cmp, a, first, i, lst). lst - i)") auto

text \<open>\<^verbatim>\<open>while (cmp(*f, pivot)) ++f;\<close> and \<^verbatim>\<open>while (cmp(pivot, *l)) --l;\<close>\<close>

function scan_up :: "('a \<Rightarrow> 'a \<Rightarrow> bool) \<Rightarrow> 'a list \<Rightarrow> 'a \<Rightarrow> nat \<Rightarrow> nat option" where
  "scan_up cmp a pivot f =
     (if f < length a then if cmp (a ! f) pivot then scan_up cmp a pivot (f + 1) else Some f
      else None)"
  by pat_completeness auto
termination by (relation "measure (\<lambda>(cmp, a, pivot, f). length a - f)") auto

function scan_down :: "('a \<Rightarrow> 'a \<Rightarrow> bool) \<Rightarrow> 'a list \<Rightarrow> 'a \<Rightarrow> nat \<Rightarrow> nat option" where
  "scan_down cmp a pivot l =
     (if l < length a
      then if cmp pivot (a ! l) then if l = 0 then None else scan_down cmp a pivot (l - 1) else Some l
      else None)"
  by pat_completeness auto
termination by (relation "measure (\<lambda>(cmp, a, pivot, l). l)") auto

declare insert_down.simps [simp del] insertion_sort.simps [simp del]
declare scan_up.simps [simp del] scan_down.simps [simp del]

lemma scan_up_ge: "scan_up cmp a pivot f = Some f' \<Longrightarrow> f \<le> f' \<and> f' < length a"
proof (induction cmp a pivot f rule: scan_up.induct)
  case (1 cmp a pivot f)
  then show ?case by (subst (asm) (2) scan_up.simps) (auto split: if_splits)
qed

lemma scan_down_le: "scan_down cmp a pivot l = Some l' \<Longrightarrow> l' \<le> l"
proof (induction cmp a pivot l rule: scan_down.induct)
  case (1 cmp a pivot l)
  then show ?case by (subst (asm) (2) scan_down.simps) (force split: if_splits)
qed

function partition_loop ::
  "('a \<Rightarrow> 'a \<Rightarrow> bool) \<Rightarrow> 'a list \<Rightarrow> 'a \<Rightarrow> nat \<Rightarrow> nat \<Rightarrow> ('a list \<times> nat \<times> nat) option" where
  "partition_loop cmp a pivot f l =
     (case scan_up cmp a pivot f of None \<Rightarrow> None
      | Some f \<Rightarrow> (case scan_down cmp a pivot l of None \<Rightarrow> None
        | Some l \<Rightarrow> if f \<ge> l then Some (a, f, l)
            else partition_loop cmp (base_swap a f l) pivot (f + 1) (l - 1)))"
  by pat_completeness auto
termination
  by (relation "measure (\<lambda>(cmp, a, pivot, f, l). l - f)")
    (auto dest!: scan_up_ge scan_down_le)

declare partition_loop.simps [simp del]

partial_function (option) base_sort ::
  "('a \<Rightarrow> 'a \<Rightarrow> bool) \<Rightarrow> 'a list \<Rightarrow> nat \<Rightarrow> nat \<Rightarrow> 'a list option" where
  "base_sort cmp a first lst =
     (if lst - first \<le> 1 then Some a
      else if lst - first \<le> 16 then insertion_sort cmp a first (first + 1) lst
      else if first + (lst - first) div 2 < length a
      then case partition_loop cmp a (a ! (first + (lst - first) div 2)) first (lst - 1) of
             None \<Rightarrow> None
           | Some (a, f, l) \<Rightarrow>
               Option.bind (if f - first > 1 then base_sort cmp a first f else Some a)
                 (\<lambda>a. if lst - l > 1 then base_sort cmp a (l + 1) lst else Some a)
      else None)"

declare base_sort.simps [code]

section \<open>Permuting a range\<close>

definition slice :: "nat \<Rightarrow> nat \<Rightarrow> 'a list \<Rightarrow> 'a list" where
  "slice lo hi a = take (hi - lo) (drop lo a)"

definition perm_in :: "'a list \<Rightarrow> 'a list \<Rightarrow> nat \<Rightarrow> nat \<Rightarrow> bool" where
  "perm_in a b lo hi \<longleftrightarrow> mset b = mset a \<and> (\<forall>i < length a. i < lo \<or> hi \<le> i \<longrightarrow> b ! i = a ! i)"

lemma perm_in_refl [simp]: "perm_in a a lo hi"
  by (simp add: perm_in_def)

lemma perm_in_length: "perm_in a b lo hi \<Longrightarrow> length b = length a"
  by (metis perm_in_def mset_eq_length)

lemma perm_in_trans:
  assumes ab: "perm_in a b lo hi" and bc: "perm_in b c lo hi"
  shows "perm_in a c lo hi"
  unfolding perm_in_def
proof (intro conjI allI impI)
  show "mset c = mset a" using ab bc by (simp add: perm_in_def)
  fix i assume "i < length a" "i < lo \<or> hi \<le> i"
  then show "c ! i = a ! i" using ab bc perm_in_length [OF ab] by (auto simp: perm_in_def)
qed

lemma perm_in_mono: "perm_in a b lo hi \<Longrightarrow> lo' \<le> lo \<Longrightarrow> hi \<le> hi' \<Longrightarrow> perm_in a b lo' hi'"
  by (auto simp: perm_in_def)

lemma perm_in_swap:
  "i < length a \<Longrightarrow> j < length a \<Longrightarrow> lo \<le> i \<Longrightarrow> i < hi \<Longrightarrow> lo \<le> j \<Longrightarrow> j < hi \<Longrightarrow>
     perm_in a (base_swap a i j) lo hi"
  by (auto simp: perm_in_def base_swap_def mset_swap nth_list_update)

lemma perm_in_outside: "perm_in a b lo hi \<Longrightarrow> i < length a \<Longrightarrow> i < lo \<or> hi \<le> i \<Longrightarrow> b ! i = a ! i"
  by (auto simp: perm_in_def)

lemma perm_in_slice:
  assumes p: "perm_in a b lo hi" and le: "lo \<le> hi" "hi \<le> length a"
  shows "mset (slice lo hi b) = mset (slice lo hi a)"
proof -
  have len: "length b = length a" using p by (rule perm_in_length)
  have "take lo b = take lo a" "drop hi b = drop hi a"
    using p len le by (auto simp: perm_in_def intro!: nth_equalityI)
  moreover have "b = take lo b @ slice lo hi b @ drop hi b"
    "a = take lo a @ slice lo hi a @ drop hi a"
    using le len unfolding slice_def by (simp_all add: take_append_drop_mid)
  moreover have "mset b = mset a" using p by (simp add: perm_in_def)
  ultimately show ?thesis
    by (metis (no_types) add_left_cancel add_right_cancel mset_append)
qed

lemma in_slice: "lo \<le> hi \<Longrightarrow> hi \<le> length a \<Longrightarrow> x \<in> set (slice lo hi a) \<longleftrightarrow> (\<exists>i. lo \<le> i \<and> i < hi \<and> x = a ! i)"
proof
  assume le: "lo \<le> hi" "hi \<le> length a"
  assume "x \<in> set (slice lo hi a)"
  then obtain k where "k < hi - lo" "x = a ! (lo + k)"
    using le by (auto simp: slice_def in_set_conv_nth)
  then show "\<exists>i. lo \<le> i \<and> i < hi \<and> x = a ! i" by (intro exI [of _ "lo + k"]) simp
next
  assume le: "lo \<le> hi" "hi \<le> length a"
  assume "\<exists>i. lo \<le> i \<and> i < hi \<and> x = a ! i"
  then obtain i where "lo \<le> i" "i < hi" "x = a ! i" by blast
  then have "slice lo hi a ! (i - lo) = x" "i - lo < length (slice lo hi a)"
    using le by (simp_all add: slice_def)
  then show "x \<in> set (slice lo hi a)" by (metis nth_mem)
qed

text \<open>What holds of every element of the range still holds after permuting it.\<close>

lemma perm_in_all:
  assumes p: "perm_in a b lo hi" and le: "hi \<le> length a" and all: "\<forall>i. lo \<le> i \<and> i < hi \<longrightarrow> P (a ! i)"
  shows "\<forall>i. lo \<le> i \<and> i < hi \<longrightarrow> P (b ! i)"
proof (intro allI impI)
  fix i assume i: "lo \<le> i \<and> i < hi"
  then have "lo \<le> hi" by simp
  with p le have m: "mset (slice lo hi b) = mset (slice lo hi a)" by (intro perm_in_slice)
  have "b ! i \<in> set (slice lo hi b)"
    using i le perm_in_length [OF p] by (subst in_slice) auto
  then have "b ! i \<in> set (slice lo hi a)" using m by (metis set_mset_mset)
  then show "P (b ! i)" using all le \<open>lo \<le> hi\<close> by (auto simp: in_slice)
qed

section \<open>Sorting with a strict weak order\<close>

definition sorted_in :: "('a \<Rightarrow> 'a \<Rightarrow> bool) \<Rightarrow> 'a list \<Rightarrow> nat \<Rightarrow> nat \<Rightarrow> bool" where
  "sorted_in lt a lo hi \<longleftrightarrow> (\<forall>i j. lo \<le> i \<and> i < j \<and> j < hi \<longrightarrow> \<not> lt (a ! j) (a ! i))"

locale strict_weak =
  fixes lt :: "'a \<Rightarrow> 'a \<Rightarrow> bool"
  assumes lt_irrefl: "\<not> lt x x"
    and lt_trans: "lt x y \<Longrightarrow> lt y z \<Longrightarrow> lt x z"
    and not_lt_trans: "\<not> lt x y \<Longrightarrow> \<not> lt y z \<Longrightarrow> \<not> lt x z"
begin

lemma lt_asym: "lt x y \<Longrightarrow> \<not> lt y x"
  using lt_trans lt_irrefl by blast

lemma insert_stopped:
  assumes "\<forall>i k. j \<le> i \<and> i < k \<and> k \<le> e \<and> i \<noteq> j \<and> k \<noteq> j \<longrightarrow> \<not> lt (a ! k) (a ! i)"
    and "\<forall>k. j < k \<and> k \<le> e \<longrightarrow> lt (a ! j) (a ! k)"
  shows "sorted_in lt a j (Suc e)"
  unfolding sorted_in_def
proof (intro allI impI)
  fix i k assume ik: "j \<le> i \<and> i < k \<and> k < Suc e"
  show "\<not> lt (a ! k) (a ! i)"
  proof (cases "i = j")
    case True
    then show ?thesis using ik assms(2) lt_asym by simp
  next
    case False
    then show ?thesis using ik assms(1) by simp
  qed
qed

lemma insert_down_sorts:
  assumes "first \<le> j" "j < lst" "lst \<le> length a"
    and "\<forall>i k. first \<le> i \<and> i < k \<and> k \<le> e \<and> i \<noteq> j \<and> k \<noteq> j \<longrightarrow> \<not> lt (a ! k) (a ! i)"
    and "\<forall>k. j < k \<and> k \<le> e \<longrightarrow> lt (a ! j) (a ! k)" and "j \<le> e" "e < lst"
  shows "\<exists>b. insert_down lt a first j = Some b \<and> perm_in a b first (Suc e) \<and> sorted_in lt b first (Suc e)"
  using assms
proof (induction j arbitrary: a)
  case 0
  then show ?case
    using insert_stopped [of 0 e a] by (subst insert_down.simps) simp
next
  case (Suc j)
  consider "Suc j \<le> first" | "first < Suc j" "lt (a ! Suc j) (a ! j)" | "first < Suc j" "\<not> lt (a ! Suc j) (a ! j)"
    by linarith
  then show ?case
  proof cases
    case 1
    then have "first = Suc j" using Suc.prems by simp
    with Suc.prems show ?thesis
      using insert_stopped [of "Suc j" e a] by (subst insert_down.simps) simp
  next
    case 2
    let ?a = "base_swap a (Suc j) j"
    have nth: "?a ! j = a ! Suc j" "?a ! Suc j = a ! j" "\<And>i. i \<noteq> j \<Longrightarrow> i \<noteq> Suc j \<Longrightarrow> ?a ! i = a ! i"
      using Suc.prems by (auto simp: base_swap_def nth_list_update)
    have "\<exists>b. insert_down lt ?a first j = Some b \<and> perm_in ?a b first (Suc e) \<and> sorted_in lt b first (Suc e)"
    proof (rule Suc.IH)
      show "\<forall>i k. first \<le> i \<and> i < k \<and> k \<le> e \<and> i \<noteq> j \<and> k \<noteq> j \<longrightarrow> \<not> lt (?a ! k) (?a ! i)"
      proof (intro allI impI)
        fix i k assume ik: "first \<le> i \<and> i < k \<and> k \<le> e \<and> i \<noteq> j \<and> k \<noteq> j"
        have sorted: "\<not> lt (a ! k') (a ! i')"
          if "first \<le> i'" "i' < k'" "k' \<le> e" "i' \<noteq> Suc j" "k' \<noteq> Suc j" for i' k'
          using Suc.prems(4) that by blast
        show "\<not> lt (?a ! k) (?a ! i)"
        proof (cases "k = Suc j")
          case True
          with ik sorted [of i j] Suc.prems nth show ?thesis by auto
        next
          case False
          with ik sorted [of i k] sorted [of j k] 2 Suc.prems nth show ?thesis
            by (cases "i = Suc j") auto
        qed
      qed
      show "\<forall>k. j < k \<and> k \<le> e \<longrightarrow> lt (?a ! j) (?a ! k)"
        using Suc.prems(5) 2 nth by (metis Suc_lessI less_irrefl_nat)
    qed (use 2 Suc.prems in \<open>auto simp: base_swap_def\<close>)
    then obtain b where b: "insert_down lt ?a first j = Some b" "perm_in ?a b first (Suc e)"
      "sorted_in lt b first (Suc e)" by blast
    have "perm_in a ?a first (Suc e)" using 2 Suc.prems by (intro perm_in_swap) auto
    with b 2 Suc.prems show ?thesis by (subst insert_down.simps) (auto intro: perm_in_trans)
  next
    case 3
    have "\<not> lt (a ! k) (a ! i)" if ik: "first \<le> i" "i < k" "k \<le> e" for i k
    proof -
      have le: "\<not> lt (a ! j) (a ! i)" if "i < Suc j"
        using that ik Suc.prems(4) [rule_format, of i j] Suc.prems(6) lt_irrefl by (cases "i = j") auto
      show ?thesis
      proof (cases "k = Suc j")
        case True
        with ik le 3 not_lt_trans show ?thesis by blast
      next
        case False
        then show ?thesis
          using ik Suc.prems(4,5) lt_asym by (cases "i = Suc j") auto
      qed
    qed
    then have "sorted_in lt a first (Suc e)" by (auto simp: sorted_in_def)
    with 3 Suc.prems show ?thesis by (subst insert_down.simps) auto
  qed
qed

lemma insertion_sort_sorts:
  "first < i \<Longrightarrow> i \<le> lst \<Longrightarrow> lst \<le> length a \<Longrightarrow> sorted_in lt a first i \<Longrightarrow>
     \<exists>b. insertion_sort lt a first i lst = Some b \<and> perm_in a b first lst \<and> sorted_in lt b first lst"
proof (induction "lst - i" arbitrary: a i)
  case 0
  then show ?case by (subst insertion_sort.simps) simp
next
  case (Suc n)
  then have i: "i < lst" by simp
  have "\<exists>b. insert_down lt a first i = Some b \<and> perm_in a b first (Suc i) \<and> sorted_in lt b first (Suc i)"
    using i Suc.prems by (intro insert_down_sorts [where lst = lst]) (auto simp: sorted_in_def)
  then obtain b where b: "insert_down lt a first i = Some b" "perm_in a b first (Suc i)"
    "sorted_in lt b first (Suc i)" by blast
  have "\<exists>c. insertion_sort lt b first (Suc i) lst = Some c \<and> perm_in b c first lst \<and> sorted_in lt c first lst"
    using b i Suc.prems Suc.hyps(2) by (intro Suc.hyps(1)) (auto simp: perm_in_length)
  moreover have "perm_in a b first lst" using i by (intro perm_in_mono [OF b(2)]) simp_all
  ultimately show ?case using b(1) i
    by (subst insertion_sort.simps) (auto intro: perm_in_trans)
qed

lemma scan_up_stops:
  "\<exists>k \<ge> f. k < lst \<and> \<not> lt (a ! k) p \<Longrightarrow> lst \<le> length a \<Longrightarrow>
     \<exists>f'. scan_up lt a p f = Some f' \<and> f \<le> f' \<and> f' < lst \<and> \<not> lt (a ! f') p
        \<and> (\<forall>i. f \<le> i \<and> i < f' \<longrightarrow> lt (a ! i) p)"
proof (induction "lst - f" arbitrary: f)
  case 0
  then show ?case by auto
next
  case (Suc n)
  then have f: "f < lst" by auto
  show ?case
  proof (cases "lt (a ! f) p")
    case True
    from Suc.prems obtain k where k: "k \<ge> f" "k < lst" "\<not> lt (a ! k) p" by blast
    with True have "k \<noteq> f" by auto
    with k have "k \<ge> Suc f" by simp
    then obtain f' where "scan_up lt a p (Suc f) = Some f'" "Suc f \<le> f'" "f' < lst"
      "\<not> lt (a ! f') p" "\<forall>i. Suc f \<le> i \<and> i < f' \<longrightarrow> lt (a ! i) p"
      using Suc.hyps(1) [of "Suc f"] Suc.hyps(2) Suc.prems(2) k(2,3) by force
    with True f Suc.prems show ?thesis
      by (subst scan_up.simps) (auto simp: le_eq_less_or_eq [of f] Suc_le_eq)
  next
    case False
    with f Suc.prems show ?thesis by (subst scan_up.simps) auto
  qed
qed

lemma scan_down_stops:
  "\<exists>k \<le> l. first \<le> k \<and> \<not> lt p (a ! k) \<Longrightarrow> l < length a \<Longrightarrow>
     \<exists>l'. scan_down lt a p l = Some l' \<and> l' \<le> l \<and> first \<le> l' \<and> \<not> lt p (a ! l')
        \<and> (\<forall>i. l' < i \<and> i \<le> l \<longrightarrow> lt p (a ! i))"
proof (induction l)
  case 0
  then show ?case by (subst scan_down.simps) auto
next
  case (Suc l)
  show ?case
  proof (cases "lt p (a ! Suc l)")
    case True
    with Suc.prems(1) have "\<exists>k \<le> l. first \<le> k \<and> \<not> lt p (a ! k)" by (metis le_Suc_eq)
    with Suc.IH Suc.prems(2) obtain l' where "scan_down lt a p l = Some l'" "l' \<le> l" "first \<le> l'"
      "\<not> lt p (a ! l')" "\<forall>i. l' < i \<and> i \<le> l \<longrightarrow> lt p (a ! i)" by auto
    with True Suc.prems(2) show ?thesis by (subst scan_down.simps) (auto simp: le_Suc_eq)
  next
    case False
    from Suc.prems(1) have "first \<le> Suc l" by (meson le_trans)
    with False Suc.prems show ?thesis by (subst scan_down.simps) auto
  qed
qed

definition part_inv :: "'a list \<Rightarrow> 'a \<Rightarrow> nat \<Rightarrow> nat \<Rightarrow> nat \<Rightarrow> nat \<Rightarrow> bool" where
  "part_inv a p first lst f l \<longleftrightarrow>
     first \<le> f \<and> f \<le> l + 1 \<and> l < lst \<and> lst \<le> length a \<and>
     (\<forall>i. first \<le> i \<and> i < f \<longrightarrow> \<not> lt p (a ! i)) \<and>
     (\<forall>i. l < i \<and> i < lst \<longrightarrow> \<not> lt (a ! i) p) \<and>
     (\<exists>k \<ge> f. k < lst \<and> \<not> lt (a ! k) p) \<and> (\<exists>k \<le> l. first \<le> k \<and> \<not> lt p (a ! k))"

definition parted :: "'a list \<Rightarrow> 'a \<Rightarrow> nat \<Rightarrow> nat \<Rightarrow> nat \<Rightarrow> nat \<Rightarrow> bool" where
  "parted a p first lst f l \<longleftrightarrow>
     first \<le> l \<and> l \<le> f \<and> f \<le> l + 1 \<and> f < lst \<and>
     (\<forall>i. first \<le> i \<and> i \<le> l \<longrightarrow> \<not> lt p (a ! i)) \<and> (\<forall>i. f \<le> i \<and> i < lst \<longrightarrow> \<not> lt (a ! i) p)"

lemma partition_loop_parts:
  "part_inv a p first lst f l \<Longrightarrow>
     \<exists>b f' l'. partition_loop lt a p f l = Some (b, f', l') \<and> perm_in a b first lst
        \<and> parted b p first lst f' l'"
proof (induction "l - f" arbitrary: a f l rule: less_induct)
  case less
  note I = less.prems [unfolded part_inv_def]
  from I obtain f' where f': "scan_up lt a p f = Some f'" "f \<le> f'" "f' < lst" "\<not> lt (a ! f') p"
    "\<forall>i. f \<le> i \<and> i < f' \<longrightarrow> lt (a ! i) p"
    using scan_up_stops [of f lst a p] by blast
  from I obtain l' where l': "scan_down lt a p l = Some l'" "l' \<le> l" "first \<le> l'" "\<not> lt p (a ! l')"
    "\<forall>i. l' < i \<and> i \<le> l \<longrightarrow> lt p (a ! i)"
    using scan_down_stops [of l first p a] by auto
  have low: "\<not> lt p (a ! i)" if "first \<le> i" "i < f'" for i
    using I f'(5) that lt_asym by (metis not_less)
  have high: "\<not> lt (a ! i) p" if "l' < i" "i < lst" for i
    using I l'(5) that lt_asym by (metis not_less)
  show ?case
  proof (cases "f' \<ge> l'")
    case True
    have "f' \<le> l' + 1"
    proof (rule ccontr)
      assume "\<not> f' \<le> l' + 1"
      then have c: "l' + 1 < f'" by simp
      have n1: "\<not> lt p (a ! (l' + 1))" using low l'(3) c by simp
      have n2: "\<not> lt (a ! (l' + 1)) p" using high c f'(3) by simp
      have "\<not> l' + 1 \<le> l" using n1 l'(5) by auto
      moreover have "\<not> f \<le> l' + 1" using n2 f'(5) c by auto
      ultimately show False using I by auto
    qed
    moreover have "\<not> lt p (a ! i)" if "first \<le> i" "i \<le> l'" for i
      using low [of i] l'(4) that True by (cases "i = l'") auto
    moreover have "\<not> lt (a ! i) p" if "f' \<le> i" "i < lst" for i
      using high [of i] f'(4) that True by (cases "i = f'") auto
    ultimately have "parted a p first lst f' l'"
      using True f' l' by (simp add: parted_def)
    with True f' l' show ?thesis by (subst partition_loop.simps) auto
  next
    case False
    then have lt': "f' < l'" by simp
    let ?a = "base_swap a f' l'"
    have len: "l' < length a" "f' < length a" using I l' f' by auto
    have nth: "?a ! f' = a ! l'" "?a ! l' = a ! f'" "\<And>i. i \<noteq> f' \<Longrightarrow> i \<noteq> l' \<Longrightarrow> ?a ! i = a ! i"
      using len lt' by (auto simp: base_swap_def nth_list_update)
    have "part_inv ?a p first lst (f' + 1) (l' - 1)"
      unfolding part_inv_def
    proof (intro conjI)
      show "\<forall>i. first \<le> i \<and> i < f' + 1 \<longrightarrow> \<not> lt p (?a ! i)"
        using low l'(4) lt' nth by (metis Suc_eq_plus1 less_SucE less_irrefl less_trans)
      show "\<forall>i. l' - 1 < i \<and> i < lst \<longrightarrow> \<not> lt (?a ! i) p"
      proof (intro allI impI)
        fix i assume "l' - 1 < i \<and> i < lst"
        then show "\<not> lt (?a ! i) p"
          using high [of i] f'(4) lt' nth by (cases "i = l'") auto
      qed
      show "\<exists>k \<ge> f' + 1. k < lst \<and> \<not> lt (?a ! k) p"
        using f'(4) lt' nth(2) I l'(2) by (intro exI [of _ l']) auto
      show "\<exists>k \<le> l' - 1. first \<le> k \<and> \<not> lt p (?a ! k)"
        using l'(4) lt' nth(1) I f'(2) by (intro exI [of _ f']) auto
    qed (use I f' l' lt' len in \<open>auto simp: base_swap_def\<close>)
    moreover have "(l' - 1) - (f' + 1) < l - f" using lt' f' l' by simp
    ultimately obtain b f2 l2 where b: "partition_loop lt ?a p (f' + 1) (l' - 1) = Some (b, f2, l2)"
      "perm_in ?a b first lst" "parted b p first lst f2 l2"
      using less.hyps by blast
    have "perm_in a ?a first lst" using I f' l' lt' len by (intro perm_in_swap) auto
    with b False f' l' show ?thesis
      by (subst partition_loop.simps) (auto intro: perm_in_trans)
  qed
qed

lemma sorted_in_parted:
  assumes low: "\<forall>i. first \<le> i \<and> i < f \<longrightarrow> \<not> lt p (c ! i)"
    and high: "\<forall>i. l < i \<and> i < lst \<longrightarrow> \<not> lt (c ! i) p"
    and mid: "f = l \<Longrightarrow> \<not> lt p (c ! l) \<and> \<not> lt (c ! l) p"
    and fl: "l \<le> f" "f \<le> l + 1"
    and s1: "sorted_in lt c first f" and s2: "sorted_in lt c (l + 1) lst"
  shows "sorted_in lt c first lst"
  unfolding sorted_in_def
proof (intro allI impI)
  fix i j assume ij: "first \<le> i \<and> i < j \<and> j < lst"
  have lo: "\<not> lt p (c ! i)" if "i \<le> l" using that low mid fl ij by (cases "i < f") (auto simp: le_less)
  have hi: "\<not> lt (c ! j) p" if "f \<le> j" using that high mid fl ij by (cases "l < j") (auto simp: le_less)
  consider "j < f" | "l < i" | "i \<le> l" "f \<le> j" by linarith
  then show "\<not> lt (c ! j) (c ! i)"
  proof cases
    case 3
    then show ?thesis using lo hi not_lt_trans by blast
  qed (use ij s1 s2 in \<open>auto simp: sorted_in_def\<close>)
qed

lemma base_sort_sorts:
  "first \<le> lst \<Longrightarrow> lst \<le> length a \<Longrightarrow>
     \<exists>b. base_sort lt a first lst = Some b \<and> perm_in a b first lst \<and> sorted_in lt b first lst"
proof (induction "lst - first" arbitrary: a first lst rule: less_induct)
  case less
  show ?case
  proof (cases "lst - first \<le> 16")
    case True
    show ?thesis
    proof (cases "lst - first \<le> 1")
      case t: True
      then have "sorted_in lt a first lst" by (auto simp: sorted_in_def)
      with t show ?thesis by (subst base_sort.simps) simp
    next
      case f: False
      have "sorted_in lt a first (first + 1)" by (auto simp: sorted_in_def)
      with insertion_sort_sorts [of first "first + 1" lst a] f True less.prems show ?thesis
        by (subst base_sort.simps) auto
    qed
  next
    case False
    let ?m = "first + (lst - first) div 2"
    have m: "first \<le> ?m" "?m < lst" "?m < length a" using False less.prems by auto
    have "part_inv a (a ! ?m) first lst first (lst - 1)"
      using m less.prems lt_irrefl [of "a ! ?m"] by (auto simp: part_inv_def intro!: exI [of _ ?m])
    then obtain b f l where b: "partition_loop lt a (a ! ?m) first (lst - 1) = Some (b, f, l)"
      "perm_in a b first lst" and P: "parted b (a ! ?m) first lst f l"
      using partition_loop_parts by blast
    let ?p = "a ! ?m"
    note P = P [unfolded parted_def]
    have lb: "lst \<le> length b" using b less.prems by (simp add: perm_in_length)
    have "\<exists>c. (if f - first > 1 then base_sort lt b first f else Some b) = Some c
        \<and> perm_in b c first f \<and> sorted_in lt c first f"
    proof (cases "f - first > 1")
      case True
      with P lb less.hyps [of f first b] show ?thesis by auto
    next
      case False
      then show ?thesis by (intro exI [of _ b]) (auto simp: sorted_in_def)
    qed
    then obtain c where c: "(if f - first > 1 then base_sort lt b first f else Some b) = Some c"
      "perm_in b c first f" "sorted_in lt c first f" by blast
    have lc: "lst \<le> length c" using c lb by (simp add: perm_in_length)
    have "\<exists>d. (if lst - l > 1 then base_sort lt c (l + 1) lst else Some c) = Some d
        \<and> perm_in c d (l + 1) lst \<and> sorted_in lt d (l + 1) lst"
    proof (cases "lst - l > 1")
      case True
      with P lc less.hyps [of lst "l + 1" c] show ?thesis by auto
    next
      case False
      then show ?thesis by (intro exI [of _ c]) (auto simp: sorted_in_def)
    qed
    then obtain d where d: "(if lst - l > 1 then base_sort lt c (l + 1) lst else Some c) = Some d"
      "perm_in c d (l + 1) lst" "sorted_in lt d (l + 1) lst" by blast
    have cb: "c ! i = b ! i" if "f \<le> i" "i < lst" for i
      using c(2) that lb by (intro perm_in_outside) auto
    have dc: "d ! i = c ! i" if "i \<le> l" "i < lst" for i
      using d(2) that lc by (intro perm_in_outside) auto
    have "sorted_in lt d first lst"
    proof (rule sorted_in_parted [where f = f and l = l and p = ?p])
      have "\<forall>i. first \<le> i \<and> i < f \<longrightarrow> \<not> lt ?p (c ! i)"
        using P lb by (intro perm_in_all [OF c(2)]) auto
      then show "\<forall>i. first \<le> i \<and> i < f \<longrightarrow> \<not> lt ?p (d ! i)" using dc P by auto
      have "\<forall>i. l + 1 \<le> i \<and> i < lst \<longrightarrow> \<not> lt (c ! i) ?p" using cb P by auto
      then have "\<forall>i. l + 1 \<le> i \<and> i < lst \<longrightarrow> \<not> lt (d ! i) ?p" using lc by (intro perm_in_all [OF d(2)])
      then show "\<forall>i. l < i \<and> i < lst \<longrightarrow> \<not> lt (d ! i) ?p" by auto
      show "sorted_in lt d first f" using c(3) dc P by (auto simp: sorted_in_def)
    qed (use P cb dc d in auto)
    moreover have "perm_in a d first lst"
      by (rule perm_in_trans [OF perm_in_trans [OF b(2) perm_in_mono [OF c(2)]] perm_in_mono [OF d(2)]])
        (use P in auto)
    ultimately show ?thesis using False m b(1) c(1) d(1)
      by (subst base_sort.simps) auto
  qed
qed

end

section \<open>Searching\<close>

lemma base_find_if_spec:
  "base_find_if p xs \<le> length xs \<and> (\<forall>i < base_find_if p xs. \<not> p (xs ! i))
     \<and> (base_find_if p xs < length xs \<longrightarrow> p (xs ! base_find_if p xs))"
proof (induction xs)
  case (Cons x xs)
  then show ?case by (auto simp: nth_Cons split: nat.split)
qed simp

lemma base_find_find_if: "base_find xs v = base_find_if (\<lambda>x. x = v) xs"
  by (induction xs) auto

end
