(* ===== verification/HistoryView.thy ===== *)
theory HistoryView
  imports ClientModel Algorithm
begin

text \<open>
  The client's view of an account: \<^verbatim>\<open>DashboardPage::parseTransactionHistory\<close>, the results of a
  refresh, and the table of \<^verbatim>\<open>HistoryPage\<close> with its filter and its sort. A \<^verbatim>\<open>base::String\<close> here is its
  content. The text the server formats for a history request is read back entry by entry, the
  dashboard shows the balance, and the table is the sorted selection.
\<close>

section \<open>Entries\<close>

record txn_entry =
  te_time :: string
  te_operation :: string
  te_amount :: string
  te_balance :: u64
  te_counterparty :: string

text \<open>The loop that cuts a view at a separator; an empty rest yields no last piece.\<close>

function split_view :: "char \<Rightarrow> string \<Rightarrow> nat \<Rightarrow> string list" where
  "split_view c src pos =
     (if pos < length src
      then case str_find c pos src of
             None \<Rightarrow> [substr_from pos src]
           | Some nl \<Rightarrow> substr pos (nl - pos) src # split_view c src (nl + 1)
      else [])"
  by pat_completeness auto
termination
  by (relation "measure (\<lambda>(c, src, pos). length src - pos)") (auto simp: str_find_def)

declare split_view.simps [simp del]

definition from_chars_or :: "nat \<Rightarrow> nat \<Rightarrow> string \<Rightarrow> nat" where
  "from_chars_or w dflt s = (case from_chars_u w s of None \<Rightarrow> dflt | Some n \<Rightarrow> n)"

definition kOperationNames :: "string list" where
  "kOperationNames = [''Deposit'', ''Withdrawal'', ''Transfer Out'', ''Transfer In'']"

definition operation_text :: "nat \<Rightarrow> string \<Rightarrow> string" where
  "operation_text type counterpartyStr =
     (if type < 4 then
        if (type = 2 \<or> type = 3) \<and> counterpartyStr \<noteq> []
        then kOperationNames ! type @ '' '' @ counterpartyStr
        else kOperationNames ! type
      else ''Unknown'')"

definition amount_text :: "nat \<Rightarrow> u64 \<Rightarrow> string" where
  "amount_text type amount =
     (if type = 0 \<or> type = 3 then ''+'' @ string_of_u64 amount else string_of_u64 amount)"

definition time_text :: "u64 \<Rightarrow> string" where
  "time_text timestamp =
     (let hrs = (timestamp div 3600) mod 24; mins = (timestamp div 60) mod 60; secs = timestamp mod 60
      in pad_left 2 (string_of_u64 hrs) @ '':'' @ pad_left 2 (string_of_u64 mins) @ '':''
         @ pad_left 2 (string_of_u64 secs))"

definition parse_entry :: "string \<Rightarrow> txn_entry option" where
  "parse_entry line =
     (if line = [] then None
      else case str_find PIPE 0 line of None \<Rightarrow> None | Some pipe1 \<Rightarrow>
      (case str_find PIPE (pipe1 + 1) line of None \<Rightarrow> None | Some pipe2 \<Rightarrow>
      (case str_find PIPE (pipe2 + 1) line of None \<Rightarrow> None | Some pipe3 \<Rightarrow>
      (case str_find PIPE (pipe3 + 1) line of None \<Rightarrow> None | Some pipe4 \<Rightarrow>
        let typeStr = substr 0 pipe1 line;
            counterpartyStr = substr (pipe1 + 1) (pipe2 - pipe1 - 1) line;
            amountStr = substr (pipe2 + 1) (pipe3 - pipe2 - 1) line;
            balanceAfterStr = substr (pipe3 + 1) (pipe4 - pipe3 - 1) line;
            timestampStr = substr_from (pipe4 + 1) line;
            type = from_chars_or 32 0 typeStr;
            amount = word_of_nat (from_chars_or 64 0 amountStr);
            balanceAfter = word_of_nat (from_chars_or 64 0 balanceAfterStr);
            timestamp = word_of_nat (from_chars_or 64 0 timestampStr)
        in Some \<lparr>te_time = time_text timestamp, te_operation = operation_text type counterpartyStr,
                 te_amount = amount_text type amount, te_balance = balanceAfter,
                 te_counterparty = counterpartyStr\<rparr>))))"

definition parseTransactionHistory :: "string \<Rightarrow> txn_entry list" where
  "parseTransactionHistory raw =
     (if raw = [] then []
      else let src = raw;
               src = (if src \<noteq> [] \<and> last src = LF then butlast src else src);
               lines = split_view LF src 0
           in List.map_filter parse_entry lines)"

section \<open>The dashboard\<close>

record dashboard =
  da_balanceStr :: string
  da_status :: string
  da_balanceHistory :: "u64 list"
  da_parsedLogs :: "txn_entry list"
  da_logsStatus :: string
  da_latencyStr :: string
  da_latencyVal :: int

definition Dashboard_init :: dashboard where
  "Dashboard_init = \<lparr>da_balanceStr = [], da_status = [], da_balanceHistory = [], da_parsedLogs = [],
     da_logsStatus = [], da_latencyStr = ''?'', da_latencyVal = - 1\<rparr>"

text \<open>\<open>Dashboard_doPing\<close> and \<open>Dashboard_doRefresh\<close> also tell the requests sent.\<close>

definition Dashboard_doPing :: "dashboard \<Rightarrow> dashboard" where
  "Dashboard_doPing d = d\<lparr>da_latencyStr := ''?''\<rparr>"

definition Dashboard_onPing :: "bool \<Rightarrow> int \<Rightarrow> dashboard \<Rightarrow> dashboard" where
  "Dashboard_onPing ok ms d =
     (if ok then d\<lparr>da_latencyStr := string_of_nat (nat ms) @ ''ms'', da_latencyVal := ms\<rparr>
      else d\<lparr>da_latencyStr := ''ERR'', da_latencyVal := - 1\<rparr>)"

definition Dashboard_doRefresh :: "string \<Rightarrow> dashboard \<Rightarrow> dashboard \<times> client_op" where
  "Dashboard_doRefresh username d =
     (let d = (if da_logsStatus d \<noteq> ''Loading...''
               then d\<lparr>da_balanceStr := ''Loading...'', da_logsStatus := ''Loading...'', da_status := []\<rparr>
               else d)
      in (Dashboard_doPing d, CHistory username 5))"

definition Dashboard_onHistory :: "string option \<Rightarrow> dashboard \<Rightarrow> dashboard" where
  "Dashboard_onHistory resp d =
     (case resp of
        Some raw \<Rightarrow>
          let parsed = parseTransactionHistory raw;
              d = d\<lparr>da_parsedLogs := parsed\<rparr>;
              d = d\<lparr>da_balanceHistory := map te_balance (da_parsedLogs d)\<rparr>;
              d = d\<lparr>da_balanceStr := (if da_balanceHistory d = [] then ''0''
                                      else string_of_u64 (last (da_balanceHistory d)))\<rparr>
          in d\<lparr>da_logsStatus := []\<rparr>
      | None \<Rightarrow>
          d\<lparr>da_parsedLogs := [], da_balanceHistory := [], da_balanceStr := ''ERROR'',
            da_status := ''Failed to fetch history'', da_logsStatus := ''Failed to fetch history''\<rparr>)"

section \<open>The history table\<close>

datatype sort_column = Time | Operation | Amount | Balance

record history_page =
  hp_entries :: "txn_entry list"
  hp_status :: string
  hp_loading :: bool
  hp_sortColumn :: sort_column
  hp_sortAscending :: bool
  hp_searchStr :: string

definition History_init :: history_page where
  "History_init = \<lparr>hp_entries = [], hp_status = [], hp_loading = False, hp_sortColumn = Time,
     hp_sortAscending = True, hp_searchStr = []\<rparr>"

definition History_doRefresh :: "string \<Rightarrow> history_page \<Rightarrow> history_page \<times> client_op option" where
  "History_doRefresh username h =
     (if hp_loading h then (h, None)
      else (h\<lparr>hp_loading := True, hp_status := []\<rparr>, Some (CHistory username 100)))"

definition History_onHistory :: "string option \<Rightarrow> history_page \<Rightarrow> history_page" where
  "History_onHistory resp h =
     (let parsed = (case resp of Some raw \<Rightarrow> parseTransactionHistory raw | None \<Rightarrow> []);
          ok = (resp \<noteq> None);
          h = h\<lparr>hp_loading := False\<rparr>
      in if ok then h\<lparr>hp_entries := parsed, hp_status := []\<rparr>
         else h\<lparr>hp_entries := [], hp_status := ''Failed to fetch history''\<rparr>)"

definition getHeaderLabel :: "sort_column \<Rightarrow> string" where
  "getHeaderLabel col = (case col of Time \<Rightarrow> '' TIME '' | Operation \<Rightarrow> '' OPERATION ''
     | Amount \<Rightarrow> '' CHANGE '' | Balance \<Rightarrow> '' BALANCE '')"

definition makeComparator :: "sort_column \<Rightarrow> bool \<Rightarrow> txn_entry \<Rightarrow> txn_entry \<Rightarrow> bool" where
  "makeComparator col asc a b =
     (case col of
        Time \<Rightarrow> if asc then te_time a < te_time b else te_time b < te_time a
      | Operation \<Rightarrow> if asc then te_operation a < te_operation b else te_operation b < te_operation a
      | Amount \<Rightarrow> if asc then te_amount a < te_amount b else te_amount b < te_amount a
      | Balance \<Rightarrow> if asc then te_balance a < te_balance b else te_balance b < te_balance a)"

definition History_click :: "sort_column \<Rightarrow> history_page \<Rightarrow> history_page" where
  "History_click col h =
     (if hp_sortColumn h = col then h\<lparr>hp_sortAscending := \<not> hp_sortAscending h\<rparr>
      else h\<lparr>hp_sortColumn := col, hp_sortAscending := True\<rparr>)"

text \<open>The entries the table shows; \<open>None\<close> would be a sort that reads out of bounds.\<close>

definition History_display :: "history_page \<Rightarrow> txn_entry list option" where
  "History_display h =
     (if \<not> hp_loading h \<and> hp_status h = [] then
        let filterStr = hp_searchStr h;
            displayEntries = filter (\<lambda>e. filterStr = [] \<or> contains_sub filterStr (te_operation e)) (hp_entries h)
        in if length displayEntries > 1
           then base_sort (makeComparator (hp_sortColumn h) (hp_sortAscending h)) displayEntries
                  0 (length displayEntries)
           else Some displayEntries
      else Some [])"

section \<open>The comparators are strict weak orders\<close>

lemma key_strict_weak:
  fixes f :: "'a \<Rightarrow> 'b::linorder"
  shows "strict_weak (\<lambda>a b. f a < f b)" "strict_weak (\<lambda>a b. f b < f a)"
  by (unfold_locales; auto)+

lemma makeComparator_strict_weak: "strict_weak (makeComparator col asc)"
proof (cases col)
  case Time
  then show ?thesis using key_strict_weak [of te_time] by (cases asc) (simp_all add: makeComparator_def [abs_def])
next
  case Operation
  then show ?thesis using key_strict_weak [of te_operation] by (cases asc) (simp_all add: makeComparator_def [abs_def])
next
  case Amount
  then show ?thesis using key_strict_weak [of te_amount] by (cases asc) (simp_all add: makeComparator_def [abs_def])
next
  case Balance
  then show ?thesis using key_strict_weak [of te_balance] by (cases asc) (simp_all add: makeComparator_def [abs_def])
qed

interpretation history_order: strict_weak "makeComparator col asc" for col asc
  by (rule makeComparator_strict_weak)

section \<open>Cutting at separators\<close>

function pieces :: "char \<Rightarrow> string \<Rightarrow> string list" where
  "pieces c [] = []"
| "pieces c (x # xs) = takeWhile (\<lambda>y. y \<noteq> c) (x # xs) # pieces c (drop 1 (dropWhile (\<lambda>y. y \<noteq> c) (x # xs)))"
  by pat_completeness auto
termination
proof (relation "measure (\<lambda>(c, s). length s)", goal_cases)
  case (2 c x xs)
  have "length (dropWhile (\<lambda>y. y \<noteq> c) (x # xs)) \<le> length (x # xs)" by (rule length_dropWhile_le)
  then show ?case by simp
qed simp

lemma pieces_stop: "c \<notin> set a \<Longrightarrow> pieces c (a @ c # b) = a # pieces c b"
proof (cases a)
  case Nil
  then show ?thesis by simp
next
  case (Cons x xs)
  assume a: "c \<notin> set a"
  have t: "takeWhile (\<lambda>y. y \<noteq> c) (a @ c # b) = a" "dropWhile (\<lambda>y. y \<noteq> c) (a @ c # b) = c # b"
    using a by (auto intro!: takeWhile_append_stop dropWhile_append_stop)
  then show ?thesis using Cons pieces.simps(2) [of c x "xs @ c # b"] by simp
qed

lemma pieces_last: "c \<notin> set a \<Longrightarrow> a \<noteq> [] \<Longrightarrow> pieces c a = [a]"
proof -
  assume a: "c \<notin> set a" "a \<noteq> []"
  then have "takeWhile (\<lambda>y. y \<noteq> c) a = a" "dropWhile (\<lambda>y. y \<noteq> c) a = []"
    by (auto intro!: takeWhile_all)
  moreover obtain x xs where "a = x # xs" using a(2) by (cases a) auto
  ultimately show ?thesis using pieces.simps(2) [of c x xs] by (simp only: drop_Nil pieces.simps(1))
qed

lemma split_view_pieces: "split_view c src pos = pieces c (drop pos src)"
proof (induction c src pos rule: split_view.induct)
  case (1 c src pos)
  show ?case
  proof (cases "pos < length src")
    case False
    then show ?thesis by (subst split_view.simps) simp
  next
    case True
    let ?d = "drop pos src"
    have ne: "?d \<noteq> []" using True by simp
    show ?thesis
    proof (cases "index_of c ?d")
      case None
      then have "c \<notin> set ?d" by (simp add: index_of_None)
      with ne have "pieces c ?d = [?d]" by (intro pieces_last)
      with None True show ?thesis by (subst split_view.simps) (simp add: str_find_def substr_from_def)
    next
      case (Some i)
      from index_of_Some_split [OF Some]
      have d: "?d = take i ?d @ c # drop (Suc i) ?d" "c \<notin> set (take i ?d)" by auto
      have f: "str_find c pos src = Some (pos + i)" using Some by (simp add: str_find_def)
      have "split_view c src (pos + i + 1) = pieces c (drop (pos + i + 1) src)"
        using 1 True f by simp
      moreover have "pieces c ?d = take i ?d # pieces c (drop (Suc i) ?d)"
        using pieces_stop [OF d(2), of "drop (Suc i) ?d"] d(1) by metis
      ultimately show ?thesis using True f
        by (subst split_view.simps) (simp add: substr_def add.commute)
    qed
  qed
qed

lemma pieces_concat:
  "\<forall>l \<in> set ls. c \<notin> set l \<and> l \<noteq> [] \<Longrightarrow> pieces c (concat (map (\<lambda>l. l @ [c]) ls)) = ls"
  by (induction ls) (auto simp: pieces_stop)

lemma pieces_snoc: "pieces c (s @ [c]) = pieces c s" if "s \<noteq> []" "last s \<noteq> c" for s
  using that
proof (induction "length s" arbitrary: s rule: less_induct)
  case less
  show ?case
  proof (cases "c \<in> set s")
    case False
    then show ?thesis using less.prems by (simp add: pieces_stop pieces_last)
  next
    case True
    then obtain a b where s: "s = a @ c # b" "c \<notin> set a" by (metis split_list_first)
    with less.prems have b: "b \<noteq> []" "last b \<noteq> c" by (auto split: if_splits)
    have "pieces c ((a @ c # b) @ [c]) = a # pieces c (b @ [c])"
      using s b pieces_stop [of c a "b @ [c]"] by simp
    also have "\<dots> = a # pieces c b" using less.hyps [of b] b s by simp
    also have "\<dots> = pieces c (a @ c # b)" using s b pieces_stop [of c a b] by simp
    finally show ?thesis using s by simp
  qed
qed

section \<open>Reading back what the server formats\<close>

definition entry_line :: "transaction_record \<Rightarrow> string" where
  "entry_line r = string_of_nat (unat (tr_type r)) @ PIPE # asString (tr_counterparty r) @ PIPE #
     string_of_u64 (tr_amount r) @ PIPE # string_of_u64 (tr_balanceAfter r) @ PIPE #
     string_of_u64 (tr_timestamp r)"

text \<open>
  The entry a record should be shown as, in terms of the record alone: what kind of transaction it is and
  with whom, the amount with a plus when it is a credit, the balance, and the time of day in UTC.
\<close>

definition two_digits :: "nat \<Rightarrow> string" where
  "two_digits n = [digit_char (n div 10), digit_char (n mod 10)]"

definition clock_text :: "nat \<Rightarrow> string" where
  "clock_text seconds =
     (let s = seconds mod 86400
      in two_digits (s div 3600) @ '':'' @ two_digits (s mod 3600 div 60) @ '':'' @ two_digits (s mod 60))"

definition with_name :: "string \<Rightarrow> string \<Rightarrow> string" where
  "with_name what name = (case name of [] \<Rightarrow> what | _ \<Rightarrow> what @ '' '' @ name)"

definition shown_operation :: "transaction_record \<Rightarrow> string" where
  "shown_operation r =
     (let name = asString (tr_counterparty r)
      in if tr_type r = txn_type_u8 deposit then ''Deposit''
         else if tr_type r = txn_type_u8 withdraw then ''Withdrawal''
         else if tr_type r = txn_type_u8 transfer_out then with_name ''Transfer Out'' name
         else if tr_type r = txn_type_u8 transfer_in then with_name ''Transfer In'' name
         else ''Unknown'')"

definition shown_amount :: "transaction_record \<Rightarrow> string" where
  "shown_amount r =
     (if tr_type r \<in> {txn_type_u8 deposit, txn_type_u8 transfer_in} then [CHR ''+''] else [])
       @ string_of_nat (unat (tr_amount r))"

definition entry_of :: "transaction_record \<Rightarrow> txn_entry" where
  "entry_of r =
     \<lparr>te_time = clock_text (unat (tr_timestamp r)), te_operation = shown_operation r,
      te_amount = shown_amount r, te_balance = tr_balanceAfter r,
      te_counterparty = asString (tr_counterparty r)\<rparr>"

lemma pad_left_two_digits: "n < 100 \<Longrightarrow> pad_left 2 (string_of_nat n) = two_digits n"
proof -
  have "CHR ''0'' = digit_char 0" by code_simp
  then show "n < 100 \<Longrightarrow> pad_left 2 (string_of_nat n) = two_digits n"
    by (auto simp: pad_left_def two_digits_def string_of_nat.simps [of n] string_of_nat.simps [of "n div 10"])
qed

lemma mod_mult_div: "0 < b \<Longrightarrow> a mod (b * c) div b = a div b mod (c :: nat)"
  by (simp add: mod_mult2_eq)

lemma time_text_clock: "time_text w = clock_text (unat w)"
proof -
  let ?n = "unat w"
  have "?n mod 86400 div 3600 = ?n div 3600 mod 24" using mod_mult_div [of 3600 ?n 24] by simp
  moreover have "?n mod 86400 mod 3600 div 60 = ?n div 60 mod 60"
    using mod_mult_div [of 60 ?n 60] mod_mod_cancel [of 3600 86400 ?n] by simp
  moreover have "?n mod 86400 mod 60 = ?n mod 60" using mod_mod_cancel [of 60 86400 ?n] by simp
  ultimately have c: "clock_text ?n = two_digits (?n div 3600 mod 24) @ '':'' @ two_digits (?n div 60 mod 60)
      @ '':'' @ two_digits (?n mod 60)"
    by (simp only: clock_text_def Let_def)
  have "k mod 24 < 100" "k mod 60 < 100" for k :: nat
    using mod_less_divisor [of 24 k] mod_less_divisor [of 60 k] by linarith+
  moreover have "unat (w div 3600 mod 24) = ?n div 3600 mod 24" "unat (w div 60 mod 60) = ?n div 60 mod 60"
    "unat (w mod 60) = ?n mod 60"
    by (simp_all add: unat_mod unat_div_distrib)
  ultimately show ?thesis
    unfolding c time_text_def Let_def string_of_u64_def by (simp only: pad_left_two_digits)
qed

lemma unat_u8_small:
  fixes b :: u8
  shows "unat b = 0 \<longleftrightarrow> b = 0" "unat b = Suc 0 \<longleftrightarrow> b = 1" "unat b = 2 \<longleftrightarrow> b = 2" "unat b = 3 \<longleftrightarrow> b = 3"
  by (simp_all add: word_unat_eq_iff)

lemma operation_text_shown: "operation_text (unat (tr_type r)) (asString (tr_counterparty r)) = shown_operation r"
proof -
  let ?t = "unat (tr_type r)"
  consider "?t = 0" | "?t = Suc 0" | "?t = 2" | "?t = 3" | "4 \<le> ?t" by arith
  then show ?thesis
  proof cases
    case 5
    then have "tr_type r \<notin> {0, 1, 2, 3}" by (auto simp flip: unat_u8_small)
    with 5 show ?thesis by (simp add: operation_text_def shown_operation_def Let_def)
  qed (simp_all add: operation_text_def shown_operation_def kOperationNames_def with_name_def unat_u8_small Let_def
      split: list.split)
qed

lemma amount_text_shown: "amount_text (unat (tr_type r)) (tr_amount r) = shown_amount r"
  using unat_u8_small [of "tr_type r"] by (simp add: amount_text_def shown_amount_def string_of_u64_def)

text \<open>A record whose counterparty does not break the format.\<close>

definition plain_record :: "transaction_record \<Rightarrow> bool" where
  "plain_record r \<longleftrightarrow> PIPE \<notin> set (asString (tr_counterparty r)) \<and> LF \<notin> set (asString (tr_counterparty r))"

lemma history_line_entry: "history_line r = entry_line r @ [LF]"
  by (simp add: history_line_def entry_line_def)

lemma u64_no_stops [simp]: "PIPE \<notin> set (string_of_u64 w)" "LF \<notin> set (string_of_u64 w)" "COLON \<notin> set (string_of_u64 w)"
  by (simp_all add: string_of_u64_def)

lemma from_chars_or_u64: "from_chars_or 64 d (string_of_u64 w) = unat w"
  by (simp add: from_chars_or_def from_chars_string_of_u64)

lemma from_chars_or_u8: "from_chars_or 32 d (string_of_nat (unat (b :: u8))) = unat b"
proof -
  have "unat b < 2 ^ 8" using unsigned_less [of b] by simp
  then have "unat b < 2 ^ 32" by simp
  then show ?thesis by (simp only: from_chars_or_def from_chars_string_of_nat option.case)
qed

lemma parse_entry_fields:
  assumes "PIPE \<notin> set a" "PIPE \<notin> set b" "PIPE \<notin> set c" "PIPE \<notin> set d"
  shows "parse_entry (a @ PIPE # b @ PIPE # c @ PIPE # d @ PIPE # e) =
    (let type = from_chars_or 32 0 a
     in Some \<lparr>te_time = time_text (word_of_nat (from_chars_or 64 0 e)), te_operation = operation_text type b,
              te_amount = amount_text type (word_of_nat (from_chars_or 64 0 c)),
              te_balance = word_of_nat (from_chars_or 64 0 d), te_counterparty = b\<rparr>)"
proof -
  let ?l = "a @ PIPE # b @ PIPE # c @ PIPE # d @ PIPE # e"
  let ?p1 = "length a" and ?p2 = "length a + 1 + length b"
  let ?p3 = "length a + 1 + length b + 1 + length c"
  let ?p4 = "length a + 1 + length b + 1 + length c + 1 + length d"
  have mid: "substr i n (p @ x @ q) = x" if "length p = i" "length x = n" for p x q :: string and i n
    using that by (simp add: substr_def)
  have f: "str_find PIPE 0 ?l = Some ?p1" "str_find PIPE (?p1 + 1) ?l = Some ?p2"
    "str_find PIPE (?p2 + 1) ?l = Some ?p3" "str_find PIPE (?p3 + 1) ?l = Some ?p4"
    using assms str_find_append_stop [of "[]" 0 PIPE a] str_find_append_stop [of "a @ [PIPE]" "?p1 + 1" PIPE b]
      str_find_append_stop [of "a @ PIPE # b @ [PIPE]" "?p2 + 1" PIPE c]
      str_find_append_stop [of "a @ PIPE # b @ PIPE # c @ [PIPE]" "?p3 + 1" PIPE d]
    by simp_all
  have t: "substr 0 ?p1 ?l = a" "substr (?p1 + 1) (?p2 - ?p1 - 1) ?l = b"
    "substr (?p2 + 1) (?p3 - ?p2 - 1) ?l = c" "substr (?p3 + 1) (?p4 - ?p3 - 1) ?l = d"
    using mid [of "[]" 0 a ?p1] mid [of "a @ [PIPE]" "?p1 + 1" b "?p2 - ?p1 - 1"]
      mid [of "a @ PIPE # b @ [PIPE]" "?p2 + 1" c "?p3 - ?p2 - 1"]
      mid [of "a @ PIPE # b @ PIPE # c @ [PIPE]" "?p3 + 1" d "?p4 - ?p3 - 1"]
    by simp_all
  have tail: "substr_from i (p @ x) = x" if "length p = i" for p x :: string and i
    using that by (simp add: substr_from_def)
  have e: "substr_from (?p4 + 1) ?l = e" "?l \<noteq> []"
    using tail [of "a @ PIPE # b @ PIPE # c @ PIPE # d @ [PIPE]" "?p4 + 1" e] by simp_all
  show ?thesis
    by (simp only: parse_entry_def f t e option.case Let_def if_False)
qed

lemma parse_entry_line: "plain_record r \<Longrightarrow> parse_entry (entry_line r) = Some (entry_of r)"
  by (simp add: entry_line_def parse_entry_fields plain_record_def entry_of_def from_chars_or_u8
      from_chars_or_u64 time_text_clock operation_text_shown amount_text_shown Let_def)

lemma entry_line_chars: "plain_record r \<Longrightarrow> LF \<notin> set (entry_line r)" "entry_line r \<noteq> []"
  by (simp_all add: entry_line_def plain_record_def)

lemma last_entry_line: "last (entry_line r) \<noteq> LF"
proof -
  have "last (string_of_u64 w) \<noteq> LF" for w
  proof -
    have "last (string_of_u64 w) \<in> set (string_of_u64 w)" by (rule last_in_set) simp
    then show ?thesis using u64_no_stops(2) [of w] by metis
  qed
  then show ?thesis by (simp add: entry_line_def)
qed

lemma parse_history_lines:
  assumes "\<forall>r \<in> set rs. plain_record r"
  shows "parseTransactionHistory (concat (map history_line rs)) = map entry_of rs"
proof (cases rs rule: rev_cases)
  case Nil
  then show ?thesis by (simp add: parseTransactionHistory_def)
next
  case (snoc ys y)
  let ?raw = "concat (map history_line rs)"
  let ?s = "concat (map history_line ys) @ entry_line y"
  have raw: "?raw = ?s @ [LF]" using snoc by (simp add: history_line_entry)
  have s: "?s \<noteq> []" "last ?s \<noteq> LF" using entry_line_chars(2) [of y] last_entry_line [of y] by auto
  have "pieces LF ?s = pieces LF ?raw" unfolding raw by (rule pieces_snoc [symmetric]) (use s in auto)
  also have "?raw = concat (map (\<lambda>l. l @ [LF]) (map entry_line rs))"
    by (simp add: history_line_entry [abs_def] comp_def)
  also have "pieces LF \<dots> = map entry_line rs"
    using assms entry_line_chars by (intro pieces_concat) auto
  finally have "pieces LF ?s = map entry_line rs" .
  moreover have "List.map_filter parse_entry (map entry_line rs) = map entry_of rs"
    using assms by (induction rs) (simp_all add: List.map_filter_def parse_entry_line)
  moreover have "butlast ?raw = ?s" unfolding raw by (rule butlast_snoc)
  moreover have "?raw \<noteq> []" "last ?raw = LF" unfolding raw by simp_all
  ultimately show ?thesis
    by (auto simp: parseTransactionHistory_def Let_def split_view_pieces)
qed

lemma process_txn_history_concat:
  assumes "map_find u (db_data db) = Some st"
  shows "snd (process_txn_history u n cb db) = post cb (RString (concat (map history_line
     (drop (length (us_transactions st) - unat n) (us_transactions st)))))"
proof -
  let ?t = "us_transactions st"
  have e: "(if length ?t > unat n then length ?t - unat n else 0) = length ?t - unat n" by simp
  show ?thesis
    using assms foldl_concat_range [of "length ?t - unat n" ?t history_line "[]"]
    by (simp only: process_txn_history_def Let_def e option.case) simp
qed

lemma history_parsed:
  assumes "map_find u (db_data db) = Some st" "\<forall>r \<in> set (us_transactions st). plain_record r"
  shows "\<exists>raw. snd (processItem e env (GetTxnHistoryOp u n (Some cb)) db) = [(cb, RString raw)] \<and>
    parseTransactionHistory raw =
      map entry_of (drop (length (us_transactions st) - unat n) (us_transactions st))"
proof -
  let ?rs = "drop (length (us_transactions st) - unat n) (us_transactions st)"
  have "\<forall>r \<in> set ?rs. plain_record r" using assms(2) by (auto dest: in_set_dropD)
  then have "parseTransactionHistory (concat (map history_line ?rs)) = map entry_of ?rs"
    by (rule parse_history_lines)
  then show ?thesis using process_txn_history_concat [OF assms(1), of n "Some cb"]
    by (simp add: post_def)
qed

section \<open>Properties\<close>

text \<open>
  C20: The client shows the transactions the server has, when no counterparty of the account has a bar or a
  line feed in its name (names the server accepts, and which break the format): the text that a history
  request for \<open>n\<close> entries is answered with is parsed, on the other side, into the last \<open>n\<close> records of the
  account, in order, each shown as the kind of transaction with the counterparty's name, the amount in
  decimal with a plus for credits, the balance, and the time of day of its timestamp.
\<close>

lemma history_roundtrip:
  assumes "map_find u (db_data db) = Some st" "\<forall>r \<in> set (us_transactions st). plain_record r"
  shows "\<exists>raw. snd (processItem e env (GetTxnHistoryOp u n (Some cb)) db) = [(cb, RString raw)] \<and>
    parseTransactionHistory raw =
      map entry_of (drop (length (us_transactions st) - unat n) (us_transactions st))"
  using assms by (rule history_parsed)

lemma example_plain: "\<forall>r \<in> set (us_transactions (example_account u n)). plain_record r"
  by (simp add: example_account_def plain_record_def zero_txn_def)

lemma history_roundtrip_witness:
  "\<exists>raw. snd (processItem Little example_env (GetTxnHistoryOp ''alice'' 20 (Some ())) example_db) = [((), RString raw)]
     \<and> parseTransactionHistory raw = map entry_of (us_transactions (example_account ''alice'' 500))"
  using history_roundtrip [OF example_find(1) example_plain, of Little example_env 20 "()"]
  by (simp add: example_account_def)

text \<open>
  After a refresh the dashboard shows the account's balance: in a well-formed table the last entry of
  the history it asks for carries the current balance, and that is the number displayed.
\<close>

lemma dashboard_shows_balance:
  assumes inv: "db_inv db" and f: "map_find u (db_data db) = Some st"
    and plain: "\<forall>r \<in> set (us_transactions st). plain_record r"
    and req: "snd (Dashboard_doRefresh u d) = CHistory u n"
  shows "\<exists>raw. snd (processItem e env (GetTxnHistoryOp u n (Some cb)) db) = [(cb, RString raw)] \<and>
    da_balanceStr (Dashboard_onHistory (Some raw) d') = string_of_u64 (ur_balance (us_record st))"
proof -
  let ?t = "us_transactions st"
  have n: "n = 5" using req by (simp add: Dashboard_doRefresh_def Let_def)
  have ok: "account_ok u st" using inv f by (auto simp: db_inv_find)
  then have ne: "?t \<noteq> []" and l: "tr_balanceAfter (last ?t) = ur_balance (us_record st)"
    by (auto simp: account_ok_def ledger_end_def)
  obtain raw where raw: "snd (processItem e env (GetTxnHistoryOp u n (Some cb)) db) = [(cb, RString raw)]"
    "parseTransactionHistory raw = map entry_of (drop (length ?t - unat n) ?t)"
    using history_parsed [OF f plain, of e env n cb] by blast
  have "length ?t - unat n < length ?t" using ne n by simp
  then have d: "drop (length ?t - unat n) ?t \<noteq> []" "last (drop (length ?t - unat n) ?t) = last ?t"
    by (simp_all add: last_drop)
  then have "da_balanceStr (Dashboard_onHistory (Some raw) d') = string_of_u64 (tr_balanceAfter (last ?t))"
    by (simp add: Dashboard_onHistory_def Let_def raw(2) last_map entry_of_def)
  with raw(1) l show ?thesis by auto
qed

lemma dashboard_shows_balance_witness:
  "\<exists>raw. da_balanceStr (Dashboard_onHistory (Some raw) Dashboard_init) = string_of_u64 500"
  using dashboard_shows_balance [OF example_db_inv example_find(1) example_plain, of Dashboard_init 5 Little
      example_env "()" Dashboard_init]
  by (auto simp: Dashboard_doRefresh_def Let_def)

text \<open>
  The history table shows, sorted by the chosen column and direction, exactly the entries whose
  operation contains the search text: \<^verbatim>\<open>base::sort\<close> returns on every input, permutes, and leaves no
  entry before one that the comparator puts first.
\<close>

lemma history_table_sorted:
  assumes "\<not> hp_loading h" "hp_status h = []"
  shows "\<exists>shown. History_display h = Some shown \<and>
    mset shown = filter_mset (\<lambda>e. contains_sub (hp_searchStr h) (te_operation e)) (mset (hp_entries h)) \<and>
    (\<forall>i j. i < j \<and> j < length shown \<longrightarrow>
       \<not> makeComparator (hp_sortColumn h) (hp_sortAscending h) (shown ! j) (shown ! i))"
proof -
  let ?cmp = "makeComparator (hp_sortColumn h) (hp_sortAscending h)"
  let ?d = "filter (\<lambda>e. hp_searchStr h = [] \<or> contains_sub (hp_searchStr h) (te_operation e)) (hp_entries h)"
  have "contains_sub [] s" for s by (cases s) auto
  then have d: "mset ?d = filter_mset (\<lambda>e. contains_sub (hp_searchStr h) (te_operation e)) (mset (hp_entries h))"
    by (cases "hp_searchStr h = []") auto
  show ?thesis
  proof (cases "length ?d > 1")
    case True
    obtain b where b: "base_sort ?cmp ?d 0 (length ?d) = Some b" "perm_in ?d b 0 (length ?d)"
      "sorted_in ?cmp b 0 (length ?d)"
      using history_order.base_sort_sorts [of 0 "length ?d" ?d] by auto
    then have "length b = length ?d" "mset b = mset ?d" by (simp_all add: perm_in_def mset_eq_length)
    with b True d assms show ?thesis by (simp add: History_display_def Let_def sorted_in_def)
  next
    case False
    then have "\<not> (i < j \<and> j < length ?d)" for i j by auto
    with False d assms show ?thesis by (auto simp: History_display_def Let_def)
  qed
qed

lemma history_table_sorted_witness:
  "\<exists>shown. History_display (History_init\<lparr>hp_entries := map entry_of (us_transactions (example_account ''bob'' 70))\<rparr>) = Some shown"
  using history_table_sorted [of "History_init\<lparr>hp_entries := map entry_of (us_transactions (example_account ''bob'' 70))\<rparr>"]
  by (auto simp: History_init_def)

end
