(* ===== verification/Forms.thy ===== *)
theory Forms
  imports HistoryView
begin

text \<open>
  The forms of the terminal client (\<^verbatim>\<open>app/pages\<close>) and the navigation of \<^verbatim>\<open>app/App.cpp\<close>: the fields
  each page keeps, what its buttons check and request, and what the answers change. An operation
  returns the page and the requests it sends, each with the name of the handler that waits for it;
  drawing is not modelled. The code runs the handlers on the thread of the screen, one at a time.
\<close>

section \<open>Requests of the pages\<close>

datatype ui_handler = OnLogin | OnSignup | OnDeposit | OnWithdraw | OnTransfer | OnDirectory
  | OnCurrentPassword | OnPasswordChanged | OnLocked | OnDashboard | OnHistory
  | OnSettingsPassword | OnSettingsToggled

type_synonym ui_request = "ui_handler \<times> client_op"

section \<open>Login and sign-up\<close>

record login_page =
  lo_username :: string
  lo_password :: string
  lo_status :: string
  lo_loading :: bool
  lo_pendingFocus :: bool

definition Login_init :: login_page where
  "Login_init = \<lparr>lo_username = [], lo_password = [], lo_status = [], lo_loading = False, lo_pendingFocus = True\<rparr>"

definition Login_doLogin :: "login_page \<Rightarrow> login_page \<times> ui_request list" where
  "Login_doLogin p =
     (if lo_username p = [] \<or> lo_password p = []
      then (p\<lparr>lo_status := ''Please enter username and password''\<rparr>, [])
      else if length (lo_username p) > 23 then (p\<lparr>lo_status := ''Username too long (max 23)''\<rparr>, [])
      else if length (lo_password p) > 23 then (p\<lparr>lo_status := ''Password too long (max 23)''\<rparr>, [])
      else (p\<lparr>lo_loading := True, lo_status := []\<rparr>, [(OnLogin, CAuth (lo_username p) (lo_password p))]))"

definition Login_reset :: "login_page \<Rightarrow> login_page" where
  "Login_reset p = p\<lparr>lo_username := [], lo_password := [], lo_status := [], lo_loading := False,
     lo_pendingFocus := True\<rparr>"

definition Login_setStatus :: "string \<Rightarrow> login_page \<Rightarrow> login_page" where
  "Login_setStatus status p = p\<lparr>lo_status := status\<rparr>"

record signup_page =
  su_username :: string
  su_password :: string
  su_confirmPassword :: string
  su_status :: string
  su_loading :: bool
  su_cachedStrength :: nat

definition is_upper :: "char \<Rightarrow> bool" where
  "is_upper c \<longleftrightarrow> 65 \<le> (of_char c :: nat) \<and> (of_char c :: nat) \<le> 90"

definition is_lower :: "char \<Rightarrow> bool" where
  "is_lower c \<longleftrightarrow> 97 \<le> (of_char c :: nat) \<and> (of_char c :: nat) \<le> 122"

text \<open>The flags \<open>hasUpper\<close>, \<open>hasLower\<close>, \<open>hasDigit\<close>, \<open>hasSpecial\<close> of the loop.\<close>

definition char_flags :: "string \<Rightarrow> bool \<times> bool \<times> bool \<times> bool" where
  "char_flags pw = foldl (\<lambda>(u, l, d, s) c.
     if is_upper c then (True, l, d, s) else if is_lower c then (u, True, d, s)
     else if is_digit c then (u, l, True, s) else (u, l, d, True)) (False, False, False, False) pw"

definition Signup_evaluateStrength :: "string \<Rightarrow> nat" where
  "Signup_evaluateStrength pw =
     (if pw = [] then 0
      else let score = 0;
               score = (if length pw \<ge> 8 then score + 1 else score);
               score = (if length pw \<ge> 12 then score + 1 else score);
               (hasUpper, hasLower, hasDigit, hasSpecial) = char_flags pw;
               score = (if hasUpper \<and> hasLower then score + 1 else score);
               score = (if hasDigit then score + 1 else score);
               score = (if hasSpecial then score + 1 else score)
           in if score < (2 :: nat) then 0 else if score < 4 then 1 else 2)"

definition Signup_strengthLabel :: "nat \<Rightarrow> string" where
  "Signup_strengthLabel s =
     (if s = 0 then '' WEAK '' else if s = 1 then '' MEDIUM '' else if s = 2 then '' STRONG '' else '' ? '')"

definition Signup_doCreateAccount :: "signup_page \<Rightarrow> signup_page \<times> ui_request list" where
  "Signup_doCreateAccount p =
     (if su_username p = [] \<or> su_password p = [] \<or> su_confirmPassword p = []
      then (p\<lparr>su_status := ''Please fill in all fields''\<rparr>, [])
      else if su_password p \<noteq> su_confirmPassword p then (p\<lparr>su_status := ''Passwords do not match''\<rparr>, [])
      else if length (su_username p) > 23
        then (p\<lparr>su_status := ''Username must be at most 23 characters''\<rparr>, [])
      else if length (su_password p) > 23
        then (p\<lparr>su_status := ''Password must be at most 23 characters''\<rparr>, [])
      else (p\<lparr>su_loading := True, su_status := []\<rparr>,
            [(OnSignup, CCreate (su_username p) (su_password p))]))"

section \<open>Deposit and withdrawal\<close>

record amount_page =
  am_amountStr :: string
  am_status :: string
  am_loading :: bool
  am_showConfirm :: bool

definition Amount_init :: amount_page where
  "Amount_init = \<lparr>am_amountStr = [], am_status = [], am_loading = False, am_showConfirm = False\<rparr>"

text \<open>\<open>static_cast<i64>(amount)\<close> is the identity on the words, and the negation wraps.\<close>

definition Deposit_doDeposit :: "string \<Rightarrow> amount_page \<Rightarrow> amount_page \<times> ui_request list" where
  "Deposit_doDeposit username p =
     (if am_amountStr p = [] then (p\<lparr>am_status := ''Please enter an amount''\<rparr>, [])
      else case stoull (am_amountStr p) of
             None \<Rightarrow> (p\<lparr>am_status := ''Invalid amount''\<rparr>, [])
           | Some amount \<Rightarrow>
               if amount = 0 then (p\<lparr>am_status := ''Amount must be greater than 0''\<rparr>, [])
               else (p\<lparr>am_loading := True, am_status := []\<rparr>, [(OnDeposit, CChange username amount)]))"

definition Deposit_onAnswer :: "bool \<Rightarrow> amount_page \<Rightarrow> amount_page" where
  "Deposit_onAnswer ok p =
     (let p = p\<lparr>am_loading := False\<rparr>
      in if ok then p\<lparr>am_status := ''Deposit successful!'', am_amountStr := []\<rparr>
         else p\<lparr>am_status := ''Deposit failed''\<rparr>)"

definition Withdraw_doWithdraw :: "string \<Rightarrow> amount_page \<Rightarrow> amount_page \<times> ui_request list" where
  "Withdraw_doWithdraw username p =
     (if am_amountStr p = [] then (p\<lparr>am_status := ''Please enter an amount''\<rparr>, [])
      else case stoull (am_amountStr p) of
             None \<Rightarrow> (p\<lparr>am_status := ''Invalid amount''\<rparr>, [])
           | Some amount \<Rightarrow>
               if amount = 0 then (p\<lparr>am_status := ''Amount must be greater than 0''\<rparr>, [])
               else (p\<lparr>am_loading := True, am_status := []\<rparr>, [(OnWithdraw, CChange username (- amount))]))"

definition Withdraw_onAnswer :: "bool \<Rightarrow> amount_page \<Rightarrow> amount_page" where
  "Withdraw_onAnswer ok p =
     (let p = p\<lparr>am_loading := False\<rparr>
      in if ok then p\<lparr>am_status := ''Withdrawal successful!'', am_amountStr := []\<rparr>
         else p\<lparr>am_status := ''Withdrawal failed (insufficient balance)''\<rparr>)"

definition Withdraw_ask :: "amount_page \<Rightarrow> amount_page" where
  "Withdraw_ask p = p\<lparr>am_showConfirm := True\<rparr>"

definition Withdraw_confirm :: "string \<Rightarrow> amount_page \<Rightarrow> amount_page \<times> ui_request list" where
  "Withdraw_confirm username p =
     (let (p, rs) = Withdraw_doWithdraw username p in (p\<lparr>am_showConfirm := False\<rparr>, rs))"

section \<open>Transfer\<close>

record transfer_page =
  tf_recipient :: string
  tf_amountStr :: string
  tf_status :: string
  tf_loading :: bool
  tf_showConfirm :: bool
  tf_userCache :: "string list"
  tf_suggestions :: "string list"
  tf_selected :: nat
  tf_showSuggestions :: bool
  tf_cacheLoaded :: bool
  tf_cacheLoading :: bool

definition Transfer_init :: transfer_page where
  "Transfer_init = \<lparr>tf_recipient = [], tf_amountStr = [], tf_status = [], tf_loading = False,
     tf_showConfirm = False, tf_userCache = [], tf_suggestions = [], tf_selected = 0,
     tf_showSuggestions = False, tf_cacheLoaded = False, tf_cacheLoading = False\<rparr>"

definition Transfer_requestConfirmation :: "string \<Rightarrow> transfer_page \<Rightarrow> transfer_page" where
  "Transfer_requestConfirmation username p =
     (if tf_recipient p = [] \<or> tf_amountStr p = [] then p\<lparr>tf_status := ''Please fill in all fields''\<rparr>
      else if tf_recipient p = username then p\<lparr>tf_status := ''Cannot transfer to yourself''\<rparr>
      else case stoull (tf_amountStr p) of
             None \<Rightarrow> p\<lparr>tf_status := ''Invalid amount''\<rparr>
           | Some amount \<Rightarrow>
               if amount = 0 then p\<lparr>tf_status := ''Amount must be greater than 0''\<rparr>
               else p\<lparr>tf_status := [], tf_showConfirm := True\<rparr>)"

definition Transfer_doTransfer :: "string \<Rightarrow> transfer_page \<Rightarrow> transfer_page \<times> ui_request list" where
  "Transfer_doTransfer username p =
     (case stoull (tf_amountStr p) of
        None \<Rightarrow> (p\<lparr>tf_status := ''Invalid amount'', tf_showConfirm := False\<rparr>, [])
      | Some amount \<Rightarrow>
          (p\<lparr>tf_loading := True, tf_showConfirm := False, tf_status := []\<rparr>,
           [(OnTransfer, CTransfer username (tf_recipient p) amount)]))"

definition Transfer_onAnswer :: "bool \<Rightarrow> transfer_page \<Rightarrow> transfer_page" where
  "Transfer_onAnswer ok p =
     (let p = p\<lparr>tf_loading := False\<rparr>
      in if ok then p\<lparr>tf_status := ''Transfer successful!'', tf_recipient := [], tf_amountStr := []\<rparr>
         else p\<lparr>tf_status := ''Transfer failed (check recipient and balance)''\<rparr>)"

definition Transfer_fetchUserDirectory :: "transfer_page \<Rightarrow> transfer_page \<times> ui_request list" where
  "Transfer_fetchUserDirectory p =
     (if tf_cacheLoading p then (p, [])
      else (p\<lparr>tf_cacheLoading := True\<rparr>, [(OnDirectory, CSearch [])]))"

definition Transfer_filterSuggestions :: "string \<Rightarrow> transfer_page \<Rightarrow> transfer_page" where
  "Transfer_filterSuggestions username p =
     (let p = p\<lparr>tf_suggestions := []\<rparr>
      in if length (tf_recipient p) < 3 then p\<lparr>tf_showSuggestions := False\<rparr>
         else let found = filter (\<lambda>name. name \<noteq> username \<and> prefix (tf_recipient p) name) (tf_userCache p);
                  found = (if length found > 5 then take 5 found else found)
              in p\<lparr>tf_suggestions := found, tf_showSuggestions := found \<noteq> [], tf_selected := 0\<rparr>)"

definition Transfer_onDirectory :: "string \<Rightarrow> string option \<Rightarrow> transfer_page \<Rightarrow> transfer_page" where
  "Transfer_onDirectory username resp p =
     (let p = p\<lparr>tf_cacheLoading := False, tf_cacheLoaded := True, tf_userCache := []\<rparr>;
          p = (case resp of
                 Some sv \<Rightarrow> if sv \<noteq> [] then p\<lparr>tf_userCache := split_view PIPE sv 0\<rparr> else p
               | None \<Rightarrow> p)
      in Transfer_filterSuggestions username p)"

definition Transfer_onRecipientChanged :: "string \<Rightarrow> transfer_page \<Rightarrow> transfer_page \<times> ui_request list" where
  "Transfer_onRecipientChanged username p =
     (if \<not> tf_cacheLoaded p \<and> \<not> tf_cacheLoading p then Transfer_fetchUserDirectory p
      else if tf_cacheLoaded p then (Transfer_filterSuggestions username p, [])
      else (p, []))"

definition Transfer_pick :: "transfer_page \<Rightarrow> transfer_page" where
  "Transfer_pick p =
     (if tf_showSuggestions p \<and> tf_suggestions p \<noteq> []
      then p\<lparr>tf_recipient := tf_suggestions p ! tf_selected p, tf_showSuggestions := False\<rparr> else p)"

section \<open>Settings\<close>

record setting_page =
  se_currentPassword :: string
  se_newPassword :: string
  se_confirmPassword :: string
  se_status :: string
  se_loading :: bool
  se_showLockConfirm :: bool
  se_showLogoutConfirm :: bool

definition Setting_init :: setting_page where
  "Setting_init = \<lparr>se_currentPassword = [], se_newPassword = [], se_confirmPassword = [], se_status = [],
     se_loading = False, se_showLockConfirm = False, se_showLogoutConfirm = False\<rparr>"

definition Setting_evaluateStrength :: "string \<Rightarrow> nat" where
  "Setting_evaluateStrength pw =
     (let len = length pw
      in if len = 0 then 0 else if len < 6 then 0 else if len < 12 then 1 else 2)"

definition Setting_strengthLabel :: "nat \<Rightarrow> string" where
  "Setting_strengthLabel s =
     (if s = 0 then ''Weak'' else if s = 1 then ''Medium'' else if s = 2 then ''Strong'' else ''?'')"

definition Setting_doChangePassword :: "string \<Rightarrow> setting_page \<Rightarrow> setting_page \<times> ui_request list" where
  "Setting_doChangePassword username p =
     (if se_currentPassword p = [] \<or> se_newPassword p = [] \<or> se_confirmPassword p = []
      then (p\<lparr>se_status := ''Please fill in all fields''\<rparr>, [])
      else if se_newPassword p \<noteq> se_confirmPassword p
        then (p\<lparr>se_status := ''New passwords do not match''\<rparr>, [])
      else if length (se_newPassword p) > 23
        then (p\<lparr>se_status := ''Password must be at most 23 characters''\<rparr>, [])
      else (p\<lparr>se_loading := True, se_status := []\<rparr>,
            [(OnCurrentPassword, CAuth username (se_currentPassword p))]))"

definition Setting_onCurrentPassword ::
  "string \<Rightarrow> bool \<Rightarrow> setting_page \<Rightarrow> setting_page \<times> ui_request list" where
  "Setting_onCurrentPassword username authOk p =
     (if \<not> authOk then (p\<lparr>se_loading := False, se_status := ''Current password is incorrect''\<rparr>, [])
      else (p, [(OnPasswordChanged, CPassword username (se_newPassword p))]))"

definition Setting_onPasswordChanged :: "bool \<Rightarrow> setting_page \<Rightarrow> setting_page" where
  "Setting_onPasswordChanged changed p =
     (let p = p\<lparr>se_loading := False\<rparr>
      in if changed then p\<lparr>se_status := ''Password changed successfully!'', se_currentPassword := [],
              se_newPassword := [], se_confirmPassword := []\<rparr>
         else p\<lparr>se_status := ''Failed to change password''\<rparr>)"

definition Setting_doLockAccount :: "string \<Rightarrow> setting_page \<Rightarrow> setting_page \<times> ui_request list" where
  "Setting_doLockAccount username p =
     (p\<lparr>se_showLockConfirm := False, se_loading := True, se_status := []\<rparr>, [(OnLocked, CToggle username)])"

text \<open>The page of \<^verbatim>\<open>AccountsettingsPage.cpp\<close>, which no other part of the program uses.\<close>

record account_settings_page =
  as_newPassword :: string
  as_confirmPassword :: string
  as_status :: string
  as_loading :: bool

definition AccountSettings_doChangePassword ::
  "string \<Rightarrow> account_settings_page \<Rightarrow> account_settings_page \<times> ui_request list" where
  "AccountSettings_doChangePassword username p =
     (if as_newPassword p = [] then (p\<lparr>as_status := ''Please enter a new password''\<rparr>, [])
      else if as_newPassword p \<noteq> as_confirmPassword p then (p\<lparr>as_status := ''Passwords do not match''\<rparr>, [])
      else (p\<lparr>as_loading := True, as_status := []\<rparr>,
            [(OnSettingsPassword, CPassword username (as_newPassword p))]))"

definition AccountSettings_onPassword :: "bool \<Rightarrow> account_settings_page \<Rightarrow> account_settings_page" where
  "AccountSettings_onPassword ok p =
     (let p = p\<lparr>as_loading := False\<rparr>;
          p = p\<lparr>as_status := (if ok then ''Password changed successfully'' else ''Failed to change password'')\<rparr>
      in if ok then p\<lparr>as_newPassword := [], as_confirmPassword := []\<rparr> else p)"

definition AccountSettings_doToggleLock ::
  "string \<Rightarrow> account_settings_page \<Rightarrow> account_settings_page \<times> ui_request list" where
  "AccountSettings_doToggleLock username p =
     (p\<lparr>as_loading := True, as_status := []\<rparr>, [(OnSettingsToggled, CToggle username)])"

definition AccountSettings_onToggled :: "bool \<Rightarrow> account_settings_page \<Rightarrow> account_settings_page" where
  "AccountSettings_onToggled ok p =
     p\<lparr>as_loading := False,
       as_status := (if ok then ''Account lock status toggled'' else ''Failed to toggle account'')\<rparr>"

definition AccountSettings_reset :: "account_settings_page \<Rightarrow> account_settings_page" where
  "AccountSettings_reset p = p\<lparr>as_newPassword := [], as_confirmPassword := [], as_status := [], as_loading := False\<rparr>"

section \<open>The application\<close>

record app =
  ap_username :: string
  ap_section :: int
  ap_preAuthPage :: int
  ap_postAuthPage :: int
  ap_running :: bool
  ap_login :: login_page
  ap_signup :: signup_page
  ap_dashboard :: dashboard
  ap_history :: history_page
  ap_deposit :: amount_page
  ap_withdraw :: amount_page
  ap_transfer :: transfer_page
  ap_setting :: setting_page

definition App_init :: app where
  "App_init = \<lparr>ap_username = [], ap_section = 0, ap_preAuthPage = 0, ap_postAuthPage = 0, ap_running = True,
     ap_login = Login_init,
     ap_signup = \<lparr>su_username = [], su_password = [], su_confirmPassword = [], su_status = [],
                  su_loading = False, su_cachedStrength = 0\<rparr>,
     ap_dashboard = Dashboard_init, ap_history = History_init, ap_deposit = Amount_init,
     ap_withdraw = Amount_init, ap_transfer = Transfer_init, ap_setting = Setting_init\<rparr>"

definition App_refreshDashboard :: "app \<Rightarrow> app \<times> ui_request list" where
  "App_refreshDashboard a =
     (let (d, op) = Dashboard_doRefresh (ap_username a) (ap_dashboard a)
      in (a\<lparr>ap_dashboard := d\<rparr>, [(OnDashboard, op)]))"

definition App_refreshHistory :: "app \<Rightarrow> app \<times> ui_request list" where
  "App_refreshHistory a =
     (let (h, op) = History_doRefresh (ap_username a) (ap_history a)
      in (a\<lparr>ap_history := h\<rparr>, case op of None \<Rightarrow> [] | Some op \<Rightarrow> [(OnHistory, op)]))"

definition App_onPostAuthPageChanged :: "app \<Rightarrow> app \<times> ui_request list" where
  "App_onPostAuthPageChanged a =
     (if ap_postAuthPage a = 0 then App_refreshDashboard a
      else if ap_postAuthPage a = 1 then App_refreshHistory a
      else (a, []))"

definition App_left :: "app \<Rightarrow> app \<times> ui_request list" where
  "App_left a =
     (if ap_section a = 0
      then (if ap_preAuthPage a > 0 then a\<lparr>ap_preAuthPage := ap_preAuthPage a - 1\<rparr> else a, [])
      else if ap_postAuthPage a > 0
        then App_onPostAuthPageChanged (a\<lparr>ap_postAuthPage := ap_postAuthPage a - 1\<rparr>)
      else (a, []))"

definition App_right :: "app \<Rightarrow> app \<times> ui_request list" where
  "App_right a =
     (if ap_section a = 0
      then (if ap_preAuthPage a < 1 then a\<lparr>ap_preAuthPage := ap_preAuthPage a + 1\<rparr> else a, [])
      else if ap_postAuthPage a < 5
        then App_onPostAuthPageChanged (a\<lparr>ap_postAuthPage := ap_postAuthPage a + 1\<rparr>)
      else (a, []))"

definition App_escape :: "app \<Rightarrow> app" where
  "App_escape a = a\<lparr>ap_running := False\<rparr>"

text \<open>The closures \<^verbatim>\<open>App::run\<close> gives to the settings page and to the client.\<close>

definition App_logout :: "app \<Rightarrow> app" where
  "App_logout a = a\<lparr>ap_login := Login_reset (ap_login a), ap_postAuthPage := 0, ap_section := 0\<rparr>"

definition App_onDisconnect :: "app \<Rightarrow> app" where
  "App_onDisconnect a =
     a\<lparr>ap_login := Login_setStatus ''Connection to server lost'' (Login_reset (ap_login a)),
       ap_postAuthPage := 0, ap_section := 0\<rparr>"

definition Login_onAnswer :: "bool \<Rightarrow> app \<Rightarrow> app \<times> ui_request list" where
  "Login_onAnswer ok a =
     (let a = a\<lparr>ap_login := (ap_login a)\<lparr>lo_loading := False\<rparr>\<rparr>
      in if ok then
           let a = a\<lparr>ap_username := lo_username (ap_login a)\<rparr>;
               (a, rs) = App_refreshDashboard a
           in (a\<lparr>ap_section := 1\<rparr>, rs)
         else (a\<lparr>ap_login := Login_setStatus ''Authentication failed'' (ap_login a)\<rparr>, []))"

definition Signup_onAnswer :: "bool \<Rightarrow> app \<Rightarrow> app \<times> ui_request list" where
  "Signup_onAnswer ok a =
     (let a = a\<lparr>ap_signup := (ap_signup a)\<lparr>su_loading := False\<rparr>\<rparr>
      in if ok then (a\<lparr>ap_username := su_username (ap_signup a), ap_section := 1\<rparr>, [])
         else (a\<lparr>ap_signup := (ap_signup a)\<lparr>su_status := ''Account creation failed (username may exist)''\<rparr>\<rparr>, []))"

definition Setting_onLocked :: "bool \<Rightarrow> app \<Rightarrow> app" where
  "Setting_onLocked ok a =
     (let a = a\<lparr>ap_setting := (ap_setting a)\<lparr>se_loading := False\<rparr>\<rparr>
      in if ok then App_logout a
         else a\<lparr>ap_setting := (ap_setting a)\<lparr>se_status := ''Failed to lock account''\<rparr>\<rparr>)"

section \<open>Events of the screen\<close>

text \<open>
  What can happen to the application: keys, buttons, edits of the fields (by any string), the choice of
  a tab in a menu, answers to the requests and the loss of the connection.
\<close>

datatype ui_answer = AnsBool bool | AnsText "string option"

datatype app_event = KeyLeft | KeyRight | KeyEscape
  | PreMenu nat | PostMenu nat | Back
  | EditLogin string string | PressLogin
  | EditSignup string string string | PressCreate
  | EditDeposit string | PressDeposit
  | EditWithdraw string | AskWithdraw | ConfirmWithdraw | CancelWithdraw
  | EditRecipient string | EditTransferAmount string | PickSuggestion | AskTransfer | ConfirmTransfer | CancelTransfer
  | EditSettings string string string | PressChangePassword
  | AskLock | CancelLock | PressLock | AskLogout | CancelLogout | PressLogout
  | PressSort sort_column | EditSearch string | PressRefresh
  | Answer ui_handler ui_answer | Disconnected

fun answer_bool :: "ui_answer \<Rightarrow> bool" where
  "answer_bool (AnsBool b) = b"
| "answer_bool (AnsText t) = (t \<noteq> None)"

fun answer_text :: "ui_answer \<Rightarrow> string option" where
  "answer_text (AnsText t) = t"
| "answer_text (AnsBool b) = None"

fun app_answer :: "ui_handler \<Rightarrow> ui_answer \<Rightarrow> app \<Rightarrow> app \<times> ui_request list" where
  "app_answer OnLogin r a = Login_onAnswer (answer_bool r) a"
| "app_answer OnSignup r a = Signup_onAnswer (answer_bool r) a"
| "app_answer OnDeposit r a =
     (let a = a\<lparr>ap_deposit := Deposit_onAnswer (answer_bool r) (ap_deposit a)\<rparr>
      in if answer_bool r then App_refreshDashboard a else (a, []))"
| "app_answer OnWithdraw r a =
     (let a = a\<lparr>ap_withdraw := Withdraw_onAnswer (answer_bool r) (ap_withdraw a)\<rparr>
      in if answer_bool r then App_refreshDashboard a else (a, []))"
| "app_answer OnTransfer r a =
     (let a = a\<lparr>ap_transfer := Transfer_onAnswer (answer_bool r) (ap_transfer a)\<rparr>
      in if answer_bool r then App_refreshDashboard a else (a, []))"
| "app_answer OnDirectory r a =
     (a\<lparr>ap_transfer := Transfer_onDirectory (ap_username a) (answer_text r) (ap_transfer a)\<rparr>, [])"
| "app_answer OnCurrentPassword r a =
     (let (p, rs) = Setting_onCurrentPassword (ap_username a) (answer_bool r) (ap_setting a)
      in (a\<lparr>ap_setting := p\<rparr>, rs))"
| "app_answer OnPasswordChanged r a =
     (a\<lparr>ap_setting := Setting_onPasswordChanged (answer_bool r) (ap_setting a)\<rparr>, [])"
| "app_answer OnLocked r a = (Setting_onLocked (answer_bool r) a, [])"
| "app_answer OnDashboard r a = (a\<lparr>ap_dashboard := Dashboard_onHistory (answer_text r) (ap_dashboard a)\<rparr>, [])"
| "app_answer OnHistory r a = (a\<lparr>ap_history := History_onHistory (answer_text r) (ap_history a)\<rparr>, [])"
| "app_answer OnSettingsPassword r a = (a, [])"
| "app_answer OnSettingsToggled r a = (a, [])"

fun app_do :: "app_event \<Rightarrow> app \<Rightarrow> app \<times> ui_request list" where
  "app_do KeyLeft a = App_left a"
| "app_do KeyRight a = App_right a"
| "app_do KeyEscape a = (App_escape a, [])"
| "app_do (PreMenu i) a = (if i < 2 then a\<lparr>ap_preAuthPage := int i\<rparr> else a, [])"
| "app_do (PostMenu i) a = (if i < 6 then App_onPostAuthPageChanged (a\<lparr>ap_postAuthPage := int i\<rparr>) else (a, []))"
| "app_do Back a = (a\<lparr>ap_postAuthPage := 0\<rparr>, [])"
| "app_do (EditLogin u p) a = (a\<lparr>ap_login := (ap_login a)\<lparr>lo_username := u, lo_password := p\<rparr>\<rparr>, [])"
| "app_do PressLogin a = (let (p, rs) = Login_doLogin (ap_login a) in (a\<lparr>ap_login := p\<rparr>, rs))"
| "app_do (EditSignup u p c) a =
     (a\<lparr>ap_signup := (ap_signup a)\<lparr>su_username := u, su_password := p, su_confirmPassword := c\<rparr>\<rparr>, [])"
| "app_do PressCreate a = (let (p, rs) = Signup_doCreateAccount (ap_signup a) in (a\<lparr>ap_signup := p\<rparr>, rs))"
| "app_do (EditDeposit s) a = (a\<lparr>ap_deposit := (ap_deposit a)\<lparr>am_amountStr := s\<rparr>\<rparr>, [])"
| "app_do PressDeposit a =
     (let (p, rs) = Deposit_doDeposit (ap_username a) (ap_deposit a) in (a\<lparr>ap_deposit := p\<rparr>, rs))"
| "app_do (EditWithdraw s) a = (a\<lparr>ap_withdraw := (ap_withdraw a)\<lparr>am_amountStr := s\<rparr>\<rparr>, [])"
| "app_do AskWithdraw a = (a\<lparr>ap_withdraw := Withdraw_ask (ap_withdraw a)\<rparr>, [])"
| "app_do ConfirmWithdraw a =
     (let (p, rs) = Withdraw_confirm (ap_username a) (ap_withdraw a) in (a\<lparr>ap_withdraw := p\<rparr>, rs))"
| "app_do CancelWithdraw a = (a\<lparr>ap_withdraw := (ap_withdraw a)\<lparr>am_showConfirm := False\<rparr>\<rparr>, [])"
| "app_do (EditRecipient s) a =
     (let (p, rs) = Transfer_onRecipientChanged (ap_username a) ((ap_transfer a)\<lparr>tf_recipient := s\<rparr>)
      in (a\<lparr>ap_transfer := p\<rparr>, rs))"
| "app_do (EditTransferAmount s) a =
     (a\<lparr>ap_transfer := (ap_transfer a)\<lparr>tf_amountStr := s, tf_showSuggestions := False\<rparr>\<rparr>, [])"
| "app_do PickSuggestion a = (a\<lparr>ap_transfer := Transfer_pick (ap_transfer a)\<rparr>, [])"
| "app_do AskTransfer a =
     (a\<lparr>ap_transfer := Transfer_requestConfirmation (ap_username a) (ap_transfer a)\<rparr>, [])"
| "app_do ConfirmTransfer a =
     (let (p, rs) = Transfer_doTransfer (ap_username a) (ap_transfer a) in (a\<lparr>ap_transfer := p\<rparr>, rs))"
| "app_do CancelTransfer a = (a\<lparr>ap_transfer := (ap_transfer a)\<lparr>tf_showConfirm := False\<rparr>\<rparr>, [])"
| "app_do (EditSettings c n f) a =
     (a\<lparr>ap_setting := (ap_setting a)\<lparr>se_currentPassword := c, se_newPassword := n, se_confirmPassword := f\<rparr>\<rparr>, [])"
| "app_do PressChangePassword a =
     (let (p, rs) = Setting_doChangePassword (ap_username a) (ap_setting a) in (a\<lparr>ap_setting := p\<rparr>, rs))"
| "app_do AskLock a = (a\<lparr>ap_setting := (ap_setting a)\<lparr>se_showLockConfirm := True\<rparr>\<rparr>, [])"
| "app_do CancelLock a = (a\<lparr>ap_setting := (ap_setting a)\<lparr>se_showLockConfirm := False\<rparr>\<rparr>, [])"
| "app_do AskLogout a = (a\<lparr>ap_setting := (ap_setting a)\<lparr>se_showLogoutConfirm := True\<rparr>\<rparr>, [])"
| "app_do CancelLogout a = (a\<lparr>ap_setting := (ap_setting a)\<lparr>se_showLogoutConfirm := False\<rparr>\<rparr>, [])"
| "app_do PressLock a =
     (let (p, rs) = Setting_doLockAccount (ap_username a) (ap_setting a) in (a\<lparr>ap_setting := p\<rparr>, rs))"
| "app_do PressLogout a =
     (App_logout (a\<lparr>ap_setting := (ap_setting a)\<lparr>se_showLogoutConfirm := False\<rparr>\<rparr>), [])"
| "app_do (PressSort c) a = (a\<lparr>ap_history := History_click c (ap_history a)\<rparr>, [])"
| "app_do (EditSearch s) a = (a\<lparr>ap_history := (ap_history a)\<lparr>hp_searchStr := s\<rparr>\<rparr>, [])"
| "app_do PressRefresh a = (if ap_postAuthPage a = 0 then App_refreshDashboard a
     else if ap_postAuthPage a = 1 then App_refreshHistory a else (a, []))"
| "app_do (Answer h r) a = app_answer h r a"
| "app_do Disconnected a = (App_onDisconnect a, [])"

inductive app_run :: "app_event list \<Rightarrow> app \<Rightarrow> bool" where
  app_start: "app_run [] App_init"
| app_step: "app_run evs a \<Longrightarrow> app_run (evs @ [ev]) (fst (app_do ev a))"

definition app_inv :: "app \<Rightarrow> bool" where
  "app_inv a \<longleftrightarrow> ap_section a \<in> {0, 1} \<and> ap_preAuthPage a \<in> {0, 1}
     \<and> 0 \<le> ap_postAuthPage a \<and> ap_postAuthPage a \<le> 5"

lemma refresh_fields [simp]:
  "ap_section (fst (App_refreshDashboard a)) = ap_section a"
  "ap_preAuthPage (fst (App_refreshDashboard a)) = ap_preAuthPage a"
  "ap_postAuthPage (fst (App_refreshDashboard a)) = ap_postAuthPage a"
  "ap_section (fst (App_refreshHistory a)) = ap_section a"
  "ap_preAuthPage (fst (App_refreshHistory a)) = ap_preAuthPage a"
  "ap_postAuthPage (fst (App_refreshHistory a)) = ap_postAuthPage a"
  by (simp_all add: App_refreshDashboard_def App_refreshHistory_def split: prod.split)

lemma page_changed_fields [simp]:
  "ap_section (fst (App_onPostAuthPageChanged a)) = ap_section a"
  "ap_preAuthPage (fst (App_onPostAuthPageChanged a)) = ap_preAuthPage a"
  "ap_postAuthPage (fst (App_onPostAuthPageChanged a)) = ap_postAuthPage a"
  by (simp_all add: App_onPostAuthPageChanged_def)

lemma login_answer_fields:
  "ap_section (fst (Login_onAnswer ok a)) = (if ok then 1 else ap_section a)"
  "ap_preAuthPage (fst (Login_onAnswer ok a)) = ap_preAuthPage a"
  "ap_postAuthPage (fst (Login_onAnswer ok a)) = ap_postAuthPage a"
  by (simp_all add: Login_onAnswer_def Let_def case_prod_beta)

lemma app_answer_inv: "app_inv a \<Longrightarrow> app_inv (fst (app_answer h r a))"
  by (cases h) (auto simp: app_inv_def login_answer_fields Signup_onAnswer_def Setting_onLocked_def
      App_logout_def Let_def case_prod_beta)

lemma app_do_inv: "app_inv a \<Longrightarrow> app_inv (fst (app_do ev a))"
proof (cases ev)
  case (Answer h r)
  assume "app_inv a"
  with Answer show ?thesis by (simp add: app_answer_inv)
next
  case KeyLeft
  assume "app_inv a"
  with KeyLeft show ?thesis by (auto simp: app_inv_def App_left_def)
next
  case KeyRight
  assume "app_inv a"
  with KeyRight show ?thesis by (auto simp: app_inv_def App_right_def)
qed (auto simp: app_inv_def App_escape_def App_logout_def App_onDisconnect_def Let_def case_prod_beta)

section \<open>Properties\<close>

text \<open>
  Whatever the user and the server do, the application stays on a page it has: the section is the
  login or the account section, the page of each is one of its tabs. So the tab containers are never
  asked for a child that does not exist.
\<close>

lemma app_pages_in_range:
  assumes "app_run evs a"
  shows "ap_section a \<in> {0, 1} \<and> ap_preAuthPage a \<in> {0, 1} \<and> 0 \<le> ap_postAuthPage a \<and> ap_postAuthPage a \<le> 5"
proof -
  have "app_inv a" using assms
    by (induction rule: app_run.induct) (simp_all add: app_do_inv, simp add: app_inv_def App_init_def)
  then show ?thesis by (simp add: app_inv_def)
qed

lemma app_pages_in_range_witness:
  "ap_preAuthPage (fst (app_do KeyRight App_init)) \<in> {0, 1}"
  using app_pages_in_range [OF app_step [OF app_start, of KeyRight]] by simp

text \<open>
  C21: The account section opens only by a successful answer to a login or a sign-up, and losing the
  connection, logging out or locking the account closes it.
\<close>

lemma section_needs_login:
  assumes "ap_section a = 0" "ap_section (fst (app_do ev a)) \<noteq> 0"
  shows "(\<exists>r. answer_bool r \<and> (ev = Answer OnLogin r \<or> ev = Answer OnSignup r)) \<and>
    (\<forall>b ev'. ev' \<in> {Disconnected, PressLogout, Answer OnLocked (AnsBool True)} \<longrightarrow>
       ap_section (fst (app_do ev' b)) = 0 \<and> ap_postAuthPage (fst (app_do ev' b)) = 0)"
proof
  show "\<exists>r. answer_bool r \<and> (ev = Answer OnLogin r \<or> ev = Answer OnSignup r)"
  proof (cases ev)
    case (Answer h r)
    with assms show ?thesis
      by (cases h) (auto simp: login_answer_fields Signup_onAnswer_def Setting_onLocked_def
          App_logout_def Let_def case_prod_beta split: if_splits)
  qed (use assms in \<open>auto simp: App_left_def App_right_def App_escape_def App_logout_def App_onDisconnect_def
      Let_def case_prod_beta split: if_splits\<close>)
  show "\<forall>b ev'. ev' \<in> {Disconnected, PressLogout, Answer OnLocked (AnsBool True)} \<longrightarrow>
      ap_section (fst (app_do ev' b)) = 0 \<and> ap_postAuthPage (fst (app_do ev' b)) = 0"
    by (auto simp: App_onDisconnect_def App_logout_def Setting_onLocked_def Let_def)
qed

lemma section_needs_login_witness:
  "\<exists>r. answer_bool r \<and> (Answer OnLogin (AnsBool True) = Answer OnLogin r \<or> Answer OnLogin (AnsBool True) = Answer OnSignup r)"
proof -
  have "ap_section App_init = 0" by (simp add: App_init_def)
  moreover have "ap_section (fst (app_do (Answer OnLogin (AnsBool True)) App_init)) \<noteq> 0"
    by (simp add: login_answer_fields)
  ultimately show ?thesis using section_needs_login by blast
qed

text \<open>
  What the deposit form sends for a typed amount \<open>n\<close> up to the largest \<^verbatim>\<open>u64\<close>: a change by \<open>n\<close> when \<open>n\<close> is
  below \<open>2 ^ 63\<close>, and otherwise, by the cast to \<^verbatim>\<open>i64\<close>, a withdrawal of \<open>2 ^ 64 - n\<close>.
\<close>

lemma deposit_request_amount:
  assumes "0 < n" "n < 2 ^ 64"
  shows "\<exists>d. snd (Deposit_doDeposit u (p\<lparr>am_amountStr := string_of_nat n\<rparr>)) = [(OnDeposit, CChange u d)] \<and>
    sint d = (if n < 2 ^ 63 then int n else int n - 2 ^ 64)"
proof -
  let ?d = "word_of_nat n :: i64"
  have u: "unat ?d = n" using assms by (simp add: unat_of_nat take_bit_nat_eq_self)
  then have s: "stoull (string_of_nat n) = Some ?d" "?d \<noteq> 0"
    using stoull_string_of_u64 [of ?d] assms by (auto simp: string_of_u64_def)
  have sint_in: "sint (word_of_int k :: i64) = k" if "- (2 ^ 63) \<le> k" "k < 2 ^ 63" for k :: int
    using that by (simp add: int_word_sint)
  have "sint ?d = (if n < 2 ^ 63 then int n else int n - 2 ^ 64)"
  proof (cases "n < 2 ^ 63")
    case True
    then show ?thesis using sint_in [of "int n"] by simp
  next
    case False
    have eq: "(word_of_int (int n - 2 ^ 64) :: i64) = ?d" by simp
    have "sint (word_of_int (int n - 2 ^ 64) :: i64) = int n - 2 ^ 64"
      by (rule sint_in) (use False assms(2) in simp_all)
    then have "sint ?d = int n - 2 ^ 64" unfolding eq .
    then show ?thesis using False by simp
  qed
  with s show ?thesis by (simp add: Deposit_doDeposit_def)
qed

lemma deposit_request_amount_witness:
  "\<exists>d. snd (Deposit_doDeposit ''alice'' (Amount_init\<lparr>am_amountStr := string_of_nat (2 ^ 64 - 1)\<rparr>))
     = [(OnDeposit, CChange ''alice'' d)] \<and> sint d = - 1"
  using deposit_request_amount [of "2 ^ 64 - 1" "''alice''" Amount_init] by simp

text \<open>
  The suggestions for a recipient come from the bank: the answer to the empty search is cut back into
  exactly the account names (when no name holds a bar), and what is suggested are at most five of them,
  each with the typed prefix and never the user's own.
\<close>

lemma suggestions_from_directory:
  assumes "db_inv db" "\<forall>u \<in> fst ` set (db_data db). PIPE \<notin> set u"
  shows "\<exists>resp. snd (processItem e env (SearchUsersOp [] (Some cb)) db) = [(cb, RString resp)] \<and>
    (let p' = Transfer_onDirectory me (Some resp) p in
       tf_userCache p' = map fst (db_data db) \<and> length (tf_suggestions p') \<le> 5 \<and>
       set (tf_suggestions p') \<subseteq> {u. u \<in> fst ` set (db_data db) \<and> prefix (tf_recipient p) u \<and> u \<noteq> me})"
proof -
  let ?us = "map fst (db_data db)"
  have ne: "\<forall>u \<in> set ?us. u \<noteq> []" using assms(1) by (auto simp: db_inv_def account_ok_def)
  let ?f = "\<lambda>result (username :: string, _ :: user_state). (if result \<noteq> [] then result @ ''|'' else result) @ username"
  have fold: "acc \<noteq> [] \<Longrightarrow> foldl ?f acc m = acc @ concat (map (\<lambda>x. PIPE # fst x) m)" for acc m
    by (induction m arbitrary: acc) auto
  obtain resp where r: "snd (processItem e env (SearchUsersOp [] (Some cb)) db) = [(cb, RString resp)]"
    "resp = foldl (\<lambda>result (username, _). (if result \<noteq> [] then result @ ''|'' else result) @ username) [] (db_data db)"
    by (simp add: process_search_users_def post_def Let_def)
  have "pieces PIPE resp = ?us"
  proof (cases "db_data db")
    case Nil
    then show ?thesis by (simp add: r(2))
  next
    case (Cons x m)
    have "fst x \<noteq> []" using ne Cons by auto
    then have resp: "resp = fst x @ concat (map (\<lambda>x. PIPE # fst x) m)"
      using r(2) fold [of "fst x" m] Cons by (cases x) simp
    have "pieces PIPE (u @ concat (map (\<lambda>x. PIPE # fst x) m)) = u # map fst m"
      if "PIPE \<notin> set u" "u \<noteq> []" "\<forall>x \<in> set m. PIPE \<notin> set (fst x) \<and> fst x \<noteq> []" for u and m :: "(string \<times> user_state) list"
      using that by (induction m arbitrary: u) (simp_all add: pieces_last pieces_stop)
    then show ?thesis using resp Cons assms(2) ne by auto
  qed
  moreover have "resp = [] \<Longrightarrow> ?us = []" using calculation by (cases resp) auto
  ultimately have cache: "tf_userCache (Transfer_onDirectory me (Some resp) p) = ?us"
    by (auto simp: Transfer_onDirectory_def Transfer_filterSuggestions_def split_view_pieces Let_def)
  let ?p' = "Transfer_onDirectory me (Some resp) p"
  have "length (tf_suggestions ?p') \<le> 5 \<and>
      set (tf_suggestions ?p') \<subseteq> {u. u \<in> set (tf_userCache ?p') \<and> prefix (tf_recipient p) u \<and> u \<noteq> me}"
    by (auto simp: Transfer_onDirectory_def Transfer_filterSuggestions_def Let_def dest: in_set_takeD)
  with r(1) cache show ?thesis by (simp add: Let_def)
qed

lemma suggestions_from_directory_witness:
  "\<exists>resp. tf_userCache (Transfer_onDirectory ''bob'' (Some resp) Transfer_init) = [''alice'', ''bob'']"
  using suggestions_from_directory [OF example_db_inv, of Little example_env "()" "''bob''" Transfer_init]
  by (auto simp: example_db_def Let_def)

end
