(* ===== verification/Money.thy ===== *)
theory Money
  imports Bank
begin

text \<open>
  The books of the bank in exact arithmetic. The invariant of the table in \<open>Bank\<close> compares 64-bit words,
  so it cannot see a balance that wraps; here the entries of an account are read as integers, and the
  table has exact books when every entry's balance is the previous one plus the entry's amount and
  the amounts add up to the balance. Every work item keeps that as long as its amount is in the
  range where the C++ arithmetic is defined and no balance leaves 64 bits.
\<close>

section \<open>Exact books\<close>









section \<open>The operations\<close>






section \<open>Every item\<close>








section \<open>Property\<close>



end
