(* ===== verification/Persistence.thy ===== *)
theory Persistence
  imports Bank
begin

text \<open>
  What the manager's queue and its files promise together: submitted items are processed in order,
  whatever the interleaving; a save followed by a load gives the same accounts; a shutdown works off
  the queue and leaves files from which the next start sees every processed item.
\<close>

lemma account_ok_storable: "account_ok u st \<Longrightarrow> storable (u, st)"
proof -
  assume ok: "account_ok u st"
  then have "length (u @ ''.log'') \<le> 31" "NUL \<notin> set (u @ ''.log'')"
    using safe_name [of u] by (auto simp: account_ok_def)
  with ok show "storable (u, st)" unfolding storable_def account_ok_def
    by (auto intro!: exI [of _ "u @ ''.log''"])
qed

lemma db_inv_storable: "db_inv db \<Longrightarrow> \<forall>x \<in> set (db_data db). storable x"
  by (auto simp: db_inv_def account_ok_storable)

lemma run_items_db_inv: "db_inv db \<Longrightarrow> db_inv (fst (run_items e xs db))"
proof (induction xs arbitrary: db)
  case (Cons x xs)
  obtain env item where x: "x = (env, item)" by (cases x)
  have "db_inv (fst (run_items e xs (fst (processItem e env item db))))"
    by (rule Cons.IH) (rule db_inv_processItem [OF Cons.prems])
  then show ?case by (simp add: x Let_def case_prod_beta)
qed simp

text \<open>
  C8: Whatever the interleaving of submissions, worker rounds and timer firings, the manager has at every
  moment processed a prefix of the submitted items in the order they were submitted, as if one after the
  other with nothing between, and posted their answers in that order; the rest is the queue.
\<close>

lemma manager_is_sequential:
  fixes m :: "'cb manager"
  assumes "manager_run e evs (DbManager_init e files) m"
  shows "\<exists>items. concat (map submitted evs) = items @ dm_queue m
      \<and> length items = length (concat (map rounds evs))
      \<and> (dm_db m, dm_io m) = run_items e (zip (concat (map rounds evs)) items) (dm_db (DbManager_init e files :: 'cb manager))"
proof -
  have "dm_queue (DbManager_init e files :: 'cb manager) = []" "dm_io (DbManager_init e files :: 'cb manager) = []"
    by (simp_all add: DbManager_init_def Let_def)
  from manager_run_sequential [OF assms this] show ?thesis by blast
qed

lemma manager_is_sequential_witness:
  "\<exists>m. dm_io (m :: nat manager) = [(7, RU64 0)] \<and>
     (\<exists>items. concat (map submitted [Submit (GetBalanceOp ''alice'' (Some 7)), Round example_env]) = items @ dm_queue m)"
proof -
  let ?i = "DbManager_init Little (\<lambda>_. None) :: nat manager"
  let ?item = "GetBalanceOp ''alice'' (Some (7 :: nat))"
  let ?m = "?i\<lparr>dm_io := [(7, RU64 0)]\<rparr>"
  have "dbLoop_round Little example_env (enqueue ?item ?i) = Worked ?m"
    by (simp add: dbLoop_round_def enqueue_def DbManager_init_def db_load_def process_get_balance_def
        map_find_def post_def Let_def)
  then have "manager_run Little ([] @ [Submit ?item] @ [Round example_env]) ?i ?m"
    unfolding append_assoc [symmetric] by (intro manager_run.intros) (auto intro: manager_run.intros)
  from manager_is_sequential [OF this] show ?thesis by (intro exI [of _ ?m]) auto
qed

lemma load_save_inv:
  assumes "db_inv db" "env_open env DatabasePath" "\<forall>(u, st) \<in> set (db_data db). env_open env (txn_path u)"
  shows "db_data (db_load e ((db_save e env db)\<lparr>db_data := []\<rparr>)) = db_data db"
  using assms db_inv_storable [OF assms(1)] by (intro load_save) (auto simp: db_inv_def)

text \<open>
  C6: Saving and loading again gives back every account with its password, balance, lock, log file and
  transactions, on either byte order, when the table is well formed and the files could be opened.
\<close>

lemma load_after_save:
  assumes "db_inv db" "env_open env DatabasePath" "\<forall>(u, st) \<in> set (db_data db). env_open env (txn_path u)"
  shows "db_data (db_load e ((db_save e env db)\<lparr>db_data := []\<rparr>)) = db_data db"
  using assms by (rule load_save_inv)

lemma load_after_save_witness:
  "db_data (db_load Big ((db_save Big example_env example_db)\<lparr>db_data := []\<rparr>)) = db_data example_db"
  by (rule load_after_save) (simp_all add: example_db_inv example_env_def split: prod.split)

text \<open>
  C5: When the table is well formed and every file can be opened at the moment of the save (\<^verbatim>\<open>save\<close> returns
  without a word when it cannot open the database file), destroying the manager processes everything that
  was still queued, in order, and saves: a manager started on the files it leaves behind has exactly the
  accounts that the queued items produced, even if the last save timer had not fired.
\<close>

lemma restart_after_shutdown:
  fixes m :: "'cb manager"
  assumes inv: "db_inv (dm_db m)" and op: "\<forall>p. env_open env p"
  shows "\<exists>envs'. length envs' = length (dm_queue m) \<and>
     (let m' = DbManager_destroy e envs env m
      in dm_queue m' = [] \<and>
         db_data (dm_db m') = db_data (fst (run_items e (zip envs' (dm_queue m)) (dm_db m))) \<and>
         db_data (dm_db (DbManager_init e (db_files (dm_db m')) :: 'cb manager)) = db_data (dm_db m'))"
proof -
  let ?m = "m\<lparr>dm_timer := False, dm_running := False\<rparr>"
  from dbLoop_drains [of ?m e envs] obtain envs' where l: "length envs' = length (dm_queue m)" and
    D: "let (db, posted) = run_items e (zip envs' (dm_queue ?m)) (dm_db ?m)
      in dbLoop e envs ?m = ?m\<lparr>dm_queue := [], dm_db := db, dm_io := dm_io ?m @ posted\<rparr>"
    by auto
  let ?db = "fst (run_items e (zip envs' (dm_queue m)) (dm_db m))"
  let ?m' = "DbManager_destroy e envs env m"
  have m': "dm_queue ?m' = []" "dm_db ?m' = db_save e env ?db"
    using D by (simp_all add: DbManager_destroy_def Let_def case_prod_beta)
  have inv': "db_inv ?db" by (rule run_items_db_inv [OF inv])
  have same: "db_data (db_load e db1) = db_data (db_load e db2)"
    if "db_files db1 = db_files db2" "db_data db1 = db_data db2" for db1 db2
    using that by (simp add: db_load_def Let_def split: option.split)
  have "db_data (dm_db (DbManager_init e (db_files (dm_db ?m')) :: 'cb manager))
      = db_data (db_load e ((db_save e env ?db)\<lparr>db_data := []\<rparr>))"
    unfolding DbManager_init_def Let_def by (simp, rule same) (simp_all add: m')
  also have "\<dots> = db_data ?db" using inv' op by (intro load_save_inv) auto
  also have "\<dots> = db_data (dm_db ?m')" by (simp add: m' db_save_def Let_def)
  finally show ?thesis using l m' by (intro exI [of _ envs']) (simp add: db_save_def Let_def)
qed

lemma restart_after_shutdown_witness:
  "\<exists>db. db_inv db \<and> db_data (dm_db (DbManager_init Little (db_files (dm_db (DbManager_destroy Little (\<lambda>_. example_env)
      example_env \<lparr>dm_db = example_db, dm_queue = [ToggleAccountOp ''bob'' (Some ())], dm_running = True,
        dm_timer = True, dm_io = []\<rparr>))) :: unit manager)) = db_data db"
proof -
  let ?m = "\<lparr>dm_db = example_db, dm_queue = [ToggleAccountOp ''bob'' (Some ())], dm_running = True,
        dm_timer = True, dm_io = []\<rparr> :: unit manager"
  have "db_inv (dm_db ?m)" "\<forall>p. env_open example_env p" by (simp_all add: example_db_inv example_env_def)
  from restart_after_shutdown [OF this, of Little "\<lambda>_. example_env"]
  obtain envs' where "length envs' = length (dm_queue ?m)"
    "db_data (dm_db (DbManager_init Little (db_files (dm_db (DbManager_destroy Little (\<lambda>_. example_env) example_env ?m))) :: unit manager))
      = db_data (fst (run_items Little (zip envs' (dm_queue ?m)) (dm_db ?m)))"
    by (auto simp: Let_def)
  then show ?thesis using run_items_db_inv [OF example_db_inv] by (intro exI) auto
qed

end
