(* ===== verification/Memory.thy ===== *)
theory Memory
  imports Prelude
begin

text \<open>
  Buffers of raw memory, as the containers of \<^verbatim>\<open>libs/base\<close> use them: a buffer is a list of cells, each
  raw (\<open>None\<close>) or holding a live object. Construction needs a raw cell, destruction, reading and
  assignment a live one, and a buffer is returned to the allocator only when all its cells are raw;
  anything else is the error \<open>Undefined\<close>. A theorem that an operation returns therefore also says that
  it reads no dead object, leaks none and stays inside its buffer. The standard library's allocator
  is asked for at most \<open>mx\<close> cells at a time, and answers a larger request with \<open>BadAlloc\<close>. Sizes are
  natural numbers: \<^verbatim>\<open>usize\<close> does not wrap below \<open>mx\<close>.

  The element type enters through what \<^verbatim>\<open>std::move\<close> leaves behind, a function \<open>mv\<close>: the identity for a
  type that is copied, the empty string for \<^verbatim>\<open>base::String\<close>.
\<close>

section \<open>Results\<close>

datatype mem_error = OutOfRange | BadAlloc | Undefined

type_synonym 'a res = "mem_error + 'a"
type_synonym 'a cells = "'a option list"

definition and_then :: "'e + 'a \<Rightarrow> ('a \<Rightarrow> 'e + 'b) \<Rightarrow> 'e + 'b" where
  "and_then r f = (case r of Inl e \<Rightarrow> Inl e | Inr x \<Rightarrow> f x)"

lemma and_then_simps [simp]: "and_then (Inr x) f = f x" "and_then (Inl e) f = Inl e"
  by (simp_all add: and_then_def)

text \<open>A \<^verbatim>\<open>for\<close> loop over the given indices.\<close>

fun for_each :: "nat list \<Rightarrow> (nat \<Rightarrow> 's \<Rightarrow> 'e + 's) \<Rightarrow> 's \<Rightarrow> 'e + 's" where
  "for_each [] body s = Inr s"
| "for_each (i # is) body s = and_then (body i s) (for_each is body)"

lemma for_each_append:
  "for_each (is @ js) body s = and_then (for_each is body s) (for_each js body)"
  by (induction "is" arbitrary: s) (auto simp: and_then_def split: sum.split)

lemma for_each_up:
  assumes "a \<le> b" and step: "\<And>i. a \<le> i \<Longrightarrow> i < b \<Longrightarrow> body i (S i) = Inr (S (Suc i))"
  shows "for_each [a..<b] body (S a) = Inr (S b)"
  using assms
proof (induction b)
  case (Suc b)
  show ?case
  proof (cases "a = Suc b")
    case False
    then have "a \<le> b" using Suc.prems by simp
    then show ?thesis using Suc by (simp add: for_each_append)
  qed simp
qed simp

lemma for_each_down:
  assumes "a \<le> b" and step: "\<And>i. a \<le> i \<Longrightarrow> i < b \<Longrightarrow> body i (S (Suc i)) = Inr (S i)"
  shows "for_each (rev [a..<b]) body (S b) = Inr (S a)"
  using assms
proof (induction b)
  case (Suc b)
  show ?case
  proof (cases "a = Suc b")
    case False
    then have "a \<le> b" using Suc.prems by simp
    then show ?thesis using Suc by simp
  qed simp
qed simp

section \<open>Cells\<close>

definition allocate :: "nat \<Rightarrow> nat \<Rightarrow> 'a cells res" where
  "allocate mx n = (if n > mx then Inl BadAlloc else Inr (replicate n None))"

definition deallocate :: "'a cells \<Rightarrow> unit res" where
  "deallocate s = (if list_all (\<lambda>c. c = None) s then Inr () else Inl Undefined)"

definition construct :: "'a cells \<Rightarrow> nat \<Rightarrow> 'a \<Rightarrow> 'a cells res" where
  "construct s i x = (if i < length s \<and> s ! i = None then Inr (s[i := Some x]) else Inl Undefined)"

definition destroy :: "'a cells \<Rightarrow> nat \<Rightarrow> 'a cells res" where
  "destroy s i = (if i < length s \<and> s ! i \<noteq> None then Inr (s[i := None]) else Inl Undefined)"

definition cell_get :: "'a cells \<Rightarrow> nat \<Rightarrow> 'a res" where
  "cell_get s i = (if i < length s then case s ! i of Some x \<Rightarrow> Inr x | None \<Rightarrow> Inl Undefined
                   else Inl Undefined)"

definition cell_assign :: "'a cells \<Rightarrow> nat \<Rightarrow> 'a \<Rightarrow> 'a cells res" where
  "cell_assign s i x = (if i < length s \<and> s ! i \<noteq> None then Inr (s[i := Some x]) else Inl Undefined)"

text \<open>\<^verbatim>\<open>std::move(s[i])\<close>, read into another object: the value, and the buffer with the moved-from object.\<close>

definition move_out :: "('a \<Rightarrow> 'a) \<Rightarrow> 'a cells \<Rightarrow> nat \<Rightarrow> ('a \<times> 'a cells) res" where
  "move_out mv s i = and_then (cell_get s i) (\<lambda>x. Inr (x, s[i := Some (mv x)]))"

definition destroy_range :: "nat \<Rightarrow> nat \<Rightarrow> 'a cells \<Rightarrow> 'a cells res" where
  "destroy_range a b s = for_each [a..<b] (\<lambda>i s. destroy s i) s"

section \<open>Tables\<close>

text \<open>Buffers described cell by cell.\<close>

definition tab :: "nat \<Rightarrow> (nat \<Rightarrow> 'b) \<Rightarrow> 'b list" where
  "tab n f = map f [0..<n]"

lemma length_tab [simp]: "length (tab n f) = n"
  by (simp add: tab_def)

lemma nth_tab [simp]: "i < n \<Longrightarrow> tab n f ! i = f i"
  by (simp add: tab_def)

lemma tab_Nil [simp]: "tab n f = [] \<longleftrightarrow> n = 0" "tab 0 f = []"
  by (simp_all add: tab_def)

lemma update_tab: "(tab n f)[i := x] = tab n (f(i := x))"
  by (rule nth_equalityI) (auto simp: nth_list_update)

lemma tab_cong: "n = m \<Longrightarrow> (\<And>i. i < n \<Longrightarrow> f i = g i) \<Longrightarrow> tab n f = tab m g"
  by (auto simp: tab_def)

lemma tab_nth: "tab (length xs) (\<lambda>i. xs ! i) = xs"
  by (simp add: tab_def map_nth)

lemma replicate_tab: "replicate n x = tab n (\<lambda>_. x)"
  by (simp add: tab_def map_replicate_const)

lemma list_all_tab: "list_all P (tab n f) \<longleftrightarrow> (\<forall>i<n. P (f i))"
  by (auto simp: tab_def list_all_iff)

lemmas cell_defs = construct_def destroy_def cell_get_def cell_assign_def move_out_def

lemma construct_tab: "i < n \<Longrightarrow> f i = None \<Longrightarrow> construct (tab n f) i x = Inr (tab n (f(i := Some x)))"
  by (simp add: cell_defs update_tab)

lemma destroy_tab: "i < n \<Longrightarrow> f i = Some x \<Longrightarrow> destroy (tab n f) i = Inr (tab n (f(i := None)))"
  by (simp add: cell_defs update_tab)

lemma get_tab: "i < n \<Longrightarrow> f i = Some x \<Longrightarrow> cell_get (tab n f) i = Inr x"
  by (simp add: cell_defs)

lemma assign_tab: "i < n \<Longrightarrow> f i = Some y \<Longrightarrow> cell_assign (tab n f) i x = Inr (tab n (f(i := Some x)))"
  by (simp add: cell_defs update_tab)

lemma move_tab:
  "i < n \<Longrightarrow> f i = Some x \<Longrightarrow> move_out mv (tab n f) i = Inr (x, tab n (f(i := Some (mv x))))"
  by (simp add: cell_defs update_tab)

lemmas cell_tabs = construct_tab destroy_tab get_tab assign_tab move_tab

lemma destroy_range_tab:
  assumes "a \<le> b" "b \<le> n" "\<And>i. a \<le> i \<Longrightarrow> i < b \<Longrightarrow> f i \<noteq> None"
  shows "destroy_range a b (tab n f) = Inr (tab n (\<lambda>i. if a \<le> i \<and> i < b then None else f i))"
proof -
  let ?S = "\<lambda>k. tab n (\<lambda>i. if a \<le> i \<and> i < k then None else f i)"
  have "for_each [a..<b] (\<lambda>i s. destroy s i) (?S a) = Inr (?S b)"
  proof (rule for_each_up)
    fix i assume i: "a \<le> i" "i < b"
    then obtain x where "f i = Some x" using assms(3) by blast
    then show "destroy (?S i) i = Inr (?S (Suc i))"
      using i assms by (simp add: destroy_tab) (auto intro!: tab_cong)
  qed (use assms in simp)
  moreover have "?S a = tab n f" by (rule tab_cong) auto
  ultimately show ?thesis by (simp add: destroy_range_def)
qed

lemma deallocate_tab: "(\<And>i. i < n \<Longrightarrow> f i = None) \<Longrightarrow> deallocate (tab n f) = Inr ()"
  by (simp add: deallocate_def list_all_tab)

section \<open>Containers that grow at the end\<close>

text \<open>
  What \<^verbatim>\<open>base::Vector\<close> and \<^verbatim>\<open>base::BasicString\<close> promise of \<^verbatim>\<open>push_back\<close>: it appends the element, or fails
  because the allocator refuses, which leaves nothing else to go wrong. The loops of the program that fill a
  container need no more.
\<close>

locale growable =
  fixes seq :: "'v \<Rightarrow> 'a list"
    and ok :: "'v \<Rightarrow> bool"
    and push :: "'a \<Rightarrow> 'v \<Rightarrow> 'v res"
    and may_refuse :: "'v \<Rightarrow> bool"
  assumes push_appends: "ok v \<Longrightarrow> \<not> may_refuse v \<Longrightarrow> \<exists>v'. push x v = Inr v' \<and> ok v' \<and> seq v' = seq v @ [x]"
    and push_refused: "ok v \<Longrightarrow> may_refuse v \<Longrightarrow> push x v = Inl BadAlloc"
begin

lemma push_cases:
  assumes "ok v"
  obtains "push x v = Inl BadAlloc" | v' where "push x v = Inr v'" "ok v'" "seq v' = seq v @ [x]"
  using assms push_appends push_refused by blast

lemma push_never_undefined: "ok v \<Longrightarrow> push x v \<noteq> Inl Undefined"
  by (metis mem_error.distinct(5) push_cases sum.inject(1) sum.distinct(1))

lemma push_all:
  assumes "ok v"
  shows "for_each is (\<lambda>i. push (f i)) v = Inl BadAlloc
    \<or> (\<exists>v'. for_each is (\<lambda>i. push (f i)) v = Inr v' \<and> ok v' \<and> seq v' = seq v @ map f is)"
  using assms
proof (induction "is" arbitrary: v)
  case (Cons i "is")
  from \<open>ok v\<close> show ?case
  proof (cases rule: push_cases[of v "f i"])
    case (2 v')
    then show ?thesis using Cons.IH[of v'] by auto
  qed simp_all
qed simp

end

end
