(* ===== verification/Vector.thy ===== *)
theory Vector
  imports Memory
begin

text \<open>
  The growable array of \<^verbatim>\<open>libs/base/vector.hpp\<close>: the buffer, the number of live objects and the
  capacity (a null \<^verbatim>\<open>_data\<close> is the empty buffer), one definition per operation, and the proof that
  each implements the operation of the same name on lists, in the sense of the buffer model of
  \<open>Memory\<close>: nothing dead is read, nothing is leaked.

  The operations take the allocator's limit \<open>mx\<close> and the moved-from state \<open>mv\<close> of the elements.
  \<^verbatim>\<open>std::move_if_noexcept\<close> copies when moving can throw; that is \<open>mv = id\<close>. The element type's own
  copies and moves do not throw, and an argument passed by reference does not point into the vector.
\<close>

section \<open>The representation\<close>

record 'a vec =
  v_data :: "'a cells"
  v_size :: nat
  v_cap :: nat

definition vec_empty :: "'a vec" where
  "vec_empty = \<lparr>v_data = [], v_size = 0, v_cap = 0\<rparr>"

definition vec_GrowthFactor :: nat where "vec_GrowthFactor = 2"
definition InitialCapacity :: nat where "InitialCapacity = 1"

definition vec_deallocate_all :: "'a vec \<Rightarrow> 'a vec res" where
  "vec_deallocate_all v =
     (if v_data v \<noteq> [] then
        and_then (destroy_range 0 (v_size v) (v_data v)) (\<lambda>d.
        and_then (deallocate d) (\<lambda>_.
        Inr (v\<lparr>v_data := [], v_size := 0, v_cap := 0\<rparr>)))
      else Inr v)"

definition vec_transfer_to :: "('a \<Rightarrow> 'a) \<Rightarrow> 'a cells \<Rightarrow> nat \<Rightarrow> 'a vec \<Rightarrow> 'a vec res" where
  "vec_transfer_to mv new_data new_cap v =
     and_then (for_each [0..<v_size v]
                 (\<lambda>idx (d, new). and_then (move_out mv d idx) (\<lambda>(x, d).
                                 and_then (construct new idx x) (\<lambda>new. Inr (d, new))))
                 (v_data v, new_data)) (\<lambda>(d, new).
     and_then (destroy_range 0 (v_size v) d) (\<lambda>d.
     and_then (deallocate d) (\<lambda>_.
     Inr (v\<lparr>v_data := new, v_cap := new_cap\<rparr>))))"

definition vec_reserve :: "nat \<Rightarrow> ('a \<Rightarrow> 'a) \<Rightarrow> nat \<Rightarrow> 'a vec \<Rightarrow> 'a vec res" where
  "vec_reserve mx mv new_cap v =
     (if new_cap \<le> v_cap v then Inr v
      else and_then (allocate mx new_cap) (\<lambda>new. vec_transfer_to mv new new_cap v))"

definition vec_shrink_to_fit :: "nat \<Rightarrow> ('a \<Rightarrow> 'a) \<Rightarrow> 'a vec \<Rightarrow> 'a vec res" where
  "vec_shrink_to_fit mx mv v =
     (if v_size v = v_cap v then Inr v
      else if v_size v = 0 then vec_deallocate_all v
      else and_then (allocate mx (v_size v)) (\<lambda>new. vec_transfer_to mv new (v_size v) v))"

definition vec_clear :: "'a vec \<Rightarrow> 'a vec res" where
  "vec_clear v = and_then (destroy_range 0 (v_size v) (v_data v)) (\<lambda>d. Inr (v\<lparr>v_data := d, v_size := 0\<rparr>))"

section \<open>Appending\<close>

text \<open>The new capacity when the buffer is full, in \<^verbatim>\<open>push_back\<close>, \<^verbatim>\<open>emplace\<close> and the loops of the constructors.\<close>

definition grown :: "nat \<Rightarrow> nat" where
  "grown c = (if c = 0 then InitialCapacity else c * vec_GrowthFactor)"

definition vec_push_back :: "nat \<Rightarrow> ('a \<Rightarrow> 'a) \<Rightarrow> 'a \<Rightarrow> 'a vec \<Rightarrow> 'a vec res" where
  "vec_push_back mx mv x v =
     and_then (if v_size v = v_cap v then vec_reserve mx mv (grown (v_cap v)) v else Inr v) (\<lambda>v.
     and_then (construct (v_data v) (v_size v) x) (\<lambda>d.
     Inr (v\<lparr>v_data := d, v_size := v_size v + 1\<rparr>)))"

text \<open>\<^verbatim>\<open>emplace_back\<close> also returns a reference to the new element: here its value.\<close>

definition vec_emplace_back :: "nat \<Rightarrow> ('a \<Rightarrow> 'a) \<Rightarrow> 'a \<Rightarrow> 'a vec \<Rightarrow> ('a \<times> 'a vec) res" where
  "vec_emplace_back mx mv x v =
     and_then (vec_push_back mx mv x v) (\<lambda>v.
     and_then (cell_get (v_data v) (v_size v - 1)) (\<lambda>y. Inr (y, v)))"

definition vec_pop_back :: "'a vec \<Rightarrow> 'a vec res" where
  "vec_pop_back v =
     (if v_size v = 0 then Inl Undefined
      else and_then (destroy (v_data v) (v_size v - 1)) (\<lambda>d. Inr (v\<lparr>v_data := d, v_size := v_size v - 1\<rparr>)))"

section \<open>Access\<close>

definition vec_index :: "'a vec \<Rightarrow> nat \<Rightarrow> 'a res" where
  "vec_index v pos = cell_get (v_data v) pos"

definition vec_at :: "'a vec \<Rightarrow> nat \<Rightarrow> 'a res" where
  "vec_at v pos = (if pos \<ge> v_size v then Inl OutOfRange else cell_get (v_data v) pos)"

definition vec_front :: "'a vec \<Rightarrow> 'a res" where
  "vec_front v = cell_get (v_data v) 0"

definition vec_back :: "'a vec \<Rightarrow> 'a res" where
  "vec_back v = (if v_size v = 0 then Inl Undefined else cell_get (v_data v) (v_size v - 1))"

definition vec_is_empty :: "'a vec \<Rightarrow> bool" where
  "vec_is_empty v \<longleftrightarrow> v_size v = 0"

section \<open>Inserting and erasing in the middle\<close>

text \<open>A position is an index into the buffer. The result holds the position of the new element.\<close>

definition vec_emplace_full :: "nat \<Rightarrow> ('a \<Rightarrow> 'a) \<Rightarrow> nat \<Rightarrow> 'a \<Rightarrow> 'a vec \<Rightarrow> (nat \<times> 'a vec) res" where
  "vec_emplace_full mx mv idx x v =
     (let move_to = \<lambda>src dst (d, new). and_then (move_out mv d src) (\<lambda>(y, d).
                      and_then (construct new dst y) (\<lambda>new. Inr (d, new)))
      in and_then (allocate mx (grown (v_cap v))) (\<lambda>new_data.
         and_then (for_each [0..<idx] (\<lambda>i. move_to i i) (v_data v, new_data)) (\<lambda>(d, new).
         and_then (construct new idx x) (\<lambda>new.
         and_then (for_each [idx + 1..<v_size v + 1] (\<lambda>i. move_to (i - 1) i) (d, new)) (\<lambda>(d, new).
         and_then (destroy_range 0 (v_size v) d) (\<lambda>d.
         and_then (deallocate d) (\<lambda>_.
         Inr (idx, v\<lparr>v_data := new, v_cap := grown (v_cap v), v_size := v_size v + 1\<rparr>))))))))"

definition vec_emplace_spare :: "('a \<Rightarrow> 'a) \<Rightarrow> nat \<Rightarrow> 'a \<Rightarrow> 'a vec \<Rightarrow> (nat \<times> 'a vec) res" where
  "vec_emplace_spare mv idx x v =
     (if v_size v = 0 then Inl Undefined else
      and_then (move_out mv (v_data v) (v_size v - 1)) (\<lambda>(y, d).
      and_then (construct d (v_size v) y) (\<lambda>d.
      and_then (for_each (rev [idx + 1..<v_size v + 1])
                 (\<lambda>p d. and_then (move_out mv d (p - 1)) (\<lambda>(y, d). cell_assign d p y)) d) (\<lambda>d.
      and_then (destroy d idx) (\<lambda>d.
      and_then (construct d idx x) (\<lambda>d.
      Inr (idx, v\<lparr>v_data := d, v_size := v_size v + 1\<rparr>)))))))"

definition vec_emplace :: "nat \<Rightarrow> ('a \<Rightarrow> 'a) \<Rightarrow> nat \<Rightarrow> 'a \<Rightarrow> 'a vec \<Rightarrow> (nat \<times> 'a vec) res" where
  "vec_emplace mx mv idx x v =
     (if v_size v = v_cap v then vec_emplace_full mx mv idx x v else vec_emplace_spare mv idx x v)"

definition vec_insert :: "nat \<Rightarrow> ('a \<Rightarrow> 'a) \<Rightarrow> nat \<Rightarrow> 'a \<Rightarrow> 'a vec \<Rightarrow> (nat \<times> 'a vec) res" where
  "vec_insert mx mv idx x v = vec_emplace mx mv idx x v"

definition vec_erase :: "('a \<Rightarrow> 'a) \<Rightarrow> nat \<Rightarrow> 'a vec \<Rightarrow> (nat \<times> 'a vec) res" where
  "vec_erase mv idx v =
     and_then (destroy (v_data v) idx) (\<lambda>d.
     and_then (for_each [idx + 1..<v_size v]
                 (\<lambda>q d. and_then (move_out mv d q) (\<lambda>(y, d).
                        and_then (construct d (q - 1) y) (\<lambda>d. destroy d q))) d) (\<lambda>d.
     Inr (idx, v\<lparr>v_data := d, v_size := v_size v - 1\<rparr>)))"

definition vec_erase_range :: "('a \<Rightarrow> 'a) \<Rightarrow> nat \<Rightarrow> nat \<Rightarrow> 'a vec \<Rightarrow> (nat \<times> 'a vec) res" where
  "vec_erase_range mv a b v =
     (if a = b then Inr (a, v) else
      let n = b - a in
      and_then (destroy_range a b (v_data v)) (\<lambda>d.
      and_then (for_each [b..<v_size v]
                 (\<lambda>p d. and_then (move_out mv d p) (\<lambda>(y, d).
                        and_then (construct d (p - n) y) (\<lambda>d. destroy d p))) d) (\<lambda>d.
      Inr (a, v\<lparr>v_data := d, v_size := v_size v - n\<rparr>))))"

section \<open>Sizing, assignment, construction\<close>

definition construct_fill :: "nat \<Rightarrow> nat \<Rightarrow> 'a \<Rightarrow> 'a cells \<Rightarrow> 'a cells res" where
  "construct_fill a b x d = for_each [a..<b] (\<lambda>i d. construct d i x) d"

definition vec_resize :: "nat \<Rightarrow> ('a \<Rightarrow> 'a) \<Rightarrow> nat \<Rightarrow> 'a \<Rightarrow> 'a vec \<Rightarrow> 'a vec res" where
  "vec_resize mx mv n x v =
     and_then (if n < v_size v then
                 and_then (destroy_range n (v_size v) (v_data v)) (\<lambda>d. Inr (v\<lparr>v_data := d\<rparr>))
               else if n > v_size v then
                 and_then (vec_reserve mx mv n v) (\<lambda>v.
                 and_then (construct_fill (v_size v) n x (v_data v)) (\<lambda>d. Inr (v\<lparr>v_data := d\<rparr>)))
               else Inr v) (\<lambda>v.
     Inr (v\<lparr>v_size := n\<rparr>))"

text \<open>\<^verbatim>\<open>resize(count)\<close> fills with value-initialised elements \<open>dflt\<close>.\<close>

definition vec_resize_default :: "nat \<Rightarrow> ('a \<Rightarrow> 'a) \<Rightarrow> 'a \<Rightarrow> nat \<Rightarrow> 'a vec \<Rightarrow> 'a vec res" where
  "vec_resize_default mx mv dflt n v = vec_resize mx mv n dflt v"

definition vec_fill :: "nat \<Rightarrow> ('a \<Rightarrow> 'a) \<Rightarrow> nat \<Rightarrow> 'a \<Rightarrow> 'a vec res" where
  "vec_fill mx mv n x =
     and_then (vec_reserve mx mv n vec_empty) (\<lambda>v.
     and_then (construct_fill 0 n x (v_data v)) (\<lambda>d. Inr (v\<lparr>v_data := d, v_size := n\<rparr>)))"

definition vec_assign :: "nat \<Rightarrow> ('a \<Rightarrow> 'a) \<Rightarrow> nat \<Rightarrow> 'a \<Rightarrow> 'a vec \<Rightarrow> 'a vec res" where
  "vec_assign mx mv n x v =
     and_then (vec_clear v) (\<lambda>v.
     and_then (vec_reserve mx mv n v) (\<lambda>v.
     and_then (construct_fill 0 n x (v_data v)) (\<lambda>d. Inr (v\<lparr>v_data := d, v_size := n\<rparr>))))"

text \<open>The loop that appends a range, checking the capacity each time.\<close>

fun vec_append :: "nat \<Rightarrow> ('a \<Rightarrow> 'a) \<Rightarrow> 'a list \<Rightarrow> 'a vec \<Rightarrow> 'a vec res" where
  "vec_append mx mv [] v = Inr v"
| "vec_append mx mv (x # xs) v =
     and_then (if v_size v = v_cap v then vec_reserve mx mv (grown (v_cap v)) v else Inr v) (\<lambda>v.
     and_then (construct (v_data v) (v_size v) x) (\<lambda>d.
     vec_append mx mv xs (v\<lparr>v_data := d, v_size := v_size v + 1\<rparr>)))"

definition vec_of_range :: "nat \<Rightarrow> ('a \<Rightarrow> 'a) \<Rightarrow> 'a list \<Rightarrow> 'a vec res" where
  "vec_of_range mx mv xs =
     and_then (vec_reserve mx mv (length xs) vec_empty) (\<lambda>v. vec_append mx mv xs v)"

text \<open>The constructor from an initializer list reserves once and then constructs without asking again.\<close>

fun vec_construct_all :: "'a list \<Rightarrow> 'a vec \<Rightarrow> 'a vec res" where
  "vec_construct_all [] v = Inr v"
| "vec_construct_all (x # xs) v =
     and_then (construct (v_data v) (v_size v) x) (\<lambda>d.
     vec_construct_all xs (v\<lparr>v_data := d, v_size := v_size v + 1\<rparr>))"

definition vec_of_init :: "nat \<Rightarrow> ('a \<Rightarrow> 'a) \<Rightarrow> 'a list \<Rightarrow> 'a vec res" where
  "vec_of_init mx mv xs = and_then (vec_reserve mx mv (length xs) vec_empty) (vec_construct_all xs)"

definition vec_assign_range :: "nat \<Rightarrow> ('a \<Rightarrow> 'a) \<Rightarrow> 'a list \<Rightarrow> 'a vec \<Rightarrow> 'a vec res" where
  "vec_assign_range mx mv xs v = and_then (vec_clear v) (vec_append mx mv xs)"

text \<open>Copying: the elements of the source are read one by one and constructed in the target's buffer.\<close>

definition copy_cells :: "nat \<Rightarrow> 'a cells \<Rightarrow> 'a cells \<Rightarrow> 'a cells res" where
  "copy_cells n src d = for_each [0..<n] (\<lambda>i d. and_then (cell_get src i) (construct d i)) d"

definition vec_copy :: "nat \<Rightarrow> ('a \<Rightarrow> 'a) \<Rightarrow> 'a vec \<Rightarrow> 'a vec res" where
  "vec_copy mx mv other =
     and_then (vec_reserve mx mv (v_size other) vec_empty) (\<lambda>v.
     and_then (copy_cells (v_size other) (v_data other) (v_data v)) (\<lambda>d.
     Inr (v\<lparr>v_data := d, v_size := v_size other\<rparr>)))"

definition vec_copy_assign :: "nat \<Rightarrow> ('a \<Rightarrow> 'a) \<Rightarrow> 'a vec \<Rightarrow> 'a vec \<Rightarrow> 'a vec res" where
  "vec_copy_assign mx mv other v =
     and_then (vec_clear v) (\<lambda>v.
     and_then (vec_reserve mx mv (v_size other) v) (\<lambda>v.
     and_then (copy_cells (v_size other) (v_data other) (v_data v)) (\<lambda>d.
     Inr (v\<lparr>v_data := d, v_size := v_size other\<rparr>))))"

text \<open>Moving and swapping: the result is the target and the source afterwards.\<close>

definition vec_move :: "'a vec \<Rightarrow> 'a vec \<times> 'a vec" where
  "vec_move other = (other, other\<lparr>v_data := [], v_size := 0, v_cap := 0\<rparr>)"

definition vec_move_assign :: "'a vec \<Rightarrow> 'a vec \<Rightarrow> ('a vec \<times> 'a vec) res" where
  "vec_move_assign other v = and_then (vec_deallocate_all v) (\<lambda>_. Inr (vec_move other))"

definition vec_swap :: "'a vec \<Rightarrow> 'a vec \<Rightarrow> 'a vec \<times> 'a vec" where
  "vec_swap v other = (other, v)"


section \<open>What a vector holds\<close>

definition vec_list :: "'a vec \<Rightarrow> 'a list" where
  "vec_list v = map the (take (v_size v) (v_data v))"

definition vec_of :: "'a list \<Rightarrow> nat \<Rightarrow> 'a vec" where
  "vec_of xs c = \<lparr>v_data = tab c (\<lambda>i. if i < length xs then Some (xs ! i) else None),
                   v_size = length xs, v_cap = c\<rparr>"

text \<open>A well-formed vector: the live cells are exactly the first \<open>size\<close> ones, and the buffer has \<open>cap\<close> cells.\<close>

definition vec_ok :: "'a vec \<Rightarrow> bool" where
  "vec_ok v \<longleftrightarrow> v_size v \<le> v_cap v \<and> length (v_data v) = v_cap v
     \<and> (\<forall>i<v_cap v. v_data v ! i \<noteq> None \<longleftrightarrow> i < v_size v)"

lemma vec_of_sel [simp]:
  "v_size (vec_of xs c) = length xs" "v_cap (vec_of xs c) = c"
  "v_data (vec_of xs c) = tab c (\<lambda>i. if i < length xs then Some (xs ! i) else None)"
  by (simp_all add: vec_of_def)

lemma vec_of_eq: "v_size v = length xs \<Longrightarrow> v_cap v = c
    \<Longrightarrow> v_data v = tab c (\<lambda>i. if i < length xs then Some (xs ! i) else None) \<Longrightarrow> v = vec_of xs c"
  by (simp add: vec_of_def)

lemma vec_list_of [simp]: "length xs \<le> c \<Longrightarrow> vec_list (vec_of xs c) = xs"
  by (rule nth_equalityI) (auto simp: vec_list_def)

lemma vec_ok_of [simp]: "length xs \<le> c \<Longrightarrow> vec_ok (vec_of xs c)"
  by (auto simp: vec_ok_def)

lemma vec_okE:
  assumes "vec_ok v"
  obtains "v = vec_of (vec_list v) (v_cap v)" "length (vec_list v) \<le> v_cap v" "length (vec_list v) = v_size v"
proof
  have len: "length (vec_list v) = v_size v" using assms by (simp add: vec_list_def vec_ok_def)
  then show "length (vec_list v) = v_size v" "length (vec_list v) \<le> v_cap v"
    using assms by (simp_all add: vec_ok_def)
  have "v_data v = tab (v_cap v) (\<lambda>i. if i < length (vec_list v) then Some (vec_list v ! i) else None)"
    using assms len by (intro nth_equalityI) (auto simp: vec_ok_def vec_list_def)
  then show "v = vec_of (vec_list v) (v_cap v)"
    using len by (intro vec_of_eq) simp_all
qed

lemma vec_empty_of: "vec_empty = vec_of [] 0"
  by (simp add: vec_of_def vec_empty_def tab_def)

lemma vec_empty_ok [simp]: "vec_ok vec_empty" "vec_list vec_empty = []"
  by (simp_all add: vec_empty_of)

section \<open>The operations on buffers are the operations on lists\<close>

lemma deallocate_all_of:
  "length xs \<le> c \<Longrightarrow> vec_deallocate_all (vec_of xs c) = Inr vec_empty"
  by (auto simp: vec_deallocate_all_def destroy_range_tab deallocate_tab vec_empty_def vec_of_def tab_def[of 0])

lemma clear_of: "length xs \<le> c \<Longrightarrow> vec_clear (vec_of xs c) = Inr (vec_of [] c)"
  by (auto simp: vec_clear_def destroy_range_tab vec_of_def intro!: tab_cong)

text \<open>The moving loop shared by \<open>vec_transfer_to\<close> and \<open>vec_emplace_full\<close>.\<close>

lemma move_loop:
  assumes "a \<le> b" "b \<le> n" "b + k \<le> m" "\<And>i. a \<le> i \<Longrightarrow> i < b \<Longrightarrow> f i = Some (y i) \<and> g (i + k) = None"
  shows "for_each [a + k..<b + k]
           (\<lambda>i (d, new). and_then (move_out mv d (i - k)) (\<lambda>(x, d).
                          and_then (construct new i x) (\<lambda>new. Inr (d, new))))
           (tab n f, tab m g)
       = Inr (tab n (\<lambda>i. if a \<le> i \<and> i < b then Some (mv (y i)) else f i),
              tab m (\<lambda>i. if a + k \<le> i \<and> i < b + k then Some (y (i - k)) else g i))"
proof -
  let ?S = "\<lambda>j. (tab n (\<lambda>i. if a \<le> i \<and> i < j - k then Some (mv (y i)) else f i),
                 tab m (\<lambda>i. if a + k \<le> i \<and> i < j then Some (y (i - k)) else g i))"
  have "for_each [a + k..<b + k]
          (\<lambda>i (d, new). and_then (move_out mv d (i - k)) (\<lambda>(x, d).
                          and_then (construct new i x) (\<lambda>new. Inr (d, new)))) (?S (a + k)) = Inr (?S (b + k))"
  proof (rule for_each_up)
    fix j assume j: "a + k \<le> j" "j < b + k"
    define i where "i = j - k"
    have i: "j = i + k" "a \<le> i" "i < b" using j by (auto simp: i_def)
    then show "(case ?S j of (d, new) \<Rightarrow> and_then (move_out mv d (j - k)) (\<lambda>(x, d).
             and_then (construct new j x) (\<lambda>new. Inr (d, new)))) = Inr (?S (Suc j))"
      using assms by (auto simp: move_tab[of _ _ _ "y i"] construct_tab intro!: tab_cong)
  qed (use assms in simp)
  moreover have "?S (a + k) = (tab n f, tab m g)" by (auto intro!: tab_cong)
  ultimately show ?thesis by simp
qed

lemma transfer_of:
  assumes "length xs \<le> c" "length xs \<le> n"
  shows "vec_transfer_to mv (replicate n None) n (vec_of xs c) = Inr (vec_of xs n)"
proof -
  have "for_each [0..<length xs] (\<lambda>idx (d, new). and_then (move_out mv d idx) (\<lambda>(x, d).
           and_then (construct new idx x) (\<lambda>new. Inr (d, new))))
          (tab c (\<lambda>i. if i < length xs then Some (xs ! i) else None), tab n (\<lambda>_. None))
      = Inr (tab c (\<lambda>i. if 0 \<le> i \<and> i < length xs then Some (mv (xs ! i))
                          else if i < length xs then Some (xs ! i) else None),
             tab n (\<lambda>i. if 0 + 0 \<le> i \<and> i < length xs + 0 then Some (xs ! (i - 0)) else None))"
    using move_loop[of 0 "length xs" c 0 n _ "\<lambda>i. xs ! i" "\<lambda>_. None" mv] assms by simp
  then show ?thesis using assms
    by (auto simp: vec_transfer_to_def replicate_tab destroy_range_tab deallocate_tab vec_of_def
        intro!: tab_cong)
qed

lemma reserve_of:
  assumes "length xs \<le> c"
  shows "vec_reserve mx mv n (vec_of xs c)
       = (if n \<le> c then Inr (vec_of xs c) else if n > mx then Inl BadAlloc else Inr (vec_of xs n))"
  using assms by (simp add: vec_reserve_def allocate_def transfer_of)

lemma shrink_of:
  assumes "length xs \<le> c"
  shows "vec_shrink_to_fit mx mv (vec_of xs c)
       = (if length xs < c \<and> xs \<noteq> [] \<and> length xs > mx then Inl BadAlloc else Inr (vec_of xs (length xs)))"
  using assms by (auto simp: vec_shrink_to_fit_def allocate_def transfer_of deallocate_all_of vec_empty_of)

lemma construct_end_of:
  assumes "length xs < c"
  shows "construct (v_data (vec_of xs c)) (length xs) x = Inr (v_data (vec_of (xs @ [x]) c))"
  using assms by (auto simp: construct_tab nth_append less_Suc_eq intro!: tab_cong)

lemma set_vec_of: "length ys = n \<Longrightarrow> (vec_of xs c)\<lparr>v_data := v_data (vec_of ys c), v_size := n\<rparr> = vec_of ys c"
  by (simp add: vec_of_def)

lemma set_vec_of_cap:
  "length ys = n \<Longrightarrow> (vec_of xs c)\<lparr>v_data := v_data (vec_of ys g), v_cap := g, v_size := n\<rparr> = vec_of ys g"
  by (simp add: vec_of_def)

text \<open>What appending does to the capacity.\<close>

definition next_cap :: "nat \<Rightarrow> nat \<Rightarrow> nat" where
  "next_cap n c = (if n = c then grown c else c)"

lemma grown_gt: "c < grown c"
  by (simp add: grown_def InitialCapacity_def vec_GrowthFactor_def)

lemma next_cap_gt: "n \<le> c \<Longrightarrow> n < next_cap n c"
  using grown_gt[of c] by (auto simp: next_cap_def)

lemma make_room_of:
  assumes "length xs \<le> c"
  shows "(if v_size (vec_of xs c) = v_cap (vec_of xs c)
          then vec_reserve mx mv (grown (v_cap (vec_of xs c))) (vec_of xs c) else Inr (vec_of xs c))
       = (if length xs = c \<and> grown c > mx then Inl BadAlloc else Inr (vec_of xs (next_cap (length xs) c)))"
  using assms grown_gt[of c] by (auto simp: reserve_of next_cap_def)

lemma push_back_of:
  assumes "length xs \<le> c"
  shows "vec_push_back mx mv x (vec_of xs c)
       = (if length xs = c \<and> grown c > mx then Inl BadAlloc
          else Inr (vec_of (xs @ [x]) (next_cap (length xs) c)))"
proof -
  let ?c = "next_cap (length xs) c"
  have "construct (v_data (vec_of xs ?c)) (length xs) x = Inr (v_data (vec_of (xs @ [x]) ?c))"
    using next_cap_gt[OF assms] by (rule construct_end_of)
  then show ?thesis
    unfolding vec_push_back_def make_room_of[OF assms]
    by (simp add: set_vec_of del: vec_of_sel(3))
qed

lemma last_of: "xs \<noteq> [] \<Longrightarrow> length xs \<le> c \<Longrightarrow> cell_get (v_data (vec_of xs c)) (length xs - 1) = Inr (List.last xs)"
  by (cases "length xs") (auto simp: get_tab last_conv_nth)

lemma emplace_back_of:
  assumes "length xs \<le> c"
  shows "vec_emplace_back mx mv x (vec_of xs c)
       = (if length xs = c \<and> grown c > mx then Inl BadAlloc
          else Inr (x, vec_of (xs @ [x]) (next_cap (length xs) c)))"
  using last_of[of "xs @ [x]" "next_cap (length xs) c"] next_cap_gt[OF assms]
  by (simp add: vec_emplace_back_def push_back_of[OF assms] Suc_le_eq del: vec_of_sel(3))

lemma pop_back_of:
  assumes "length xs \<le> c" "xs \<noteq> []"
  shows "vec_pop_back (vec_of xs c) = Inr (vec_of (butlast xs) c)"
  using assms by (cases "length xs")
    (auto simp: vec_pop_back_def destroy_tab vec_of_def nth_butlast less_Suc_eq intro!: tab_cong)

lemma at_of:
  assumes "length xs \<le> c"
  shows "vec_at (vec_of xs c) i = (if i < length xs then Inr (xs ! i) else Inl OutOfRange)"
  using assms by (simp add: vec_at_def get_tab)

lemma index_of:
  "length xs \<le> c \<Longrightarrow> vec_index (vec_of xs c) i = (if i < length xs then Inr (xs ! i) else Inl Undefined)"
  by (auto simp: vec_index_def cell_get_def)

definition insert_at :: "nat \<Rightarrow> 'a \<Rightarrow> 'a list \<Rightarrow> 'a list" where
  "insert_at i x xs = take i xs @ x # drop i xs"

lemma length_insert_at [simp]: "i \<le> length xs \<Longrightarrow> length (insert_at i x xs) = Suc (length xs)"
  by (simp add: insert_at_def)

lemma nth_insert_at:
  "i \<le> length xs \<Longrightarrow> j \<le> length xs
    \<Longrightarrow> insert_at i x xs ! j = (if j < i then xs ! j else if j = i then x else xs ! (j - 1))"
  by (auto simp: insert_at_def nth_append nth_Cons' min_def)

lemma emplace_full_of:
  assumes "length xs = c" "idx \<le> c" "grown c \<le> mx"
  shows "vec_emplace_full mx mv idx x (vec_of xs c) = Inr (idx, vec_of (insert_at idx x xs) (grown c))"
proof -
  let ?step = "\<lambda>k i (d, new). and_then (move_out mv d (i - k)) (\<lambda>(y, d).
                 and_then (construct new i y) (\<lambda>new. Inr (d, new)))"
  let ?d1 = "tab c (\<lambda>i. if i < idx then Some (mv (xs ! i)) else Some (xs ! i))"
  let ?d2 = "tab c (\<lambda>i. if idx \<le> i \<and> i < c then Some (mv (xs ! i)) else if i < idx then Some (mv (xs ! i)) else Some (xs ! i))"
  let ?n1 = "\<lambda>i. if i < idx then Some (xs ! i) else None"
  have gt: "c < grown c" by (rule grown_gt)
  have d0: "v_data (vec_of xs c) = tab c (\<lambda>i. Some (xs ! i))"
    using assms by (auto intro!: tab_cong)
  have loop1: "for_each [0..<idx] (?step 0) (tab c (\<lambda>i. Some (xs ! i)), tab (grown c) (\<lambda>_. None))
      = Inr (?d1, tab (grown c) ?n1)"
    using move_loop[of 0 idx c 0 "grown c" "\<lambda>i. Some (xs ! i)" "\<lambda>i. xs ! i" "\<lambda>_. None" mv] assms gt by (simp cong: if_cong)
  have cons: "construct (tab (grown c) ?n1) idx x = Inr (tab (grown c) (?n1(idx := Some x)))"
    using assms gt by (intro construct_tab) auto
  have loop2: "for_each [idx + 1..<c + 1] (?step 1) (?d1, tab (grown c) (?n1(idx := Some x)))
      = Inr (?d2, tab (grown c) (\<lambda>i. if idx + 1 \<le> i \<and> i < c + 1 then Some (xs ! (i - 1)) else (?n1(idx := Some x)) i))"
    using assms gt by (intro move_loop) auto
  have dest: "destroy_range 0 c ?d2 = Inr (tab c (\<lambda>i. if 0 \<le> i \<and> i < c then None else None))"
    by (subst destroy_range_tab) (auto intro!: tab_cong)
  have data: "tab (grown c) (\<lambda>i. if idx + 1 \<le> i \<and> i < c + 1 then Some (xs ! (i - 1)) else (?n1(idx := Some x)) i)
      = v_data (vec_of (insert_at idx x xs) (grown c))"
    using assms by (auto simp: nth_insert_at intro!: tab_cong)
  show ?thesis
    unfolding vec_emplace_full_def Let_def d0
    using assms loop1 cons loop2 dest data
    by (simp add: allocate_def replicate_tab set_vec_of_cap d0 deallocate_tab del: upt_Suc vec_of_sel(3))
qed


text \<open>With room to spare the last element is moved twice: once into the new cell, and once more in the loop.\<close>

definition stale_last :: "('a \<Rightarrow> 'a) \<Rightarrow> 'a list \<Rightarrow> 'a list" where
  "stale_last mv xs = butlast xs @ [mv (List.last xs)]"

lemma nth_stale_last:
  "xs \<noteq> [] \<Longrightarrow> i < length xs
    \<Longrightarrow> stale_last mv xs ! i = (if i = length xs - 1 then mv (xs ! i) else xs ! i)"
  by (auto simp: stale_last_def nth_append nth_butlast last_conv_nth)

lemma length_stale_last [simp]: "xs \<noteq> [] \<Longrightarrow> length (stale_last mv xs) = length xs"
  by (simp add: stale_last_def)

lemma stale_last_id: "xs \<noteq> [] \<Longrightarrow> mv (List.last xs) = List.last xs \<Longrightarrow> stale_last mv xs = xs"
  by (simp add: stale_last_def)

lemma emplace_spare_of:
  assumes "xs \<noteq> []" "length xs < c" "idx \<le> length xs"
  shows "vec_emplace_spare mv idx x (vec_of xs c) = Inr (idx, vec_of (insert_at idx x (stale_last mv xs)) c)"
proof -
  define n where "n = length xs"
  define zs where "zs = stale_last mv xs"
  have n: "0 < n" "n < c" "idx \<le> n" "length zs = n" using assms by (auto simp: n_def zs_def)
  have zs: "zs ! i = (if i = n - 1 then mv (xs ! i) else xs ! i)" if "i < n" for i
    using that assms by (simp add: zs_def n_def nth_stale_last)
  let ?f = "\<lambda>i. if i < n then Some (xs ! i) else None"
  let ?S = "\<lambda>j. tab c (\<lambda>i. if Suc i < j then (if i < n then Some (zs ! i) else None)
                          else if Suc i = j then (if j \<le> n then Some (mv (zs ! i)) else if i = n then Some (xs ! (n - 1)) else None)
                          else if i \<le> n then Some (zs ! (i - 1)) else None)"
  have move: "move_out mv (tab c ?f) (n - 1) = Inr (xs ! (n - 1), tab c (?f(n - 1 := Some (mv (xs ! (n - 1))))))"
    using n by (intro move_tab) auto
  have "construct (tab c (?f(n - 1 := Some (mv (xs ! (n - 1)))))) n (xs ! (n - 1))
      = Inr (tab c (?f(n - 1 := Some (mv (xs ! (n - 1))), n := Some (xs ! (n - 1)))))"
    using n by (intro construct_tab) auto
  also have "tab c (?f(n - 1 := Some (mv (xs ! (n - 1))), n := Some (xs ! (n - 1)))) = ?S (n + 1)"
    using n by (auto simp: zs intro!: tab_cong)
  finally have cons: "construct (tab c (?f(n - 1 := Some (mv (xs ! (n - 1)))))) n (xs ! (n - 1)) = Inr (?S (n + 1))" .
  have loop: "for_each (rev [idx + 1..<n + 1])
      (\<lambda>p d. and_then (move_out mv d (p - 1)) (\<lambda>(y, d). cell_assign d p y)) (?S (n + 1)) = Inr (?S (idx + 1))"
  proof (rule for_each_down)
    fix p assume p: "idx + 1 \<le> p" "p < n + 1"
    then have "move_out mv (?S (Suc p)) (p - 1)
        = Inr (zs ! (p - 1), tab c ((\<lambda>i. if Suc i < Suc p then (if i < n then Some (zs ! i) else None)
                          else if Suc i = Suc p then (if Suc p \<le> n then Some (mv (zs ! i)) else if i = n then Some (xs ! (n - 1)) else None)
                          else if i \<le> n then Some (zs ! (i - 1)) else None)(p - 1 := Some (mv (zs ! (p - 1))))))"
      using n by (intro move_tab) auto
    then show "and_then (move_out mv (?S (Suc p)) (p - 1)) (\<lambda>(y, d). cell_assign d p y) = Inr (?S p)"
      using n p by (auto simp: cell_assign_def update_tab intro!: tab_cong)
  qed (use n in simp)
  have "destroy (?S (idx + 1)) idx = Inr (tab c (\<lambda>i. if i < idx then Some (zs ! i) else if i = idx then None
                          else if i \<le> n then Some (zs ! (i - 1)) else None))"
    using n by (auto simp: destroy_def update_tab intro!: tab_cong)
  moreover have "construct (tab c (\<lambda>i. if i < idx then Some (zs ! i) else if i = idx then None
                          else if i \<le> n then Some (zs ! (i - 1)) else None)) idx x
      = Inr (v_data (vec_of (insert_at idx x zs) c))"
    using n by (auto simp: construct_def update_tab nth_insert_at intro!: tab_cong)
  moreover have "v_data (vec_of xs c) = tab c ?f" by (auto simp: n_def intro!: tab_cong)
  ultimately show ?thesis
    unfolding vec_emplace_spare_def
    using n move cons loop by (simp add: n_def[symmetric] zs_def[symmetric] set_vec_of del: vec_of_sel(3))
qed

lemma emplace_spare_empty: "vec_emplace_spare mv idx x (vec_of [] c) = Inl Undefined"
  by (simp add: vec_emplace_spare_def)

lemma insert_of:
  assumes "length xs \<le> c" "idx \<le> length xs"
  shows "vec_insert mx mv idx x (vec_of xs c)
       = (if length xs = c then if grown c > mx then Inl BadAlloc else Inr (idx, vec_of (insert_at idx x xs) (grown c))
          else if xs = [] then Inl Undefined
          else Inr (idx, vec_of (insert_at idx x (stale_last mv xs)) c))"
proof -
  have "vec_emplace_full mx mv idx x (vec_of xs c) = Inl BadAlloc" if "grown c > mx" "length xs = c"
    using that by (simp add: vec_emplace_full_def allocate_def)
  then show ?thesis
    using assms by (auto simp: vec_insert_def vec_emplace_def emplace_full_of emplace_spare_of emplace_spare_empty)
qed

section \<open>Erasing\<close>

lemma erase_range_of:
  assumes "length xs \<le> c" "a \<le> b" "b \<le> length xs"
  shows "vec_erase_range mv a b (vec_of xs c) = Inr (a, vec_of (take a xs @ drop b xs) c)"
proof (cases "a = b")
  case False
  define k where "k = b - a"
  define n where "n = length xs"
  let ?S = "\<lambda>j. tab c (\<lambda>i. if i + k < j then Some (xs ! (if i < a then i else i + k))
                          else if i < j then None else if i < n then Some (xs ! i) else None)"
  have k: "0 < k" "b = a + k" "b \<le> n" "n \<le> c" using assms False by (auto simp: k_def n_def)
  have "destroy_range a b (v_data (vec_of xs c)) = Inr (?S b)"
    using assms k by (auto simp: destroy_range_tab n_def intro!: tab_cong)
  moreover have "for_each [b..<n] (\<lambda>p d. and_then (move_out mv d p) (\<lambda>(y, d).
                        and_then (construct d (p - k) y) (\<lambda>d. destroy d p))) (?S b) = Inr (?S n)"
  proof (rule for_each_up)
    fix p assume p: "b \<le> p" "p < n"
    let ?g = "\<lambda>i. if i + k < p then Some (xs ! (if i < a then i else i + k))
                  else if i < p then None else if i < n then Some (xs ! i) else None"
    have "move_out mv (tab c ?g) p = Inr (xs ! p, tab c (?g(p := Some (mv (xs ! p)))))"
      using p k by (intro move_tab) auto
    moreover have "construct (tab c (?g(p := Some (mv (xs ! p))))) (p - k) (xs ! p)
        = Inr (tab c (?g(p := Some (mv (xs ! p)), p - k := Some (xs ! p))))"
      using p k by (intro construct_tab) auto
    moreover have "destroy (tab c (?g(p := Some (mv (xs ! p)), p - k := Some (xs ! p)))) p = Inr (?S (Suc p))"
      using p k by (auto simp: destroy_def update_tab intro!: tab_cong)
    ultimately show "and_then (move_out mv (?S p) p) (\<lambda>(y, d).
                        and_then (construct d (p - k) y) (\<lambda>d. destroy d p)) = Inr (?S (Suc p))"
      by simp
  qed (use k in simp)
  moreover have "?S n = v_data (vec_of (take a xs @ drop b xs) c)"
    using assms k by (auto simp: n_def nth_append min_def add.commute intro!: tab_cong)
  moreover have "length (take a xs @ drop b xs) = n - k" using assms k by (simp add: n_def)
  ultimately show ?thesis
    using False unfolding vec_erase_range_def Let_def
    by (simp add: k_def[symmetric] n_def[symmetric] set_vec_of del: vec_of_sel(3)) 
qed (simp add: vec_erase_range_def)

lemma erase_is_erase_range: "vec_erase mv i v = vec_erase_range mv i (i + 1) v"
  by (simp add: vec_erase_def vec_erase_range_def destroy_range_def and_then_def split: sum.split)

lemma erase_of:
  assumes "length xs \<le> c" "i < length xs"
  shows "vec_erase mv i (vec_of xs c) = Inr (i, vec_of (take i xs @ drop (Suc i) xs) c)"
  using erase_range_of[of xs c i "i + 1" mv] assms by (simp add: erase_is_erase_range)


section \<open>Filling and copying\<close>

lemma construct_fill_of:
  assumes "length xs \<le> n" "n \<le> c"
  shows "construct_fill (length xs) n x (v_data (vec_of xs c))
       = Inr (v_data (vec_of (xs @ replicate (n - length xs) x) c))"
proof -
  let ?S = "\<lambda>j. v_data (vec_of (xs @ replicate (j - length xs) x) c)"
  have "for_each [length xs..<n] (\<lambda>i d. construct d i x) (?S (length xs)) = Inr (?S n)"
  proof (rule for_each_up)
    fix i assume i: "length xs \<le> i" "i < n"
    then have "construct (?S i) i x = Inr (v_data (vec_of ((xs @ replicate (i - length xs) x) @ [x]) c))"
      using construct_end_of[of "xs @ replicate (i - length xs) x" c x] assms by simp
    also have "(xs @ replicate (i - length xs) x) @ [x] = xs @ replicate (Suc i - length xs) x"
      using i by (simp add: Suc_diff_le replicate_append_same)
    finally show "construct (?S i) i x = Inr (?S (Suc i))" .
  qed (use assms in simp)
  then show ?thesis by (simp add: construct_fill_def del: vec_of_sel(3))
qed

lemma take_of:
  assumes "n \<le> length xs" "length xs \<le> c"
  shows "destroy_range n (length xs) (v_data (vec_of xs c)) = Inr (v_data (vec_of (take n xs) c))"
  using assms by (auto simp: destroy_range_tab intro!: tab_cong)

lemma resize_of:
  assumes "length xs \<le> c"
  shows "vec_resize mx mv n x (vec_of xs c)
       = (if n \<le> c then Inr (vec_of (take n xs @ replicate (n - length xs) x) c)
          else if n > mx then Inl BadAlloc else Inr (vec_of (xs @ replicate (n - length xs) x) n))"
proof -
  consider "n < length xs" | "n = length xs" | "length xs < n" by linarith
  then show ?thesis
  proof cases
    case 1
    then show ?thesis
      using assms by (simp add: vec_resize_def take_of set_vec_of del: vec_of_sel(3))
  next
    case 2
    then show ?thesis using assms by (simp add: vec_resize_def vec_of_def)
  next
    case 3
    then show ?thesis
      using assms construct_fill_of[of xs n] by (simp add: vec_resize_def reserve_of set_vec_of del: vec_of_sel(3))
  qed
qed

lemma fill_of: "vec_fill mx mv n x = (if n > mx then Inl BadAlloc else Inr (vec_of (replicate n x) n))"
  using construct_fill_of[of "[]" n n x]
  by (auto simp: vec_fill_def vec_empty_of reserve_of set_vec_of simp del: vec_of_sel(3))

lemma assign_of:
  assumes "length xs \<le> c"
  shows "vec_assign mx mv n x (vec_of xs c)
       = (if n \<le> c then Inr (vec_of (replicate n x) c)
          else if n > mx then Inl BadAlloc else Inr (vec_of (replicate n x) n))"
  using assms construct_fill_of[of "[]" n _ x]
  by (auto simp: vec_assign_def clear_of reserve_of set_vec_of simp del: vec_of_sel(3))

lemma append_is_push:
  "vec_append mx mv (x # xs) v = and_then (vec_push_back mx mv x v) (vec_append mx mv xs)"
  by (simp add: vec_push_back_def and_then_def split: sum.split)

lemma append_of:
  assumes "length ys \<le> c"
  shows "vec_append mx mv xs (vec_of ys c) = Inl BadAlloc
    \<or> (\<exists>c'. vec_append mx mv xs (vec_of ys c) = Inr (vec_of (ys @ xs) c') \<and> length (ys @ xs) \<le> c')"
  using assms
proof (induction xs arbitrary: ys c)
  case (Cons x xs)
  show ?case
  proof (cases "length ys = c \<and> grown c > mx")
    case False
    have "length (ys @ [x]) \<le> next_cap (length ys) c"
      using next_cap_gt[OF Cons.prems] by simp
    with Cons.IH[OF this] False show ?thesis
      unfolding append_is_push by (simp add: push_back_of[OF Cons.prems])
  qed (unfold append_is_push, simp add: push_back_of[OF Cons.prems])
qed auto

lemma append_room:
  assumes "length ys + length xs \<le> c"
  shows "vec_append mx mv xs (vec_of ys c) = Inr (vec_of (ys @ xs) c)"
  using assms
proof (induction xs arbitrary: ys)
  case (Cons x xs)
  then have "vec_push_back mx mv x (vec_of ys c) = Inr (vec_of (ys @ [x]) c)"
    by (simp add: push_back_of next_cap_def)
  with Cons show ?case unfolding append_is_push by simp
qed simp

lemma of_range_of:
  "vec_of_range mx mv xs = (if length xs > mx then Inl BadAlloc else Inr (vec_of xs (length xs)))"
  by (auto simp: vec_of_range_def vec_empty_of reserve_of append_room simp del: vec_of_sel(3))

lemma construct_all_room:
  assumes "length ys + length xs \<le> c"
  shows "vec_construct_all xs (vec_of ys c) = Inr (vec_of (ys @ xs) c)"
  using assms
proof (induction xs arbitrary: ys)
  case (Cons x xs)
  then have "construct (v_data (vec_of ys c)) (length ys) x = Inr (v_data (vec_of (ys @ [x]) c))"
    by (intro construct_end_of) simp
  with Cons show ?case by (simp add: set_vec_of del: vec_of_sel(3))
qed simp

lemma of_init_of: "vec_of_init mx mv xs = vec_of_range mx mv xs"
  by (auto simp: vec_of_init_def of_range_of vec_empty_of reserve_of construct_all_room simp del: vec_of_sel(3))

lemma copy_cells_of:
  assumes "length xs \<le> c" "length xs \<le> d"
  shows "copy_cells (length xs) (v_data (vec_of xs c)) (v_data (vec_of [] d)) = Inr (v_data (vec_of xs d))"
proof -
  let ?S = "\<lambda>j. v_data (vec_of (take j xs) d)"
  have "for_each [0..<length xs] (\<lambda>i d. and_then (cell_get (v_data (vec_of xs c)) i) (construct d i)) (?S 0)
      = Inr (?S (length xs))"
  proof (rule for_each_up)
    fix i assume i: "0 \<le> i" "i < length xs"
    then have "construct (?S i) i (xs ! i) = Inr (?S (Suc i))"
      using construct_end_of[of "take i xs" d "xs ! i"] assms by (simp add: take_Suc_conv_app_nth)
    moreover have "cell_get (v_data (vec_of xs c)) i = Inr (xs ! i)"
      using i assms by (simp add: get_tab)
    ultimately show "and_then (cell_get (v_data (vec_of xs c)) i) (construct (?S i) i) = Inr (?S (Suc i))"
      by simp
  qed simp
  then show ?thesis by (simp add: copy_cells_def del: vec_of_sel(3))
qed

lemma copy_of:
  assumes "length xs \<le> c"
  shows "vec_copy mx mv (vec_of xs c)
       = (if length xs > mx then Inl BadAlloc else Inr (vec_of xs (length xs)))"
  using assms copy_cells_of[of xs c]
  by (auto simp: vec_copy_def vec_empty_of reserve_of set_vec_of simp del: vec_of_sel(3))

lemma copy_assign_of:
  assumes "length xs \<le> c" "length ys \<le> d"
  shows "vec_copy_assign mx mv (vec_of xs c) (vec_of ys d)
       = (if length xs \<le> d then Inr (vec_of xs d)
          else if length xs > mx then Inl BadAlloc else Inr (vec_of xs (length xs)))"
  using assms copy_cells_of[of xs c]
  by (auto simp: vec_copy_assign_def clear_of reserve_of set_vec_of simp del: vec_of_sel(3))

lemma move_of: "vec_move (vec_of xs c) = (vec_of xs c, vec_empty)"
  by (simp add: vec_move_def vec_empty_def vec_of_def)

lemma move_assign_of:
  "length ys \<le> d \<Longrightarrow> vec_move_assign (vec_of xs c) (vec_of ys d) = Inr (vec_of xs c, vec_empty)"
  by (simp add: vec_move_assign_def deallocate_all_of move_of)

section \<open>The contract of a growing container\<close>

interpretation vec_grow: growable vec_list vec_ok "vec_push_back mx mv" "\<lambda>v. v_size v = v_cap v \<and> grown (v_cap v) > mx"
proof unfold_locales
  fix v :: "'a vec" and x
  assume ok: "vec_ok v"
  show "\<exists>v'. vec_push_back mx mv x v = Inr v' \<and> vec_ok v' \<and> vec_list v' = vec_list v @ [x]"
    if "\<not> (v_size v = v_cap v \<and> grown (v_cap v) > mx)"
  proof (rule vec_okE[OF ok])
    assume v: "v = vec_of (vec_list v) (v_cap v)" "length (vec_list v) \<le> v_cap v" "length (vec_list v) = v_size v"
    let ?v = "vec_of (vec_list v @ [x]) (next_cap (v_size v) (v_cap v))"
    have "vec_push_back mx mv x (vec_of (vec_list v) (v_cap v)) = Inr ?v"
      using that v by (subst push_back_of) auto
    moreover have "length (vec_list v @ [x]) \<le> next_cap (v_size v) (v_cap v)"
      using v next_cap_gt[of "v_size v" "v_cap v"] by simp
    ultimately show ?thesis using v(1) by (metis vec_list_of vec_ok_of)
  qed
  show "vec_push_back mx mv x v = Inl BadAlloc" if "v_size v = v_cap v \<and> grown (v_cap v) > mx"
  proof (rule vec_okE[OF ok])
    assume v: "v = vec_of (vec_list v) (v_cap v)" "length (vec_list v) \<le> v_cap v" "length (vec_list v) = v_size v"
    then have "vec_push_back mx mv x (vec_of (vec_list v) (v_cap v)) = Inl BadAlloc"
      using that by (subst push_back_of) auto
    with v(1) show ?thesis by simp
  qed
qed


section \<open>Sequences of operations\<close>

datatype 'a vec_op = PushBack 'a | EmplaceBack 'a | PopBack | Insert nat 'a | Erase nat | EraseRange nat nat
  | Resize nat 'a | Assign nat 'a | AssignRange "'a list" | Clear | Reserve nat | ShrinkToFit

text \<open>The answer of an operation: the position and the element it returns, where it returns one.\<close>

type_synonym 'a vec_answer = "nat option \<times> 'a option"

definition silent :: "'s res \<Rightarrow> ('a vec_answer \<times> 's) res" where
  "silent r = and_then r (\<lambda>s. Inr ((None, None), s))"

definition at_position :: "(nat \<times> 's) res \<Rightarrow> ('a vec_answer \<times> 's) res" where
  "at_position r = and_then r (\<lambda>(i, s). Inr ((Some i, None), s))"

fun vec_do :: "nat \<Rightarrow> ('a \<Rightarrow> 'a) \<Rightarrow> 'a vec_op \<Rightarrow> 'a vec \<Rightarrow> ('a vec_answer \<times> 'a vec) res" where
  "vec_do mx mv (PushBack x) v = silent (vec_push_back mx mv x v)"
| "vec_do mx mv (EmplaceBack x) v = and_then (vec_emplace_back mx mv x v) (\<lambda>(y, v). Inr ((None, Some y), v))"
| "vec_do mx mv PopBack v = silent (vec_pop_back v)"
| "vec_do mx mv (Insert i x) v = at_position (vec_insert mx mv i x v)"
| "vec_do mx mv (Erase i) v = at_position (vec_erase mv i v)"
| "vec_do mx mv (EraseRange a b) v = at_position (vec_erase_range mv a b v)"
| "vec_do mx mv (Resize n x) v = silent (vec_resize mx mv n x v)"
| "vec_do mx mv (Assign n x) v = silent (vec_assign mx mv n x v)"
| "vec_do mx mv (AssignRange xs) v = silent (vec_assign_range mx mv xs v)"
| "vec_do mx mv Clear v = silent (vec_clear v)"
| "vec_do mx mv (Reserve n) v = silent (vec_reserve mx mv n v)"
| "vec_do mx mv ShrinkToFit v = silent (vec_shrink_to_fit mx mv v)"

text \<open>
  The same operations on a list and the room that is kept for it: a push into a full vector doubles the
  room (from none to one), everything else asks for what it needs. A request above the limit \<open>mx\<close> is
  refused. An insertion with room to spare leaves the last element as moving it leaves it, and one
  into an empty vector with room is undefined: this is how the code is, not how \<^verbatim>\<open>std::vector\<close> is.
  \<open>None\<close> marks a call the caller must not make: popping from an empty vector, a position that is not in it.
\<close>

fun room_push :: "nat \<Rightarrow> 'a \<Rightarrow> 'a list \<times> nat \<Rightarrow> ('a list \<times> nat) res" where
  "room_push mx x (xs, c) =
     (if length xs < c then Inr (xs @ [x], c)
      else if max 1 (2 * c) > mx then Inl BadAlloc else Inr (xs @ [x], max 1 (2 * c)))"

fun room_push_all :: "nat \<Rightarrow> 'a list \<Rightarrow> 'a list \<times> nat \<Rightarrow> ('a list \<times> nat) res" where
  "room_push_all mx [] s = Inr s"
| "room_push_all mx (x # xs) s = and_then (room_push mx x s) (room_push_all mx xs)"

definition room_for :: "nat \<Rightarrow> nat \<Rightarrow> 'a list \<Rightarrow> nat \<Rightarrow> ('a list \<times> nat) res" where
  "room_for mx n ys c = (if n \<le> c then Inr (ys, c) else if n > mx then Inl BadAlloc else Inr (ys, n))"

definition room_insert :: "nat \<Rightarrow> ('a \<Rightarrow> 'a) \<Rightarrow> nat \<Rightarrow> 'a \<Rightarrow> 'a list \<Rightarrow> nat \<Rightarrow> (nat \<times> 'a list \<times> nat) res" where
  "room_insert mx mv i x xs c =
     (if length xs = c then
        if max 1 (2 * c) > mx then Inl BadAlloc else Inr (i, insert_at i x xs, max 1 (2 * c))
      else if xs = [] then Inl Undefined
      else Inr (i, insert_at i x (butlast xs @ [mv (List.last xs)]), c))"

fun room_do :: "nat \<Rightarrow> ('a \<Rightarrow> 'a) \<Rightarrow> 'a vec_op \<Rightarrow> 'a list \<times> nat \<Rightarrow> ('a vec_answer \<times> 'a list \<times> nat) res option" where
  "room_do mx mv (PushBack x) (xs, c) = Some (silent (room_push mx x (xs, c)))"
| "room_do mx mv (EmplaceBack x) (xs, c) = Some (and_then (room_push mx x (xs, c)) (\<lambda>s. Inr ((None, Some x), s)))"
| "room_do mx mv PopBack (xs, c) = (if xs = [] then None else Some (silent (Inr (butlast xs, c))))"
| "room_do mx mv (Insert i x) (xs, c) =
     (if i \<le> length xs then Some (at_position (room_insert mx mv i x xs c)) else None)"
| "room_do mx mv (Erase i) (xs, c) =
     (if i < length xs then Some (at_position (Inr (i, take i xs @ drop (Suc i) xs, c))) else None)"
| "room_do mx mv (EraseRange a b) (xs, c) =
     (if a \<le> b \<and> b \<le> length xs then Some (at_position (Inr (a, take a xs @ drop b xs, c))) else None)"
| "room_do mx mv (Resize n x) (xs, c) =
     Some (silent (room_for mx n (take n xs @ replicate (n - length xs) x) c))"
| "room_do mx mv (Assign n x) (xs, c) = Some (silent (room_for mx n (replicate n x) c))"
| "room_do mx mv (AssignRange ys) (xs, c) = Some (silent (room_push_all mx ys ([], c)))"
| "room_do mx mv Clear (xs, c) = Some (silent (Inr ([], c)))"
| "room_do mx mv (Reserve n) (xs, c) = Some (silent (room_for mx n xs c))"
| "room_do mx mv ShrinkToFit (xs, c) =
     Some (silent (if xs \<noteq> [] \<and> length xs < c \<and> length xs > mx then Inl BadAlloc else Inr (xs, length xs)))"

fun vec_do_all :: "nat \<Rightarrow> ('a \<Rightarrow> 'a) \<Rightarrow> 'a vec_op list \<Rightarrow> 'a vec \<Rightarrow> ('a vec_answer list \<times> 'a vec) res" where
  "vec_do_all mx mv [] v = Inr ([], v)"
| "vec_do_all mx mv (op # ops) v =
     and_then (vec_do mx mv op v) (\<lambda>(a, v). and_then (vec_do_all mx mv ops v) (\<lambda>(as, v). Inr (a # as, v)))"

fun room_do_all ::
  "nat \<Rightarrow> ('a \<Rightarrow> 'a) \<Rightarrow> 'a vec_op list \<Rightarrow> 'a list \<times> nat \<Rightarrow> ('a vec_answer list \<times> 'a list \<times> nat) res option" where
  "room_do_all mx mv [] s = Some (Inr ([], s))"
| "room_do_all mx mv (op # ops) s =
     (case room_do mx mv op s of None \<Rightarrow> None | Some (Inl err) \<Rightarrow> Some (Inl err)
      | Some (Inr (a, s)) \<Rightarrow>
         (case room_do_all mx mv ops s of None \<Rightarrow> None | Some (Inl err) \<Rightarrow> Some (Inl err)
          | Some (Inr (as, s)) \<Rightarrow> Some (Inr (a # as, s))))"

text \<open>One operation is the operation on the list and the room.\<close>

definition in_buffer :: "('r \<times> 'a list \<times> nat) res \<Rightarrow> ('r \<times> 'a vec) res" where
  "in_buffer r = and_then r (\<lambda>(a, xs, c). Inr (a, vec_of xs c))"

lemma grown_max: "grown c = max 1 (2 * c)"
  by (simp add: grown_def InitialCapacity_def vec_GrowthFactor_def)

lemma in_buffer_simps [simp]:
  "in_buffer (Inl err) = Inl err" "in_buffer (Inr (a, xs, c)) = Inr (a, vec_of xs c)"
  "in_buffer (silent r) = silent (and_then r (\<lambda>(xs, c). Inr (vec_of xs c)))"
  "in_buffer (at_position q) = at_position (and_then q (\<lambda>(i, xs, c). Inr (i, vec_of xs c)))"
  by (auto simp: in_buffer_def silent_def at_position_def and_then_def split: sum.split)

lemma push_back_room:
  "length xs \<le> c \<Longrightarrow> vec_push_back mx mv x (vec_of xs c) = and_then (room_push mx x (xs, c)) (\<lambda>(xs, c). Inr (vec_of xs c))"
  by (auto simp: push_back_of next_cap_def grown_max)

lemma room_push_fits: "length xs \<le> c \<Longrightarrow> room_push mx x (xs, c) = Inr (ys, d) \<Longrightarrow> length ys \<le> d"
  by (auto split: if_splits)

lemma room_push_all_fits: "length xs \<le> c \<Longrightarrow> room_push_all mx zs (xs, c) = Inr (ys, d) \<Longrightarrow> length ys \<le> d"
proof (induction zs arbitrary: xs c)
  case (Cons z zs)
  show ?case
  proof (cases "room_push mx z (xs, c)")
    case (Inl err)
    with Cons.prems(2) show ?thesis by (simp del: room_push.simps)
  next
    case (Inr s)
    obtain us e where s: "s = (us, e)" by (cases s)
    have "length us \<le> e" using room_push_fits[OF Cons.prems(1)] Inr s by simp
    moreover have "room_push_all mx zs (us, e) = Inr (ys, d)" using Cons.prems(2) Inr s by (simp del: room_push.simps)
    ultimately show ?thesis by (rule Cons.IH)
  qed
qed simp

lemma append_room_all:
  "length xs \<le> c \<Longrightarrow> vec_append mx mv ys (vec_of xs c) = and_then (room_push_all mx ys (xs, c)) (\<lambda>(xs, c). Inr (vec_of xs c))"
proof (induction ys arbitrary: xs c)
  case (Cons y ys)
  show ?case
  proof (cases "room_push mx y (xs, c)")
    case (Inr s)
    obtain us e where s: "s = (us, e)" by (cases s)
    then have "length us \<le> e" using room_push_fits[OF Cons.prems] Inr by blast
    from Cons.IH[OF this] show ?thesis
      unfolding append_is_push push_back_room[OF Cons.prems] room_push_all.simps Inr s by simp
  next
    case (Inl err)
    then show ?thesis unfolding append_is_push push_back_room[OF Cons.prems] room_push_all.simps Inl by simp
  qed
qed simp

lemma vec_do_room:
  assumes "length xs \<le> c" "room_do mx mv op (xs, c) = Some r"
  shows "vec_do mx mv op (vec_of xs c) = in_buffer r"
proof (cases op)
  case (Insert i x)
  then show ?thesis using assms
    by (auto simp: insert_of room_insert_def stale_last_def grown_max split: if_splits)
next
  case (EmplaceBack x)
  then show ?thesis using assms by (auto simp: emplace_back_of next_cap_def grown_max)
next
  case (AssignRange zs)
  then have "r = silent (room_push_all mx zs ([], c))" using assms(2) by simp
  with AssignRange show ?thesis using assms(1) append_room_all[of "[]" c mx mv zs]
    by (simp add: vec_assign_range_def clear_of del: vec_of_sel(3))
qed (use assms in \<open>auto simp: push_back_room pop_back_of erase_of erase_range_of resize_of assign_of clear_of reserve_of
       shrink_of room_for_def split: if_splits\<close>)

lemma room_do_fits:
  assumes "length xs \<le> c" "room_do mx mv op (xs, c) = Some (Inr (a, ys, d))"
  shows "length ys \<le> d"
proof (cases op)
  case (AssignRange zs)
  then show ?thesis using assms room_push_all_fits[of "[]" c mx zs]
    by (auto simp: silent_def and_then_def split: sum.splits)
qed (use assms in \<open>auto simp: silent_def at_position_def and_then_def room_for_def room_insert_def
       split: if_splits sum.splits\<close>)

lemma vec_do_all_room:
  "length xs \<le> c \<Longrightarrow> room_do_all mx mv ops (xs, c) = Some r \<Longrightarrow>
     vec_do_all mx mv ops (vec_of xs c) = in_buffer r \<and> (\<forall>as ys d. r = Inr (as, ys, d) \<longrightarrow> length ys \<le> d)"
proof (induction ops arbitrary: xs c r)
  case (Cons op ops)
  obtain q where q: "room_do mx mv op (xs, c) = Some q" using Cons.prems(2) by (auto split: option.splits)
  note step = vec_do_room[OF Cons.prems(1) q]
  show ?case
  proof (cases q)
    case (Inl err)
    with q step Cons.prems(2) show ?thesis by auto
  next
    case (Inr t)
    obtain a us e where t: "t = (a, us, e)" by (cases t)
    have "length us \<le> e" using room_do_fits[OF Cons.prems(1)] q Inr t by blast
    moreover obtain r' where r': "room_do_all mx mv ops (us, e) = Some r'"
      using Cons.prems(2) q Inr t by (auto split: option.splits)
    ultimately have "vec_do_all mx mv ops (vec_of us e) = in_buffer r'"
      "\<forall>as ys d. r' = Inr (as, ys, d) \<longrightarrow> length ys \<le> d"
      using Cons.IH[of us e r'] by blast+
    with q step Inr t r' Cons.prems(2) show ?thesis by (auto split: sum.splits)
  qed
qed auto

text \<open>
  C22: Any sequence of vector operations does exactly what it does on a list with its room, answers, capacity
  and refusals of the allocator included, as long as nothing is popped from an empty vector and positions
  are in the vector: no dead element is ever read and none is leaked, and pushing, erasing, resizing,
  assigning, reserving and shrinking are the list operations. Insertion is the exception that the lists
  spell out: with room to spare the last element ends as what moving leaves of it, which is itself only
  for elements that moving leaves intact, and into an empty vector with room the insertion is undefined.
\<close>

lemma vector_refines_lists:
  assumes "vec_ok v" "room_do_all mx mv ops (vec_list v, v_cap v) = Some r"
  shows "case r of
      Inl err \<Rightarrow> vec_do_all mx mv ops v = Inl err
    | Inr (as, ys, c) \<Rightarrow> \<exists>v'. vec_do_all mx mv ops v = Inr (as, v') \<and> vec_ok v' \<and> vec_list v' = ys \<and> v_cap v' = c"
  using assms(1)
proof (rule vec_okE)
  assume v: "v = vec_of (vec_list v) (v_cap v)" "length (vec_list v) \<le> v_cap v"
  have r: "vec_do_all mx mv ops (vec_of (vec_list v) (v_cap v)) = in_buffer r"
    "\<forall>as ys d. r = Inr (as, ys, d) \<longrightarrow> length ys \<le> d"
    using vec_do_all_room[OF v(2) assms(2)] by blast+
  show ?thesis
  proof (cases r)
    case (Inr t)
    obtain as ys c where t: "t = (as, ys, c)" by (cases t)
    with r(2) Inr have "length ys \<le> c" by blast
    moreover have "vec_do_all mx mv ops v = Inr (as, vec_of ys c)" using r(1) v(1) Inr t by simp
    ultimately show ?thesis using Inr t by simp
  qed (use r(1) v(1) in simp)
qed

text \<open>Three strings, the third inserted with room to spare: the former last one is lost.\<close>

lemma vector_refines_lists_witness:
  "\<exists>v'. vec_do_all 100 (\<lambda>_. []) [PushBack ''a'', PushBack ''b'', Reserve 4, Insert 1 ''x'', Erase 0, EmplaceBack ''c''] vec_empty
       = Inr ([(None, None), (None, None), (None, None), (Some 1, None), (Some 0, None), (None, Some ''c'')], v')
     \<and> vec_ok v' \<and> vec_list v' = [''x'', [], ''c''] \<and> v_cap v' = 4"
proof -
  have "room_do_all 100 (\<lambda>_. []) [PushBack ''a'', PushBack ''b'', Reserve 4, Insert 1 ''x'', Erase 0, EmplaceBack ''c'']
      (vec_list vec_empty, v_cap vec_empty)
    = Some (Inr ([(None, None), (None, None), (None, None), (Some 1, None), (Some 0, None), (None, Some ''c'')],
        [''x'', [], ''c''], 4))"
    by (simp add: vec_empty_def vec_list_def silent_def at_position_def room_for_def room_insert_def insert_at_def
        numeral_eq_Suc)
  from vector_refines_lists[OF vec_empty_ok(1) this] show ?thesis by simp
qed

text \<open>
  Inserting into a vector with room to spare moves the last element twice. The new element arrives at
  its position and the others keep their order, but the last one ends as what moving leaves of it: for
  strings, an insertion anywhere loses the last string.
\<close>

lemma insert_with_room_loses_last:
  assumes "vec_ok v" "0 < v_size v" "v_size v < v_cap v" "i \<le> v_size v"
  shows "\<exists>v'. vec_insert mx mv i x v = Inr (i, v') \<and> vec_ok v'
    \<and> vec_list v' = insert_at i x (butlast (vec_list v) @ [mv (List.last (vec_list v))])"
  using assms(1)
proof (rule vec_okE)
  assume v: "v = vec_of (vec_list v) (v_cap v)" "length (vec_list v) = v_size v"
  then have "vec_insert mx mv i x (vec_of (vec_list v) (v_cap v))
      = Inr (i, vec_of (insert_at i x (stale_last mv (vec_list v))) (v_cap v))"
    using assms by (subst insert_of) auto
  moreover have "length (insert_at i x (stale_last mv (vec_list v))) \<le> v_cap v"
    using v assms by (auto simp: stale_last_def)
  ultimately show ?thesis using v(1) by (metis stale_last_def vec_list_of vec_ok_of)
qed

lemma insert_with_room_loses_last_witness:
  "\<exists>v'. vec_insert 100 (\<lambda>_. []) 0 ''x'' (vec_of [''a'', ''b''] 4) = Inr (0, v') \<and> vec_ok v'
    \<and> vec_list v' = [''x'', ''a'', []]"
  using insert_with_room_loses_last[of "vec_of [''a'', ''b''] 4" 0 100 "\<lambda>_. []" "''x''"]
  by (simp add: insert_at_def del: vec_of_sel(3))

text \<open>Appending never holds more than twice the memory it needs.\<close>

lemma append_cap:
  assumes "length ys \<le> c" "c < 2 * length ys \<or> c = 0"
  shows "2 * (length ys + length xs) \<le> Suc mx \<Longrightarrow>
    \<exists>c'. vec_append mx mv xs (vec_of ys c) = Inr (vec_of (ys @ xs) c') \<and> length (ys @ xs) \<le> c'
      \<and> (c' < 2 * length (ys @ xs) \<or> c' = 0)"
  using assms
proof (induction xs arbitrary: ys c)
  case (Cons x xs)
  let ?c = "next_cap (length ys) c"
  have room: "\<not> (length ys = c \<and> grown c > mx)"
    using Cons.prems by (auto simp: grown_def vec_GrowthFactor_def InitialCapacity_def)
  have "length (ys @ [x]) \<le> ?c" "?c < 2 * length (ys @ [x]) \<or> ?c = 0"
    using Cons.prems next_cap_gt[of "length ys" c]
    by (auto simp: next_cap_def grown_def vec_GrowthFactor_def InitialCapacity_def)
  from Cons.IH[OF _ this] Cons.prems room show ?case
    unfolding append_is_push by (simp add: push_back_of)
qed auto

text \<open>
  C23: Pushing \<open>n\<close> elements one by one onto a new vector gives exactly these elements, in a buffer of at
  least \<open>n\<close> and less than \<open>2 * n\<close> cells, and the allocator is never asked for more than that: while
  \<open>2 * n\<close> stays within its limit, no push fails.
\<close>

lemma pushing_doubles:
  assumes "xs \<noteq> []" "2 * length xs \<le> Suc mx"
  shows "\<exists>v. vec_do_all mx mv (map PushBack xs) vec_empty = Inr (replicate (length xs) (None, None), v) \<and> vec_ok v \<and> vec_list v = xs
    \<and> length xs \<le> v_cap v \<and> v_cap v < 2 * length xs"
proof -
  have "vec_do_all mx mv (map PushBack xs) v
      = and_then (vec_append mx mv xs v) (\<lambda>v. Inr (replicate (length xs) (None, None), v))" for v
    by (induction xs arbitrary: v)
      (simp_all add: append_is_push silent_def and_then_def split: sum.split del: vec_append.simps(2))
  then show ?thesis
    using append_cap[of "[]" 0 xs mx mv] assms by (auto simp: vec_empty_of)
qed

lemma pushing_doubles_witness:
  "\<exists>v. vec_do_all 100 id (map PushBack [3, 1, 2 :: nat]) vec_empty
      = Inr (replicate (length [3, 1, 2 :: nat]) (None, None), v) \<and> vec_ok v \<and> vec_list v = [3, 1, 2]
    \<and> length [3, 1, 2 :: nat] \<le> v_cap v \<and> v_cap v < 2 * length [3, 1, 2 :: nat]"
  by (rule pushing_doubles) simp_all

end
