(* ===== verification/BString.thy ===== *)
theory BString
  imports Memory
begin

text \<open>
  The string of \<^verbatim>\<open>libs/base/string.hpp\<close> for \<^verbatim>\<open>char\<close>: up to 15 characters in the object, longer ones in an
  allocated buffer, always followed by a zero. The union of the two layouts is a datatype with one
  constructor per layout, which also stands for \<^verbatim>\<open>_isLong\<close>. Characters are trivial objects: a cell is
  indeterminate (\<open>None\<close>) or holds a character, writing needs a cell inside the buffer, and reading an
  indeterminate one is the error \<open>Undefined\<close>. Switching from the long to the short layout leaves the
  short buffer indeterminate.
\<close>

section \<open>The representation\<close>

datatype bstring = Short "char cells" nat | Long "char cells" nat nat

text \<open>\<open>SSO_Capacity\<close> on a platform with 8-byte pointers and sizes.\<close>

definition SSO_Capacity :: nat where "SSO_Capacity = (8 + 8) div 1 - 1"
definition bs_GrowthFactor :: nat where "bs_GrowthFactor = 2"
definition bs_npos :: nat where "bs_npos = 18446744073709551615"

fun bs_size :: "bstring \<Rightarrow> nat" where
  "bs_size (Short d n) = n"
| "bs_size (Long d n c) = n"

fun bs_capacity :: "bstring \<Rightarrow> nat" where
  "bs_capacity (Short d n) = SSO_Capacity"
| "bs_capacity (Long d n c) = c"

fun bs_data :: "bstring \<Rightarrow> char cells" where
  "bs_data (Short d n) = d"
| "bs_data (Long d n c) = d"

definition bs_is_empty :: "bstring \<Rightarrow> bool" where
  "bs_is_empty b \<longleftrightarrow> bs_size b = 0"

text \<open>Updates of the contents and of the size in whichever layout the string has.\<close>

fun set_data :: "char cells \<Rightarrow> bstring \<Rightarrow> bstring" where
  "set_data d' (Short d n) = Short d' n"
| "set_data d' (Long d n c) = Long d' n c"

fun set_size :: "nat \<Rightarrow> bstring \<Rightarrow> bstring" where
  "set_size n' (Short d n) = Short d n'"
| "set_size n' (Long d n c) = Long d n' c"

definition poke :: "char cells \<Rightarrow> nat \<Rightarrow> char \<Rightarrow> char cells res" where
  "poke d i c = (if i < length d then Inr (d[i := Some c]) else Inl Undefined)"

text \<open>\<^verbatim>\<open>t_Traits::copy(dst + off, src, n)\<close>, \<^verbatim>\<open>t_Traits::compare(a + i, b + j, n)\<close> and \<^verbatim>\<open>t_Traits::length(s)\<close>.\<close>

definition traits_copy :: "char cells \<Rightarrow> nat \<Rightarrow> char cells \<Rightarrow> nat \<Rightarrow> char cells res" where
  "traits_copy dst off src n =
     for_each [0..<n] (\<lambda>i dst. and_then (cell_get src i) (poke dst (off + i))) dst"

fun traits_compare :: "char cells \<Rightarrow> nat \<Rightarrow> char cells \<Rightarrow> nat \<Rightarrow> nat \<Rightarrow> int res" where
  "traits_compare a i b j 0 = Inr 0"
| "traits_compare a i b j (Suc n) =
     and_then (cell_get a i) (\<lambda>x. and_then (cell_get b j) (\<lambda>y.
     if x < y then Inr (- 1) else if y < x then Inr 1 else traits_compare a (Suc i) b (Suc j) n))"

fun traits_length :: "char cells \<Rightarrow> nat res" where
  "traits_length [] = Inl Undefined"
| "traits_length (None # s) = Inl Undefined"
| "traits_length (Some c # s) =
     (if c = CHR 0x00 then Inr 0 else and_then (traits_length s) (\<lambda>n. Inr (Suc n)))"

section \<open>Construction\<close>

definition bs_empty :: bstring where
  "bs_empty = Short (replicate (SSO_Capacity + 1) (Some (CHR 0x00))) 0"

definition bs_make :: "nat \<Rightarrow> char cells \<Rightarrow> nat \<Rightarrow> bstring res" where
  "bs_make mx s n =
     (if n \<le> SSO_Capacity then
        and_then (traits_copy (bs_data bs_empty) 0 s n) (\<lambda>d.
        and_then (poke d n (CHR 0x00)) (\<lambda>d. Inr (Short d n)))
      else
        and_then (allocate mx (n + 1)) (\<lambda>d.
        and_then (traits_copy d 0 s n) (\<lambda>d.
        and_then (poke d n (CHR 0x00)) (\<lambda>d. Inr (Long d n n)))))"

text \<open>From a zero-terminated string and from a view.\<close>

definition bs_of_cstr :: "nat \<Rightarrow> char cells \<Rightarrow> bstring res" where
  "bs_of_cstr mx s = and_then (traits_length s) (bs_make mx s)"

definition bs_of_view :: "nat \<Rightarrow> string \<Rightarrow> bstring res" where
  "bs_of_view mx sv = bs_make mx (map Some sv) (length sv)"

definition bs_copy :: "nat \<Rightarrow> bstring \<Rightarrow> bstring res" where
  "bs_copy mx other = bs_make mx (bs_data other) (bs_size other)"

fun bs_clear :: "bstring \<Rightarrow> bstring" where
  "bs_clear (Short d n) = Short (d[0 := Some (CHR 0x00)]) 0"
| "bs_clear (Long d n c) = Short ((replicate (SSO_Capacity + 1) None)[0 := Some (CHR 0x00)]) 0"

text \<open>
  Moving, by construction and by assignment: the target takes the storage as it is, the source becomes
  an empty short string. The result is the pair of target and source.
\<close>

definition bs_move :: "bstring \<Rightarrow> bstring \<times> bstring" where
  "bs_move other = (other, bs_clear other)"

text \<open>Move assignment first releases the target's buffer; what it held is gone either way.\<close>

definition bs_move_assign :: "bstring \<Rightarrow> bstring \<Rightarrow> bstring \<times> bstring" where
  "bs_move_assign other b = (other, bs_clear other)"

section \<open>Growing\<close>

definition bs_reserve :: "nat \<Rightarrow> nat \<Rightarrow> bstring \<Rightarrow> bstring res" where
  "bs_reserve mx new_cap b =
     (if new_cap \<le> bs_capacity b then Inr b
      else
        and_then (allocate mx (new_cap + 1)) (\<lambda>d.
        and_then (traits_copy d 0 (bs_data b) (bs_size b)) (\<lambda>d.
        and_then (poke d (bs_size b) (CHR 0x00)) (\<lambda>d.
        Inr (Long d (bs_size b) new_cap)))))"

definition bs_push_back :: "nat \<Rightarrow> char \<Rightarrow> bstring \<Rightarrow> bstring res" where
  "bs_push_back mx c b =
     (let curr_size = bs_size b
      in and_then (if curr_size + 1 > bs_capacity b
                   then bs_reserve mx ((curr_size + 1) * bs_GrowthFactor) b else Inr b) (\<lambda>b.
         and_then (poke (bs_data b) curr_size c) (\<lambda>d.
         and_then (poke d (curr_size + 1) (CHR 0x00)) (\<lambda>d.
         Inr (set_size (curr_size + 1) (set_data d b))))))"

definition bs_pop_back :: "bstring \<Rightarrow> bstring res" where
  "bs_pop_back b =
     (let curr_size = bs_size b
      in if curr_size = 0 then Inl Undefined
         else and_then (poke (bs_data b) (curr_size - 1) (CHR 0x00)) (\<lambda>d.
              Inr (set_size (curr_size - 1) (set_data d b))))"

definition bs_append :: "nat \<Rightarrow> bstring \<Rightarrow> bstring \<Rightarrow> bstring res" where
  "bs_append mx other b =
     (let curr_size = bs_size b;
          new_size = curr_size + bs_size other
      in and_then (if new_size > bs_capacity b
                   then bs_reserve mx (max (bs_capacity b * bs_GrowthFactor) new_size) b else Inr b) (\<lambda>b.
         and_then (traits_copy (bs_data b) curr_size (bs_data other) (bs_size other)) (\<lambda>d.
         and_then (poke d new_size (CHR 0x00)) (\<lambda>d.
         Inr (set_size new_size (set_data d b))))))"

definition bs_append_cstr :: "nat \<Rightarrow> char cells \<Rightarrow> bstring \<Rightarrow> bstring res" where
  "bs_append_cstr mx s b = and_then (bs_of_cstr mx s) (\<lambda>other. bs_append mx other b)"

text \<open>Copy assignment; \<^verbatim>\<open>clear\<close> has made the target short, so the deallocation in the second branch never runs.\<close>

definition bs_assign :: "nat \<Rightarrow> bstring \<Rightarrow> bstring \<Rightarrow> bstring res" where
  "bs_assign mx other b =
     (let b = bs_clear b; n = bs_size other
      in if n \<le> bs_capacity b then
           and_then (traits_copy (bs_data b) 0 (bs_data other) n) (\<lambda>d.
           and_then (poke d n (CHR 0x00)) (\<lambda>d. Inr (set_size n (set_data d b))))
         else
           and_then (allocate mx (n + 1)) (\<lambda>d.
           and_then (traits_copy d 0 (bs_data other) n) (\<lambda>d.
           and_then (poke d n (CHR 0x00)) (\<lambda>d. Inr (Long d n n)))))"

text \<open>The three forms of \<^verbatim>\<open>operator+\<close>.\<close>

definition bs_plus :: "nat \<Rightarrow> bstring \<Rightarrow> bstring \<Rightarrow> bstring res" where
  "bs_plus mx a b = and_then (bs_copy mx a) (bs_append mx b)"

definition bs_plus_cstr :: "nat \<Rightarrow> bstring \<Rightarrow> char cells \<Rightarrow> bstring res" where
  "bs_plus_cstr mx a b = and_then (bs_copy mx a) (bs_append_cstr mx b)"

definition cstr_plus_bs :: "nat \<Rightarrow> char cells \<Rightarrow> bstring \<Rightarrow> bstring res" where
  "cstr_plus_bs mx a b = and_then (bs_of_cstr mx a) (bs_append mx b)"

section \<open>Access, search, comparison\<close>

definition bs_at :: "bstring \<Rightarrow> nat \<Rightarrow> char res" where
  "bs_at b pos = (if pos \<ge> bs_size b then Inl OutOfRange else cell_get (bs_data b) pos)"

definition bs_front :: "bstring \<Rightarrow> char res" where
  "bs_front b = cell_get (bs_data b) 0"

definition bs_back :: "bstring \<Rightarrow> char res" where
  "bs_back b = (if bs_size b = 0 then Inl Undefined else cell_get (bs_data b) (bs_size b - 1))"

definition bs_view :: "bstring \<Rightarrow> string" where
  "bs_view b = map the (take (bs_size b) (bs_data b))"

text \<open>A loop over indices that returns the first one for which the test holds.\<close>

fun first_index :: "nat list \<Rightarrow> (nat \<Rightarrow> bool res) \<Rightarrow> nat res" where
  "first_index [] test = Inr bs_npos"
| "first_index (i # is) test = and_then (test i) (\<lambda>t. if t then Inr i else first_index is test)"

definition bs_find :: "bstring \<Rightarrow> nat \<Rightarrow> bstring \<Rightarrow> nat res" where
  "bs_find str pos b =
     (if pos > bs_size b then Inr bs_npos
      else let s = bs_size b; n = bs_size str
           in if n = 0 then Inr pos
              else if n > s - pos then Inr bs_npos
              else first_index [pos..<s - n + 1]
                     (\<lambda>i. and_then (traits_compare (bs_data b) i (bs_data str) 0 n) (\<lambda>r. Inr (r = 0))))"

definition bs_find_char :: "char \<Rightarrow> nat \<Rightarrow> bstring \<Rightarrow> nat res" where
  "bs_find_char c pos b =
     (if pos \<ge> bs_size b then Inr bs_npos
      else first_index [pos..<bs_size b] (\<lambda>i. and_then (cell_get (bs_data b) i) (\<lambda>x. Inr (x = c))))"

definition bs_find_cstr :: "nat \<Rightarrow> char cells \<Rightarrow> nat \<Rightarrow> bstring \<Rightarrow> nat res" where
  "bs_find_cstr mx s pos b = and_then (bs_of_cstr mx s) (\<lambda>str. bs_find str pos b)"

definition bs_substr :: "nat \<Rightarrow> nat \<Rightarrow> nat \<Rightarrow> bstring \<Rightarrow> bstring res" where
  "bs_substr mx pos n b =
     (if pos > bs_size b then Inl OutOfRange
      else bs_make mx (drop pos (bs_data b)) (min n (bs_size b - pos)))"

definition bs_starts_with :: "bstring \<Rightarrow> bstring \<Rightarrow> bool res" where
  "bs_starts_with pre b =
     (if bs_size pre > bs_size b then Inr False
      else and_then (traits_compare (bs_data b) 0 (bs_data pre) 0 (bs_size pre)) (\<lambda>r. Inr (r = 0)))"

definition bs_starts_with_char :: "char \<Rightarrow> bstring \<Rightarrow> bool res" where
  "bs_starts_with_char c b = (if bs_is_empty b then Inr False else and_then (bs_front b) (\<lambda>x. Inr (x = c)))"

definition bs_starts_with_cstr :: "nat \<Rightarrow> char cells \<Rightarrow> bstring \<Rightarrow> bool res" where
  "bs_starts_with_cstr mx s b = and_then (bs_of_cstr mx s) (\<lambda>pre. bs_starts_with pre b)"

definition bs_ends_with :: "bstring \<Rightarrow> bstring \<Rightarrow> bool res" where
  "bs_ends_with suf b =
     (if bs_size suf > bs_size b then Inr False
      else and_then (traits_compare (bs_data b) (bs_size b - bs_size suf) (bs_data suf) 0 (bs_size suf))
             (\<lambda>r. Inr (r = 0)))"

definition bs_ends_with_char :: "char \<Rightarrow> bstring \<Rightarrow> bool res" where
  "bs_ends_with_char c b = (if bs_is_empty b then Inr False else and_then (bs_back b) (\<lambda>x. Inr (x = c)))"

definition bs_ends_with_cstr :: "nat \<Rightarrow> char cells \<Rightarrow> bstring \<Rightarrow> bool res" where
  "bs_ends_with_cstr mx s b = and_then (bs_of_cstr mx s) (\<lambda>suf. bs_ends_with suf b)"

definition bs_equal :: "bstring \<Rightarrow> bstring \<Rightarrow> bool res" where
  "bs_equal b other =
     (if bs_size b \<noteq> bs_size other then Inr False
      else and_then (traits_compare (bs_data b) 0 (bs_data other) 0 (bs_size b)) (\<lambda>r. Inr (r = 0)))"

definition bs_less :: "bstring \<Rightarrow> bstring \<Rightarrow> bool res" where
  "bs_less b other =
     (let n = min (bs_size b) (bs_size other)
      in and_then (traits_compare (bs_data b) 0 (bs_data other) 0 n) (\<lambda>cmp.
         Inr (if cmp \<noteq> 0 then cmp < 0 else bs_size b < bs_size other)))"

section \<open>What a string holds\<close>

text \<open>A well-formed string: a buffer of \<open>capacity + 1\<close> cells that holds \<open>size\<close> characters and then a zero.\<close>

definition bs_ok :: "bstring \<Rightarrow> bool" where
  "bs_ok b \<longleftrightarrow> bs_size b \<le> bs_capacity b \<and> length (bs_data b) = bs_capacity b + 1
     \<and> (\<forall>i<bs_size b. bs_data b ! i \<noteq> None) \<and> bs_data b ! bs_size b = Some (CHR 0x00)"

lemma bs_okI:
  assumes "bs_data b = map Some s @ Some (CHR 0x00) # junk" "bs_size b = length s"
    "length (bs_data b) = bs_capacity b + 1"
  shows "bs_ok b" "bs_view b = s"
  using assms by (auto simp: bs_ok_def bs_view_def nth_append comp_def)

lemma bs_ok_view:
  assumes "bs_ok b"
  shows "take (bs_size b) (bs_data b) = map Some (bs_view b)" "length (bs_view b) = bs_size b"
proof -
  show "length (bs_view b) = bs_size b" using assms by (simp add: bs_view_def bs_ok_def)
  show "take (bs_size b) (bs_data b) = map Some (bs_view b)"
    using assms by (intro nth_equalityI) (auto simp: bs_view_def bs_ok_def)
qed

lemma bs_okE:
  assumes "bs_ok b"
  obtains junk where "bs_data b = map Some (bs_view b) @ Some (CHR 0x00) # junk"
    "length (bs_view b) = bs_size b" "bs_size b \<le> bs_capacity b" "length junk = bs_capacity b - bs_size b"
proof
  let ?n = "bs_size b"
  have len: "?n < length (bs_data b)" using assms by (simp add: bs_ok_def)
  then have "bs_data b = take ?n (bs_data b) @ bs_data b ! ?n # drop (Suc ?n) (bs_data b)"
    by (rule id_take_nth_drop)
  then show "bs_data b = map Some (bs_view b) @ Some (CHR 0x00) # drop (Suc ?n) (bs_data b)"
    using assms bs_ok_view(1)[OF assms] by (simp add: bs_ok_def)
qed (use assms bs_ok_view(2)[OF assms] in \<open>simp_all add: bs_ok_def\<close>)

lemma set_sels [simp]:
  "bs_size (set_size n b) = n" "bs_data (set_size n b) = bs_data b" "bs_capacity (set_size n b) = bs_capacity b"
  "bs_size (set_data d b) = bs_size b" "bs_data (set_data d b) = d" "bs_capacity (set_data d b) = bs_capacity b"
  by (cases b; simp)+

lemma SSO_Capacity_eq: "SSO_Capacity = 15"
  by (simp add: SSO_Capacity_def)

lemma bs_empty_ok [simp]: "bs_ok bs_empty" "bs_view bs_empty = []"
  by (auto simp: bs_ok_def bs_empty_def bs_view_def)

lemma bs_clear_ok:
  assumes "bs_ok b"
  shows "bs_ok (bs_clear b)" "bs_view (bs_clear b) = []" "bs_capacity (bs_clear b) = SSO_Capacity"
    "bs_size (bs_clear b) = 0" "length (bs_data (bs_clear b)) = SSO_Capacity + 1"
  using assms by (cases b; auto simp: bs_ok_def bs_view_def)+

section \<open>Copying and comparing characters\<close>

lemma traits_copy_eq:
  assumes src: "take n src = map Some s" "length s = n" and room: "off + n \<le> length dst"
  shows "traits_copy dst off src n = Inr (take off dst @ map Some s @ drop (off + n) dst)"
proof -
  let ?S = "\<lambda>j. take off dst @ map Some (take j s) @ drop (off + j) dst"
  have "for_each [0..<n] (\<lambda>i dst. and_then (cell_get src i) (poke dst (off + i))) (?S 0) = Inr (?S n)"
  proof (rule for_each_up)
    fix i assume i: "0 \<le> i" "i < n"
    have len: "n \<le> length src" using src by (metis length_map length_take min.absorb_iff2 min.commute)
    have "take n src ! i = Some (s ! i)" using src i by simp
    then have "cell_get src i = Inr (s ! i)" using i len by (simp add: cell_get_def)
    moreover have "drop (off + i) dst = dst ! (off + i) # drop (off + Suc i) dst"
      using i room by (simp add: Cons_nth_drop_Suc)
    then have "(?S i)[off + i := Some (s ! i)] = ?S (Suc i)"
      using i src room by (simp add: list_update_append take_Suc_conv_app_nth min_def)
    ultimately show "and_then (cell_get src i) (poke (?S i) (off + i)) = Inr (?S (Suc i))"
      using i src room by (simp add: poke_def)
  qed simp
  moreover have "?S 0 = dst" by simp
  ultimately show ?thesis using src(2) by (simp add: traits_copy_def)
qed

text \<open>Copying into the front of a buffer and closing with a zero.\<close>

lemma copy_terminate:
  assumes "take n src = map Some s" "length s = n" "n < length d"
  shows "and_then (traits_copy d 0 src n) (\<lambda>d. and_then (poke d n (CHR 0x00)) f)
       = f (map Some s @ Some (CHR 0x00) # drop (n + 1) d)"
proof -
  have "drop n d = d ! n # drop (Suc n) d" using assms by (simp add: Cons_nth_drop_Suc)
  then have "(map Some s @ drop n d)[n := Some (CHR 0x00)] = map Some s @ Some (CHR 0x00) # drop (n + 1) d"
    using assms(2) by (simp add: list_update_append)
  then show ?thesis using assms traits_copy_eq[OF assms(1,2), of 0 d] by (simp add: poke_def)
qed

lemma traits_compare_take:
  assumes "take n (drop i a) = map Some s" "length s = n" "take n (drop j b) = map Some t" "length t = n"
  shows "\<exists>r. traits_compare a i b j n = Inr r \<and> (r = 0 \<longleftrightarrow> s = t) \<and> (r < 0 \<longleftrightarrow> s < t)"
  using assms
proof (induction n arbitrary: i j s t)
  case (Suc n)
  obtain x s' y t' where st: "s = x # s'" "t = y # t'"
    using Suc.prems by (metis Suc_length_conv)
  have i: "i < length a" "a ! i = Some x" "take n (drop (Suc i) a) = map Some s'"
    and j: "j < length b" "b ! j = Some y" "take n (drop (Suc j) b) = map Some t'"
    using Suc.prems st by (cases "i < length a"; cases "j < length b";
        simp add: Cons_nth_drop_Suc[symmetric] drop_eq_Nil2)+
  have IH: "\<exists>r. traits_compare a (Suc i) b (Suc j) n = Inr r \<and> (r = 0 \<longleftrightarrow> s' = t') \<and> (r < 0 \<longleftrightarrow> s' < t')"
    using Suc.IH[OF i(3) _ j(3)] Suc.prems st by simp
  show ?case
    using i j IH st by (cases x y rule: linorder_cases) (auto simp: cell_get_def)
qed simp

lemma traits_length_eq:
  assumes "CHR 0x00 \<notin> set s"
  shows "traits_length (map Some s @ Some (CHR 0x00) # rest) = Inr (length s)"
  using assms by (induction s) auto

section \<open>The operations on buffers are the operations on strings\<close>

text \<open>The operation returns a well-formed string with these characters, unless the allocator refuses.\<close>

definition gives :: "bstring res \<Rightarrow> string \<Rightarrow> bool" where
  "gives r s \<longleftrightarrow> r = Inl BadAlloc \<or> (\<exists>b. r = Inr b \<and> bs_ok b \<and> bs_view b = s)"

lemma gives_simps [simp]:
  "gives (Inl BadAlloc) s" "gives (Inr b) s \<longleftrightarrow> bs_ok b \<and> bs_view b = s"
  by (auto simp: gives_def)

lemma gives_then:
  "gives r s \<Longrightarrow> (\<And>b. bs_ok b \<Longrightarrow> bs_view b = s \<Longrightarrow> gives (f b) t) \<Longrightarrow> gives (and_then r f) t"
  unfolding gives_def[of r] by (elim disjE exE conjE) simp_all

lemma long_ok:
  assumes "d = map Some s @ Some (CHR 0x00) # junk" "length d = c + 1"
  shows "gives (Inr (Long d (length s) c)) s"
  using bs_okI[of "Long d (length s) c" s junk] assms by simp

lemma short_ok:
  assumes "d = map Some s @ Some (CHR 0x00) # junk" "length d = SSO_Capacity + 1"
  shows "gives (Inr (Short d (length s))) s"
  using bs_okI[of "Short d (length s)" s junk] assms by simp

lemma make_gives:
  assumes "take n src = map Some s" "length s = n"
  shows "gives (bs_make mx src n) s"
proof (cases "n \<le> SSO_Capacity")
  case True
  then have "bs_make mx src n = Inr (Short (map Some s @ Some (CHR 0x00) # drop (n + 1) (bs_data bs_empty)) n)"
    using assms by (simp add: bs_make_def copy_terminate bs_empty_def)
  moreover have "length (drop (n + 1) (bs_data bs_empty)) = SSO_Capacity - n"
    by (simp add: bs_empty_def)
  ultimately show ?thesis
    using True assms short_ok[OF refl, of s "drop (n + 1) (bs_data bs_empty)"] by simp
next
  case False
  show ?thesis
  proof (cases "n + 1 \<le> mx")
    case True
    then have "bs_make mx src n = Inr (Long (map Some s @ [Some (CHR 0x00)]) n n)"
      using False assms by (simp add: bs_make_def allocate_def copy_terminate)
    then show ?thesis using assms(2) long_ok[OF refl, of s "[]" n] by simp
  qed (use False in \<open>simp add: bs_make_def allocate_def\<close>)
qed

lemma of_view_gives: "gives (bs_of_view mx s) s"
  by (simp add: bs_of_view_def make_gives)

lemma of_cstr_gives: "CHR 0x00 \<notin> set s \<Longrightarrow> gives (bs_of_cstr mx (map Some s @ Some (CHR 0x00) # rest)) s"
  by (simp add: bs_of_cstr_def traits_length_eq make_gives)

lemma copy_gives: "bs_ok b \<Longrightarrow> gives (bs_copy mx b) (bs_view b)"
  by (simp add: bs_copy_def make_gives bs_ok_view)

lemma substr_gives:
  assumes "bs_ok b" "pos \<le> bs_size b"
  shows "gives (bs_substr mx pos n b) (take n (drop pos (bs_view b)))"
proof -
  let ?m = "min n (bs_size b - pos)"
  have "take (bs_size b - pos) (drop pos (bs_data b)) = drop pos (take (bs_size b) (bs_data b))"
    by (simp add: drop_take)
  also have "\<dots> = map Some (drop pos (bs_view b))"
    using assms bs_ok_view(1) by (metis drop_map)
  finally have "take ?m (drop pos (bs_data b)) = map Some (take n (drop pos (bs_view b)))"
    by (metis min.commute take_map take_take)
  moreover have "length (take n (drop pos (bs_view b))) = ?m"
    using bs_ok_view(2)[OF assms(1)] by simp
  ultimately show ?thesis using assms by (simp add: bs_substr_def make_gives)
qed

lemma reserve_cases:
  assumes "bs_ok b"
  shows "bs_reserve mx n b = Inr b \<and> n \<le> bs_capacity b \<or> bs_reserve mx n b = Inl BadAlloc \<and> mx < n + 1
    \<or> (\<exists>b'. bs_reserve mx n b = Inr b' \<and> bs_ok b' \<and> bs_view b' = bs_view b \<and> bs_capacity b' = n \<and> n + 1 \<le> mx)"
proof (cases "n \<le> bs_capacity b \<or> mx < n + 1")
  case False
  obtain junk where b: "length (bs_view b) = bs_size b" "bs_size b \<le> bs_capacity b"
    using assms by (rule bs_okE)
  have "bs_reserve mx n b
      = Inr (Long (map Some (bs_view b) @ Some (CHR 0x00) # drop (bs_size b + 1) (replicate (n + 1) None)) (bs_size b) n)"
    using False b bs_ok_view[OF assms] by (simp add: bs_reserve_def allocate_def copy_terminate)
  moreover have "gives (Inr (Long (map Some (bs_view b) @ Some (CHR 0x00) # drop (bs_size b + 1) (replicate (n + 1) None)) (bs_size b) n)) (bs_view b)"
    using False b long_ok[OF refl, of "bs_view b" "drop (bs_size b + 1) (replicate (n + 1) None)" n] by simp
  ultimately show ?thesis using False by simp
qed (auto simp: bs_reserve_def allocate_def)

lemma reserve_gives: "bs_ok b \<Longrightarrow> gives (bs_reserve mx n b) (bs_view b)"
  using reserve_cases[of b mx n] by auto

text \<open>Growing to at least \<open>n\<close>, as \<^verbatim>\<open>push_back\<close> and \<^verbatim>\<open>+=\<close> do.\<close>

lemma room_cases:
  assumes "bs_ok b" "n \<le> m"
  shows "(if n > bs_capacity b then bs_reserve mx m b else Inr b) = Inl BadAlloc \<and> n > bs_capacity b \<and> mx < m + 1
    \<or> (\<exists>b'. (if n > bs_capacity b then bs_reserve mx m b else Inr b) = Inr b' \<and> bs_ok b'
          \<and> bs_view b' = bs_view b \<and> n \<le> bs_capacity b' \<and> (n > bs_capacity b \<longrightarrow> m + 1 \<le> mx))"
  using assms reserve_cases[of b mx m] by auto

text \<open>Writing behind the characters of a string that has room.\<close>

lemma write_end:
  assumes "bs_ok b" "take (length t) src = map Some t" "bs_size b + length t \<le> bs_capacity b"
  shows "\<exists>d. traits_copy (bs_data b) (bs_size b) src (length t) = Inr d
    \<and> (\<exists>d'. poke d (bs_size b + length t) (CHR 0x00) = Inr d'
        \<and> gives (Inr (set_size (bs_size b + length t) (set_data d' b))) (bs_view b @ t))"
proof -
  obtain junk where b: "bs_data b = map Some (bs_view b) @ Some (CHR 0x00) # junk"
    "length (bs_view b) = bs_size b" "length junk = bs_capacity b - bs_size b"
    using assms(1) by (rule bs_okE)
  let ?rest = "drop (length t) (Some (CHR 0x00) # junk)"
  let ?d = "map Some (bs_view b @ t) @ ?rest"
  have "traits_copy (bs_data b) (bs_size b) src (length t) = Inr ?d"
    using assms b by (subst traits_copy_eq[of _ _ t]) auto
  moreover have "?rest \<noteq> []" using assms(3) b(3) by simp
  then obtain x xs where xs: "?rest = x # xs" by (cases ?rest) auto
  then have "poke ?d (bs_size b + length t) (CHR 0x00)
      = Inr (map Some (bs_view b @ t) @ Some (CHR 0x00) # List.tl ?rest)"
    unfolding xs using b(2) by (simp add: poke_def list_update_append)
  moreover have "length (map Some (bs_view b @ t) @ Some (CHR 0x00) # List.tl ?rest) = bs_capacity b + 1"
    using assms(3) b by simp
  then have "gives (Inr (set_size (bs_size b + length t)
      (set_data (map Some (bs_view b @ t) @ Some (CHR 0x00) # List.tl ?rest) b))) (bs_view b @ t)"
    using b(2) bs_okI[of "set_size (bs_size b + length t)
      (set_data (map Some (bs_view b @ t) @ Some (CHR 0x00) # List.tl ?rest) b)" "bs_view b @ t" "List.tl ?rest"]
    by simp
  ultimately show ?thesis by blast
qed

lemma append_gives:
  assumes "bs_ok b" "bs_ok other"
  shows "gives (bs_append mx other b) (bs_view b @ bs_view other)"
proof -
  let ?n = "bs_size b + bs_size other"
  have o: "take (length (bs_view other)) (bs_data other) = map Some (bs_view other)"
    "length (bs_view other) = bs_size other"
    using bs_ok_view[OF assms(2)] by simp_all
  show ?thesis
    using room_cases[OF assms(1) max.cobounded2, of ?n mx "bs_capacity b * bs_GrowthFactor"]
  proof (elim disjE exE conjE)
    fix b' assume b': "(if ?n > bs_capacity b then bs_reserve mx (max (bs_capacity b * bs_GrowthFactor) ?n) b else Inr b) = Inr b'"
      "bs_ok b'" "bs_view b' = bs_view b" "?n \<le> bs_capacity b'"
    have "bs_size b' = bs_size b" using b' assms by (metis bs_ok_view(2))
    then show ?thesis
      using write_end[OF b'(2) o(1)] b' o(2) unfolding bs_append_def Let_def by fastforce
  qed (auto simp: bs_append_def)
qed

lemma append_cstr_gives:
  "bs_ok b \<Longrightarrow> CHR 0x00 \<notin> set s \<Longrightarrow>
     gives (bs_append_cstr mx (map Some s @ Some (CHR 0x00) # rest) b) (bs_view b @ s)"
  unfolding bs_append_cstr_def by (rule gives_then[OF of_cstr_gives]) (auto intro: append_gives)

lemma push_back_cases:
  assumes "bs_ok b"
  defines "m \<equiv> (bs_size b + 1) * bs_GrowthFactor"
  shows "bs_push_back mx c b = Inl BadAlloc \<and> bs_size b + 1 > bs_capacity b \<and> mx < m + 1
    \<or> (\<exists>b'. bs_push_back mx c b = Inr b' \<and> bs_ok b' \<and> bs_view b' = bs_view b @ [c]
          \<and> (bs_size b + 1 > bs_capacity b \<longrightarrow> m + 1 \<le> mx))"
proof -
  have m: "bs_size b + 1 \<le> m" by (simp add: m_def bs_GrowthFactor_def)
  show ?thesis
    using room_cases[OF assms(1) m, of mx]
  proof (elim disjE exE conjE)
    fix b' assume b': "(if bs_size b + 1 > bs_capacity b then bs_reserve mx m b else Inr b) = Inr b'"
      "bs_ok b'" "bs_view b' = bs_view b" "bs_size b + 1 \<le> bs_capacity b'" "bs_size b + 1 > bs_capacity b \<longrightarrow> m + 1 \<le> mx"
    have size: "bs_size b' = bs_size b" using b' assms by (metis bs_ok_view(2))
    have "traits_copy (bs_data b') (bs_size b') [Some c] 1 = poke (bs_data b') (bs_size b') c"
      by (simp add: traits_copy_def cell_get_def and_then_def split: sum.split)
    then obtain d d' where "poke (bs_data b') (bs_size b) c = Inr d"
      "poke d (bs_size b + 1) (CHR 0x00) = Inr d'"
      "gives (Inr (set_size (bs_size b + 1) (set_data d' b'))) (bs_view b @ [c])"
      using write_end[OF b'(2), of "[c]" "[Some c]"] b' size by auto
    moreover from this have "bs_push_back mx c b = Inr (set_size (bs_size b + 1) (set_data d' b'))"
      unfolding bs_push_back_def Let_def m_def[symmetric] b'(1) by simp
    ultimately show ?thesis using b'(5) by simp
  qed (auto simp: bs_push_back_def m_def)
qed

lemma pop_back_gives:
  assumes "bs_ok b" "bs_view b \<noteq> []"
  shows "gives (bs_pop_back b) (butlast (bs_view b))"
proof -
  obtain junk where b: "bs_data b = map Some (bs_view b) @ Some (CHR 0x00) # junk"
    "length (bs_view b) = bs_size b" "length junk = bs_capacity b - bs_size b" "bs_size b \<le> bs_capacity b"
    using assms(1) by (rule bs_okE)
  have n: "0 < bs_size b" using assms(2) b(2) by (metis length_greater_0_conv)
  have "bs_view b = butlast (bs_view b) @ [List.last (bs_view b)]" using assms(2) by simp
  then have "bs_data b = map Some (butlast (bs_view b)) @ Some (List.last (bs_view b)) # Some (CHR 0x00) # junk"
    using b(1) by (metis append.assoc append_Cons append_Nil list.simps(8,9) map_append)
  then have "poke (bs_data b) (bs_size b - 1) (CHR 0x00)
      = Inr (map Some (butlast (bs_view b)) @ Some (CHR 0x00) # Some (CHR 0x00) # junk)"
    using b(2) n by (simp add: poke_def list_update_append)
  then show ?thesis
    using n b bs_okI[of "set_size (bs_size b - 1) (set_data (map Some (butlast (bs_view b)) @ Some (CHR 0x00) # Some (CHR 0x00) # junk) b)"
      "butlast (bs_view b)" "Some (CHR 0x00) # junk"]
    by (simp add: bs_pop_back_def)
qed

lemma assign_gives:
  assumes "bs_ok b" "bs_ok other"
  shows "gives (bs_assign mx other b) (bs_view other)"
proof -
  let ?n = "bs_size other"
  note o = bs_ok_view[OF assms(2)] and c = bs_clear_ok[OF assms(1)]
  show ?thesis
  proof (cases "?n \<le> SSO_Capacity")
    case True
    let ?d = "map Some (bs_view other) @ Some (CHR 0x00) # drop (?n + 1) (bs_data (bs_clear b))"
    have "bs_assign mx other b = Inr (set_size ?n (set_data ?d (bs_clear b)))"
      using True o c by (simp add: bs_assign_def Let_def copy_terminate)
    then show ?thesis
      using True o c bs_okI[of "set_size ?n (set_data ?d (bs_clear b))" "bs_view other" "drop (?n + 1) (bs_data (bs_clear b))"]
      by simp
  next
    case False
    show ?thesis
    proof (cases "?n + 1 \<le> mx")
      case True
      then have "bs_assign mx other b = Inr (Long (map Some (bs_view other) @ [Some (CHR 0x00)]) ?n ?n)"
        using False o c by (simp add: bs_assign_def Let_def allocate_def copy_terminate)
      then show ?thesis using o(2) long_ok[OF refl, of "bs_view other" "[]" ?n] by simp
    qed (use False c in \<open>simp add: bs_assign_def allocate_def\<close>)
  qed
qed

section \<open>Searching and comparing\<close>

lemma first_index_eq:
  assumes "\<And>i. i \<in> set is \<Longrightarrow> test i = Inr (P i)"
  shows "first_index is test = Inr (case filter P is of [] \<Rightarrow> bs_npos | i # _ \<Rightarrow> i)"
  using assms by (induction "is") auto

text \<open>The first position at or after \<open>pos\<close> where \<open>t\<close> occurs in \<open>s\<close>; the empty string occurs everywhere.\<close>

definition occurrence :: "string \<Rightarrow> nat \<Rightarrow> string \<Rightarrow> nat" where
  "occurrence t pos s =
     (case filter (\<lambda>i. prefix t (drop i s)) [pos..<Suc (length s)] of [] \<Rightarrow> bs_npos | i # _ \<Rightarrow> i)"

lemma compare_view:
  assumes "bs_ok a" "bs_ok b" "i + n \<le> bs_size a" "j + n \<le> bs_size b"
  shows "\<exists>r. traits_compare (bs_data a) i (bs_data b) j n = Inr r
    \<and> (r = 0 \<longleftrightarrow> take n (drop i (bs_view a)) = take n (drop j (bs_view b)))
    \<and> (r < 0 \<longleftrightarrow> take n (drop i (bs_view a)) < take n (drop j (bs_view b)))"
proof (rule traits_compare_take)
  have part: "take n (drop i (bs_data a)) = map Some (take n (drop i (bs_view a)))"
    if "bs_ok a" "i + n \<le> bs_size a" for a i
  proof -
    have "take n (drop i (bs_data a)) = take n (drop i (take (bs_size a) (bs_data a)))"
      using that by (simp add: drop_take min_def)
    then show ?thesis using that by (simp add: bs_ok_view take_map drop_map)
  qed
  show "take n (drop i (bs_data a)) = map Some (take n (drop i (bs_view a)))"
    "take n (drop j (bs_data b)) = map Some (take n (drop j (bs_view b)))"
    using assms part by blast+
qed (use assms in \<open>auto simp: bs_ok_view(2)\<close>)

lemma prefix_take: "length t = n \<Longrightarrow> i + n \<le> length s \<Longrightarrow> prefix t (drop i s) \<longleftrightarrow> take n (drop i s) = t"
  by (metis append_eq_conv_conj append_take_drop_id prefix_def)

lemma filter_upt_none:
  assumes "\<And>i. a \<le> i \<Longrightarrow> i < b \<Longrightarrow> \<not> P i"
  shows "filter P [a..<b] = []"
  using assms by (simp add: filter_empty_conv)

lemma find_eq:
  assumes b: "bs_ok b" and str: "bs_ok str"
  shows "bs_find str pos b = Inr (occurrence (bs_view str) pos (bs_view b))"
proof -
  let ?s = "bs_view b" and ?t = "bs_view str"
  let ?P = "\<lambda>i. prefix ?t (drop i ?s)"
  note len = bs_ok_view(2)[OF b] bs_ok_view(2)[OF str]
  have late: "\<not> ?P i" if "length ?s < i + length ?t" "i \<le> length ?s" for i
    using that by (auto dest: prefix_length_le)
  consider "pos > bs_size b" | "pos \<le> bs_size b" "bs_size str = 0"
    | "pos \<le> bs_size b" "bs_size str > bs_size b - pos" | "bs_size str \<noteq> 0" "pos + bs_size str \<le> bs_size b"
    by linarith
  then show ?thesis
  proof cases
    case 1
    then show ?thesis using len by (simp add: bs_find_def occurrence_def)
  next
    case 2
    then have "[pos..<Suc (length ?s)] = pos # [Suc pos..<Suc (length ?s)]" "?t = []"
      using len by (simp_all add: upt_conv_Cons del: upt_Suc)
    then show ?thesis using 2 len by (simp add: bs_find_def occurrence_def del: upt_Suc)
  next
    case 3
    then have "filter ?P [pos..<Suc (length ?s)] = []"
      using len by (intro filter_upt_none late) auto
    then show ?thesis using 3 len by (auto simp: bs_find_def occurrence_def Let_def)
  next
    case 4
    let ?m = "bs_size b - bs_size str + 1"
    have "first_index [pos..<?m] (\<lambda>i. and_then (traits_compare (bs_data b) i (bs_data str) 0 (bs_size str)) (\<lambda>r. Inr (r = 0)))
        = Inr (case filter ?P [pos..<?m] of [] \<Rightarrow> bs_npos | i # _ \<Rightarrow> i)"
    proof (rule first_index_eq)
      fix i assume "i \<in> set [pos..<?m]"
      then have i: "i + bs_size str \<le> bs_size b" using 4 by auto
      show "and_then (traits_compare (bs_data b) i (bs_data str) 0 (bs_size str)) (\<lambda>r. Inr (r = 0)) = Inr (?P i)"
        using compare_view[OF b str i, of 0] len i by (auto simp: prefix_take)
    qed
    moreover have e: "Suc (length ?s) = ?m + bs_size str" using 4 len by simp
    have "[pos..<Suc (length ?s)] = [pos..<?m] @ [?m..<Suc (length ?s)]"
      unfolding e by (rule upt_add_eq_append) (use 4 in simp)
    moreover have "filter ?P [?m..<Suc (length ?s)] = []"
      using 4 len by (intro filter_upt_none late) auto
    ultimately show ?thesis using 4 len by (simp add: bs_find_def occurrence_def Let_def del: upt_Suc)
  qed
qed

lemma find_char_eq:
  assumes "bs_ok b"
  shows "bs_find_char c pos b
       = Inr (case filter (\<lambda>i. bs_view b ! i = c) [pos..<bs_size b] of [] \<Rightarrow> bs_npos | i # _ \<Rightarrow> i)"
proof -
  have "cell_get (bs_data b) i = Inr (bs_view b ! i)" if "i < bs_size b" for i
    using that assms by (auto simp: cell_get_def bs_view_def bs_ok_def split: option.split)
  then have "first_index [pos..<bs_size b] (\<lambda>i. and_then (cell_get (bs_data b) i) (\<lambda>x. Inr (x = c)))
      = Inr (case filter (\<lambda>i. bs_view b ! i = c) [pos..<bs_size b] of [] \<Rightarrow> bs_npos | i # _ \<Rightarrow> i)"
    by (intro first_index_eq) simp
  then show ?thesis by (simp add: bs_find_char_def)
qed

lemma equal_eq:
  assumes "bs_ok a" "bs_ok b"
  shows "bs_equal a b = Inr (bs_view a = bs_view b)"
  using compare_view[OF assms, of 0 "bs_size a" 0] bs_ok_view(2)[OF assms(1)] bs_ok_view(2)[OF assms(2)]
  by (auto simp: bs_equal_def)

lemma starts_with_eq:
  assumes "bs_ok b" "bs_ok p"
  shows "bs_starts_with p b = Inr (prefix (bs_view p) (bs_view b))"
proof (cases "bs_size p \<le> bs_size b")
  case True
  then show ?thesis
    using compare_view[OF assms, of 0 "bs_size p" 0] bs_ok_view(2)[OF assms(1)] bs_ok_view(2)[OF assms(2)]
      prefix_take[of "bs_view p" "bs_size p" 0 "bs_view b"]
    by (auto simp: bs_starts_with_def)
qed (use assms in \<open>auto simp: bs_starts_with_def bs_ok_view(2)[symmetric] dest: prefix_length_le\<close>)

lemma ends_with_eq:
  assumes "bs_ok b" "bs_ok p"
  shows "bs_ends_with p b = Inr (suffix (bs_view p) (bs_view b))"
proof (cases "bs_size p \<le> bs_size b")
  case True
  have "suffix (bs_view p) (bs_view b) \<longleftrightarrow> drop (bs_size b - bs_size p) (bs_view b) = bs_view p"
    using True bs_ok_view(2)[OF assms(1)] bs_ok_view(2)[OF assms(2)]
    by (auto simp: suffix_def) (metis append_take_drop_id)
  then show ?thesis
    using True compare_view[OF assms, of "bs_size b - bs_size p" "bs_size p" 0]
      bs_ok_view(2)[OF assms(1)] bs_ok_view(2)[OF assms(2)]
    by (auto simp: bs_ends_with_def)
qed (use assms in \<open>auto simp: bs_ends_with_def bs_ok_view(2)[symmetric] dest: suffix_length_le\<close>)

lemma list_less_take:
  fixes s t :: "'a :: linorder list"
  assumes "n = min (length s) (length t)"
  shows "s < t \<longleftrightarrow> take n s < take n t \<or> take n s = take n t \<and> length s < length t"
  using assms
proof (induction s arbitrary: n t)
  case (Cons x s)
  then show ?case by (cases t) auto
next
  case Nil
  then show ?case by (cases t) simp_all
qed

lemma less_eq:
  assumes "bs_ok a" "bs_ok b"
  shows "bs_less a b = Inr (bs_view a < bs_view b)"
proof -
  let ?n = "min (bs_size a) (bs_size b)"
  have "bs_view a < bs_view b \<longleftrightarrow> take ?n (bs_view a) < take ?n (bs_view b)
      \<or> take ?n (bs_view a) = take ?n (bs_view b) \<and> bs_size a < bs_size b"
    using list_less_take[of ?n "bs_view a" "bs_view b"] bs_ok_view(2)[OF assms(1)] bs_ok_view(2)[OF assms(2)] by simp
  then show ?thesis
    using compare_view[OF assms, of 0 ?n 0] by (auto simp: bs_less_def Let_def)
qed

lemma bs_at_eq:
  "bs_ok b \<Longrightarrow> bs_at b i = (if i < bs_size b then Inr (bs_view b ! i) else Inl OutOfRange)"
  by (auto simp: bs_at_def cell_get_def bs_view_def bs_ok_def split: option.split)

section \<open>The contract of a growing container\<close>

interpretation bs_grow: growable bs_view bs_ok "bs_push_back mx"
  "\<lambda>b. bs_size b + 1 > bs_capacity b \<and> mx < (bs_size b + 1) * bs_GrowthFactor + 1"
proof unfold_locales
  fix b x
  assume ok: "bs_ok b"
  show "\<exists>b'. bs_push_back mx x b = Inr b' \<and> bs_ok b' \<and> bs_view b' = bs_view b @ [x]"
    if "\<not> (bs_size b + 1 > bs_capacity b \<and> mx < (bs_size b + 1) * bs_GrowthFactor + 1)"
    using push_back_cases[OF ok, of mx x] that by auto
  show "bs_push_back mx x b = Inl BadAlloc"
    if "bs_size b + 1 > bs_capacity b \<and> mx < (bs_size b + 1) * bs_GrowthFactor + 1"
    using push_back_cases[OF ok, of mx x] that by auto
qed

section \<open>Sequences of operations\<close>

datatype str_op = StrPush char | StrPop | StrReserve nat | StrClear | StrAppend string | StrAppendCstr string
  | StrAssign string | StrSubstr nat nat | StrMove

text \<open>
  Operands are made from views and zero-terminated arrays, as the program makes them. \<open>StrSubstr\<close> replaces the
  string by a part of it, \<open>StrMove\<close> moves its contents elsewhere.
\<close>

fun bs_do :: "nat \<Rightarrow> str_op \<Rightarrow> bstring \<Rightarrow> bstring res" where
  "bs_do mx (StrPush c) b = bs_push_back mx c b"
| "bs_do mx StrPop b = bs_pop_back b"
| "bs_do mx (StrReserve n) b = bs_reserve mx n b"
| "bs_do mx StrClear b = Inr (bs_clear b)"
| "bs_do mx (StrAppend t) b = and_then (bs_of_view mx t) (\<lambda>other. bs_append mx other b)"
| "bs_do mx (StrAppendCstr t) b = bs_append_cstr mx (map Some t @ [Some (CHR 0x00)]) b"
| "bs_do mx (StrAssign t) b = and_then (bs_of_view mx t) (\<lambda>other. bs_assign mx other b)"
| "bs_do mx (StrSubstr pos n) b = bs_substr mx pos n b"
| "bs_do mx StrMove b = Inr (snd (bs_move b))"

fun str_do :: "str_op \<Rightarrow> string \<Rightarrow> string option" where
  "str_do (StrPush c) s = Some (s @ [c])"
| "str_do StrPop s = (if s = [] then None else Some (butlast s))"
| "str_do (StrReserve n) s = Some s"
| "str_do StrClear s = Some []"
| "str_do (StrAppend t) s = Some (s @ t)"
| "str_do (StrAppendCstr t) s = (if CHR 0x00 \<in> set t then None else Some (s @ t))"
| "str_do (StrAssign t) s = Some t"
| "str_do (StrSubstr pos n) s = (if pos > length s then None else Some (take n (drop pos s)))"
| "str_do StrMove s = Some []"

fun bs_do_all :: "nat \<Rightarrow> str_op list \<Rightarrow> bstring \<Rightarrow> bstring res" where
  "bs_do_all mx [] b = Inr b"
| "bs_do_all mx (op # ops) b = and_then (bs_do mx op b) (bs_do_all mx ops)"

fun str_do_all :: "str_op list \<Rightarrow> string \<Rightarrow> string option" where
  "str_do_all [] s = Some s"
| "str_do_all (op # ops) s = (case str_do op s of None \<Rightarrow> None | Some t \<Rightarrow> str_do_all ops t)"

lemma push_gives: "bs_ok b \<Longrightarrow> gives (bs_push_back mx c b) (bs_view b @ [c])"
  using push_back_cases[of b mx c] by auto

lemma bs_do_gives:
  assumes "bs_ok b" "str_do op (bs_view b) = Some t"
  shows "gives (bs_do mx op b) t"
proof (cases op)
  case (StrAppend s)
  then show ?thesis
    using assms by (auto intro!: gives_then[OF of_view_gives] dest: append_gives)
next
  case (StrAssign s)
  then show ?thesis
    using assms by (auto intro!: gives_then[OF of_view_gives] dest: assign_gives)
qed (use assms push_gives pop_back_gives reserve_gives substr_gives append_cstr_gives[where rest = "[]"]
     in \<open>auto simp: bs_clear_ok bs_move_def bs_ok_view(2) split: if_splits\<close>)

text \<open>
  C24: Any sequence of string operations behaves as on character sequences: if every call is inside its
  contract, then either the allocator refuses a request or the string ends well formed, zero-terminated and with
  exactly the characters the list operations give, whichever layout it went through; nothing is read or
  written outside a buffer.
\<close>

lemma string_refines_lists:
  assumes "bs_ok b" "str_do_all ops (bs_view b) = Some t"
  shows "bs_do_all mx ops b = Inl BadAlloc
    \<or> (\<exists>b'. bs_do_all mx ops b = Inr b' \<and> bs_ok b' \<and> bs_view b' = t)"
  unfolding gives_def[symmetric] using assms
proof (induction ops arbitrary: b)
  case (Cons op ops)
  then obtain s where s: "str_do op (bs_view b) = Some s" "str_do_all ops s = Some t"
    by (auto split: option.splits)
  show ?case
    unfolding bs_do_all.simps
    by (rule gives_then[OF bs_do_gives[OF Cons.prems(1) s(1)]]) (use s(2) Cons.IH in auto)
qed simp

lemma string_refines_lists_witness:
  "bs_do_all 100 [StrAppend ''hello'', StrPush CHR 0x20, StrAppendCstr ''wide world'', StrPop, StrSubstr 6 4] bs_empty
     = Inl BadAlloc
   \<or> (\<exists>b. bs_do_all 100 [StrAppend ''hello'', StrPush CHR 0x20, StrAppendCstr ''wide world'', StrPop, StrSubstr 6 4] bs_empty = Inr b
        \<and> bs_ok b \<and> bs_view b = ''wide'')"
  by (rule string_refines_lists) simp_all

text \<open>
  The queries of strings are those of character sequences, across both layouts: equality, the
  lexicographic order by unsigned characters that sorts the history table, prefix, suffix, checked access, and
  \<^verbatim>\<open>find\<close>, which returns the first occurrence at or after the position or \<^verbatim>\<open>npos\<close>. All of them return.
\<close>

lemma string_queries:
  assumes "bs_ok a" "bs_ok b"
  shows "bs_equal a b = Inr (bs_view a = bs_view b)
    \<and> bs_less a b = Inr (bs_view a < bs_view b)
    \<and> bs_starts_with b a = Inr (prefix (bs_view b) (bs_view a))
    \<and> bs_ends_with b a = Inr (suffix (bs_view b) (bs_view a))
    \<and> bs_find b pos a = Inr (occurrence (bs_view b) pos (bs_view a))
    \<and> bs_at a i = (if i < length (bs_view a) then Inr (bs_view a ! i) else Inl OutOfRange)"
  using assms by (simp add: equal_eq less_eq starts_with_eq ends_with_eq find_eq bs_at_eq bs_ok_view(2))

definition example_bs :: "string \<Rightarrow> bstring" where
  "example_bs s = Long (map Some s @ [Some (CHR 0x00)]) (length s) (length s)"

lemma example_bs_ok: "bs_ok (example_bs s)" "bs_view (example_bs s) = s"
  using bs_okI[of "example_bs s" s "[]"] by (simp_all add: example_bs_def)

lemma string_queries_witness:
  "bs_equal (example_bs ''abcabc'') (example_bs ''ca'') = Inr False
    \<and> bs_less (example_bs ''abcabc'') (example_bs ''ca'') = Inr True
    \<and> bs_starts_with (example_bs ''ca'') (example_bs ''abcabc'') = Inr False
    \<and> bs_ends_with (example_bs ''ca'') (example_bs ''abcabc'') = Inr False
    \<and> bs_find (example_bs ''ca'') 1 (example_bs ''abcabc'') = Inr 2
    \<and> bs_at (example_bs ''abcabc'') 6 = Inl OutOfRange"
  using string_queries[OF example_bs_ok(1)[of "''abcabc''"] example_bs_ok(1)[of "''ca''"], of 1 6]
  by (simp add: example_bs_ok(2) occurrence_def suffix_def numeral_eq_Suc upt_rec del: upt_Suc)

end
