(* ===== verification/MapSpec.thy ===== *)
theory MapSpec
  imports Memory
begin

text \<open>
  What the associative containers of \<^verbatim>\<open>libs/base\<close> promise: looking up after an insertion, which keeps the
  entry of a key that is there, and after an erasure. Keys are compared by an equivalence, the one the hash table
  is given or the one a comparator defines. The facts derived here hold of every container that keeps the promise.
\<close>

datatype ('k, 'v) map_op = MapInsert 'k 'v | MapErase 'k

locale map_spec =
  fixes get :: "'t \<Rightarrow> 'k \<Rightarrow> 'v option"
    and ok :: "'t \<Rightarrow> bool"
    and same :: "'k \<Rightarrow> 'k \<Rightarrow> bool"
    and put :: "'k \<Rightarrow> 'v \<Rightarrow> 't \<Rightarrow> (bool \<times> 't) res"
    and del :: "'k \<Rightarrow> 't \<Rightarrow> (nat \<times> 't) res"
  assumes same_sym: "same a b \<Longrightarrow> same b a"
    and same_trans: "same a b \<Longrightarrow> same b c \<Longrightarrow> same a c"
    and same_refl: "same a a"
    and put_law: "ok t \<Longrightarrow> \<exists>t'. put k v t = Inr (get t k = None, t') \<and> ok t'
      \<and> get t' = (\<lambda>q. if same k q \<and> get t k = None then Some v else get t q)"
    and del_law: "ok t \<Longrightarrow> \<exists>t'. del k t = Inr (if get t k = None then 0 else 1, t') \<and> ok t'
      \<and> get t' = (\<lambda>q. if same k q then None else get t q)"
    and get_same: "ok t \<Longrightarrow> same a b \<Longrightarrow> get t a = get t b"
begin

fun run :: "('k, 'v) map_op list \<Rightarrow> 't \<Rightarrow> 't res" where
  "run [] t = Inr t"
| "run (MapInsert k v # ops) t = and_then (put k v t) (\<lambda>(b, t). run ops t)"
| "run (MapErase k # ops) t = and_then (del k t) (\<lambda>(n, t). run ops t)"

text \<open>The same operations on functions.\<close>

fun spec :: "('k, 'v) map_op list \<Rightarrow> ('k \<Rightarrow> 'v option) \<Rightarrow> 'k \<Rightarrow> 'v option" where
  "spec [] m = m"
| "spec (MapInsert k v # ops) m = spec ops (\<lambda>q. if same k q \<and> m k = None then Some v else m q)"
| "spec (MapErase k # ops) m = spec ops (\<lambda>q. if same k q then None else m q)"

lemma run_refines: "ok t \<Longrightarrow> \<exists>t'. run ops t = Inr t' \<and> ok t' \<and> get t' = spec ops (get t)"
proof (induction ops arbitrary: t)
  case (Cons op ops)
  show ?case
  proof (cases op)
    case (MapInsert k v)
    obtain t' where "put k v t = Inr (get t k = None, t')" "ok t'"
      "get t' = (\<lambda>q. if same k q \<and> get t k = None then Some v else get t q)"
      using put_law[OF Cons.prems, of k v] by blast
    then show ?thesis using Cons.IH[of t'] MapInsert by simp
  next
    case (MapErase k)
    obtain n t' where "del k t = Inr (n, t')" "ok t'" "get t' = (\<lambda>q. if same k q then None else get t q)"
      using del_law[OF Cons.prems, of k] by blast
    then show ?thesis using Cons.IH[of t'] MapErase by simp
  qed
qed simp

text \<open>Inserting a whole list: the first entry of a key counts, and those that were there before it.\<close>

fun put_all :: "('k \<times> 'v) list \<Rightarrow> 't \<Rightarrow> 't res" where
  "put_all [] t = Inr t"
| "put_all (kv # kvs) t = and_then (put (fst kv) (snd kv) t) (\<lambda>(b, t). put_all kvs t)"

lemma put_all_get:
  "ok t \<Longrightarrow> \<exists>t'. put_all kvs t = Inr t' \<and> ok t'
    \<and> get t' = (\<lambda>q. case get t q of Some v \<Rightarrow> Some v
         | None \<Rightarrow> map_option snd (List.find (\<lambda>kv. same (fst kv) q) kvs))"
proof (induction kvs arbitrary: t)
  case (Cons kv kvs)
  obtain t' where t': "put (fst kv) (snd kv) t = Inr (get t (fst kv) = None, t')" "ok t'"
    "get t' = (\<lambda>q. if same (fst kv) q \<and> get t (fst kv) = None then Some (snd kv) else get t q)"
    using put_law[OF Cons.prems] by blast
  have "get t q = get t (fst kv)" if "same (fst kv) q" for q
    using get_same[OF Cons.prems that] by simp
  then show ?case
    using Cons.IH[OF t'(2)] t' by (auto simp: fun_eq_iff split: option.split)
qed (auto simp: fun_eq_iff split: option.split)

lemma put_then_get: "ok t \<Longrightarrow> get t k = None \<Longrightarrow> \<exists>t'. put k v t = Inr (True, t') \<and> get t' k = Some v"
  using put_law[of t k v] same_refl by auto

lemma del_put_id:
  assumes "ok t" "get t k = None"
  shows "\<exists>t' t''. put k v t = Inr (True, t') \<and> del k t' = Inr (1, t'') \<and> get t'' = get t"
proof -
  obtain t' where t': "put k v t = Inr (True, t')" "ok t'"
    "get t' = (\<lambda>q. if same k q then Some v else get t q)"
    using put_law[OF assms(1), of k v] assms(2) by auto
  obtain t'' where "del k t' = Inr (1, t'')" "get t'' = (\<lambda>q. if same k q then None else get t' q)"
    using del_law[OF t'(2), of k] t'(3) same_refl by auto
  moreover have "get t q = None" if "same k q" for q
    using get_same[OF assms(1) that] assms(2) by simp
  ultimately show ?thesis using t' by (auto simp: fun_eq_iff)
qed

end

end
