(* ===== verification/Hash.thy ===== *)
theory Hash
  imports Bytes
begin

text \<open>
  The hash functions of \<^verbatim>\<open>libs/base/hash.hpp\<close>: MurmurHash3 over a block of memory, and the combination of
  the hashes of a container's elements. A key is hashed through its bytes; \<^verbatim>\<open>len\<close> is the \<^verbatim>\<open>i32\<close> the
  code has, and the \<^verbatim>\<open>hash\<close> structs cast the size of a key to it: a key of \<open>2 ^ 31\<close> bytes or more is
  hashed with a wrapped length. The value \<open>None\<close> is a read outside the block, which is undefined.
\<close>

section \<open>MurmurHash3\<close>

definition rotl64 :: "u64 \<Rightarrow> nat \<Rightarrow> u64" where
  "rotl64 x r = push_bit r x OR drop_bit (64 - r) x"

definition fmix64 :: "u64 \<Rightarrow> u64" where
  "fmix64 k =
     (let k = k XOR drop_bit 33 k;
          k = k * 0xff51afd7ed558ccd;
          k = k XOR drop_bit 33 k;
          k = k * 0xc4ceb9fe1a85ec53;
          k = k XOR drop_bit 33 k
      in k)"

definition murmur_c1 :: u64 where "murmur_c1 = 0x87c37b91114253d5"
definition murmur_c2 :: u64 where "murmur_c2 = 0x4cf5ad432745937f"

text \<open>The body of the loop over the blocks of 16 bytes, on the two 64-bit halves of a block.\<close>

definition murmur_block :: "u64 \<Rightarrow> u64 \<Rightarrow> u64 \<times> u64 \<Rightarrow> u64 \<times> u64" where
  "murmur_block k1 k2 = (\<lambda>(h1, h2).
     let k1 = k1 * murmur_c1; k1 = rotl64 k1 31; k1 = k1 * murmur_c2;
         h1 = h1 XOR k1; h1 = rotl64 h1 27; h1 = h1 + h2; h1 = h1 * 5 + 0x52dce729;
         k2 = k2 * murmur_c2; k2 = rotl64 k2 33; k2 = k2 * murmur_c1;
         h2 = h2 XOR k2; h2 = rotl64 h2 31; h2 = h2 + h1; h2 = h2 * 5 + 0x38495ab5
     in (h1, h2))"

text \<open>The \<^verbatim>\<open>switch\<close> on \<^verbatim>\<open>len & 15\<close>: every case falls through to those below it.\<close>

definition murmur_tail :: "u8 list \<Rightarrow> nat \<Rightarrow> u64 \<times> u64 \<Rightarrow> u64 \<times> u64" where
  "murmur_tail tail t = (\<lambda>(h1, h2).
     let byte = \<lambda>i. ucast (tail ! i) :: u64;
         k1 = 0; k2 = 0;
         k2 = (if t \<ge> 15 then k2 XOR push_bit 48 (byte 14) else k2);
         k2 = (if t \<ge> 14 then k2 XOR push_bit 40 (byte 13) else k2);
         k2 = (if t \<ge> 13 then k2 XOR push_bit 32 (byte 12) else k2);
         k2 = (if t \<ge> 12 then k2 XOR push_bit 24 (byte 11) else k2);
         k2 = (if t \<ge> 11 then k2 XOR push_bit 16 (byte 10) else k2);
         k2 = (if t \<ge> 10 then k2 XOR push_bit 8 (byte 9) else k2);
         h2 = (if t \<ge> 9 then
                 let k2 = k2 XOR byte 8; k2 = k2 * murmur_c2; k2 = rotl64 k2 33; k2 = k2 * murmur_c1
                 in h2 XOR k2
               else h2);
         k1 = (if t \<ge> 8 then k1 XOR push_bit 56 (byte 7) else k1);
         k1 = (if t \<ge> 7 then k1 XOR push_bit 48 (byte 6) else k1);
         k1 = (if t \<ge> 6 then k1 XOR push_bit 40 (byte 5) else k1);
         k1 = (if t \<ge> 5 then k1 XOR push_bit 32 (byte 4) else k1);
         k1 = (if t \<ge> 4 then k1 XOR push_bit 24 (byte 3) else k1);
         k1 = (if t \<ge> 3 then k1 XOR push_bit 16 (byte 2) else k1);
         k1 = (if t \<ge> 2 then k1 XOR push_bit 8 (byte 1) else k1);
         h1 = (if t \<ge> 1 then
                 let k1 = k1 XOR byte 0; k1 = k1 * murmur_c1; k1 = rotl64 k1 31; k1 = k1 * murmur_c2
                 in h1 XOR k1
               else h1)
     in (h1, h2))"

definition hash64 :: "endian \<Rightarrow> u8 list \<Rightarrow> 32 word \<Rightarrow> u64 \<Rightarrow> u64 option" where
  "hash64 e data len seed =
     (let nblocks = sgn (sint len) * (\<bar>sint len\<bar> div 16); t = unat (len AND 15)
      in if nblocks < 0 \<or> int (length data) < nblocks * 16 + int t then None
         else
           let word_at = \<lambda>i. of_mem_bytes e (take 8 (drop (8 * i) data)) :: u64;
               (h1, h2) = foldl (\<lambda>h i. murmur_block (word_at (i * 2)) (word_at (i * 2 + 1)) h)
                            (seed, seed) [0..<nat nblocks];
               (h1, h2) = murmur_tail (drop (nat nblocks * 16) data) t (h1, h2);
               h1 = h1 XOR scast len; h2 = h2 XOR scast len;
               h1 = h1 + h2; h2 = h2 + h1;
               h1 = fmix64 h1; h2 = fmix64 h2;
               h1 = h1 + h2
           in Some h1)"

section \<open>Keys\<close>

text \<open>A trivially copyable object through its bytes, a string through its characters.\<close>

definition hash_bytes :: "endian \<Rightarrow> u8 list \<Rightarrow> usize option" where
  "hash_bytes e key = hash64 e key (word_of_nat (length key)) 0"

definition hash_string :: "endian \<Rightarrow> string \<Rightarrow> usize option" where
  "hash_string e key =
     hash64 e (map (\<lambda>c. word_of_nat (of_char c)) key) (ucast (word_of_nat (length key) :: usize)) 0"

text \<open>The loop over the elements of an array, a vector or a list.\<close>

definition hash_elems :: "('a \<Rightarrow> usize) \<Rightarrow> 'a list \<Rightarrow> usize" where
  "hash_elems hasher key =
     foldl (\<lambda>h elem. h XOR (hasher elem + 0x9e3779b9 + push_bit 6 h + drop_bit 2 h)) 0 key"

text \<open>Vectors of trivially copyable elements are hashed as one block of memory, others element by element.\<close>

definition hash_vector :: "endian \<Rightarrow> bool \<Rightarrow> ('a \<Rightarrow> u8 list) \<Rightarrow> ('a \<Rightarrow> usize) \<Rightarrow> 'a list \<Rightarrow> usize option" where
  "hash_vector e trivial repr hasher key =
     (if trivial then hash_bytes e (concat (map repr key)) else Some (hash_elems hasher key))"

definition hash_array :: "endian \<Rightarrow> bool \<Rightarrow> ('a \<Rightarrow> u8 list) \<Rightarrow> ('a \<Rightarrow> usize) \<Rightarrow> 'a list \<Rightarrow> usize option" where
  "hash_array e trivial repr hasher key =
     (if trivial then hash_bytes e (concat (map repr key)) else Some (hash_elems hasher key))"

section \<open>The final mix loses nothing\<close>

lemma xor_shift_twice:
  fixes k :: u64
  shows "(k XOR drop_bit 33 k) XOR drop_bit 33 (k XOR drop_bit 33 k) = k"
  by (rule bit_word_eqI) (auto simp: bit_simps dest: bit_imp_le_length)

lemma xor_shift_bij: "bij (\<lambda>k :: u64. k XOR drop_bit 33 k)"
  by (rule o_bij[of "\<lambda>k. k XOR drop_bit 33 k"]) (simp_all only: fun_eq_iff o_apply id_apply xor_shift_twice simp_thms)

lemma times_bij:
  fixes a b :: u64
  assumes "a * b = 1"
  shows "bij (\<lambda>k. k * a)"
  by (rule o_bij[of "\<lambda>k. k * b"]) (use assms in \<open>simp_all add: fun_eq_iff mult.assoc mult.commute[of b a]\<close>)

lemma fmix64_comp:
  "fmix64 = (\<lambda>k. k XOR drop_bit 33 k) \<circ> (\<lambda>k. k * 0xc4ceb9fe1a85ec53) \<circ> (\<lambda>k. k XOR drop_bit 33 k)
     \<circ> (\<lambda>k. k * 0xff51afd7ed558ccd) \<circ> (\<lambda>k. k XOR drop_bit 33 k)"
  by (simp add: fun_eq_iff fmix64_def Let_def)

lemma fmix64_bij: "bij fmix64"
  unfolding fmix64_comp
  by (intro bij_comp xor_shift_bij times_bij[of _ 11291846944257947611] times_bij[of _ 5725274745694666757]) simp_all

section \<open>MurmurHash3 as specified\<close>

text \<open>
  The first 64 bits of MurmurHash3 x64 128, written from its description and sharing no definition with
  the code's model: the message is cut into blocks of 16 bytes, each read as two little-endian numbers;
  what is left over is read as little-endian numbers as well, as if padded with zeros, and mixed in
  without the additions; rotations are the library's.
\<close>

definition mix1 :: "u64 \<Rightarrow> u64" where
  "mix1 k = word_rotl 31 (k * 0x87c37b91114253d5) * 0x4cf5ad432745937f"

definition mix2 :: "u64 \<Rightarrow> u64" where
  "mix2 k = word_rotl 33 (k * 0x4cf5ad432745937f) * 0x87c37b91114253d5"

definition avalanche :: "u64 \<Rightarrow> u64" where
  "avalanche k =
     (let shift_xor = \<lambda>k. k XOR drop_bit 33 k
      in shift_xor (shift_xor (shift_xor k * 0xff51afd7ed558ccd) * 0xc4ceb9fe1a85ec53))"

function murmur_body :: "u8 list \<Rightarrow> u64 \<times> u64 \<Rightarrow> u64 \<times> u64" where
  "murmur_body bs (h1, h2) =
     (if length bs < 16 then (h1 XOR mix1 (of_le_bytes (take 8 bs)), h2 XOR mix2 (of_le_bytes (drop 8 bs)))
      else let h1 = (word_rotl 27 (h1 XOR mix1 (of_le_bytes (take 8 bs))) + h2) * 5 + 0x52dce729;
               h2 = (word_rotl 31 (h2 XOR mix2 (of_le_bytes (take 8 (drop 8 bs)))) + h1) * 5 + 0x38495ab5
           in murmur_body (drop 16 bs) (h1, h2))"
  by pat_completeness auto
termination by (relation "measure (\<lambda>(bs, h). length bs)") auto

declare murmur_body.simps [simp del]

definition murmur3 :: "u8 list \<Rightarrow> u64 \<Rightarrow> u64" where
  "murmur3 bs seed =
     (let (h1, h2) = murmur_body bs (seed, seed);
          h1 = h1 XOR word_of_nat (length bs); h2 = h2 XOR word_of_nat (length bs);
          h1 = h1 + h2; h2 = h2 + h1
      in avalanche h1 + avalanche h2)"

lemma rotl64_word_rotl:
  assumes "0 < r" "r < 64"
  shows "rotl64 x r = word_rotl r x"
proof (rule bit_word_eqI)
  fix i :: nat
  assume "i < LENGTH(64)"
  then have i: "i < 64" by simp
  have b: "bit (word_rotl r x) i \<longleftrightarrow> bit x ((i + (64 - r)) mod 64)"
    using i assms bit_word_rotl_iff[of r x i] by simp
  have m: "(i + (64 - r)) mod 64 = (if r \<le> i then i - r else i + (64 - r))"
    using i assms by (auto simp: mod_if)
  have "\<not> bit x (i + (64 - r))" if "r \<le> i" using that bit_imp_le_length [of x "i + (64 - r)"] assms by auto
  then show "bit (rotl64 x r) i = bit (word_rotl r x) i"
    unfolding b m using i assms by (auto simp: rotl64_def bit_or_iff bit_drop_bit_eq bit_push_bit_iff add.commute)
qed

lemma avalanche_fmix64: "avalanche k = fmix64 k"
  by (simp add: avalanche_def fmix64_def Let_def)

lemma code_mix:
  "rotl64 (k * murmur_c1) 31 * murmur_c2 = mix1 k" "rotl64 (k * murmur_c2) 33 * murmur_c1 = mix2 k"
  by (simp_all add: mix1_def mix2_def murmur_c1_def murmur_c2_def rotl64_word_rotl)

lemma of_le_bytes_xor: "(of_le_bytes (b # bs) :: u64) = ucast b XOR push_bit 8 (of_le_bytes bs)"
  by (rule bit_word_eqI) (auto simp: bit_simps dest: bit_imp_le_length)

lemma mix_zero [simp]: "mix1 0 = 0" "mix2 0 = 0"
  by (simp_all add: mix1_def mix2_def)

lemmas xor_ac = xor.assoc xor.commute xor.left_commute

text \<open>The bytes of a tail, one by one.\<close>

lemma of_le_drop:
  "(of_le_bytes (drop k xs) :: u64) =
     (if k < length xs then ucast (xs ! k) XOR push_bit 8 (of_le_bytes (drop (Suc k) xs)) else 0)"
  by (simp add: Cons_nth_drop_Suc[symmetric] of_le_bytes_xor del: of_le_bytes_Cons)

lemma of_le_first:
  "(of_le_bytes (take 8 xs) :: u64) =
     (if xs = [] then 0 else ucast (xs ! 0) XOR push_bit 8 (of_le_bytes (drop 1 (take 8 xs))))"
  using of_le_drop[of 0 "take 8 xs"] by (cases xs) simp_all

lemma murmur_tail_eq:
  assumes "length tail = t" "t < 16"
  shows "murmur_tail tail t (h1, h2)
       = (h1 XOR mix1 (of_le_bytes (take 8 tail)), h2 XOR mix2 (of_le_bytes (drop 8 tail)))"
proof -
  have ne: "tail = [] \<longleftrightarrow> t = 0" using assms(1) by auto
  have "t = 0 \<or> t = 1 \<or> t = 2 \<or> t = 3 \<or> t = 4 \<or> t = 5 \<or> t = 6 \<or> t = 7 \<or> t = 8 \<or> t = 9 \<or> t = 10
      \<or> t = 11 \<or> t = 12 \<or> t = 13 \<or> t = 14 \<or> t = 15"
    using assms(2) by arith
  with assms(1) ne show ?thesis
    by (elim disjE)
      (simp_all add: murmur_tail_def Let_def of_le_first of_le_drop of_le_drop[of 0 tail, simplified] numeral_2_eq_2[symmetric] push_bit_xor code_mix xor_ac
         del: drop_drop drop_take)
qed

lemma murmur_block_eq:
  "murmur_block k1 k2 (h1, h2) =
     (let h1 = (word_rotl 27 (h1 XOR mix1 k1) + h2) * 5 + 0x52dce729
      in (h1, (word_rotl 31 (h2 XOR mix2 k2) + h1) * 5 + 0x38495ab5))"
  unfolding murmur_block_def Let_def prod.case code_mix by (simp add: rotl64_word_rotl)

text \<open>The loop over the blocks, followed by the tail, is the recursion over the message.\<close>

lemma murmur_loop_eq:
  fixes bs :: "u8 list"
  defines "word_at \<equiv> \<lambda>bs i. of_le_bytes (take 8 (drop (8 * i) bs)) :: u64"
  shows "murmur_tail (drop (length bs div 16 * 16) bs) (length bs mod 16)
           (foldl (\<lambda>h i. murmur_block (word_at bs (i * 2)) (word_at bs (i * 2 + 1)) h) (h1, h2) [0..<length bs div 16])
       = murmur_body bs (h1, h2)"
proof (induction bs "(h1, h2)" arbitrary: h1 h2 rule: murmur_body.induct)
  case (1 bs h1 h2)
  show ?case
  proof (cases "length bs < 16")
    case True
    then show ?thesis
      using murmur_tail_eq[of bs "length bs" h1 h2] by (simp add: murmur_body.simps[of bs])
  next
    case False
    define g1 where "g1 = (word_rotl 27 (h1 XOR mix1 (of_le_bytes (take 8 bs))) + h2) * 5 + 0x52dce729"
    define g2 where "g2 = (word_rotl 31 (h2 XOR mix2 (of_le_bytes (take 8 (drop 8 bs)))) + g1) * 5 + 0x38495ab5"
    let ?step = "\<lambda>bs h i. murmur_block (word_at bs (i * 2)) (word_at bs (i * 2 + 1)) h"
    have n: "length bs div 16 = Suc (length (drop 16 bs) div 16)" "length bs mod 16 = length (drop 16 bs) mod 16"
      using False by (simp_all add: le_div_geq le_mod_geq)
    have first: "?step bs (h1, h2) 0 = (g1, g2)"
      by (simp add: murmur_block_eq word_at_def g1_def g2_def Let_def)
    have shift: "?step bs h (Suc i) = ?step (drop 16 bs) h i" for h i
      by (simp add: word_at_def algebra_simps)
    have "foldl (?step bs) (h1, h2) [0..<length bs div 16]
        = foldl (?step bs) (g1, g2) (map Suc [0..<length (drop 16 bs) div 16])"
      unfolding n(1) using first by (simp add: upt_conv_Cons map_Suc_upt del: upt_Suc)
    also have "\<dots> = foldl (?step (drop 16 bs)) (g1, g2) [0..<length (drop 16 bs) div 16]"
      unfolding foldl_map shift by simp
    finally have loop: "foldl (?step bs) (h1, h2) [0..<length bs div 16]
        = foldl (?step (drop 16 bs)) (g1, g2) [0..<length (drop 16 bs) div 16]" .
    have tail: "drop (length bs div 16 * 16) bs = drop (length (drop 16 bs) div 16 * 16) (drop 16 bs)"
      unfolding n(1) by (simp add: add.commute)
    have "murmur_body bs (h1, h2) = murmur_body (drop 16 bs) (g1, g2)"
      using False by (subst murmur_body.simps) (simp add: g1_def g2_def Let_def)
    also have "\<dots> = murmur_tail (drop (length (drop 16 bs) div 16 * 16) (drop 16 bs)) (length (drop 16 bs) mod 16)
           (foldl (?step (drop 16 bs)) (g1, g2) [0..<length (drop 16 bs) div 16])"
      using 1[OF False] unfolding g1_def g2_def by simp
    finally show ?thesis unfolding loop tail n(2) by simp
  qed
qed

text \<open>
  The loop and the \<^verbatim>\<open>switch\<close> look at the first \<^verbatim>\<open>len\<close> bytes only.
\<close>

lemma foldl_upt_cong:
  "(\<And>i h. i < n \<Longrightarrow> f h i = g h i) \<Longrightarrow> foldl f h [0..<n] = foldl g h [0..<n]"
  by (rule foldl_cong) auto

lemma murmur_tail_take: "t < 16 \<Longrightarrow> t \<le> n \<Longrightarrow> murmur_tail (take n tail) t h = murmur_tail tail t h"
  by (cases h) (simp add: murmur_tail_def Let_def cong: if_cong)

lemma word_at_take:
  "8 * i + 8 \<le> n \<Longrightarrow> take 8 (drop (8 * i) (take n bs)) = take 8 (drop (8 * i) bs)"
  by (simp add: drop_take min_def)

lemma hash64_first_bytes:
  assumes n: "n < 2 ^ 31" "n \<le> length bs"
  shows "hash64 Little bs (word_of_nat n) seed = Some (murmur3 (take n bs) seed)"
proof -
  let ?xs = "take n bs" and ?len = "word_of_nat n :: 32 word"
  have len: "length ?xs = n" using n by simp
  have s: "sint ?len = int n" using n by (simp add: signed_of_nat signed_take_bit_int_eq_self)
  have "?len AND 15 = take_bit 4 ?len" by (simp add: take_bit_eq_mask mask_eq_exp_minus_1)
  then have "unat (?len AND 15) = unat ?len mod 16"
    by (simp only: unsigned_take_bit_eq) (simp add: take_bit_eq_mod)
  then have t: "unat (?len AND 15) = n mod 16" using n by (simp add: unat_of_nat take_bit_nat_eq_self)
  have nb: "sgn (int n) * (\<bar>int n\<bar> div 16) = int (n div 16)" by (simp add: zdiv_int sgn_if)
  have whole: "int (n div 16) * 16 + int (n mod 16) = int n"
    by (metis div_mult_mod_eq of_nat_add of_nat_mult of_nat_numeral)
  have sc: "scast ?len = (word_of_nat n :: u64)" using s by (metis of_int_of_nat_eq scast_eq)
  have loop: "foldl (\<lambda>h i. murmur_block (of_le_bytes (take 8 (drop (8 * (i * 2)) bs)))
        (of_le_bytes (take 8 (drop (8 * (i * 2 + 1)) bs))) h) h [0..<n div 16]
      = foldl (\<lambda>h i. murmur_block (of_le_bytes (take 8 (drop (8 * (i * 2)) ?xs)))
        (of_le_bytes (take 8 (drop (8 * (i * 2 + 1)) ?xs))) h) h [0..<n div 16]" for h
  proof (rule foldl_upt_cong)
    fix i h assume "i < n div 16"
    then have "Suc i \<le> n div 16" by simp
    then have "Suc i * 16 \<le> n" by (simp add: less_eq_div_iff_mult_less_eq)
    then have "8 * (i * 2) + 8 \<le> n" "8 * (i * 2 + 1) + 8 \<le> n" by simp_all
    then show "murmur_block (of_le_bytes (take 8 (drop (8 * (i * 2)) bs)))
        (of_le_bytes (take 8 (drop (8 * (i * 2 + 1)) bs))) h
      = murmur_block (of_le_bytes (take 8 (drop (8 * (i * 2)) ?xs)))
        (of_le_bytes (take 8 (drop (8 * (i * 2 + 1)) ?xs))) h" by (simp only: word_at_take)
  qed
  have tail: "murmur_tail (drop (n div 16 * 16) bs) (n mod 16) h
      = murmur_tail (drop (n div 16 * 16) ?xs) (n mod 16) h" for h
    by (simp add: drop_take minus_div_mult_eq_mod murmur_tail_take)
  show ?thesis
    using murmur_loop_eq[of ?xs seed seed] n
    by (simp only: hash64_def murmur3_def of_mem_bytes_def endian.case Let_def s t nb sc loop tail len
        case_prod_beta prod.collapse nat_int avalanche_fmix64 whole) simp
qed

text \<open>
  C25: On a little-endian host \<^verbatim>\<open>base::murmur::hash64\<close> computes the first 64 bits of MurmurHash3 of the
  first \<open>n\<close> bytes it is given, for every length \<open>n\<close> below \<open>2 ^ 31\<close> (\<^verbatim>\<open>len\<close> is an \<^verbatim>\<open>i32\<close>) that the block has,
  and the hash of a string of fewer than \<open>2 ^ 31\<close> characters is MurmurHash3 of its bytes: the loop over
  the 16-byte blocks and the fifteen falling-through cases of the \<^verbatim>\<open>switch\<close> are the recursion of the
  description, which has its own constants, rotation and final mix and reads the rest as if padded
  with zeros.
\<close>

lemma hash64_is_murmur3:
  assumes "n < 2 ^ 31" "n \<le> length bs" "length key < 2 ^ 31"
  shows "hash64 Little bs (word_of_nat n) seed = Some (murmur3 (take n bs) seed)
       \<and> hash_string Little key = Some (murmur3 (map (\<lambda>c. word_of_nat (of_char c)) key) 0)"
proof -
  let ?bs = "map (\<lambda>c. word_of_nat (of_char c)) key :: u8 list"
  have "hash64 Little ?bs (word_of_nat (length key)) 0 = Some (murmur3 (take (length key) ?bs) 0)"
    using assms(3) by (intro hash64_first_bytes) simp_all
  moreover have "ucast (word_of_nat (length key) :: usize) = (word_of_nat (length key) :: 32 word)"
    using assms(3) by (simp add: unsigned_of_nat take_bit_nat_eq_self)
  ultimately show ?thesis using hash64_first_bytes[OF assms(1,2)] by (simp add: hash_string_def)
qed

text \<open>The published value of the hash of \<open>hello\<close>.\<close>

lemma hash64_is_murmur3_witness:
  "hash_string Little ''hello'' = Some 0xcbd8a7b341bd9b02"
proof -
  have "murmur3 (map (\<lambda>c. word_of_nat (of_char c)) ''hello'') 0 = 0xcbd8a7b341bd9b02" by code_simp
  then show ?thesis using hash64_is_murmur3 [of 0 "[]" "''hello''" 0] by simp
qed

text \<open>
  Nothing is lost in the final mixing of the hash: \<^verbatim>\<open>fmix64\<close> is a permutation of the 64-bit words, so two
  keys whose mixed states differ keep different mixes.
\<close>

lemma fmix64_permutes: "fmix64 a = fmix64 b \<longleftrightarrow> a = b"
  using fmix64_bij by (auto dest: bij_is_inj injD)

end
