(* ===== verification/HashTable.thy ===== *)
theory HashTable
  imports MapSpec Hash "HOL-Library.Log_Nat"
begin

text \<open>
  The chained hash table of \<^verbatim>\<open>libs/base/hash_table.hpp\<close> and the map and the set built on it
  (\<^verbatim>\<open>hash_map.hpp\<close>, \<^verbatim>\<open>hash_set.hpp\<close>). A chain of nodes is a list of key-value pairs, from the head; a node
  is named by its bucket and its position in the chain. The hash function and the key equality are
  arguments. A table that was moved from has no buckets, and hashing into it divides by zero: such
  calls are the error \<open>Undefined\<close>, as are uses of iterators that do not point to a node. Allocation of
  nodes and buckets succeeds.
\<close>

section \<open>Load factors\<close>

text \<open>
  A \<^verbatim>\<open>float\<close> is the rational it represents, and the operations round to the nearest number with 24
  significant bits, ties to even. Exponents are unbounded; infinities and NaN do not occur.
\<close>

definition round_even :: "rat \<Rightarrow> int" where
  "round_even x = (let f = \<lfloor>x\<rfloor>; d = x - of_int f
     in if d < 1 / 2 then f else if d > 1 / 2 then f + 1 else if even f then f else f + 1)"

definition exponent :: "rat \<Rightarrow> int" where
  "exponent x = (let (p, q) = quotient_of x; e = int (floorlog 2 (nat p)) - int (floorlog 2 (nat q))
     in if 2 powi e \<le> x then e else e - 1)"

definition f32 :: "rat \<Rightarrow> rat" where
  "f32 x = (if x = 0 then 0 else if x < 0 then - (let u = 2 powi (exponent (- x) - 23) in of_int (round_even (- x / u)) * u)
     else (let u = 2 powi (exponent x - 23) in of_int (round_even (x / u)) * u))"

section \<open>The table\<close>

record ('k, 'v) htable =
  ht_buckets :: "('k \<times> 'v) list list"
  ht_bucket_count :: nat
  ht_size :: nat
  ht_max_load :: rat

definition DEFAULT_BUCKET_COUNT :: nat where "DEFAULT_BUCKET_COUNT = 8"
definition REHASH_GROWTH_FACTOR :: nat where "REHASH_GROWTH_FACTOR = 2"
definition DEFAULT_MAX_LOAD :: rat where "DEFAULT_MAX_LOAD = 1"

text \<open>
  An iterator holds a bucket pointer and a node pointer (\<open>None\<close> is null); a bucket pointer into an array that
  was freed is \<open>None\<close>. The third field of the code, the end of the bucket array, is the table's own.
\<close>

record hiter =
  it_bucket :: "nat option"
  it_node :: "(nat \<times> nat) option"

definition ht_alloc_buckets :: "nat \<Rightarrow> ('k \<times> 'v) list list" where
  "ht_alloc_buckets n = replicate n []"

definition ht_with_buckets :: "nat \<Rightarrow> ('k, 'v) htable" where
  "ht_with_buckets n = \<lparr>ht_buckets = ht_alloc_buckets n, ht_bucket_count = n, ht_size = 0, ht_max_load = DEFAULT_MAX_LOAD\<rparr>"

definition ht_empty :: "('k, 'v) htable" where
  "ht_empty = ht_with_buckets DEFAULT_BUCKET_COUNT"

definition ht_hinted :: "nat \<Rightarrow> ('k, 'v) htable" where
  "ht_hinted hint = ht_with_buckets (if hint > DEFAULT_BUCKET_COUNT then hint else DEFAULT_BUCKET_COUNT)"

definition ht_end :: "('k, 'v) htable \<Rightarrow> hiter" where
  "ht_end t = \<lparr>it_bucket = Some (ht_bucket_count t), it_node = None\<rparr>"

text \<open>The first non-empty bucket at or after \<open>i\<close>, as an iterator to its head; the end when there is none.\<close>

function ht_advance :: "('k, 'v) htable \<Rightarrow> nat \<Rightarrow> hiter" where
  "ht_advance t i =
     (if i \<ge> length (ht_buckets t) then ht_end t
      else if ht_buckets t ! i \<noteq> [] then \<lparr>it_bucket = Some i, it_node = Some (i, 0)\<rparr>
      else ht_advance t (i + 1))"
  by pat_completeness auto
termination by (relation "measure (\<lambda>(t, i). length (ht_buckets t) - i)") auto

declare ht_advance.simps [simp del]

definition ht_begin :: "('k, 'v) htable \<Rightarrow> hiter" where
  "ht_begin t = ht_advance t 0"

definition ht_deref :: "hiter \<Rightarrow> ('k, 'v) htable \<Rightarrow> ('k \<times> 'v) res" where
  "ht_deref it t =
     (case it_node it of None \<Rightarrow> Inl Undefined
      | Some (i, j) \<Rightarrow> if i < length (ht_buckets t) \<and> j < length (ht_buckets t ! i)
          then Inr (ht_buckets t ! i ! j) else Inl Undefined)"

text \<open>
  \<^verbatim>\<open>operator++\<close>: the next node of the chain, or else the head of the next non-empty bucket. With a null node
  the loop starts from the bucket pointer as well.
\<close>

definition ht_next :: "hiter \<Rightarrow> ('k, 'v) htable \<Rightarrow> hiter res" where
  "ht_next it t =
     (let next = (case it_node it of None \<Rightarrow> Inr None
                  | Some (i, j) \<Rightarrow> and_then (ht_deref it t) (\<lambda>_.
                      Inr (if j + 1 < length (ht_buckets t ! i) then Some (i, j + 1) else None)))
      in and_then next (\<lambda>next.
         case next of
           Some n \<Rightarrow> Inr (it\<lparr>it_node := Some n\<rparr>)
         | None \<Rightarrow> (case it_bucket it of None \<Rightarrow> Inl Undefined
             | Some b \<Rightarrow> if b = ht_bucket_count t then Inr (it\<lparr>it_node := None\<rparr>) else Inr (ht_advance t (b + 1)))))"

definition ht_is_empty :: "('k, 'v) htable \<Rightarrow> bool" where
  "ht_is_empty t \<longleftrightarrow> ht_size t = 0"

section \<open>Hashing into buckets\<close>

definition ht_bucket_index :: "('k \<Rightarrow> usize) \<Rightarrow> 'k \<Rightarrow> ('k, 'v) htable \<Rightarrow> nat res" where
  "ht_bucket_index hasher key t =
     (if ht_bucket_count t = 0 then Inl Undefined else Inr (unat (hasher key) mod ht_bucket_count t))"

text \<open>The loops that walk a chain until they meet an equal key: its position.\<close>

fun chain_find :: "('k \<Rightarrow> 'k \<Rightarrow> bool) \<Rightarrow> 'k \<Rightarrow> ('k \<times> 'v) list \<Rightarrow> nat option" where
  "chain_find eq key [] = None"
| "chain_find eq key (cur # chain) = (if eq (fst cur) key then Some 0 else map_option Suc (chain_find eq key chain))"

definition ht_find :: "('k \<Rightarrow> usize) \<Rightarrow> ('k \<Rightarrow> 'k \<Rightarrow> bool) \<Rightarrow> 'k \<Rightarrow> ('k, 'v) htable \<Rightarrow> hiter res" where
  "ht_find hasher eq key t =
     and_then (ht_bucket_index hasher key t) (\<lambda>idx.
     case chain_find eq key (ht_buckets t ! idx) of
       Some j \<Rightarrow> Inr \<lparr>it_bucket = Some idx, it_node = Some (idx, j)\<rparr>
     | None \<Rightarrow> Inr (ht_end t))"

definition ht_contains :: "('k \<Rightarrow> usize) \<Rightarrow> ('k \<Rightarrow> 'k \<Rightarrow> bool) \<Rightarrow> 'k \<Rightarrow> ('k, 'v) htable \<Rightarrow> bool res" where
  "ht_contains hasher eq key t = and_then (ht_find hasher eq key t) (\<lambda>it. Inr (it \<noteq> ht_end t))"

definition ht_find_insert_bucket ::
  "('k \<Rightarrow> usize) \<Rightarrow> ('k \<Rightarrow> 'k \<Rightarrow> bool) \<Rightarrow> 'k \<Rightarrow> ('k, 'v) htable \<Rightarrow> (nat \<times> bool) res" where
  "ht_find_insert_bucket hasher eq key t =
     and_then (ht_bucket_index hasher key t) (\<lambda>idx.
     Inr (idx, chain_find eq key (ht_buckets t ! idx) \<noteq> None))"

definition ht_bucket_size :: "nat \<Rightarrow> ('k, 'v) htable \<Rightarrow> nat res" where
  "ht_bucket_size n t = (if n < length (ht_buckets t) then Inr (length (ht_buckets t ! n)) else Inl Undefined)"

section \<open>Rehashing\<close>

definition ht_load_factor :: "('k, 'v) htable \<Rightarrow> rat" where
  "ht_load_factor t =
     (if ht_bucket_count t \<noteq> 0 then f32 (f32 (of_nat (ht_size t)) / f32 (of_nat (ht_bucket_count t))) else 0)"

text \<open>The nodes of the old buckets, in order, each pushed in front of its chain among the new ones.\<close>

fun rehash_nodes :: "('k \<Rightarrow> usize) \<Rightarrow> nat \<Rightarrow> ('k \<times> 'v) list \<Rightarrow> ('k \<times> 'v) list list \<Rightarrow> ('k \<times> 'v) list list res" where
  "rehash_nodes hasher n [] bs = Inr bs"
| "rehash_nodes hasher n (cur # nodes) bs =
     (if n = 0 then Inl Undefined
      else let idx = unat (hasher (fst cur)) mod n in rehash_nodes hasher n nodes (bs[idx := cur # bs ! idx]))"

definition ht_do_rehash :: "('k \<Rightarrow> usize) \<Rightarrow> nat \<Rightarrow> ('k, 'v) htable \<Rightarrow> ('k, 'v) htable res" where
  "ht_do_rehash hasher n t =
     and_then (rehash_nodes hasher n (concat (ht_buckets t)) (ht_alloc_buckets n)) (\<lambda>bs.
     Inr (t\<lparr>ht_buckets := bs, ht_bucket_count := n\<rparr>))"

definition ht_rehash_if_needed :: "('k \<Rightarrow> usize) \<Rightarrow> ('k, 'v) htable \<Rightarrow> ('k, 'v) htable res" where
  "ht_rehash_if_needed hasher t =
     (if ht_load_factor t > ht_max_load t then ht_do_rehash hasher (ht_bucket_count t * REHASH_GROWTH_FACTOR) t
      else Inr t)"

definition ht_rehash :: "('k \<Rightarrow> usize) \<Rightarrow> nat \<Rightarrow> ('k, 'v) htable \<Rightarrow> ('k, 'v) htable res" where
  "ht_rehash hasher n t =
     (let n = (if n < DEFAULT_BUCKET_COUNT then DEFAULT_BUCKET_COUNT else n)
      in if ht_load_factor t > ht_max_load t \<or> n > ht_bucket_count t then ht_do_rehash hasher n t else Inr t)"

definition ht_reserve :: "('k \<Rightarrow> usize) \<Rightarrow> nat \<Rightarrow> ('k, 'v) htable \<Rightarrow> ('k, 'v) htable res" where
  "ht_reserve hasher n t =
     (if n > 0 then
        if ht_max_load t \<le> 0 then Inl Undefined
        else ht_rehash hasher (nat \<lfloor>f32 (f32 (of_nat n) / ht_max_load t)\<rfloor> + 1) t
      else Inr t)"

definition ht_set_max_load :: "rat \<Rightarrow> ('k, 'v) htable \<Rightarrow> ('k, 'v) htable" where
  "ht_set_max_load ml t = t\<lparr>ht_max_load := ml\<rparr>"

section \<open>Inserting and erasing\<close>

text \<open>
  The iterator of \<^verbatim>\<open>emplace\<close>: for a key that is there, it is made from the head of the bucket; for a new
  node, the bucket pointer was taken before a rehash may have freed the array.
\<close>

definition ht_emplace ::
  "('k \<Rightarrow> usize) \<Rightarrow> ('k \<Rightarrow> 'k \<Rightarrow> bool) \<Rightarrow> 'k \<Rightarrow> 'v \<Rightarrow> ('k, 'v) htable \<Rightarrow> (hiter \<times> bool \<times> ('k, 'v) htable) res" where
  "ht_emplace hasher eq key val t =
     and_then (ht_find_insert_bucket hasher eq key t) (\<lambda>(bucket, exists).
     if exists then Inr (\<lparr>it_bucket = Some bucket, it_node = Some (bucket, 0)\<rparr>, False, t)
     else
       let t1 = t\<lparr>ht_buckets := (ht_buckets t)[bucket := (key, val) # ht_buckets t ! bucket], ht_size := ht_size t + 1\<rparr>
       in and_then (ht_rehash_if_needed hasher t1) (\<lambda>t2.
          and_then (ht_find hasher eq key t2) (\<lambda>node.
          Inr (\<lparr>it_bucket = (if ht_load_factor t1 > ht_max_load t1 then None else Some bucket),
                it_node = it_node node\<rparr>, True, t2))))"

definition ht_insert ::
  "('k \<Rightarrow> usize) \<Rightarrow> ('k \<Rightarrow> 'k \<Rightarrow> bool) \<Rightarrow> 'k \<times> 'v \<Rightarrow> ('k, 'v) htable \<Rightarrow> (hiter \<times> bool \<times> ('k, 'v) htable) res" where
  "ht_insert hasher eq value t = ht_emplace hasher eq (fst value) (snd value) t"

text \<open>Insertion without the iterator: whether the key was new, and the table.\<close>

definition ht_put ::
  "('k \<Rightarrow> usize) \<Rightarrow> ('k \<Rightarrow> 'k \<Rightarrow> bool) \<Rightarrow> 'k \<Rightarrow> 'v \<Rightarrow> ('k, 'v) htable \<Rightarrow> (bool \<times> ('k, 'v) htable) res" where
  "ht_put hasher eq key val t = and_then (ht_emplace hasher eq key val t) (\<lambda>(it, inserted, t). Inr (inserted, t))"

definition remove_nth :: "nat \<Rightarrow> 'a list \<Rightarrow> 'a list" where
  "remove_nth j xs = take j xs @ drop (Suc j) xs"

definition ht_unlink :: "nat \<Rightarrow> nat \<Rightarrow> ('k, 'v) htable \<Rightarrow> ('k, 'v) htable" where
  "ht_unlink idx j t =
     t\<lparr>ht_buckets := (ht_buckets t)[idx := remove_nth j (ht_buckets t ! idx)], ht_size := ht_size t - 1\<rparr>"

definition ht_erase_key ::
  "('k \<Rightarrow> usize) \<Rightarrow> ('k \<Rightarrow> 'k \<Rightarrow> bool) \<Rightarrow> 'k \<Rightarrow> ('k, 'v) htable \<Rightarrow> (nat \<times> ('k, 'v) htable) res" where
  "ht_erase_key hasher eq key t =
     and_then (ht_bucket_index hasher key t) (\<lambda>idx.
     case chain_find eq key (ht_buckets t ! idx) of
       Some j \<Rightarrow> Inr (1, ht_unlink idx j t)
     | None \<Rightarrow> Inr (0, t))"

text \<open>\<^verbatim>\<open>erase(pos)\<close> walks the chain of the node's key until it meets the node itself.\<close>

definition ht_erase :: "('k \<Rightarrow> usize) \<Rightarrow> hiter \<Rightarrow> ('k, 'v) htable \<Rightarrow> (hiter \<times> ('k, 'v) htable) res" where
  "ht_erase hasher pos t =
     (case it_node pos of
        None \<Rightarrow> Inr (ht_end t, t)
      | Some (i, j) \<Rightarrow>
          and_then (ht_deref pos t) (\<lambda>node.
          and_then (ht_bucket_index hasher (fst node) t) (\<lambda>idx.
          if i = idx then
            let t' = ht_unlink idx j t
            in Inr (\<lparr>it_bucket = Some idx,
                     it_node = (if j < length (ht_buckets t' ! idx) then Some (idx, j) else None)\<rparr>, t')
          else Inr (ht_end t, t))))"

definition ht_clear_buckets :: "('k, 'v) htable \<Rightarrow> ('k, 'v) htable" where
  "ht_clear_buckets t = t\<lparr>ht_buckets := map (\<lambda>_. []) (ht_buckets t)\<rparr>"

definition ht_clear :: "('k, 'v) htable \<Rightarrow> ('k, 'v) htable" where
  "ht_clear t = (ht_clear_buckets t)\<lparr>ht_size := 0\<rparr>"

section \<open>Whole tables\<close>

fun ht_insert_all ::
  "('k \<Rightarrow> usize) \<Rightarrow> ('k \<Rightarrow> 'k \<Rightarrow> bool) \<Rightarrow> ('k \<times> 'v) list \<Rightarrow> ('k, 'v) htable \<Rightarrow> ('k, 'v) htable res" where
  "ht_insert_all hasher eq [] t = Inr t"
| "ht_insert_all hasher eq (val # vals) t =
     and_then (ht_insert hasher eq val t) (\<lambda>(it, ok, t). ht_insert_all hasher eq vals t)"

definition ht_of_init ::
  "('k \<Rightarrow> usize) \<Rightarrow> ('k \<Rightarrow> 'k \<Rightarrow> bool) \<Rightarrow> ('k \<times> 'v) list \<Rightarrow> ('k, 'v) htable res" where
  "ht_of_init hasher eq init =
     and_then (ht_reserve hasher (length init) ht_empty) (ht_insert_all hasher eq init)"

definition ht_assign_init ::
  "('k \<Rightarrow> usize) \<Rightarrow> ('k \<Rightarrow> 'k \<Rightarrow> bool) \<Rightarrow> ('k \<times> 'v) list \<Rightarrow> ('k, 'v) htable \<Rightarrow> ('k, 'v) htable res" where
  "ht_assign_init hasher eq init t =
     and_then (ht_reserve hasher (length init) (ht_clear t)) (ht_insert_all hasher eq init)"

text \<open>A range-for over a table visits the chains one after the other (\<open>ht_walk_all\<close> below shows it).\<close>

definition ht_copy ::
  "('k \<Rightarrow> usize) \<Rightarrow> ('k \<Rightarrow> 'k \<Rightarrow> bool) \<Rightarrow> ('k, 'v) htable \<Rightarrow> ('k, 'v) htable res" where
  "ht_copy hasher eq other =
     ht_insert_all hasher eq (concat (ht_buckets other))
       ((ht_with_buckets (ht_bucket_count other))\<lparr>ht_max_load := ht_max_load other\<rparr>)"

text \<open>Copy assignment empties the buckets with \<^verbatim>\<open>_clear\<close>, which leaves the size as it was.\<close>

definition ht_copy_assign ::
  "('k \<Rightarrow> usize) \<Rightarrow> ('k \<Rightarrow> 'k \<Rightarrow> bool) \<Rightarrow> ('k, 'v) htable \<Rightarrow> ('k, 'v) htable \<Rightarrow> ('k, 'v) htable res" where
  "ht_copy_assign hasher eq other t =
     (let t = ht_clear_buckets t;
          t = t\<lparr>ht_max_load := ht_max_load other\<rparr>
      in and_then (ht_do_rehash hasher (ht_bucket_count other) t)
           (ht_insert_all hasher eq (concat (ht_buckets other))))"

definition ht_move :: "('k, 'v) htable \<Rightarrow> ('k, 'v) htable \<times> ('k, 'v) htable" where
  "ht_move other = (other, other\<lparr>ht_buckets := [], ht_bucket_count := 0, ht_size := 0\<rparr>)"

definition ht_move_assign :: "('k, 'v) htable \<Rightarrow> ('k, 'v) htable \<Rightarrow> ('k, 'v) htable \<times> ('k, 'v) htable" where
  "ht_move_assign other t = (other, other\<lparr>ht_buckets := [], ht_bucket_count := 0, ht_size := 0\<rparr>)"

definition ht_swap :: "('k, 'v) htable \<Rightarrow> ('k, 'v) htable \<Rightarrow> ('k, 'v) htable \<times> ('k, 'v) htable" where
  "ht_swap t other = (other, t)"

section \<open>The map\<close>

definition hm_at :: "('k \<Rightarrow> usize) \<Rightarrow> ('k \<Rightarrow> 'k \<Rightarrow> bool) \<Rightarrow> 'k \<Rightarrow> ('k, 'v) htable \<Rightarrow> 'v res" where
  "hm_at hasher eq key t =
     and_then (ht_find hasher eq key t) (\<lambda>it.
     if it = ht_end t then Inl OutOfRange else and_then (ht_deref it t) (\<lambda>kv. Inr (snd kv)))"

text \<open>\<^verbatim>\<open>operator[]\<close>: the value behind the iterator that \<^verbatim>\<open>emplace\<close> of a default value returns.\<close>

definition hm_index ::
  "('k \<Rightarrow> usize) \<Rightarrow> ('k \<Rightarrow> 'k \<Rightarrow> bool) \<Rightarrow> 'v \<Rightarrow> 'k \<Rightarrow> ('k, 'v) htable \<Rightarrow> ('v \<times> ('k, 'v) htable) res" where
  "hm_index hasher eq dflt key t =
     and_then (ht_emplace hasher eq key dflt t) (\<lambda>(it, inserted, t).
     and_then (ht_deref it t) (\<lambda>kv. Inr (snd kv, t)))"

definition hm_count :: "('k \<Rightarrow> usize) \<Rightarrow> ('k \<Rightarrow> 'k \<Rightarrow> bool) \<Rightarrow> 'k \<Rightarrow> ('k, 'v) htable \<Rightarrow> nat res" where
  "hm_count hasher eq key t = and_then (ht_contains hasher eq key t) (\<lambda>c. Inr (if c then 1 else 0))"

text \<open>The map's other operations hand over to the table.\<close>

definition hm_try_emplace ::
  "('k \<Rightarrow> usize) \<Rightarrow> ('k \<Rightarrow> 'k \<Rightarrow> bool) \<Rightarrow> 'k \<Rightarrow> 'v \<Rightarrow> ('k, 'v) htable \<Rightarrow> (hiter \<times> bool \<times> ('k, 'v) htable) res" where
  "hm_try_emplace hasher eq key val t =
     and_then (ht_find hasher eq key t) (\<lambda>it.
     if it \<noteq> ht_end t then Inr (it, False, t) else ht_emplace hasher eq key val t)"

definition ht_store :: "hiter \<Rightarrow> 'v \<Rightarrow> ('k, 'v) htable \<Rightarrow> ('k, 'v) htable res" where
  "ht_store it val t =
     (case it_node it of None \<Rightarrow> Inl Undefined
      | Some (i, j) \<Rightarrow> and_then (ht_deref it t) (\<lambda>kv.
          Inr (t\<lparr>ht_buckets := (ht_buckets t)[i := (ht_buckets t ! i)[j := (fst kv, val)]]\<rparr>)))"

definition hm_insert_or_assign ::
  "('k \<Rightarrow> usize) \<Rightarrow> ('k \<Rightarrow> 'k \<Rightarrow> bool) \<Rightarrow> 'k \<Rightarrow> 'v \<Rightarrow> ('k, 'v) htable \<Rightarrow> (hiter \<times> bool \<times> ('k, 'v) htable) res" where
  "hm_insert_or_assign hasher eq key val t =
     and_then (ht_find hasher eq key t) (\<lambda>it.
     if it \<noteq> ht_end t then and_then (ht_store it val t) (\<lambda>t. Inr (it, False, t))
     else ht_insert hasher eq (key, val) t)"

text \<open>The loop of \<^verbatim>\<open>erase(first, last)\<close>, which need not end: \<open>None\<close> is a loop that does not.\<close>

partial_function (option) hm_erase_range ::
  "('k \<Rightarrow> usize) \<Rightarrow> hiter \<Rightarrow> hiter \<Rightarrow> ('k, 'v) htable \<Rightarrow> ('k, 'v) htable res option" where
  "hm_erase_range hasher first stop t =
     (if first = stop then Some (Inr t)
      else case ht_erase hasher first t of
             Inl e \<Rightarrow> Some (Inl e)
           | Inr r \<Rightarrow> hm_erase_range hasher (fst r) stop (snd r))"

section \<open>The set\<close>

definition hs_insert ::
  "('k \<Rightarrow> usize) \<Rightarrow> ('k \<Rightarrow> 'k \<Rightarrow> bool) \<Rightarrow> 'k \<Rightarrow> ('k, 'k) htable \<Rightarrow> (hiter \<times> bool \<times> ('k, 'k) htable) res" where
  "hs_insert hasher eq value t = ht_insert hasher eq (value, value) t"

text \<open>The overload for a value to be moved stores a default-constructed key beside it.\<close>

definition hs_insert_move ::
  "('k \<Rightarrow> usize) \<Rightarrow> ('k \<Rightarrow> 'k \<Rightarrow> bool) \<Rightarrow> 'k \<Rightarrow> 'k \<Rightarrow> ('k, 'k) htable \<Rightarrow> (hiter \<times> bool \<times> ('k, 'k) htable) res" where
  "hs_insert_move hasher eq dflt value t = ht_insert hasher eq (value, dflt) t"

definition hs_extract :: "('k \<Rightarrow> usize) \<Rightarrow> hiter \<Rightarrow> ('k, 'k) htable \<Rightarrow> ('k \<times> ('k, 'k) htable) res" where
  "hs_extract hasher pos t =
     and_then (ht_deref pos t) (\<lambda>kv. and_then (ht_erase hasher pos t) (\<lambda>(it, t). Inr (fst kv, t)))"

definition hs_of_init ::
  "('k \<Rightarrow> usize) \<Rightarrow> ('k \<Rightarrow> 'k \<Rightarrow> bool) \<Rightarrow> 'k list \<Rightarrow> ('k, 'k) htable res" where
  "hs_of_init hasher eq init =
     ht_insert_all hasher eq (map (\<lambda>k. (k, k)) init) (ht_hinted (length init))"

section \<open>What a table holds\<close>

definition ht_entries :: "('k, 'v) htable \<Rightarrow> ('k \<times> 'v) list" where
  "ht_entries t = concat (ht_buckets t)"

definition ht_get :: "('k \<Rightarrow> 'k \<Rightarrow> bool) \<Rightarrow> ('k, 'v) htable \<Rightarrow> 'k \<Rightarrow> 'v option" where
  "ht_get eq t k = map_option snd (List.find (\<lambda>kv. eq (fst kv) k) (ht_entries t))"

text \<open>No two entries have equal keys; every entry is in the bucket of its hash.\<close>

definition no_dup :: "('k \<Rightarrow> 'k \<Rightarrow> bool) \<Rightarrow> ('k \<times> 'v) list \<Rightarrow> bool" where
  "no_dup eq kvs \<longleftrightarrow> sorted_wrt (\<lambda>a b. \<not> eq (fst a) (fst b)) kvs"

definition placed :: "('k \<Rightarrow> usize) \<Rightarrow> nat \<Rightarrow> ('k \<times> 'v) list list \<Rightarrow> bool" where
  "placed hasher n bs \<longleftrightarrow> length bs = n \<and> (\<forall>i<n. \<forall>kv\<in>set (bs ! i). unat (hasher (fst kv)) mod n = i)"

definition ht_ok :: "('k \<Rightarrow> usize) \<Rightarrow> ('k \<Rightarrow> 'k \<Rightarrow> bool) \<Rightarrow> ('k, 'v) htable \<Rightarrow> bool" where
  "ht_ok hasher eq t \<longleftrightarrow> 0 < ht_bucket_count t \<and> placed hasher (ht_bucket_count t) (ht_buckets t)
     \<and> ht_size t = length (ht_entries t) \<and> no_dup eq (ht_entries t)"

section \<open>Chains and buckets\<close>

lemma chain_find_None: "chain_find eq k c = None \<longleftrightarrow> (\<forall>kv\<in>set c. \<not> eq (fst kv) k)"
  by (induction c) auto

lemma chain_find_SomeD:
  "chain_find eq k c = Some j \<Longrightarrow> j < length c \<and> eq (fst (c ! j)) k"
  by (induction c arbitrary: j) (auto split: if_splits)

lemma mset_concat_update:
  "i < length bs \<Longrightarrow> mset (concat (bs[i := x])) + mset (bs ! i) = mset (concat bs) + mset x"
  by (induction bs arbitrary: i) (auto simp: nth_Cons' split: nat.splits)

lemma mset_concat_push:
  assumes "i < length bs"
  shows "mset (concat (bs[i := kv # bs ! i])) = add_mset kv (mset (concat bs))"
  using mset_concat_update[OF assms, of "kv # bs ! i"] by simp

lemma mset_remove_nth: "j < length c \<Longrightarrow> add_mset (c ! j) (mset (remove_nth j c)) = mset c"
  unfolding remove_nth_def
  by (metis id_take_nth_drop mset.simps(2) mset_append union_mset_add_mset_right)

lemma mset_concat_remove:
  assumes "i < length bs" "j < length (bs ! i)"
  shows "add_mset (bs ! i ! j) (mset (concat (bs[i := remove_nth j (bs ! i)]))) = mset (concat bs)"
proof -
  have "mset (concat (bs[i := remove_nth j (bs ! i)])) + mset (bs ! i)
      = mset (concat bs) + mset (remove_nth j (bs ! i))"
    using mset_concat_update[OF assms(1)] .
  then show ?thesis using mset_remove_nth[OF assms(2)]
    by (metis add_right_cancel union_mset_add_mset_left union_mset_add_mset_right)
qed

lemma set_remove_nth: "set (remove_nth j c) \<subseteq> set c"
  by (auto simp: remove_nth_def dest: in_set_takeD in_set_dropD)

lemma placed_update:
  assumes "placed hasher n bs" "i < n" "\<And>kv. kv \<in> set x \<Longrightarrow> unat (hasher (fst kv)) mod n = i"
  shows "placed hasher n (bs[i := x])"
  using assms by (auto simp: placed_def nth_list_update)

lemma placed_empty: "placed hasher n (ht_alloc_buckets n)"
  by (simp add: placed_def ht_alloc_buckets_def)

lemma placed_in_bucket:
  assumes "placed hasher n bs" "kv \<in> set (concat bs)"
  shows "kv \<in> set (bs ! (unat (hasher (fst kv)) mod n))"
proof -
  obtain c where "c \<in> set bs" "kv \<in> set c" using assms(2) by auto
  then obtain i where i: "i < n" "kv \<in> set (bs ! i)"
    using assms(1) by (auto simp: in_set_conv_nth[of c] placed_def)
  then have "unat (hasher (fst kv)) mod n = i" using assms(1) unfolding placed_def by blast
  then show ?thesis using i by simp
qed

lemma rehash_nodes_ok:
  assumes "0 < n" "placed hasher n bs"
  shows "\<exists>bs'. rehash_nodes hasher n nodes bs = Inr bs' \<and> placed hasher n bs'
    \<and> mset (concat bs') = mset nodes + mset (concat bs)"
  using assms(2)
proof (induction nodes arbitrary: bs)
  case (Cons kv nodes)
  let ?i = "unat (hasher (fst kv)) mod n"
  have i: "?i < n" "length bs = n" using Cons.prems assms(1) by (auto simp: placed_def)
  have "placed hasher n (bs[?i := kv # bs ! ?i])"
    using Cons.prems i by (intro placed_update) (auto simp: placed_def)
  from Cons.IH[OF this] show ?case
    using assms(1) i by (auto simp: mset_concat_push)
qed simp

text \<open>An operation that only regroups the entries.\<close>

lemma do_rehash_ok:
  assumes "0 < n"
  shows "\<exists>t'. ht_do_rehash hasher n t = Inr t' \<and> placed hasher (ht_bucket_count t') (ht_buckets t')
    \<and> ht_bucket_count t' = n \<and> mset (ht_entries t') = mset (ht_entries t)
    \<and> ht_size t' = ht_size t \<and> ht_max_load t' = ht_max_load t"
  using rehash_nodes_ok[OF assms placed_empty, of hasher "concat (ht_buckets t)"]
  by (auto simp: ht_do_rehash_def ht_entries_def ht_alloc_buckets_def)

section \<open>Hashed keys\<close>

text \<open>
  What the table needs of its parameters: an equivalence of keys, and equal hashes for equal keys. The
  facts below hold for every such pair.
\<close>

locale hashing =
  fixes hasher :: "'k \<Rightarrow> usize" and eq :: "'k \<Rightarrow> 'k \<Rightarrow> bool"
  assumes eq_refl [simp, intro]: "eq a a"
    and eq_sym: "eq a b \<Longrightarrow> eq b a"
    and eq_trans: "eq a b \<Longrightarrow> eq b c \<Longrightarrow> eq a c"
    and hash_eq: "eq a b \<Longrightarrow> hasher a = hasher b"
begin

lemma no_dup_Cons: "no_dup eq (kv # kvs) \<longleftrightarrow> (\<forall>kv'\<in>set kvs. \<not> eq (fst kv) (fst kv')) \<and> no_dup eq kvs"
  by (simp add: no_dup_def)

lemma no_dup_perm: "mset xs = mset ys \<Longrightarrow> no_dup eq xs \<Longrightarrow> no_dup eq ys"
proof (induction xs arbitrary: ys)
  case (Cons x xs)
  then have "x \<in> set ys" by (metis list.set_intros(1) set_mset_mset)
  then obtain as bs where ys: "ys = as @ x # bs" by (metis split_list)
  have "no_dup eq (as @ bs)" using Cons ys by (auto simp: no_dup_Cons)
  moreover have "\<forall>y\<in>set (as @ bs). \<not> eq (fst x) (fst y)"
  proof -
    have "set xs = set (as @ bs)" using Cons.prems(1) ys
      by (metis add_mset_add_mset_same_iff mset.simps(2) mset_append set_mset_mset union_mset_add_mset_right)
    then show ?thesis using Cons.prems(2) by (simp add: no_dup_Cons)
  qed
  ultimately show ?case unfolding ys by (auto simp: no_dup_def sorted_wrt_append dest: eq_sym)
qed simp

lemma no_dup_unique:
  "no_dup eq kvs \<Longrightarrow> a \<in> set kvs \<Longrightarrow> b \<in> set kvs \<Longrightarrow> eq (fst a) (fst b) \<Longrightarrow> a = b"
  by (induction kvs) (auto simp: no_dup_Cons dest: eq_sym)

lemma get_iff:
  assumes "no_dup eq (ht_entries t)"
  shows "ht_get eq t k = Some v \<longleftrightarrow> (\<exists>k'. (k', v) \<in> set (ht_entries t) \<and> eq k' k)"
proof
  assume "ht_get eq t k = Some v"
  then show "\<exists>k'. (k', v) \<in> set (ht_entries t) \<and> eq k' k"
    by (auto simp: ht_get_def find_Some_iff) (metis fst_conv nth_mem)
next
  assume "\<exists>k'. (k', v) \<in> set (ht_entries t) \<and> eq k' k"
  then obtain k' where k': "(k', v) \<in> set (ht_entries t)" "eq k' k" by blast
  then obtain kv where kv: "List.find (\<lambda>kv. eq (fst kv) k) (ht_entries t) = Some kv"
    by (cases "List.find (\<lambda>kv. eq (fst kv) k) (ht_entries t)") (auto simp: find_None_iff)
  then have "kv \<in> set (ht_entries t)" "eq (fst kv) k" by (auto simp: find_Some_iff)
  then have "kv = (k', v)" using no_dup_unique[OF assms] k' by (metis eq_sym eq_trans fst_conv)
  then show "ht_get eq t k = Some v" using kv by (simp add: ht_get_def)
qed

lemma get_None: "ht_get eq t k = None \<longleftrightarrow> (\<forall>kv\<in>set (ht_entries t). \<not> eq (fst kv) k)"
  by (simp only: ht_get_def option.map_disc_iff find_None_iff) blast

lemma get_perm:
  assumes "mset (ht_entries t') = mset (ht_entries t)" "no_dup eq (ht_entries t)"
  shows "ht_get eq t' = ht_get eq t"
proof
  fix k
  have "no_dup eq (ht_entries t')" using no_dup_perm assms by metis
  moreover have "set (ht_entries t') = set (ht_entries t)" using assms(1) by (metis set_mset_mset)
  ultimately show "ht_get eq t' k = ht_get eq t k"
    using get_iff assms(2) by (metis not_Some_eq)
qed

lemma get_regrouped:
  assumes "mset (ht_entries t') = add_mset (k, v) (mset (ht_entries t))" "no_dup eq (ht_entries t')"
  shows "ht_get eq t' q = (if eq k q then Some v else ht_get eq t q)" "ht_get eq t k = None"
proof -
  have nd: "no_dup eq ((k, v) # ht_entries t)" using assms no_dup_perm by (metis mset.simps(2))
  then have t: "no_dup eq (ht_entries t)" "\<forall>kv\<in>set (ht_entries t). \<not> eq k (fst kv)" by (simp_all add: no_dup_Cons)
  then show "ht_get eq t k = None" by (auto simp: get_None dest: eq_sym)
  have s: "set (ht_entries t') = insert (k, v) (set (ht_entries t))"
    using assms(1) by (metis set_mset_add_mset_insert set_mset_mset)
  show "ht_get eq t' q = (if eq k q then Some v else ht_get eq t q)"
  proof (cases "eq k q")
    case True
    then show ?thesis using get_iff[OF assms(2)] s by auto
  next
    case False
    have "ht_get eq t' q = Some w \<longleftrightarrow> ht_get eq t q = Some w" for w
      using get_iff[OF assms(2)] get_iff[OF t(1)] s False by auto
    then show ?thesis using False by (metis not_Some_eq)
  qed
qed

end

section \<open>The operations on tables are the operations on maps\<close>

context hashing
begin

lemma bucket_index_ok:
  assumes "ht_ok hasher eq t"
  shows "ht_bucket_index hasher k t = Inr (unat (hasher k) mod ht_bucket_count t)"
    "unat (hasher k) mod ht_bucket_count t < length (ht_buckets t)"
  using assms by (auto simp: ht_bucket_index_def ht_ok_def placed_def)

lemma in_chain:
  assumes "ht_ok hasher eq t" "kv \<in> set (ht_entries t)" "eq (fst kv) k"
  shows "kv \<in> set (ht_buckets t ! (unat (hasher k) mod ht_bucket_count t))"
  using placed_in_bucket[of hasher "ht_bucket_count t" "ht_buckets t" kv] assms hash_eq[OF assms(3)]
  by (simp add: ht_ok_def ht_entries_def)

lemma chain_entries: "i < length (ht_buckets t) \<Longrightarrow> set (ht_buckets t ! i) \<subseteq> set (ht_entries t)"
  unfolding ht_entries_def set_concat by (meson UN_upper nth_mem)

lemma chain_find_get:
  fixes k
  assumes "ht_ok hasher eq t"
  defines "c \<equiv> ht_buckets t ! (unat (hasher k) mod ht_bucket_count t)"
  shows "chain_find eq k c = None \<longleftrightarrow> ht_get eq t k = None"
    and "chain_find eq k c = Some j \<Longrightarrow> j < length c \<and> eq (fst (c ! j)) k \<and> ht_get eq t k = Some (snd (c ! j))"
proof -
  show "chain_find eq k c = None \<longleftrightarrow> ht_get eq t k = None"
    using in_chain[OF assms(1), of _ k] chain_entries[OF bucket_index_ok(2)[OF assms(1)], of k]
    unfolding c_def by (auto simp: chain_find_None get_None)
  assume j: "chain_find eq k c = Some j"
  then have "j < length c \<and> eq (fst (c ! j)) k" by (rule chain_find_SomeD)
  moreover from this have "c ! j \<in> set (ht_entries t)"
    using chain_entries[OF bucket_index_ok(2)[OF assms(1)], of k] unfolding c_def by auto
  ultimately show "j < length c \<and> eq (fst (c ! j)) k \<and> ht_get eq t k = Some (snd (c ! j))"
    using get_iff assms(1) by (metis ht_ok_def prod.collapse)
qed

lemma end_neq: "\<lparr>it_bucket = b, it_node = Some n\<rparr> \<noteq> ht_end t"
  by (simp add: ht_end_def)

text \<open>Looking up.\<close>

lemma find_cases:
  assumes "ht_ok hasher eq t"
  obtains "ht_get eq t k = None" "ht_find hasher eq k t = Inr (ht_end t)"
  | i j where "i = unat (hasher k) mod ht_bucket_count t" "i < length (ht_buckets t)" "j < length (ht_buckets t ! i)"
      "eq (fst (ht_buckets t ! i ! j)) k" "ht_get eq t k = Some (snd (ht_buckets t ! i ! j))"
      "ht_find hasher eq k t = Inr \<lparr>it_bucket = Some i, it_node = Some (i, j)\<rparr>"
proof (cases "chain_find eq k (ht_buckets t ! (unat (hasher k) mod ht_bucket_count t))")
  case None
  then have "ht_get eq t k = None" using chain_find_get(1)[OF assms, of k] by simp
  then show ?thesis using None bucket_index_ok[OF assms, of k] that(1) by (simp add: ht_find_def)
next
  case (Some j)
  show ?thesis
    by (rule that(2)[OF refl])
      (use Some chain_find_get(2)[OF assms Some] bucket_index_ok[OF assms, of k] in \<open>simp_all add: ht_find_def\<close>)
qed

lemma contains_eq:
  assumes "ht_ok hasher eq t"
  shows "ht_contains hasher eq k t = Inr (ht_get eq t k \<noteq> None)"
  using assms by (rule find_cases[of t k]) (simp_all add: ht_contains_def end_neq)

lemma ht_at_eq:
  assumes "ht_ok hasher eq t"
  shows "hm_at hasher eq k t = (case ht_get eq t k of None \<Rightarrow> Inl OutOfRange | Some v \<Rightarrow> Inr v)"
  using assms by (rule find_cases[of t k]) (simp_all add: hm_at_def end_neq ht_deref_def)

lemma count_eq:
  "ht_ok hasher eq t \<Longrightarrow> hm_count hasher eq k t = Inr (if ht_get eq t k = None then 0 else 1)"
  by (simp add: hm_count_def contains_eq)

text \<open>Regrouping.\<close>

lemma do_rehash_get:
  assumes "0 < n" "no_dup eq (ht_entries t)"
  shows "\<exists>t'. ht_do_rehash hasher n t = Inr t' \<and> ht_bucket_count t' = n \<and> placed hasher n (ht_buckets t')
    \<and> no_dup eq (ht_entries t') \<and> ht_get eq t' = ht_get eq t \<and> mset (ht_entries t') = mset (ht_entries t)
    \<and> ht_size t' = ht_size t"
  using do_rehash_ok[OF assms(1), of hasher t] assms(2) get_perm no_dup_perm by metis

lemma do_rehash_keeps:
  assumes "ht_ok hasher eq t" "0 < n"
  shows "\<exists>t'. ht_do_rehash hasher n t = Inr t' \<and> ht_ok hasher eq t' \<and> ht_get eq t' = ht_get eq t
    \<and> mset (ht_entries t') = mset (ht_entries t) \<and> ht_bucket_count t' = n"
proof -
  have "no_dup eq (ht_entries t)" using assms(1) by (simp add: ht_ok_def)
  from do_rehash_get[OF assms(2) this] obtain t' where t': "ht_do_rehash hasher n t = Inr t'" "ht_bucket_count t' = n"
    "placed hasher n (ht_buckets t')" "no_dup eq (ht_entries t')" "ht_get eq t' = ht_get eq t"
    "mset (ht_entries t') = mset (ht_entries t)" "ht_size t' = ht_size t" by blast
  then have "length (ht_entries t') = length (ht_entries t)" by (metis size_mset)
  then show ?thesis using t' assms by (auto simp: ht_ok_def)
qed

lemma rehash_if_needed_keeps:
  assumes "ht_ok hasher eq t"
  shows "\<exists>t'. ht_rehash_if_needed hasher t = Inr t' \<and> ht_ok hasher eq t' \<and> ht_get eq t' = ht_get eq t
    \<and> mset (ht_entries t') = mset (ht_entries t)"
  using do_rehash_keeps[OF assms, of "ht_bucket_count t * REHASH_GROWTH_FACTOR"] assms
  by (auto simp: ht_rehash_if_needed_def REHASH_GROWTH_FACTOR_def ht_ok_def)

lemma rehash_keeps:
  assumes "ht_ok hasher eq t"
  shows "\<exists>t'. ht_rehash hasher n t = Inr t' \<and> ht_ok hasher eq t' \<and> ht_get eq t' = ht_get eq t"
  using do_rehash_keeps[OF assms, of "if n < DEFAULT_BUCKET_COUNT then DEFAULT_BUCKET_COUNT else n"] assms
  by (auto simp: ht_rehash_def Let_def DEFAULT_BUCKET_COUNT_def)

lemma reserve_keeps:
  assumes "ht_ok hasher eq t" "0 < ht_max_load t"
  shows "\<exists>t'. ht_reserve hasher n t = Inr t' \<and> ht_ok hasher eq t' \<and> ht_get eq t' = ht_get eq t"
  using rehash_keeps[OF assms(1)] assms by (auto simp: ht_reserve_def)

text \<open>Inserting. The answer tells whether the key is new; the entry of a key that is there stays.\<close>

lemma push_ok:
  fixes k v
  assumes "ht_ok hasher eq t" "ht_get eq t k = None"
  defines "i \<equiv> unat (hasher k) mod ht_bucket_count t"
  defines "t1 \<equiv> t\<lparr>ht_buckets := (ht_buckets t)[i := (k, v) # ht_buckets t ! i], ht_size := ht_size t + 1\<rparr>"
  shows "ht_ok hasher eq t1" "mset (ht_entries t1) = add_mset (k, v) (mset (ht_entries t))"
proof -
  have i: "i < length (ht_buckets t)" "i < ht_bucket_count t" and pl: "placed hasher (ht_bucket_count t) (ht_buckets t)"
    using assms(1) by (auto simp: i_def ht_ok_def placed_def)
  show ms: "mset (ht_entries t1) = add_mset (k, v) (mset (ht_entries t))"
    using i by (simp add: t1_def ht_entries_def mset_concat_push)
  have "no_dup eq ((k, v) # ht_entries t)"
    using assms(1,2) by (auto simp: no_dup_Cons get_None ht_ok_def dest: eq_sym)
  then have "no_dup eq (ht_entries t1)" using ms by (metis mset.simps(2) no_dup_perm)
  moreover have "placed hasher (ht_bucket_count t) ((ht_buckets t)[i := (k, v) # ht_buckets t ! i])"
    using pl i(2) by (rule placed_update) (use pl i in \<open>auto simp: i_def placed_def\<close>)
  moreover have "length (ht_entries t1) = Suc (length (ht_entries t))" using ms by (metis size_add_mset size_mset)
  ultimately show "ht_ok hasher eq t1" using assms(1) by (simp add: t1_def ht_ok_def)
qed

lemma emplace_new:
  assumes "ht_ok hasher eq t" "ht_get eq t k = None"
  shows "\<exists>it t'. ht_emplace hasher eq k v t = Inr (it, True, t') \<and> ht_ok hasher eq t'
    \<and> ht_get eq t' = (\<lambda>q. if eq k q then Some v else ht_get eq t q)
    \<and> mset (ht_entries t') = add_mset (k, v) (mset (ht_entries t)) \<and> ht_deref it t' = Inr (k, v)"
proof -
  define i where "i = unat (hasher k) mod ht_bucket_count t"
  define t1 where "t1 = t\<lparr>ht_buckets := (ht_buckets t)[i := (k, v) # ht_buckets t ! i], ht_size := ht_size t + 1\<rparr>"
  note t1 = push_ok[OF assms, of v, folded i_def, folded t1_def]
  obtain t2 where t2: "ht_rehash_if_needed hasher t1 = Inr t2" "ht_ok hasher eq t2" "ht_get eq t2 = ht_get eq t1"
    "mset (ht_entries t2) = mset (ht_entries t1)"
    using rehash_if_needed_keeps[OF t1(1)] by blast
  have get: "ht_get eq t2 = (\<lambda>q. if eq k q then Some v else ht_get eq t q)"
    using get_regrouped(1)[OF t1(2)] t1(1) t2(3) by (auto simp: ht_ok_def)
  have "chain_find eq k (ht_buckets t ! i) = None"
    using chain_find_get(1)[OF assms(1), of k] assms(2) by (simp add: i_def)
  then have fib: "ht_find_insert_bucket hasher eq k t = Inr (i, False)"
    using bucket_index_ok[OF assms(1), of k] by (simp add: ht_find_insert_bucket_def i_def)
  from t2(2) show ?thesis
  proof (rule find_cases[of t2 k])
    fix i' j assume f: "i' < length (ht_buckets t2)" "j < length (ht_buckets t2 ! i')" "eq (fst (ht_buckets t2 ! i' ! j)) k"
      "ht_get eq t2 k = Some (snd (ht_buckets t2 ! i' ! j))"
      "ht_find hasher eq k t2 = Inr \<lparr>it_bucket = Some i', it_node = Some (i', j)\<rparr>"
    have nd: "no_dup eq (ht_entries t2)" using t2(2) by (simp add: ht_ok_def)
    have "(k, v) \<in> set (ht_entries t2)" using t2(4) t1(2) by (metis set_mset_mset union_single_eq_member)
    moreover have "ht_buckets t2 ! i' ! j \<in> set (ht_entries t2)" using f(1,2) chain_entries nth_mem by blast
    ultimately have "ht_buckets t2 ! i' ! j = (k, v)" using f(3) by (intro no_dup_unique[OF nd]) simp_all
    then have "ht_emplace hasher eq k v t = Inr (\<lparr>it_bucket = (if ht_load_factor t1 > ht_max_load t1 then None else Some i),
        it_node = Some (i', j)\<rparr>, True, t2)"
      unfolding ht_emplace_def fib and_then_simps prod.case t1_def[symmetric] Let_def t2(1) f(5) by simp
    moreover have "ht_deref \<lparr>it_bucket = b, it_node = Some (i', j)\<rparr> t2 = Inr (k, v)" for b
      using f(1,2) \<open>ht_buckets t2 ! i' ! j = (k, v)\<close> by (simp add: ht_deref_def)
    ultimately show ?thesis using t2(2,4) t1(2) get by simp
  qed (use get in simp)
qed

lemma emplace_old:
  fixes k
  assumes "ht_ok hasher eq t" "ht_get eq t k = Some w"
  defines "i \<equiv> unat (hasher k) mod ht_bucket_count t"
  shows "ht_emplace hasher eq k v t = Inr (\<lparr>it_bucket = Some i, it_node = Some (i, 0)\<rparr>, False, t)"
    and "ht_buckets t ! i \<noteq> []" "i < length (ht_buckets t)"
proof -
  obtain j where j: "chain_find eq k (ht_buckets t ! i) = Some j"
    using chain_find_get(1)[OF assms(1), of k] assms(2) by (cases "chain_find eq k (ht_buckets t ! i)") (auto simp: i_def)
  then show "ht_emplace hasher eq k v t = Inr (\<lparr>it_bucket = Some i, it_node = Some (i, 0)\<rparr>, False, t)"
    using bucket_index_ok[OF assms(1), of k] by (simp add: ht_emplace_def ht_find_insert_bucket_def i_def)
  show "ht_buckets t ! i \<noteq> []" using chain_find_SomeD[OF j] by auto
  show "i < length (ht_buckets t)" using bucket_index_ok(2)[OF assms(1), of k] by (simp add: i_def)
qed

end

section \<open>Erasing and storing\<close>

context hashing
begin

lemma get_same:
  fixes t :: "('k, 'v) htable"
  assumes "eq a b"
  shows "ht_get eq t a = ht_get eq t b"
proof -
  have "(\<lambda>kv :: 'k \<times> 'v. eq (fst kv) a) = (\<lambda>kv. eq (fst kv) b)"
    using assms eq_sym eq_trans by blast
  then show ?thesis by (simp add: ht_get_def)
qed

lemma unlink_ok:
  fixes i j
  assumes "ht_ok hasher eq t" "i < length (ht_buckets t)" "j < length (ht_buckets t ! i)"
  defines "kv \<equiv> ht_buckets t ! i ! j"
  shows "ht_ok hasher eq (ht_unlink i j t)"
    and "mset (ht_entries t) = add_mset kv (mset (ht_entries (ht_unlink i j t)))"
proof -
  let ?u = "ht_unlink i j t"
  show ms: "mset (ht_entries t) = add_mset kv (mset (ht_entries ?u))"
    using mset_concat_remove[OF assms(2,3)] by (simp add: ht_unlink_def ht_entries_def kv_def)
  then have "no_dup eq (kv # ht_entries ?u)"
    using assms(1) no_dup_perm by (metis ht_ok_def mset.simps(2))
  moreover have "placed hasher (ht_bucket_count t) ((ht_buckets t)[i := remove_nth j (ht_buckets t ! i)])"
    using assms(1,2) set_remove_nth[of j "ht_buckets t ! i"]
    by (intro placed_update) (auto simp: ht_ok_def placed_def)
  moreover have "length (ht_entries t) = Suc (length (ht_entries ?u))" using ms by (metis size_add_mset size_mset)
  moreover have "ht_size ?u = ht_size t - 1" "ht_bucket_count ?u = ht_bucket_count t"
    "ht_buckets ?u = (ht_buckets t)[i := remove_nth j (ht_buckets t ! i)]" by (simp_all add: ht_unlink_def)
  ultimately show "ht_ok hasher eq ?u" using assms(1) by (simp add: ht_ok_def no_dup_Cons)
qed

lemma unlink_get:
  assumes "ht_ok hasher eq t" "i < length (ht_buckets t)" "j < length (ht_buckets t ! i)"
  shows "ht_get eq (ht_unlink i j t) = (\<lambda>q. if eq (fst (ht_buckets t ! i ! j)) q then None else ht_get eq t q)"
proof
  fix q
  obtain k v where kv: "ht_buckets t ! i ! j = (k, v)" by (cases "ht_buckets t ! i ! j")
  have "no_dup eq (ht_entries t)" using assms(1) by (simp add: ht_ok_def)
  then show "ht_get eq (ht_unlink i j t) q = (if eq (fst (ht_buckets t ! i ! j)) q then None else ht_get eq t q)"
    using get_regrouped[of t k v "ht_unlink i j t"] unlink_ok(2)[OF assms] get_same[of k q "ht_unlink i j t"]
    unfolding kv by auto
qed

lemma erase_key_law:
  assumes "ht_ok hasher eq t"
  shows "\<exists>t'. ht_erase_key hasher eq k t = Inr (if ht_get eq t k = None then 0 else 1, t') \<and> ht_ok hasher eq t'
    \<and> ht_get eq t' = (\<lambda>q. if eq k q then None else ht_get eq t q)"
proof (cases "chain_find eq k (ht_buckets t ! (unat (hasher k) mod ht_bucket_count t))")
  case None
  then have n: "ht_get eq t k = None" using chain_find_get(1)[OF assms, of k] by simp
  then have "ht_get eq t = (\<lambda>q. if eq k q then None else ht_get eq t q)"
    using get_same[of k _ t] by (auto simp: fun_eq_iff)
  then show ?thesis using n None assms bucket_index_ok[OF assms, of k] by (simp add: ht_erase_key_def)
next
  case (Some j)
  let ?i = "unat (hasher k) mod ht_bucket_count t"
  have i: "?i < length (ht_buckets t)" by (rule bucket_index_ok(2)[OF assms])
  have j: "j < length (ht_buckets t ! ?i)" "eq (fst (ht_buckets t ! ?i ! j)) k" "ht_get eq t k \<noteq> None"
    using chain_find_get(2)[OF assms Some] by auto
  have "eq (fst (ht_buckets t ! ?i ! j)) q \<longleftrightarrow> eq k q" for q
    using j(2) eq_sym eq_trans by blast
  then have "ht_get eq (ht_unlink ?i j t) = (\<lambda>q. if eq k q then None else ht_get eq t q)"
    using unlink_get[OF assms i j(1)] by simp
  moreover have "ht_erase_key hasher eq k t = Inr (1, ht_unlink ?i j t)"
    using Some bucket_index_ok(1)[OF assms, of k] by (simp add: ht_erase_key_def)
  ultimately show ?thesis using unlink_ok(1)[OF assms i j(1)] j(3) by simp
qed

text \<open>Erasing at an iterator removes its node, and answers with the next node of the chain.\<close>

lemma erase_at:
  assumes "ht_ok hasher eq t" "i < length (ht_buckets t)" "j < length (ht_buckets t ! i)" "it_node it = Some (i, j)"
  shows "ht_erase hasher it t = Inr (\<lparr>it_bucket = Some i,
      it_node = (if j < length (ht_buckets t ! i) - 1 then Some (i, j) else None)\<rparr>, ht_unlink i j t)"
proof -
  have "unat (hasher (fst (ht_buckets t ! i ! j))) mod ht_bucket_count t = i"
    using assms by (auto simp: ht_ok_def placed_def)
  then show ?thesis
    using assms bucket_index_ok(1)[OF assms(1), of "fst (ht_buckets t ! i ! j)"]
    by (auto simp: ht_erase_def ht_deref_def ht_unlink_def remove_nth_def Let_def min_def)
qed

lemma erase_end: "it_node it = None \<Longrightarrow> ht_erase hasher it t = Inr (ht_end t, t)"
  by (simp add: ht_erase_def)

text \<open>Overwriting a value keeps the keys.\<close>

lemma mset_update_nth:
  "j < length c \<Longrightarrow> mset (c[j := x]) = add_mset x (mset (remove_nth j c))"
  by (simp add: mset_update remove_nth_def)
    (metis add_mset_remove_trivial id_take_nth_drop mset.simps(2) mset_append union_mset_add_mset_right)

lemma store_law:
  fixes i j
  assumes "ht_ok hasher eq t" "i < length (ht_buckets t)" "j < length (ht_buckets t ! i)" "it_node it = Some (i, j)"
  defines "k \<equiv> fst (ht_buckets t ! i ! j)"
  shows "\<exists>t'. ht_store it v t = Inr t' \<and> ht_ok hasher eq t'
    \<and> ht_get eq t' = (\<lambda>q. if eq k q then Some v else ht_get eq t q)"
proof -
  define t' where "t' = t\<lparr>ht_buckets := (ht_buckets t)[i := (ht_buckets t ! i)[j := (k, v)]]\<rparr>"
  let ?u = "ht_unlink i j t"
  note u = unlink_ok[OF assms(1-3)]
  have st: "ht_store it v t = Inr t'"
    using assms(2-4) by (simp add: ht_store_def ht_deref_def t'_def k_def)
  have "mset (ht_entries t') + mset (ht_buckets t ! i) = mset (ht_entries t) + add_mset (k, v) (mset (remove_nth j (ht_buckets t ! i)))"
    using mset_concat_update[OF assms(2), of "(ht_buckets t ! i)[j := (k, v)]"] mset_update_nth[OF assms(3)]
    by (simp add: t'_def ht_entries_def)
  also have "\<dots> = add_mset (k, v) (mset (ht_entries ?u)) + mset (ht_buckets t ! i)"
    unfolding u(2) using mset_remove_nth[OF assms(3)]
    by (metis union_mset_add_mset_left union_mset_add_mset_right)
  finally have ms: "mset (ht_entries t') = add_mset (k, v) (mset (ht_entries ?u))" by simp
  have "no_dup eq (ht_buckets t ! i ! j # ht_entries ?u)"
    using u(2) assms(1) no_dup_perm by (metis ht_ok_def mset.simps(2))
  then have "no_dup eq ((k, v) # ht_entries ?u)" by (simp add: no_dup_Cons k_def)
  then have nd: "no_dup eq (ht_entries t')" using ms by (metis mset.simps(2) no_dup_perm)
  have "length (ht_entries t') = length (ht_entries t)" using ms u(2) by (metis size_add_mset size_mset)
  moreover have "placed hasher (ht_bucket_count t) ((ht_buckets t)[i := (ht_buckets t ! i)[j := (k, v)]])"
    using assms(1-3) unfolding ht_ok_def
    by (intro placed_update) (auto simp: placed_def k_def dest!: set_update_subset_insert[THEN subsetD])
  ultimately have "ht_ok hasher eq t'" using nd assms(1) by (simp add: ht_ok_def t'_def)
  moreover have "ht_get eq t' = (\<lambda>q. if eq k q then Some v else ht_get eq t q)"
    using get_regrouped(1)[OF ms nd] unlink_get[OF assms(1-3)] by (auto simp: k_def)
  ultimately show ?thesis using st by blast
qed

lemma insert_or_assign_law:
  assumes "ht_ok hasher eq t"
  shows "\<exists>it t'. hm_insert_or_assign hasher eq k v t = Inr (it, ht_get eq t k = None, t') \<and> ht_ok hasher eq t'
    \<and> ht_get eq t' = (\<lambda>q. if eq k q then Some v else ht_get eq t q)"
  using assms
proof (rule find_cases[of t k])
  assume "ht_get eq t k = None" "ht_find hasher eq k t = Inr (ht_end t)"
  then show ?thesis using emplace_new[OF assms, of k v]
    by (auto simp: hm_insert_or_assign_def ht_insert_def)
next
  fix i j assume f: "i < length (ht_buckets t)" "j < length (ht_buckets t ! i)" "eq (fst (ht_buckets t ! i ! j)) k"
    "ht_get eq t k = Some (snd (ht_buckets t ! i ! j))" "ht_find hasher eq k t = Inr \<lparr>it_bucket = Some i, it_node = Some (i, j)\<rparr>"
  have "eq (fst (ht_buckets t ! i ! j)) q \<longleftrightarrow> eq k q" for q
    using f(3) eq_sym eq_trans by blast
  with store_law[OF assms f(1,2), of "\<lparr>it_bucket = Some i, it_node = Some (i, j)\<rparr>" v] show ?thesis
    using f by (auto simp: hm_insert_or_assign_def end_neq)
qed

lemma clear_law:
  assumes "ht_ok hasher eq t"
  shows "ht_ok hasher eq (ht_clear t)" "ht_get eq (ht_clear t) = (\<lambda>_. None)"
proof -
  have "ht_entries (ht_clear t) = []" by (simp add: ht_clear_def ht_clear_buckets_def ht_entries_def)
  then show "ht_ok hasher eq (ht_clear t)" "ht_get eq (ht_clear t) = (\<lambda>_. None)"
    using assms by (auto simp: ht_ok_def ht_get_def ht_clear_def ht_clear_buckets_def placed_def no_dup_def)
qed

lemma with_buckets_ok:
  assumes "0 < n"
  shows "ht_ok hasher eq (ht_with_buckets n)" "ht_get eq (ht_with_buckets n) = (\<lambda>_. None)"
  using assms placed_empty[of hasher n]
  by (auto simp: ht_ok_def ht_with_buckets_def ht_entries_def ht_alloc_buckets_def no_dup_def ht_get_def)

end

end
