(* ===== verification/HashMap.thy ===== *)
theory HashMap
  imports HashTable
begin

text \<open>
  What the chained hash table and the map on it promise: it is an instance of the interface of
  \<open>MapSpec\<close>, an iterator visits every entry once, copies hold the same entries; and where it does not keep
  its promise: \<^verbatim>\<open>operator[]\<close> on a chain of several nodes, \<^verbatim>\<open>erase(first, last)\<close> and copy assignment.
\<close>

section \<open>The table keeps the promise of a map\<close>

context hashing
begin

lemma emplace_law:
  assumes "ht_ok hasher eq t"
  shows "\<exists>t'. ht_put hasher eq k v t = Inr (ht_get eq t k = None, t') \<and> ht_ok hasher eq t'
    \<and> ht_get eq t' = (\<lambda>q. if eq k q \<and> ht_get eq t k = None then Some v else ht_get eq t q)"
proof (cases "ht_get eq t k")
  case None
  then show ?thesis using emplace_new[OF assms None, of v] by (auto simp: ht_put_def)
next
  case (Some w)
  then show ?thesis using emplace_old(1)[OF assms Some] assms by (auto simp: ht_put_def)
qed

lemma try_emplace_law:
  assumes "ht_ok hasher eq t"
  shows "\<exists>it t'. hm_try_emplace hasher eq k v t = Inr (it, ht_get eq t k = None, t') \<and> ht_ok hasher eq t'
    \<and> ht_get eq t' = (\<lambda>q. if eq k q \<and> ht_get eq t k = None then Some v else ht_get eq t q)
    \<and> ht_deref it t' = Inr (if ht_get eq t k = None then (k, v) else the (List.find (\<lambda>kv. eq (fst kv) k) (ht_entries t)))"
  using assms
proof (rule find_cases[of t k])
  assume n: "ht_get eq t k = None" "ht_find hasher eq k t = Inr (ht_end t)"
  then show ?thesis using emplace_new[OF assms n(1), of v] by (auto simp: hm_try_emplace_def)
next
  fix i j assume f: "i < length (ht_buckets t)" "j < length (ht_buckets t ! i)" "eq (fst (ht_buckets t ! i ! j)) k"
    "ht_get eq t k = Some (snd (ht_buckets t ! i ! j))" "ht_find hasher eq k t = Inr \<lparr>it_bucket = Some i, it_node = Some (i, j)\<rparr>"
  obtain kv where kv: "List.find (\<lambda>kv. eq (fst kv) k) (ht_entries t) = Some kv"
    using f(4) by (auto simp: ht_get_def)
  then have "kv \<in> set (ht_entries t)" "eq (fst kv) k" by (auto simp: find_Some_iff)
  moreover have "ht_buckets t ! i ! j \<in> set (ht_entries t)" using f(1,2) chain_entries nth_mem by blast
  moreover have "no_dup eq (ht_entries t)" using assms by (simp add: ht_ok_def)
  ultimately have "ht_buckets t ! i ! j = kv" using f(3) by (metis eq_sym eq_trans no_dup_unique)
  then show ?thesis using f assms kv by (simp add: hm_try_emplace_def end_neq ht_deref_def)
qed

end

sublocale hashing \<subseteq> tbl: map_spec "ht_get eq" "ht_ok hasher eq" eq "ht_put hasher eq" "ht_erase_key hasher eq"
proof
  show "eq a b \<Longrightarrow> eq b a" for a b by (rule eq_sym)
  show "eq a b \<Longrightarrow> eq b c \<Longrightarrow> eq a c" for a b c by (rule eq_trans)
  show "eq a a" for a by (rule eq_refl)
qed (rule emplace_law erase_key_law get_same; assumption)+

text \<open>Filling a table from a list, as the constructors, the copies and \<^verbatim>\<open>insert(first, last)\<close> do.\<close>

context hashing
begin

lemma insert_all_is_put_all: "ht_insert_all hasher eq kvs t = tbl.put_all kvs t"
  by (induction kvs arbitrary: t)
    (auto simp: ht_insert_def ht_put_def and_then_def split: sum.split)

lemma insert_all_get:
  assumes "ht_ok hasher eq t"
  shows "\<exists>t'. ht_insert_all hasher eq kvs t = Inr t' \<and> ht_ok hasher eq t'
    \<and> ht_get eq t' = (\<lambda>q. case ht_get eq t q of Some v \<Rightarrow> Some v
         | None \<Rightarrow> map_option snd (List.find (\<lambda>kv. eq (fst kv) q) kvs))"
  unfolding insert_all_is_put_all by (rule tbl.put_all_get[OF assms])

lemma copy_get:
  fixes t :: "('k, 'b) htable"
  assumes "ht_ok hasher eq t"
  shows "\<exists>t'. ht_copy hasher eq t = Inr t' \<and> ht_ok hasher eq t' \<and> ht_get eq t' = ht_get eq t"
proof -
  let ?e = "(ht_with_buckets (ht_bucket_count t))\<lparr>ht_max_load := ht_max_load t\<rparr> :: ('k, 'b) htable"
  let ?b = "ht_with_buckets (ht_bucket_count t) :: ('k, 'b) htable"
  have "0 < ht_bucket_count t" using assms by (simp add: ht_ok_def)
  moreover have "ht_ok hasher eq ?e = ht_ok hasher eq ?b" "ht_get eq ?e = ht_get eq ?b"
    by (simp_all add: ht_ok_def ht_get_def[abs_def] ht_entries_def)
  ultimately have "ht_ok hasher eq ?e" "ht_get eq ?e = (\<lambda>_. None)"
    using with_buckets_ok by simp_all
  moreover have "(\<lambda>q. map_option snd (List.find (\<lambda>kv. eq (fst kv) q) (concat (ht_buckets t)))) = ht_get eq t"
    by (simp add: fun_eq_iff ht_get_def ht_entries_def)
  ultimately show ?thesis using insert_all_get[of ?e "concat (ht_buckets t)"] by (simp add: ht_copy_def)
qed

end

section \<open>Iteration\<close>

text \<open>Stepping from an iterator to the end, collecting what it points to; \<open>n\<close> bounds the steps.\<close>

fun ht_walk :: "nat \<Rightarrow> hiter \<Rightarrow> ('k, 'v) htable \<Rightarrow> ('k \<times> 'v) list res" where
  "ht_walk 0 it t = (if it = ht_end t then Inr [] else Inl Undefined)"
| "ht_walk (Suc n) it t =
     (if it = ht_end t then Inr []
      else and_then (ht_deref it t) (\<lambda>kv. and_then (ht_next it t) (\<lambda>it.
           and_then (ht_walk n it t) (\<lambda>kvs. Inr (kv # kvs)))))"

lemma ht_advance_cases:
  assumes "i \<le> length (ht_buckets t)"
  shows "ht_advance t i = ht_end t \<and> concat (drop i (ht_buckets t)) = []
    \<or> (\<exists>i'. i \<le> i' \<and> i' < length (ht_buckets t) \<and> ht_buckets t ! i' \<noteq> []
        \<and> ht_advance t i = \<lparr>it_bucket = Some i', it_node = Some (i', 0)\<rparr>
        \<and> (\<forall>j. i \<le> j \<longrightarrow> j < i' \<longrightarrow> ht_buckets t ! j = [])
        \<and> concat (drop i (ht_buckets t)) = concat (drop i' (ht_buckets t)))"
  using assms
proof (induction t i rule: ht_advance.induct)
  case (1 t i)
  consider "i = length (ht_buckets t)" | "i < length (ht_buckets t)" "ht_buckets t ! i \<noteq> []"
    | "i < length (ht_buckets t)" "ht_buckets t ! i = []" using 1(2) by linarith
  then show ?case
  proof cases
    case 1
    then show ?thesis by (simp add: ht_advance.simps)
  next
    case 2
    then have "ht_advance t i = \<lparr>it_bucket = Some i, it_node = Some (i, 0)\<rparr>"
      by (subst ht_advance.simps) simp
    then show ?thesis using 2 by (intro disjI2 exI[of _ i]) simp
  next
    case 3
    then have adv: "ht_advance t i = ht_advance t (i + 1)" by (subst ht_advance.simps) simp
    have con: "concat (drop i (ht_buckets t)) = concat (drop (i + 1) (ht_buckets t))"
      using 3 by (simp add: Cons_nth_drop_Suc[symmetric])
    from 1(1)[OF _ _ ] 3 have IH: "ht_advance t (i + 1) = ht_end t \<and> concat (drop (i + 1) (ht_buckets t)) = []
      \<or> (\<exists>i'. i + 1 \<le> i' \<and> i' < length (ht_buckets t) \<and> ht_buckets t ! i' \<noteq> []
        \<and> ht_advance t (i + 1) = \<lparr>it_bucket = Some i', it_node = Some (i', 0)\<rparr>
        \<and> (\<forall>j. i + 1 \<le> j \<longrightarrow> j < i' \<longrightarrow> ht_buckets t ! j = [])
        \<and> concat (drop (i + 1) (ht_buckets t)) = concat (drop i' (ht_buckets t)))" by simp
    then show ?thesis
    proof (elim disjE exE conjE)
      fix i' assume i': "i + 1 \<le> i'" "i' < length (ht_buckets t)" "ht_buckets t ! i' \<noteq> []"
        "ht_advance t (i + 1) = \<lparr>it_bucket = Some i', it_node = Some (i', 0)\<rparr>"
        "\<forall>j. i + 1 \<le> j \<longrightarrow> j < i' \<longrightarrow> ht_buckets t ! j = []"
        "concat (drop (i + 1) (ht_buckets t)) = concat (drop i' (ht_buckets t))"
      have "\<forall>j. i \<le> j \<longrightarrow> j < i' \<longrightarrow> ht_buckets t ! j = []"
        using i'(5) 3 by (metis Suc_eq_plus1 Suc_leI le_neq_implies_less)
      then show ?thesis using i' adv con by (intro disjI2 exI[of _ i']) simp
    qed (use adv con in simp)
  qed
qed

lemma ht_walk_node:
  assumes "length (ht_buckets t) = ht_bucket_count t" "i < length (ht_buckets t)" "j < length (ht_buckets t ! i)"
    "length (drop j (ht_buckets t ! i) @ concat (drop (i + 1) (ht_buckets t))) \<le> n"
  shows "ht_walk n \<lparr>it_bucket = Some i, it_node = Some (i, j)\<rparr> t
       = Inr (drop j (ht_buckets t ! i) @ concat (drop (i + 1) (ht_buckets t)))"
  using assms
proof (induction n arbitrary: i j)
  case (Suc n)
  let ?it = "\<lparr>it_bucket = Some i, it_node = Some (i, j)\<rparr>" and ?c = "ht_buckets t ! i"
  have deref: "?it \<noteq> ht_end t" "ht_deref ?it t = Inr (?c ! j)"
    using Suc.prems by (auto simp: ht_end_def ht_deref_def)
  have head: "drop j ?c = ?c ! j # drop (j + 1) ?c" using Suc.prems by (simp add: Cons_nth_drop_Suc)
  show ?case
  proof (cases "j + 1 < length ?c")
    case True
    then have "ht_next ?it t = Inr \<lparr>it_bucket = Some i, it_node = Some (i, j + 1)\<rparr>"
      using deref by (simp add: ht_next_def)
    then show ?thesis using Suc.IH[of i "j + 1"] True Suc.prems deref head by simp
  next
    case False
    then have tail: "drop (j + 1) ?c = []" by simp
    have step: "ht_next ?it t = Inr (ht_advance t (i + 1))"
      using False deref Suc.prems by (simp add: ht_next_def)
    have "i + 1 \<le> length (ht_buckets t)" using Suc.prems by simp
    from ht_advance_cases[OF this] show ?thesis
    proof (elim disjE exE conjE)
      assume "ht_advance t (i + 1) = ht_end t" "concat (drop (i + 1) (ht_buckets t)) = []"
      then show ?thesis using deref head tail step by (cases n) simp_all
    next
      fix i' assume i': "i + 1 \<le> i'" "i' < length (ht_buckets t)" "ht_buckets t ! i' \<noteq> []"
        "ht_advance t (i + 1) = \<lparr>it_bucket = Some i', it_node = Some (i', 0)\<rparr>"
        "concat (drop (i + 1) (ht_buckets t)) = concat (drop i' (ht_buckets t))"
      then have "concat (drop (i + 1) (ht_buckets t)) = drop 0 (ht_buckets t ! i') @ concat (drop (i' + 1) (ht_buckets t))"
        by (simp add: Cons_nth_drop_Suc[symmetric])
      then show ?thesis using Suc.IH[of i' 0] Suc.prems i' deref head tail step by simp
    qed
  qed
qed simp

lemma ht_walk_all:
  assumes "length (ht_buckets t) = ht_bucket_count t"
  shows "ht_walk (length (ht_entries t)) (ht_begin t) t = Inr (ht_entries t)"
  using ht_advance_cases[OF le0[of "length (ht_buckets t)"]]
proof (elim disjE exE conjE)
  assume "ht_advance t 0 = ht_end t" "concat (drop 0 (ht_buckets t)) = []"
  moreover from this have "ht_entries t = []" by (simp add: ht_entries_def)
  ultimately show ?thesis by (simp add: ht_begin_def)
next
  fix i' assume i': "i' < length (ht_buckets t)" "ht_buckets t ! i' \<noteq> []"
    "ht_advance t 0 = \<lparr>it_bucket = Some i', it_node = Some (i', 0)\<rparr>"
    "concat (drop 0 (ht_buckets t)) = concat (drop i' (ht_buckets t))"
  then have "ht_entries t = drop 0 (ht_buckets t ! i') @ concat (drop (i' + 1) (ht_buckets t))"
    by (simp add: ht_entries_def Cons_nth_drop_Suc[symmetric])
  then show ?thesis using ht_walk_node[OF assms i'(1), of 0] i' by (simp add: ht_begin_def)
qed

section \<open>Programs over a hash map\<close>

datatype ('k, 'v) hm_op =
    HmEmplace 'k 'v | HmTryEmplace 'k 'v | HmAssign 'k 'v | HmErase 'k | HmEraseAt 'k
  | HmRehash nat | HmClear | HmCopy

text \<open>
  \<open>HmEraseAt\<close> erases at the iterator that \<^verbatim>\<open>find\<close> returns; \<open>HmCopy\<close> continues with a copy of the table. The answer
  tells whether a key was inserted, or how many were erased.
\<close>

fun hm_do :: "('k \<Rightarrow> usize) \<Rightarrow> ('k \<Rightarrow> 'k \<Rightarrow> bool) \<Rightarrow> ('k, 'v) hm_op \<Rightarrow> ('k, 'v) htable \<Rightarrow> (nat \<times> ('k, 'v) htable) res" where
  "hm_do hasher eq (HmEmplace k v) t =
     and_then (ht_emplace hasher eq k v t) (\<lambda>(it, ok, t). Inr (of_bool ok, t))"
| "hm_do hasher eq (HmTryEmplace k v) t =
     and_then (hm_try_emplace hasher eq k v t) (\<lambda>(it, ok, t). Inr (of_bool ok, t))"
| "hm_do hasher eq (HmAssign k v) t =
     and_then (hm_insert_or_assign hasher eq k v t) (\<lambda>(it, ok, t). Inr (of_bool ok, t))"
| "hm_do hasher eq (HmErase k) t = ht_erase_key hasher eq k t"
| "hm_do hasher eq (HmEraseAt k) t =
     and_then (ht_find hasher eq k t) (\<lambda>it. and_then (ht_erase hasher it t) (\<lambda>(it, t). Inr (0, t)))"
| "hm_do hasher eq (HmRehash n) t = and_then (ht_rehash hasher n t) (\<lambda>t. Inr (0, t))"
| "hm_do hasher eq HmClear t = Inr (0, ht_clear t)"
| "hm_do hasher eq HmCopy t = and_then (ht_copy hasher eq t) (\<lambda>t. Inr (0, t))"

fun hm_spec :: "('k \<Rightarrow> 'k \<Rightarrow> bool) \<Rightarrow> ('k, 'v) hm_op \<Rightarrow> ('k \<Rightarrow> 'v option) \<Rightarrow> nat \<times> ('k \<Rightarrow> 'v option)" where
  "hm_spec eq (HmEmplace k v) m = (of_bool (m k = None), \<lambda>q. if eq k q \<and> m k = None then Some v else m q)"
| "hm_spec eq (HmTryEmplace k v) m = (of_bool (m k = None), \<lambda>q. if eq k q \<and> m k = None then Some v else m q)"
| "hm_spec eq (HmAssign k v) m = (of_bool (m k = None), \<lambda>q. if eq k q then Some v else m q)"
| "hm_spec eq (HmErase k) m = (of_bool (m k \<noteq> None), \<lambda>q. if eq k q then None else m q)"
| "hm_spec eq (HmEraseAt k) m = (0, \<lambda>q. if eq k q then None else m q)"
| "hm_spec eq (HmRehash n) m = (0, m)"
| "hm_spec eq HmClear m = (0, \<lambda>_. None)"
| "hm_spec eq HmCopy m = (0, m)"

fun hm_run :: "('k \<Rightarrow> usize) \<Rightarrow> ('k \<Rightarrow> 'k \<Rightarrow> bool) \<Rightarrow> ('k, 'v) hm_op list \<Rightarrow> ('k, 'v) htable \<Rightarrow>
  (nat list \<times> ('k, 'v) htable) res" where
  "hm_run hasher eq [] t = Inr ([], t)"
| "hm_run hasher eq (op # ops) t = and_then (hm_do hasher eq op t) (\<lambda>(n, t).
     and_then (hm_run hasher eq ops t) (\<lambda>(ns, t). Inr (n # ns, t)))"

fun hm_spec_run :: "('k \<Rightarrow> 'k \<Rightarrow> bool) \<Rightarrow> ('k, 'v) hm_op list \<Rightarrow> ('k \<Rightarrow> 'v option) \<Rightarrow> nat list \<times> ('k \<Rightarrow> 'v option)" where
  "hm_spec_run eq [] m = ([], m)"
| "hm_spec_run eq (op # ops) m =
     (let (n, m) = hm_spec eq op m; (ns, m) = hm_spec_run eq ops m in (n # ns, m))"

context hashing
begin

lemma find_erase:
  assumes "ht_ok hasher eq t"
  shows "\<exists>it it' t'. ht_find hasher eq k t = Inr it \<and> ht_erase hasher it t = Inr (it', t') \<and> ht_ok hasher eq t'
    \<and> ht_get eq t' = (\<lambda>q. if eq k q then None else ht_get eq t q)"
  using assms
proof (rule find_cases[of t k])
  assume n: "ht_get eq t k = None" "ht_find hasher eq k t = Inr (ht_end t)"
  then have "ht_get eq t = (\<lambda>q. if eq k q then None else ht_get eq t q)"
    using get_same[of k _ t] by (auto simp: fun_eq_iff)
  then show ?thesis using n assms by (simp add: erase_end ht_end_def)
next
  fix i j assume f: "i < length (ht_buckets t)" "j < length (ht_buckets t ! i)" "eq (fst (ht_buckets t ! i ! j)) k"
    "ht_get eq t k = Some (snd (ht_buckets t ! i ! j))" "ht_find hasher eq k t = Inr \<lparr>it_bucket = Some i, it_node = Some (i, j)\<rparr>"
  have "eq (fst (ht_buckets t ! i ! j)) q \<longleftrightarrow> eq k q" for q
    using f(3) eq_sym eq_trans by blast
  then show ?thesis
    using f(5) erase_at[OF assms f(1,2), of "\<lparr>it_bucket = Some i, it_node = Some (i, j)\<rparr>"]
      unlink_ok(1)[OF assms f(1,2)] unlink_get[OF assms f(1,2)] by simp
qed

lemma hm_do_refines:
  assumes "ht_ok hasher eq t"
  shows "\<exists>n t'. hm_do hasher eq op t = Inr (n, t') \<and> ht_ok hasher eq t' \<and> hm_spec eq op (ht_get eq t) = (n, ht_get eq t')"
proof (cases op)
  case (HmEmplace k v)
  then show ?thesis using emplace_law[OF assms, of k v]
    by (auto simp: ht_put_def and_then_def split: sum.splits)
next
  case (HmTryEmplace k v)
  then show ?thesis using try_emplace_law[OF assms, of k v] by auto
next
  case (HmAssign k v)
  then show ?thesis using insert_or_assign_law[OF assms, of k v] by auto
next
  case (HmErase k)
  then show ?thesis using erase_key_law[OF assms, of k] by auto
next
  case (HmEraseAt k)
  then show ?thesis using find_erase[OF assms, of k] by auto
next
  case (HmRehash n)
  then show ?thesis using rehash_keeps[OF assms, of n] by auto
next
  case HmClear
  then show ?thesis using clear_law[OF assms] by auto
next
  case HmCopy
  then show ?thesis using copy_get[OF assms] by auto
qed

lemma hm_run_refines:
  "ht_ok hasher eq t \<Longrightarrow>
    \<exists>ns t'. hm_run hasher eq ops t = Inr (ns, t') \<and> ht_ok hasher eq t' \<and> hm_spec_run eq ops (ht_get eq t) = (ns, ht_get eq t')"
proof (induction ops arbitrary: t)
  case (Cons op ops)
  from hm_do_refines[OF Cons.prems, of op] obtain n t' where t': "hm_do hasher eq op t = Inr (n, t')" "ht_ok hasher eq t'"
    "hm_spec eq op (ht_get eq t) = (n, ht_get eq t')" by blast
  from Cons.IH[OF t'(2)] show ?case using t' by auto
qed simp

lemma empty_ok: "ht_ok hasher eq ht_empty" "ht_get eq ht_empty = (\<lambda>_. None)"
  unfolding ht_empty_def by (rule with_buckets_ok; simp add: DEFAULT_BUCKET_COUNT_def)+

end

text \<open>The table with the standard equality and any hash function, which is the default of the map and the set.\<close>

interpretation std_hash: hashing hasher "(=)" for hasher :: "'k \<Rightarrow> usize"
  by unfold_locales auto

lemma std_entries:
  assumes "ht_ok hasher (=) t"
  shows "distinct (map fst (ht_entries t))" "map_of (ht_entries t) = ht_get (=) t"
proof -
  have d: "no_dup (=) kvs \<Longrightarrow> distinct (map fst kvs)" for kvs :: "('a \<times> 'b) list"
    unfolding no_dup_def by (induction kvs) auto
  then show "distinct (map fst (ht_entries t))" using assms by (simp add: ht_ok_def)
  have "map_of kvs k = map_option snd (List.find (\<lambda>kv. fst kv = k) kvs)" for kvs :: "('a \<times> 'b) list" and k
    by (induction kvs) auto
  then show "map_of (ht_entries t) = ht_get (=) t" by (simp add: ht_get_def fun_eq_iff)
qed

text \<open>
  C26: a hash map started empty implements functions from keys to optional values, for these operations: emplace, try_emplace,
  insert_or_assign, erasure of a key, erasure at the iterator \<^verbatim>\<open>find\<close> returns, rehash, clear and copy construction. Whatever the
  hash function, every sequence of them runs without an error, and the flags of the insertions and the counts of the erasures are
  those of the operations on functions; afterwards \<^verbatim>\<open>at\<close> and \<^verbatim>\<open>contains\<close> agree with the function on every key, and
  iterating from \<^verbatim>\<open>begin\<close> reaches \<^verbatim>\<open>end\<close> after size() steps having visited each of its entries once. The iterators that
  insertions and erasures return are not part of the answers (that of emplace is wrong for a key that is there), and
  \<^verbatim>\<open>operator[]\<close>, erasure of a range and copy assignment are not among the operations: they do not behave as on functions.
\<close>

lemma hash_map_refines_functions:
  "\<exists>t kvs m. hm_run hasher (=) ops ht_empty = Inr (fst (hm_spec_run (=) ops (\<lambda>_. None)), t)
    \<and> m = snd (hm_spec_run (=) ops (\<lambda>_. None))
    \<and> (\<forall>k. hm_at hasher (=) k t = (case m k of Some v \<Rightarrow> Inr v | None \<Rightarrow> Inl OutOfRange))
    \<and> (\<forall>k. ht_contains hasher (=) k t = Inr (m k \<noteq> None))
    \<and> ht_walk (ht_size t) (ht_begin t) t = Inr kvs \<and> distinct (map fst kvs) \<and> map_of kvs = m"
proof -
  obtain ns t where t: "hm_run hasher (=) ops ht_empty = Inr (ns, t)" "ht_ok hasher (=) t"
    "hm_spec_run (=) ops (\<lambda>_. None) = (ns, ht_get (=) t)"
    using std_hash.hm_run_refines[OF std_hash.empty_ok(1), of hasher ops] unfolding std_hash.empty_ok(2) by blast
  have "ht_walk (ht_size t) (ht_begin t) t = Inr (ht_entries t)"
    using ht_walk_all[of t] t(2) by (simp add: ht_ok_def placed_def)
  then show ?thesis using t std_entries[OF t(2)] std_hash.ht_at_eq[OF t(2)] std_hash.contains_eq[OF t(2)]
    by (intro exI[of _ t] exI[of _ "ht_entries t"] exI[of _ "ht_get (=) t"]) (simp split: option.split)
qed

section \<open>Where the promise is not kept\<close>

text \<open>
  C27: \<^verbatim>\<open>operator[]\<close> inserts a default value under a new key and refers to it. On a key that is there it changes nothing, and
  refers to the value at the head of the key's bucket, whatever key that value has: with keys that collide this is
  another key's value (the table of the witness answers 20 for the key of 10).
\<close>

lemma index_refers_to_bucket_head:
  assumes "ht_ok hasher (=) t"
  shows "\<exists>v t'. hm_index hasher (=) d k t = Inr (v, t') \<and> ht_ok hasher (=) t'
    \<and> ht_get (=) t' = (\<lambda>q. if q = k \<and> ht_get (=) t k = None then Some d else ht_get (=) t q)
    \<and> v = (if ht_get (=) t k = None then d
           else snd (hd (ht_buckets t ! (unat (hasher k) mod ht_bucket_count t))))"
proof (cases "ht_get (=) t k")
  case None
  from std_hash.emplace_new[OF assms None, of d] show ?thesis
    using None by (fastforce simp: hm_index_def)
next
  case (Some w)
  note old = std_hash.emplace_old[OF assms Some]
  then have "ht_deref \<lparr>it_bucket = Some (unat (hasher k) mod ht_bucket_count t),
      it_node = Some (unat (hasher k) mod ht_bucket_count t, 0)\<rparr> t
    = Inr (hd (ht_buckets t ! (unat (hasher k) mod ht_bucket_count t)))"
    by (simp add: ht_deref_def hd_conv_nth)
  then show ?thesis using old(1)[of d] Some assms by (auto simp: hm_index_def)
qed

definition colliding :: "(nat, nat) htable" where
  "colliding = \<lparr>ht_buckets = [[(2, 20), (1, 10)], []], ht_bucket_count = 2, ht_size = 2, ht_max_load = 1\<rparr>"

lemma colliding_ok: "ht_ok (\<lambda>_. 0) (=) colliding"
  by (auto simp: colliding_def ht_ok_def placed_def ht_entries_def no_dup_def less_Suc_eq numeral_2_eq_2)

lemma index_refers_to_bucket_head_witness:
  "\<exists>t'. hm_index (\<lambda>_. 0) (=) 0 1 colliding = Inr (20, t') \<and> hm_at (\<lambda>_. 0) (=) 1 colliding = Inr 10"
proof -
  have get: "ht_get (=) colliding 1 = Some 10" by (simp add: colliding_def ht_get_def ht_entries_def)
  then have "hm_at (\<lambda>_. 0) (=) 1 colliding = Inr 10" using std_hash.ht_at_eq[OF colliding_ok] by simp
  then show ?thesis
    using index_refers_to_bucket_head[OF colliding_ok, of 0 1] get by (auto simp: colliding_def)
qed

text \<open>Erasing along a chain, and the loop that goes on from the end.\<close>

lemma erase_chain:
  assumes "ht_ok hasher (=) t" "i < length (ht_buckets t)" "stop \<noteq> \<lparr>it_bucket = Some i, it_node = None\<rparr>"
    "\<And>j. stop \<noteq> \<lparr>it_bucket = Some i, it_node = Some (i, j)\<rparr>"
  shows "\<exists>t'. ht_ok hasher (=) t' \<and> ht_buckets t' = (ht_buckets t)[i := []] \<and> ht_bucket_count t' = ht_bucket_count t
    \<and> hm_erase_range hasher \<lparr>it_bucket = Some i, it_node = (if ht_buckets t ! i = [] then None else Some (i, 0))\<rparr> stop t
    = hm_erase_range hasher (ht_end t') stop t'"
  using assms(1,2)
proof (induction "ht_buckets t ! i" arbitrary: t)
  case Nil
  then have "(ht_buckets t)[i := []] = ht_buckets t" by (metis list_update_id)
  moreover have "hm_erase_range hasher \<lparr>it_bucket = Some i, it_node = None\<rparr> stop t = hm_erase_range hasher (ht_end t) stop t"
    using assms(3) by (subst hm_erase_range.simps) (auto simp: std_hash.erase_end)
  ultimately show ?case using Nil by (intro exI[of _ t]) simp
next
  case (Cons kv c)
  let ?u = "ht_unlink i 0 t"
  note ok = std_hash.unlink_ok(1)[OF Cons.prems, of 0]
  have u: "ht_buckets ?u = (ht_buckets t)[i := c]" "ht_bucket_count ?u = ht_bucket_count t"
    using Cons.hyps(2) by (simp_all add: ht_unlink_def remove_nth_def drop_Suc flip: Cons.hyps(2))
  have "hm_erase_range hasher \<lparr>it_bucket = Some i, it_node = Some (i, 0)\<rparr> stop t
      = hm_erase_range hasher \<lparr>it_bucket = Some i, it_node = (if c = [] then None else Some (i, 0))\<rparr> stop ?u"
    using assms(4)[of 0] std_hash.erase_at[OF Cons.prems, of 0 "\<lparr>it_bucket = Some i, it_node = Some (i, 0)\<rparr>"]
    by (subst hm_erase_range.simps) (auto simp flip: Cons.hyps(2))
  moreover have "ht_buckets ?u ! i = c" using u Cons.prems by simp
  moreover obtain t' where "ht_ok hasher (=) t'" "ht_buckets t' = (ht_buckets ?u)[i := []]"
    "ht_bucket_count t' = ht_bucket_count ?u"
    "hm_erase_range hasher \<lparr>it_bucket = Some i, it_node = (if ht_buckets ?u ! i = [] then None else Some (i, 0))\<rparr> stop ?u
      = hm_erase_range hasher (ht_end t') stop t'"
    using Cons.hyps(1)[of ?u] ok u Cons.prems \<open>ht_buckets ?u ! i = c\<close> by (auto simp flip: Cons.hyps(2))
  ultimately show ?case using u by (intro exI[of _ t']) (simp flip: Cons.hyps(2))
qed

lemma erase_from_end:
  assumes "stop \<noteq> ht_end t"
  shows "hm_erase_range hasher (ht_end t) stop t = None"
proof (cases "hm_erase_range hasher (ht_end t) stop t")
  case (Some y)
  have "first = ht_end t \<longrightarrow> stop = ht_end t" if "hm_erase_range hasher first stop t = Some y" for first
  proof (rule hm_erase_range.raw_induct[where P = "\<lambda>_ first stop t _. first = ht_end t \<longrightarrow> stop = ht_end t", OF _ that])
    fix rec and hasher :: "'a \<Rightarrow> usize" and first stop and t :: "('a, 'b) htable" and y
    assume rec: "\<And>hasher first stop t y. rec hasher first stop t = Some y \<Longrightarrow> first = ht_end t \<longrightarrow> stop = ht_end t"
      and eq: "(if first = stop then Some (Inr t)
        else case ht_erase hasher first t of Inl e \<Rightarrow> Some (Inl e) | Inr r \<Rightarrow> rec hasher (fst r) stop (snd r)) = Some y"
    show "first = ht_end t \<longrightarrow> stop = ht_end t"
    proof
      assume f: "first = ht_end t"
      then have "ht_erase hasher first t = Inr (ht_end t, t)" by (simp add: ht_end_def ht_erase_def)
      then show "stop = ht_end t" using eq f rec[of hasher "ht_end t" stop t y] by (auto split: if_splits)
    qed
  qed
  then show ?thesis using Some assms by blast
qed

text \<open>
  C28: \<^verbatim>\<open>erase(first, last)\<close> follows the iterators that \<^verbatim>\<open>erase(pos)\<close> returns, which at the end of a chain point nowhere
  and from which the next one is \<^verbatim>\<open>end()\<close>. So \<^verbatim>\<open>erase(begin(), end())\<close> returns having removed the entries of
  the first non-empty bucket and no other, and \<^verbatim>\<open>erase(begin(), last)\<close> for a \<^verbatim>\<open>last\<close> in a later bucket never returns.
\<close>

lemma erase_range_of_chains:
  assumes "ht_ok hasher (=) t" "i < length (ht_buckets t)" "ht_buckets t ! i \<noteq> []"
    "\<forall>j<i. ht_buckets t ! j = []"
  shows "(\<exists>t'. hm_erase_range hasher (ht_begin t) (ht_end t) t = Some (Inr t') \<and> ht_ok hasher (=) t'
      \<and> ht_buckets t' = (ht_buckets t)[i := []])
    \<and> (i < i' \<longrightarrow> hm_erase_range hasher (ht_begin t) \<lparr>it_bucket = Some i', it_node = Some (i', j)\<rparr> t = None)"
proof -
  have "ht_begin t = \<lparr>it_bucket = Some i, it_node = Some (i, 0)\<rparr>"
    using ht_advance_cases[of 0 t] assms(2-4) unfolding ht_begin_def
    by (metis concat.simps(2) append_is_Nil_conv concat_eq_Nil_conv drop0 le0 linorder_neqE_nat nth_mem)
  then have b: "ht_begin t = \<lparr>it_bucket = Some i, it_node = (if ht_buckets t ! i = [] then None else Some (i, 0))\<rparr>"
    using assms(3) by simp
  have "ht_end t \<noteq> \<lparr>it_bucket = Some i, it_node = None\<rparr>"
    using assms(1,2) by (simp add: ht_end_def ht_ok_def placed_def)
  then obtain t' where "ht_ok hasher (=) t'" "ht_buckets t' = (ht_buckets t)[i := []]" "ht_end t' = ht_end t"
    "hm_erase_range hasher (ht_begin t) (ht_end t) t = hm_erase_range hasher (ht_end t') (ht_end t) t'"
    using erase_chain[OF assms(1,2), of "ht_end t"] unfolding b by (auto simp: ht_end_def)
  moreover from this have "hm_erase_range hasher (ht_end t') (ht_end t) t' = Some (Inr t')"
    by (subst hm_erase_range.simps) simp
  ultimately have "\<exists>t'. hm_erase_range hasher (ht_begin t) (ht_end t) t = Some (Inr t') \<and> ht_ok hasher (=) t'
      \<and> ht_buckets t' = (ht_buckets t)[i := []]" by metis
  moreover have "hm_erase_range hasher (ht_begin t) \<lparr>it_bucket = Some i', it_node = Some (i', j)\<rparr> t = None" if "i < i'"
  proof -
    let ?s = "\<lparr>it_bucket = Some i', it_node = Some (i', j)\<rparr>"
    obtain t'' where "hm_erase_range hasher (ht_begin t) ?s t = hm_erase_range hasher (ht_end t'') ?s t''"
      using erase_chain[OF assms(1,2), of ?s] \<open>i < i'\<close> unfolding b by (metis hiter.ext_inject less_irrefl option.distinct(1) option.inject prod.inject)
    then show ?thesis using erase_from_end[of ?s t'' hasher] by (simp add: ht_end_def)
  qed
  ultimately show ?thesis by blast
qed

definition two_chains :: "(nat, nat) htable" where
  "two_chains = \<lparr>ht_buckets = [[(2, 20)], [(1, 10)]], ht_bucket_count = 2, ht_size = 2, ht_max_load = 1\<rparr>"

lemma erase_range_of_chains_witness:
  "(\<exists>t'. hm_erase_range (\<lambda>k. if k = 1 then 1 else 0) (ht_begin two_chains) (ht_end two_chains) two_chains = Some (Inr t')
      \<and> ht_buckets t' = [[], [(1, 10)]])
    \<and> hm_erase_range (\<lambda>k. if k = 1 then 1 else 0) (ht_begin two_chains)
        \<lparr>it_bucket = Some 1, it_node = Some (1, 0)\<rparr> two_chains = None"
proof -
  have "ht_ok (\<lambda>k. if k = 1 then 1 else 0) (=) two_chains"
    by (auto simp: two_chains_def ht_ok_def placed_def ht_entries_def no_dup_def less_Suc_eq numeral_2_eq_2)
  from erase_range_of_chains[OF this, of 0 1 0] show ?thesis by (auto simp: two_chains_def)
qed

end

