(* ===== verification/Nodes.thy ===== *)
theory Nodes
  imports Memory
begin

text \<open>
  A store of list nodes, as \<^verbatim>\<open>libs/base/list.hpp\<close> and \<^verbatim>\<open>forward_list.hpp\<close> allocate them: one function per field
  of \<^verbatim>\<open>Node\<close>, with the size of a list at its header. Chains of links are lists of addresses, and operations
  are surgery on such lists. The locale \<open>node_container\<close> is what programs over several lists that share the store need to know
  of one kind of list.
\<close>

section \<open>The store\<close>

type_synonym addr = nat

abbreviation (input) null :: addr where
  "null \<equiv> 0"

record 'v nodes =
  nd_value :: "addr \<Rightarrow> 'v"
  nd_prev :: "addr \<Rightarrow> addr"
  nd_next :: "addr \<Rightarrow> addr"
  nd_size :: "addr \<Rightarrow> nat"
  nd_live :: "addr \<Rightarrow> bool"
  nd_fresh :: addr

definition put_next :: "addr \<Rightarrow> addr \<Rightarrow> 'v nodes \<Rightarrow> 'v nodes" where
  "put_next n p s = s\<lparr>nd_next := (nd_next s)(n := p)\<rparr>"

definition put_prev :: "addr \<Rightarrow> addr \<Rightarrow> 'v nodes \<Rightarrow> 'v nodes" where
  "put_prev n p s = s\<lparr>nd_prev := (nd_prev s)(n := p)\<rparr>"

definition put_size :: "addr \<Rightarrow> nat \<Rightarrow> 'v nodes \<Rightarrow> 'v nodes" where
  "put_size h n s = s\<lparr>nd_size := (nd_size s)(h := n)\<rparr>"

text \<open>\<^verbatim>\<open>_create_node\<close> and \<^verbatim>\<open>_emplace_create_node\<close> allocate the next address.\<close>

definition nd_create :: "'v \<Rightarrow> 'v nodes \<Rightarrow> addr \<times> 'v nodes" where
  "nd_create val s =
     (let mem = nd_fresh s;
          s = s\<lparr>nd_fresh := mem + 1, nd_live := (nd_live s)(mem := True), nd_value := (nd_value s)(mem := val)\<rparr>;
          s = put_prev mem null s
      in (mem, put_next mem null s))"

definition nd_free :: "addr \<Rightarrow> 'v nodes \<Rightarrow> 'v nodes" where
  "nd_free n s = s\<lparr>nd_live := (nd_live s)(n := False)\<rparr>"

text \<open>The nodes of \<open>A\<close> given back, in whatever order.\<close>

definition nd_freed :: "addr set \<Rightarrow> 'v nodes \<Rightarrow> 'v nodes" where
  "nd_freed A s = s\<lparr>nd_live := (\<lambda>a. a \<notin> A \<and> nd_live s a)\<rparr>"

lemma nodes_simps [simp]:
  "nd_next (put_next n p s) = (nd_next s)(n := p)" "nd_prev (put_next n p s) = nd_prev s" "nd_value (put_next n p s) = nd_value s"
  "nd_size (put_next n p s) = nd_size s" "nd_live (put_next n p s) = nd_live s" "nd_fresh (put_next n p s) = nd_fresh s"
  "nd_next (put_prev n p s) = nd_next s" "nd_prev (put_prev n p s) = (nd_prev s)(n := p)" "nd_value (put_prev n p s) = nd_value s"
  "nd_size (put_prev n p s) = nd_size s" "nd_live (put_prev n p s) = nd_live s" "nd_fresh (put_prev n p s) = nd_fresh s"
  "nd_next (put_size n k s) = nd_next s" "nd_prev (put_size n k s) = nd_prev s" "nd_value (put_size n k s) = nd_value s"
  "nd_size (put_size n k s) = (nd_size s)(n := k)" "nd_live (put_size n k s) = nd_live s" "nd_fresh (put_size n k s) = nd_fresh s"
  "nd_next (nd_freed A s) = nd_next s" "nd_prev (nd_freed A s) = nd_prev s" "nd_value (nd_freed A s) = nd_value s"
  "nd_size (nd_freed A s) = nd_size s" "nd_live (nd_freed A s) = (\<lambda>a. a \<notin> A \<and> nd_live s a)" "nd_fresh (nd_freed A s) = nd_fresh s"
  by (simp_all add: put_next_def put_prev_def put_size_def nd_freed_def)

lemma create_simps [simp]:
  "fst (nd_create val s) = nd_fresh s"
  "nd_next (snd (nd_create val s)) = (nd_next s)(nd_fresh s := null)"
  "nd_prev (snd (nd_create val s)) = (nd_prev s)(nd_fresh s := null)"
  "nd_value (snd (nd_create val s)) = (nd_value s)(nd_fresh s := val)"
  "nd_size (snd (nd_create val s)) = nd_size s"
  "nd_live (snd (nd_create val s)) = (nd_live s)(nd_fresh s := True)"
  "nd_fresh (snd (nd_create val s)) = Suc (nd_fresh s)"
  by (simp_all add: nd_create_def Let_def put_next_def put_prev_def)

lemma free_is_freed: "nd_free n s = nd_freed {n} s"
  by (auto simp: nd_free_def nd_freed_def fun_eq_iff)

lemma nd_freed_simps [simp]: "nd_freed {} s = s" "nd_freed A (nd_freed B s) = nd_freed (A \<union> B) s"
  by (auto simp: nd_freed_def fun_eq_iff)

section \<open>Chains\<close>

text \<open>Each address of the list links to the one after it; each is linked back to the one before.\<close>

fun fwd :: "'v nodes \<Rightarrow> addr list \<Rightarrow> bool" where
  "fwd s [] = True"
| "fwd s [a] = True"
| "fwd s (a # b # xs) = (nd_next s a = b \<and> fwd s (b # xs))"

fun bwd :: "'v nodes \<Rightarrow> addr list \<Rightarrow> bool" where
  "bwd s [] = True"
| "bwd s [a] = True"
| "bwd s (a # b # xs) = (nd_prev s b = a \<and> bwd s (b # xs))"

lemma fwd_append: "fwd s (xs @ a # ys) \<longleftrightarrow> fwd s (xs @ [a]) \<and> fwd s (a # ys)"
  by (induction xs rule: fwd.induct) (cases ys; auto)+

lemma bwd_append: "bwd s (xs @ a # ys) \<longleftrightarrow> bwd s (xs @ [a]) \<and> bwd s (a # ys)"
  by (induction xs rule: fwd.induct) (cases ys; auto)+

lemma fwd_cong: "(\<And>x. x \<in> set (butlast xs) \<Longrightarrow> nd_next s' x = nd_next s x) \<Longrightarrow> fwd s' xs = fwd s xs"
  by (induction xs rule: fwd.induct) auto

lemma bwd_cong: "(\<And>x. x \<in> set (tl xs) \<Longrightarrow> nd_prev s' x = nd_prev s x) \<Longrightarrow> bwd s' xs = bwd s xs"
  by (induction xs rule: fwd.induct) auto

lemma fwd_put [simp]:
  "p \<notin> set (butlast xs) \<Longrightarrow> fwd (put_next p q s) xs = fwd s xs" "fwd (put_prev p q s) xs = fwd s xs"
  "fwd (put_size p n s) xs = fwd s xs" "fwd (nd_freed A s) xs = fwd s xs"
  by (rule fwd_cong; auto)+

lemma bwd_put [simp]:
  "p \<notin> set (tl xs) \<Longrightarrow> bwd (put_prev p q s) xs = bwd s xs" "bwd (put_next p q s) xs = bwd s xs"
  "bwd (put_size p n s) xs = bwd s xs" "bwd (nd_freed A s) xs = bwd s xs"
  by (rule bwd_cong; auto)+

lemma fwd_join: "xs \<noteq> [] \<Longrightarrow> ys \<noteq> [] \<Longrightarrow> fwd s (xs @ ys) \<longleftrightarrow> fwd s xs \<and> nd_next s (last xs) = hd ys \<and> fwd s ys"
proof (induction xs rule: fwd.induct)
  case (2 a)
  then show ?case by (cases ys) auto
qed auto

lemma bwd_join: "xs \<noteq> [] \<Longrightarrow> ys \<noteq> [] \<Longrightarrow> bwd s (xs @ ys) \<longleftrightarrow> bwd s xs \<and> nd_prev s (hd ys) = last xs \<and> bwd s ys"
proof (induction xs rule: fwd.induct)
  case (2 a)
  then show ?case by (cases ys) auto
qed auto

lemma fwd_Cons: "fwd s (a # xs @ [e]) \<longleftrightarrow> nd_next s a = hd (xs @ [e]) \<and> fwd s (xs @ [e])"
  by (cases xs) auto

section \<open>What a step changes\<close>

text \<open>Among the addresses in use, only those of \<open>A\<close> changed.\<close>

definition changes :: "addr set \<Rightarrow> 'v nodes \<Rightarrow> 'v nodes \<Rightarrow> bool" where
  "changes A s s' \<longleftrightarrow> nd_fresh s \<le> nd_fresh s' \<and> (\<forall>q. q \<notin> A \<longrightarrow> q < nd_fresh s \<longrightarrow> nd_next s' q = nd_next s q
     \<and> nd_prev s' q = nd_prev s q \<and> nd_value s' q = nd_value s q \<and> nd_live s' q = nd_live s q \<and> nd_size s' q = nd_size s q)"

lemma changes_refl [simp]: "changes A s s"
  by (simp add: changes_def)

lemma changes_trans:
  assumes "changes A s s1" "changes B s1 s2" "B \<subseteq> A \<union> {nd_fresh s..}"
  shows "changes A s s2"
proof -
  have "q \<notin> B" "q < nd_fresh s1" if "q \<notin> A" "q < nd_fresh s" for q
    using assms that by (auto simp: changes_def)
  then show ?thesis using assms(1,2) by (simp add: changes_def)
qed

lemma changes_mono: "changes A s s' \<Longrightarrow> A \<subseteq> B \<Longrightarrow> changes B s s'"
  unfolding changes_def by blast

lemma changes_put:
  "n \<in> A \<Longrightarrow> changes A s s1 \<Longrightarrow> changes A s (put_next n p s1)" "n \<in> A \<Longrightarrow> changes A s s1 \<Longrightarrow> changes A s (put_prev n p s1)"
  "n \<in> A \<Longrightarrow> changes A s s1 \<Longrightarrow> changes A s (put_size n k s1)"
  "nd_fresh s \<le> n \<Longrightarrow> changes A s s1 \<Longrightarrow> changes A s (put_next n p s1)"
  "nd_fresh s \<le> n \<Longrightarrow> changes A s s1 \<Longrightarrow> changes A s (put_prev n p s1)"
  "B \<subseteq> A \<Longrightarrow> changes A s s1 \<Longrightarrow> changes A s (nd_freed B s1)"
  "changes A s s1 \<Longrightarrow> changes A s (snd (nd_create val s1))"
  by (auto simp: changes_def)

definition nd_strays :: "'v nodes \<Rightarrow> addr set \<Rightarrow> addr set" where
  "nd_strays s A = {a. a < nd_fresh s \<and> nd_live s a \<and> a \<notin> A}"

lemma nd_strays_Un: "nd_strays s (A \<union> B) = nd_strays s A - B"
  by (auto simp: nd_strays_def)

section \<open>Containers of nodes\<close>

text \<open>
  What several containers in one store rest on: whether a header \<open>h\<close> has the nodes \<open>xs\<close> depends on these addresses only.
\<close>

locale node_container =
  fixes ok :: "addr \<Rightarrow> 'v nodes \<Rightarrow> addr list \<Rightarrow> bool"
  assumes ok_cong: "ok h s xs \<Longrightarrow> changes A s s' \<Longrightarrow> h \<notin> A \<Longrightarrow> set xs \<inter> A = {} \<Longrightarrow> ok h s' xs"
    and ok_live: "ok h s xs \<Longrightarrow> x \<in> set xs \<Longrightarrow> nd_live s x \<and> x < nd_fresh s"
    and ok_header: "ok h s xs \<Longrightarrow> h \<notin> set xs \<and> h < nd_fresh s"
begin

text \<open>A step on one container: it has the nodes \<open>ys\<close> afterwards, old ones and new ones, and no live node was lost.\<close>

definition step :: "addr \<Rightarrow> 'v nodes \<Rightarrow> addr list \<Rightarrow> 'v nodes \<Rightarrow> addr list \<Rightarrow> bool" where
  "step h s xs s' ys \<longleftrightarrow> ok h s' ys \<and> changes (insert h (set xs)) s s' \<and> set ys \<subseteq> set xs \<union> {nd_fresh s..}
     \<and> nd_strays s' (set ys) = nd_strays s (set xs)"

lemma step_refl: "ok h s xs \<Longrightarrow> step h s xs s xs"
  by (auto simp: step_def)

lemma step_ok: "step h s xs s' ys \<Longrightarrow> ok h s' ys"
  by (simp add: step_def)

lemma step_trans:
  assumes "step h s xs s1 ys" "step h s1 ys s2 zs"
  shows "step h s xs s2 zs"
proof -
  have le: "nd_fresh s \<le> nd_fresh s1" using assms(1) by (simp add: step_def changes_def)
  have "insert h (set ys) \<subseteq> insert h (set xs) \<union> {nd_fresh s..}" using assms(1) by (auto simp: step_def)
  then have "changes (insert h (set xs)) s s2" using assms changes_trans unfolding step_def by blast
  moreover have "set zs \<subseteq> set xs \<union> {nd_fresh s..}" using assms le unfolding step_def by fastforce
  ultimately show ?thesis using assms by (simp add: step_def)
qed

lemma step_keeps:
  assumes "step h s xs s' ys" "ok k s zs" "k \<noteq> h" "k \<notin> set xs" "h \<notin> set zs" "set xs \<inter> set zs = {}"
  shows "ok k s' zs" "map (nd_value s') zs = map (nd_value s) zs" "k \<notin> set ys" "set ys \<inter> set zs = {}"
proof -
  have c: "changes (insert h (set xs)) s s'" and sub: "set ys \<subseteq> set xs \<union> {nd_fresh s..}" using assms(1) by (simp_all add: step_def)
  show "ok k s' zs" by (rule ok_cong[OF assms(2) c]) (use assms(3-6) in auto)
  have "nd_value s' x = nd_value s x" if x: "x \<in> set zs" for x
  proof -
    have "x \<notin> insert h (set xs)" "x < nd_fresh s" using x assms(5,6) ok_live[OF assms(2) x] by auto
    then show ?thesis using c by (simp add: changes_def)
  qed
  then show "map (nd_value s') zs = map (nd_value s) zs" by simp
  have "k \<notin> {nd_fresh s..}" "set zs \<inter> {nd_fresh s..} = {}" using ok_header[OF assms(2)] ok_live[OF assms(2)] by fastforce+
  then show "k \<notin> set ys" "set ys \<inter> set zs = {}" using sub assms(4,6) by blast+
qed

text \<open>Containers in one store: they share no address, and hold the values \<open>m\<close>.\<close>

definition group :: "addr set \<Rightarrow> 'v nodes \<Rightarrow> (addr \<Rightarrow> addr list) \<Rightarrow> (addr \<Rightarrow> 'v list) \<Rightarrow> bool" where
  "group H s X m \<longleftrightarrow> (\<forall>h\<in>H. ok h s (X h) \<and> map (nd_value s) (X h) = m h)
     \<and> (\<forall>h\<in>H. \<forall>k\<in>H. h \<noteq> k \<longrightarrow> h \<notin> set (X k) \<and> set (X h) \<inter> set (X k) = {})"

definition held :: "addr set \<Rightarrow> (addr \<Rightarrow> addr list) \<Rightarrow> addr set" where
  "held H X = (\<Union>h\<in>H. set (X h))"

lemma group_other:
  assumes "group H s X m" "changes A s s'" "k \<in> H" "k \<notin> A" "set (X k) \<inter> A = {}"
  shows "ok k s' (X k)" "map (nd_value s') (X k) = m k"
proof -
  have k: "ok k s (X k)" "map (nd_value s) (X k) = m k" using assms(1,3) by (simp_all add: group_def)
  show "ok k s' (X k)" by (rule ok_cong[OF k(1) assms(2,4,5)])
  have "nd_value s' x = nd_value s x" if "x \<in> set (X k)" for x
    using that assms(2,5) ok_live[OF k(1)] unfolding changes_def by blast
  then show "map (nd_value s') (X k) = m k" using k(2) by (simp cong: map_cong)
qed

lemma group_step:
  assumes g: "group H s X m" and h: "h \<in> H" and st: "step h s (X h) s' ys"
  shows "group H s' (X(h := ys)) (m(h := map (nd_value s') ys))" "nd_strays s' (held H (X(h := ys))) = nd_strays s (held H X)"
proof -
  have c: "changes (insert h (set (X h))) s s'" and sub: "set ys \<subseteq> set (X h) \<union> {nd_fresh s..}" using st by (simp_all add: step_def)
  have o: "ok k s' (X k) \<and> map (nd_value s') (X k) = m k \<and> k \<notin> set ys \<and> h \<notin> set (X k) \<and> set (X k) \<inter> set ys = {}"
    if "k \<in> H" "k \<noteq> h" for k
  proof -
    have d: "k \<notin> insert h (set (X h))" "set (X k) \<inter> insert h (set (X h)) = {}" using g h that by (auto simp: group_def)
    have "ok k s (X k)" using g that by (simp add: group_def)
    then have "k \<notin> {nd_fresh s..}" "set (X k) \<inter> {nd_fresh s..} = {}" using ok_live ok_header by fastforce+
    then show ?thesis using group_other[OF g c that(1) d] d sub by blast
  qed
  show "group H s' (X(h := ys)) (m(h := map (nd_value s') ys))"
  proof -
    have each: "ok q s' ((X(h := ys)) q) \<and> map (nd_value s') ((X(h := ys)) q) = (m(h := map (nd_value s') ys)) q" if "q \<in> H" for q
      using o[OF that] step_ok[OF st] by (cases "q = h") simp_all
    have "p \<notin> set ((X(h := ys)) q) \<and> set ((X(h := ys)) p) \<inter> set ((X(h := ys)) q) = {}" if pq: "p \<in> H" "q \<in> H" "p \<noteq> q" for p q
    proof -
      consider "p = h" "q \<noteq> h" | "p \<noteq> h" "q = h" | "p \<noteq> h" "q \<noteq> h" using pq(3) by blast
      then show ?thesis using o[OF pq(1)] o[OF pq(2)] g pq unfolding group_def by cases (simp_all add: Int_commute)
    qed
    then show ?thesis unfolding group_def using each by blast
  qed
  have "held H (X(h := ys)) = set ys \<union> held (H - {h}) X" "held H X = set (X h) \<union> held (H - {h}) X"
    using h by (auto simp: held_def split: if_splits)
  then show "nd_strays s' (held H (X(h := ys))) = nd_strays s (held H X)"
    using st by (simp add: nd_strays_Un step_def)
qed

text \<open>A container constructed at a header outside of the group joins it.\<close>

lemma group_new:
  assumes g: "group H s X m" and h: "h \<notin> H" "h \<notin> held H X" and ok: "ok h s' ys" "changes {h} s s'"
    and new: "set ys \<subseteq> {nd_fresh s..}" "nd_strays s' (set ys) = nd_strays s {}"
  shows "group (insert h H) s' (X(h := ys)) (m(h := map (nd_value s') ys))"
    "nd_strays s' (held (insert h H) (X(h := ys))) = nd_strays s (held H X)"
proof -
  have o: "ok k s' (X k) \<and> map (nd_value s') (X k) = m k \<and> k \<noteq> h \<and> k \<notin> set ys \<and> h \<notin> set (X k) \<and> set (X k) \<inter> set ys = {}"
    if k: "k \<in> H" for k
  proof -
    have kh: "k \<noteq> h" "h \<notin> set (X k)" using h k by (auto simp: held_def)
    have "ok k s (X k)" using g k by (simp add: group_def)
    then have "k \<notin> {nd_fresh s..}" "set (X k) \<inter> {nd_fresh s..} = {}" using ok_live ok_header by fastforce+
    then show ?thesis using group_other[OF g ok(2) k] kh new(1) by blast
  qed
  define X' m' where "X' = X(h := ys)" and "m' = m(h := map (nd_value s') ys)"
  have X': "X' h = ys" "m' h = map (nd_value s') ys" "\<And>q. q \<in> H \<Longrightarrow> X' q = X q" "\<And>q. q \<in> H \<Longrightarrow> m' q = m q"
    using h(1) by (auto simp: X'_def m'_def)
  have e: "\<forall>q\<in>insert h H. ok q s' (X' q) \<and> map (nd_value s') (X' q) = m' q"
    using o ok(1) X' by simp
  have "\<forall>q\<in>H. h \<noteq> q \<longrightarrow> h \<notin> set (X' q) \<and> set (X' h) \<inter> set (X' q) = {}" using o X' by (simp add: Int_commute)
  moreover have "\<forall>p\<in>H. p \<noteq> h \<longrightarrow> p \<notin> set (X' h) \<and> set (X' p) \<inter> set (X' h) = {}" using o X' by simp
  moreover have "\<forall>p\<in>H. \<forall>q\<in>H. p \<noteq> q \<longrightarrow> p \<notin> set (X' q) \<and> set (X' p) \<inter> set (X' q) = {}" using g X' by (simp add: group_def)
  ultimately have "group (insert h H) s' X' m'" using e by (simp add: group_def)
  then show "group (insert h H) s' (X(h := ys)) (m(h := map (nd_value s') ys))" by (simp only: X'_def m'_def)
  have "held (insert h H) (X(h := ys)) = set ys \<union> held H X" using h(1) by (auto simp: held_def split: if_splits)
  then show "nd_strays s' (held (insert h H) (X(h := ys))) = nd_strays s (held H X)"
    using new(2) nd_strays_Un[of s' "set ys" "held H X"] nd_strays_Un[of s "{}" "held H X"] by simp
qed

lemma group_step_to:
  assumes "group H s X m" "h \<in> H" "step h s (X h) s' ys" "map (nd_value s') ys = vals"
  shows "\<exists>X'. group H s' X' (m(h := vals)) \<and> nd_strays s' (held H X') = nd_strays s (held H X)"
  using group_step[OF assms(1-3)] assms(4) by blast

text \<open>Two containers side by side, and a step on both, which may exchange nodes.\<close>

definition pair :: "addr \<Rightarrow> addr \<Rightarrow> 'v nodes \<Rightarrow> addr list \<Rightarrow> addr list \<Rightarrow> bool" where
  "pair h k s xs ys \<longleftrightarrow> ok h s xs \<and> ok k s ys \<and> h \<noteq> k \<and> h \<notin> set ys \<and> k \<notin> set xs \<and> set xs \<inter> set ys = {}"

definition step2 :: "addr \<Rightarrow> addr \<Rightarrow> 'v nodes \<Rightarrow> addr list \<Rightarrow> addr list \<Rightarrow> 'v nodes \<Rightarrow> addr list \<Rightarrow> addr list \<Rightarrow> bool" where
  "step2 h k s xs ys s' xs' ys' \<longleftrightarrow> pair h k s' xs' ys' \<and> changes ({h, k} \<union> set xs \<union> set ys) s s'
     \<and> set xs' \<union> set ys' \<subseteq> set xs \<union> set ys \<union> {nd_fresh s..}
     \<and> nd_strays s' (set xs' \<union> set ys') = nd_strays s (set xs \<union> set ys)"

lemma pair_sym: "pair h k s xs ys \<Longrightarrow> pair k h s ys xs"
  by (auto simp: pair_def)

lemma step2_sym: "step2 h k s xs ys s' xs' ys' \<Longrightarrow> step2 k h s ys xs s' ys' xs'"
  by (simp add: step2_def pair_sym Un_commute insert_commute)

lemma step2_trans:
  assumes "step2 h k s xs ys s1 xs1 ys1" "step2 h k s1 xs1 ys1 s' xs' ys'"
  shows "step2 h k s xs ys s' xs' ys'"
proof -
  have le: "nd_fresh s \<le> nd_fresh s1" using assms(1) by (simp add: step2_def changes_def)
  have sub: "set xs1 \<union> set ys1 \<subseteq> set xs \<union> set ys \<union> {nd_fresh s..}" using assms(1) by (simp add: step2_def)
  have "changes ({h, k} \<union> set xs \<union> set ys) s s'"
    by (rule changes_trans[of _ s s1 "{h, k} \<union> set xs1 \<union> set ys1"]) (use assms sub in \<open>auto simp: step2_def\<close>)
  moreover have "set xs' \<union> set ys' \<subseteq> set xs \<union> set ys \<union> {nd_fresh s..}"
  proof (rule subset_trans)
    show "set xs' \<union> set ys' \<subseteq> set xs1 \<union> set ys1 \<union> {nd_fresh s1..}" using assms(2) by (simp add: step2_def)
    have "{nd_fresh s1..} \<subseteq> {nd_fresh s..}" using le by simp
    then show "set xs1 \<union> set ys1 \<union> {nd_fresh s1..} \<subseteq> set xs \<union> set ys \<union> {nd_fresh s..}"
      by (intro Un_least[OF sub] subset_trans[OF _ Un_upper2])
  qed
  moreover have "pair h k s' xs' ys'" "nd_strays s' (set xs' \<union> set ys') = nd_strays s1 (set xs1 \<union> set ys1)"
    "nd_strays s1 (set xs1 \<union> set ys1) = nd_strays s (set xs \<union> set ys)"
    using assms by (simp_all add: step2_def)
  ultimately show ?thesis unfolding step2_def by (simp only: simp_thms)
qed

lemma step_pair:
  assumes "step h s xs s' xs'" "pair h k s xs ys"
  shows "step2 h k s xs ys s' xs' ys" "map (nd_value s') ys = map (nd_value s) ys"
proof -
  have p: "ok k s ys" "k \<noteq> h" "k \<notin> set xs" "h \<notin> set ys" "set xs \<inter> set ys = {}" using assms(2) by (auto simp: pair_def)
  note k = step_keeps[OF assms(1) p]
  have "changes (insert h (set xs)) s s'" using assms(1) by (simp add: step_def)
  then have "changes ({h, k} \<union> set xs \<union> set ys) s s'" by (rule changes_mono) auto
  moreover have "pair h k s' xs' ys" using step_ok[OF assms(1)] k p by (simp add: pair_def)
  moreover have "set xs' \<union> set ys \<subseteq> set xs \<union> set ys \<union> {nd_fresh s..}" using assms(1) by (auto simp: step_def)
  moreover have "nd_strays s' (set xs' \<union> set ys) = nd_strays s (set xs \<union> set ys)"
    using assms(1) by (simp add: step_def nd_strays_Un)
  ultimately show "step2 h k s xs ys s' xs' ys" by (simp add: step2_def)
  show "map (nd_value s') ys = map (nd_value s) ys" by (rule k(2))
qed

lemma group_pair: "group H s X m \<Longrightarrow> h \<in> H \<Longrightarrow> k \<in> H \<Longrightarrow> h \<noteq> k \<Longrightarrow> pair h k s (X h) (X k)"
  by (auto simp: group_def pair_def)

lemma group_step2:
  assumes g: "group H s X m" and H: "h \<in> H" "k \<in> H" and st2: "step2 h k s (X h) (X k) s' ys zs"
  shows "group H s' (X(h := ys, k := zs)) (m(h := map (nd_value s') ys, k := map (nd_value s') zs))"
    "nd_strays s' (held H (X(h := ys, k := zs))) = nd_strays s (held H X)"
proof -
  have ok: "ok h s' ys" "ok k s' zs" and d: "h \<notin> set zs" "k \<notin> set ys" "set ys \<inter> set zs = {}" and hk: "h \<noteq> k"
    and sub: "set ys \<union> set zs \<subseteq> set (X h) \<union> set (X k) \<union> {nd_fresh s..}"
    and c: "changes ({h, k} \<union> set (X h) \<union> set (X k)) s s'"
    and st: "nd_strays s' (set ys \<union> set zs) = nd_strays s (set (X h) \<union> set (X k))"
    using st2 by (simp_all add: step2_def pair_def)
  have o: "ok q s' (X q) \<and> map (nd_value s') (X q) = m q \<and> q \<notin> set ys \<and> q \<notin> set zs \<and> h \<notin> set (X q) \<and> k \<notin> set (X q)
      \<and> set (X q) \<inter> set ys = {} \<and> set (X q) \<inter> set zs = {}"
    if "q \<in> H" "q \<noteq> h" "q \<noteq> k" for q
  proof -
    have e: "q \<notin> {h, k} \<union> set (X h) \<union> set (X k)" "set (X q) \<inter> ({h, k} \<union> set (X h) \<union> set (X k)) = {}"
      using g H that by (auto simp: group_def)
    have "ok q s (X q)" using g that by (simp add: group_def)
    then have "q \<notin> {nd_fresh s..}" "set (X q) \<inter> {nd_fresh s..} = {}" using ok_live ok_header by fastforce+
    then show ?thesis using group_other[OF g c that(1) e] e sub by blast
  qed
  have gg: "p \<notin> set (X q) \<and> set (X p) \<inter> set (X q) = {}" if "p \<in> H" "q \<in> H" "p \<noteq> q" for p q
    using g that by (simp add: group_def)
  let ?X = "X(h := ys, k := zs)" and ?m = "m(h := map (nd_value s') ys, k := map (nd_value s') zs)"
  have each: "ok q s' (?X q) \<and> map (nd_value s') (?X q) = ?m q" if "q \<in> H" for q
    using o[OF that] ok hk by (cases "q = h"; cases "q = k") simp_all
  have "p \<notin> set (?X q) \<and> set (?X p) \<inter> set (?X q) = {}" if pq: "p \<in> H" "q \<in> H" "p \<noteq> q" for p q
  proof -
    consider "p = h" "q = k" | "p = k" "q = h" | "p = h" "q \<noteq> h" "q \<noteq> k" | "p = k" "q \<noteq> h" "q \<noteq> k"
      | "p \<noteq> h" "p \<noteq> k" "q = h" | "p \<noteq> h" "p \<noteq> k" "q = k" | "p \<noteq> h" "p \<noteq> k" "q \<noteq> h" "q \<noteq> k" using pq(3) by blast
    then show ?thesis
      using d hk o[OF pq(1)] o[OF pq(2)] gg[OF pq] by cases (simp_all add: Int_commute)
  qed
  then show "group H s' ?X ?m" unfolding group_def using each by blast
  have "held H (X(h := ys, k := zs)) = (set ys \<union> set zs) \<union> held (H - {h, k}) X"
    "held H X = (set (X h) \<union> set (X k)) \<union> held (H - {h, k}) X"
    using H hk by (auto simp: held_def split: if_splits)
  then show "nd_strays s' (held H (X(h := ys, k := zs))) = nd_strays s (held H X)"
    using st nd_strays_Un by metis
qed

lemma group_step2_to:
  assumes "group H s X m" "h \<in> H" "k \<in> H" "step2 h k s (X h) (X k) s' ys zs" "map (nd_value s') ys = vals" "map (nd_value s') zs = vals2"
  shows "\<exists>X'. group H s' X' (m(h := vals, k := vals2)) \<and> nd_strays s' (held H X') = nd_strays s (held H X)"
  using group_step2[OF assms(1-4)] assms(5,6) by blast

end

text \<open>
  Programs: the operations of a container one after the other, each with an answer, and the same on value lists; \<open>pre\<close> is
  the contract of an operation.
\<close>

fun ops_run :: "('op \<Rightarrow> 's \<Rightarrow> ('a \<times> 's) option) \<Rightarrow> 'op list \<Rightarrow> 's \<Rightarrow> ('a list \<times> 's) option" where
  "ops_run run1 [] s = Some ([], s)"
| "ops_run run1 (op # ops) s =
     Option.bind (run1 op s) (\<lambda>(n, s). Option.bind (ops_run run1 ops s) (\<lambda>(ns, s). Some (n # ns, s)))"

fun ops_spec :: "('op \<Rightarrow> 'm \<Rightarrow> 'a \<times> 'm) \<Rightarrow> 'op list \<Rightarrow> 'm \<Rightarrow> 'a list \<times> 'm" where
  "ops_spec spec1 [] m = ([], m)"
| "ops_spec spec1 (op # ops) m = (let (n, m) = spec1 op m; (ns, m) = ops_spec spec1 ops m in (n # ns, m))"

fun ops_pre :: "('op \<Rightarrow> 'm \<Rightarrow> 'a \<times> 'm) \<Rightarrow> ('op \<Rightarrow> 'm \<Rightarrow> bool) \<Rightarrow> 'op list \<Rightarrow> 'm \<Rightarrow> bool" where
  "ops_pre spec1 pre [] m = True"
| "ops_pre spec1 pre (op # ops) m = (pre op m \<and> ops_pre spec1 pre ops (snd (spec1 op m)))"

locale node_program = node_container ok for ok :: "addr \<Rightarrow> 'v nodes \<Rightarrow> addr list \<Rightarrow> bool" +
  fixes run1 :: "'op \<Rightarrow> 'v nodes \<Rightarrow> ('a \<times> 'v nodes) option"
    and spec1 :: "'op \<Rightarrow> (addr \<Rightarrow> 'v list) \<Rightarrow> 'a \<times> (addr \<Rightarrow> 'v list)"
    and pre :: "addr set \<Rightarrow> 'op \<Rightarrow> (addr \<Rightarrow> 'v list) \<Rightarrow> bool"
  assumes refines1: "group H s X m \<Longrightarrow> pre H op m \<Longrightarrow> \<exists>s' X'. run1 op s = Some (fst (spec1 op m), s')
    \<and> group H s' X' (snd (spec1 op m)) \<and> nd_strays s' (held H X') = nd_strays s (held H X)"
begin

lemma run_refines:
  "group H s X m \<Longrightarrow> ops_pre spec1 (pre H) ops m \<Longrightarrow> \<exists>s' X'. ops_run run1 ops s = Some (fst (ops_spec spec1 ops m), s')
     \<and> group H s' X' (snd (ops_spec spec1 ops m)) \<and> nd_strays s' (held H X') = nd_strays s (held H X)"
proof (induction ops arbitrary: s X m)
  case Nil
  then show ?case by auto
next
  case (Cons op ops)
  have p: "pre H op m" "ops_pre spec1 (pre H) ops (snd (spec1 op m))" using Cons.prems(2) by simp_all
  obtain s1 X1 where 1: "run1 op s = Some (fst (spec1 op m), s1)" "group H s1 X1 (snd (spec1 op m))"
    "nd_strays s1 (held H X1) = nd_strays s (held H X)" using refines1[OF Cons.prems(1) p(1)] by blast
  obtain s' X' where "ops_run run1 ops s1 = Some (fst (ops_spec spec1 ops (snd (spec1 op m))), s')"
    "group H s' X' (snd (ops_spec spec1 ops (snd (spec1 op m))))" "nd_strays s' (held H X') = nd_strays s1 (held H X1)"
    using Cons.IH[OF 1(2) p(2)] by blast
  then show ?case using 1 by (intro exI[of _ s'] exI[of _ X']) (simp add: case_prod_unfold Let_def)
qed

end

text \<open>Answers of the operations of lists: a number, and values that an iteration or an iterator gives.\<close>

type_synonym 'v answer = "nat \<times> 'v list"

definition quiet :: "'s \<Rightarrow> (('v answer) \<times> 's) option" where
  "quiet s = Some ((0, []), s)"

definition counted :: "(nat \<times> 's) option \<Rightarrow> (('v answer) \<times> 's) option" where
  "counted r = map_option (\<lambda>(n, s). ((n, []), s)) r"

end
