(* ===== verification/HashSet.thy ===== *)
theory HashSet
  imports HashMap Nodes
begin

text \<open>
  The hash set of \<^verbatim>\<open>libs/base/hash_set.hpp\<close>, a table whose values are copies of the keys, or default keys beside keys that were
  moved in. The definitions are the operations of the class; \<open>HashTable\<close> has those with more to them (\<open>hs_insert\<close>, \<open>hs_extract\<close>).
\<close>

section \<open>Operations\<close>

definition hs_emplace ::
  "('k \<Rightarrow> usize) \<Rightarrow> ('k \<Rightarrow> 'k \<Rightarrow> bool) \<Rightarrow> 'k \<Rightarrow> 'k \<Rightarrow> ('k, 'k) htable \<Rightarrow> (hiter \<times> bool \<times> ('k, 'k) htable) res" where
  "hs_emplace hasher eq dflt value t = hs_insert_move hasher eq dflt value t"

fun hs_insert_all :: "('k \<Rightarrow> usize) \<Rightarrow> ('k \<Rightarrow> 'k \<Rightarrow> bool) \<Rightarrow> 'k list \<Rightarrow> ('k, 'k) htable \<Rightarrow> ('k, 'k) htable res" where
  "hs_insert_all hasher eq [] t = Inr t"
| "hs_insert_all hasher eq (value # vals) t =
     and_then (hs_insert hasher eq value t) (\<lambda>(it, ok, t). hs_insert_all hasher eq vals t)"

definition hs_erase_key :: "('k \<Rightarrow> usize) \<Rightarrow> ('k \<Rightarrow> 'k \<Rightarrow> bool) \<Rightarrow> 'k \<Rightarrow> ('k, 'k) htable \<Rightarrow> (nat \<times> ('k, 'k) htable) res" where
  "hs_erase_key hasher eq key t = ht_erase_key hasher eq key t"

definition hs_erase :: "('k \<Rightarrow> usize) \<Rightarrow> hiter \<Rightarrow> ('k, 'k) htable \<Rightarrow> (hiter \<times> ('k, 'k) htable) res" where
  "hs_erase hasher pos t = ht_erase hasher pos t"

definition hs_clear :: "('k, 'k) htable \<Rightarrow> ('k, 'k) htable" where
  "hs_clear t = ht_clear t"

definition hs_swap :: "('k, 'k) htable \<Rightarrow> ('k, 'k) htable \<Rightarrow> ('k, 'k) htable \<times> ('k, 'k) htable" where
  "hs_swap t other = ht_swap t other"

definition hs_rehash :: "('k \<Rightarrow> usize) \<Rightarrow> nat \<Rightarrow> ('k, 'k) htable \<Rightarrow> ('k, 'k) htable res" where
  "hs_rehash hasher n t = ht_rehash hasher n t"

definition hs_reserve :: "('k \<Rightarrow> usize) \<Rightarrow> nat \<Rightarrow> ('k, 'k) htable \<Rightarrow> ('k, 'k) htable res" where
  "hs_reserve hasher n t = ht_reserve hasher n t"

definition hs_set_max_load :: "rat \<Rightarrow> ('k, 'k) htable \<Rightarrow> ('k, 'k) htable" where
  "hs_set_max_load ml t = ht_set_max_load ml t"

definition hs_find :: "('k \<Rightarrow> usize) \<Rightarrow> ('k \<Rightarrow> 'k \<Rightarrow> bool) \<Rightarrow> 'k \<Rightarrow> ('k, 'k) htable \<Rightarrow> hiter res" where
  "hs_find hasher eq key t = ht_find hasher eq key t"

definition hs_contains :: "('k \<Rightarrow> usize) \<Rightarrow> ('k \<Rightarrow> 'k \<Rightarrow> bool) \<Rightarrow> 'k \<Rightarrow> ('k, 'k) htable \<Rightarrow> bool res" where
  "hs_contains hasher eq key t = ht_contains hasher eq key t"

definition hs_count :: "('k \<Rightarrow> usize) \<Rightarrow> ('k \<Rightarrow> 'k \<Rightarrow> bool) \<Rightarrow> 'k \<Rightarrow> ('k, 'k) htable \<Rightarrow> nat res" where
  "hs_count hasher eq key t = and_then (ht_contains hasher eq key t) (\<lambda>c. Inr (if c then 1 else 0))"

section \<open>Programs over a hash set\<close>

datatype 'k hs_op =
    HsInsert 'k | HsEmplace 'k 'k | HsInsertAll "'k list" | HsErase 'k | HsEraseAt 'k | HsExtract 'k
  | HsContains 'k | HsCount 'k | HsRehash nat | HsClear | HsCopy

text \<open>
  \<open>HsEraseAt\<close> and \<open>HsExtract\<close> work at the iterator that \<^verbatim>\<open>find\<close> returns, the latter only if that is not the end. The first argument
  of \<open>HsEmplace\<close> is what a default-constructed key is. The answer is a number, and the key that \<^verbatim>\<open>extract\<close> gives.
\<close>

fun hs_do :: "('k \<Rightarrow> usize) \<Rightarrow> ('k \<Rightarrow> 'k \<Rightarrow> bool) \<Rightarrow> 'k hs_op \<Rightarrow> ('k, 'k) htable \<Rightarrow> ((nat \<times> 'k option) \<times> ('k, 'k) htable) res" where
  "hs_do hasher eq (HsInsert k) t = and_then (hs_insert hasher eq k t) (\<lambda>(it, ok, t). Inr ((of_bool ok, None), t))"
| "hs_do hasher eq (HsEmplace d k) t = and_then (hs_emplace hasher eq d k t) (\<lambda>(it, ok, t). Inr ((of_bool ok, None), t))"
| "hs_do hasher eq (HsInsertAll ks) t = and_then (hs_insert_all hasher eq ks t) (\<lambda>t. Inr ((0, None), t))"
| "hs_do hasher eq (HsErase k) t = and_then (hs_erase_key hasher eq k t) (\<lambda>(n, t). Inr ((n, None), t))"
| "hs_do hasher eq (HsEraseAt k) t =
     and_then (hs_find hasher eq k t) (\<lambda>it. and_then (hs_erase hasher it t) (\<lambda>(it, t). Inr ((0, None), t)))"
| "hs_do hasher eq (HsExtract k) t =
     and_then (hs_find hasher eq k t) (\<lambda>it. if it = ht_end t then Inr ((0, None), t)
       else and_then (hs_extract hasher it t) (\<lambda>(key, t). Inr ((1, Some key), t)))"
| "hs_do hasher eq (HsContains k) t = and_then (hs_contains hasher eq k t) (\<lambda>b. Inr ((of_bool b, None), t))"
| "hs_do hasher eq (HsCount k) t = and_then (hs_count hasher eq k t) (\<lambda>n. Inr ((n, None), t))"
| "hs_do hasher eq (HsRehash n) t = and_then (hs_rehash hasher n t) (\<lambda>t. Inr ((0, None), t))"
| "hs_do hasher eq HsClear t = Inr ((0, None), hs_clear t)"
| "hs_do hasher eq HsCopy t = and_then (ht_copy hasher eq t) (\<lambda>t. Inr ((0, None), t))"

fun set_do :: "'k hs_op \<Rightarrow> 'k set \<Rightarrow> (nat \<times> 'k option) \<times> 'k set" where
  "set_do (HsInsert k) S = ((of_bool (k \<notin> S), None), insert k S)"
| "set_do (HsEmplace d k) S = ((of_bool (k \<notin> S), None), insert k S)"
| "set_do (HsInsertAll ks) S = ((0, None), S \<union> set ks)"
| "set_do (HsErase k) S = ((of_bool (k \<in> S), None), S - {k})"
| "set_do (HsEraseAt k) S = ((0, None), S - {k})"
| "set_do (HsExtract k) S = (if k \<in> S then (1, Some k) else (0, None), S - {k})"
| "set_do (HsContains k) S = ((of_bool (k \<in> S), None), S)"
| "set_do (HsCount k) S = ((of_bool (k \<in> S), None), S)"
| "set_do (HsRehash n) S = ((0, None), S)"
| "set_do HsClear S = ((0, None), {})"
| "set_do HsCopy S = ((0, None), S)"

fun hs_run :: "('k \<Rightarrow> usize) \<Rightarrow> ('k \<Rightarrow> 'k \<Rightarrow> bool) \<Rightarrow> 'k hs_op list \<Rightarrow> ('k, 'k) htable \<Rightarrow> ((nat \<times> 'k option) list \<times> ('k, 'k) htable) res" where
  "hs_run hasher eq [] t = Inr ([], t)"
| "hs_run hasher eq (op # ops) t =
     and_then (hs_do hasher eq op t) (\<lambda>(n, t). and_then (hs_run hasher eq ops t) (\<lambda>(ns, t). Inr (n # ns, t)))"

text \<open>The keys of a table.\<close>

definition ht_keys :: "('k, 'v) htable \<Rightarrow> 'k set" where
  "ht_keys t = {k. ht_get (=) t k \<noteq> None}"

text \<open>A well-formed set whose keys are \<open>S\<close>, after an answer.\<close>

definition gives :: "('k \<Rightarrow> usize) \<Rightarrow> ('a \<times> ('k, 'k) htable) res \<Rightarrow> 'a \<times> 'k set \<Rightarrow> bool" where
  "gives hasher r x \<longleftrightarrow> (\<exists>t. r = Inr (fst x, t) \<and> ht_ok hasher (=) t \<and> ht_keys t = snd x)"

lemma put_gives:
  assumes "ht_ok hasher (=) t"
  shows "gives hasher (and_then (ht_insert hasher (=) (k, v) t) (\<lambda>(it, ok, t). Inr (ok, t))) (k \<notin> ht_keys t, insert k (ht_keys t))"
proof -
  have "and_then (ht_insert hasher (=) (k, v) t) (\<lambda>(it, ok, t). Inr (ok, t)) = ht_put hasher (=) k v t"
    by (simp add: ht_insert_def ht_put_def)
  then show ?thesis using std_hash.emplace_law[OF assms, of k v] by (auto simp: gives_def ht_keys_def)
qed

lemma insert_gives:
  fixes k v :: 'k and t :: "('k, 'k) htable"
  assumes "ht_ok hasher (=) t"
  shows "\<exists>it t'. ht_insert hasher (=) (k, v) t = Inr (it, k \<notin> ht_keys t, t') \<and> ht_ok hasher (=) t' \<and> ht_keys t' = insert k (ht_keys t)"
  using put_gives[OF assms, of k v] by (auto simp: gives_def and_then_def split: sum.splits)

lemma insert_all_gives:
  "ht_ok hasher (=) t \<Longrightarrow> \<exists>t'. hs_insert_all hasher (=) ks t = Inr t' \<and> ht_ok hasher (=) t' \<and> ht_keys t' = ht_keys t \<union> set ks"
proof (induction ks arbitrary: t)
  case (Cons k ks)
  obtain it t1 where t1: "ht_insert hasher (=) (k, k) t = Inr (it, k \<notin> ht_keys t, t1)" "ht_ok hasher (=) t1" "ht_keys t1 = insert k (ht_keys t)"
    using insert_gives[OF Cons.prems, of k k] by blast
  then show ?case using Cons.IH[OF t1(2)] by (auto simp: hs_insert_def)
qed simp

lemma erased_keys:
  "ht_get (=) t' = (\<lambda>q. if k = q then None else ht_get (=) t q) \<Longrightarrow> ht_keys t' = ht_keys t - {k}"
  by (auto simp: ht_keys_def split: if_splits)

lemma extract_gives:
  assumes ok: "ht_ok hasher (=) t"
  shows "gives hasher (hs_do hasher (=) (HsExtract k) t) (set_do (HsExtract k) (ht_keys t))"
  using ok
proof (rule std_hash.find_cases[of hasher t k])
  assume n: "ht_get (=) t k = None" "ht_find hasher (=) k t = Inr (ht_end t)"
  then show ?thesis using ok by (auto simp: gives_def hs_find_def ht_keys_def)
next
  fix i j assume f: "i < length (ht_buckets t)" "j < length (ht_buckets t ! i)" "fst (ht_buckets t ! i ! j) = k"
    "ht_get (=) t k = Some (snd (ht_buckets t ! i ! j))" "ht_find hasher (=) k t = Inr \<lparr>it_bucket = Some i, it_node = Some (i, j)\<rparr>"
  let ?it = "\<lparr>it_bucket = Some i, it_node = Some (i, j)\<rparr>"
  obtain it it' t' where e: "ht_find hasher (=) k t = Inr it" "ht_erase hasher it t = Inr (it', t')" "ht_ok hasher (=) t'"
    "ht_get (=) t' = (\<lambda>q. if k = q then None else ht_get (=) t q)" using std_hash.find_erase[OF ok, of k] by blast
  moreover from e(1) f(5) have "it = ?it" by simp
  ultimately have "hs_extract hasher ?it t = Inr (k, t')" using f by (simp add: hs_extract_def ht_deref_def)
  moreover have "?it \<noteq> ht_end t" by (simp add: ht_end_def)
  moreover have "k \<in> ht_keys t" using f(4) by (simp add: ht_keys_def)
  ultimately show ?thesis using f(5) e(3) erased_keys[OF e(4)] by (simp add: gives_def hs_find_def)
qed

lemma hs_do_gives:
  assumes ok: "ht_ok hasher (=) t"
  shows "gives hasher (hs_do hasher (=) op t) (set_do op (ht_keys t))"
proof (cases op)
  case (HsInsert k)
  then show ?thesis using insert_gives[OF ok, of k k] by (auto simp: gives_def hs_insert_def)
next
  case (HsEmplace d k)
  then show ?thesis using insert_gives[OF ok, of k d] by (auto simp: gives_def hs_emplace_def hs_insert_move_def)
next
  case (HsInsertAll ks)
  then show ?thesis using insert_all_gives[OF ok, of ks] by (auto simp: gives_def)
next
  case (HsErase k)
  obtain t' where "ht_erase_key hasher (=) k t = Inr (if ht_get (=) t k = None then 0 else 1, t')" "ht_ok hasher (=) t'"
    "ht_get (=) t' = (\<lambda>q. if k = q then None else ht_get (=) t q)" using std_hash.erase_key_law[OF ok, of k] by blast
  then show ?thesis using HsErase erased_keys[of t' k t] by (simp add: gives_def hs_erase_key_def) (simp add: ht_keys_def)
next
  case (HsEraseAt k)
  obtain it it' t' where "ht_find hasher (=) k t = Inr it" "ht_erase hasher it t = Inr (it', t')" "ht_ok hasher (=) t'"
    "ht_get (=) t' = (\<lambda>q. if k = q then None else ht_get (=) t q)" using std_hash.find_erase[OF ok, of k] by blast
  then show ?thesis using HsEraseAt erased_keys[of t' k t] by (simp add: gives_def hs_find_def hs_erase_def)
next
  case (HsExtract k)
  then show ?thesis using extract_gives[OF ok] by simp
next
  case (HsContains k)
  then show ?thesis using std_hash.contains_eq[OF ok, of k] ok by (simp add: gives_def hs_contains_def ht_keys_def)
next
  case (HsCount k)
  then show ?thesis using std_hash.contains_eq[OF ok, of k] ok by (simp add: gives_def hs_count_def ht_keys_def)
next
  case (HsRehash n)
  then show ?thesis using std_hash.rehash_keeps[OF ok, of n] by (auto simp: gives_def hs_rehash_def ht_keys_def)
next
  case HsClear
  then show ?thesis using std_hash.clear_law[OF ok] by (simp add: gives_def hs_clear_def ht_keys_def)
next
  case HsCopy
  then show ?thesis using std_hash.copy_get[OF ok] by (auto simp: gives_def ht_keys_def)
qed

lemma hs_run_gives:
  "ht_ok hasher (=) t \<Longrightarrow> gives hasher (hs_run hasher (=) ops t) (ops_spec set_do ops (ht_keys t))"
proof (induction ops arbitrary: t)
  case (Cons op ops)
  obtain t1 where "hs_do hasher (=) op t = Inr (fst (set_do op (ht_keys t)), t1)" "ht_ok hasher (=) t1" "ht_keys t1 = snd (set_do op (ht_keys t))"
    using hs_do_gives[OF Cons.prems, of op] by (auto simp: gives_def)
  then show ?case using Cons.IH[of t1] by (auto simp: gives_def case_prod_unfold Let_def)
qed (simp add: gives_def)

text \<open>
  C29: a hash set started empty implements sets of keys, for these operations: insertion of a copy, of a moved or emplaced value and of a range,
  erasure of a key, erasure and extraction at the iterator \<^verbatim>\<open>find\<close> returns, contains, count, rehash, clear and copy
  construction. Whatever the hash function, every sequence of them runs without an error, and the flags, the counts and the extracted
  keys are those of the operations on sets; afterwards the size is that of the set, and iterating from \<^verbatim>\<open>begin\<close> reaches
  \<^verbatim>\<open>end\<close> after size() steps having visited each key once. The iterators that insertions and erasures return are not part of
  the answers (that of an insertion is wrong for a key that is there), and copy assignment, after which the size is wrong, moving
  and swapping are not among the operations.
\<close>

lemma hash_set_refines_sets:
  "\<exists>t kvs. hs_run hasher (=) ops ht_empty = Inr (fst (ops_spec set_do ops {}), t)
    \<and> ht_size t = card (snd (ops_spec set_do ops {}))
    \<and> ht_walk (ht_size t) (ht_begin t) t = Inr kvs \<and> distinct (map fst kvs) \<and> set (map fst kvs) = snd (ops_spec set_do ops {})"
proof -
  have "ht_keys (ht_empty :: ('a, 'a) htable) = {}" by (simp add: ht_keys_def std_hash.empty_ok(2))
  then obtain t where t: "hs_run hasher (=) ops ht_empty = Inr (fst (ops_spec set_do ops {}), t)" "ht_ok hasher (=) t"
    "ht_keys t = snd (ops_spec set_do ops {})"
    using hs_run_gives[OF std_hash.empty_ok(1), of hasher ops] by (auto simp: gives_def)
  note e = std_entries[OF t(2)]
  have "ht_keys t = dom (map_of (ht_entries t))" by (auto simp: ht_keys_def e(2))
  then have k: "set (map fst (ht_entries t)) = ht_keys t" by (simp add: dom_map_of_conv_image_fst)
  have sz: "ht_size t = length (ht_entries t)" using t(2) by (simp add: ht_ok_def)
  have "card (ht_keys t) = length (ht_entries t)" using distinct_card[OF e(1)] k by simp
  moreover have "ht_walk (ht_size t) (ht_begin t) t = Inr (ht_entries t)"
    using ht_walk_all[of t] t(2) by (simp add: ht_ok_def placed_def)
  ultimately show ?thesis using t(1,3) e(1) k sz by (intro exI[of _ t] exI[of _ "ht_entries t"]) simp
qed

end
