(* ===== verification/FixedArray.thy ===== *)
theory FixedArray
  imports Memory
begin

text \<open>
  The array of fixed size of \<^verbatim>\<open>libs/base/array.hpp\<close>: a list whose length is the size that the type fixes. The loops run over the
  indices as in the code; an access outside of the array, also through \<^verbatim>\<open>front\<close> and \<^verbatim>\<open>back\<close> of an array of size 0, is undefined.
\<close>

type_synonym 'a fixed_array = "'a list"

definition ar_size :: "'a fixed_array \<Rightarrow> nat" where
  "ar_size a = length a"

definition ar_is_empty :: "'a fixed_array \<Rightarrow> bool" where
  "ar_is_empty a \<longleftrightarrow> ar_size a = 0"

definition ar_index :: "nat \<Rightarrow> 'a fixed_array \<Rightarrow> 'a res" where
  "ar_index i a = (if i < ar_size a then Inr (a ! i) else Inl Undefined)"

definition ar_at :: "nat \<Rightarrow> 'a fixed_array \<Rightarrow> 'a res" where
  "ar_at i a = (if i \<ge> ar_size a then Inl OutOfRange else ar_index i a)"

definition ar_front :: "'a fixed_array \<Rightarrow> 'a res" where
  "ar_front a = ar_index 0 a"

text \<open>\<^verbatim>\<open>t_Size - 1\<close> is the largest index there is when the size is 0.\<close>

definition ar_back :: "'a fixed_array \<Rightarrow> 'a res" where
  "ar_back a = ar_index (unat (of_nat (ar_size a) - 1 :: usize)) a"

definition ar_fill :: "'a \<Rightarrow> 'a fixed_array \<Rightarrow> 'a fixed_array" where
  "ar_fill val a = (if ar_size a > 0 then fold (\<lambda>i a. a[i := val]) [0..<ar_size a] a else a)"

definition ar_swap :: "'a fixed_array \<Rightarrow> 'a fixed_array \<Rightarrow> 'a fixed_array \<times> 'a fixed_array" where
  "ar_swap a other = fold (\<lambda>i (a, other). (a[i := other ! i], other[i := a ! i])) [0..<ar_size a] (a, other)"

definition to_array :: "'a list \<Rightarrow> 'a fixed_array" where
  "to_array src = map (\<lambda>i. src ! i) [0..<length src]"

lemma fill_prefix: "n \<le> length a \<Longrightarrow> fold (\<lambda>i a. a[i := val]) [0..<n] a = replicate n val @ drop n a"
proof (induction n)
  case (Suc n)
  then have "drop n a = a ! n # drop (Suc n) a" by (simp add: Cons_nth_drop_Suc)
  then show ?case using Suc by (simp add: list_update_append replicate_append_same)
qed simp

lemma ar_fill_all: "ar_fill val a = replicate (ar_size a) val"
  using fill_prefix[of "length a" a val] by (simp add: ar_fill_def ar_size_def)

lemma swap_prefix:
  "n \<le> length a \<Longrightarrow> length other = length a \<Longrightarrow> fold (\<lambda>i (a, other). (a[i := other ! i], other[i := a ! i])) [0..<n] (a, other)
    = (take n other @ drop n a, take n a @ drop n other)"
proof (induction n)
  case (Suc n)
  then have "drop n a = a ! n # drop (Suc n) a" "drop n other = other ! n # drop (Suc n) other" "n < length a" "n < length other"
    by (simp_all add: Cons_nth_drop_Suc)
  then show ?case using Suc by (simp add: list_update_append nth_append take_Suc_conv_app_nth)
qed simp

lemma ar_swap_exchanges: "ar_size other = ar_size a \<Longrightarrow> ar_swap a other = (other, a)"
  using swap_prefix[of "length a" a other] by (simp add: ar_swap_def ar_size_def)

lemma to_array_same: "to_array src = src"
  by (simp add: to_array_def map_nth)

lemma ar_ends:
  assumes "ar_size a < 2 ^ 64"
  shows "ar_front a = (if a = [] then Inl Undefined else Inr (hd a))" "ar_back a = (if a = [] then Inl Undefined else Inr (last a))"
proof -
  show "ar_front a = (if a = [] then Inl Undefined else Inr (hd a))"
    by (simp add: ar_front_def ar_index_def ar_size_def hd_conv_nth)
  show "ar_back a = (if a = [] then Inl Undefined else Inr (last a))"
  proof (cases a rule: rev_cases)
    case (snoc b x)
    have "of_nat (length a) - 1 = (of_nat (length b) :: usize)" using snoc by simp
    moreover have "unat (of_nat (length b) :: usize) = length b" using assms snoc by (simp add: unat_of_nat ar_size_def)
    ultimately show ?thesis using snoc by (simp add: ar_back_def ar_index_def ar_size_def)
  qed (simp add: ar_back_def ar_index_def ar_size_def)
qed

end
