(* ===== verification/RBTree.thy ===== *)
theory RBTree
  imports MapSpec
begin

text \<open>
  The red-black tree of \<^verbatim>\<open>libs/base/rbtree.hpp\<close> and the map and the set built on it (\<^verbatim>\<open>map.hpp\<close>, \<^verbatim>\<open>set.hpp\<close>).
  Nodes are addresses of a store that has one function per field of \<^verbatim>\<open>Node\<close>. A tree is the address of its header,
  which is also its \<^verbatim>\<open>_nil\<close>: the header's parent is the root, its left and right the first and the last node.
  Several trees share a store, so moving and swapping relink the nodes as the code does. The store also says which
  nodes are allocated, and the next address that the allocator hands out. A loop is a partial function, \<open>None\<close> being a
  loop that does not end.
\<close>

section \<open>The store\<close>

type_synonym ptr = nat

record 'v rbstore =
  rb_value :: "ptr \<Rightarrow> 'v"
  rb_parent :: "ptr \<Rightarrow> ptr"
  rb_left :: "ptr \<Rightarrow> ptr"
  rb_right :: "ptr \<Rightarrow> ptr"
  rb_black :: "ptr \<Rightarrow> bool"
  rb_size :: "ptr \<Rightarrow> nat"
  rb_live :: "ptr \<Rightarrow> bool"
  rb_fresh :: ptr

definition set_parent :: "ptr \<Rightarrow> ptr \<Rightarrow> 'v rbstore \<Rightarrow> 'v rbstore" where
  "set_parent n p s = s\<lparr>rb_parent := (rb_parent s)(n := p)\<rparr>"

definition set_left :: "ptr \<Rightarrow> ptr \<Rightarrow> 'v rbstore \<Rightarrow> 'v rbstore" where
  "set_left n p s = s\<lparr>rb_left := (rb_left s)(n := p)\<rparr>"

definition set_right :: "ptr \<Rightarrow> ptr \<Rightarrow> 'v rbstore \<Rightarrow> 'v rbstore" where
  "set_right n p s = s\<lparr>rb_right := (rb_right s)(n := p)\<rparr>"

definition set_black :: "ptr \<Rightarrow> bool \<Rightarrow> 'v rbstore \<Rightarrow> 'v rbstore" where
  "set_black n b s = s\<lparr>rb_black := (rb_black s)(n := b)\<rparr>"

definition set_value :: "ptr \<Rightarrow> 'v \<Rightarrow> 'v rbstore \<Rightarrow> 'v rbstore" where
  "set_value n v s = s\<lparr>rb_value := (rb_value s)(n := v)\<rparr>"

definition set_size :: "ptr \<Rightarrow> nat \<Rightarrow> 'v rbstore \<Rightarrow> 'v rbstore" where
  "set_size h n s = s\<lparr>rb_size := (rb_size s)(h := n)\<rparr>"

abbreviation rb_root :: "ptr \<Rightarrow> 'v rbstore \<Rightarrow> ptr" where
  "rb_root h s \<equiv> rb_parent s h"

section \<open>Walking\<close>

partial_function (option) rb_leftmost :: "ptr \<Rightarrow> 'v rbstore \<Rightarrow> ptr \<Rightarrow> ptr option" where
  "rb_leftmost h s n = (if rb_left s n \<noteq> h then rb_leftmost h s (rb_left s n) else Some n)"

partial_function (option) rb_rightmost :: "ptr \<Rightarrow> 'v rbstore \<Rightarrow> ptr \<Rightarrow> ptr option" where
  "rb_rightmost h s n = (if rb_right s n \<noteq> h then rb_rightmost h s (rb_right s n) else Some n)"

definition rb_minimum :: "ptr \<Rightarrow> 'v rbstore \<Rightarrow> ptr \<Rightarrow> ptr option" where
  "rb_minimum h s n = (if n = h then Some h else rb_leftmost h s n)"

definition rb_maximum :: "ptr \<Rightarrow> 'v rbstore \<Rightarrow> ptr \<Rightarrow> ptr option" where
  "rb_maximum h s n = (if n = h then Some h else rb_rightmost h s n)"

definition rb_update_extremes :: "ptr \<Rightarrow> 'v rbstore \<Rightarrow> 'v rbstore option" where
  "rb_update_extremes h s =
     (let r = rb_root h s
      in if r = h then Some (set_right h h (set_left h h s))
         else Option.bind (rb_minimum h s r) (\<lambda>lo.
              let s = set_left h lo s
              in Option.bind (rb_maximum h s r) (\<lambda>hi. Some (set_right h hi s))))"

text \<open>The loops that go up as long as the node is a right (a left) child.\<close>

partial_function (option) rb_climb_right :: "ptr \<Rightarrow> 'v rbstore \<Rightarrow> ptr \<Rightarrow> ptr \<Rightarrow> ptr option" where
  "rb_climb_right h s n p =
     (if p \<noteq> h \<and> n = rb_right s p then rb_climb_right h s p (rb_parent s p) else Some p)"

partial_function (option) rb_climb_left :: "ptr \<Rightarrow> 'v rbstore \<Rightarrow> ptr \<Rightarrow> ptr \<Rightarrow> ptr option" where
  "rb_climb_left h s n p =
     (if p \<noteq> h \<and> n = rb_left s p then rb_climb_left h s p (rb_parent s p) else Some p)"

definition rb_successor :: "ptr \<Rightarrow> 'v rbstore \<Rightarrow> ptr \<Rightarrow> ptr option" where
  "rb_successor h s n =
     (if n = h then Some h
      else if rb_right s n \<noteq> h then rb_minimum h s (rb_right s n)
      else rb_climb_right h s n (rb_parent s n))"

definition rb_begin :: "ptr \<Rightarrow> 'v rbstore \<Rightarrow> ptr" where
  "rb_begin h s = rb_left s h"

definition rb_end :: "ptr \<Rightarrow> 'v rbstore \<Rightarrow> ptr" where
  "rb_end h s = h"

definition rb_increment :: "ptr \<Rightarrow> 'v rbstore \<Rightarrow> ptr \<Rightarrow> ptr option" where
  "rb_increment h s n =
     (if n \<noteq> h then
        if rb_right s n \<noteq> h then rb_leftmost h s (rb_right s n)
        else rb_climb_right h s n (rb_parent s n)
      else Some n)"

definition rb_decrement :: "ptr \<Rightarrow> 'v rbstore \<Rightarrow> ptr \<Rightarrow> ptr option" where
  "rb_decrement h s n =
     (if n = h then
        (let n = rb_parent s h in if n \<noteq> h then rb_rightmost h s n else Some n)
      else if rb_left s n \<noteq> h then rb_rightmost h s (rb_left s n)
      else rb_climb_left h s n (rb_parent s n))"

section \<open>Nodes\<close>

definition rb_create_node :: "ptr \<Rightarrow> 'v \<Rightarrow> 'v rbstore \<Rightarrow> ptr \<times> 'v rbstore" where
  "rb_create_node h val s =
     (let z = rb_fresh s;
          s = s\<lparr>rb_fresh := z + 1, rb_live := (rb_live s)(z := True)\<rparr>;
          s = set_value z val s;
          s = set_left z h s;
          s = set_right z h s;
          s = set_parent z h s
      in (z, set_black z False s))"

definition rb_destroy_node :: "ptr \<Rightarrow> ptr \<Rightarrow> 'v rbstore \<Rightarrow> 'v rbstore" where
  "rb_destroy_node h n s = (if n \<noteq> h then s\<lparr>rb_live := (rb_live s)(n := False)\<rparr> else s)"

partial_function (option) rb_destroy_subtree :: "ptr \<Rightarrow> ptr \<Rightarrow> 'v rbstore \<Rightarrow> 'v rbstore option" where
  "rb_destroy_subtree h n s =
     (if n = h then Some s
      else Option.bind (rb_destroy_subtree h (rb_left s n) s) (\<lambda>s.
           Option.bind (rb_destroy_subtree h (rb_right s n) s) (\<lambda>s.
           Some (rb_destroy_node h n s))))"

definition rb_init_header :: "ptr \<Rightarrow> 'v rbstore \<Rightarrow> 'v rbstore" where
  "rb_init_header h s = set_right h h (set_left h h (set_parent h h (set_black h True s)))"

text \<open>A constructed header is red until it is initialised, as the default member initialiser says.\<close>

definition rb_header :: "ptr \<Rightarrow> 'v rbstore \<Rightarrow> 'v rbstore" where
  "rb_header h s = set_size h 0 (set_black h False s)"

definition rb_construct :: "ptr \<Rightarrow> 'v rbstore \<Rightarrow> 'v rbstore" where
  "rb_construct h s = rb_init_header h (rb_header h s)"

section \<open>Rotations\<close>

definition rb_left_rotate :: "ptr \<Rightarrow> ptr \<Rightarrow> 'v rbstore \<Rightarrow> 'v rbstore" where
  "rb_left_rotate h x s =
     (let y = rb_right s x;
          s = set_right x (rb_left s y) s;
          s = (if rb_left s y \<noteq> h then set_parent (rb_left s y) x s else s);
          s = set_parent y (rb_parent s x) s;
          s = (if rb_parent s x = h then set_parent h y s
               else if x = rb_left s (rb_parent s x) then set_left (rb_parent s x) y s
               else set_right (rb_parent s x) y s);
          s = set_left y x s
      in set_parent x y s)"

definition rb_right_rotate :: "ptr \<Rightarrow> ptr \<Rightarrow> 'v rbstore \<Rightarrow> 'v rbstore" where
  "rb_right_rotate h x s =
     (let y = rb_left s x;
          s = set_left x (rb_right s y) s;
          s = (if rb_right s y \<noteq> h then set_parent (rb_right s y) x s else s);
          s = set_parent y (rb_parent s x) s;
          s = (if rb_parent s x = h then set_parent h y s
               else if x = rb_right s (rb_parent s x) then set_right (rb_parent s x) y s
               else set_left (rb_parent s x) y s);
          s = set_right y x s
      in set_parent x y s)"

section \<open>Inserting\<close>

text \<open>One round of the loop of \<^verbatim>\<open>_insert_fixup\<close>: the node it goes on with, and the store.\<close>

definition rb_insert_fix_step :: "ptr \<Rightarrow> ptr \<Rightarrow> 'v rbstore \<Rightarrow> ptr \<times> 'v rbstore" where
  "rb_insert_fix_step h z s =
     (if rb_parent s z = rb_left s (rb_parent s (rb_parent s z)) then
        let y = rb_right s (rb_parent s (rb_parent s z))
        in if \<not> rb_black s y then
             let s = set_black (rb_parent s z) True s;
                 s = set_black y True s;
                 s = set_black (rb_parent s (rb_parent s z)) False s
             in (rb_parent s (rb_parent s z), s)
           else
             let (z, s) = (if z = rb_right s (rb_parent s z)
                           then let z = rb_parent s z in (z, rb_left_rotate h z s) else (z, s));
                 s = set_black (rb_parent s z) True s;
                 s = set_black (rb_parent s (rb_parent s z)) False s
             in (z, rb_right_rotate h (rb_parent s (rb_parent s z)) s)
      else
        let y = rb_left s (rb_parent s (rb_parent s z))
        in if \<not> rb_black s y then
             let s = set_black (rb_parent s z) True s;
                 s = set_black y True s;
                 s = set_black (rb_parent s (rb_parent s z)) False s
             in (rb_parent s (rb_parent s z), s)
           else
             let (z, s) = (if z = rb_left s (rb_parent s z)
                           then let z = rb_parent s z in (z, rb_right_rotate h z s) else (z, s));
                 s = set_black (rb_parent s z) True s;
                 s = set_black (rb_parent s (rb_parent s z)) False s
             in (z, rb_left_rotate h (rb_parent s (rb_parent s z)) s))"

partial_function (option) rb_insert_loop :: "ptr \<Rightarrow> ptr \<Rightarrow> 'v rbstore \<Rightarrow> 'v rbstore option" where
  "rb_insert_loop h z s =
     (if \<not> rb_black s (rb_parent s z)
      then rb_insert_loop h (fst (rb_insert_fix_step h z s)) (snd (rb_insert_fix_step h z s))
      else Some s)"

definition rb_insert_fixup :: "ptr \<Rightarrow> ptr \<Rightarrow> 'v rbstore \<Rightarrow> 'v rbstore option" where
  "rb_insert_fixup h z s = Option.bind (rb_insert_loop h z s) (\<lambda>s. Some (set_black (rb_root h s) True s))"

text \<open>The descent of \<^verbatim>\<open>insert\<close>: the last node visited, and where it ended, at nil or at an equal element.\<close>

partial_function (option) rb_descend ::
  "ptr \<Rightarrow> ('v \<Rightarrow> 'v \<Rightarrow> bool) \<Rightarrow> 'v \<Rightarrow> 'v rbstore \<Rightarrow> ptr \<Rightarrow> ptr \<Rightarrow> (ptr \<times> ptr) option" where
  "rb_descend h lt val s y x =
     (if x \<noteq> h then
        if lt val (rb_value s x) then rb_descend h lt val s x (rb_left s x)
        else if lt (rb_value s x) val then rb_descend h lt val s x (rb_right s x)
        else Some (x, x)
      else Some (y, x))"

definition rb_insert ::
  "ptr \<Rightarrow> ('v \<Rightarrow> 'v \<Rightarrow> bool) \<Rightarrow> 'v \<Rightarrow> 'v rbstore \<Rightarrow> (ptr \<times> bool \<times> 'v rbstore) option" where
  "rb_insert h lt val s =
     Option.bind (rb_descend h lt val s h (rb_root h s)) (\<lambda>(y, x).
     if x \<noteq> h then Some (x, False, s)
     else
       let (z, s) = rb_create_node h val s;
           s = set_parent z y s;
           s = (if y = h then set_parent h z s
                else if lt val (rb_value s y) then set_left y z s
                else set_right y z s)
       in Option.bind (rb_insert_fixup h z s) (\<lambda>s.
          let s = set_size h (rb_size s h + 1) s
          in Option.bind (rb_update_extremes h s) (\<lambda>s. Some (z, True, s))))"

section \<open>Searching\<close>

partial_function (option) rb_search :: "ptr \<Rightarrow> ('v \<Rightarrow> 'v \<Rightarrow> bool) \<Rightarrow> 'v \<Rightarrow> 'v rbstore \<Rightarrow> ptr \<Rightarrow> ptr option" where
  "rb_search h lt val s n =
     (if n \<noteq> h then
        if lt val (rb_value s n) then rb_search h lt val s (rb_left s n)
        else if lt (rb_value s n) val then rb_search h lt val s (rb_right s n)
        else Some n
      else Some h)"

definition rb_find_node :: "ptr \<Rightarrow> ('v \<Rightarrow> 'v \<Rightarrow> bool) \<Rightarrow> 'v \<Rightarrow> 'v rbstore \<Rightarrow> ptr option" where
  "rb_find_node h lt val s = rb_search h lt val s (rb_root h s)"

definition rb_find :: "ptr \<Rightarrow> ('v \<Rightarrow> 'v \<Rightarrow> bool) \<Rightarrow> 'v \<Rightarrow> 'v rbstore \<Rightarrow> ptr option" where
  "rb_find h lt val s = rb_search h lt val s (rb_root h s)"

definition rb_contains :: "ptr \<Rightarrow> ('v \<Rightarrow> 'v \<Rightarrow> bool) \<Rightarrow> 'v \<Rightarrow> 'v rbstore \<Rightarrow> bool option" where
  "rb_contains h lt val s = Option.bind (rb_find_node h lt val s) (\<lambda>n. Some (n \<noteq> h))"

partial_function (option) rb_lower_loop ::
  "ptr \<Rightarrow> ('v \<Rightarrow> 'v \<Rightarrow> bool) \<Rightarrow> 'v \<Rightarrow> 'v rbstore \<Rightarrow> ptr \<Rightarrow> ptr \<Rightarrow> ptr option" where
  "rb_lower_loop h lt val s n best =
     (if n \<noteq> h then
        if \<not> lt (rb_value s n) val then rb_lower_loop h lt val s (rb_left s n) n
        else rb_lower_loop h lt val s (rb_right s n) best
      else Some best)"

definition rb_lower_bound :: "ptr \<Rightarrow> ('v \<Rightarrow> 'v \<Rightarrow> bool) \<Rightarrow> 'v \<Rightarrow> 'v rbstore \<Rightarrow> ptr option" where
  "rb_lower_bound h lt val s = rb_lower_loop h lt val s (rb_root h s) h"

partial_function (option) rb_upper_loop ::
  "ptr \<Rightarrow> ('v \<Rightarrow> 'v \<Rightarrow> bool) \<Rightarrow> 'v \<Rightarrow> 'v rbstore \<Rightarrow> ptr \<Rightarrow> ptr \<Rightarrow> ptr option" where
  "rb_upper_loop h lt val s n best =
     (if n \<noteq> h then
        if lt val (rb_value s n) then rb_upper_loop h lt val s (rb_left s n) n
        else rb_upper_loop h lt val s (rb_right s n) best
      else Some best)"

definition rb_upper_bound :: "ptr \<Rightarrow> ('v \<Rightarrow> 'v \<Rightarrow> bool) \<Rightarrow> 'v \<Rightarrow> 'v rbstore \<Rightarrow> ptr option" where
  "rb_upper_bound h lt val s = rb_upper_loop h lt val s (rb_root h s) h"

section \<open>Erasing\<close>

definition rb_transplant :: "ptr \<Rightarrow> ptr \<Rightarrow> ptr \<Rightarrow> 'v rbstore \<Rightarrow> 'v rbstore" where
  "rb_transplant h u v s =
     (let s = (if rb_parent s u = h then set_parent h v s
               else if u = rb_left s (rb_parent s u) then set_left (rb_parent s u) v s
               else set_right (rb_parent s u) v s)
      in if v \<noteq> h then set_parent v (rb_parent s u) s else s)"

definition rb_erase_fix_step :: "ptr \<Rightarrow> ptr \<Rightarrow> ptr \<Rightarrow> 'v rbstore \<Rightarrow> ptr \<times> ptr \<times> 'v rbstore" where
  "rb_erase_fix_step h x x_parent s =
     (let p = (if x = h then x_parent else rb_parent s x)
      in if x = rb_left s p then
           let w = rb_right s p;
               (w, s) = (if \<not> rb_black s w then
                           let s = set_black w True s;
                               s = set_black p False s;
                               s = rb_left_rotate h p s
                           in (rb_right s p, s)
                         else (w, s))
           in if rb_black s (rb_left s w) \<and> rb_black s (rb_right s w) then
                let s = set_black w False s in (p, rb_parent s p, s)
              else
                let (w, s) = (if rb_black s (rb_right s w) then
                                let s = set_black (rb_left s w) True s;
                                    s = set_black w False s;
                                    s = rb_right_rotate h w s
                                in (rb_right s p, s)
                              else (w, s));
                    s = set_black w (rb_black s p) s;
                    s = set_black p True s;
                    s = set_black (rb_right s w) True s;
                    s = rb_left_rotate h p s
                in (rb_root h s, x_parent, s)
         else
           let w = rb_left s p;
               (w, s) = (if \<not> rb_black s w then
                           let s = set_black w True s;
                               s = set_black p False s;
                               s = rb_right_rotate h p s
                           in (rb_left s p, s)
                         else (w, s))
           in if rb_black s (rb_right s w) \<and> rb_black s (rb_left s w) then
                let s = set_black w False s in (p, rb_parent s p, s)
              else
                let (w, s) = (if rb_black s (rb_left s w) then
                                let s = set_black (rb_right s w) True s;
                                    s = set_black w False s;
                                    s = rb_left_rotate h w s
                                in (rb_left s p, s)
                              else (w, s));
                    s = set_black w (rb_black s p) s;
                    s = set_black p True s;
                    s = set_black (rb_left s w) True s;
                    s = rb_right_rotate h p s
                in (rb_root h s, x_parent, s))"

partial_function (option) rb_erase_loop :: "ptr \<Rightarrow> ptr \<Rightarrow> ptr \<Rightarrow> 'v rbstore \<Rightarrow> (ptr \<times> 'v rbstore) option" where
  "rb_erase_loop h x x_parent s =
     (if x \<noteq> rb_root h s \<and> rb_black s x
      then rb_erase_loop h (fst (rb_erase_fix_step h x x_parent s)) (fst (snd (rb_erase_fix_step h x x_parent s)))
             (snd (snd (rb_erase_fix_step h x x_parent s)))
      else Some (x, s))"

definition rb_erase_fixup :: "ptr \<Rightarrow> ptr \<Rightarrow> ptr \<Rightarrow> 'v rbstore \<Rightarrow> 'v rbstore option" where
  "rb_erase_fixup h x x_parent s =
     Option.bind (rb_erase_loop h x x_parent s) (\<lambda>(x, s). Some (if x \<noteq> h then set_black x True s else s))"

text \<open>
  The first part of \<^verbatim>\<open>_erase_node\<close> takes the node out: the node that moved up, its parent, whether the place that
  was given up was black, and the store.
\<close>

definition rb_unlink :: "ptr \<Rightarrow> ptr \<Rightarrow> 'v rbstore \<Rightarrow> (ptr \<times> ptr \<times> bool \<times> 'v rbstore) option" where
  "rb_unlink h z s =
     (if rb_left s z = h then
        Some (rb_right s z, rb_parent s z, rb_black s z, rb_transplant h z (rb_right s z) s)
      else if rb_right s z = h then
        Some (rb_left s z, rb_parent s z, rb_black s z, rb_transplant h z (rb_left s z) s)
      else
        Option.bind (rb_minimum h s (rb_right s z)) (\<lambda>y.
        let y_original_color = rb_black s y;
            x = rb_right s y;
            (x_parent, s) =
              (if rb_parent s y = z then (y, if x \<noteq> h then set_parent x y s else s)
               else
                 let x_parent = rb_parent s y;
                     s = rb_transplant h y (rb_right s y) s;
                     s = set_right y (rb_right s z) s;
                     s = set_parent (rb_right s y) y s
                 in (x_parent, s));
            s = rb_transplant h z y s;
            s = set_left y (rb_left s z) s;
            s = set_parent (rb_left s y) y s;
            s = set_black y (rb_black s z) s
        in Some (x, x_parent, y_original_color, s)))"

definition rb_erase_node :: "ptr \<Rightarrow> ptr \<Rightarrow> 'v rbstore \<Rightarrow> 'v rbstore option" where
  "rb_erase_node h z s =
     Option.bind (rb_unlink h z s) (\<lambda>(x, x_parent, y_original_color, s).
     Option.bind (if y_original_color then rb_erase_fixup h x x_parent s else Some s) (\<lambda>s.
     let s = rb_destroy_node h z s;
         s = set_size h (rb_size s h - 1) s
     in rb_update_extremes h s))"

definition rb_erase_at :: "ptr \<Rightarrow> ptr \<Rightarrow> 'v rbstore \<Rightarrow> (ptr \<times> 'v rbstore) option" where
  "rb_erase_at h pos s =
     (if pos = h then Some (rb_end h s, s)
      else Option.bind (rb_successor h s pos) (\<lambda>next.
           Option.bind (rb_erase_node h pos s) (\<lambda>s. Some (next, s))))"

partial_function (option) rb_erase_range :: "ptr \<Rightarrow> ptr \<Rightarrow> ptr \<Rightarrow> 'v rbstore \<Rightarrow> (ptr \<times> 'v rbstore) option" where
  "rb_erase_range h first stop s =
     (if first \<noteq> stop
      then Option.bind (rb_erase_at h first s) (\<lambda>r. rb_erase_range h (fst r) stop (snd r))
      else Some (stop, s))"

definition rb_erase_value ::
  "ptr \<Rightarrow> ('v \<Rightarrow> 'v \<Rightarrow> bool) \<Rightarrow> 'v \<Rightarrow> 'v rbstore \<Rightarrow> (nat \<times> 'v rbstore) option" where
  "rb_erase_value h lt val s =
     Option.bind (rb_find_node h lt val s) (\<lambda>z.
     if z = h then Some (0, s) else Option.bind (rb_erase_node h z s) (\<lambda>s. Some (1, s)))"

section \<open>Whole trees\<close>

definition rb_is_empty :: "ptr \<Rightarrow> 'v rbstore \<Rightarrow> bool" where
  "rb_is_empty h s \<longleftrightarrow> rb_size s h = 0"

definition rb_clear :: "ptr \<Rightarrow> 'v rbstore \<Rightarrow> 'v rbstore option" where
  "rb_clear h s =
     Option.bind (rb_destroy_subtree h (rb_root h s) s) (\<lambda>s.
     Some (set_size h 0 (set_right h h (set_left h h (set_parent h h s)))))"

definition rb_destroy :: "ptr \<Rightarrow> 'v rbstore \<Rightarrow> 'v rbstore option" where
  "rb_destroy h s = rb_destroy_subtree h (rb_root h s) s"

fun rb_insert_list :: "ptr \<Rightarrow> ('v \<Rightarrow> 'v \<Rightarrow> bool) \<Rightarrow> 'v list \<Rightarrow> 'v rbstore \<Rightarrow> 'v rbstore option" where
  "rb_insert_list h lt [] s = Some s"
| "rb_insert_list h lt (val # vals) s =
     Option.bind (rb_insert h lt val s) (\<lambda>(it, ok, s). rb_insert_list h lt vals s)"

definition rb_of_list :: "ptr \<Rightarrow> ('v \<Rightarrow> 'v \<Rightarrow> bool) \<Rightarrow> 'v list \<Rightarrow> 'v rbstore \<Rightarrow> 'v rbstore option" where
  "rb_of_list h lt init s = rb_insert_list h lt init (rb_construct h s)"

text \<open>The loop of the copies: every element of the tree \<open>other\<close>, in its order, is inserted into the tree \<open>h\<close>.\<close>

partial_function (option) rb_insert_tree ::
  "ptr \<Rightarrow> ('v \<Rightarrow> 'v \<Rightarrow> bool) \<Rightarrow> ptr \<Rightarrow> ptr \<Rightarrow> 'v rbstore \<Rightarrow> 'v rbstore option" where
  "rb_insert_tree h lt other it s =
     (if it \<noteq> rb_end other s
      then Option.bind (rb_insert h lt (rb_value s it) s) (\<lambda>r.
           Option.bind (rb_increment other (snd (snd r)) it) (\<lambda>it. rb_insert_tree h lt other it (snd (snd r))))
      else Some s)"

definition rb_copy :: "ptr \<Rightarrow> ('v \<Rightarrow> 'v \<Rightarrow> bool) \<Rightarrow> ptr \<Rightarrow> 'v rbstore \<Rightarrow> 'v rbstore option" where
  "rb_copy h lt other s =
     (let s = rb_construct h s in rb_insert_tree h lt other (rb_begin other s) s)"

definition rb_copy_assign :: "ptr \<Rightarrow> ('v \<Rightarrow> 'v \<Rightarrow> bool) \<Rightarrow> ptr \<Rightarrow> 'v rbstore \<Rightarrow> 'v rbstore option" where
  "rb_copy_assign h lt other s =
     (if h \<noteq> other
      then Option.bind (rb_clear h s) (\<lambda>s. rb_insert_tree h lt other (rb_begin other s) s)
      else Some s)"

partial_function (option) rb_relink_nil :: "ptr \<Rightarrow> ptr \<Rightarrow> ptr \<Rightarrow> 'v rbstore \<Rightarrow> 'v rbstore option" where
  "rb_relink_nil n old_nil new_nil s =
     (if n = old_nil then Some s
      else
        Option.bind (if rb_left s n = old_nil then Some (set_left n new_nil s)
                     else rb_relink_nil (rb_left s n) old_nil new_nil s) (\<lambda>s.
        Option.bind (if rb_right s n = old_nil then Some (set_right n new_nil s)
                     else rb_relink_nil (rb_right s n) old_nil new_nil s) (\<lambda>s.
        Some (if rb_parent s n = old_nil then set_parent n new_nil s else s))))"

definition rb_detach :: "ptr \<Rightarrow> 'v rbstore \<Rightarrow> 'v rbstore" where
  "rb_detach other s = set_right other other (set_left other other (set_parent other other s))"

text \<open>The move constructor initialises the header only when the other tree is empty.\<close>

definition rb_move :: "ptr \<Rightarrow> ptr \<Rightarrow> 'v rbstore \<Rightarrow> 'v rbstore option" where
  "rb_move h other s =
     (let s = rb_header h s;
          s = set_size other 0 (set_size h (rb_size s other) s)
      in if rb_root other s \<noteq> other then
           let s = set_parent h (rb_root other s) s
           in Option.bind (rb_relink_nil (rb_root h s) other h s) (\<lambda>s.
              Option.bind (rb_update_extremes h s) (\<lambda>s. Some (rb_detach other s)))
         else Some (rb_init_header h s))"

definition rb_move_assign :: "ptr \<Rightarrow> ptr \<Rightarrow> 'v rbstore \<Rightarrow> 'v rbstore option" where
  "rb_move_assign h other s =
     (if h \<noteq> other then
        Option.bind (rb_clear h s) (\<lambda>s.
        let s = set_size other 0 (set_size h (rb_size s other) s)
        in Option.bind
             (if rb_root other s \<noteq> other then
                let s = set_parent h (rb_root other s) s
                in Option.bind (rb_relink_nil (rb_root h s) other h s) (rb_update_extremes h)
              else Some (rb_init_header h s))
             (\<lambda>s. Some (rb_detach other s)))
      else Some s)"

definition rb_swap :: "ptr \<Rightarrow> ptr \<Rightarrow> 'v rbstore \<Rightarrow> 'v rbstore option" where
  "rb_swap h other s =
     (if h = other then Some s
      else
        let s = set_parent h (rb_parent s other) (set_parent other (rb_parent s h) s);
            s = set_left h (rb_left s other) (set_left other (rb_left s h) s);
            s = set_right h (rb_right s other) (set_right other (rb_right s h) s);
            s = set_size h (rb_size s other) (set_size other (rb_size s h) s);
            r = rb_root h s
        in Option.bind
             (if r = other then Some (set_right h h (set_left h h (set_parent h h s)))
              else if r \<noteq> h then Option.bind (rb_relink_nil r other h s) (rb_update_extremes h)
              else Some s)
             (\<lambda>s. let r = rb_root other s
                  in if r = h then Some (set_right other other (set_left other other (set_parent other other s)))
                     else if r \<noteq> other then Option.bind (rb_relink_nil r h other s) (rb_update_extremes other)
                     else Some s))"

text \<open>The loops compute by their equations.\<close>

lemmas rb_loops =
  rb_leftmost.simps
  rb_rightmost.simps
  rb_climb_right.simps
  rb_climb_left.simps
  rb_destroy_subtree.simps
  rb_insert_loop.simps
  rb_descend.simps
  rb_search.simps
  rb_lower_loop.simps
  rb_upper_loop.simps
  rb_erase_loop.simps
  rb_erase_range.simps
  rb_insert_tree.simps
  rb_relink_nil.simps

declare rb_loops [code]

end
