(* ===== verification/RBShape.thy ===== *)
theory RBShape
  imports RBTree
begin

text \<open>
  What a red-black tree of the store looks like: the shape that the pointers from the header spell out, and the place of
  a node in it, a subtree and the path to it from the root. Pointer updates are rewritten to changes of the shape here;
  the rotations keep the order of the nodes and replace one subtree.
\<close>

section \<open>Shapes and contexts\<close>

datatype shape = Tip | Bin shape ptr bool shape

fun ptrs :: "shape \<Rightarrow> ptr list" where
  "ptrs Tip = []"
| "ptrs (Bin l a c r) = ptrs l @ a # ptrs r"

fun apex :: "ptr \<Rightarrow> shape \<Rightarrow> ptr" where
  "apex h Tip = h"
| "apex h (Bin l a c r) = a"

text \<open>\<open>InL a c r\<close>: the hole is the left child of \<open>a\<close>, whose right subtree is \<open>r\<close>. The innermost frame is first.\<close>

datatype frame = InL ptr bool shape | InR shape ptr bool

fun plug :: "frame list \<Rightarrow> shape \<Rightarrow> shape" where
  "plug [] t = t"
| "plug (InL a c r # C) t = plug C (Bin t a c r)"
| "plug (InR l a c # C) t = plug C (Bin l a c t)"

fun over :: "ptr \<Rightarrow> frame list \<Rightarrow> ptr" where
  "over h [] = h"
| "over h (InL a c r # C) = a"
| "over h (InR l a c # C) = a"

fun before :: "frame list \<Rightarrow> ptr list" where
  "before [] = []"
| "before (InL a c r # C) = before C"
| "before (InR l a c # C) = before C @ ptrs l @ [a]"

fun behind :: "frame list \<Rightarrow> ptr list" where
  "behind [] = []"
| "behind (InL a c r # C) = a # ptrs r @ behind C"
| "behind (InR l a c # C) = behind C"

lemma ptrs_plug [simp]: "ptrs (plug C t) = before C @ ptrs t @ behind C"
  by (induction C t rule: plug.induct) auto

lemma plug_append: "plug (C @ D) t = plug D (plug C t)"
  by (induction C t rule: plug.induct) auto

lemma before_append [simp]: "before (C @ D) = before D @ before C"
  by (induction C rule: before.induct) auto

lemma behind_append [simp]: "behind (C @ D) = behind C @ behind D"
  by (induction C rule: behind.induct) auto

lemma over_append: "over h (C @ D) = (if C = [] then over h D else over h C)"
  by (cases C rule: before.cases) auto

section \<open>Shapes in the store\<close>

fun rep :: "ptr \<Rightarrow> 'v rbstore \<Rightarrow> ptr \<Rightarrow> shape \<Rightarrow> bool" where
  "rep h s p Tip \<longleftrightarrow> True"
| "rep h s p (Bin l a c r) \<longleftrightarrow> a \<noteq> h \<and> rb_parent s a = p \<and> rb_left s a = apex h l \<and> rb_right s a = apex h r
     \<and> rb_black s a = c \<and> rep h s a l \<and> rep h s a r"

fun repc :: "ptr \<Rightarrow> 'v rbstore \<Rightarrow> frame list \<Rightarrow> ptr \<Rightarrow> bool" where
  "repc h s [] n \<longleftrightarrow> rb_parent s h = n"
| "repc h s (InL a c r # C) n \<longleftrightarrow> a \<noteq> h \<and> rb_parent s a = over h C \<and> rb_left s a = n \<and> rb_right s a = apex h r
     \<and> rb_black s a = c \<and> rep h s a r \<and> repc h s C a"
| "repc h s (InR l a c # C) n \<longleftrightarrow> a \<noteq> h \<and> rb_parent s a = over h C \<and> rb_left s a = apex h l \<and> rb_right s a = n
     \<and> rb_black s a = c \<and> rep h s a l \<and> repc h s C a"

text \<open>The shape of the whole tree.\<close>

definition shaped :: "ptr \<Rightarrow> 'v rbstore \<Rightarrow> shape \<Rightarrow> bool" where
  "shaped h s t \<longleftrightarrow> rb_parent s h = apex h t \<and> rep h s h t \<and> distinct (ptrs t)"

lemma shaped_plug_iff:
  "rb_parent s h = apex h (plug C t) \<and> rep h s h (plug C t) \<longleftrightarrow> repc h s C (apex h t) \<and> rep h s (over h C) t"
  by (induction C t rule: plug.induct) auto

lemma shaped_plug:
  "shaped h s (plug C t) \<longleftrightarrow> repc h s C (apex h t) \<and> rep h s (over h C) t \<and> distinct (before C @ ptrs t @ behind C)"
  using shaped_plug_iff[of s h C t] by (auto simp: shaped_def)

lemma rep_not_nil: "rep h s p t \<Longrightarrow> h \<notin> set (ptrs t)"
  by (induction t arbitrary: p) auto

lemma repc_not_nil: "repc h s C n \<Longrightarrow> h \<notin> set (before C) \<and> h \<notin> set (behind C)"
  by (induction C arbitrary: n rule: before.induct) (auto dest: rep_not_nil)

lemma shaped_not_nil: "shaped h s t \<Longrightarrow> h \<notin> set (ptrs t)"
  by (auto simp: shaped_def dest: rep_not_nil)

lemma apex_nil: "rep h s p t \<Longrightarrow> apex h t = h \<longleftrightarrow> t = Tip"
  by (cases t) auto

lemma apex_in: "t \<noteq> Tip \<Longrightarrow> apex h t \<in> set (ptrs t)"
  by (cases t) auto

lemma apex_neq: "n \<noteq> h \<Longrightarrow> n \<notin> set (ptrs t) \<Longrightarrow> apex h t \<noteq> n"
  by (cases t) auto

lemma over_in: "C \<noteq> [] \<Longrightarrow> over h C \<in> set (before C) \<union> set (behind C)"
  by (cases C rule: before.cases) auto

lemma over_nil: "repc h s C n \<Longrightarrow> over h C = h \<longleftrightarrow> C = []"
  by (cases C rule: before.cases) auto

text \<open>Only the fields of its nodes, and of the header for a whole tree, matter to a shape.\<close>

lemma rep_cong:
  assumes "\<And>a. a \<in> set (ptrs t) \<Longrightarrow> rb_parent s' a = rb_parent s a \<and> rb_left s' a = rb_left s a
    \<and> rb_right s' a = rb_right s a \<and> rb_black s' a = rb_black s a"
  shows "rep h s' p t = rep h s p t"
  using assms by (induction t arbitrary: p) auto

lemma repc_cong:
  assumes "\<And>a. a \<in> set (before C) \<union> set (behind C) \<Longrightarrow> rb_parent s' a = rb_parent s a \<and> rb_left s' a = rb_left s a
    \<and> rb_right s' a = rb_right s a \<and> rb_black s' a = rb_black s a" "rb_parent s' h = rb_parent s h"
  shows "repc h s' C n = repc h s C n"
  using assms
proof (induction C arbitrary: n rule: before.induct)
  case (2 a c r C)
  have "rep h s' p r = rep h s p r" for p by (rule rep_cong) (use 2 in auto)
  then show ?case using 2 by auto
next
  case (3 l a c C)
  have "rep h s' p l = rep h s p l" for p by (rule rep_cong) (use 3 in auto)
  then show ?case using 3 by auto
qed simp

section \<open>Single updates\<close>

lemmas setters = set_parent_def set_left_def set_right_def set_black_def set_value_def set_size_def

lemma set_fields [simp]:
  "rb_parent (set_parent n p s) = (rb_parent s)(n := p)" "rb_left (set_parent n p s) = rb_left s"
  "rb_right (set_parent n p s) = rb_right s" "rb_black (set_parent n p s) = rb_black s"
  "rb_left (set_left n p s) = (rb_left s)(n := p)" "rb_parent (set_left n p s) = rb_parent s"
  "rb_right (set_left n p s) = rb_right s" "rb_black (set_left n p s) = rb_black s"
  "rb_right (set_right n p s) = (rb_right s)(n := p)" "rb_parent (set_right n p s) = rb_parent s"
  "rb_left (set_right n p s) = rb_left s" "rb_black (set_right n p s) = rb_black s"
  "rb_black (set_black n b s) = (rb_black s)(n := b)" "rb_parent (set_black n b s) = rb_parent s"
  "rb_left (set_black n b s) = rb_left s" "rb_right (set_black n b s) = rb_right s"
  "rb_parent (set_size n k s) = rb_parent s" "rb_left (set_size n k s) = rb_left s"
  "rb_right (set_size n k s) = rb_right s" "rb_black (set_size n k s) = rb_black s"
  "rb_parent (set_value n v s) = rb_parent s" "rb_left (set_value n v s) = rb_left s"
  "rb_right (set_value n v s) = rb_right s" "rb_black (set_value n v s) = rb_black s"
  by (simp_all add: setters)

lemma rep_set [simp]:
  "n \<notin> set (ptrs t) \<Longrightarrow> rep h (set_parent n q s) p t = rep h s p t"
  "n \<notin> set (ptrs t) \<Longrightarrow> rep h (set_left n q s) p t = rep h s p t"
  "n \<notin> set (ptrs t) \<Longrightarrow> rep h (set_right n q s) p t = rep h s p t"
  "n \<notin> set (ptrs t) \<Longrightarrow> rep h (set_black n b s) p t = rep h s p t"
  "rep h (set_size n k s) p t = rep h s p t"
  "rep h (set_value n v s) p t = rep h s p t"
  by (rule rep_cong; auto)+

lemma repc_set [simp]:
  "n \<notin> set (before C) \<Longrightarrow> n \<notin> set (behind C) \<Longrightarrow> n \<noteq> h \<Longrightarrow> repc h (set_parent n q s) C m = repc h s C m"
  "n \<notin> set (before C) \<Longrightarrow> n \<notin> set (behind C) \<Longrightarrow> repc h (set_left n q s) C m = repc h s C m"
  "n \<notin> set (before C) \<Longrightarrow> n \<notin> set (behind C) \<Longrightarrow> repc h (set_right n q s) C m = repc h s C m"
  "n \<notin> set (before C) \<Longrightarrow> n \<notin> set (behind C) \<Longrightarrow> repc h (set_black n b s) C m = repc h s C m"
  "repc h (set_size n k s) C m = repc h s C m"
  "repc h (set_value n v s) C m = repc h s C m"
  by (rule repc_cong; auto)+

text \<open>Giving a subtree another parent.\<close>

lemma rep_reparent:
  assumes "rep h s p t" "distinct (ptrs t)" "n = apex h t" "t \<noteq> Tip"
  shows "rep h (set_parent n q s) q t"
  using assms by (cases t) auto

definition adopt :: "ptr \<Rightarrow> ptr \<Rightarrow> ptr \<Rightarrow> 'v rbstore \<Rightarrow> 'v rbstore" where
  "adopt h n p s = (if n \<noteq> h then set_parent n p s else s)"

lemma rep_adopt:
  assumes "rep h s p t" "distinct (ptrs t)"
  shows "rep h (adopt h (apex h t) q s) q t"
  using assms rep_reparent[OF assms refl, of q] by (cases t) (auto simp: adopt_def)

lemma adopt_other [simp]:
  "apex h u \<notin> set (ptrs t) \<Longrightarrow> rep h (adopt h (apex h u) q s) p t = rep h s p t"
  "apex h u \<notin> set (before C) \<Longrightarrow> apex h u \<notin> set (behind C) \<Longrightarrow> repc h (adopt h (apex h u) q s) C m = repc h s C m"
  by (simp_all add: adopt_def)

lemma adopt_fields [simp]:
  "rb_left (adopt h n q s) = rb_left s" "rb_right (adopt h n q s) = rb_right s" "rb_black (adopt h n q s) = rb_black s"
  "m \<noteq> n \<or> n = h \<Longrightarrow> rb_parent (adopt h n q s) m = rb_parent s m"
  by (auto simp: adopt_def)

text \<open>Putting another node into the place of a child.\<close>

definition attach :: "ptr \<Rightarrow> ptr \<Rightarrow> ptr \<Rightarrow> ptr \<Rightarrow> 'v rbstore \<Rightarrow> 'v rbstore" where
  "attach h p old new s = (if p = h then set_parent h new s
     else if old = rb_left s p then set_left p new s else set_right p new s)"

definition attach' :: "ptr \<Rightarrow> ptr \<Rightarrow> ptr \<Rightarrow> ptr \<Rightarrow> 'v rbstore \<Rightarrow> 'v rbstore" where
  "attach' h p old new s = (if p = h then set_parent h new s
     else if old = rb_right s p then set_right p new s else set_left p new s)"

lemma attach_repc:
  assumes "repc h s C n" "n \<noteq> h" "n \<notin> set (before C)" "n \<notin> set (behind C)" "distinct (before C @ behind C)" "p = over h C"
  shows "repc h (attach h p n m s) C m"
proof (cases C rule: before.cases)
  case 1
  then show ?thesis using assms by (simp add: attach_def)
next
  case (2 a c r D)
  then have "apex h r \<noteq> n" using assms by (intro apex_neq) auto
  with 2 show ?thesis using assms by (auto simp: attach_def dest: repc_not_nil)
next
  case (3 l a c D)
  then have "apex h l \<noteq> n" using assms by (intro apex_neq) auto
  with 3 show ?thesis using assms by (auto simp: attach_def dest: repc_not_nil)
qed

lemma attach_rep:
  assumes "h \<notin> set (ptrs t)" "p \<notin> set (ptrs t)"
  shows "rep h (attach h p n m s) q t = rep h s q t"
  using assms by (simp add: attach_def)

lemma attach_fields [simp]:
  "q \<noteq> p \<Longrightarrow> rb_left (attach h p n m s) q = rb_left s q" "q \<noteq> p \<Longrightarrow> rb_right (attach h p n m s) q = rb_right s q"
  "rb_black (attach h p n m s) = rb_black s" "q \<noteq> h \<Longrightarrow> rb_parent (attach h p n m s) q = rb_parent s q"
  by (simp_all add: attach_def)

section \<open>What an update leaves alone\<close>

text \<open>
  \<open>touched h A s s'\<close>: of the links and colours, only those of addresses in \<open>A\<close> and the links of the header changed, and
  neither values nor sizes nor what is allocated.
\<close>

definition touched :: "ptr \<Rightarrow> ptr set \<Rightarrow> 'v rbstore \<Rightarrow> 'v rbstore \<Rightarrow> bool" where
  "touched h A s s' \<longleftrightarrow> rb_value s' = rb_value s \<and> rb_size s' = rb_size s \<and> rb_live s' = rb_live s
     \<and> rb_fresh s' = rb_fresh s \<and> rb_black s' h = rb_black s h
     \<and> (\<forall>q. q \<notin> A \<longrightarrow> q \<noteq> h \<longrightarrow> rb_parent s' q = rb_parent s q \<and> rb_left s' q = rb_left s q
           \<and> rb_right s' q = rb_right s q \<and> rb_black s' q = rb_black s q)"

lemma touched_refl [simp]: "touched h A s s"
  by (simp add: touched_def)

lemma touched_trans: "touched h A s s' \<Longrightarrow> touched h A s' s'' \<Longrightarrow> touched h A s s''"
  by (simp add: touched_def)

lemma touched_mono: "touched h A s s' \<Longrightarrow> A \<subseteq> B \<Longrightarrow> touched h B s s'"
  unfolding touched_def by blast

lemma touched_set [simp]:
  "n \<in> A \<or> n = h \<Longrightarrow> touched h A s s' \<Longrightarrow> touched h A s (set_parent n p s')"
  "n \<in> A \<or> n = h \<Longrightarrow> touched h A s s' \<Longrightarrow> touched h A s (set_left n p s')"
  "n \<in> A \<or> n = h \<Longrightarrow> touched h A s s' \<Longrightarrow> touched h A s (set_right n p s')"
  "n \<in> A \<Longrightarrow> n \<noteq> h \<Longrightarrow> touched h A s s' \<Longrightarrow> touched h A s (set_black n c s')"
  by (simp add: touched_def setters; blast)+

lemma touched_adopt [simp]: "n \<in> A \<or> n = h \<Longrightarrow> touched h A s s' \<Longrightarrow> touched h A s (adopt h n p s')"
  by (auto simp: adopt_def)

lemma touched_attach [simp]:
  "p \<in> A \<or> p = h \<Longrightarrow> touched h A s s' \<Longrightarrow> touched h A s (attach h p n m s')"
  by (auto simp: attach_def)

lemma apex_member: "set (ptrs t) \<subseteq> A \<Longrightarrow> apex h t \<in> A \<or> apex h t = h"
  using apex_in[of t h] by (cases t) auto

lemma over_member: "set (before C) \<union> set (behind C) \<subseteq> A \<Longrightarrow> over h C \<in> A \<or> over h C = h"
  using over_in[of C h] by (cases "C = []") auto

text \<open>Painting a node.\<close>

lemma paint_node:
  assumes "shaped h s (plug C (Bin l a c r))"
  shows "shaped h (set_black a b s) (plug C (Bin l a b r))"
  using assms by (auto simp: shaped_plug)

section \<open>Rotations\<close>

lemma left_rotate_alt:
  "rb_left_rotate h x s =
     (let y = rb_right s x; s1 = set_right x (rb_left s y) s; s2 = adopt h (rb_left s1 y) x s1;
          s3 = set_parent y (rb_parent s2 x) s2; s4 = attach h (rb_parent s3 x) x y s3
      in set_parent x y (set_left y x s4))"
  by (simp add: rb_left_rotate_def Let_def adopt_def attach_def)

lemma left_rotate:
  assumes "shaped h s (plug C (Bin A x c (Bin B y d D)))"
  shows "shaped h (rb_left_rotate h x s) (plug C (Bin (Bin A x c B) y d D))"
    and "touched h (set (ptrs (plug C (Bin A x c (Bin B y d D))))) s (rb_left_rotate h x s)"
proof -
  note sh = assms[unfolded shaped_plug]
  then have rc: "repc h s C x" and rp: "rep h s (over h C) (Bin A x c (Bin B y d D))"
    and di: "distinct (before C @ ptrs (Bin A x c (Bin B y d D)) @ behind C)" by auto
  have hn: "h \<notin> set (before C)" "h \<notin> set (behind C)" "h \<notin> set (ptrs A)" "h \<notin> set (ptrs B)" "h \<notin> set (ptrs D)"
    "x \<noteq> h" "y \<noteq> h" using repc_not_nil[OF rc] rep_not_nil[OF rp] rp by auto
  have ov: "over h C \<noteq> x" "over h C \<noteq> y" "over h C \<notin> set (ptrs A)" "over h C \<notin> set (ptrs B)" "over h C \<notin> set (ptrs D)"
    using over_in[of C h] di hn by (cases "C = []"; auto)+
  have ap: "apex h B \<noteq> x" "apex h B \<noteq> y" "apex h B \<notin> set (before C)" "apex h B \<notin> set (behind C)"
    "apex h B \<notin> set (ptrs A)" "apex h B \<notin> set (ptrs D)"
    using apex_in[of B h] di hn by (cases "B = Tip"; auto)+
  define s1 where "s1 = set_right x (apex h B) s"
  define s2 where "s2 = adopt h (apex h B) x s1"
  define s3 where "s3 = set_parent y (over h C) s2"
  define s4 where "s4 = attach h (over h C) x y s3"
  define s5 where "s5 = set_parent x y (set_left y x s4)"
  have eq: "rb_left_rotate h x s = s5"
    using rp ap hn ov by (simp add: left_rotate_alt s5_def s4_def s3_def s2_def s1_def)
  have "repc h s3 C x" using rc di ap hn by (simp add: s3_def s2_def s1_def)
  then have c4: "repc h s4 C y" unfolding s4_def using di hn by (intro attach_repc) auto
  have "rep h s2 x B" unfolding s2_def by (rule rep_adopt[of h s1 y]) (use rp di in \<open>simp_all add: s1_def\<close>)
  then have A: "rep h s3 x A" "rep h s3 x B" "rep h s3 y D"
    using rp ap di hn by (simp_all add: s3_def) (simp_all add: s2_def s1_def)
  have "rep h s4 x A" "rep h s4 x B" "rep h s4 y D"
    using A ov hn by (simp_all add: s4_def attach_rep)
  moreover have "rb_left s4 x = apex h A" "rb_right s4 x = apex h B" "rb_right s4 y = apex h D" "rb_parent s4 y = over h C"
    "rb_black s4 x = c" "rb_black s4 y = d"
    using rp ap hn ov(1,2)[symmetric] di by (simp_all add: s4_def s3_def s2_def s1_def)
  ultimately have "repc h s5 C y" "rep h s5 (over h C) (Bin (Bin A x c B) y d D)"
    using c4 di hn by (simp_all add: s5_def)
  then show "shaped h (rb_left_rotate h x s) (plug C (Bin (Bin A x c B) y d D))"
    using di unfolding eq shaped_plug by auto
  let ?N = "set (ptrs (plug C (Bin A x c (Bin B y d D))))"
  have "apex h B \<in> ?N \<or> apex h B = h" by (rule apex_member) auto
  moreover have "over h C \<in> ?N \<or> over h C = h" by (rule over_member) auto
  ultimately show "touched h ?N s (rb_left_rotate h x s)"
    unfolding eq s5_def s4_def s3_def s2_def s1_def by simp
qed

section \<open>Mirror images\<close>

text \<open>
  The code has each rotation and each round of its loops twice, with left and right exchanged. Exchanging them in the store
  and in the shape carries a lemma on one side over to the other.
\<close>

definition flip :: "'v rbstore \<Rightarrow> 'v rbstore" where
  "flip s = s\<lparr>rb_left := rb_right s, rb_right := rb_left s\<rparr>"

fun mirror :: "shape \<Rightarrow> shape" where
  "mirror Tip = Tip"
| "mirror (Bin l a c r) = Bin (mirror r) a c (mirror l)"

fun mirror_frame :: "frame \<Rightarrow> frame" where
  "mirror_frame (InL a c r) = InR (mirror r) a c"
| "mirror_frame (InR l a c) = InL a c (mirror l)"

lemma flip_fields [simp]:
  "rb_left (flip s) = rb_right s" "rb_right (flip s) = rb_left s" "rb_parent (flip s) = rb_parent s"
  "rb_black (flip s) = rb_black s" "flip (flip s) = s" "flip (set_black n c s) = set_black n c (flip s)"
  "flip (set_left n p s) = set_right n p (flip s)" "flip (set_right n p s) = set_left n p (flip s)"
  "flip (set_parent n p s) = set_parent n p (flip s)"
  by (simp_all add: flip_def setters)

lemma mirror_mirror [simp]: "mirror (mirror t) = t"
  by (induction t) auto

lemma mirror_apex [simp]: "apex h (mirror t) = apex h t"
  by (cases t) auto

lemma mirror_ptrs [simp]: "ptrs (mirror t) = rev (ptrs t)"
  by (induction t) auto

lemma mirror_plug [simp]: "mirror (plug C t) = plug (map mirror_frame C) (mirror t)"
  by (induction C t rule: plug.induct) auto

lemma mirror_frames [simp]: "map mirror_frame (map mirror_frame C) = C"
proof -
  have "mirror_frame (mirror_frame f) = f" for f by (cases f) auto
  then show ?thesis by (simp add: map_idI)
qed

lemma rep_flip [simp]: "rep h (flip s) p (mirror t) = rep h s p t"
  by (induction t arbitrary: p) auto

lemma shaped_flip: "shaped h (flip s) (mirror t) = shaped h s t"
  by (simp add: shaped_def)

lemma touched_flip [simp]: "touched h A (flip s) (flip s') = touched h A s s'"
  unfolding touched_def flip_def by auto

lemma flip_attach [simp]:
  "flip (attach h p n m s) = attach' h p n m (flip s)" "flip (adopt h n p s) = adopt h n p (flip s)"
  by (simp_all add: attach_def attach'_def adopt_def)

lemma right_rotate_alt:
  "rb_right_rotate h x s =
     (let y = rb_left s x; s1 = set_left x (rb_right s y) s; s2 = adopt h (rb_right s1 y) x s1;
          s3 = set_parent y (rb_parent s2 x) s2; s4 = attach' h (rb_parent s3 x) x y s3
      in set_parent x y (set_right y x s4))"
  by (simp add: rb_right_rotate_def Let_def adopt_def attach'_def)

lemma right_rotate_flip: "rb_right_rotate h x s = flip (rb_left_rotate h x (flip s))"
proof -
  have "rb_parent (adopt h n p s) = (if n \<noteq> h then (rb_parent s)(n := p) else rb_parent s)" for n p and s :: "'a rbstore"
    by (simp add: adopt_def)
  then show ?thesis by (simp add: right_rotate_alt left_rotate_alt Let_def del: adopt_fields)
qed

lemma left_rotate_flip: "rb_left_rotate h x s = flip (rb_right_rotate h x (flip s))"
  by (simp add: right_rotate_flip)

lemma mirrored:
  assumes "shaped h s t"
    "shaped h (flip s) (mirror t) \<Longrightarrow> shaped h s2 (mirror t') \<and> touched h (set (ptrs (mirror t))) (flip s) s2"
  shows "shaped h (flip s2) t' \<and> touched h (set (ptrs t)) s (flip s2)"
proof
  have f: "shaped h (flip s) (mirror t)" using assms(1) by (simp add: shaped_flip)
  then have r: "shaped h s2 (mirror t')" "touched h (set (ptrs (mirror t))) (flip s) s2"
    using assms(2)[OF f] by (simp_all del: mirror_ptrs)
  show "shaped h (flip s2) t'" using r(1) shaped_flip[of h s2 "mirror t'"] by simp
  show "touched h (set (ptrs t)) s (flip s2)" using r(2) touched_flip[of h _ s "flip s2"] by simp
qed

lemma right_rotate:
  assumes "shaped h s (plug C (Bin (Bin A y d B) x c D))"
  shows "shaped h (rb_right_rotate h x s) (plug C (Bin A y d (Bin B x c D)))" (is ?A)
    and "touched h (set (ptrs (plug C (Bin (Bin A y d B) x c D)))) s (rb_right_rotate h x s)" (is ?B)
proof -
  have "?A \<and> ?B"
    unfolding right_rotate_flip
    by (rule mirrored[OF assms]; unfold mirror_plug mirror.simps; blast intro: left_rotate)
  then show ?A ?B by blast+
qed

end
