(* ===== verification/RBInsert.thy ===== *)
theory RBInsert
  imports RBShape Algorithm
begin

text \<open>
  Insertion into a red-black tree: the colour invariants of shapes and of the contexts around a place in them, and what
  \<^verbatim>\<open>_insert_fixup\<close> and \<^verbatim>\<open>insert\<close> make of the shape. The loop always ends, since each round that goes on moves up two levels.
\<close>

section \<open>Balance\<close>

fun colr :: "shape \<Rightarrow> bool" where
  "colr Tip = True"
| "colr (Bin l a c r) = c"

text \<open>The number of black nodes on the leftmost path.\<close>

fun bh :: "shape \<Rightarrow> nat" where
  "bh Tip = 0"
| "bh (Bin l a c r) = bh l + of_bool c"

fun invh :: "shape \<Rightarrow> bool" where
  "invh Tip = True"
| "invh (Bin l a c r) = (bh l = bh r \<and> invh l \<and> invh r)"

fun invc :: "shape \<Rightarrow> bool" where
  "invc Tip = True"
| "invc (Bin l a c r) = ((\<not> c \<longrightarrow> colr l \<and> colr r) \<and> invc l \<and> invc r)"

definition balanced :: "shape \<Rightarrow> bool" where
  "balanced t \<longleftrightarrow> invh t \<and> invc t \<and> colr t"

text \<open>A context is right for a subtree of black height \<open>n\<close>, and for one of colour \<open>b\<close>.\<close>

fun ctxh :: "frame list \<Rightarrow> nat \<Rightarrow> bool" where
  "ctxh [] n = True"
| "ctxh (InL a c r # C) n = (invh r \<and> bh r = n \<and> ctxh C (n + of_bool c))"
| "ctxh (InR l a c # C) n = (invh l \<and> bh l = n \<and> ctxh C (n + of_bool c))"

fun ctxc :: "frame list \<Rightarrow> bool \<Rightarrow> bool" where
  "ctxc [] b = True"
| "ctxc (InL a c r # C) b = (invc r \<and> (\<not> c \<longrightarrow> b \<and> colr r) \<and> ctxc C c)"
| "ctxc (InR l a c # C) b = (invc l \<and> (\<not> c \<longrightarrow> b \<and> colr l) \<and> ctxc C c)"

fun fcol :: "frame \<Rightarrow> bool" where
  "fcol (InL a c r) = c"
| "fcol (InR l a c) = c"

lemma invh_plug: "invh (plug C t) \<longleftrightarrow> invh t \<and> ctxh C (bh t)"
  by (induction C t rule: plug.induct) auto

lemma invc_plug: "invc (plug C t) \<longleftrightarrow> invc t \<and> ctxc C (colr t)"
  by (induction C t rule: plug.induct) auto

lemma colr_plug: "colr (plug C t) = (if C = [] then colr t else fcol (last C))"
  by (induction C t rule: plug.induct) auto

lemma ctxc_mono: "ctxc C False \<Longrightarrow> ctxc C b"
  by (cases C rule: before.cases) auto

lemma ctxc_black: "ctxc C c \<Longrightarrow> C = [] \<or> fcol (hd C) \<Longrightarrow> ctxc C b"
  by (cases C rule: before.cases) auto

lemma rep_colr: "rep h s p t \<Longrightarrow> rb_black s h \<Longrightarrow> rb_black s (apex h t) = colr t"
  by (cases t) auto

lemma over_colr: "repc h s C n \<Longrightarrow> rb_black s h \<Longrightarrow> rb_black s (over h C) = (C = [] \<or> fcol (hd C))"
  by (cases C rule: before.cases) auto

section \<open>The rounds of the loop\<close>

lemma recolor_left:
  assumes "shaped h s (plug C (Bin (Bin a p False b) g True (Bin ul u False ur)))" (is "shaped h s ?t") "rb_parent s z = p"
  shows "\<exists>s'. rb_insert_fix_step h z s = (g, s') \<and> touched h (set (ptrs ?t)) s s'
    \<and> shaped h s' (plug C (Bin (Bin a p True b) g False (Bin ul u True ur)))"
proof -
  let ?s1 = "set_black p True s"
  let ?s2 = "set_black u True ?s1"
  let ?s3 = "set_black g False ?s2"
  have f: "rb_parent s p = g" "rb_left s g = p" "rb_right s g = u" "\<not> rb_black s u" "p \<noteq> h" "u \<noteq> h" "g \<noteq> h"
    using assms(1) by (auto simp: shaped_plug)
  have "shaped h ?s1 (plug (InL g True (Bin ul u False ur) # C) (Bin a p True b))"
    by (rule paint_node) (use assms in simp)
  then have "shaped h ?s2 (plug (InR (Bin a p True b) g True # C) (Bin ul u True ur))"
    by (intro paint_node) simp
  then have "shaped h ?s3 (plug C (Bin (Bin a p True b) g False (Bin ul u True ur)))"
    by (intro paint_node) simp
  moreover have "rb_insert_fix_step h z s = (g, ?s3)"
    using f assms(2) by (simp add: rb_insert_fix_step_def Let_def)
  ultimately show ?thesis using f by (intro exI[of _ ?s3]) simp
qed

lemma recolor_right:
  assumes "shaped h s (plug C (Bin (Bin ul u False ur) g True (Bin a p False b)))" (is "shaped h s ?t") "rb_parent s z = p"
  shows "\<exists>s'. rb_insert_fix_step h z s = (g, s') \<and> touched h (set (ptrs ?t)) s s'
    \<and> shaped h s' (plug C (Bin (Bin ul u True ur) g False (Bin a p True b)))"
proof -
  let ?s1 = "set_black p True s"
  let ?s2 = "set_black u True ?s1"
  let ?s3 = "set_black g False ?s2"
  have f: "rb_parent s p = g" "rb_right s g = p" "rb_left s g = u" "\<not> rb_black s u" "p \<noteq> u" "p \<noteq> h" "u \<noteq> h" "g \<noteq> h"
    using assms(1) by (auto simp: shaped_plug)
  have "shaped h ?s1 (plug (InR (Bin ul u False ur) g True # C) (Bin a p True b))"
    by (rule paint_node) (use assms in simp)
  then have "shaped h ?s2 (plug (InL g True (Bin a p True b) # C) (Bin ul u True ur))"
    by (intro paint_node) simp
  then have "shaped h ?s3 (plug C (Bin (Bin ul u True ur) g False (Bin a p True b)))"
    by (intro paint_node) simp
  moreover have "rb_insert_fix_step h z s = (g, ?s3)"
    using f assms(2) by (simp add: rb_insert_fix_step_def Let_def)
  ultimately show ?thesis using f by (intro exI[of _ ?s3]) simp
qed

text \<open>The last round: the parent takes the place of the grandparent.\<close>

lemma lift_left:
  assumes "shaped h s (plug C (Bin (Bin T p False S) g True U))" (is "shaped h s ?t")
  shows "shaped h (rb_right_rotate h g (set_black g False (set_black p True s))) (plug C (Bin T p True (Bin S g False U)))"
    and "touched h (set (ptrs ?t)) s (rb_right_rotate h g (set_black g False (set_black p True s)))"
proof -
  let ?s1 = "set_black p True s"
  let ?s2 = "set_black g False ?s1"
  have f: "p \<noteq> h" "g \<noteq> h" using assms by (auto simp: shaped_plug)
  have "shaped h ?s1 (plug (InL g True U # C) (Bin T p True S))"
    by (rule paint_node) (use assms in simp)
  then have "shaped h ?s2 (plug C (Bin (Bin T p True S) g False U))"
    by (intro paint_node) simp
  note rot = right_rotate[OF this]
  then show "shaped h (rb_right_rotate h g ?s2) (plug C (Bin T p True (Bin S g False U)))" by simp
  show "touched h (set (ptrs ?t)) s (rb_right_rotate h g ?s2)"
  proof (rule touched_trans)
    show "touched h (set (ptrs ?t)) s ?s2" using f by simp
    show "touched h (set (ptrs ?t)) ?s2 (rb_right_rotate h g ?s2)" using rot(2) by simp
  qed
qed

lemma lift_right:
  assumes "shaped h s (plug C (Bin U g True (Bin S p False T)))" (is "shaped h s ?t")
  shows "shaped h (rb_left_rotate h g (set_black g False (set_black p True s))) (plug C (Bin (Bin U g False S) p True T))" (is ?A)
    and "touched h (set (ptrs ?t)) s (rb_left_rotate h g (set_black g False (set_black p True s)))" (is ?B)
proof -
  have "?A \<and> ?B"
    unfolding left_rotate_flip flip_fields
    by (rule mirrored[OF assms]; unfold mirror_plug mirror.simps; blast intro: lift_left)
  then show ?A ?B by blast+
qed

lemma outer_left:
  assumes "shaped h s (plug C (Bin (Bin (Bin l z False r) p False S) g True U))" (is "shaped h s ?t")
    "rb_black s h" "colr U"
  shows "\<exists>s'. rb_insert_fix_step h z s = (z, s') \<and> touched h (set (ptrs ?t)) s s'
    \<and> shaped h s' (plug C (Bin (Bin l z False r) p True (Bin S g False U)))"
proof -
  have f: "rb_parent s z = p" "rb_parent s p = g" "rb_left s g = p" "rb_right s g = apex h U" "rb_black s (apex h U)"
    "rb_right s p = apex h S" "z \<noteq> h" "z \<notin> set (ptrs S)"
    using assms rep_colr[of h s g U] by (auto simp: shaped_plug)
  then have "z \<noteq> apex h S" using apex_neq by metis
  then have "rb_insert_fix_step h z s = (z, rb_right_rotate h g (set_black g False (set_black p True s)))"
    using f by (simp add: rb_insert_fix_step_def Let_def)
  then show ?thesis using lift_left[OF assms(1)] by simp
qed

lemma outer_right:
  assumes "shaped h s (plug C (Bin U g True (Bin S p False (Bin l z False r))))" (is "shaped h s ?t")
    "rb_black s h" "colr U"
  shows "\<exists>s'. rb_insert_fix_step h z s = (z, s') \<and> touched h (set (ptrs ?t)) s s'
    \<and> shaped h s' (plug C (Bin (Bin U g False S) p True (Bin l z False r)))"
proof -
  have f: "rb_parent s z = p" "rb_parent s p = g" "rb_right s g = p" "rb_left s g = apex h U" "rb_black s (apex h U)"
    "rb_left s p = apex h S" "z \<noteq> h" "p \<noteq> h" "z \<notin> set (ptrs S)" "p \<notin> set (ptrs U)"
    using assms rep_colr[of h s g U] by (auto simp: shaped_plug)
  then have "z \<noteq> apex h S" "p \<noteq> apex h U" using apex_neq by metis+
  then have "rb_insert_fix_step h z s = (z, rb_left_rotate h g (set_black g False (set_black p True s)))"
    using f by (simp add: rb_insert_fix_step_def Let_def)
  then show ?thesis using lift_right[OF assms(1)] by simp
qed

lemma inner_left:
  assumes "shaped h s (plug C (Bin (Bin S p False (Bin l z False r)) g True U))" (is "shaped h s ?t")
    "rb_black s h" "colr U"
  shows "\<exists>s'. rb_insert_fix_step h z s = (p, s') \<and> touched h (set (ptrs ?t)) s s'
    \<and> shaped h s' (plug C (Bin (Bin S p False l) z True (Bin r g False U)))"
proof -
  let ?s1 = "rb_left_rotate h p s"
  have f: "rb_parent s z = p" "rb_parent s p = g" "rb_left s g = p" "rb_right s g = apex h U" "rb_black s (apex h U)"
    "rb_right s p = z" using assms rep_colr[of h s g U] by (auto simp: shaped_plug)
  have "shaped h s (plug (InL g True U # C) (Bin S p False (Bin l z False r)))" using assms by simp
  note rot = left_rotate[OF this]
  then have sh: "shaped h ?s1 (plug C (Bin (Bin (Bin S p False l) z False r) g True U))" by simp
  then have "rb_parent ?s1 p = z" "rb_parent ?s1 z = g" by (auto simp: shaped_plug)
  then have "rb_insert_fix_step h z s = (p, rb_right_rotate h g (set_black g False (set_black z True ?s1)))"
    using f by (simp add: rb_insert_fix_step_def Let_def)
  moreover have "touched h (set (ptrs ?t)) s ?s1" using rot(2) by simp
  ultimately show ?thesis
    using lift_left[OF sh] by (intro exI[of _ "rb_right_rotate h g (set_black g False (set_black z True ?s1))"])
      (auto elim: touched_trans simp: insert_commute Un_ac)
qed

lemma inner_right:
  assumes "shaped h s (plug C (Bin U g True (Bin (Bin l z False r) p False S)))" (is "shaped h s ?t")
    "rb_black s h" "colr U"
  shows "\<exists>s'. rb_insert_fix_step h z s = (p, s') \<and> touched h (set (ptrs ?t)) s s'
    \<and> shaped h s' (plug C (Bin (Bin U g False l) z True (Bin r p False S)))"
proof -
  let ?s1 = "rb_right_rotate h p s"
  have f: "rb_parent s z = p" "rb_parent s p = g" "rb_right s g = p" "rb_left s g = apex h U" "rb_black s (apex h U)"
    "rb_left s p = z" "p \<noteq> h" "p \<notin> set (ptrs U)" using assms rep_colr[of h s g U] by (auto simp: shaped_plug)
  then have "p \<noteq> apex h U" using apex_neq by metis
  have "shaped h s (plug (InR U g True # C) (Bin (Bin l z False r) p False S))" using assms by simp
  note rot = right_rotate[OF this]
  then have sh: "shaped h ?s1 (plug C (Bin U g True (Bin l z False (Bin r p False S))))" by simp
  then have "rb_parent ?s1 p = z" "rb_parent ?s1 z = g" by (auto simp: shaped_plug)
  then have "rb_insert_fix_step h z s = (p, rb_left_rotate h g (set_black g False (set_black z True ?s1)))"
    using f \<open>p \<noteq> apex h U\<close> by (simp add: rb_insert_fix_step_def Let_def)
  moreover have "touched h (set (ptrs ?t)) s ?s1" using rot(2) by simp
  ultimately show ?thesis
    using lift_right[OF sh] by (intro exI[of _ "rb_left_rotate h g (set_black g False (set_black z True ?s1))"])
      (auto elim: touched_trans simp: insert_commute Un_ac)
qed

text \<open>What the loop needs: the tree is right except that \<open>z\<close>, which is red, may have a red parent.\<close>

definition red_at :: "frame list \<Rightarrow> shape \<Rightarrow> bool" where
  "red_at C t \<longleftrightarrow> invh t \<and> invc t \<and> ctxh C (bh t) \<and> ctxc C True \<and> (C \<noteq> [] \<longrightarrow> fcol (last C))"

definition nearly :: "shape \<Rightarrow> bool" where
  "nearly t \<longleftrightarrow> invh t \<and> invc t"

lemma red_at_done: "red_at C t \<Longrightarrow> C = [] \<or> fcol (hd C) \<Longrightarrow> nearly (plug C t)"
  by (auto simp: red_at_def nearly_def invh_plug invc_plug ctxc_black)

lemma insert_loop_stop:
  assumes "shaped h s (plug C (Bin l z False r))" "rb_black s h" "C = [] \<or> fcol (hd C)"
  shows "rb_insert_loop h z s = Some s"
proof -
  have "rb_black s (rb_parent s z)" using assms over_colr[of h s C z] by (auto simp: shaped_plug)
  then show ?thesis by (subst rb_insert_loop.simps) simp
qed

lemma insert_loop_go:
  assumes "\<not> rb_black s (rb_parent s z)" "rb_insert_fix_step h z s = (z', s')"
  shows "rb_insert_loop h z s = rb_insert_loop h z' s'"
  using assms by (subst rb_insert_loop.simps) simp

lemma insert_loop:
  assumes "shaped h s (plug C (Bin l z False r))" "rb_black s h" "red_at C (Bin l z False r)"
  shows "\<exists>s' t'. rb_insert_loop h z s = Some s' \<and> shaped h s' t' \<and> nearly t'
    \<and> ptrs t' = ptrs (plug C (Bin l z False r)) \<and> touched h (set (ptrs t')) s s'"
  using assms
proof (induction "length C" arbitrary: C l z r s rule: less_induct)
  case less
  note sh = less.prems(1) and nil = less.prems(2) and red = less.prems(3)
  show ?case
  proof (cases "C = [] \<or> fcol (hd C)")
    case True
    then show ?thesis using insert_loop_stop[OF sh nil] red_at_done[OF red] sh
      by (intro exI[of _ s] exI[of _ "plug C (Bin l z False r)"]) auto
  next
    case False
    then obtain f C1 where C1: "C = f # C1" "\<not> fcol f" by (cases C) auto
    then obtain g C2 where C2: "C1 = g # C2" using red by (cases C1) (auto simp: red_at_def)
    have rp: "\<not> rb_black s (rb_parent s z)"
      using sh C1 by (cases f) (auto simp: shaped_plug)
    have last: "C2 \<noteq> [] \<longrightarrow> fcol (last C2)" using red C1 C2 by (auto simp: red_at_def)
    text \<open>A round that lifts the red up, and one that ends.\<close>
    have up: ?thesis if step: "rb_insert_fix_step h z s = (ga, s')" "touched h (set (ptrs (plug C (Bin l z False r)))) s s'"
        "shaped h s' (plug C2 (Bin l' ga False r'))" "red_at C2 (Bin l' ga False r')"
        "ptrs (plug C2 (Bin l' ga False r')) = ptrs (plug C (Bin l z False r))" for ga s' l' r'
    proof -
      have "rb_black s' h" using step(2) nil by (simp add: touched_def)
      then obtain s'' t' where "rb_insert_loop h ga s' = Some s''" "shaped h s'' t'" "nearly t'"
        "ptrs t' = ptrs (plug C (Bin l z False r))" "touched h (set (ptrs t')) s' s''"
        using less.hyps[of C2, OF _ step(3) _ step(4)] step(5) C1 C2 by auto
      then show ?thesis using insert_loop_go[OF rp step(1)] step(2) touched_trans by (intro exI conjI) auto
    qed
    have fin: ?thesis if step: "rb_insert_fix_step h z s = (z', s')" "touched h (set (ptrs (plug C (Bin l z False r)))) s s'"
        "shaped h s' (plug D (Bin l' z' False r'))" "red_at D (Bin l' z' False r')" "fcol (hd D)" 
        "ptrs (plug D (Bin l' z' False r')) = ptrs (plug C (Bin l z False r))" for z' s' l' r' D
    proof -
      have "rb_black s' h" using step(2) nil by (simp add: touched_def)
      then have "rb_insert_loop h z s = Some s'"
        using insert_loop_go[OF rp step(1)] insert_loop_stop[OF step(3)] step(5) by simp
      then show ?thesis using step(2,3,6) red_at_done[OF step(4)] step(5) by (intro exI conjI) auto
    qed
    show ?thesis
    proof (cases f)
      case f: (InL p c S)
      show ?thesis
      proof (cases g)
        case (InL g d U)
        then have C: "C = InL p False S # InL g True U # C2" using C1 C2 red f by (auto simp: red_at_def)
        have whole: "shaped h s (plug C2 (Bin (Bin (Bin l z False r) p False S) g True U))" using sh C by simp
        show ?thesis
        proof (cases "colr U")
          case True
          from outer_left[OF whole nil True] red last C True show ?thesis
            by (elim exE conjE) (rule fin[of z _ "InL p True (Bin S g False U) # C2" l r]; auto simp: red_at_def)
        next
          case False
          then obtain ul u ur where U: "U = Bin ul u False ur" by (cases U) auto
          have "rb_parent s z = p" using sh C by (simp add: shaped_plug)
          from recolor_left[OF whole[unfolded U] this] red last C U show ?thesis
            by (elim exE conjE) (rule up[of g _ "Bin (Bin l z False r) p True S" "Bin ul u True ur"]; auto simp: red_at_def)
        qed
      next
        case (InR U g d)
        then have C: "C = InL p False S # InR U g True # C2" using C1 C2 red f by (auto simp: red_at_def)
        have whole: "shaped h s (plug C2 (Bin U g True (Bin (Bin l z False r) p False S)))" using sh C by simp
        show ?thesis
        proof (cases "colr U")
          case True
          from inner_right[OF whole nil True] red last C True show ?thesis
            by (elim exE conjE) (rule fin[of p _ "InR (Bin U g False l) z True # C2" r S]; auto simp: red_at_def)
        next
          case False
          then obtain ul u ur where U: "U = Bin ul u False ur" by (cases U) auto
          have "rb_parent s z = p" using sh C by (simp add: shaped_plug)
          from recolor_right[OF whole[unfolded U] this] red last C U show ?thesis
            by (elim exE conjE) (rule up[of g _ "Bin ul u True ur" "Bin (Bin l z False r) p True S"]; auto simp: red_at_def)
        qed
      qed
    next
      case f: (InR S p c)
      show ?thesis
      proof (cases g)
        case (InL g d U)
        then have C: "C = InR S p False # InL g True U # C2" using C1 C2 red f by (auto simp: red_at_def)
        have whole: "shaped h s (plug C2 (Bin (Bin S p False (Bin l z False r)) g True U))" using sh C by simp
        show ?thesis
        proof (cases "colr U")
          case True
          from inner_left[OF whole nil True] red last C True show ?thesis
            by (elim exE conjE) (rule fin[of p _ "InL z True (Bin r g False U) # C2" S l]; auto simp: red_at_def)
        next
          case False
          then obtain ul u ur where U: "U = Bin ul u False ur" by (cases U) auto
          have "rb_parent s z = p" using sh C by (simp add: shaped_plug)
          from recolor_left[OF whole[unfolded U] this] red last C U show ?thesis
            by (elim exE conjE) (rule up[of g _ "Bin S p True (Bin l z False r)" "Bin ul u True ur"]; auto simp: red_at_def)
        qed
      next
        case (InR U g d)
        then have C: "C = InR S p False # InR U g True # C2" using C1 C2 red f by (auto simp: red_at_def)
        have whole: "shaped h s (plug C2 (Bin U g True (Bin S p False (Bin l z False r))))" using sh C by simp
        show ?thesis
        proof (cases "colr U")
          case True
          from outer_right[OF whole nil True] red last C True show ?thesis
            by (elim exE conjE) (rule fin[of z _ "InR (Bin U g False S) p True # C2" l r]; auto simp: red_at_def)
        next
          case False
          then obtain ul u ur where U: "U = Bin ul u False ur" by (cases U) auto
          have "rb_parent s z = p" using sh C by (simp add: shaped_plug)
          from recolor_right[OF whole[unfolded U] this] red last C U show ?thesis
            by (elim exE conjE) (rule up[of g _ "Bin ul u True ur" "Bin S p True (Bin l z False r)"]; auto simp: red_at_def)
        qed
      qed
    qed
  qed
qed

lemma paint_root:
  assumes "shaped h s t" "nearly t" "t \<noteq> Tip"
  shows "\<exists>t'. shaped h (set_black (rb_root h s) True s) t' \<and> balanced t' \<and> ptrs t' = ptrs t
    \<and> touched h (set (ptrs t)) s (set_black (rb_root h s) True s)"
proof (cases t)
  case (Bin l a c r)
  have "shaped h (set_black a True s) (plug [] (Bin l a True r))"
    by (rule paint_node) (use assms Bin in simp)
  moreover have "rb_root h s = a" "a \<noteq> h" using assms(1) Bin by (auto simp: shaped_def)
  ultimately show ?thesis using assms(2) Bin
    by (intro exI[of _ "Bin l a True r"]) (auto simp: nearly_def balanced_def)
qed (use assms in simp)

lemma insert_fixup:
  assumes "shaped h s (plug C (Bin l z False r))" "rb_black s h" "red_at C (Bin l z False r)"
  shows "\<exists>s' t'. rb_insert_fixup h z s = Some s' \<and> shaped h s' t' \<and> balanced t'
    \<and> ptrs t' = ptrs (plug C (Bin l z False r)) \<and> touched h (set (ptrs t')) s s'"
proof -
  obtain s1 t1 where 1: "rb_insert_loop h z s = Some s1" "shaped h s1 t1" "nearly t1"
    "ptrs t1 = ptrs (plug C (Bin l z False r))" "touched h (set (ptrs t1)) s s1" using insert_loop[OF assms] by blast
  then have "t1 \<noteq> Tip" by auto
  with paint_root[OF 1(2,3)] obtain t' where "shaped h (set_black (rb_root h s1) True s1) t'" "balanced t'" "ptrs t' = ptrs t1"
    "touched h (set (ptrs t1)) s1 (set_black (rb_root h s1) True s1)" by blast
  moreover from this have "touched h (set (ptrs t')) s (set_black (rb_root h s1) True s1)"
    using 1(5) touched_trans by metis
  ultimately show ?thesis using 1(1,4)
    by (intro exI[of _ "set_black (rb_root h s1) True s1"] exI[of _ t']) (simp add: rb_insert_fixup_def)
qed

section \<open>First and last\<close>

lemma ptrs_Nil [simp]: "ptrs t = [] \<longleftrightarrow> t = Tip"
  by (cases t) auto

lemma leftmost:
  "rep h s p t \<Longrightarrow> t \<noteq> Tip \<Longrightarrow> rb_leftmost h s (apex h t) = Some (hd (ptrs t))"
proof (induction t arbitrary: p)
  case (Bin l a c r)
  then show ?case
    by (cases "l = Tip"; subst rb_leftmost.simps) (auto simp: apex_nil hd_append dest: apex_nil split: shape.split)
qed simp

lemma rightmost:
  "rep h s p t \<Longrightarrow> t \<noteq> Tip \<Longrightarrow> rb_rightmost h s (apex h t) = Some (List.last (ptrs t))"
proof (induction t arbitrary: p)
  case (Bin l a c r)
  then show ?case
    by (cases "r = Tip"; subst rb_rightmost.simps) (auto simp: apex_nil last_append dest: apex_nil split: shape.split)
qed simp

definition extremes :: "ptr \<Rightarrow> 'v rbstore \<Rightarrow> shape \<Rightarrow> bool" where
  "extremes h s t \<longleftrightarrow> rb_left s h = hd (ptrs t @ [h]) \<and> rb_right s h = List.last (h # ptrs t)"

lemma shaped_header [simp]:
  "shaped h s t \<Longrightarrow> shaped h (set_left h p s) t" "shaped h s t \<Longrightarrow> shaped h (set_right h p s) t"
  "shaped h (set_size m k s) t = shaped h s t"
  using shaped_not_nil[of h s t] by (auto simp: shaped_def)

lemma update_extremes:
  assumes "shaped h s t"
  shows "\<exists>s'. rb_update_extremes h s = Some s' \<and> shaped h s' t \<and> extremes h s' t \<and> touched h {} s s'"
proof (cases "t = Tip")
  case True
  then have "rb_root h s = h" using assms by (simp add: shaped_def)
  then show ?thesis using assms True by (auto simp: rb_update_extremes_def extremes_def)
next
  case False
  have rp: "rb_root h s = apex h t" "rep h s h t" using assms by (auto simp: shaped_def)
  then have ne: "apex h t \<noteq> h" using False apex_nil by metis
  let ?s1 = "set_left h (hd (ptrs t)) s"
  have "rep h ?s1 h t" using rp rep_not_nil[OF rp(2)] by simp
  then have "rb_maximum h ?s1 (apex h t) = Some (List.last (ptrs t))"
    using rightmost[of h ?s1 h t] ne False by (simp add: rb_maximum_def)
  moreover have "rb_minimum h s (apex h t) = Some (hd (ptrs t))"
    using leftmost[OF rp(2) False] ne by (simp add: rb_minimum_def)
  ultimately show ?thesis using assms ne False rp
    by (intro exI[of _ "set_right h (List.last (ptrs t)) ?s1"]) (auto simp: rb_update_extremes_def extremes_def Let_def)
qed

section \<open>A tree and its elements\<close>

definition tree_ok :: "ptr \<Rightarrow> 'v rbstore \<Rightarrow> shape \<Rightarrow> bool" where
  "tree_ok h s t \<longleftrightarrow> shaped h s t \<and> balanced t \<and> extremes h s t \<and> rb_black s h \<and> rb_size s h = length (ptrs t)
     \<and> h < rb_fresh s \<and> (\<forall>a\<in>set (ptrs t). rb_live s a \<and> a < rb_fresh s)"

definition contents :: "'v rbstore \<Rightarrow> shape \<Rightarrow> 'v list" where
  "contents s t = map (rb_value s) (ptrs t)"

text \<open>Outside \<open>A\<close> and the header \<open>h\<close>, nothing changed but the next fresh address.\<close>

definition within :: "ptr \<Rightarrow> ptr set \<Rightarrow> 'v rbstore \<Rightarrow> 'v rbstore \<Rightarrow> bool" where
  "within h A s s' \<longleftrightarrow> rb_fresh s \<le> rb_fresh s' \<and> (\<forall>q. q \<notin> A \<longrightarrow> q \<noteq> h \<longrightarrow> rb_parent s' q = rb_parent s q
     \<and> rb_left s' q = rb_left s q \<and> rb_right s' q = rb_right s q \<and> rb_black s' q = rb_black s q
     \<and> rb_value s' q = rb_value s q \<and> rb_live s' q = rb_live s q \<and> rb_size s' q = rb_size s q)"

lemma touched_within: "touched h A s s' \<Longrightarrow> within h A s s'"
  by (auto simp: touched_def within_def)

lemma within_trans: "within h A s s' \<Longrightarrow> within h A s' s'' \<Longrightarrow> within h A s s''"
  by (simp add: within_def)

lemma within_mono: "within h A s s' \<Longrightarrow> A \<subseteq> B \<Longrightarrow> within h B s s'"
  unfolding within_def by blast

lemma within_refl [simp]: "within h A s s"
  by (simp add: within_def)

text \<open>A tree that shares no address with what changed is as before.\<close>

lemma within_other:
  assumes "within h A s s'" "tree_ok k s t" "k \<noteq> h" "h \<notin> set (ptrs t)" "k \<notin> A" "set (ptrs t) \<inter> A = {}"
  shows "tree_ok k s' t" "contents s' t = contents s t"
proof -
  have same: "rb_parent s' q = rb_parent s q \<and> rb_left s' q = rb_left s q \<and> rb_right s' q = rb_right s q
     \<and> rb_black s' q = rb_black s q \<and> rb_value s' q = rb_value s q \<and> rb_live s' q = rb_live s q \<and> rb_size s' q = rb_size s q"
    if "q \<in> insert k (set (ptrs t))" for q
    using assms that unfolding within_def by blast
  have "rep k s' p t = rep k s p t" for p using same by (intro rep_cong) auto
  then show "tree_ok k s' t"
    using assms(1,2) same by (auto simp: tree_ok_def shaped_def extremes_def within_def)
  show "contents s' t = contents s t" using same by (auto simp: contents_def)
qed

section \<open>Finding a place\<close>

context strict_weak
begin

definition ordered :: "'a list \<Rightarrow> bool" where
  "ordered xs \<longleftrightarrow> sorted_wrt lt xs"

text \<open>On the way down, what is before the place is smaller and what is behind it is greater.\<close>

definition here :: "'a \<Rightarrow> 'a rbstore \<Rightarrow> frame list \<Rightarrow> bool" where
  "here val s C \<longleftrightarrow> (\<forall>a\<in>set (before C). lt (rb_value s a) val) \<and> (\<forall>a\<in>set (behind C). lt val (rb_value s a))"

definition equiv :: "'a \<Rightarrow> 'a \<Rightarrow> bool" where
  "equiv a b \<longleftrightarrow> \<not> lt a b \<and> \<not> lt b a"

lemma here_left:
  assumes "ordered (contents s (plug C (Bin l a c r)))" "here val s C" "lt val (rb_value s a)"
  shows "here val s (InL a c r # C)"
  using assms(1,2) by (auto simp: ordered_def contents_def here_def sorted_wrt_append intro: assms(3) lt_trans[OF assms(3)])

lemma here_right:
  assumes "ordered (contents s (plug C (Bin l a c r)))" "here val s C" "lt (rb_value s a) val"
  shows "here val s (InR l a c # C)"
  using assms(1,2) by (auto simp: ordered_def contents_def here_def sorted_wrt_append intro: assms(3) lt_trans[OF _ assms(3)])

lemma descend:
  assumes "shaped h s (plug C t)" "ordered (contents s (plug C t))" "here val s C"
  shows "(\<exists>D. plug C t = plug D Tip \<and> here val s D \<and> rb_descend h lt val s (over h C) (apex h t) = Some (over h D, h))
    \<or> (\<exists>D l a c r. plug C t = plug D (Bin l a c r) \<and> here val s D \<and> equiv val (rb_value s a)
        \<and> rb_descend h lt val s (over h C) (apex h t) = Some (a, a))"
  using assms
proof (induction t arbitrary: C)
  case Tip
  then show ?case by (intro disjI1 exI[of _ C]) (simp add: rb_descend.simps)
next
  case (Bin l a c r)
  have a: "a \<noteq> h" "rb_left s a = apex h l" "rb_right s a = apex h r" using Bin.prems(1) by (auto simp: shaped_plug)
  show ?case
  proof (cases "lt val (rb_value s a)")
    case True
    then have eq: "rb_descend h lt val s (over h C) a = rb_descend h lt val s (over h (InL a c r # C)) (apex h l)"
      using a by (subst rb_descend.simps) simp
    show ?thesis using Bin.IH(1)[of "InL a c r # C"] Bin.prems here_left[OF Bin.prems(2,3) True]
      unfolding apex.simps eq by simp
  next
    case ge: False
    show ?thesis
    proof (cases "lt (rb_value s a) val")
      case True
      then have eq: "rb_descend h lt val s (over h C) a = rb_descend h lt val s (over h (InR l a c # C)) (apex h r)"
        using a ge by (subst rb_descend.simps) simp
      show ?thesis using Bin.IH(2)[of "InR l a c # C"] Bin.prems here_right[OF Bin.prems(2,3) True]
        unfolding apex.simps eq by simp
    next
      case False
      then have "rb_descend h lt val s (over h C) a = Some (a, a)" using a ge by (subst rb_descend.simps) simp
      then show ?thesis using ge False Bin.prems(3) by (intro disjI2) (auto simp: equiv_def)
    qed
  qed
qed

end

section \<open>Inserting\<close>

lemma create_node:
  fixes val
  assumes "shaped h s (plug D Tip)" "z = rb_fresh s" "z \<noteq> h" "z \<notin> set (ptrs (plug D Tip))"
  defines "s1 \<equiv> set_parent z (over h D) (snd (rb_create_node h val s))"
  shows "repc h s1 D h" "rep h s1 (over h D) (Bin Tip z False Tip)" "rb_value s1 = (rb_value s)(z := val)"
    "rb_fresh s1 = rb_fresh s + 1" "rb_live s1 = (rb_live s)(z := True)" "rb_size s1 = rb_size s"
    "rb_black s1 h = rb_black s h" "within h {z} s s1"
proof -
  have "repc h s1 D h = repc h s D h"
    by (rule repc_cong) (use assms(2-4) in \<open>auto simp: s1_def rb_create_node_def Let_def setters\<close>)
  then show "repc h s1 D h" using assms(1) by (simp add: shaped_plug)
qed (use assms in \<open>auto simp: rb_create_node_def Let_def setters within_def\<close>)

lemma link_node:
  fixes left
  assumes "repc h s1 D h" "rep h s1 (over h D) (Bin Tip z False Tip)" "z \<noteq> h" "distinct (before D @ z # behind D)"
    "\<And>a c r E. D = InL a c r # E \<Longrightarrow> left" "\<And>a c r E. D = InR r a c # E \<Longrightarrow> \<not> left"
  defines "s2 \<equiv> (if over h D = h then set_parent h z s1 else if left then set_left (over h D) z s1 else set_right (over h D) z s1)"
  shows "shaped h s2 (plug D (Bin Tip z False Tip))" "touched h (set (ptrs (plug D Tip))) s1 s2"
proof -
  have rc: "repc h s2 D z"
    using assms(1,3-6) unfolding s2_def by (cases D rule: before.cases) (auto dest: repc_not_nil)
  have "over h D \<noteq> z" using assms(3,4) over_in[of D h] by (cases "D = []") auto
  then have "rep h s2 (over h D) (Bin Tip z False Tip)" using assms(2,3) by (simp add: s2_def)
  then show "shaped h s2 (plug D (Bin Tip z False Tip))" using rc assms(4) by (simp add: shaped_plug)
  have "over h D \<in> set (ptrs (plug D Tip)) \<or> over h D = h" by (rule over_member) simp
  then show "touched h (set (ptrs (plug D Tip))) s1 s2" unfolding s2_def by auto
qed

lemma red_at_leaf: "balanced (plug D Tip) \<Longrightarrow> red_at D (Bin Tip z False Tip)"
  by (auto simp: balanced_def red_at_def invh_plug invc_plug colr_plug)

context strict_weak
begin

text \<open>
  \<^verbatim>\<open>insert\<close> either finds an equivalent element, or adds a new node between the smaller and the greater ones.
\<close>

lemma rb_insert_cases:
  assumes ok: "tree_ok h s t" and ord: "ordered (contents s t)"
  obtains (found) a where "a \<in> set (ptrs t)" "equiv val (rb_value s a)" "rb_insert h lt val s = Some (a, False, s)"
  | (new) s' t' A B where "rb_insert h lt val s = Some (rb_fresh s, True, s')" "tree_ok h s' t'"
      "ptrs t = A @ B" "ptrs t' = A @ rb_fresh s # B" "\<forall>a\<in>set A. lt (rb_value s a) val" "\<forall>a\<in>set B. lt val (rb_value s a)"
      "rb_value s' = (rb_value s)(rb_fresh s := val)" "rb_live s' = (rb_live s)(rb_fresh s := True)"
      "within h (set (ptrs t')) s s'" "rb_fresh s' = rb_fresh s + 1"
proof -
  have sh: "shaped h s (plug [] t)" and root: "rb_root h s = apex h t" and nil: "rb_black s h"
    using ok by (auto simp: tree_ok_def shaped_def)
  from descend[OF sh, of val] ord consider
    (new) D where "plug [] t = plug D Tip" "here val s D" "rb_descend h lt val s h (apex h t) = Some (over h D, h)"
  | (found) D l a c r where "plug [] t = plug D (Bin l a c r)" "equiv val (rb_value s a)"
      "rb_descend h lt val s h (apex h t) = Some (a, a)"
    by (auto simp: here_def)
  then show ?thesis
  proof cases
    case found
    then have "a \<in> set (ptrs t)" "a \<noteq> h" using sh by (auto simp: shaped_plug)
    then show ?thesis using that(1) found root by (simp add: rb_insert_def)
  next
    case new
    define z where "z = rb_fresh s"
    have shD: "shaped h s (plug D Tip)" and balD: "balanced (plug D Tip)" using ok new(1) by (auto simp: tree_ok_def)
    have z: "z \<noteq> h" "z \<notin> set (ptrs (plug D Tip))" using ok new(1) by (fastforce simp: tree_ok_def z_def)+
    define s1 where "s1 = set_parent z (over h D) (snd (rb_create_node h val s))"
    note c = create_node[OF shD z_def z, of val, folded s1_def]
    define s2 where "s2 = (if over h D = h then set_parent h z s1
      else if lt val (rb_value s1 (over h D)) then set_left (over h D) z s1 else set_right (over h D) z s1)"
    have left: "lt val (rb_value s1 (over h D)) = lt val (rb_value s (over h D))" if "D \<noteq> []"
      using c(3) over_in[OF that, of h] z by auto
    have di: "distinct (before D @ z # behind D)" using shD z by (auto simp: shaped_plug)
    have lf: "lt val (rb_value s1 (over h D))" if "D = InL a c r # E" for a c r E
      using left that new(2) by (simp add: here_def)
    have rt: "\<not> lt val (rb_value s1 (over h D))" if "D = InR r a c # E" for a c r E
      using left that new(2) lt_asym by (simp add: here_def)
    have l: "shaped h s2 (plug D (Bin Tip z False Tip))" "touched h (set (ptrs (plug D Tip))) s1 s2"
      unfolding s2_def using lf rt
      by (blast intro: link_node(1)[OF c(1,2) z(1) di], blast intro: link_node(2)[OF c(1,2) z(1) di])
    have "rb_black s2 h" using l(2) c(7) nil by (simp add: touched_def)
    from insert_fixup[OF l(1) this red_at_leaf[OF balD]] obtain s3 t' where
      f: "rb_insert_fixup h z s2 = Some s3" "shaped h s3 t'" "balanced t'" "ptrs t' = before D @ z # behind D"
        "touched h (set (ptrs t')) s2 s3" by auto
    define s4 where "s4 = set_size h (rb_size s3 h + 1) s3"
    from update_extremes[of h s4 t'] f(2) obtain s5 where
      u: "rb_update_extremes h s4 = Some s5" "shaped h s5 t'" "extremes h s5 t'" "touched h {} s4 s5" by (auto simp: s4_def)
    have "touched h (set (ptrs t')) s1 s2" using l(2) f(4) by (auto elim!: touched_mono)
    then have t13: "touched h (set (ptrs t')) s1 s3" using f(5) by (rule touched_trans)
    have same: "rb_value s5 = rb_value s1" "rb_live s5 = rb_live s1" "rb_fresh s5 = rb_fresh s1" "rb_black s5 h = rb_black s h"
      "rb_size s5 h = rb_size s h + 1"
      using t13 u(4) c by (simp_all add: touched_def s4_def set_size_def)
    have ins: "rb_insert h lt val s = Some (z, True, s5)"
      using new(3) root f(1) u(1) by (simp add: rb_insert_def rb_create_node_def Let_def s1_def s2_def s4_def z_def split: if_splits)
    have w: "within h (set (ptrs t')) s s5"
    proof -
      have "within h (set (ptrs t')) s s1" by (rule within_mono[OF c(8)]) (use f(4) in auto)
      moreover have "within h (set (ptrs t')) s1 s3" using t13 by (rule touched_within)
      moreover have "within h (set (ptrs t')) s3 s4" by (simp add: within_def s4_def set_size_def)
      moreover have "within h (set (ptrs t')) s4 s5" using u(4) touched_mono touched_within by blast
      ultimately show ?thesis using within_trans by blast
    qed
    have "ptrs t = before D @ behind D" using new(1) ptrs_plug[of "[]" t] ptrs_plug[of D Tip] by simp
    moreover from this have "tree_ok h s5 t'"
      using ok u(2,3) f(3,4) same c(4,5) nil by (auto simp: tree_ok_def z_def less_Suc_eq)
    ultimately show ?thesis
      using that(2)[of s5 t' "before D" "behind D"] ins f(4) new(2) same(1,2,3) c(3,4,5) w by (simp add: here_def z_def)
  qed
qed

end

end
