(* ===== verification/RBErase.thy ===== *)
theory RBErase
  imports RBInsert
begin

text \<open>
  Erasing from a red-black tree: what the unlinking part of \<^verbatim>\<open>_erase_node\<close> and \<^verbatim>\<open>_erase_fixup\<close> make of the shape. The loop
  ends, since each round ends it or moves the place that lacks a black node one level up.
\<close>

section \<open>Transplanting\<close>

lemma transplant_alt:
  "u \<noteq> h \<Longrightarrow> rb_transplant h u v s = adopt h v (rb_parent s u) (attach h (rb_parent s u) u v s)"
  by (simp add: rb_transplant_def attach_def adopt_def Let_def)

lemma transplant:
  assumes "repc h s C u" "rb_parent s u = over h C" "u \<noteq> h" "u \<notin> set (before C)" "u \<notin> set (behind C)"
    "rep h s q V" "distinct (before C @ ptrs V @ behind C)"
  shows "repc h (rb_transplant h u (apex h V) s) C (apex h V)" "rep h (rb_transplant h u (apex h V) s) (over h C) V"
    and "touched h (set (ptrs (plug C V))) s (rb_transplant h u (apex h V) s)"
proof -
  let ?s1 = "attach h (over h C) u (apex h V) s"
  have eq: "rb_transplant h u (apex h V) s = adopt h (apex h V) (over h C) ?s1"
    by (simp add: transplant_alt[OF assms(3)] assms(2))
  have "repc h ?s1 C (apex h V)" by (rule attach_repc) (use assms in auto)
  moreover have "apex h V \<notin> set (before C)" "apex h V \<notin> set (behind C)"
    using apex_in[of V h] assms(7) repc_not_nil[OF assms(1)] by (cases "V = Tip"; auto)+
  ultimately show "repc h (rb_transplant h u (apex h V) s) C (apex h V)" unfolding eq by simp
  have "over h C \<notin> set (ptrs V)"
    using over_in[of C h] assms(7) rep_not_nil[OF assms(6)] by (cases "C = []") auto
  then have "rep h ?s1 q V" using assms(6) rep_not_nil[OF assms(6)] by (simp add: attach_rep)
  then show "rep h (rb_transplant h u (apex h V) s) (over h C) V"
    unfolding eq by (rule rep_adopt) (use assms(7) in simp)
  have "apex h V \<in> set (ptrs (plug C V)) \<or> apex h V = h" by (rule apex_member) auto
  moreover have "over h C \<in> set (ptrs (plug C V)) \<or> over h C = h" by (rule over_member) auto
  ultimately show "touched h (set (ptrs (plug C V))) s (rb_transplant h u (apex h V) s)"
    unfolding eq by (intro touched_adopt touched_attach touched_refl)
qed

lemma touched_rep:
  assumes "touched h A s s'" "set (ptrs t) \<inter> A = {}" "h \<notin> set (ptrs t)"
  shows "rep h s' p t = rep h s p t"
  using assms by (intro rep_cong) (auto simp: touched_def)

lemma touched_at:
  assumes "touched h A s s'" "n \<notin> A" "n \<noteq> h"
  shows "rb_parent s' n = rb_parent s n" "rb_left s' n = rb_left s n" "rb_right s' n = rb_right s n"
    "rb_black s' n = rb_black s n"
  using assms by (simp_all add: touched_def)

text \<open>The leftmost node of a subtree, and the path to it.\<close>

lemma left_spine: "t \<noteq> Tip \<Longrightarrow> \<exists>D y c r. t = plug D (Bin Tip y c r) \<and> before D = []"
proof (induction t)
  case (Bin l a c r)
  show ?case
  proof (cases "l = Tip")
    case True
    then show ?thesis by (intro exI[of _ "[]"]) simp
  next
    case False
    then obtain D y c' r' where "l = plug D (Bin Tip y c' r')" "before D = []" using Bin.IH(1) by blast
    then have "Bin l a c r = plug (D @ [InL a c r]) (Bin Tip y c' r')" "before (D @ [InL a c r]) = []"
      by (simp_all add: plug_append)
    then show ?thesis by blast
  qed
qed simp

section \<open>Taking a node out\<close>

text \<open>The node's place is taken by \<open>y\<close>, which has no left child and hangs under \<open>z\<close>'s right subtree no more.\<close>

lemma replace_node:
  assumes "repc h s C z" "rb_parent s z = over h C" "z \<noteq> h" "rb_left s z = apex h L" "rb_black s z = c"
    "rep h s z L" "L \<noteq> Tip" "rep h s q (Bin Tip y d R)"
    "distinct (before C @ (ptrs L @ y # ptrs R) @ behind C)" "z \<notin> set (ptrs (plug C (Bin L y d R)))"
  defines "s1 \<equiv> rb_transplant h z y s"
  defines "s2 \<equiv> set_left y (rb_left s1 z) s1"
  defines "s3 \<equiv> set_parent (rb_left s2 y) y s2"
  defines "s4 \<equiv> set_black y (rb_black s3 z) s3"
  shows "shaped h s4 (plug C (Bin L y c R))" "touched h (set (ptrs (plug C (Bin L y d R)))) s s4"
proof -
  note tr = transplant[OF assms(1,2,3) _ _ assms(8), simplified, folded s1_def]
  have hL: "h \<notin> set (ptrs L)" using rep_not_nil[OF assms(6)] .
  have 1: "repc h s1 C y" "rep h s1 (over h C) (Bin Tip y d R)"
    "touched h (set (ptrs (plug C (Bin Tip y d R)))) s s1" using tr assms(9,10) by auto
  have L1: "rep h s1 z L" using touched_rep[OF 1(3), of L] assms(6,9) hL by auto
  have z1: "rb_left s1 z = apex h L" "rb_black s1 z = c"
    using touched_at[OF 1(3), of z] assms(3,4,5,10) by auto
  have ap: "apex h L \<noteq> h" "apex h L \<in> set (ptrs L)" "apex h L \<noteq> y" "apex h L \<noteq> z"
    "apex h L \<notin> set (ptrs R)" "apex h L \<notin> set (before C)" "apex h L \<notin> set (behind C)"
    using apex_nil[OF assms(6)] apex_in[OF assms(7)] assms(7,9,10) by auto
  have s3: "s3 = adopt h (apex h L) y s2" using z1 ap by (simp add: s3_def s2_def adopt_def)
  have y: "y \<noteq> h" "y \<notin> set (ptrs L)" "y \<notin> set (ptrs R)" "y \<notin> set (before C)" "y \<notin> set (behind C)" "y \<noteq> z"
    using assms(8,9,10) by auto
  have "rep h s2 z L" using L1 y by (simp add: s2_def)
  then have "rep h s3 y L" unfolding s3 by (rule rep_adopt) (use assms(9) in simp)
  moreover have "rep h s3 y R" "repc h s3 C y" "rb_left s3 y = apex h L" "rb_right s3 y = apex h R" "rb_parent s3 y = over h C"
    "rb_black s3 z = c"
    using 1(1,2) y z1 ap assms(9) by (auto simp: s3_def s2_def)
  ultimately show "shaped h s4 (plug C (Bin L y c R))"
    using y assms(9) by (simp add: shaped_plug s4_def)
  have "touched h (set (ptrs (plug C (Bin L y d R)))) s s1" using 1(3) by (rule touched_mono) auto
  then show "touched h (set (ptrs (plug C (Bin L y d R)))) s s4"
    using y ap z1 by (simp add: s4_def s3_def s2_def)
qed

text \<open>A subtree that lacks a black node when the place that was given up was black (\<open>b\<close>).\<close>

definition short_at :: "frame list \<Rightarrow> shape \<Rightarrow> bool \<Rightarrow> bool" where
  "short_at E X b \<longleftrightarrow> invh X \<and> invc X \<and> ctxh E (bh X + of_bool b) \<and> ctxc E b \<and> (\<not> b \<longrightarrow> colr X)
     \<and> (E \<noteq> [] \<longrightarrow> fcol (List.last E)) \<and> (E = [] \<longrightarrow> b)"

lemma unlink_single:
  assumes "shaped h s (plug C (Bin L z c R))" "L = Tip \<or> R = Tip" "balanced (plug C (Bin L z c R))"
  defines "X \<equiv> (if L = Tip then R else L)"
  shows "\<exists>s'. rb_unlink h z s = Some (apex h X, over h C, c, s') \<and> shaped h s' (plug C X) \<and> short_at C X c
    \<and> ptrs (plug C X) = before C @ ptrs L @ ptrs R @ behind C \<and> touched h (set (ptrs (plug C (Bin L z c R)))) s s'"
proof -
  let ?s = "rb_transplant h z (apex h X) s"
  have f: "repc h s C z" "rb_parent s z = over h C" "z \<noteq> h" "z \<notin> set (before C)" "z \<notin> set (behind C)"
    "rep h s z X" "distinct (before C @ ptrs X @ behind C)" "rb_left s z = apex h L" "rb_right s z = apex h R"
    "rb_black s z = c" "rep h s z L" "rep h s z R"
    using assms(1) by (auto simp: shaped_plug X_def)
  note tr = transplant[OF f(1-7)]
  have "L \<noteq> Tip \<Longrightarrow> apex h L \<noteq> h" using f(11) apex_nil by metis
  then have "rb_unlink h z s = Some (apex h X, over h C, c, ?s)"
    using assms(2) f(2,8-10) by (auto simp: rb_unlink_def X_def)
  moreover have "short_at C X c"
    using assms(2,3) unfolding balanced_def invh_plug invc_plug colr_plug short_at_def X_def
    by (cases c) (auto intro: ctxc_mono split: if_splits)
  moreover have "ptrs (plug C X) = before C @ ptrs L @ ptrs R @ behind C" using assms(2) by (auto simp: X_def)
  moreover have "touched h (set (ptrs (plug C (Bin L z c R)))) s ?s"
    using tr(3) by (rule touched_mono) (auto simp: X_def)
  ultimately show ?thesis using tr(1,2) f(7) by (auto simp: shaped_plug)
qed

lemma short_at_spine:
  assumes "balanced (plug (D @ InR L z c # C) (Bin Tip y cy R))"
  shows "short_at (D @ InR L y c # C) R cy"
proof -
  have h: "ctxh (D @ InR L y c # C) = ctxh (D @ InR L z c # C)"
    by (rule ext) (induction D rule: before.induct; simp)
  have c: "ctxc (D @ InR L y c # C) = ctxc (D @ InR L z c # C)"
    by (rule ext) (induction D rule: before.induct; simp)
  have l: "fcol (List.last (D @ InR L y c # C)) = fcol (List.last (D @ InR L z c # C))"
    by (cases "C = []") simp_all
  show ?thesis
    using assms unfolding balanced_def invh_plug invc_plug colr_plug short_at_def h c l
    by (cases cy) (auto intro: ctxc_mono)
qed

text \<open>Detaching the successor \<open>y\<close> of \<open>z\<close> and giving it \<open>z\<close>'s right subtree, without \<open>y\<close>.\<close>

definition detach :: "ptr \<Rightarrow> ptr \<Rightarrow> ptr \<Rightarrow> 'v rbstore \<Rightarrow> 'v rbstore" where
  "detach h z y s = (if rb_parent s y = z then (if rb_right s y \<noteq> h then set_parent (rb_right s y) y s else s)
     else let s = rb_transplant h y (rb_right s y) s; s = set_right y (rb_right s z) s
          in set_parent (rb_right s y) y s)"

lemma detach:
  assumes "shaped h s (plug C (Bin L z c (plug D (Bin Tip y cy Y))))" "before D = []"
  defines "s1 \<equiv> detach h z y s"
  shows "repc h s1 C z" "rb_parent s1 z = over h C" "rb_left s1 z = apex h L" "rb_black s1 z = c" "rep h s1 z L"
    "rep h s1 (rb_parent s1 y) (Bin Tip y cy (plug D Y))" "touched h (set (ptrs (plug C (Bin L z c (plug D (Bin Tip y cy Y)))))) s s1"
proof -
  let ?E = "D @ InR L z c # C"
  let ?N = "set (ptrs (plug C (Bin L z c (plug D (Bin Tip y cy Y)))))"
  have shE: "shaped h s (plug ?E (Bin Tip y cy Y))" using assms(1) by (simp add: plug_append)
  have di: "distinct (before C @ ptrs L @ z # y # ptrs Y @ behind D @ behind C)"
    using assms(1,2) by (auto simp: shaped_plug)
  have f: "repc h s C z" "rb_parent s z = over h C" "rb_left s z = apex h L" "rb_black s z = c" "rep h s z L" "z \<noteq> h"
    using assms(1) by (auto simp: shaped_plug)
  have y: "repc h s ?E y" "rb_parent s y = over h ?E" "y \<noteq> h" "rb_left s y = h" "rb_right s y = apex h Y" "rb_black s y = cy"
    "rep h s y Y" using shE by (auto simp: shaped_plug)
  have "repc h s1 C z \<and> rb_parent s1 z = over h C \<and> rb_left s1 z = apex h L \<and> rb_black s1 z = c \<and> rep h s1 z L
    \<and> rep h s1 (rb_parent s1 y) (Bin Tip y cy (plug D Y)) \<and> touched h ?N s s1"
  proof (cases "D = []")
    case True
    then have s1: "s1 = adopt h (apex h Y) y s" using y by (simp add: s1_def detach_def adopt_def)
    have ap: "apex h Y \<noteq> y" "apex h Y \<noteq> z" "apex h Y \<notin> set (before C)" "apex h Y \<notin> set (behind C)" "apex h Y \<notin> set (ptrs L)"
      using apex_in[of Y h] di y(3) f(6) repc_not_nil[OF f(1)] rep_not_nil[OF f(5)] by (cases "Y = Tip"; auto)+
    have "rep h s1 y Y" unfolding s1 by (rule rep_adopt[OF y(7)]) (use di in simp)
    moreover have "apex h Y \<in> ?N \<or> apex h Y = h" by (rule apex_member) auto
    ultimately show ?thesis using f y ap True unfolding s1 by simp
  next
    case False
    have ov: "over h ?E = over h D" using False by (simp add: over_append)
    then have "rb_parent s y \<noteq> z" using over_in[OF False, of h] di assms(2) y(2) by auto
    define t1 where "t1 = rb_transplant h y (apex h Y) s"
    have "distinct (before ?E @ ptrs Y @ behind ?E)" using di assms(2) by auto
    moreover have "y \<notin> set (before ?E)" "y \<notin> set (behind ?E)" using di assms(2) by auto
    ultimately have tr: "repc h t1 ?E (apex h Y)" "rep h t1 (over h ?E) Y" "touched h (set (ptrs (plug ?E Y))) s t1"
      unfolding t1_def using transplant[OF y(1-3) _ _ y(7)] by blast+
    have "shaped h t1 (plug ?E Y)" using tr(1,2) di assms(2) by (auto simp: shaped_plug)
    then have sh1: "shaped h t1 (plug C (Bin L z c (plug D Y)))" by (simp add: plug_append)
    then have g: "repc h t1 C z" "rb_parent t1 z = over h C" "rb_left t1 z = apex h L" "rb_black t1 z = c" "rep h t1 z L"
      "rb_right t1 z = apex h (plug D Y)" "rep h t1 z (plug D Y)" by (auto simp: shaped_plug)
    have y1: "rb_left t1 y = h" "rb_right t1 y = apex h Y" "rb_black t1 y = cy" "rb_parent t1 y = over h D"
      using touched_at[OF tr(3), of y] y di assms(2) ov by auto
    have ne: "plug D Y \<noteq> Tip" using False by (metis append_is_Nil_conv append_self_conv2 behind.elims neq_Nil_conv over_in ptrs.simps(1) ptrs_plug empty_iff list.set(1) Un_iff assms(2))
    then have ap: "apex h (plug D Y) \<noteq> h" "apex h (plug D Y) \<in> set (ptrs (plug D Y))"
      using apex_nil[OF g(7)] apex_in[of "plug D Y"] by auto
    then have ap': "apex h (plug D Y) \<noteq> y" "apex h (plug D Y) \<noteq> z" "apex h (plug D Y) \<notin> set (before C)"
      "apex h (plug D Y) \<notin> set (behind C)" "apex h (plug D Y) \<notin> set (ptrs L)" using di assms(2) by auto
    define t2 where "t2 = set_right y (apex h (plug D Y)) t1"
    have s1: "s1 = adopt h (apex h (plug D Y)) y t2"
      using \<open>rb_parent s y \<noteq> z\<close> y(5) g(6) ap(1) by (simp add: s1_def detach_def adopt_def t2_def t1_def)
    have "rep h t2 z (plug D Y)" using g(7) di assms(2) by (simp add: t2_def)
    then have "rep h s1 y (plug D Y)" unfolding s1 by (rule rep_adopt) (use di assms(2) in auto)
    moreover have "touched h ?N s t1" using tr(3) by (rule touched_mono) (use assms(2) in auto)
    ultimately show ?thesis using g y1 ap ap' y(3) di assms(2) unfolding s1 by (auto simp: t2_def)
  qed
  then show "repc h s1 C z" "rb_parent s1 z = over h C" "rb_left s1 z = apex h L" "rb_black s1 z = c" "rep h s1 z L"
    "rep h s1 (rb_parent s1 y) (Bin Tip y cy (plug D Y))" "touched h ?N s s1"
    by blast+
qed

lemma unlink_double:
  assumes "shaped h s (plug C (Bin L z c R))" "L \<noteq> Tip" "R \<noteq> Tip" "balanced (plug C (Bin L z c R))"
  shows "\<exists>E X b s'. rb_unlink h z s = Some (apex h X, over h E, b, s') \<and> shaped h s' (plug E X) \<and> short_at E X b
    \<and> ptrs (plug E X) = before C @ ptrs L @ ptrs R @ behind C \<and> touched h (set (ptrs (plug C (Bin L z c R)))) s s'"
proof -
  obtain D y cy Y where R: "R = plug D (Bin Tip y cy Y)" and bD: "before D = []" using left_spine[OF assms(3)] by blast
  let ?E = "D @ InR L y c # C"
  let ?R = "plug D Y"
  let ?N = "set (ptrs (plug C (Bin L z c R)))"
  have f: "rb_left s z = apex h L" "rb_right s z = apex h R" "rep h s z L" "rep h s z R" "z \<noteq> h"
    and di: "distinct (before C @ ptrs (Bin L z c R) @ behind C)"
    using assms(1) by (auto simp: shaped_plug)
  have "shaped h s (plug (D @ InR L z c # C) (Bin Tip y cy Y))" using assms(1) by (simp add: plug_append R)
  then have y: "rb_right s y = apex h Y" "rb_black s y = cy" "rb_parent s y = (if D = [] then z else over h D)"
    by (auto simp: shaped_plug over_append)
  have yz: "rb_parent s y = z \<longleftrightarrow> D = []"
    using y(3) over_in[of D h] di bD by (auto simp: R)
  have nil: "apex h L \<noteq> h" "apex h R \<noteq> h" using f(3,4) assms(2,3) apex_nil by metis+
  have mn: "rb_minimum h s (apex h R) = Some y"
    using leftmost[OF f(4) assms(3)] nil bD by (simp add: rb_minimum_def R)
  define s1 where "s1 = detach h z y s"
  note s1 = detach[OF assms(1)[unfolded R] bD, folded s1_def R]
  define s2 where "s2 = rb_transplant h z y s1"
  define s3 where "s3 = set_left y (rb_left s2 z) s2"
  define s4 where "s4 = set_parent (rb_left s3 y) y s3"
  define s5 where "s5 = set_black y (rb_black s4 z) s4"
  have "distinct (before C @ (ptrs L @ y # ptrs ?R) @ behind C)" "z \<notin> set (ptrs (plug C (Bin L y cy ?R)))"
    using di bD by (auto simp: R)
  note rn = replace_node[OF s1(1,2) f(5) s1(3,4,5) assms(2) s1(6) this, folded s2_def, folded s3_def, folded s4_def, folded s5_def]
  have whole: "plug C (Bin L y c ?R) = plug ?E Y" by (simp add: plug_append)
  have "rb_unlink h z s = Some (apex h Y, over h ?E, cy, s5)"
    using f(1,2) nil mn y yz
    by (simp add: rb_unlink_def Let_def s5_def s4_def s3_def s2_def s1_def detach_def over_append)
  moreover have "ptrs (plug ?E Y) = before C @ ptrs L @ ptrs R @ behind C" by (simp add: R bD)
  moreover have "touched h ?N s s5"
  proof (rule touched_trans)
    show "touched h ?N s s1" using s1(7) by simp
    have "touched h (set (ptrs (plug C (Bin L y cy ?R)))) s1 s5" using rn(2) by blast
    then show "touched h ?N s1 s5" by (rule touched_mono) (use bD in \<open>auto simp: R\<close>)
  qed
  moreover have "short_at ?E Y cy" by (rule short_at_spine[of _ _ z]) (use assms(4) in \<open>simp add: plug_append R\<close>)
  ultimately show ?thesis using rn(1) whole by metis
qed

section \<open>The rounds of the loop\<close>
lemma red_sibling_left:
  assumes "shaped h s (plug C (Bin X p True (Bin wl w False wr)))" (is "shaped h s ?t")
  defines "s' \<equiv> rb_left_rotate h p (set_black p False (set_black w True s))"
  shows "shaped h s' (plug C (Bin (Bin X p False wl) w True wr))" "touched h (set (ptrs ?t)) s s'"
proof -
  have f: "p \<noteq> h" "w \<noteq> h" using assms(1) by (auto simp: shaped_plug)
  have "shaped h (set_black w True s) (plug (InR X p True # C) (Bin wl w True wr))"
    by (rule paint_node) (use assms in simp)
  then have "shaped h (set_black p False (set_black w True s)) (plug C (Bin X p False (Bin wl w True wr)))"
    by (intro paint_node) simp
  note rot = left_rotate[OF this]
  then show "shaped h s' (plug C (Bin (Bin X p False wl) w True wr))" by (simp add: s'_def)
  show "touched h (set (ptrs ?t)) s s'" unfolding s'_def
  proof (rule touched_trans)
    show "touched h (set (ptrs ?t)) s (set_black p False (set_black w True s))" using f by simp
  qed (use rot(2) in simp)
qed

lemma turn_sibling_left:
  assumes "shaped h s (plug C (Bin X p c (Bin (Bin a q False b) w True wr)))" (is "shaped h s ?t")
  defines "s' \<equiv> rb_right_rotate h w (set_black w False (set_black q True s))"
  shows "shaped h s' (plug C (Bin X p c (Bin a q True (Bin b w False wr))))" "touched h (set (ptrs ?t)) s s'"
proof -
  have f: "q \<noteq> h" "w \<noteq> h" using assms(1) by (auto simp: shaped_plug)
  have "shaped h (set_black q True s) (plug (InL w True wr # InR X p c # C) (Bin a q True b))"
    by (rule paint_node) (use assms in simp)
  then have "shaped h (set_black w False (set_black q True s)) (plug (InR X p c # C) (Bin (Bin a q True b) w False wr))"
    by (intro paint_node) simp
  note rot = right_rotate[OF this]
  then show "shaped h s' (plug C (Bin X p c (Bin a q True (Bin b w False wr))))" by (simp add: s'_def)
  show "touched h (set (ptrs ?t)) s s'" unfolding s'_def
  proof (rule touched_trans)
    show "touched h (set (ptrs ?t)) s (set_black w False (set_black q True s))" using f by simp
  qed (use rot(2) in simp)
qed

lemma lift_sibling_left:
  assumes "shaped h s (plug C (Bin X p c (Bin wl w True (Bin a r d b))))" (is "shaped h s ?t")
  defines "s' \<equiv> rb_left_rotate h p (set_black r True (set_black p True (set_black w c s)))"
  shows "shaped h s' (plug C (Bin (Bin X p True wl) w c (Bin a r True b)))" "touched h (set (ptrs ?t)) s s'"
proof -
  have f: "p \<noteq> h" "w \<noteq> h" "r \<noteq> h" using assms(1) by (auto simp: shaped_plug)
  have "shaped h (set_black w c s) (plug (InR X p c # C) (Bin wl w c (Bin a r d b)))"
    by (rule paint_node) (use assms in simp)
  then have "shaped h (set_black p True (set_black w c s)) (plug C (Bin X p True (Bin wl w c (Bin a r d b))))"
    by (intro paint_node) simp
  then have "shaped h (set_black r True (set_black p True (set_black w c s)))
      (plug (InR wl w c # InR X p True # C) (Bin a r True b))"
    by (intro paint_node) simp
  then have "shaped h (set_black r True (set_black p True (set_black w c s)))
      (plug C (Bin X p True (Bin wl w c (Bin a r True b))))" by simp
  note rot = left_rotate[OF this]
  then show "shaped h s' (plug C (Bin (Bin X p True wl) w c (Bin a r True b)))" by (simp add: s'_def)
  show "touched h (set (ptrs ?t)) s s'" unfolding s'_def
  proof (rule touched_trans)
    show "touched h (set (ptrs ?t)) s (set_black r True (set_black p True (set_black w c s)))" using f by simp
  qed (use rot(2) in simp)
qed

lemma red_sibling_right:
  assumes "shaped h s (plug C (Bin (Bin wr w False wl) p True X))" (is "shaped h s ?t")
  defines "s' \<equiv> rb_right_rotate h p (set_black p False (set_black w True s))"
  shows "shaped h s' (plug C (Bin wr w True (Bin wl p False X)))" (is ?A)
    and "touched h (set (ptrs ?t)) s s'" (is ?B)
proof -
  have "?A \<and> ?B"
    unfolding s'_def right_rotate_flip flip_fields
    by (rule mirrored[OF assms(1)]; unfold mirror_plug mirror.simps; blast intro: red_sibling_left)
  then show ?A ?B by blast+
qed

lemma turn_sibling_right:
  assumes "shaped h s (plug C (Bin (Bin wr w True (Bin b q False a)) p c X))" (is "shaped h s ?t")
  defines "s' \<equiv> rb_left_rotate h w (set_black w False (set_black q True s))"
  shows "shaped h s' (plug C (Bin (Bin (Bin wr w False b) q True a) p c X))" (is ?A)
    and "touched h (set (ptrs ?t)) s s'" (is ?B)
proof -
  have "?A \<and> ?B"
    unfolding s'_def left_rotate_flip flip_fields
    by (rule mirrored[OF assms(1)]; unfold mirror_plug mirror.simps; blast intro: turn_sibling_left)
  then show ?A ?B by blast+
qed

lemma lift_sibling_right:
  assumes "shaped h s (plug C (Bin (Bin (Bin b r d a) w True wl) p c X))" (is "shaped h s ?t")
  defines "s' \<equiv> rb_right_rotate h p (set_black r True (set_black p True (set_black w c s)))"
  shows "shaped h s' (plug C (Bin (Bin b r True a) w c (Bin wl p True X)))" (is ?A)
    and "touched h (set (ptrs ?t)) s s'" (is ?B)
proof -
  have "?A \<and> ?B"
    unfolding s'_def right_rotate_flip flip_fields
    by (rule mirrored[OF assms(1)]; unfold mirror_plug mirror.simps; blast intro: lift_sibling_left)
  then show ?A ?B by blast+
qed

text \<open>The part of a round that starts from a black sibling \<open>w\<close>, on either side.\<close>

definition rest_left :: "ptr \<Rightarrow> ptr \<Rightarrow> ptr \<Rightarrow> ptr \<Rightarrow> 'v rbstore \<Rightarrow> ptr \<times> ptr \<times> 'v rbstore" where
  "rest_left h p w x_parent s =
     (if rb_black s (rb_left s w) \<and> rb_black s (rb_right s w) then (p, rb_parent s p, set_black w False s)
      else
        let (w, s) = (if rb_black s (rb_right s w) then
                        let s = rb_right_rotate h w (set_black w False (set_black (rb_left s w) True s))
                        in (rb_right s p, s)
                      else (w, s));
            s = set_black w (rb_black s p) s;
            s = set_black p True s;
            s = set_black (rb_right s w) True s;
            s = rb_left_rotate h p s
        in (rb_root h s, x_parent, s))"

definition rest_right :: "ptr \<Rightarrow> ptr \<Rightarrow> ptr \<Rightarrow> ptr \<Rightarrow> 'v rbstore \<Rightarrow> ptr \<times> ptr \<times> 'v rbstore" where
  "rest_right h p w x_parent s =
     (if rb_black s (rb_right s w) \<and> rb_black s (rb_left s w) then (p, rb_parent s p, set_black w False s)
      else
        let (w, s) = (if rb_black s (rb_left s w) then
                        let s = rb_left_rotate h w (set_black w False (set_black (rb_right s w) True s))
                        in (rb_left s p, s)
                      else (w, s));
            s = set_black w (rb_black s p) s;
            s = set_black p True s;
            s = set_black (rb_left s w) True s;
            s = rb_right_rotate h p s
        in (rb_root h s, x_parent, s))"

lemma step_left:
  assumes "p = (if x = h then x_parent else rb_parent s x)" "x = rb_left s p"
  shows "rb_erase_fix_step h x x_parent s =
    (if \<not> rb_black s (rb_right s p)
     then let s' = rb_left_rotate h p (set_black p False (set_black (rb_right s p) True s))
          in rest_left h p (rb_right s' p) x_parent s'
     else rest_left h p (rb_right s p) x_parent s)"
  unfolding rb_erase_fix_step_def assms(1)[symmetric] rest_left_def Let_def
  using assms(2) by simp

lemma step_right:
  assumes "p = (if x = h then x_parent else rb_parent s x)" "x \<noteq> rb_left s p"
  shows "rb_erase_fix_step h x x_parent s =
    (if \<not> rb_black s (rb_left s p)
     then let s' = rb_right_rotate h p (set_black p False (set_black (rb_left s p) True s))
          in rest_right h p (rb_left s' p) x_parent s'
     else rest_right h p (rb_left s p) x_parent s)"
  unfolding rb_erase_fix_step_def assms(1)[symmetric] rest_right_def Let_def
  using assms(2) by simp

fun blacken :: "shape \<Rightarrow> shape" where
  "blacken Tip = Tip"
| "blacken (Bin l a c r) = Bin l a True r"

text \<open>The subtree \<open>X\<close> lacks one black node on every path; it may be red at its root below a red node.\<close>

definition lacking :: "frame list \<Rightarrow> shape \<Rightarrow> bool" where
  "lacking E X \<longleftrightarrow> invh X \<and> invc (blacken X) \<and> ctxh E (bh X + 1) \<and> ctxc E True \<and> (E \<noteq> [] \<longrightarrow> fcol (List.last E))"

text \<open>What a round leads to: the root, or a place \<open>n\<close> levels down at most whose colour is \<open>b\<close>; no node is lost or gained.\<close>

definition goes_on :: "ptr \<Rightarrow> 'v rbstore \<Rightarrow> shape \<Rightarrow> nat \<Rightarrow> bool \<Rightarrow> ptr \<times> ptr \<times> 'v rbstore \<Rightarrow> bool" where
  "goes_on h s t n b r \<longleftrightarrow> (\<exists>E X x_parent s'. r = (apex h X, x_parent, s') \<and> X \<noteq> Tip \<and> (E = [] \<or> length E \<le> n \<and> colr X = b)
     \<and> shaped h s' (plug E X) \<and> lacking E X \<and> ptrs (plug E X) = ptrs t \<and> touched h (set (ptrs t)) s s')"

lemma goes_on_trans:
  assumes "touched h (set (ptrs t)) s s'" "ptrs t' = ptrs t" "goes_on h s' t' n b r"
  shows "goes_on h s t n b r"
  using assms touched_trans unfolding goes_on_def by metis

lemma rest_left_final:
  assumes "shaped h s (plug C (Bin X p c (Bin wl w True (Bin a r False b))))" (is "shaped h s ?t")
    "invh (plug C (Bin (Bin X p True wl) w c (Bin a r True b)))"
    "invc (plug C (Bin (Bin X p True wl) w c (Bin a r True b)))"
  shows "goes_on h s ?t n d (rest_left h p w xp s)"
proof -
  let ?s = "rb_left_rotate h p (set_black r True (set_black p True (set_black w c s)))"
  let ?t' = "plug C (Bin (Bin X p True wl) w c (Bin a r True b))"
  note l = lift_sibling_left[OF assms(1)]
  have f: "rb_black s r = False" "rb_right s w = r" "rb_black s p = c" "w \<noteq> p" using assms(1) by (auto simp: shaped_plug)
  have ne: "?t' \<noteq> Tip" by (metis append_is_Nil_conv list.distinct(1) ptrs.simps ptrs_plug)
  have "rest_left h p w xp s = (apex h ?t', xp, ?s)"
    using f l(1) by (simp add: rest_left_def Let_def shaped_def)
  moreover have "lacking [] ?t'" using assms(2,3) by (cases ?t') (auto simp: lacking_def)
  ultimately show ?thesis unfolding goes_on_def
    by (intro exI[of _ "[]"] exI[of _ ?t'] exI[of _ xp] exI[of _ ?s]) (use l ne in simp)
qed

text \<open>The heights and colours around a place that lacks a black node, with its parent \<open>p\<close> and its sibling.\<close>

definition short_below :: "frame list \<Rightarrow> shape \<Rightarrow> bool \<Rightarrow> shape \<Rightarrow> bool" where
  "short_below C X c W \<longleftrightarrow> invh X \<and> invc X \<and> colr X \<and> invh W \<and> invc W \<and> bh W = bh X + 1
     \<and> ctxh C (bh W + of_bool c) \<and> ctxc C c \<and> (C \<noteq> [] \<longrightarrow> fcol (List.last C))"

lemma lacking_up:
  assumes "short_below C X c (Bin wl w True wr)" "colr wl" "colr wr"
  shows "lacking C (Bin X p c (Bin wl w False wr))" "lacking C (Bin (Bin wl w False wr) p c X)"
  using assms by (cases c; auto simp: short_below_def lacking_def intro: ctxc_mono)+

lemma rest_left:
  assumes sh: "shaped h s (plug C (Bin X p c (Bin wl w True wr)))" (is "shaped h s ?t")
    and nil: "rb_black s h" and bal: "short_below C X c (Bin wl w True wr)"
  shows "goes_on h s ?t (length C) c (rest_left h p w xp s)"
proof -
  have f: "rb_left s w = apex h wl" "rb_right s w = apex h wr" "rb_black s (apex h wl) = colr wl"
    "rb_black s (apex h wr) = colr wr" "p \<noteq> h" "w \<noteq> h" "rb_right s p = w" "rb_black s p = c"
    using sh rep_colr[OF _ nil] by (auto simp: shaped_plug)
  consider "colr wl" "colr wr" | "\<not> colr wr" | "\<not> colr wl" "colr wr" by blast
  then show ?thesis
  proof cases
    case 1
    have "shaped h (set_black w False s) (plug (InR X p c # C) (Bin wl w False wr))"
      by (rule paint_node) (use sh in simp)
    moreover have "rest_left h p w xp s = (apex h (Bin X p c (Bin wl w False wr)), rb_parent s p, set_black w False s)"
      using f 1 by (simp add: rest_left_def)
    ultimately show ?thesis unfolding goes_on_def
      by (intro exI[of _ C] exI[of _ "Bin X p c (Bin wl w False wr)"] exI[of _ "rb_parent s p"] exI[of _ "set_black w False s"])
        (use f 1 lacking_up[OF bal] in simp)
  next
    case 2
    then obtain a r b where wr: "wr = Bin a r False b" by (cases wr) auto
    show ?thesis using sh bal unfolding wr
      by (rule_tac rest_left_final) (auto simp: short_below_def invh_plug invc_plug)
  next
    case 3
    then obtain a q b where wl: "wl = Bin a q False b" by (cases wl) auto
    let ?s = "rb_right_rotate h w (set_black w False (set_black q True s))"
    let ?t' = "plug C (Bin X p c (Bin a q True (Bin b w False wr)))"
    note t = turn_sibling_left[OF sh[unfolded wl]]
    have g: "rb_right ?s p = q" "rb_right ?s q = w" "rb_black ?s w = False"
      using t(1) by (auto simp: shaped_plug)
    then have "rest_left h p w xp s = rest_left h p q xp ?s"
      using f 3 by (simp add: rest_left_def[of h p w] rest_left_def[of h p q] wl)
    moreover have "goes_on h ?s ?t' (length C) c (rest_left h p q xp ?s)"
      using bal 3 unfolding wl
      by (intro rest_left_final[OF t(1)]) (auto simp: short_below_def invh_plug invc_plug)
    ultimately show ?thesis using goes_on_trans[OF t(2), of ?t'] by (simp add: wl)
  qed
qed

text \<open>Mirror images are as balanced.\<close>

lemma mirror_invh [simp]: "invh (mirror t) = invh t"
  and mirror_bh: "invh t \<Longrightarrow> bh (mirror t) = bh t"
proof -
  have *: "invh t \<Longrightarrow> invh (mirror t) \<and> bh (mirror t) = bh t" for t by (induction t) auto
  show "invh (mirror t) = invh t" using *[of t] *[of "mirror t"] by auto
  show "invh t \<Longrightarrow> bh (mirror t) = bh t" using * by blast
qed

lemma mirror_colr [simp]: "colr (mirror t) = colr t"
  by (cases t) auto

lemma mirror_invc [simp]: "invc (mirror t) = invc t"
  by (induction t) auto

lemma mirror_blacken: "blacken (mirror t) = mirror (blacken t)"
  by (cases t) auto

lemma mirror_ctxh [simp]: "ctxh (map mirror_frame C) n = ctxh C n"
  by (induction C n rule: ctxh.induct) (auto simp: mirror_bh)

lemma mirror_ctxc [simp]: "ctxc (map mirror_frame C) b = ctxc C b"
  by (induction C b rule: ctxc.induct) auto

lemma mirror_last [simp]: "C \<noteq> [] \<Longrightarrow> fcol (List.last (map mirror_frame C)) = fcol (List.last C)"
proof -
  have "fcol (mirror_frame f) = fcol f" for f by (cases f) auto
  then show "C \<noteq> [] \<Longrightarrow> fcol (List.last (map mirror_frame C)) = fcol (List.last C)" by (simp add: last_map)
qed

lemma lacking_mirror: "lacking E X \<Longrightarrow> lacking (map mirror_frame E) (mirror X)"
  by (auto simp: lacking_def mirror_bh mirror_blacken)

lemma goes_on_mirror:
  assumes "goes_on h (flip s) (mirror t) n b (x, xp, s2)"
  shows "goes_on h s t n b (x, xp, flip s2)"
proof -
  obtain E X where e: "x = apex h X" "X \<noteq> Tip" "E = [] \<or> length E \<le> n \<and> colr X = b" "shaped h s2 (plug E X)" "lacking E X"
    "ptrs (plug E X) = rev (ptrs t)" "touched h (set (ptrs t)) (flip s) s2"
    using assms by (auto simp: goes_on_def)
  have "shaped h (flip s2) (plug (map mirror_frame E) (mirror X))"
    using e(4) shaped_flip[of h s2 "plug E X"] by simp
  moreover have "ptrs (plug (map mirror_frame E) (mirror X)) = ptrs t"
    using e(6) by (metis mirror_plug mirror_ptrs rev_rev_ident)
  moreover have "touched h (set (ptrs t)) s (flip s2)" using e(7) touched_flip[of h _ s "flip s2"] by simp
  ultimately show ?thesis using e(1-3) lacking_mirror[OF e(5)] unfolding goes_on_def
    by (intro exI[of _ "map mirror_frame E"] exI[of _ "mirror X"]) (cases X; auto)
qed

lemma rest_right_flip:
  "rest_right h p w xp s = (case rest_left h p w xp (flip s) of (x, y, s2) \<Rightarrow> (x, y, flip s2))"
  by (simp add: rest_right_def rest_left_def Let_def right_rotate_flip)

lemma rest_right:
  assumes sh: "shaped h s (plug C (Bin (Bin wr w True wl) p c X))" (is "shaped h s ?t")
    and nil: "rb_black s h" and bal: "short_below C X c (Bin wr w True wl)"
  shows "goes_on h s ?t (length C) c (rest_right h p w xp s)"
proof -
  obtain x y s2 where r: "rest_left h p w xp (flip s) = (x, y, s2)" by (metis prod_cases3)
  have "shaped h (flip s) (plug (map mirror_frame C) (Bin (mirror X) p c (Bin (mirror wl) w True (mirror wr))))"
    using sh shaped_flip[of h s ?t] by simp
  moreover have "short_below (map mirror_frame C) (mirror X) c (Bin (mirror wl) w True (mirror wr))"
    using bal by (auto simp: short_below_def mirror_bh)
  ultimately have "goes_on h (flip s) (mirror ?t) (length C) c (x, y, s2)"
    using rest_left[of h "flip s" "map mirror_frame C" "mirror X"] nil r by (metis flip_fields(4) length_map mirror.simps(2) mirror_plug)
  then show ?thesis unfolding rest_right_flip r by (simp add: goes_on_mirror)
qed

section \<open>The loop\<close>

lemma shaped_ptrs_cong: "goes_on h s t n b r \<Longrightarrow> ptrs t' = ptrs t \<Longrightarrow> goes_on h s t' n b r"
  by (simp add: goes_on_def)

lemma short_below_black:
  assumes "lacking (f # C) X" "colr X" "f = InL p c (Bin wl w True wr) \<or> f = InR (Bin wl w True wr) p c"
  shows "short_below C X c (Bin wl w True wr)"
  using assms by (cases X) (auto simp: short_below_def lacking_def split: if_splits)

lemma short_below_red:
  assumes "lacking (f # C) X" "colr X" "f = InL p c (Bin wl w False wr) \<or> f = InR (Bin wl w False wr) p c"
  shows "c" "colr wl" "colr wr" "wl \<noteq> Tip" "wr \<noteq> Tip"
    and "short_below (InL w True wr # C) X False wl" "short_below (InR wl w True # C) X False wr"
  using assms by (cases c; cases X; auto simp: short_below_def lacking_def split: if_splits)+

lemma erase_step_left:
  assumes sh: "shaped h s (plug C (Bin X p c W))" and nil: "rb_black s h"
    and lack: "lacking (InL p c W # C) X" "colr X" and xp: "X = Tip \<Longrightarrow> xp = p"
  shows "\<exists>n b. goes_on h s (plug C (Bin X p c W)) n b (rb_erase_fix_step h (apex h X) xp s) \<and> (n \<le> length C \<or> n \<le> Suc (length C) \<and> \<not> b)"
proof -
  obtain wl w d wr where W: "W = Bin wl w d wr" using lack by (cases W) (auto simp: lacking_def)
  have "rep h s p X" using sh by (auto simp: shaped_plug)
  then have p: "p = (if apex h X = h then xp else rb_parent s (apex h X))"
    using xp apex_nil by (cases X) auto
  have f: "apex h X = rb_left s p" "rb_right s p = w" "rb_black s w = d" using sh W by (auto simp: shaped_plug)
  note step = step_left[OF p f(1), unfolded f(2,3)]
  show ?thesis
  proof (cases d)
    case True
    note sb = short_below_black[OF lack, of p c wl w wr]
    have "goes_on h s (plug C (Bin X p c W)) (length C) c (rb_erase_fix_step h (apex h X) xp s)"
      using rest_left[OF _ nil sb] sh True step W by simp
    then show ?thesis by blast
  next
    case False
    let ?s = "rb_left_rotate h p (set_black p False (set_black w True s))"
    let ?C = "InL w True wr # C"
    note sb = short_below_red[OF lack, of p c wl w wr]
    obtain a v b where wl: "wl = Bin a v True b" using sb(2,4) W False by (cases wl) auto
    have "shaped h s (plug C (Bin X p True (Bin wl w False wr)))" using sh W False sb(1) by simp
    note r = red_sibling_left[OF this]
    have sh2: "shaped h ?s (plug ?C (Bin X p False (Bin a v True b)))" using r(1) wl by simp
    then have "rb_right ?s p = v" by (auto simp: shaped_plug)
    then have st: "rb_erase_fix_step h (apex h X) xp s = rest_left h p v xp ?s" using step False by (simp add: Let_def)
    have "rb_black ?s h" using r(2) nil by (simp add: touched_def)
    with rest_left[OF sh2] sb(6) W False wl
    have "goes_on h ?s (plug ?C (Bin X p False (Bin a v True b))) (length ?C) False (rest_left h p v xp ?s)" by simp
    then have "goes_on h s (plug C (Bin X p True (Bin wl w False wr))) (length ?C) False (rest_left h p v xp ?s)"
      by (rule goes_on_trans[OF r(2), rotated]) (simp add: wl)
    then show ?thesis using st W False sb(1) by auto
  qed
qed

lemma erase_step_right:
  assumes sh: "shaped h s (plug C (Bin W p c X))" and nil: "rb_black s h"
    and lack: "lacking (InR W p c # C) X" "colr X" and xp: "X = Tip \<Longrightarrow> xp = p"
  shows "\<exists>n b. goes_on h s (plug C (Bin W p c X)) n b (rb_erase_fix_step h (apex h X) xp s) \<and> (n \<le> length C \<or> n \<le> Suc (length C) \<and> \<not> b)"
proof -
  obtain wl w d wr where W: "W = Bin wl w d wr" using lack by (cases W) (auto simp: lacking_def)
  have "rep h s p X" using sh by (auto simp: shaped_plug)
  then have p: "p = (if apex h X = h then xp else rb_parent s (apex h X))"
    using xp apex_nil by (cases X) auto
  have f: "rb_left s p = w" "rb_black s w = d" using sh W by (auto simp: shaped_plug)
  have "w \<noteq> h" "w \<notin> set (ptrs X)" using sh W by (auto simp: shaped_plug)
  then have "apex h X \<noteq> rb_left s p" using f(1) apex_neq by metis
  note step = step_right[OF p this, unfolded f]
  show ?thesis
  proof (cases d)
    case True
    note sb = short_below_black[OF lack, of p c wl w wr]
    have "goes_on h s (plug C (Bin W p c X)) (length C) c (rb_erase_fix_step h (apex h X) xp s)"
      using rest_right[OF _ nil sb] sh True step W by simp
    then show ?thesis by blast
  next
    case False
    let ?s = "rb_right_rotate h p (set_black p False (set_black w True s))"
    let ?C = "InR wl w True # C"
    note sb = short_below_red[OF lack, of p c wl w wr]
    obtain a v b where wr: "wr = Bin a v True b" using sb(3,5) W False by (cases wr) auto
    have "shaped h s (plug C (Bin (Bin wl w False wr) p True X))" using sh W False sb(1) by simp
    note r = red_sibling_right[OF this]
    have sh2: "shaped h ?s (plug ?C (Bin (Bin a v True b) p False X))" using r(1) wr by simp
    then have "rb_left ?s p = v" by (auto simp: shaped_plug)
    then have st: "rb_erase_fix_step h (apex h X) xp s = rest_right h p v xp ?s" using step False by (simp add: Let_def)
    have "rb_black ?s h" using r(2) nil by (simp add: touched_def)
    with rest_right[OF sh2] sb(7) W False wr
    have "goes_on h ?s (plug ?C (Bin (Bin a v True b) p False X)) (length ?C) False (rest_right h p v xp ?s)" by simp
    then have "goes_on h s (plug C (Bin (Bin wl w False wr) p True X)) (length ?C) False (rest_right h p v xp ?s)"
      by (rule goes_on_trans[OF r(2), rotated]) (simp add: wr)
    then show ?thesis using st W False sb(1) by auto
  qed
qed

lemma apex_plug: "E \<noteq> [] \<Longrightarrow> apex h (plug E X) \<in> set (before E) \<union> set (behind E)"
proof (induction E X rule: plug.induct)
  case (2 a c r C t)
  then show ?case by (cases "C = []") auto
next
  case (3 l a c C t)
  then show ?case by (cases "C = []") auto
qed simp

text \<open>The loop ends at the root or at a red node.\<close>

lemma erase_loop:
  assumes "shaped h s (plug E X)" "rb_black s h" "lacking E X" "X = Tip \<Longrightarrow> xp = over h E"
  shows "\<exists>E' X' s'. rb_erase_loop h (apex h X) xp s = Some (apex h X', s') \<and> shaped h s' (plug E' X') \<and> lacking E' X'
    \<and> (E' = [] \<or> \<not> colr X') \<and> ptrs (plug E' X') = ptrs (plug E X) \<and> touched h (set (ptrs (plug E X))) s s'"
  using assms
proof (induction "2 * length E + of_bool (colr X)" arbitrary: E X xp s rule: less_induct)
  case less
  note sh = less.prems(1) and nil = less.prems(2) and lack = less.prems(3) and xp = less.prems(4)
  have rp: "rep h s (over h E) X" using sh by (simp add: shaped_plug)
  have root: "rb_root h s = apex h (plug E X)" using sh by (simp add: shaped_def)
  show ?case
  proof (cases "E = [] \<or> \<not> colr X")
    case True
    then have "apex h X = rb_root h s \<or> \<not> rb_black s (apex h X)" using root rep_colr[OF rp nil] by auto
    then have "rb_erase_loop h (apex h X) xp s = Some (apex h X, s)" by (subst rb_erase_loop.simps) auto
    then show ?thesis using sh lack True by (intro exI[of _ E] exI[of _ X] exI[of _ s]) simp
  next
    case False
    then obtain f C where E: "E = f # C" and X: "colr X" by (cases E) auto
    obtain n b where go: "goes_on h s (plug E X) n b (rb_erase_fix_step h (apex h X) xp s)"
      and n: "n \<le> length C \<or> n \<le> Suc (length C) \<and> \<not> b"
    proof (cases f)
      case (InL p c W)
      then show ?thesis using erase_step_left[of h s C X p c W xp] sh nil lack X xp that unfolding E by auto
    next
      case (InR W p c)
      then show ?thesis using erase_step_right[of h s C W p c X xp] sh nil lack X xp that unfolding E by auto
    qed
    obtain E' X' xp' s' where st: "rb_erase_fix_step h (apex h X) xp s = (apex h X', xp', s')" "X' \<noteq> Tip"
      "E' = [] \<or> length E' \<le> n \<and> colr X' = b" "shaped h s' (plug E' X')" "lacking E' X'"
      "ptrs (plug E' X') = ptrs (plug E X)" "touched h (set (ptrs (plug E X))) s s'"
      using go by (auto simp: goes_on_def)
    have "apex h X \<noteq> rb_root h s" "rb_black s (apex h X)"
      using apex_plug[of E h X] sh root rep_colr[OF rp nil] X rep_not_nil[OF rp] apex_in[of X h] False
      by (cases "X = Tip"; auto simp: shaped_plug dest: repc_not_nil)+
    then have loop: "rb_erase_loop h (apex h X) xp s = rb_erase_loop h (apex h X') xp' s'"
      using st(1) by (subst rb_erase_loop.simps) simp
    have "2 * length E' + of_bool (colr X') < 2 * length E + of_bool (colr X)"
      using st(3) n E X by auto
    moreover have "rb_black s' h" using st(7) nil by (simp add: touched_def)
    ultimately obtain E2 X2 s2 where "rb_erase_loop h (apex h X') xp' s' = Some (apex h X2, s2)" "shaped h s2 (plug E2 X2)"
      "lacking E2 X2" "E2 = [] \<or> \<not> colr X2" "ptrs (plug E2 X2) = ptrs (plug E' X')"
      "touched h (set (ptrs (plug E' X'))) s' s2"
      using less.hyps[of E' X' s' xp'] st(2,4,5) by blast
    then show ?thesis using loop st(6,7) touched_trans by metis
  qed
qed

lemma paint_lacking:
  assumes "shaped h s (plug E X)" "lacking E X" "E = [] \<or> \<not> colr X"
  defines "s' \<equiv> (if apex h X \<noteq> h then set_black (apex h X) True s else s)"
  shows "\<exists>t'. shaped h s' t' \<and> balanced t' \<and> ptrs t' = ptrs (plug E X) \<and> touched h (set (ptrs (plug E X))) s s'"
proof (cases X)
  case Tip
  then show ?thesis using assms by (intro exI[of _ Tip]) (auto simp: s'_def balanced_def)
next
  case (Bin l a c r)
  have "a \<noteq> h" using assms(1) Bin by (auto simp: shaped_plug)
  moreover have "shaped h (set_black a True s) (plug E (Bin l a True r))"
    by (rule paint_node) (use assms(1) Bin in simp)
  moreover have "balanced (plug E (Bin l a True r))"
    using assms(2,3) Bin by (auto simp: lacking_def balanced_def invh_plug invc_plug colr_plug)
  ultimately show ?thesis using Bin by (intro exI[of _ "plug E (Bin l a True r)"]) (simp add: s'_def)
qed

lemma erase_fixup:
  assumes "shaped h s (plug E X)" "rb_black s h" "lacking E X" "X = Tip \<Longrightarrow> xp = over h E"
  shows "\<exists>s' t'. rb_erase_fixup h (apex h X) xp s = Some s' \<and> shaped h s' t' \<and> balanced t'
    \<and> ptrs t' = ptrs (plug E X) \<and> touched h (set (ptrs (plug E X))) s s'"
proof -
  obtain E1 X1 s1 where l: "rb_erase_loop h (apex h X) xp s = Some (apex h X1, s1)" "shaped h s1 (plug E1 X1)"
    "lacking E1 X1" "E1 = [] \<or> \<not> colr X1" "ptrs (plug E1 X1) = ptrs (plug E X)" "touched h (set (ptrs (plug E X))) s s1"
    using erase_loop[OF assms] by blast
  let ?s = "if apex h X1 \<noteq> h then set_black (apex h X1) True s1 else s1"
  obtain t' where t': "shaped h ?s t'" "balanced t'" "ptrs t' = ptrs (plug E1 X1)" "touched h (set (ptrs (plug E1 X1))) s1 ?s"
    using paint_lacking[OF l(2-4)] by blast
  then have "touched h (set (ptrs (plug E X))) s ?s" using l(5,6) touched_trans by metis
  then show ?thesis using l t' by (intro exI[of _ ?s] exI[of _ t']) (simp add: rb_erase_fixup_def)
qed

section \<open>Erasing a node\<close>

lemma locate:
  "a \<in> set (ptrs t) \<Longrightarrow> \<exists>C l c r. t = plug C (Bin l a c r)"
proof (induction t)
  case (Bin l b c r)
  consider "a = b" | "a \<in> set (ptrs l)" | "a \<in> set (ptrs r)" using Bin.prems by auto
  then show ?case
  proof cases
    case 1
    then show ?thesis by (intro exI[of _ "[]"]) auto
  next
    case 2
    then obtain C l' c' r' where "l = plug C (Bin l' a c' r')" using Bin.IH(1) by blast
    then have "Bin l b c r = plug (C @ [InL b c r]) (Bin l' a c' r')" by (simp add: plug_append)
    then show ?thesis by blast
  next
    case 3
    then obtain C l' c' r' where "r = plug C (Bin l' a c' r')" using Bin.IH(2) by blast
    then have "Bin l b c r = plug (C @ [InR l b c]) (Bin l' a c' r')" by (simp add: plug_append)
    then show ?thesis by blast
  qed
qed simp

lemma unlink:
  assumes "shaped h s (plug C (Bin L z c R))" "balanced (plug C (Bin L z c R))"
  shows "\<exists>E X b s'. rb_unlink h z s = Some (apex h X, over h E, b, s') \<and> shaped h s' (plug E X) \<and> short_at E X b
    \<and> ptrs (plug E X) = before C @ ptrs L @ ptrs R @ behind C \<and> touched h (set (ptrs (plug C (Bin L z c R)))) s s'"
  using unlink_single[OF assms(1) _ assms(2)] unlink_double[OF assms(1) _ _ assms(2)] by blast

lemma short_at_cases:
  assumes "short_at E X b"
  shows "b \<Longrightarrow> lacking E X" "\<not> b \<Longrightarrow> balanced (plug E X)"
  using assms by (cases X; auto simp: short_at_def lacking_def balanced_def invh_plug invc_plug colr_plug intro: ctxc_mono)+

lemma append_Cons_eq:
  assumes "distinct (A @ a # B)" "A @ a # B = A' @ a # B'"
  shows "A' = A" "B' = B"
proof -
  have "a \<notin> set A" "a \<notin> set B" using assms(1) by auto
  then show "A' = A" "B' = B" using append_Cons_eq_iff[of a A B A' B'] assms(2) by simp_all
qed

lemma rb_erase_node:
  assumes ok: "tree_ok h s t" and pt: "ptrs t = A @ z # B"
  shows "\<exists>s' t'. rb_erase_node h z s = Some s' \<and> tree_ok h s' t' \<and> ptrs t' = A @ B
    \<and> rb_value s' = rb_value s \<and> rb_live s' = (rb_live s)(z := False) \<and> rb_fresh s' = rb_fresh s
    \<and> within h (set (ptrs t)) s s'"
proof -
  obtain C L c R where t: "t = plug C (Bin L z c R)" using locate[of z t] pt by auto
  have sh: "shaped h s (plug C (Bin L z c R))" and bal: "balanced (plug C (Bin L z c R))" and nil: "rb_black s h"
    using ok t by (auto simp: tree_ok_def)
  have di: "distinct (ptrs t)" and hz: "z \<noteq> h" using sh t by (auto simp: shaped_plug)
  have AB: "A = before C @ ptrs L" "B = ptrs R @ behind C"
    using append_Cons_eq[of A z B "before C @ ptrs L" "ptrs R @ behind C"] di pt t by auto
  obtain E X b s1 where u: "rb_unlink h z s = Some (apex h X, over h E, b, s1)" "shaped h s1 (plug E X)" "short_at E X b"
    "ptrs (plug E X) = A @ B" "touched h (set (ptrs t)) s s1"
    using unlink[OF sh bal] t AB by auto
  have sub: "set (A @ B) \<subseteq> set (ptrs t)" using pt by auto
  have nil1: "rb_black s1 h" using u(5) nil by (simp add: touched_def)
  obtain s2 t' where f: "(if b then rb_erase_fixup h (apex h X) (over h E) s1 else Some s1) = Some s2"
    "shaped h s2 t'" "balanced t'" "ptrs t' = A @ B" "touched h (set (ptrs t)) s1 s2"
  proof (cases b)
    case True
    obtain s2 t' where "rb_erase_fixup h (apex h X) (over h E) s1 = Some s2" "shaped h s2 t'" "balanced t'"
      "ptrs t' = ptrs (plug E X)" "touched h (set (ptrs (plug E X))) s1 s2"
      using erase_fixup[OF u(2) nil1 short_at_cases(1)[OF u(3) True] refl] by blast
    then show ?thesis using that True u(4) sub touched_mono by metis
  next
    case False
    then show ?thesis using that[of s1 "plug E X"] u(2,4) short_at_cases(2)[OF u(3)] by simp
  qed
  define s3 where "s3 = set_size h (rb_size s2 h - 1) (rb_destroy_node h z s2)"
  have "shaped h s3 t' = shaped h s2 t'"
    unfolding s3_def by (simp add: rb_destroy_node_def shaped_def) (intro impI conj_cong refl rep_cong; simp)
  with update_extremes[of h s3 t'] f(2) obtain s4 where
    x: "rb_update_extremes h s3 = Some s4" "shaped h s4 t'" "extremes h s4 t'" "touched h {} s3 s4" by auto
  have t02: "touched h (set (ptrs t)) s s2" using u(5) f(5) by (rule touched_trans)
  have same: "rb_value s4 = rb_value s" "rb_live s4 = (rb_live s)(z := False)" "rb_fresh s4 = rb_fresh s"
    "rb_black s4 h" "rb_size s4 h = rb_size s h - 1"
    using t02 x(4) hz nil by (simp_all add: touched_def s3_def rb_destroy_node_def set_size_def)
  have "within h (set (ptrs t)) s s4"
  proof -
    have "within h (set (ptrs t)) s s2" using t02 by (rule touched_within)
    moreover have "within h (set (ptrs t)) s2 s3" using pt by (simp add: within_def s3_def rb_destroy_node_def set_size_def)
    moreover have "within h (set (ptrs t)) s3 s4" using x(4) touched_mono touched_within by blast
    ultimately show ?thesis using within_trans by blast
  qed
  moreover have "rb_erase_node h z s = Some s4"
    using u(1) f(1) x(1) hz by (simp add: rb_erase_node_def s3_def rb_destroy_node_def Let_def)
  moreover have "tree_ok h s4 t'"
    using ok x(2,3) f(3,4) same pt di by (auto simp: tree_ok_def)
  ultimately show ?thesis using f(4) same(1-3) by blast
qed

end
