(* ===== verification/RBTreeOps.thy ===== *)
theory RBTreeOps
  imports RBErase
begin

text \<open>
  The operations of a red-black tree on its elements in order: searching, iterating, erasing ranges, clearing,
  copying, moving and swapping. A tree of the store stands for the list of its elements, sorted by the comparator and free of
  equivalent ones, and every operation does on that list what a sorted set does.
\<close>

section \<open>Searching\<close>

lemma search_descend:
  "rep h s p t \<Longrightarrow> rb_search h lt val s (apex h t) = map_option snd (rb_descend h lt val s y (apex h t))"
proof (induction t arbitrary: p y)
  case Tip
  show ?case by (simp add: rb_search.simps rb_descend.simps)
next
  case (Bin l a c r)
  then show ?case by (subst rb_search.simps, subst rb_descend.simps) auto
qed

context strict_weak
begin

lemma equiv_refl [simp]: "equiv a a"
  by (simp add: equiv_def lt_irrefl)

lemma equiv_sym: "equiv a b \<Longrightarrow> equiv b a"
  by (simp add: equiv_def)

lemma equiv_trans: "equiv a b \<Longrightarrow> equiv b c \<Longrightarrow> equiv a c"
  using not_lt_trans by (auto simp: equiv_def)

lemma equiv_lt: "equiv a b \<Longrightarrow> lt a c = lt b c" "equiv a b \<Longrightarrow> lt c a = lt c b"
  using not_lt_trans lt_trans unfolding equiv_def by blast+

lemma ordered_distinct:
  assumes "ordered (xs @ x # ys)" "y \<in> set xs \<union> set ys"
  shows "\<not> equiv x y"
  using assms by (auto simp: ordered_def sorted_wrt_append equiv_def)

text \<open>Insertion into and removal from a sorted list without equivalent elements.\<close>

definition ins :: "'a \<Rightarrow> 'a list \<Rightarrow> 'a list" where
  "ins val xs = (if \<exists>x\<in>set xs. equiv val x then xs else filter (\<lambda>x. lt x val) xs @ val # filter (\<lambda>x. lt val x) xs)"

definition del :: "'a \<Rightarrow> 'a list \<Rightarrow> 'a list" where
  "del val xs = filter (\<lambda>x. \<not> equiv val x) xs"

lemma ins_between:
  assumes "\<forall>a\<in>set xs. lt a val" "\<forall>b\<in>set ys. lt val b"
  shows "ins val (xs @ ys) = xs @ val # ys"
proof -
  have "\<not> (\<exists>x\<in>set (xs @ ys). equiv val x)" using assms by (auto simp: equiv_def)
  moreover have "filter (\<lambda>x. lt x val) xs = xs" "filter (\<lambda>x. lt val x) ys = ys"
    "filter (\<lambda>x. lt x val) ys = []" "filter (\<lambda>x. lt val x) xs = []"
    using assms lt_asym by (auto simp: filter_empty_conv)
  ultimately show ?thesis by (simp add: ins_def)
qed

lemma ordered_ins: "ordered xs \<Longrightarrow> ordered (ins val xs)"
  unfolding ins_def ordered_def
  by (auto simp: sorted_wrt_append intro: sorted_wrt_filter lt_trans)

lemma ordered_del: "ordered xs \<Longrightarrow> ordered (del val xs)"
  unfolding del_def ordered_def by (rule sorted_wrt_filter)

lemma del_between:
  assumes "ordered (xs @ x # ys)" "equiv val x"
  shows "del val (xs @ x # ys) = xs @ ys"
proof -
  have "\<not> equiv val y" if "y \<in> set xs \<union> set ys" for y
    using ordered_distinct[OF assms(1) that] assms(2) equiv_sym equiv_trans by blast
  then have "filter (\<lambda>y. \<not> equiv val y) xs = xs" "filter (\<lambda>y. \<not> equiv val y) ys = ys" by (auto simp: filter_id_conv)
  then show ?thesis using assms(2) by (simp add: del_def)
qed

lemma del_none: "\<forall>x\<in>set xs. \<not> equiv val x \<Longrightarrow> del val xs = xs"
  by (simp add: del_def filter_id_conv)

lemma search_cases:
  assumes "tree_ok h s t" "ordered (contents s t)"
  obtains (found) A a B where "ptrs t = A @ a # B" "equiv val (rb_value s a)" "a \<noteq> h"
      "rb_search h lt val s (rb_root h s) = Some a"
  | (none) "\<forall>a\<in>set (ptrs t). \<not> equiv val (rb_value s a)" "rb_search h lt val s (rb_root h s) = Some h"
proof -
  have sh: "shaped h s (plug [] t)" and rt: "rb_root h s = apex h t" using assms(1) by (auto simp: tree_ok_def shaped_def)
  have se: "rb_search h lt val s (apex h t) = map_option snd (rb_descend h lt val s h (apex h t))"
    using sh by (intro search_descend[of h s h]) (simp add: shaped_def)
  from descend[OF sh, of val] assms(2) consider
    (new) D where "t = plug D Tip" "here val s D" "rb_descend h lt val s h (apex h t) = Some (over h D, h)"
  | (old) D l a c r where "t = plug D (Bin l a c r)" "equiv val (rb_value s a)" "rb_descend h lt val s h (apex h t) = Some (a, a)"
    by (auto simp: here_def)
  then show ?thesis
  proof cases
    case old
    then have "a \<noteq> h" using sh by (auto simp: shaped_plug)
    then show ?thesis using that(1)[of "before D @ ptrs l" a "ptrs r @ behind D"] old se rt by simp
  next
    case new
    then have "\<forall>a\<in>set (ptrs t). \<not> equiv val (rb_value s a)" by (auto simp: here_def equiv_def)
    then show ?thesis using that(2) new se rt by simp
  qed
qed

lemma lower_loop:
  assumes "rep h s p t" "ordered (contents s t)"
  shows "rb_lower_loop h lt val s (apex h t) best = Some (hd (filter (\<lambda>a. \<not> lt (rb_value s a) val) (ptrs t) @ [best]))"
  using assms
proof (induction t arbitrary: p best)
  case Tip
  show ?case by (simp add: rb_lower_loop.simps)
next
  case (Bin l a c r)
  have o: "ordered (contents s l)" "ordered (contents s r)" "\<forall>b\<in>set (ptrs l). lt (rb_value s b) (rb_value s a)"
    using Bin.prems(2) by (auto simp: ordered_def contents_def sorted_wrt_append)
  show ?case
  proof (cases "lt (rb_value s a) val")
    case True
    then have "filter (\<lambda>b. \<not> lt (rb_value s b) val) (ptrs l) = []" using o(3) lt_trans by (auto simp: filter_empty_conv)
    then show ?thesis using Bin.IH(2)[of a best] Bin.prems(1) o True by (subst rb_lower_loop.simps) simp
  next
    case False
    then show ?thesis using Bin.IH(1)[of a a] Bin.prems(1) o
      by (subst rb_lower_loop.simps) (simp add: hd_append)
  qed
qed

lemma upper_loop:
  assumes "rep h s p t" "ordered (contents s t)"
  shows "rb_upper_loop h lt val s (apex h t) best = Some (hd (filter (\<lambda>a. lt val (rb_value s a)) (ptrs t) @ [best]))"
  using assms
proof (induction t arbitrary: p best)
  case Tip
  show ?case by (simp add: rb_upper_loop.simps)
next
  case (Bin l a c r)
  have o: "ordered (contents s l)" "ordered (contents s r)" "\<forall>b\<in>set (ptrs l). lt (rb_value s b) (rb_value s a)"
    using Bin.prems(2) by (auto simp: ordered_def contents_def sorted_wrt_append)
  show ?case
  proof (cases "lt val (rb_value s a)")
    case False
    then have "filter (\<lambda>b. lt val (rb_value s b)) (ptrs l) = []" using o(3) lt_trans by (fastforce simp: filter_empty_conv)
    then show ?thesis using Bin.IH(2)[of a best] Bin.prems(1) o False by (subst rb_upper_loop.simps) simp
  next
    case True
    then show ?thesis using Bin.IH(1)[of a a] Bin.prems(1) o
      by (subst rb_upper_loop.simps) (simp add: hd_append)
  qed
qed

end

section \<open>Iterating\<close>

lemma apex_apart:
  assumes "t \<noteq> Tip" "rep h s p t" "set (ptrs t) \<inter> set (ptrs u) = {}"
  shows "apex h t \<noteq> apex h u"
proof -
  have "apex h t \<noteq> h" "apex h t \<notin> set (ptrs u)" using assms apex_nil apex_in[OF assms(1), of h] by blast+
  then show ?thesis using apex_neq by metis
qed

lemma climb_right:
  assumes "shaped h s (plug C t)" "t \<noteq> Tip"
  shows "rb_climb_right h s (apex h t) (over h C) = Some (hd (behind C @ [h]))"
  using assms
proof (induction C arbitrary: t rule: before.induct)
  case 1
  show ?case by (simp add: rb_climb_right.simps)
next
  case (2 a c r C)
  have "apex h t \<noteq> apex h r" by (rule apex_apart[of t h s a]) (use 2(2,3) in \<open>auto simp: shaped_plug\<close>)
  then show ?case using 2(2) by (subst rb_climb_right.simps) (auto simp: shaped_plug)
next
  case (3 l a c C)
  have "rb_climb_right h s (apex h t) a = rb_climb_right h s (apex h (Bin l a c t)) (over h C)"
    using 3(2) by (subst rb_climb_right.simps) (auto simp: shaped_plug)
  then show ?case using 3(1)[of "Bin l a c t"] 3(2) by simp
qed

lemma climb_left:
  assumes "shaped h s (plug C t)" "t \<noteq> Tip"
  shows "rb_climb_left h s (apex h t) (over h C) = Some (List.last (h # before C))"
  using assms
proof (induction C arbitrary: t rule: before.induct)
  case 1
  show ?case by (simp add: rb_climb_left.simps)
next
  case (3 l a c C)
  have "apex h t \<noteq> apex h l" by (rule apex_apart[of t h s a]) (use 3(2,3) in \<open>auto simp: shaped_plug\<close>)
  then show ?case using 3(2) by (subst rb_climb_left.simps) (auto simp: shaped_plug)
next
  case (2 a c r C)
  have "rb_climb_left h s (apex h t) a = rb_climb_left h s (apex h (Bin t a c r)) (over h C)"
    using 2(2) by (subst rb_climb_left.simps) (auto simp: shaped_plug)
  then show ?case using 2(1)[of "Bin t a c r"] 2(2) by simp
qed

lemma increment:
  assumes "shaped h s t" "ptrs t = A @ a # B"
  shows "rb_increment h s a = Some (hd (B @ [h]))" "rb_successor h s a = Some (hd (B @ [h]))"
proof -
  obtain C l c r where t: "t = plug C (Bin l a c r)" using locate[of a t] assms(2) by auto
  have sh: "shaped h s (plug C (Bin l a c r))" using assms(1) t by simp
  have di: "distinct (A @ a # B)" using assms unfolding shaped_def by metis
  have B: "B = ptrs r @ behind C"
    using append_Cons_eq(2)[OF di, of "before C @ ptrs l" "ptrs r @ behind C"] assms(2) t by simp
  have f: "a \<noteq> h" "rb_right s a = apex h r" "rb_parent s a = over h C" "rep h s a r" using sh by (auto simp: shaped_plug)
  have "rb_increment h s a = Some (hd (B @ [h])) \<and> rb_successor h s a = Some (hd (B @ [h]))"
  proof (cases "r = Tip")
    case True
    then show ?thesis using f climb_right[OF sh] B by (simp add: rb_increment_def rb_successor_def)
  next
    case False
    then show ?thesis using f leftmost[OF f(4) False] apex_nil[OF f(4)] B
      by (simp add: rb_increment_def rb_successor_def rb_minimum_def hd_append)
  qed
  then show "rb_increment h s a = Some (hd (B @ [h]))" "rb_successor h s a = Some (hd (B @ [h]))" by blast+
qed

lemma decrement:
  assumes "shaped h s t" "ptrs t = A @ a # B"
  shows "rb_decrement h s a = Some (List.last (h # A))"
proof -
  obtain C l c r where t: "t = plug C (Bin l a c r)" using locate[of a t] assms(2) by auto
  have sh: "shaped h s (plug C (Bin l a c r))" using assms(1) t by simp
  have di: "distinct (A @ a # B)" using assms unfolding shaped_def by metis
  have A: "A = before C @ ptrs l"
    using append_Cons_eq(1)[OF di, of "before C @ ptrs l" "ptrs r @ behind C"] assms(2) t by simp
  have f: "a \<noteq> h" "rb_left s a = apex h l" "rb_parent s a = over h C" "rep h s a l" using sh by (auto simp: shaped_plug)
  show ?thesis
  proof (cases "l = Tip")
    case True
    then show ?thesis using f climb_left[OF sh] A by (simp add: rb_decrement_def)
  next
    case False
    then show ?thesis using f rightmost[OF f(4) False] apex_nil[OF f(4)] A
      by (simp add: rb_decrement_def last_append)
  qed
qed

lemma decrement_end:
  assumes "shaped h s t"
  shows "rb_decrement h s h = Some (List.last (h # ptrs t))"
proof (cases "t = Tip")
  case True
  then show ?thesis using assms by (simp add: rb_decrement_def shaped_def)
next
  case False
  have "rep h s h t" "rb_root h s = apex h t" using assms by (auto simp: shaped_def)
  then show ?thesis using False rightmost[of h s h t] apex_nil[of h s h t] by (simp add: rb_decrement_def Let_def)
qed

text \<open>Going from an iterator to another and collecting what it points to.\<close>

partial_function (option) rb_walk :: "ptr \<Rightarrow> 'v rbstore \<Rightarrow> ptr \<Rightarrow> ptr \<Rightarrow> 'v list option" where
  "rb_walk h s it stop =
     (if it = stop then Some []
      else Option.bind (rb_increment h s it) (\<lambda>it'. Option.bind (rb_walk h s it' stop) (\<lambda>vs. Some (rb_value s it # vs))))"

partial_function (option) rb_walk_back :: "ptr \<Rightarrow> 'v rbstore \<Rightarrow> ptr \<Rightarrow> ptr \<Rightarrow> 'v list option" where
  "rb_walk_back h s it stop =
     (if it = stop then Some []
      else Option.bind (rb_decrement h s it) (\<lambda>it'. Option.bind (rb_walk_back h s it' stop) (\<lambda>vs. Some (rb_value s it' # vs))))"

lemma walk:
  assumes "shaped h s t" "ptrs t = A @ M @ B"
  shows "rb_walk h s (hd (M @ B @ [h])) (hd (B @ [h])) = Some (map (rb_value s) M)"
  using assms(2)
proof (induction M arbitrary: A)
  case Nil
  show ?case by (subst rb_walk.simps) simp
next
  case (Cons a M)
  have "a \<noteq> hd (B @ [h])"
    using assms(1) Cons.prems shaped_not_nil[OF assms(1)] by (cases B) (auto simp: shaped_def)
  moreover have "rb_increment h s a = Some (hd (M @ B @ [h]))"
    using increment(1)[OF assms(1), of A a "M @ B"] Cons.prems by simp
  ultimately show ?case using Cons.IH[of "A @ [a]"] Cons.prems by (subst rb_walk.simps) simp
qed

lemma walk_all:
  assumes "tree_ok h s t"
  shows "rb_walk h s (rb_begin h s) (rb_end h s) = Some (contents s t)"
  using walk[of h s t "[]" "ptrs t" "[]"] assms by (simp add: tree_ok_def extremes_def rb_begin_def rb_end_def contents_def)

lemma walk_back:
  assumes "shaped h s t" "ptrs t = A @ M @ B" "A @ M \<noteq> []"
  shows "rb_walk_back h s (hd (B @ [h])) (hd (M @ B @ [h])) = Some (map (rb_value s) (rev M))"
  using assms(2,3)
proof (induction M arbitrary: B rule: rev_induct)
  case Nil
  show ?case by (subst rb_walk_back.simps) simp
next
  case (snoc a M)
  have di: "distinct (ptrs t)" "h \<notin> set (ptrs t)" using assms(1) shaped_not_nil by (auto simp: shaped_def)
  have "hd (B @ [h]) \<noteq> hd ((M @ [a]) @ B @ [h])"
    using di snoc.prems by (cases M; cases B) auto
  moreover have "rb_decrement h s (hd (B @ [h])) = Some a"
  proof (cases B)
    case Nil
    then show ?thesis using decrement_end[OF assms(1)] snoc.prems by simp
  next
    case (Cons b B')
    then show ?thesis using decrement[OF assms(1), of "A @ M @ [a]" b B'] snoc.prems by simp
  qed
  moreover have "rb_walk_back h s a (hd (M @ a # B @ [h])) = Some (map (rb_value s) (rev M))"
    using snoc.IH[of "a # B"] snoc.prems by (cases "A @ M = []") (auto simp: rb_walk_back.simps)
  ultimately show ?case by (subst rb_walk_back.simps) simp
qed

lemma walk_back_all:
  assumes "tree_ok h s t"
  shows "rb_walk_back h s (rb_end h s) (rb_begin h s) = Some (rev (contents s t))"
proof (cases "t = Tip")
  case True
  then show ?thesis using assms
    by (simp add: tree_ok_def extremes_def rb_begin_def rb_end_def contents_def rb_walk_back.simps)
next
  case False
  then show ?thesis using walk_back[of h s t "[]" "ptrs t" "[]"] assms
    by (simp add: tree_ok_def extremes_def rb_begin_def rb_end_def contents_def rev_map)
qed

section \<open>Inserting and erasing by value, by iterator and by range\<close>

lemma find_append: "List.find P (xs @ ys) = (case List.find P xs of None \<Rightarrow> List.find P ys | Some x \<Rightarrow> Some x)"
  by (induction xs) auto

lemma contents_cong:
  "\<forall>a\<in>set (ptrs t). rb_value s' a = rb_value s a \<Longrightarrow> contents s' t = contents s t"
  by (simp add: contents_def)

lemma fresh_not_in: "tree_ok h s t \<Longrightarrow> rb_fresh s \<notin> set (ptrs t)"
  by (auto simp: tree_ok_def)

text \<open>Live nodes outside \<open>A\<close>, to see that no node is lost.\<close>

definition strays :: "'v rbstore \<Rightarrow> ptr set \<Rightarrow> ptr set" where
  "strays s A = {a. a < rb_fresh s \<and> rb_live s a \<and> a \<notin> A}"

text \<open>
  What an operation on the tree \<open>h\<close> does to the store: the tree is in order again, only its own nodes and newly allocated
  ones have changed, and it owns the live ones among them.
\<close>

definition evolves :: "ptr \<Rightarrow> 'v rbstore \<Rightarrow> shape \<Rightarrow> 'v rbstore \<Rightarrow> shape \<Rightarrow> bool" where
  "evolves h s t s' t' \<longleftrightarrow> tree_ok h s' t' \<and> within h (set (ptrs t) \<union> {rb_fresh s..}) s s'
     \<and> set (ptrs t') \<subseteq> set (ptrs t) \<union> {rb_fresh s..} \<and> strays s' (set (ptrs t')) = strays s (set (ptrs t))"

lemma evolves_ok: "evolves h s t s' t' \<Longrightarrow> tree_ok h s' t'"
  by (simp add: evolves_def)

lemma evolves_refl: "tree_ok h s t \<Longrightarrow> evolves h s t s t"
  by (simp add: evolves_def)

lemma evolves_trans:
  assumes "evolves h s t s1 t1" "evolves h s1 t1 s2 t2"
  shows "evolves h s t s2 t2"
proof -
  have "rb_fresh s \<le> rb_fresh s1" using assms(1) by (simp add: evolves_def within_def)
  then have sub: "set (ptrs t1) \<union> {rb_fresh s1..} \<subseteq> set (ptrs t) \<union> {rb_fresh s..}"
    using assms(1) by (auto simp: evolves_def)
  then have "within h (set (ptrs t) \<union> {rb_fresh s..}) s1 s2"
    using assms(2) within_mono unfolding evolves_def by blast
  then have "within h (set (ptrs t) \<union> {rb_fresh s..}) s s2"
    using assms(1) within_trans unfolding evolves_def by blast
  moreover have "set (ptrs t2) \<subseteq> set (ptrs t) \<union> {rb_fresh s..}"
    using assms(2) sub unfolding evolves_def by blast
  ultimately show ?thesis using assms by (simp add: evolves_def)
qed

lemma erase_evolves:
  assumes "tree_ok h s t" "ptrs t = A @ a # B"
  shows "\<exists>s' t'. rb_erase_node h a s = Some s' \<and> evolves h s t s' t' \<and> ptrs t' = A @ B \<and> rb_value s' = rb_value s"
proof -
  obtain s' t' where e: "rb_erase_node h a s = Some s'" "tree_ok h s' t'" "ptrs t' = A @ B" "rb_value s' = rb_value s"
    "rb_live s' = (rb_live s)(a := False)" "rb_fresh s' = rb_fresh s" "within h (set (ptrs t)) s s'"
    using rb_erase_node[OF assms] by blast
  have "a \<notin> set A" "a \<notin> set B" using assms by (auto simp: tree_ok_def shaped_def)
  then have "strays s' (set (ptrs t')) = strays s (set (ptrs t))" using assms(2) e(3,5,6) by (auto simp: strays_def)
  moreover have "within h (set (ptrs t) \<union> {rb_fresh s..}) s s'" by (rule within_mono[OF e(7)]) simp
  ultimately show ?thesis using e assms(2) by (intro exI[of _ s'] exI[of _ t']) (auto simp: evolves_def)
qed

lemma erase_range:
  assumes "tree_ok h s t" "ptrs t = A @ M @ B"
  shows "\<exists>s' t'. rb_erase_range h (hd (M @ B @ [h])) (hd (B @ [h])) s = Some (hd (B @ [h]), s') \<and> evolves h s t s' t'
    \<and> ptrs t' = A @ B \<and> rb_value s' = rb_value s"
  using assms
proof (induction M arbitrary: s t)
  case Nil
  then show ?case using evolves_refl by (intro exI[of _ s] exI[of _ t]) (simp add: rb_erase_range.simps)
next
  case (Cons a M)
  have sh: "shaped h s t" using Cons.prems(1) by (simp add: tree_ok_def)
  have a: "a \<noteq> h" "a \<noteq> hd (B @ [h])"
    using sh shaped_not_nil[OF sh] Cons.prems(2) by (cases B; auto simp: shaped_def)+
  have pt: "ptrs t = A @ a # (M @ B)" using Cons.prems(2) by simp
  obtain s1 t1 where e: "rb_erase_node h a s = Some s1" "evolves h s t s1 t1" "ptrs t1 = A @ M @ B" "rb_value s1 = rb_value s"
    using erase_evolves[OF Cons.prems(1) pt] by blast
  have "rb_erase_at h a s = Some (hd (M @ B @ [h]), s1)"
    using increment(2)[OF sh pt] a e(1) by (simp add: rb_erase_at_def)
  then have "rb_erase_range h a (hd (B @ [h])) s = rb_erase_range h (hd (M @ B @ [h])) (hd (B @ [h])) s1"
    using a(2) by (subst rb_erase_range.simps) simp
  moreover obtain s' t' where "rb_erase_range h (hd (M @ B @ [h])) (hd (B @ [h])) s1 = Some (hd (B @ [h]), s')"
    "evolves h s1 t1 s' t'" "ptrs t' = A @ B" "rb_value s' = rb_value s1"
    using Cons.IH[OF evolves_ok[OF e(2)] e(3)] by blast
  ultimately show ?case using e(2,4) evolves_trans by (intro exI[of _ s'] exI[of _ t']) auto
qed

context strict_weak
begin

lemma insert_ins:
  assumes "tree_ok h s t" "ordered (contents s t)"
  shows "\<exists>a b s' t'. rb_insert h lt val s = Some (a, b, s') \<and> evolves h s t s' t' \<and> contents s' t' = ins val (contents s t)
    \<and> b = (\<forall>x\<in>set (contents s t). \<not> equiv val x) \<and> equiv val (rb_value s' a) \<and> a \<in> set (ptrs t')"
  using assms
proof (rule rb_insert_cases[where val = val])
  fix a assume "a \<in> set (ptrs t)" "equiv val (rb_value s a)" "rb_insert h lt val s = Some (a, False, s)"
  moreover from this have "ins val (contents s t) = contents s t" by (auto simp: ins_def contents_def)
  ultimately show ?thesis using evolves_refl[OF assms(1)]
    by (intro exI[of _ a] exI[of _ False] exI[of _ s] exI[of _ t]) (auto simp: contents_def)
next
  fix s' t' A B
  assume n: "rb_insert h lt val s = Some (rb_fresh s, True, s')" "tree_ok h s' t'" "ptrs t = A @ B"
    "ptrs t' = A @ rb_fresh s # B" "\<forall>a\<in>set A. lt (rb_value s a) val" "\<forall>a\<in>set B. lt val (rb_value s a)"
    "rb_value s' = (rb_value s)(rb_fresh s := val)" "rb_live s' = (rb_live s)(rb_fresh s := True)" "within h (set (ptrs t')) s s'" "rb_fresh s' = rb_fresh s + 1"
  have fr: "rb_fresh s \<notin> set A" "rb_fresh s \<notin> set B" using fresh_not_in[OF assms(1)] n(3) by auto
  have "ins val (contents s t) = map (rb_value s) A @ val # map (rb_value s) B"
    using ins_between[of "map (rb_value s) A" val "map (rb_value s) B"] n(3,5,6) by (simp add: contents_def)
  moreover have "contents s' t' = map (rb_value s) A @ val # map (rb_value s) B"
    using n(4,7) fr by (simp add: contents_def)
  moreover have "\<forall>x\<in>set (contents s t). \<not> equiv val x" using n(3,5,6) by (auto simp: contents_def equiv_def)
  moreover have "evolves h s t s' t'"
  proof -
    have "strays s' (set (ptrs t')) = strays s (set (ptrs t))"
      using n(3,4,8,10) by (auto simp: strays_def less_Suc_eq)
    moreover have "within h (set (ptrs t) \<union> {rb_fresh s..}) s s'" by (rule within_mono[OF n(9)]) (use n(3,4) in auto)
    ultimately show ?thesis using n(2-4) by (auto simp: evolves_def)
  qed
  ultimately show ?thesis using n(1,2,3,4,7)
    by (intro exI[of _ "rb_fresh s"] exI[of _ True] exI[of _ s'] exI[of _ t']) auto
qed

lemma erase_value_del:
  assumes "tree_ok h s t" "ordered (contents s t)"
  shows "\<exists>s' t'. rb_erase_value h lt val s = Some (if \<exists>x\<in>set (contents s t). equiv val x then 1 else 0, s')
    \<and> evolves h s t s' t' \<and> contents s' t' = del val (contents s t)"
  using assms
proof (rule search_cases[where val = val])
  assume n: "\<forall>a\<in>set (ptrs t). \<not> equiv val (rb_value s a)" "rb_search h lt val s (rb_root h s) = Some h"
  then have "del val (contents s t) = contents s t" by (intro del_none) (auto simp: contents_def)
  then show ?thesis using n evolves_refl[OF assms(1)]
    by (intro exI[of _ s] exI[of _ t]) (auto simp: rb_erase_value_def rb_find_node_def contents_def)
next
  fix A a B
  assume f: "ptrs t = A @ a # B" "equiv val (rb_value s a)" "a \<noteq> h" "rb_search h lt val s (rb_root h s) = Some a"
  obtain s' t' where e: "rb_erase_node h a s = Some s'" "evolves h s t s' t'" "ptrs t' = A @ B" "rb_value s' = rb_value s"
    using erase_evolves[OF assms(1) f(1)] by blast
  have "del val (contents s t) = contents s' t'"
    using del_between[of "map (rb_value s) A" "rb_value s a" "map (rb_value s) B" val] assms(2) f(1,2) e(3,4)
    by (simp add: contents_def)
  then show ?thesis using e f
    by (intro exI[of _ s'] exI[of _ t']) (auto simp: rb_erase_value_def rb_find_node_def contents_def)
qed

lemma find_cases:
  assumes "tree_ok h s t" "ordered (contents s t)"
  obtains (found) A a B where "ptrs t = A @ a # B" "equiv val (rb_value s a)" "rb_find h lt val s = Some a"
      "List.find (equiv val) (contents s t) = Some (rb_value s a)" "a \<noteq> h"
  | (none) "List.find (equiv val) (contents s t) = None" "rb_find h lt val s = Some h"
  using assms
proof (rule search_cases[where val = val])
  fix A a B
  assume f: "ptrs t = A @ a # B" "equiv val (rb_value s a)" "rb_search h lt val s (rb_root h s) = Some a" "a \<noteq> h"
  have o: "ordered (map (rb_value s) A @ rb_value s a # map (rb_value s) B)" using assms(2) f(1) by (simp add: contents_def)
  have "\<not> equiv val y" if "y \<in> set (map (rb_value s) A)" for y
    using ordered_distinct[OF o, of y] that f(2) equiv_sym equiv_trans by blast
  then have "List.find (equiv val) (map (rb_value s) A) = None" by (auto simp: find_None_iff)
  then have "List.find (equiv val) (contents s t) = Some (rb_value s a)"
    using f(1,2) by (simp add: contents_def find_append)
  then show ?thesis using found f by (simp add: rb_find_def)
next
  assume n: "\<forall>a\<in>set (ptrs t). \<not> equiv val (rb_value s a)" "rb_search h lt val s (rb_root h s) = Some h"
  then show ?thesis using none by (auto simp: rb_find_def contents_def find_None_iff)
qed

end

section \<open>Clearing\<close>

text \<open>The nodes in \<open>A\<close> are given back.\<close>

definition freed :: "ptr set \<Rightarrow> 'v rbstore \<Rightarrow> 'v rbstore" where
  "freed A s = s\<lparr>rb_live := (\<lambda>a. a \<notin> A \<and> rb_live s a)\<rparr>"

lemma freed_simps [simp]:
  "rb_parent (freed A s) = rb_parent s" "rb_left (freed A s) = rb_left s" "rb_right (freed A s) = rb_right s"
  "rb_black (freed A s) = rb_black s" "rb_value (freed A s) = rb_value s" "rb_size (freed A s) = rb_size s"
  "rb_fresh (freed A s) = rb_fresh s" "rb_live (freed A s) = (\<lambda>a. a \<notin> A \<and> rb_live s a)"
  "freed {} s = s" "freed A (freed B s) = freed (A \<union> B) s"
  by (auto simp: freed_def fun_eq_iff)

lemma destroy_is_freed: "n \<noteq> h \<Longrightarrow> rb_destroy_node h n s = freed {n} s"
  by (auto simp: rb_destroy_node_def freed_def fun_eq_iff)

lemma rep_freed [simp]: "rep h (freed A s) p t = rep h s p t"
  by (rule rep_cong) simp

lemma destroy_subtree:
  "rep h s p t \<Longrightarrow> rb_destroy_subtree h (apex h t) s = Some (freed (set (ptrs t)) s)"
proof (induction t arbitrary: p s)
  case Tip
  show ?case by (simp add: rb_destroy_subtree.simps)
next
  case (Bin l a c r)
  then have f: "a \<noteq> h" "rb_left s a = apex h l" "rb_right s a = apex h r" by auto
  have "rb_destroy_subtree h (apex h l) s = Some (freed (set (ptrs l)) s)" using Bin by auto
  moreover have "rb_destroy_subtree h (apex h r) (freed (set (ptrs l)) s) = Some (freed (set (ptrs r)) (freed (set (ptrs l)) s))"
    using Bin.IH(2)[of "freed (set (ptrs l)) s" a] Bin.prems by simp
  ultimately show ?case using f
    by (subst rb_destroy_subtree.simps) (simp add: destroy_is_freed Un_commute)
qed

lemma clear_ok:
  assumes "tree_ok h s t"
  shows "\<exists>s'. rb_clear h s = Some s' \<and> tree_ok h s' Tip \<and> rb_value s' = rb_value s \<and> rb_fresh s' = rb_fresh s
    \<and> (\<forall>a\<in>set (ptrs t). \<not> rb_live s' a) \<and> within h (set (ptrs t)) s s' \<and> evolves h s t s' Tip"
proof -
  have rp: "rb_root h s = apex h t" "rep h s h t" and hn: "h \<notin> set (ptrs t)"
    using assms shaped_not_nil by (auto simp: tree_ok_def shaped_def)
  let ?s = "set_size h 0 (set_right h h (set_left h h (set_parent h h (freed (set (ptrs t)) s))))"
  have "rb_clear h s = Some ?s" using destroy_subtree[OF rp(2)] rp(1) by (simp add: rb_clear_def)
  moreover have "tree_ok h ?s Tip"
    using assms by (auto simp: tree_ok_def shaped_def balanced_def extremes_def setters)
  moreover have "within h (set (ptrs t)) s ?s" by (auto simp: within_def setters)
  moreover from this have "within h (set (ptrs t) \<union> {rb_fresh s..}) s ?s" by (rule within_mono) simp
  moreover have "strays ?s {} = strays s (set (ptrs t))" by (auto simp: strays_def setters)
  ultimately show ?thesis by (intro exI[of _ ?s]) (auto simp: setters evolves_def)
qed

lemma construct_ok:
  assumes "h < rb_fresh s"
  shows "tree_ok h (rb_construct h s) Tip" "within h {} s (rb_construct h s)" "rb_fresh (rb_construct h s) = rb_fresh s"
  using assms
  by (auto simp: rb_construct_def rb_init_header_def rb_header_def tree_ok_def shaped_def balanced_def extremes_def within_def setters)

section \<open>Handing nodes over to another tree\<close>

text \<open>The links of the nodes in \<open>A\<close> to the header \<open>old\<close> lead to \<open>new\<close> instead.\<close>

definition relinked :: "ptr \<Rightarrow> ptr \<Rightarrow> ptr set \<Rightarrow> 'v rbstore \<Rightarrow> 'v rbstore" where
  "relinked old new A s =
     (let sub = (\<lambda>f a. if a \<in> A \<and> f a = old then new else f a)
      in s\<lparr>rb_parent := sub (rb_parent s), rb_left := sub (rb_left s), rb_right := sub (rb_right s)\<rparr>)"

lemma relinked_simps [simp]:
  "rb_parent (relinked old new A s) a = (if a \<in> A \<and> rb_parent s a = old then new else rb_parent s a)"
  "rb_left (relinked old new A s) a = (if a \<in> A \<and> rb_left s a = old then new else rb_left s a)"
  "rb_right (relinked old new A s) a = (if a \<in> A \<and> rb_right s a = old then new else rb_right s a)"
  "rb_black (relinked old new A s) = rb_black s" "rb_value (relinked old new A s) = rb_value s"
  "rb_size (relinked old new A s) = rb_size s" "rb_live (relinked old new A s) = rb_live s"
  "rb_fresh (relinked old new A s) = rb_fresh s" "relinked old new {} s = s"
  by (simp_all add: relinked_def Let_def)

lemma rep_relinked_other: "set (ptrs t) \<inter> A = {} \<Longrightarrow> rep h (relinked old new A s) p t = rep h s p t"
  by (rule rep_cong) auto

lemma relink_nil:
  assumes "rep old s p t" "t \<noteq> Tip" "distinct (ptrs t)"
  shows "rb_relink_nil (apex old t) old new s = Some (relinked old new (set (ptrs t)) s)"
  using assms
proof (induction t arbitrary: p s)
  case (Bin l a c r)
  have f: "a \<noteq> old" "rb_left s a = apex old l" "rb_right s a = apex old r" "rb_parent s a = p" "rep old s a l" "rep old s a r"
    using Bin.prems(1) by auto
  have di: "distinct (ptrs l)" "distinct (ptrs r)" "a \<notin> set (ptrs l)" "a \<notin> set (ptrs r)" "set (ptrs l) \<inter> set (ptrs r) = {}"
    "set (ptrs r) \<inter> set (ptrs l) = {}"
    using Bin.prems(3) by auto
  define s1 where "s1 = (if l = Tip then set_left a new s else relinked old new (set (ptrs l)) s)"
  define s2 where "s2 = (if r = Tip then set_right a new s1 else relinked old new (set (ptrs r)) s1)"
  have nil: "apex old l = old \<longleftrightarrow> l = Tip" "apex old r = old \<longleftrightarrow> r = Tip" using f(5,6) apex_nil by blast+
  have 1: "(if rb_left s a = old then Some (set_left a new s) else rb_relink_nil (rb_left s a) old new s) = Some s1"
    using f(2) nil(1) Bin.IH(1)[OF f(5) _ di(1)] by (auto simp: s1_def)
  have r1: "rep old s1 a r" "rb_right s1 a = apex old r" "rb_parent s1 a = p"
    using f di by (simp_all add: s1_def rep_relinked_other)
  have 2: "(if rb_right s1 a = old then Some (set_right a new s1) else rb_relink_nil (rb_right s1 a) old new s1) = Some s2"
    using r1(2) nil(2) Bin.IH(2)[OF r1(1) _ di(2)] by (auto simp: s2_def)
  have 3: "(if rb_parent s2 a = old then set_parent a new s2 else s2) = relinked old new (set (ptrs (Bin l a c r))) s"
    using f di nil by (intro rbstore.equality) (auto simp: s1_def s2_def setters relinked_def Let_def fun_eq_iff)
  show ?case
    by (subst rb_relink_nil.simps) (simp only: apex.simps f(1) if_False 1 2 3 Option.bind.simps)
qed simp

text \<open>A tree without its header, to be hung under another one.\<close>

lemma relinked_rep:
  assumes "rep old s p t" "new \<notin> set (ptrs t)"
  shows "rep new (relinked old new (set (ptrs t)) s) (if p = old then new else p) t"
proof -
  have "rep new (relinked old new A s) (if p = old then new else p) t" if "set (ptrs t) \<subseteq> A" for A
    using assms that
  proof (induction t arbitrary: p)
    case (Bin l a c r)
    have "apex old l = old \<longleftrightarrow> l = Tip" "apex old r = old \<longleftrightarrow> r = Tip" using Bin.prems(1) apex_nil by auto
    then have "(if apex old l = old then new else apex old l) = apex new l" "(if apex old r = old then new else apex old r) = apex new r"
      by (cases l; cases r; auto)+
    moreover have "rep new (relinked old new A s) a l" "rep new (relinked old new A s) a r"
      using Bin.IH(1)[of a] Bin.IH(2)[of a] Bin.prems by (auto split: if_splits)
    ultimately show ?case using Bin.prems by auto
  qed simp
  then show ?thesis by simp
qed

lemma take_over:
  assumes "rb_root h s = apex k t" "rep k s k t" "t \<noteq> Tip" "distinct (ptrs t)" "h \<notin> set (ptrs t)"
  shows "\<exists>s'. Option.bind (rb_relink_nil (rb_root h s) k h s) (rb_update_extremes h) = Some s' \<and> shaped h s' t
    \<and> extremes h s' t \<and> touched h (set (ptrs t)) s s'"
proof -
  let ?s = "relinked k h (set (ptrs t)) s"
  have "rb_relink_nil (rb_root h s) k h s = Some ?s" using relink_nil[OF assms(2-4)] assms(1) by simp
  moreover have "shaped h ?s t"
    using relinked_rep[OF assms(2,5)] assms by (cases t) (auto simp: shaped_def)
  ultimately obtain s' where "Option.bind (rb_relink_nil (rb_root h s) k h s) (rb_update_extremes h) = Some s'"
    "shaped h s' t" "extremes h s' t" "touched h {} ?s s'" using update_extremes[of h ?s t] by auto
  moreover have "touched h (set (ptrs t)) s ?s" using assms(5) by (simp add: touched_def)
  moreover have "touched h (set (ptrs t)) ?s s'" using \<open>touched h {} ?s s'\<close> touched_mono by blast
  ultimately show ?thesis using touched_trans by blast
qed

text \<open>Two trees of a store, apart from each other.\<close>

definition apart :: "ptr \<Rightarrow> shape \<Rightarrow> ptr \<Rightarrow> shape \<Rightarrow> bool" where
  "apart h u k t \<longleftrightarrow> h \<noteq> k \<and> h \<notin> set (ptrs t) \<and> k \<notin> set (ptrs u) \<and> set (ptrs u) \<inter> set (ptrs t) = {}"

lemma apart_sym: "apart h u k t \<Longrightarrow> apart k t h u"
  by (auto simp: apart_def)

lemma evolves_other:
  assumes "evolves h s t s' t'" "tree_ok k s x" "apart h t k x"
  shows "tree_ok k s' x" "contents s' x = contents s x" "apart h t' k x"
proof -
  let ?A = "set (ptrs t) \<union> {rb_fresh s..}"
  have w: "within h ?A s s'" and sub: "set (ptrs t') \<subseteq> ?A" using assms(1) by (simp_all add: evolves_def)
  have d: "k \<noteq> h" "h \<notin> set (ptrs x)" "k \<notin> ?A" "set (ptrs x) \<inter> ?A = {}"
    using assms(2,3) by (auto simp: apart_def tree_ok_def)
  show "tree_ok k s' x" "contents s' x = contents s x" using within_other[OF w assms(2) d] by simp_all
  show "apart h t' k x" using d sub by (auto simp: apart_def)
qed

lemma rep_header [simp]:
  "rep k (set_black h b s) p t = rep k s p t" if "h \<notin> set (ptrs t)"
  using that by simp

lemma move_ok:
  assumes "tree_ok k s t" "apart h Tip k t" "h < rb_fresh s"
  shows "\<exists>s'. rb_move h k s = Some s' \<and> rb_value s' = rb_value s \<and> tree_ok k s' Tip \<and> tree_ok h (set_black h True s') t
    \<and> (rb_black s' h \<longleftrightarrow> t = Tip)"
proof (cases "t = Tip")
  case True
  then have "rb_root k s = k" using assms(1) by (simp add: tree_ok_def shaped_def)
  then show ?thesis using assms True
    by (auto simp: rb_move_def Let_def rb_header_def rb_init_header_def tree_ok_def shaped_def balanced_def extremes_def
        apart_def setters)
next
  case False
  have t: "rb_root k s = apex k t" "rep k s k t" "distinct (ptrs t)" "k \<notin> set (ptrs t)" and h: "h \<noteq> k" "h \<notin> set (ptrs t)"
    using assms(1,2) shaped_not_nil by (auto simp: tree_ok_def shaped_def apart_def)
  let ?s = "set_parent h (apex k t) (set_size k 0 (set_size h (rb_size s k) (rb_header h s)))"
  have "rb_root h ?s = apex k t" by simp
  moreover have "rep k ?s k t" using t h by (simp add: rb_header_def)
  ultimately obtain s1 where s1: "Option.bind (rb_relink_nil (rb_root h ?s) k h ?s) (rb_update_extremes h) = Some s1"
    "shaped h s1 t" "extremes h s1 t" "touched h (set (ptrs t)) ?s s1" using take_over[OF _ _ False t(3) h(2)] by blast
  have root: "rb_root k s \<noteq> k" using t apex_nil False by metis
  have mv: "rb_move h k s = Some (rb_detach k s1)"
    using s1(1) root t(1) h
    by (simp add: rb_move_def Let_def rb_header_def bind_eq_Some_conv setters cong: if_cong) (auto simp: setters)
  let ?r = "rb_detach k s1"
  have f: "rb_value ?r = rb_value s" "rb_size ?r h = rb_size s k" "rb_size ?r k = 0" "rb_live ?r = rb_live s"
    "rb_fresh ?r = rb_fresh s" "rb_black ?r h = False" "rb_black ?r k = rb_black s k"
    using s1(4) t(4) h by (auto simp: touched_def rb_detach_def rb_header_def setters)
  have "shaped h (set_black h True ?r) t" using s1(2) t(4) h by (simp add: rb_detach_def shaped_def)
  moreover have "extremes h (set_black h True ?r) t" using s1(3) h by (simp add: rb_detach_def extremes_def)
  ultimately have "tree_ok h (set_black h True ?r) t"
    using assms(1,3) f by (auto simp: tree_ok_def set_black_def)
  moreover have "tree_ok k ?r Tip"
    using assms(1) f by (auto simp: tree_ok_def shaped_def balanced_def extremes_def rb_detach_def)
  ultimately show ?thesis using mv f False by blast
qed

lemma move_assign_ok:
  assumes "tree_ok h s u" "tree_ok k s t" "apart h u k t"
  shows "\<exists>s'. rb_move_assign h k s = Some s' \<and> rb_value s' = rb_value s \<and> tree_ok h s' t \<and> tree_ok k s' Tip
    \<and> within h (insert k (set (ptrs u) \<union> set (ptrs t))) s s' \<and> strays s' (set (ptrs t)) = strays s (set (ptrs u) \<union> set (ptrs t))"
proof -
  have h: "h \<noteq> k" "h \<notin> set (ptrs t)" "k \<notin> set (ptrs u)" "set (ptrs t) \<inter> set (ptrs u) = {}" using assms(3) by (auto simp: apart_def)
  obtain s1 where s1: "rb_clear h s = Some s1" "tree_ok h s1 Tip" "rb_value s1 = rb_value s" "rb_fresh s1 = rb_fresh s"
    "\<forall>a\<in>set (ptrs u). \<not> rb_live s1 a" "within h (set (ptrs u)) s s1" "evolves h s u s1 Tip" using clear_ok[OF assms(1)] by blast
  have k1: "tree_ok k s1 t" by (rule within_other[OF s1(6) assms(2)]) (use h in auto)
  then have t: "rb_root k s1 = apex k t" "rep k s1 k t" "distinct (ptrs t)" "k \<notin> set (ptrs t)"
    using shaped_not_nil by (auto simp: tree_ok_def shaped_def)
  let ?s = "set_size k 0 (set_size h (rb_size s1 k) s1)"
  obtain s2 where s2: "(if rb_root k ?s \<noteq> k then let s = set_parent h (rb_root k ?s) ?s
      in Option.bind (rb_relink_nil (rb_root h s) k h s) (rb_update_extremes h) else Some (rb_init_header h ?s)) = Some s2"
    "shaped h s2 t" "extremes h s2 t" "touched h (set (ptrs t)) ?s s2"
  proof (cases "t = Tip")
    case True
    then have "shaped h (rb_init_header h ?s) t" "extremes h (rb_init_header h ?s) t" "rb_root k ?s = k"
      using t(1) by (simp_all add: rb_init_header_def shaped_def extremes_def)
    moreover have "touched h (set (ptrs t)) ?s (rb_init_header h ?s)"
      using s1(2) by (auto simp: touched_def rb_init_header_def tree_ok_def setters)
    ultimately show ?thesis using that by simp
  next
    case False
    have "rep k (set_parent h (apex k t) ?s) k t" using t(2) h by simp
    moreover have "rb_root k s1 \<noteq> k" using t apex_nil False by metis
    moreover have "touched h (set (ptrs t)) ?s (set_parent h (apex k t) ?s)" by simp
    ultimately show ?thesis
      using take_over[of "set_parent h (apex k t) ?s" h k t] False t(1,3) h(1,2) that touched_trans by (fastforce simp: Let_def)
  qed
  let ?r = "rb_detach k s2"
  let ?B = "insert k (set (ptrs u) \<union> set (ptrs t))"
  have "within h ?B s s1" by (rule within_mono[OF s1(6)]) auto
  moreover have "within h ?B s1 ?s" by (auto simp: within_def setters)
  moreover have "within h ?B ?s s2" by (rule within_mono[OF touched_within[OF s2(4)]]) auto
  moreover have "within h ?B s2 ?r" by (auto simp: within_def rb_detach_def setters)
  ultimately have w: "within h ?B s ?r" using within_trans by blast
  have "rb_move_assign h k s = Some ?r" using s1(1) s2(1) h(1) by (simp add: rb_move_assign_def Let_def)
  moreover have f: "rb_value ?r = rb_value s" "rb_size ?r h = rb_size s1 k" "rb_size ?r k = 0" "rb_live ?r = rb_live s1"
    "rb_fresh ?r = rb_fresh s" "rb_black ?r h" "rb_black ?r k = rb_black s1 k"
    using s1 s2(4) t(4) h by (auto simp: touched_def rb_detach_def tree_ok_def setters)
  moreover have "shaped h ?r t" using s2(2) t(4) h by (simp add: rb_detach_def shaped_def)
  moreover have "extremes h ?r t" using s2(3) h by (simp add: rb_detach_def extremes_def)
  moreover have "strays ?r (set (ptrs t)) = strays s1 {} - set (ptrs t)" using f(4,5) s1(4) by (auto simp: strays_def)
  moreover have "strays s1 {} = strays s (set (ptrs u))" using s1(7) by (simp add: evolves_def)
  moreover have "strays s (set (ptrs u)) - set (ptrs t) = strays s (set (ptrs u) \<union> set (ptrs t))" by (auto simp: strays_def)
  ultimately show ?thesis using k1 s1(2,4,5) assms(1) w
    by (intro exI[of _ ?r]) (auto simp: tree_ok_def shaped_def[of k] extremes_def[of k] balanced_def rb_detach_def)
qed

lemma swap_half:
  assumes "rb_root h s = apex k t" "rep k s k t" "distinct (ptrs t)" "h \<notin> set (ptrs t)" "k \<noteq> h"
  shows "\<exists>s'. (if rb_root h s = k then Some (set_right h h (set_left h h (set_parent h h s)))
        else if rb_root h s \<noteq> h then Option.bind (rb_relink_nil (rb_root h s) k h s) (rb_update_extremes h) else Some s) = Some s'
    \<and> shaped h s' t \<and> extremes h s' t \<and> touched h (set (ptrs t)) s s'"
proof (cases "t = Tip")
  case True
  then show ?thesis using assms(1) by (auto simp: shaped_def extremes_def)
next
  case False
  then have "rb_root h s \<noteq> k" "rb_root h s \<noteq> h"
    using assms apex_nil[OF assms(2)] apex_in[OF False, of k] by auto
  then show ?thesis using take_over[OF assms(1,2) False assms(3,4)] by simp
qed

lemma touched_other:
  assumes "touched h A s s'" "k \<noteq> h" "k \<notin> A" "h \<notin> set (ptrs t)" "set (ptrs t) \<inter> A = {}"
  shows "shaped k s' t = shaped k s t" "extremes k s' t = extremes k s t" "rb_root k s' = rb_root k s" "rep k s' p t = rep k s p t"
proof -
  show r: "rep k s' p t = rep k s p t" for p
    using assms by (intro rep_cong) (auto simp: touched_def)
  show "rb_root k s' = rb_root k s" using assms by (auto simp: touched_def)
  with r show "shaped k s' t = shaped k s t" by (simp add: shaped_def)
  show "extremes k s' t = extremes k s t" using assms by (auto simp: touched_def extremes_def)
qed

lemma swap_ok:
  assumes "tree_ok h s u" "tree_ok k s t" "apart h u k t"
  shows "\<exists>s'. rb_swap h k s = Some s' \<and> rb_value s' = rb_value s \<and> rb_live s' = rb_live s \<and> rb_fresh s' = rb_fresh s
    \<and> tree_ok h s' t \<and> tree_ok k s' u \<and> within h (insert k (set (ptrs u) \<union> set (ptrs t))) s s'"
proof -
  have d: "h \<noteq> k" "h \<notin> set (ptrs t)" "k \<notin> set (ptrs u)" "h \<notin> set (ptrs u)" "k \<notin> set (ptrs t)"
    "set (ptrs t) \<inter> set (ptrs u) = {}" "set (ptrs u) \<inter> set (ptrs t) = {}"
    using assms shaped_not_nil by (auto simp: apart_def tree_ok_def)
  define s1 where "s1 = (let s = set_parent h (rb_parent s k) (set_parent k (rb_parent s h) s);
            s = set_left h (rb_left s k) (set_left k (rb_left s h) s);
            s = set_right h (rb_right s k) (set_right k (rb_right s h) s)
       in set_size h (rb_size s k) (set_size k (rb_size s h) s))"
  have g: "rb_parent s1 q = rb_parent s q \<and> rb_left s1 q = rb_left s q \<and> rb_right s1 q = rb_right s q \<and> rb_black s1 q = rb_black s q"
    if "q \<noteq> h" "q \<noteq> k" for q using that by (simp add: s1_def Let_def)
  have "rep k s1 k t = rep k s k t" by (rule rep_cong, rule g) (use d in auto)
  moreover have "rep h s1 h u = rep h s h u" by (rule rep_cong, rule g) (use d in auto)
  moreover have "rb_root h s1 = rb_root k s" "rb_root k s1 = rb_root h s" using d(1) by (simp_all add: s1_def Let_def)
  ultimately have r: "rb_root h s1 = apex k t" "rb_root k s1 = apex h u" "rep k s1 k t" "rep h s1 h u"
    "distinct (ptrs t)" "distinct (ptrs u)" using assms(1,2) by (simp_all add: tree_ok_def shaped_def)
  have f1: "rb_value s1 = rb_value s" "rb_live s1 = rb_live s" "rb_fresh s1 = rb_fresh s" "rb_black s1 = rb_black s"
    "rb_size s1 h = rb_size s k" "rb_size s1 k = rb_size s h"
    using d(1) by (auto simp: s1_def Let_def setters)
  obtain s2 where s2: "(if rb_root h s1 = k then Some (set_right h h (set_left h h (set_parent h h s1)))
        else if rb_root h s1 \<noteq> h then Option.bind (rb_relink_nil (rb_root h s1) k h s1) (rb_update_extremes h) else Some s1) = Some s2"
    "shaped h s2 t" "extremes h s2 t" "touched h (set (ptrs t)) s1 s2"
    using swap_half[OF r(1,3,5) d(2)] d(1) by blast
  have "rb_root k s2 = apex h u" "rep h s2 h u"
    using s2(4) touched_rep[OF s2(4) d(7,4), of h] r(2,4) d by (simp_all add: touched_def)
  then obtain s3 where s3: "(if rb_root k s2 = h then Some (set_right k k (set_left k k (set_parent k k s2)))
        else if rb_root k s2 \<noteq> k then Option.bind (rb_relink_nil (rb_root k s2) h k s2) (rb_update_extremes k) else Some s2) = Some s3"
    "shaped k s3 u" "extremes k s3 u" "touched k (set (ptrs u)) s2 s3"
    using swap_half[of s2 k h u] r(6) d(1,3) by metis
  have "shaped h s3 t" "extremes h s3 t" using touched_other(1,2)[OF s3(4), of h t] s2(2,3) d by blast+
  moreover have "rb_swap h k s = Some s3"
  proof -
    have "rb_swap h k s = Option.bind
       (if rb_root h s1 = k then Some (set_right h h (set_left h h (set_parent h h s1)))
        else if rb_root h s1 \<noteq> h then Option.bind (rb_relink_nil (rb_root h s1) k h s1) (rb_update_extremes h) else Some s1)
       (\<lambda>s. if rb_root k s = h then Some (set_right k k (set_left k k (set_parent k k s)))
        else if rb_root k s \<noteq> k then Option.bind (rb_relink_nil (rb_root k s) h k s) (rb_update_extremes k) else Some s)"
      unfolding rb_swap_def Let_def s1_def using d(1) by (rule if_not_P)
    then show ?thesis unfolding s2(1) Option.bind.simps s3(1) .
  qed
  moreover have "rb_value s3 = rb_value s" "rb_live s3 = rb_live s" "rb_fresh s3 = rb_fresh s" "rb_black s3 h = rb_black s h"
    "rb_black s3 k = rb_black s k" "rb_size s3 h = rb_size s k" "rb_size s3 k = rb_size s h"
    using s2(4) s3(4) f1 d by (auto simp: touched_def)
  moreover have "within h (insert k (set (ptrs u) \<union> set (ptrs t))) s s3"
  proof -
    let ?B = "insert h (insert k (set (ptrs u) \<union> set (ptrs t)))"
    have "rb_size s1 q = rb_size s q" if "q \<noteq> h" "q \<noteq> k" for q
      using that by (simp add: s1_def Let_def setters)
    then have "within h ?B s s1" using f1(1-3) g by (auto simp: within_def)
    moreover have "within h ?B s1 s2" by (rule within_mono[OF touched_within[OF s2(4)]]) auto
    moreover have "within h ?B s2 s3" using s3(4) by (auto simp: within_def touched_def)
    ultimately have "within h ?B s s3" using within_trans by blast
    then show ?thesis by (simp add: within_def)
  qed
  ultimately show ?thesis using assms(1,2) s3(2,3) by (intro exI[of _ s3]) (simp add: tree_ok_def)
qed

section \<open>Copying\<close>

context strict_weak
begin

lemma insert_tree:
  assumes "tree_ok h s u" "tree_ok k s t" "apart h u k t" "ordered (contents s t)" "ptrs t = A @ M"
    "contents s u = map (rb_value s) A"
  shows "\<exists>s' u'. rb_insert_tree h lt k (hd (M @ [k])) s = Some s' \<and> evolves h s u s' u' \<and> contents s' u' = contents s t"
  using assms
proof (induction M arbitrary: A s u)
  case Nil
  then have "contents s u = contents s t" by (simp add: contents_def)
  moreover have "rb_insert_tree h lt k k s = Some s" by (simp add: rb_insert_tree.simps rb_end_def)
  ultimately show ?case using Nil.prems evolves_refl by auto
next
  case (Cons a M)
  have o: "ordered (contents s u)" "\<forall>x\<in>set (contents s u). lt x (rb_value s a)"
    using Cons.prems(4-6) by (auto simp: contents_def ordered_def sorted_wrt_append)
  obtain z b s1 u1 where i: "rb_insert h lt (rb_value s a) s = Some (z, b, s1)" "evolves h s u s1 u1"
    "contents s1 u1 = ins (rb_value s a) (contents s u)"
    using insert_ins[OF Cons.prems(1) o(1)] by blast
  note k1 = evolves_other[OF i(2) Cons.prems(2,3)]
  have "contents s1 u1 = map (rb_value s) (A @ [a])"
    using ins_between[of "contents s u" "rb_value s a" "[]"] o(2) i(3) Cons.prems(6) by simp
  also have "\<dots> = map (rb_value s1) (A @ [a])" using k1(2) Cons.prems(5) by (simp add: contents_def)
  finally have c1: "contents s1 u1 = map (rb_value s1) (A @ [a])" .
  have "rb_increment k s1 a = Some (hd (M @ [k]))"
    using increment(1)[of k s1 t A a M] k1(1) Cons.prems(5) by (simp add: tree_ok_def)
  moreover have "a \<noteq> k" using Cons.prems(2,5) shaped_not_nil[of k s t] by (auto simp: tree_ok_def)
  ultimately have e: "rb_insert_tree h lt k a s = rb_insert_tree h lt k (hd (M @ [k])) s1"
    using i(1) by (subst rb_insert_tree.simps) (simp add: rb_end_def)
  obtain s' u' where "rb_insert_tree h lt k (hd (M @ [k])) s1 = Some s'" "evolves h s1 u1 s' u'" "contents s' u' = contents s1 t"
    using Cons.IH[OF evolves_ok[OF i(2)] k1(1,3) _ _ c1] k1(2) Cons.prems(4,5) by auto
  then show ?case using e k1(2) evolves_trans[OF i(2)] by auto
qed

lemma insert_all:
  assumes "tree_ok h s Tip" "tree_ok k s t" "apart h Tip k t" "ordered (contents s t)"
  shows "\<exists>s' u. rb_insert_tree h lt k (rb_begin k s) s = Some s' \<and> evolves h s Tip s' u \<and> contents s' u = contents s t"
proof -
  have "rb_begin k s = hd (ptrs t @ [k])" using assms(2) by (simp add: rb_begin_def tree_ok_def extremes_def)
  then show ?thesis using insert_tree[OF assms, of "[]" "ptrs t"] by (simp add: contents_def[of s Tip])
qed

lemma copy_new:
  assumes "tree_ok k s t" "apart h Tip k t" "h < rb_fresh s" "ordered (contents s t)"
  shows "\<exists>s' u. rb_copy h lt k s = Some s' \<and> tree_ok h s' u \<and> contents s' u = contents s t \<and> tree_ok k s' t
    \<and> contents s' t = contents s t \<and> apart h u k t"
proof -
  note c = construct_ok[OF assms(3)]
  have k: "tree_ok k (rb_construct h s) t" "contents (rb_construct h s) t = contents s t"
    using within_other[OF c(2) assms(1)] assms(2) by (auto simp: apart_def)
  obtain s' u where "rb_insert_tree h lt k (rb_begin k (rb_construct h s)) (rb_construct h s) = Some s'"
    "evolves h (rb_construct h s) Tip s' u" "contents s' u = contents s t"
    using insert_all[OF c(1) k(1) assms(2) assms(4)[folded k(2)]] unfolding k(2) by blast
  moreover from this(2) have "tree_ok k s' t" "contents s' t = contents s t" "apart h u k t" "tree_ok h s' u"
    using evolves_other[OF _ k(1) assms(2)] evolves_ok k(2) by auto
  ultimately show ?thesis by (intro exI[of _ s'] exI[of _ u]) (simp add: rb_copy_def Let_def)
qed

lemma copy_assign_ok:
  assumes "tree_ok h s u" "tree_ok k s t" "apart h u k t" "ordered (contents s t)"
  shows "\<exists>s' u'. rb_copy_assign h lt k s = Some s' \<and> evolves h s u s' u' \<and> contents s' u' = contents s t"
proof -
  obtain s1 where c: "rb_clear h s = Some s1" "evolves h s u s1 Tip"
    using clear_ok[OF assms(1)] by blast
  note k = evolves_other[OF c(2) assms(2,3)]
  obtain s' u' where i: "rb_insert_tree h lt k (rb_begin k s1) s1 = Some s'" "evolves h s1 Tip s' u'" "contents s' u' = contents s t"
    using insert_all[OF evolves_ok[OF c(2)] k(1,3)] assms(4) k(2) by auto
  moreover have "h \<noteq> k" using assms(3) by (simp add: apart_def)
  moreover have "evolves h s u s' u'" by (rule evolves_trans[OF c(2) i(2)])
  ultimately show ?thesis using c by (intro exI[of _ s'] exI[of _ u']) (simp add: rb_copy_assign_def)
qed

lemma insert_list_ins:
  assumes "tree_ok h s t" "ordered (contents s t)"
  shows "\<exists>s' t'. rb_insert_list h lt vals s = Some s' \<and> evolves h s t s' t' \<and> contents s' t' = fold ins vals (contents s t)"
  using assms
proof (induction vals arbitrary: s t)
  case Nil
  then show ?case using evolves_refl by auto
next
  case (Cons val vals)
  obtain a b s1 t1 where i: "rb_insert h lt val s = Some (a, b, s1)" "evolves h s t s1 t1" "contents s1 t1 = ins val (contents s t)"
    using insert_ins[OF Cons.prems] by blast
  then obtain s' t' where "rb_insert_list h lt vals s1 = Some s'" "evolves h s1 t1 s' t'" "contents s' t' = fold ins vals (contents s1 t1)"
    using Cons.IH[OF evolves_ok[OF i(2)]] Cons.prems(2) ordered_ins by auto
  then show ?case using i evolves_trans[OF i(2)] by auto
qed

end

end
