(* ===== verification/RBForest.thy ===== *)
theory RBForest
  imports RBTreeOps
begin

text \<open>
  Programs over several red-black trees of one comparator that share a store: insertion, erasure, copying, moving and swapping
  refine the same operations on sorted lists. The operations are run as the code has them, on links; the lists
  are what a reader of \<^verbatim>\<open>std::set\<close> expects.
\<close>

section \<open>Sorted lists\<close>

definition list_insert :: "('v \<Rightarrow> 'v \<Rightarrow> bool) \<Rightarrow> 'v \<Rightarrow> 'v list \<Rightarrow> 'v list" where
  "list_insert lt val xs =
     (if \<exists>x\<in>set xs. \<not> lt val x \<and> \<not> lt x val then xs
      else filter (\<lambda>x. lt x val) xs @ val # filter (\<lambda>x. lt val x) xs)"

definition list_erase :: "('v \<Rightarrow> 'v \<Rightarrow> bool) \<Rightarrow> 'v \<Rightarrow> 'v list \<Rightarrow> 'v list" where
  "list_erase lt val xs = filter (\<lambda>x. lt val x \<or> lt x val) xs"

section \<open>Programs\<close>

datatype 'v tree_op =
    TreeInsert ptr 'v | TreeFill ptr "'v list" | TreeErase ptr 'v | TreeEraseAt ptr nat | TreeEraseRange ptr nat nat
  | TreeClear ptr | TreeAssign ptr ptr | TreeMoveAssign ptr ptr | TreeSwap ptr ptr

primrec rb_advance :: "nat \<Rightarrow> ptr \<Rightarrow> 'v rbstore \<Rightarrow> ptr \<Rightarrow> ptr option" where
  "rb_advance 0 h s it = Some it"
| "rb_advance (Suc n) h s it = Option.bind (rb_increment h s it) (rb_advance n h s)"

text \<open>
  Positions are counted from \<^verbatim>\<open>begin()\<close>. The answer is what the operation returns: whether a value was inserted, how
  many were erased, and for an iterator how many elements there are from it to \<^verbatim>\<open>end()\<close>.
\<close>

fun trees_do :: "('v \<Rightarrow> 'v \<Rightarrow> bool) \<Rightarrow> 'v tree_op \<Rightarrow> 'v rbstore \<Rightarrow> (nat \<times> 'v rbstore) option" where
  "trees_do lt (TreeInsert h val) s = Option.bind (rb_insert h lt val s) (\<lambda>(it, ok, s). Some (of_bool ok, s))"
| "trees_do lt (TreeFill h vals) s = Option.bind (rb_insert_list h lt vals s) (\<lambda>s. Some (0, s))"
| "trees_do lt (TreeErase h val) s = rb_erase_value h lt val s"
| "trees_do lt (TreeEraseAt h i) s =
     Option.bind (rb_advance i h s (rb_begin h s)) (\<lambda>it. Option.bind (rb_erase_at h it s) (\<lambda>(it, s).
     Option.bind (rb_walk h s it (rb_end h s)) (\<lambda>vs. Some (length vs, s))))"
| "trees_do lt (TreeEraseRange h i j) s =
     Option.bind (rb_advance i h s (rb_begin h s)) (\<lambda>it. Option.bind (rb_advance j h s (rb_begin h s)) (\<lambda>stop.
     Option.bind (rb_erase_range h it stop s) (\<lambda>(it, s).
     Option.bind (rb_walk h s it (rb_end h s)) (\<lambda>vs. Some (length vs, s)))))"
| "trees_do lt (TreeClear h) s = Option.bind (rb_clear h s) (\<lambda>s. Some (0, s))"
| "trees_do lt (TreeAssign h k) s = Option.bind (rb_copy_assign h lt k s) (\<lambda>s. Some (0, s))"
| "trees_do lt (TreeMoveAssign h k) s = Option.bind (rb_move_assign h k s) (\<lambda>s. Some (0, s))"
| "trees_do lt (TreeSwap h k) s = Option.bind (rb_swap h k s) (\<lambda>s. Some (0, s))"

fun lists_do :: "('v \<Rightarrow> 'v \<Rightarrow> bool) \<Rightarrow> 'v tree_op \<Rightarrow> (ptr \<Rightarrow> 'v list) \<Rightarrow> nat \<times> (ptr \<Rightarrow> 'v list)" where
  "lists_do lt (TreeInsert h val) m =
     (of_bool (\<forall>x\<in>set (m h). lt val x \<or> lt x val), m(h := list_insert lt val (m h)))"
| "lists_do lt (TreeFill h vals) m = (0, m(h := fold (list_insert lt) vals (m h)))"
| "lists_do lt (TreeErase h val) m =
     (of_bool (\<exists>x\<in>set (m h). \<not> lt val x \<and> \<not> lt x val), m(h := list_erase lt val (m h)))"
| "lists_do lt (TreeEraseAt h i) m = (length (m h) - Suc i, m(h := take i (m h) @ drop (Suc i) (m h)))"
| "lists_do lt (TreeEraseRange h i j) m = (length (m h) - j, m(h := take i (m h) @ drop j (m h)))"
| "lists_do lt (TreeClear h) m = (0, m(h := []))"
| "lists_do lt (TreeAssign h k) m = (0, m(h := m k))"
| "lists_do lt (TreeMoveAssign h k) m = (0, if h = k then m else m(h := m k, k := []))"
| "lists_do lt (TreeSwap h k) m = (0, m(h := m k, k := m h))"

text \<open>Trees are named by their headers; positions are in range.\<close>

fun tree_op_ok :: "ptr set \<Rightarrow> 'v tree_op \<Rightarrow> (ptr \<Rightarrow> 'v list) \<Rightarrow> bool" where
  "tree_op_ok H (TreeInsert h val) m = (h \<in> H)"
| "tree_op_ok H (TreeFill h vals) m = (h \<in> H)"
| "tree_op_ok H (TreeErase h val) m = (h \<in> H)"
| "tree_op_ok H (TreeEraseAt h i) m = (h \<in> H \<and> i \<le> length (m h))"
| "tree_op_ok H (TreeEraseRange h i j) m = (h \<in> H \<and> i \<le> j \<and> j \<le> length (m h))"
| "tree_op_ok H (TreeClear h) m = (h \<in> H)"
| "tree_op_ok H (TreeAssign h k) m = (h \<in> H \<and> k \<in> H)"
| "tree_op_ok H (TreeMoveAssign h k) m = (h \<in> H \<and> k \<in> H)"
| "tree_op_ok H (TreeSwap h k) m = (h \<in> H \<and> k \<in> H)"

fun trees_run :: "('v \<Rightarrow> 'v \<Rightarrow> bool) \<Rightarrow> 'v tree_op list \<Rightarrow> 'v rbstore \<Rightarrow> (nat list \<times> 'v rbstore) option" where
  "trees_run lt [] s = Some ([], s)"
| "trees_run lt (op # ops) s =
     Option.bind (trees_do lt op s) (\<lambda>(n, s). Option.bind (trees_run lt ops s) (\<lambda>(ns, s). Some (n # ns, s)))"

fun lists_run :: "('v \<Rightarrow> 'v \<Rightarrow> bool) \<Rightarrow> 'v tree_op list \<Rightarrow> (ptr \<Rightarrow> 'v list) \<Rightarrow> nat list \<times> (ptr \<Rightarrow> 'v list)" where
  "lists_run lt [] m = ([], m)"
| "lists_run lt (op # ops) m =
     (let (n, m) = lists_do lt op m; (ns, m) = lists_run lt ops m in (n # ns, m))"

fun tree_ops_ok :: "('v \<Rightarrow> 'v \<Rightarrow> bool) \<Rightarrow> ptr set \<Rightarrow> 'v tree_op list \<Rightarrow> (ptr \<Rightarrow> 'v list) \<Rightarrow> bool" where
  "tree_ops_ok lt H [] m = True"
| "tree_ops_ok lt H (op # ops) m = (tree_op_ok H op m \<and> tree_ops_ok lt H ops (snd (lists_do lt op m)))"

lemma sorted_wrt_cut:
  assumes "sorted_wrt P xs" "i \<le> j"
  shows "sorted_wrt P (take i xs @ drop j xs)"
proof -
  have "sorted_wrt P (take i xs @ take (j - i) (drop i xs) @ drop j xs)" if "j \<le> length xs"
    using assms(1) take_append_drop_mid[OF assms(2) that] by simp
  then show ?thesis using assms(1) sorted_wrt_take[OF assms(1), of i] by (cases "j \<le> length xs") (auto simp: sorted_wrt_append)
qed

section \<open>Forests\<close>

text \<open>Trees of one store, apart from each other, that hold the sorted lists \<open>m\<close>.\<close>

definition forest :: "('v \<Rightarrow> 'v \<Rightarrow> bool) \<Rightarrow> ptr set \<Rightarrow> 'v rbstore \<Rightarrow> (ptr \<Rightarrow> shape) \<Rightarrow> (ptr \<Rightarrow> 'v list) \<Rightarrow> bool" where
  "forest lt H s T m \<longleftrightarrow> (\<forall>h\<in>H. tree_ok h s (T h) \<and> contents s (T h) = m h \<and> sorted_wrt lt (m h))
     \<and> (\<forall>h\<in>H. \<forall>k\<in>H. h \<noteq> k \<longrightarrow> apart h (T h) k (T k))"

definition owned :: "ptr set \<Rightarrow> (ptr \<Rightarrow> shape) \<Rightarrow> ptr set" where
  "owned H T = (\<Union>h\<in>H. set (ptrs (T h)))"

lemma owned_update: "h \<in> H \<Longrightarrow> owned H (T(h := u)) = set (ptrs u) \<union> owned (H - {h}) T"
  by (auto simp: owned_def split: if_splits)

lemma owned_split: "h \<in> H \<Longrightarrow> owned H T = set (ptrs (T h)) \<union> owned (H - {h}) T"
  by (auto simp: owned_def)

lemma strays_Un: "strays s (A \<union> B) = strays s A - B"
  by (auto simp: strays_def)

lemma forest_step:
  assumes "forest lt H s T m" "h \<in> H" "evolves h s (T h) s' u" "sorted_wrt lt (contents s' u)"
  shows "forest lt H s' (T(h := u)) (m(h := contents s' u))" "strays s' (owned H (T(h := u))) = strays s (owned H T)"
proof -
  have k: "tree_ok k s' (T k) \<and> contents s' (T k) = contents s (T k) \<and> apart h u k (T k) \<and> apart k (T k) h u"
    if "k \<in> H" "k \<noteq> h" for k
    using evolves_other[OF assms(3), of k "T k"] that assms(1,2) apart_sym unfolding forest_def by blast
  show "forest lt H s' (T(h := u)) (m(h := contents s' u))"
    unfolding forest_def using k assms(1,4) evolves_ok[OF assms(3)] by (auto simp: forest_def)
  have "strays s' (set (ptrs u)) = strays s (set (ptrs (T h)))" using assms(3) by (simp add: evolves_def)
  then show "strays s' (owned H (T(h := u))) = strays s (owned H T)"
    by (simp add: owned_update[OF assms(2)] owned_split[OF assms(2), of T] strays_Un)
qed

text \<open>A step that gives the nodes of the tree \<open>k\<close> to the tree \<open>h\<close> and leaves \<open>k\<close> with none, or with those of \<open>h\<close>.\<close>

lemma forest_step2:
  assumes f: "forest lt H s T m" and H: "h \<in> H" "k \<in> H" "h \<noteq> k"
    and ok: "tree_ok h s' (T k)" "tree_ok k s' v" and v: "v = Tip \<or> v = T h"
    and w: "within h (insert k (set (ptrs (T h)) \<union> set (ptrs (T k)))) s s'" and val: "rb_value s' = rb_value s"
    and st: "strays s' (set (ptrs (T k)) \<union> set (ptrs v)) = strays s (set (ptrs (T h)) \<union> set (ptrs (T k)))"
  shows "forest lt H s' (T(h := T k, k := v)) (m(h := m k, k := contents s v))"
    "strays s' (owned H (T(h := T k, k := v))) = strays s (owned H T)"
proof -
  have c: "contents s' t = contents s t" for t using val by (simp add: contents_def)
  have q: "tree_ok q s' (T q) \<and> apart q (T q) h (T h) \<and> apart q (T q) k (T k)" if "q \<in> H" "q \<noteq> h" "q \<noteq> k" for q
  proof -
    have "apart q (T q) h (T h)" "apart q (T q) k (T k)" "tree_ok q s (T q)" using f H that by (auto simp: forest_def)
    moreover from this have "tree_ok q s' (T q)" using that by (intro within_other(1)[OF w]) (auto simp: apart_def)
    ultimately show ?thesis by blast
  qed
  have hk: "apart h (T h) k (T k)" using f H by (auto simp: forest_def)
  have ap: "apart h (T k) k v" "apart k v h (T k)"
    using hk v f H shaped_not_nil[of h s "T h"] shaped_not_nil[of k s "T k"] by (auto simp: apart_def forest_def tree_ok_def)
  have aq: "apart q (T q) h (T k) \<and> apart q (T q) k v \<and> apart h (T k) q (T q) \<and> apart k v q (T q)"
    if "q \<in> H" "q \<noteq> h" "q \<noteq> k" for q
    using q[OF that] v by (auto simp: apart_def)
  show "forest lt H s' (T(h := T k, k := v)) (m(h := m k, k := contents s v))"
    unfolding forest_def using f H ok v c q ap aq by (auto simp: forest_def contents_def[of _ Tip])
  have "owned H (T(h := T k, k := v)) = (set (ptrs (T k)) \<union> set (ptrs v)) \<union> owned (H - {h, k}) T"
    "owned H T = (set (ptrs (T h)) \<union> set (ptrs (T k))) \<union> owned (H - {h, k}) T"
    using H by (auto simp: owned_def split: if_splits)
  then show "strays s' (owned H (T(h := T k, k := v))) = strays s (owned H T)"
    using st strays_Un by metis
qed

lemma advance:
  assumes "shaped h s t" "ptrs t = A @ M @ B"
  shows "rb_advance (length M) h s (hd (M @ B @ [h])) = Some (hd (B @ [h]))"
  using assms(2)
proof (induction M arbitrary: A)
  case (Cons a M)
  then show ?case using increment(1)[OF assms(1), of A a "M @ B"] Cons.IH[of "A @ [a]"] by simp
qed simp

lemma advance_begin:
  assumes "tree_ok h s t" "ptrs t = M @ B"
  shows "rb_advance (length M) h s (rb_begin h s) = Some (hd (B @ [h]))"
  using advance[of h s t "[]" M B] assms by (simp add: tree_ok_def extremes_def rb_begin_def)

section \<open>The refinement\<close>

context strict_weak
begin

lemma ins_list: "ins = list_insert lt"
  by (simp add: fun_eq_iff ins_def list_insert_def equiv_def)

lemma del_list: "del = list_erase lt"
  by (simp add: fun_eq_iff del_def list_erase_def equiv_def)

lemma sorted_insert: "sorted_wrt lt xs \<Longrightarrow> sorted_wrt lt (list_insert lt val xs)"
  using ordered_ins[of xs val] by (simp add: ordered_def ins_list)

lemma sorted_erase: "sorted_wrt lt xs \<Longrightarrow> sorted_wrt lt (list_erase lt val xs)"
  using ordered_del[of xs val] by (simp add: ordered_def del_list)

lemma sorted_fill: "sorted_wrt lt xs \<Longrightarrow> sorted_wrt lt (fold (list_insert lt) vals xs)"
  by (induction vals arbitrary: xs) (auto simp: sorted_insert)

text \<open>An operation that only concerns one tree.\<close>

lemma one_tree:
  assumes "forest lt H s T m" "h \<in> H" "trees_do lt op s = Some (n, s')" "evolves h s (T h) s' u"
    "sorted_wrt lt (contents s' u)" "lists_do lt op m = (n, m(h := contents s' u))"
  shows "\<exists>n s' T'. trees_do lt op s = Some (n, s') \<and> fst (lists_do lt op m) = n
    \<and> forest lt H s' T' (snd (lists_do lt op m)) \<and> strays s' (owned H T') = strays s (owned H T)"
  using forest_step[OF assms(1,2,4,5)] assms(3,6)
  by (intro exI[of _ n] exI[of _ s'] exI[of _ "T(h := u)"]) simp

lemma forest_tree:
  assumes "forest lt H s T m" "h \<in> H"
  shows "tree_ok h s (T h)" "contents s (T h) = m h" "sorted_wrt lt (m h)" "ordered (contents s (T h))"
    "length (m h) = length (ptrs (T h))"
proof -
  show "contents s (T h) = m h" using assms by (simp add: forest_def)
  from arg_cong[OF this, of length] show "length (m h) = length (ptrs (T h))" by (simp add: contents_def)
qed (use assms in \<open>auto simp: forest_def ordered_def\<close>)

lemma erase_at_refines:
  assumes "forest lt H s T m" "h \<in> H" "i \<le> length (m h)"
  shows "\<exists>s' u. trees_do lt (TreeEraseAt h i) s = Some (length (m h) - Suc i, s') \<and> evolves h s (T h) s' u
    \<and> contents s' u = take i (m h) @ drop (Suc i) (m h)"
proof -
  note t = forest_tree[OF assms(1,2)]
  let ?A = "take i (ptrs (T h))"
  have adv: "rb_advance i h s (rb_begin h s) = Some (hd (drop i (ptrs (T h)) @ [h]))"
    using advance_begin[OF t(1), of ?A "drop i (ptrs (T h))"] assms(3) t(5) by simp
  show ?thesis
  proof (cases "i = length (m h)")
    case True
    then have "rb_advance i h s (rb_begin h s) = Some h" using adv t(5) by simp
    then show ?thesis using True evolves_refl[OF t(1)] t(2)
      by (intro exI[of _ s] exI[of _ "T h"]) (simp add: rb_erase_at_def rb_end_def rb_walk.simps)
  next
    case False
    then have i: "i < length (ptrs (T h))" using assms(3) t(5) by simp
    let ?a = "ptrs (T h) ! i" and ?B = "drop (Suc i) (ptrs (T h))"
    have pt: "ptrs (T h) = ?A @ ?a # ?B" using i by (simp add: id_take_nth_drop)
    have dr: "drop i (ptrs (T h)) = ?a # ?B" using i by (simp add: Cons_nth_drop_Suc)
    obtain s' u where e: "rb_erase_node h ?a s = Some s'" "evolves h s (T h) s' u" "ptrs u = ?A @ ?B" "rb_value s' = rb_value s"
      using erase_evolves[OF t(1) pt] by blast
    have sh: "shaped h s (T h)" "shaped h s' u" using t(1) evolves_ok[OF e(2)] by (simp_all add: tree_ok_def)
    have "?a \<noteq> h" using shaped_not_nil[OF sh(1)] i nth_mem by metis
    then have "rb_erase_at h ?a s = Some (hd (?B @ [h]), s')"
      using increment(2)[OF sh(1) pt] e(1) by (simp add: rb_erase_at_def)
    moreover have "rb_walk h s' (hd (?B @ [h])) h = Some (map (rb_value s') ?B)"
      using walk[OF sh(2), of ?A ?B "[]"] e(3) by simp
    moreover have "contents s' u = take i (m h) @ drop (Suc i) (m h)"
      using t(2) e(3,4) by (simp add: contents_def take_map drop_map flip: t(2))
    ultimately show ?thesis using adv dr e(2) t(5) by (intro exI[of _ s'] exI[of _ u]) (simp add: rb_end_def)
  qed
qed

lemma erase_range_refines:
  assumes "forest lt H s T m" "h \<in> H" "i \<le> j" "j \<le> length (m h)"
  shows "\<exists>s' u. trees_do lt (TreeEraseRange h i j) s = Some (length (m h) - j, s') \<and> evolves h s (T h) s' u
    \<and> contents s' u = take i (m h) @ drop j (m h)"
proof -
  note t = forest_tree[OF assms(1,2)]
  let ?A = "take i (ptrs (T h))" and ?M = "take (j - i) (drop i (ptrs (T h)))" and ?B = "drop j (ptrs (T h))"
  have pt: "ptrs (T h) = ?A @ ?M @ ?B" by (rule take_append_drop_mid) (use assms(3,4) t(5) in auto)
  have "rb_advance i h s (rb_begin h s) = Some (hd (?M @ ?B @ [h]))"
    using advance_begin[OF t(1), of ?A "?M @ ?B"] pt assms(3,4) t(5) by simp
  moreover have "rb_advance j h s (rb_begin h s) = Some (hd (?B @ [h]))"
    using advance_begin[OF t(1), of "take j (ptrs (T h))" ?B] assms(4) t(5) by simp
  moreover obtain s' u where e: "rb_erase_range h (hd (?M @ ?B @ [h])) (hd (?B @ [h])) s = Some (hd (?B @ [h]), s')"
    "evolves h s (T h) s' u" "ptrs u = ?A @ ?B" "rb_value s' = rb_value s"
    using erase_range[OF t(1) pt] by blast
  moreover have "rb_walk h s' (hd (?B @ [h])) h = Some (map (rb_value s') ?B)"
    using walk[of h s' u ?A ?B "[]"] e(3) evolves_ok[OF e(2)] by (simp add: tree_ok_def)
  moreover have "contents s' u = take i (m h) @ drop j (m h)"
    using e(3,4) by (simp add: contents_def take_map drop_map flip: t(2))
  ultimately show ?thesis using t(5) by (intro exI[of _ s'] exI[of _ u]) (simp add: rb_end_def)
qed

lemma trees_do_refines:
  assumes f: "forest lt H s T m" and ok: "tree_op_ok H op m"
  shows "\<exists>n s' T'. trees_do lt op s = Some (n, s') \<and> fst (lists_do lt op m) = n
    \<and> forest lt H s' T' (snd (lists_do lt op m)) \<and> strays s' (owned H T') = strays s (owned H T)"
proof (cases op)
  case (TreeInsert h val)
  then have H: "h \<in> H" using ok by simp
  note t = forest_tree[OF f H]
  obtain a b s' u where i: "rb_insert h lt val s = Some (a, b, s')" "evolves h s (T h) s' u"
    "contents s' u = list_insert lt val (m h)" "b = (\<forall>x\<in>set (m h). \<not> equiv val x)"
    using insert_ins[OF t(1,4)] unfolding ins_list t(2) by blast
  show ?thesis by (rule one_tree[OF f H _ i(2)]) (use TreeInsert i t sorted_insert in \<open>auto simp: equiv_def\<close>)
next
  case (TreeFill h vals)
  then have H: "h \<in> H" using ok by simp
  note t = forest_tree[OF f H]
  obtain s' u where i: "rb_insert_list h lt vals s = Some s'" "evolves h s (T h) s' u"
    "contents s' u = fold (list_insert lt) vals (m h)"
    using insert_list_ins[OF t(1,4)] unfolding ins_list t(2) by blast
  show ?thesis by (rule one_tree[OF f H _ i(2)]) (use TreeFill i t sorted_fill in auto)
next
  case (TreeErase h val)
  then have H: "h \<in> H" using ok by simp
  note t = forest_tree[OF f H]
  obtain s' u where i: "rb_erase_value h lt val s = Some (if \<exists>x\<in>set (m h). equiv val x then 1 else 0, s')"
    "evolves h s (T h) s' u" "contents s' u = list_erase lt val (m h)"
    using erase_value_del[OF t(1,4)] unfolding del_list t(2) by blast
  show ?thesis by (rule one_tree[OF f H _ i(2)]) (use TreeErase i t sorted_erase in \<open>auto simp: equiv_def\<close>)
next
  case (TreeEraseAt h i)
  then have H: "h \<in> H" "i \<le> length (m h)" using ok by simp_all
  obtain s' u where e: "trees_do lt op s = Some (length (m h) - Suc i, s')" "evolves h s (T h) s' u"
    "contents s' u = take i (m h) @ drop (Suc i) (m h)" using erase_at_refines[OF f H] TreeEraseAt by blast
  have "sorted_wrt lt (contents s' u)"
    using forest_tree(3)[OF f H(1)] e(3) sorted_wrt_cut[of lt "m h" i "Suc i"] by simp
  then show ?thesis using one_tree[OF f H(1) e(1,2)] TreeEraseAt e(3) by simp
next
  case (TreeEraseRange h i j)
  then have H: "h \<in> H" "i \<le> j" "j \<le> length (m h)" using ok by simp_all
  obtain s' u where e: "trees_do lt op s = Some (length (m h) - j, s')" "evolves h s (T h) s' u"
    "contents s' u = take i (m h) @ drop j (m h)" using erase_range_refines[OF f H] TreeEraseRange by blast
  have "sorted_wrt lt (contents s' u)"
    using forest_tree(3)[OF f H(1)] e(3) H(2) sorted_wrt_cut[of lt "m h" i j] by simp
  then show ?thesis using one_tree[OF f H(1) e(1,2)] TreeEraseRange e(3) by simp
next
  case (TreeClear h)
  then have H: "h \<in> H" using ok by simp
  obtain s' where c: "rb_clear h s = Some s'" "evolves h s (T h) s' Tip" using clear_ok[OF forest_tree(1)[OF f H]] by blast
  show ?thesis by (rule one_tree[OF f H _ c(2)]) (use TreeClear c in \<open>auto simp: contents_def\<close>)
next
  case (TreeAssign h k)
  then have H: "h \<in> H" "k \<in> H" using ok by simp_all
  show ?thesis
  proof (cases "h = k")
    case True
    then show ?thesis using f TreeAssign by (intro exI[of _ 0] exI[of _ s] exI[of _ T]) (simp add: rb_copy_assign_def)
  next
    case False
    note t = forest_tree[OF f H(2)]
    have "apart h (T h) k (T k)" using f H False by (simp add: forest_def)
    then obtain s' u where c: "rb_copy_assign h lt k s = Some s'" "evolves h s (T h) s' u" "contents s' u = m k"
      using copy_assign_ok[OF forest_tree(1)[OF f H(1)] t(1) _ t(4)] t(2) by auto
    show ?thesis by (rule one_tree[OF f H(1) _ c(2)]) (use TreeAssign c t in auto)
  qed
next
  case (TreeMoveAssign h k)
  then have H: "h \<in> H" "k \<in> H" using ok by simp_all
  show ?thesis
  proof (cases "h = k")
    case True
    then show ?thesis using f TreeMoveAssign by (intro exI[of _ 0] exI[of _ s] exI[of _ T]) (simp add: rb_move_assign_def)
  next
    case False
    have "apart h (T h) k (T k)" using f H False by (simp add: forest_def)
    then obtain s' where c: "rb_move_assign h k s = Some s'" "rb_value s' = rb_value s" "tree_ok h s' (T k)" "tree_ok k s' Tip"
      "within h (insert k (set (ptrs (T h)) \<union> set (ptrs (T k)))) s s'"
      "strays s' (set (ptrs (T k))) = strays s (set (ptrs (T h)) \<union> set (ptrs (T k)))"
      using move_assign_ok[OF forest_tree(1)[OF f H(1)] forest_tree(1)[OF f H(2)]] by blast
    have st: "strays s' (set (ptrs (T k)) \<union> set (ptrs Tip)) = strays s (set (ptrs (T h)) \<union> set (ptrs (T k)))" using c(6) by simp
    show ?thesis using forest_step2[OF f H False c(3,4) disjI1[OF refl] c(5,2) st] TreeMoveAssign c(1) False
      by (intro exI[of _ 0] exI[of _ s'] exI[of _ "T(h := T k, k := Tip)"]) (simp add: contents_def)
  qed
next
  case (TreeSwap h k)
  then have H: "h \<in> H" "k \<in> H" using ok by simp_all
  show ?thesis
  proof (cases "h = k")
    case True
    then show ?thesis using f TreeSwap by (intro exI[of _ 0] exI[of _ s] exI[of _ T]) (simp add: rb_swap_def)
  next
    case False
    have "apart h (T h) k (T k)" using f H False by (simp add: forest_def)
    then obtain s' where c: "rb_swap h k s = Some s'" "rb_value s' = rb_value s" "rb_live s' = rb_live s" "rb_fresh s' = rb_fresh s"
      "tree_ok h s' (T k)" "tree_ok k s' (T h)" "within h (insert k (set (ptrs (T h)) \<union> set (ptrs (T k)))) s s'"
      using swap_ok[OF forest_tree(1)[OF f H(1)] forest_tree(1)[OF f H(2)]] by blast
    have st: "strays s' (set (ptrs (T k)) \<union> set (ptrs (T h))) = strays s (set (ptrs (T h)) \<union> set (ptrs (T k)))"
      using c(3,4) by (auto simp: strays_def)
    show ?thesis using forest_step2[OF f H False c(5,6) disjI2[OF refl] c(7,2) st] TreeSwap c(1) forest_tree(2)[OF f H(1)]
      by (intro exI[of _ 0] exI[of _ s'] exI[of _ "T(h := T k, k := T h)"]) simp
  qed
qed

end

lemma forest_construct:
  assumes "\<forall>h\<in>set hs. h < rb_fresh s"
  shows "forest lt (set hs) (fold rb_construct hs s) (\<lambda>_. Tip) (\<lambda>_. [])" "strays (fold rb_construct hs s) {} = strays s {}"
proof -
  have "(\<forall>h\<in>A \<union> set hs. tree_ok h (fold rb_construct hs s) Tip) \<and> strays (fold rb_construct hs s) {} = strays s {}"
    if "\<forall>h\<in>A. tree_ok h s Tip" for A
    using assms that
  proof (induction hs arbitrary: s A)
    case (Cons h hs)
    note c = construct_ok[of h s]
    have "tree_ok k (rb_construct h s) Tip" if "k \<in> insert h A" for k
      using that c(1) within_other(1)[OF c(2), of k Tip] Cons.prems by (cases "k = h") auto
    moreover have "strays (rb_construct h s) {} = strays s {}"
      by (simp add: strays_def rb_construct_def rb_init_header_def rb_header_def setters)
    ultimately show ?case using Cons.IH[of "rb_construct h s" "insert h A"] Cons.prems c(3) by simp
  qed simp
  from this[of "{}"] show "forest lt (set hs) (fold rb_construct hs s) (\<lambda>_. Tip) (\<lambda>_. [])"
    "strays (fold rb_construct hs s) {} = strays s {}" by (simp_all add: forest_def contents_def apart_def)
qed

context strict_weak
begin

lemma trees_run_refines:
  assumes "forest lt H s T m" "tree_ops_ok lt H ops m"
  shows "\<exists>s' T'. trees_run lt ops s = Some (fst (lists_run lt ops m), s')
    \<and> forest lt H s' T' (snd (lists_run lt ops m)) \<and> strays s' (owned H T') = strays s (owned H T)"
  using assms
proof (induction ops arbitrary: s T m)
  case Nil
  then show ?case by (auto intro!: exI[of _ T])
next
  case (Cons op ops)
  obtain n s1 T1 where d: "trees_do lt op s = Some (n, s1)" "fst (lists_do lt op m) = n"
    "forest lt H s1 T1 (snd (lists_do lt op m))" "strays s1 (owned H T1) = strays s (owned H T)"
    using trees_do_refines[OF Cons.prems(1), of op] Cons.prems(2) by auto
  from Cons.IH[OF d(3)] Cons.prems(2) obtain s' T' where
    "trees_run lt ops s1 = Some (fst (lists_run lt ops (snd (lists_do lt op m))), s')"
    "forest lt H s' T' (snd (lists_run lt ops (snd (lists_do lt op m))))" "strays s' (owned H T') = strays s1 (owned H T1)" by auto
  then show ?case using d by (intro exI[of _ s'] exI[of _ T']) (simp add: case_prod_unfold Let_def)
qed

end

lemma program_runs:
  assumes "strict_weak lt" "\<forall>h\<in>set hs. h < rb_fresh s" "tree_ops_ok lt (set hs) ops (\<lambda>_. [])"
  obtains s' T where "trees_run lt ops (fold rb_construct hs s) = Some (fst (lists_run lt ops (\<lambda>_. [])), s')"
    "forest lt (set hs) s' T (snd (lists_run lt ops (\<lambda>_. [])))" "strays s' (owned (set hs) T) = strays s {}"
proof -
  note c = forest_construct[OF assms(2)]
  have "owned (set hs) (\<lambda>_. Tip) = {}" by (simp add: owned_def)
  then show ?thesis using strict_weak.trees_run_refines[OF assms(1) c(1) assms(3)] c(2) that by auto
qed

section \<open>Depth\<close>

fun depth :: "shape \<Rightarrow> nat" where
  "depth Tip = 0"
| "depth (Bin l a c r) = Suc (max (depth l) (depth r))"

lemma depth_bh: "invc t \<Longrightarrow> invh t \<Longrightarrow> depth t \<le> 2 * bh t + of_bool (\<not> colr t)"
proof (induction t)
  case (Bin l a c r)
  then show ?case by (cases "colr l"; cases "colr r"; auto split: if_splits)
qed simp

lemma bh_size: "invh t \<Longrightarrow> 2 ^ bh t \<le> length (ptrs t) + 1"
  by (induction t) auto

lemma depth_bound:
  assumes "balanced t"
  shows "2 ^ depth t \<le> (length (ptrs t) + 1)\<^sup>2"
proof -
  have "depth t \<le> 2 * bh t" using depth_bh[of t] assms by (simp add: balanced_def)
  then have "(2::nat) ^ depth t \<le> 2 ^ (2 * bh t)" by (rule power_increasing) simp
  also have "\<dots> = (2 ^ bh t)\<^sup>2" by (simp add: power_mult[symmetric] mult.commute)
  also have "\<dots> \<le> (length (ptrs t) + 1)\<^sup>2" using bh_size[of t] assms by (intro power_mono) (auto simp: balanced_def)
  finally show ?thesis .
qed

text \<open>How many nodes there are from a node up to the root, both included: as many as a search for its element looks at.\<close>

partial_function (option) rb_level :: "ptr \<Rightarrow> 'v rbstore \<Rightarrow> ptr \<Rightarrow> nat option" where
  "rb_level h s n = (if n = h then Some 0 else Option.bind (rb_level h s (rb_parent s n)) (\<lambda>d. Some (d + 1)))"

declare rb_level.simps [code]

lemma depth_plug: "length C + depth t \<le> depth (plug C t)"
  by (induction C t rule: plug.induct) (force elim: order_trans[rotated])+

lemma level_over: "shaped h s (plug C t) \<Longrightarrow> rb_level h s (over h C) = Some (length C)"
proof (induction C t rule: plug.induct)
  case (1 t)
  then show ?case by (simp add: rb_level.simps)
next
  case (2 a c r C t)
  then have "rb_level h s (over h C) = Some (length C)" "a \<noteq> h" "rb_parent s a = over h C" by (auto simp: shaped_plug)
  then show ?case by (subst rb_level.simps) simp
next
  case (3 l a c C t)
  then have "rb_level h s (over h C) = Some (length C)" "a \<noteq> h" "rb_parent s a = over h C" by (auto simp: shaped_plug)
  then show ?case by (subst rb_level.simps) simp
qed

lemma level_bound:
  assumes "tree_ok h s t" "ptrs t = A @ a # B"
  shows "\<exists>d. rb_level h s a = Some d \<and> 2 ^ d \<le> (rb_size s h + 1)\<^sup>2"
proof -
  obtain C l c r where t: "t = plug C (Bin l a c r)" using locate[of a t] assms(2) by auto
  have "shaped h s (plug (InL a c r # C) l)" using assms(1) t by (simp add: tree_ok_def)
  then have "rb_level h s a = Some (Suc (length C))" using level_over by fastforce
  moreover have "Suc (length C) \<le> depth t" using depth_plug[of C "Bin l a c r"] t by simp
  then have "(2::nat) ^ Suc (length C) \<le> 2 ^ depth t" by (rule power_increasing) simp
  moreover have "2 ^ depth t \<le> (rb_size s h + 1)\<^sup>2" using depth_bound[of t] assms(1) by (simp add: tree_ok_def)
  ultimately show ?thesis using order_trans by blast
qed

end
