(* ===== verification/RBMap.thy ===== *)
theory RBMap
  imports RBForest
begin

text \<open>
  The map and the set of \<^verbatim>\<open>libs/base/map.hpp\<close> and \<^verbatim>\<open>set.hpp\<close> on the red-black tree. A map holds pairs and
  compares their keys; a lookup builds a pair of the key and a default value to search for. The set hands its operations over
  to the tree. The map keeps the promise of \<open>MapSpec\<close> for every strict weak order of the keys, and with
  \<^verbatim>\<open>std::less\<close> in particular.
\<close>

section \<open>The map\<close>

definition value_compare :: "('k \<Rightarrow> 'k \<Rightarrow> bool) \<Rightarrow> 'k \<times> 'v \<Rightarrow> 'k \<times> 'v \<Rightarrow> bool" where
  "value_compare lt a b = lt (fst a) (fst b)"

definition rbm_find :: "ptr \<Rightarrow> ('k \<Rightarrow> 'k \<Rightarrow> bool) \<Rightarrow> 'v \<Rightarrow> 'k \<Rightarrow> ('k \<times> 'v) rbstore \<Rightarrow> ptr option" where
  "rbm_find h lt dflt key s = (let probe = (key, dflt) in rb_find h (value_compare lt) probe s)"

definition rbm_at :: "ptr \<Rightarrow> ('k \<Rightarrow> 'k \<Rightarrow> bool) \<Rightarrow> 'v \<Rightarrow> 'k \<Rightarrow> ('k \<times> 'v) rbstore \<Rightarrow> 'v res option" where
  "rbm_at h lt dflt key s =
     Option.bind (rbm_find h lt dflt key s) (\<lambda>it.
     Some (if it = rb_end h s then Inl OutOfRange else Inr (snd (rb_value s it))))"

text \<open>The reference that \<^verbatim>\<open>operator[]\<close> returns is to the value in the node.\<close>

definition rbm_index ::
  "ptr \<Rightarrow> ('k \<Rightarrow> 'k \<Rightarrow> bool) \<Rightarrow> 'v \<Rightarrow> 'k \<Rightarrow> ('k \<times> 'v) rbstore \<Rightarrow> (ptr \<times> ('k \<times> 'v) rbstore) option" where
  "rbm_index h lt dflt key s =
     Option.bind (rb_insert h (value_compare lt) (key, dflt) s) (\<lambda>(it, ok, s). Some (it, s))"

definition rbm_try_emplace ::
  "ptr \<Rightarrow> ('k \<Rightarrow> 'k \<Rightarrow> bool) \<Rightarrow> 'v \<Rightarrow> 'k \<Rightarrow> 'v \<Rightarrow> ('k \<times> 'v) rbstore \<Rightarrow> (ptr \<times> bool \<times> ('k \<times> 'v) rbstore) option" where
  "rbm_try_emplace h lt dflt key val s =
     Option.bind (rbm_find h lt dflt key s) (\<lambda>it.
     if it \<noteq> rb_end h s then Some (it, False, s) else rb_insert h (value_compare lt) (key, val) s)"

definition rbm_insert_or_assign ::
  "ptr \<Rightarrow> ('k \<Rightarrow> 'k \<Rightarrow> bool) \<Rightarrow> 'v \<Rightarrow> 'k \<Rightarrow> 'v \<Rightarrow> ('k \<times> 'v) rbstore \<Rightarrow> (ptr \<times> bool \<times> ('k \<times> 'v) rbstore) option" where
  "rbm_insert_or_assign h lt dflt key val s =
     Option.bind (rbm_find h lt dflt key s) (\<lambda>it.
     if it \<noteq> rb_end h s then Some (it, False, set_value it (fst (rb_value s it), val) s)
     else rb_insert h (value_compare lt) (key, val) s)"

definition rbm_erase_key ::
  "ptr \<Rightarrow> ('k \<Rightarrow> 'k \<Rightarrow> bool) \<Rightarrow> 'v \<Rightarrow> 'k \<Rightarrow> ('k \<times> 'v) rbstore \<Rightarrow> (nat \<times> ('k \<times> 'v) rbstore) option" where
  "rbm_erase_key h lt dflt key s = (let probe = (key, dflt) in rb_erase_value h (value_compare lt) probe s)"

definition rbm_extract :: "ptr \<Rightarrow> ptr \<Rightarrow> 'v rbstore \<Rightarrow> ('v \<times> 'v rbstore) option" where
  "rbm_extract h pos s =
     (let val = rb_value s pos in Option.bind (rb_erase_at h pos s) (\<lambda>(it, s). Some (val, s)))"

definition rbm_contains :: "ptr \<Rightarrow> ('k \<Rightarrow> 'k \<Rightarrow> bool) \<Rightarrow> 'v \<Rightarrow> 'k \<Rightarrow> ('k \<times> 'v) rbstore \<Rightarrow> bool option" where
  "rbm_contains h lt dflt key s = (let probe = (key, dflt) in rb_contains h (value_compare lt) probe s)"

definition rbm_count :: "ptr \<Rightarrow> ('k \<Rightarrow> 'k \<Rightarrow> bool) \<Rightarrow> 'v \<Rightarrow> 'k \<Rightarrow> ('k \<times> 'v) rbstore \<Rightarrow> nat option" where
  "rbm_count h lt dflt key s = Option.bind (rbm_contains h lt dflt key s) (\<lambda>c. Some (if c then 1 else 0))"

definition rbm_lower_bound :: "ptr \<Rightarrow> ('k \<Rightarrow> 'k \<Rightarrow> bool) \<Rightarrow> 'v \<Rightarrow> 'k \<Rightarrow> ('k \<times> 'v) rbstore \<Rightarrow> ptr option" where
  "rbm_lower_bound h lt dflt key s = (let probe = (key, dflt) in rb_lower_bound h (value_compare lt) probe s)"

definition rbm_upper_bound :: "ptr \<Rightarrow> ('k \<Rightarrow> 'k \<Rightarrow> bool) \<Rightarrow> 'v \<Rightarrow> 'k \<Rightarrow> ('k \<times> 'v) rbstore \<Rightarrow> ptr option" where
  "rbm_upper_bound h lt dflt key s = (let probe = (key, dflt) in rb_upper_bound h (value_compare lt) probe s)"

definition rbm_equal_range ::
  "ptr \<Rightarrow> ('k \<Rightarrow> 'k \<Rightarrow> bool) \<Rightarrow> 'v \<Rightarrow> 'k \<Rightarrow> ('k \<times> 'v) rbstore \<Rightarrow> (ptr \<times> ptr) option" where
  "rbm_equal_range h lt dflt key s =
     Option.bind (rbm_lower_bound h lt dflt key s) (\<lambda>lo.
     Option.bind (rbm_upper_bound h lt dflt key s) (\<lambda>hi. Some (lo, hi)))"

definition rbm_assign_list ::
  "ptr \<Rightarrow> ('k \<Rightarrow> 'k \<Rightarrow> bool) \<Rightarrow> ('k \<times> 'v) list \<Rightarrow> ('k \<times> 'v) rbstore \<Rightarrow> ('k \<times> 'v) rbstore option" where
  "rbm_assign_list h lt ilist s =
     Option.bind (rb_clear h s) (\<lambda>s. rb_insert_list h (value_compare lt) ilist s)"

section \<open>The set\<close>

definition rbs_count :: "ptr \<Rightarrow> ('k \<Rightarrow> 'k \<Rightarrow> bool) \<Rightarrow> 'k \<Rightarrow> 'k rbstore \<Rightarrow> nat option" where
  "rbs_count h lt val s = Option.bind (rb_contains h lt val s) (\<lambda>c. Some (if c then 1 else 0))"

definition rbs_equal_range :: "ptr \<Rightarrow> ('k \<Rightarrow> 'k \<Rightarrow> bool) \<Rightarrow> 'k \<Rightarrow> 'k rbstore \<Rightarrow> (ptr \<times> ptr) option" where
  "rbs_equal_range h lt val s =
     Option.bind (rb_lower_bound h lt val s) (\<lambda>lo. Option.bind (rb_upper_bound h lt val s) (\<lambda>hi. Some (lo, hi)))"

definition rbs_extract :: "ptr \<Rightarrow> ptr \<Rightarrow> 'k rbstore \<Rightarrow> ('k \<times> 'k rbstore) option" where
  "rbs_extract h pos s =
     (let val = rb_value s pos in Option.bind (rb_erase_at h pos s) (\<lambda>(it, s). Some (val, s)))"

definition rbs_assign_list :: "ptr \<Rightarrow> ('k \<Rightarrow> 'k \<Rightarrow> bool) \<Rightarrow> 'k list \<Rightarrow> 'k rbstore \<Rightarrow> 'k rbstore option" where
  "rbs_assign_list h lt ilist s = Option.bind (rb_clear h s) (\<lambda>s. rb_insert_list h lt ilist s)"

section \<open>Lookups in a sorted tree\<close>

context strict_weak
begin

lemma find_ordered:
  assumes "ordered xs"
  shows "List.find (equiv val) xs = Some x \<longleftrightarrow> x \<in> set xs \<and> equiv val x"
proof
  show "List.find (equiv val) xs = Some x \<Longrightarrow> x \<in> set xs \<and> equiv val x" by (auto simp: find_Some_iff)
next
  assume x: "x \<in> set xs \<and> equiv val x"
  then have "List.find (equiv val) xs \<noteq> None" by (auto simp: find_None_iff)
  then obtain y where y: "List.find (equiv val) xs = Some y" by auto
  then have iny: "y \<in> set xs" and "equiv val y" by (auto simp: find_Some_iff)
  then have e: "equiv x y" using x equiv_trans[OF equiv_sym, of val x y] by blast
  obtain as bs where s: "xs = as @ x # bs" using x split_list[of x xs] by blast
  have "y \<notin> set as \<union> set bs" using ordered_distinct[of as x bs y] assms s e by blast
  then have "y = x" using iny s by simp
  then show "List.find (equiv val) xs = Some x" using y by simp
qed

lemma set_ins:
  "set (ins val xs) = (if \<exists>x\<in>set xs. equiv val x then set xs else insert val (set xs))"
  by (auto simp: ins_def equiv_def)

lemma set_del: "set (del val xs) = {x \<in> set xs. \<not> equiv val x}"
  by (simp add: del_def)


lemma contains_eq:
  assumes "tree_ok h s t" "ordered (contents s t)"
  shows "rb_contains h lt val s = Some (\<exists>x\<in>set (contents s t). equiv val x)"
  using assms by (rule search_cases[where val = val])
    (auto simp: rb_contains_def rb_find_node_def contents_def)

lemma walk_bound:
  assumes "tree_ok h s t" "ordered (contents s t)" "\<And>x y. lt x y \<Longrightarrow> P x \<Longrightarrow> P y"
  shows "rb_walk h s (hd (filter (\<lambda>a. P (rb_value s a)) (ptrs t) @ [h])) (rb_end h s) = Some (filter P (contents s t))"
proof -
  have sw: "sorted_wrt (\<lambda>a b. lt (rb_value s a) (rb_value s b)) (ptrs t)"
    using assms(2) by (simp add: ordered_def contents_def sorted_wrt_map)
  have "\<exists>as. xs = as @ filter (\<lambda>a. P (rb_value s a)) xs" if "sorted_wrt (\<lambda>a b. lt (rb_value s a) (rb_value s b)) xs" for xs
    using that
  proof (induction xs)
    case (Cons x xs)
    show ?case
    proof (cases "P (rb_value s x)")
      case True
      then have "\<forall>y\<in>set xs. P (rb_value s y)" using Cons.prems assms(3) by auto
      then show ?thesis using True by (intro exI[of _ "[]"]) (simp add: filter_id_conv)
    next
      case False
      then obtain as where "xs = as @ filter (\<lambda>a. P (rb_value s a)) xs" using Cons by auto
      then show ?thesis using False by (intro exI[of _ "x # as"]) simp
    qed
  qed simp
  from this[OF sw] obtain as where "ptrs t = as @ filter (\<lambda>a. P (rb_value s a)) (ptrs t) @ []" by auto
  then show ?thesis using walk[of h s t as "filter (\<lambda>a. P (rb_value s a)) (ptrs t)" "[]"] assms(1)
    by (simp add: tree_ok_def rb_end_def contents_def filter_map comp_def)
qed

lemma bounds_eq:
  assumes "tree_ok h s t" "ordered (contents s t)"
  shows "\<exists>it. rb_lower_bound h lt val s = Some it
      \<and> rb_walk h s it (rb_end h s) = Some (filter (\<lambda>x. \<not> lt x val) (contents s t))"
    "\<exists>it. rb_upper_bound h lt val s = Some it \<and> rb_walk h s it (rb_end h s) = Some (filter (lt val) (contents s t))"
proof -
  have r: "rb_root h s = apex h t" "rep h s h t" using assms(1) by (simp_all add: tree_ok_def shaped_def)
  show "\<exists>it. rb_lower_bound h lt val s = Some it
      \<and> rb_walk h s it (rb_end h s) = Some (filter (\<lambda>x. \<not> lt x val) (contents s t))"
    using lower_loop[OF r(2) assms(2), of val h] r(1) walk_bound[OF assms, of "\<lambda>x. \<not> lt x val"] lt_trans
    by (auto simp: rb_lower_bound_def)
  show "\<exists>it. rb_upper_bound h lt val s = Some it \<and> rb_walk h s it (rb_end h s) = Some (filter (lt val) (contents s t))"
    using upper_loop[OF r(2) assms(2), of val h] r(1) walk_bound[OF assms, of "lt val"] lt_trans
    by (auto simp: rb_upper_bound_def)
qed

text \<open>All lookups of a tree.\<close>

lemma lookups:
  assumes "tree_ok h s t" "contents s t = xs" "sorted_wrt lt xs"
  shows "rb_contains h lt val s = Some (\<exists>x\<in>set xs. \<not> lt val x \<and> \<not> lt x val)
    \<and> (\<exists>it. rb_find h lt val s = Some it
         \<and> (if it = rb_end h s then \<forall>x\<in>set xs. lt val x \<or> lt x val
            else rb_value s it \<in> set xs \<and> \<not> lt val (rb_value s it) \<and> \<not> lt (rb_value s it) val))
    \<and> (\<exists>lo hi. rbs_equal_range h lt val s = Some (lo, hi)
         \<and> rb_walk h s lo (rb_end h s) = Some (filter (\<lambda>x. \<not> lt x val) xs)
         \<and> rb_walk h s hi (rb_end h s) = Some (filter (lt val) xs))"
proof (intro conjI)
  have o: "ordered (contents s t)" using assms(2,3) by (simp add: ordered_def)
  show "rb_contains h lt val s = Some (\<exists>x\<in>set xs. \<not> lt val x \<and> \<not> lt x val)"
    using contains_eq[OF assms(1) o, of val] assms(2) by (simp add: equiv_def)
  show "\<exists>it. rb_find h lt val s = Some it
         \<and> (if it = rb_end h s then \<forall>x\<in>set xs. lt val x \<or> lt x val
            else rb_value s it \<in> set xs \<and> \<not> lt val (rb_value s it) \<and> \<not> lt (rb_value s it) val)"
    using assms(1) o by (rule find_cases[where val = val])
      (use assms(2) in \<open>auto simp: rb_end_def contents_def equiv_def find_None_iff\<close>)
  show "\<exists>lo hi. rbs_equal_range h lt val s = Some (lo, hi)
         \<and> rb_walk h s lo (rb_end h s) = Some (filter (\<lambda>x. \<not> lt x val) xs)
         \<and> rb_walk h s hi (rb_end h s) = Some (filter (lt val) xs)"
    using bounds_eq[OF assms(1) o, of val] assms(2) by (auto simp: rbs_equal_range_def)
qed

lemma find_level:
  assumes "tree_ok h s t" "sorted_wrt lt (contents s t)" "rb_find h lt val s = Some it" "it \<noteq> rb_end h s"
  shows "\<exists>d. rb_level h s it = Some d \<and> 2 ^ d \<le> (rb_size s h + 1)\<^sup>2"
proof -
  have o: "ordered (contents s t)" using assms(2) by (simp add: ordered_def)
  from assms(1) o obtain A B where "ptrs t = A @ it # B"
    by (rule find_cases[where val = val]) (use assms(3,4) in \<open>auto simp: rb_end_def\<close>)
  then show ?thesis using level_bound[OF assms(1)] by blast
qed

end

section \<open>The map keeps its promise\<close>

definition list_lookup :: "('k \<Rightarrow> 'k \<Rightarrow> bool) \<Rightarrow> 'k \<Rightarrow> ('k \<times> 'v) list \<Rightarrow> 'v option" where
  "list_lookup lt k kvs = map_option snd (List.find (\<lambda>kv. \<not> lt k (fst kv) \<and> \<not> lt (fst kv) k) kvs)"

definition rbm_get :: "ptr \<Rightarrow> ('k \<Rightarrow> 'k \<Rightarrow> bool) \<Rightarrow> 'v \<Rightarrow> ('k \<times> 'v) rbstore \<Rightarrow> 'k \<Rightarrow> 'v option" where
  "rbm_get h lt dflt s key = (case rbm_at h lt dflt key s of Some (Inr v) \<Rightarrow> Some v | _ \<Rightarrow> None)"

definition rbm_ok :: "ptr \<Rightarrow> ('k \<Rightarrow> 'k \<Rightarrow> bool) \<Rightarrow> ('k \<times> 'v) rbstore \<Rightarrow> bool" where
  "rbm_ok h lt s \<longleftrightarrow> (\<exists>t. tree_ok h s t \<and> sorted_wrt (value_compare lt) (contents s t))"

text \<open>Insertion and erasure as the interface has them; a loop that did not end would be an error.\<close>

definition rbm_put ::
  "ptr \<Rightarrow> ('k \<Rightarrow> 'k \<Rightarrow> bool) \<Rightarrow> 'k \<Rightarrow> 'v \<Rightarrow> ('k \<times> 'v) rbstore \<Rightarrow> (bool \<times> ('k \<times> 'v) rbstore) res" where
  "rbm_put h lt key val s =
     (case rb_insert h (value_compare lt) (key, val) s of None \<Rightarrow> Inl Undefined | Some (it, ok, s) \<Rightarrow> Inr (ok, s))"

definition rbm_del ::
  "ptr \<Rightarrow> ('k \<Rightarrow> 'k \<Rightarrow> bool) \<Rightarrow> 'v \<Rightarrow> 'k \<Rightarrow> ('k \<times> 'v) rbstore \<Rightarrow> (nat \<times> ('k \<times> 'v) rbstore) res" where
  "rbm_del h lt dflt key s = (case rbm_erase_key h lt dflt key s of None \<Rightarrow> Inl Undefined | Some r \<Rightarrow> Inr r)"

locale key_order = strict_weak lt for lt :: "'k \<Rightarrow> 'k \<Rightarrow> bool"

sublocale key_order \<subseteq> entries: strict_weak "value_compare lt :: 'k \<times> 'v \<Rightarrow> 'k \<times> 'v \<Rightarrow> bool"
  by unfold_locales (auto simp: value_compare_def lt_irrefl intro: lt_trans dest: not_lt_trans)

context key_order
begin

lemma entry_equiv: "entries.equiv kv kw = equiv (fst kv) (fst kw)"
  by (simp add: entries.equiv_def equiv_def value_compare_def)

lemma lookup_find: "list_lookup lt k kvs = map_option snd (List.find (entries.equiv (k, d)) kvs)"
proof -
  have "entries.equiv (k, d) = (\<lambda>kv. \<not> lt k (fst kv) \<and> \<not> lt (fst kv) k)" by (simp add: fun_eq_iff entry_equiv equiv_def)
  then show ?thesis by (simp add: list_lookup_def)
qed

lemma lookup_Some:
  assumes "entries.ordered kvs"
  shows "list_lookup lt k kvs = Some v \<longleftrightarrow> (\<exists>x. (x, v) \<in> set kvs \<and> equiv k x)"
  unfolding lookup_find[of k kvs v] using entries.find_ordered[OF assms, of "(k, v)"] by (auto simp: entry_equiv)

lemma lookup_None: "list_lookup lt k kvs = None \<longleftrightarrow> (\<forall>x v. (x, v) \<in> set kvs \<longrightarrow> \<not> equiv k x)"
  by (force simp: list_lookup_def find_None_iff equiv_def)

lemma lookup_same: "equiv a b \<Longrightarrow> list_lookup lt a kvs = list_lookup lt b kvs"
  using equiv_lt by (simp add: list_lookup_def)

lemma option_ext: "(\<And>v. a = Some v \<longleftrightarrow> b = Some v) \<Longrightarrow> a = b"
  by (metis not_None_eq)

lemma lookup_ins:
  assumes "entries.ordered kvs"
  shows "list_lookup lt q (entries.ins (k, v) kvs) = (if equiv k q \<and> list_lookup lt k kvs = None then Some v else list_lookup lt q kvs)"
proof (cases "list_lookup lt k kvs = None")
  case False
  obtain x w where "(x, w) \<in> set kvs" "equiv k x" using False unfolding lookup_None by blast
  then have "\<exists>kv\<in>set kvs. entries.equiv (k, v) kv" by (intro bexI[of _ "(x, w)"]) (auto simp: entry_equiv)
  then have "entries.ins (k, v) kvs = kvs" by (simp add: entries.ins_def)
  then show ?thesis using False by auto
next
  case True
  then have st: "set (entries.ins (k, v) kvs) = insert (k, v) (set kvs)"
    by (auto simp: lookup_None entries.set_ins entry_equiv)
  have w: "list_lookup lt q (entries.ins (k, v) kvs) = Some w \<longleftrightarrow> w = v \<and> equiv q k \<or> list_lookup lt q kvs = Some w" for w
    unfolding lookup_Some[OF entries.ordered_ins[OF assms]] lookup_Some[OF assms] st by auto
  have "list_lookup lt q kvs = None" if "equiv q k" using lookup_same[OF that, of kvs] True by simp
  moreover have "equiv k q = equiv q k" by (auto intro: equiv_sym)
  ultimately show ?thesis using True w by (intro option_ext) auto
qed

lemma lookup_del:
  assumes "entries.ordered kvs"
  shows "list_lookup lt q (entries.del (k, d) kvs) = (if equiv k q then None else list_lookup lt q kvs)"
proof -
  have "equiv k q" if "equiv q x" "equiv k x" for x using that equiv_sym equiv_trans by blast
  moreover have "equiv k x" if "equiv q x" "equiv k q" for x using that equiv_trans by blast
  ultimately show ?thesis
    using lookup_Some[OF entries.ordered_del[OF assms], of q "(k, d)"] lookup_Some[OF assms, of q]
    by (intro option_ext) (auto simp: entries.set_del entry_equiv)
qed

lemma ordered_update: "entries.ordered (A @ kv # B) \<Longrightarrow> entries.ordered (A @ (fst kv, v) # B)"
  by (simp add: entries.ordered_def sorted_wrt_append value_compare_def)

lemma lookup_update:
  assumes "entries.ordered (A @ kv # B)" "equiv k (fst kv)"
  shows "list_lookup lt q (A @ (fst kv, v) # B) = (if equiv k q then Some v else list_lookup lt q (A @ kv # B))"
proof -
  have other: "\<not> equiv (fst kv) (fst kw)" if "kw \<in> set A \<union> set B" for kw
    using entries.ordered_distinct[OF assms(1) that] by (simp add: entry_equiv)
  have eq: "equiv (fst kv) x = equiv k x" for x using assms(2) equiv_sym equiv_trans by blast
  have "equiv q (fst kv) = equiv k q" using assms(2) equiv_sym equiv_trans by blast
  moreover have "\<not> equiv q x" if "(x, w) \<in> set A \<union> set B" "equiv k q" for x w
    using other[OF that(1)] that(2) eq equiv_trans by force
  ultimately show ?thesis
    using lookup_Some[OF ordered_update[OF assms(1), of v], of q] lookup_Some[OF assms(1), of q]
    by (intro option_ext) auto
qed

end

section \<open>The operations of the map on trees\<close>

context key_order
begin

lemma map_find_cases:
  assumes "tree_ok h s t" "entries.ordered (contents s t)"
  obtains (found) A a B where "ptrs t = A @ a # B" "equiv k (fst (rb_value s a))" "rbm_find h lt d k s = Some a" "a \<noteq> h"
      "list_lookup lt k (contents s t) = Some (snd (rb_value s a))"
  | (none) "list_lookup lt k (contents s t) = None" "rbm_find h lt d k s = Some h"
  using assms by (rule entries.find_cases[where val = "(k, d)"])
    (auto simp: rbm_find_def lookup_find[of k _ d] entry_equiv)

lemma at_eq:
  assumes "tree_ok h s t" "entries.ordered (contents s t)"
  shows "rbm_at h lt d k s = Some (case list_lookup lt k (contents s t) of None \<Rightarrow> Inl OutOfRange | Some v \<Rightarrow> Inr v)"
  using assms by (rule map_find_cases[of h s t k d]) (auto simp: rbm_at_def rb_end_def)

lemma get_lookup:
  assumes "tree_ok h s t" "entries.ordered (contents s t)"
  shows "rbm_get h lt d s = (\<lambda>k. list_lookup lt k (contents s t))"
  unfolding rbm_get_def at_eq[OF assms] by (auto simp: fun_eq_iff split: option.split)

lemma map_contains_eq:
  assumes "tree_ok h s t" "entries.ordered (contents s t)"
  shows "rbm_contains h lt d k s = Some (list_lookup lt k (contents s t) \<noteq> None)"
  unfolding rbm_contains_def Let_def entries.contains_eq[OF assms] by (force simp: lookup_None entry_equiv)

text \<open>What a tree is after an operation: in order, and with the lookups \<open>m\<close>.\<close>

definition becomes :: "ptr \<Rightarrow> ('k \<times> 'v) rbstore \<Rightarrow> shape \<Rightarrow> ('k \<times> 'v) rbstore \<Rightarrow> ('k \<Rightarrow> 'v option) \<Rightarrow> bool" where
  "becomes h s t s' m \<longleftrightarrow> (\<exists>t'. evolves h s t s' t' \<and> entries.ordered (contents s' t')
     \<and> (\<forall>k. list_lookup lt k (contents s' t') = m k))"

lemma insert_law:
  assumes "tree_ok h s t" "entries.ordered (contents s t)"
  defines "m \<equiv> \<lambda>q. list_lookup lt q (contents s t)"
  shows "\<exists>it s'. rb_insert h (value_compare lt) (k, v) s = Some (it, m k = None, s')
    \<and> (\<exists>t' A B. tree_ok h s' t' \<and> entries.ordered (contents s' t') \<and> ptrs t' = A @ it # B \<and> equiv k (fst (rb_value s' it))
        \<and> evolves h s t s' t' \<and> (\<forall>q. list_lookup lt q (contents s' t') = (if equiv k q \<and> m k = None then Some v else m q)))"
proof -
  obtain a b s' t' where i: "rb_insert h (value_compare lt) (k, v) s = Some (a, b, s')" "evolves h s t s' t'"
    "contents s' t' = entries.ins (k, v) (contents s t)" "b = (\<forall>x\<in>set (contents s t). \<not> entries.equiv (k, v) x)"
    "entries.equiv (k, v) (rb_value s' a)" "a \<in> set (ptrs t')"
    using entries.insert_ins[OF assms(1,2)] by blast
  have "b = (m k = None)" using i(4) by (force simp: m_def lookup_None entry_equiv)
  moreover have "entries.ordered (contents s' t')" using i(3) entries.ordered_ins[OF assms(2)] by simp
  moreover have "\<forall>q. list_lookup lt q (contents s' t') = (if equiv k q \<and> m k = None then Some v else m q)"
    using i(3) lookup_ins[OF assms(2)] by (simp add: m_def)
  moreover obtain A B where "ptrs t' = A @ a # B" using i(6) split_list by metis
  ultimately show ?thesis using i(1,2,5) evolves_ok[OF i(2)]
    by (intro exI[of _ a] exI[of _ s'] conjI exI[of _ t'] exI[of _ A] exI[of _ B]) (simp_all add: entry_equiv)
qed

lemma insert_becomes:
  assumes "tree_ok h s t" "entries.ordered (contents s t)"
  defines "m \<equiv> \<lambda>q. list_lookup lt q (contents s t)"
  shows "\<exists>it s'. rb_insert h (value_compare lt) (k, v) s = Some (it, m k = None, s')
    \<and> becomes h s t s' (\<lambda>q. if equiv k q \<and> m k = None then Some v else m q)"
  using insert_law[OF assms(1,2), of k v] unfolding becomes_def m_def by blast

lemma erase_law:
  assumes "tree_ok h s t" "entries.ordered (contents s t)"
  defines "m \<equiv> \<lambda>q. list_lookup lt q (contents s t)"
  shows "\<exists>s'. rbm_erase_key h lt d k s = Some (of_bool (m k \<noteq> None), s')
    \<and> becomes h s t s' (\<lambda>q. if equiv k q then None else m q)"
proof -
  obtain s' t' where e: "rb_erase_value h (value_compare lt) (k, d) s
      = Some (if \<exists>x\<in>set (contents s t). entries.equiv (k, d) x then 1 else 0, s')" "evolves h s t s' t'"
    "contents s' t' = entries.del (k, d) (contents s t)"
    using entries.erase_value_del[OF assms(1,2)] by blast
  have "(\<exists>x\<in>set (contents s t). entries.equiv (k, d) x) = (m k \<noteq> None)" by (force simp: m_def lookup_None entry_equiv)
  then show ?thesis using e entries.ordered_del[OF assms(2)] lookup_del[OF assms(2)]
    by (intro exI[of _ s']) (auto simp: rbm_erase_key_def becomes_def m_def)
qed

lemma evolves_value:
  assumes "tree_ok h s t" "a \<in> set (ptrs t)"
  shows "evolves h s t (set_value a v s) t"
proof -
  have "shaped h (set_value a v s) t = shaped h s t"
    unfolding shaped_def by (intro conj_cong refl rep_cong) (auto simp: setters)
  then have "tree_ok h (set_value a v s) t" using assms by (simp add: tree_ok_def extremes_def setters)
  then show ?thesis using assms(2) by (auto simp: evolves_def within_def strays_def setters)
qed

lemma assign_law:
  assumes "tree_ok h s t" "entries.ordered (contents s t)" "ptrs t = A @ a # B" "equiv k (fst (rb_value s a))"
  shows "becomes h s t (set_value a (fst (rb_value s a), v) s) (\<lambda>q. if equiv k q then Some v else list_lookup lt q (contents s t))"
proof -
  have "distinct (ptrs t)" using assms(1) by (simp add: tree_ok_def shaped_def)
  then have c: "contents (set_value a (fst (rb_value s a), v) s) t
      = map (rb_value s) A @ (fst (rb_value s a), v) # map (rb_value s) B"
    using assms(3) by (auto simp: contents_def setters)
  have o: "entries.ordered (map (rb_value s) A @ rb_value s a # map (rb_value s) B)"
    using assms(2,3) by (simp add: contents_def)
  have cs: "contents s t = map (rb_value s) A @ rb_value s a # map (rb_value s) B"
    using assms(3) by (simp add: contents_def)
  show ?thesis unfolding becomes_def
    using evolves_value[OF assms(1), of a] assms(3) ordered_update[OF o, of v] lookup_update[OF o assms(4), of _ v]
    by (intro exI[of _ t]) (simp add: c cs)
qed

lemma extract_law:
  assumes "tree_ok h s t" "entries.ordered (contents s t)" "ptrs t = A @ a # B" "equiv k (fst (rb_value s a))"
  shows "\<exists>s'. rbm_extract h a s = Some (rb_value s a, s')
    \<and> becomes h s t s' (\<lambda>q. if equiv k q then None else list_lookup lt q (contents s t))"
proof -
  obtain s' t' where e: "rb_erase_node h a s = Some s'" "evolves h s t s' t'" "ptrs t' = A @ B" "rb_value s' = rb_value s"
    using erase_evolves[OF assms(1,3)] by blast
  have sh: "shaped h s t" using assms(1) by (simp add: tree_ok_def)
  have o: "entries.ordered (map (rb_value s) A @ rb_value s a # map (rb_value s) B)" using assms(2,3) by (simp add: contents_def)
  have d: "entries.del (k, snd (rb_value s a)) (contents s t) = contents s' t'"
    using entries.del_between[OF o, of "(k, snd (rb_value s a))"] assms(3,4) e(3,4) by (simp add: contents_def entry_equiv)
  have "a \<noteq> h" using shaped_not_nil[OF sh] assms(3) by auto
  then have "rbm_extract h a s = Some (rb_value s a, s')"
    using increment(2)[OF sh assms(3)] e(1) by (simp add: rbm_extract_def rb_erase_at_def)
  then show ?thesis
    using e(2) d entries.ordered_del[OF assms(2)] lookup_del[OF assms(2)] by (auto simp: becomes_def simp flip: d)
qed

lemma fill_lookup:
  assumes "entries.ordered kvs"
  shows "list_lookup lt q (fold entries.ins new kvs) = (case list_lookup lt q kvs of None \<Rightarrow> list_lookup lt q new | Some v \<Rightarrow> Some v)"
  using assms
proof (induction new arbitrary: kvs)
  case Nil
  then show ?case by (simp add: list_lookup_def split: option.split)
next
  case (Cons kv new)
  have "list_lookup lt q (kv # new) = (if equiv (fst kv) q then Some (snd kv) else list_lookup lt q new)"
    by (auto simp: list_lookup_def equiv_def)
  then show ?case
    using Cons.IH[OF entries.ordered_ins[OF Cons.prems, of kv]] lookup_ins[OF Cons.prems, of q "fst kv" "snd kv"]
      lookup_same[of "fst kv" q kvs] by (auto split: option.split)
qed

end

sublocale key_order \<subseteq> tree_map: map_spec "rbm_get h lt d" "rbm_ok h lt" equiv "rbm_put h lt" "rbm_del h lt d"
  for h :: ptr and d :: 'v
proof
  show "equiv a b \<Longrightarrow> equiv b a" "equiv a b \<Longrightarrow> equiv b c \<Longrightarrow> equiv a c" "equiv a a" for a b c
    by (simp_all add: equiv_sym) (rule equiv_trans)
next
  fix s :: "('k \<times> 'v) rbstore" and k v
  assume "rbm_ok h lt s"
  then obtain t where t: "tree_ok h s t" "entries.ordered (contents s t)" by (auto simp: rbm_ok_def entries.ordered_def)
  note g = get_lookup[OF t]
  show "\<exists>s'. rbm_put h lt k v s = Inr (rbm_get h lt d s k = None, s') \<and> rbm_ok h lt s'
      \<and> rbm_get h lt d s' = (\<lambda>q. if equiv k q \<and> rbm_get h lt d s k = None then Some v else rbm_get h lt d s q)"
    using insert_law[OF t, of k v] get_lookup[of h _ _ d] unfolding g
    by (fastforce simp: rbm_put_def rbm_ok_def entries.ordered_def)
  show "\<exists>s'. rbm_del h lt d k s = Inr (if rbm_get h lt d s k = None then 0 else 1, s') \<and> rbm_ok h lt s'
      \<and> rbm_get h lt d s' = (\<lambda>q. if equiv k q then None else rbm_get h lt d s q)"
    using erase_law[OF t, of d k] get_lookup[of h _ _ d] evolves_ok unfolding g
    by (fastforce simp: rbm_del_def rbm_ok_def entries.ordered_def becomes_def)
  show "equiv a b \<Longrightarrow> rbm_get h lt d s a = rbm_get h lt d s b" for a b
    unfolding g by (rule lookup_same)
qed

text \<open>The default comparator is \<^verbatim>\<open>std::less\<close>.\<close>

interpretation std_less: key_order "(<) :: 'k::linorder \<Rightarrow> 'k \<Rightarrow> bool"
  by unfold_locales auto

section \<open>Programs on a map\<close>

datatype ('k, 'v) rbm_op =
    RbmInsert 'k 'v | RbmIndexSet 'k 'v | RbmTryEmplace 'k 'v | RbmAssign 'k 'v | RbmErase 'k | RbmExtract 'k
  | RbmAssignList "('k \<times> 'v) list" | RbmClear

text \<open>
  \<open>RbmIndexSet\<close> is an assignment through the reference that \<^verbatim>\<open>operator[]\<close> returns, \<open>RbmExtract\<close> extracts at
  the iterator that \<^verbatim>\<open>find\<close> returns. The answer tells whether a key was inserted, or how many were erased.
\<close>

fun rbm_do :: "ptr \<Rightarrow> ('k \<Rightarrow> 'k \<Rightarrow> bool) \<Rightarrow> 'v \<Rightarrow> ('k, 'v) rbm_op \<Rightarrow> ('k \<times> 'v) rbstore \<Rightarrow> (nat \<times> ('k \<times> 'v) rbstore) option" where
  "rbm_do h lt d (RbmInsert k v) s =
     Option.bind (rb_insert h (value_compare lt) (k, v) s) (\<lambda>(it, ok, s). Some (of_bool ok, s))"
| "rbm_do h lt d (RbmIndexSet k v) s =
     Option.bind (rbm_index h lt d k s) (\<lambda>(it, s). Some (0, set_value it (fst (rb_value s it), v) s))"
| "rbm_do h lt d (RbmTryEmplace k v) s =
     Option.bind (rbm_try_emplace h lt d k v s) (\<lambda>(it, ok, s). Some (of_bool ok, s))"
| "rbm_do h lt d (RbmAssign k v) s =
     Option.bind (rbm_insert_or_assign h lt d k v s) (\<lambda>(it, ok, s). Some (of_bool ok, s))"
| "rbm_do h lt d (RbmErase k) s = rbm_erase_key h lt d k s"
| "rbm_do h lt d (RbmExtract k) s =
     Option.bind (rbm_find h lt d k s) (\<lambda>it.
     if it = rb_end h s then Some (0, s) else Option.bind (rbm_extract h it s) (\<lambda>(kv, s). Some (1, s)))"
| "rbm_do h lt d (RbmAssignList kvs) s = Option.bind (rbm_assign_list h lt kvs s) (\<lambda>s. Some (0, s))"
| "rbm_do h lt d RbmClear s = Option.bind (rb_clear h s) (\<lambda>s. Some (0, s))"

fun rbm_spec :: "('k \<Rightarrow> 'k \<Rightarrow> bool) \<Rightarrow> ('k, 'v) rbm_op \<Rightarrow> ('k \<Rightarrow> 'v option) \<Rightarrow> nat \<times> ('k \<Rightarrow> 'v option)" where
  "rbm_spec same (RbmInsert k v) m = (of_bool (m k = None), \<lambda>q. if same k q \<and> m k = None then Some v else m q)"
| "rbm_spec same (RbmIndexSet k v) m = (0, \<lambda>q. if same k q then Some v else m q)"
| "rbm_spec same (RbmTryEmplace k v) m = (of_bool (m k = None), \<lambda>q. if same k q \<and> m k = None then Some v else m q)"
| "rbm_spec same (RbmAssign k v) m = (of_bool (m k = None), \<lambda>q. if same k q then Some v else m q)"
| "rbm_spec same (RbmErase k) m = (of_bool (m k \<noteq> None), \<lambda>q. if same k q then None else m q)"
| "rbm_spec same (RbmExtract k) m = (of_bool (m k \<noteq> None), \<lambda>q. if same k q then None else m q)"
| "rbm_spec same (RbmAssignList kvs) m = (0, \<lambda>q. map_option snd (List.find (\<lambda>kv. same q (fst kv)) kvs))"
| "rbm_spec same RbmClear m = (0, \<lambda>q. None)"

fun rbm_run :: "ptr \<Rightarrow> ('k \<Rightarrow> 'k \<Rightarrow> bool) \<Rightarrow> 'v \<Rightarrow> ('k, 'v) rbm_op list \<Rightarrow> ('k \<times> 'v) rbstore \<Rightarrow>
  (nat list \<times> ('k \<times> 'v) rbstore) option" where
  "rbm_run h lt d [] s = Some ([], s)"
| "rbm_run h lt d (op # ops) s =
     Option.bind (rbm_do h lt d op s) (\<lambda>(n, s). Option.bind (rbm_run h lt d ops s) (\<lambda>(ns, s). Some (n # ns, s)))"

fun rbm_spec_run :: "('k \<Rightarrow> 'k \<Rightarrow> bool) \<Rightarrow> ('k, 'v) rbm_op list \<Rightarrow> ('k \<Rightarrow> 'v option) \<Rightarrow> nat list \<times> ('k \<Rightarrow> 'v option)" where
  "rbm_spec_run same [] m = ([], m)"
| "rbm_spec_run same (op # ops) m =
     (let (n, m) = rbm_spec same op m; (ns, m) = rbm_spec_run same ops m in (n # ns, m))"

context key_order
begin

lemma becomes_ok:
  assumes "becomes h s t s' m"
  obtains t' where "tree_ok h s' t'" "entries.ordered (contents s' t')" "\<And>k. list_lookup lt k (contents s' t') = m k"
  using assms evolves_ok unfolding becomes_def by blast

lemma becomes_refl:
  assumes "tree_ok h s t" "entries.ordered (contents s t)" "\<And>k. m k = list_lookup lt k (contents s t)"
  shows "becomes h s t s m"
  unfolding becomes_def using assms evolves_refl[OF assms(1)] by (intro exI[of _ t]) simp

lemma index_set_becomes:
  assumes "tree_ok h s t" "entries.ordered (contents s t)"
  shows "\<exists>s' t1 s1. rbm_do h lt d (RbmIndexSet k v) s = Some (0, s')
    \<and> becomes h s1 t1 s' (\<lambda>q. if equiv k q then Some v else list_lookup lt q (contents s t))"
proof -
  obtain it s1 t1 A B where i: "rb_insert h (value_compare lt) (k, d) s = Some (it, list_lookup lt k (contents s t) = None, s1)"
    "tree_ok h s1 t1" "entries.ordered (contents s1 t1)" "ptrs t1 = A @ it # B" "equiv k (fst (rb_value s1 it))"
    "\<forall>q. list_lookup lt q (contents s1 t1)
        = (if equiv k q \<and> list_lookup lt k (contents s t) = None then Some d else list_lookup lt q (contents s t))"
    using insert_law[OF assms, of k d] by blast
  have "(\<lambda>q. if equiv k q then Some v else list_lookup lt q (contents s1 t1))
      = (\<lambda>q. if equiv k q then Some v else list_lookup lt q (contents s t))" using i(6) by auto
  then show ?thesis using assign_law[OF i(2-5), of v] i(1)
    by (intro exI[of _ "set_value it (fst (rb_value s1 it), v) s1"] exI[of _ t1] exI[of _ s1]) (simp add: rbm_index_def)
qed

lemma assign_list_becomes:
  assumes "tree_ok h s t"
  shows "\<exists>s'. rbm_assign_list h lt kvs s = Some s' \<and> becomes h s t s' (\<lambda>q. list_lookup lt q kvs)"
proof -
  obtain s1 where c: "rb_clear h s = Some s1" "evolves h s t s1 Tip" using clear_ok[OF assms] by blast
  have o: "entries.ordered (contents s1 Tip)" by (simp add: contents_def entries.ordered_def)
  obtain s' t' where f: "rb_insert_list h (value_compare lt) kvs s1 = Some s'" "evolves h s1 Tip s' t'"
    "contents s' t' = fold entries.ins kvs (contents s1 Tip)"
    using entries.insert_list_ins[OF evolves_ok[OF c(2)] o] by blast
  have "entries.ordered (fold entries.ins kvs xs)" if "entries.ordered xs" for xs
    using that by (induction kvs arbitrary: xs) (auto simp: entries.ordered_ins)
  moreover have "list_lookup lt q (contents s1 Tip) = None" for q by (simp add: contents_def list_lookup_def)
  ultimately show ?thesis using c(1) f(1,3) o evolves_trans[OF c(2) f(2)] fill_lookup[OF o]
    by (intro exI[of _ s']) (auto simp: rbm_assign_list_def becomes_def)
qed

lemma rbm_do_refines:
  assumes "tree_ok h s t" "entries.ordered (contents s t)"
  defines "m \<equiv> \<lambda>q. list_lookup lt q (contents s t)"
  shows "\<exists>s' s1 t1. rbm_do h lt d op s = Some (fst (rbm_spec equiv op m), s') \<and> becomes h s1 t1 s' (snd (rbm_spec equiv op m))"
proof (cases op)
  case (RbmInsert k v)
  then show ?thesis using insert_becomes[OF assms(1,2), of k v] unfolding m_def by fastforce
next
  case (RbmIndexSet k v)
  then show ?thesis using index_set_becomes[OF assms(1,2), of d k v] unfolding m_def by auto
next
  case (RbmErase k)
  then show ?thesis using erase_law[OF assms(1,2), of d k] unfolding m_def by fastforce
next
  case (RbmAssignList kvs)
  have "(\<lambda>q. list_lookup lt q kvs) = snd (rbm_spec equiv op m)"
    using RbmAssignList by (simp add: fun_eq_iff list_lookup_def equiv_def)
  then show ?thesis using assign_list_becomes[OF assms(1), of kvs] RbmAssignList by fastforce
next
  case RbmClear
  obtain s1 where c: "rb_clear h s = Some s1" "evolves h s t s1 Tip" using clear_ok[OF assms(1)] by blast
  then have "becomes h s t s1 (\<lambda>_. None)"
    unfolding becomes_def by (intro exI[of _ Tip]) (simp add: contents_def entries.ordered_def list_lookup_def)
  then show ?thesis using RbmClear c(1) by fastforce
next
  case (RbmTryEmplace k v)
  show ?thesis
    using assms(1,2)
  proof (rule map_find_cases[of h s t k d])
    assume "list_lookup lt k (contents s t) = None" "rbm_find h lt d k s = Some h"
    then show ?thesis using insert_becomes[OF assms(1,2), of k v] RbmTryEmplace unfolding m_def
      by (fastforce simp: rbm_try_emplace_def rb_end_def)
  next
    fix A a B assume "rbm_find h lt d k s = Some a" "a \<noteq> h" "list_lookup lt k (contents s t) = Some (snd (rb_value s a))"
    then show ?thesis using becomes_refl[OF assms(1,2), of m] RbmTryEmplace unfolding m_def
      by (fastforce simp: rbm_try_emplace_def rb_end_def)
  qed
next
  case (RbmAssign k v)
  show ?thesis
    using assms(1,2)
  proof (rule map_find_cases[of h s t k d])
    assume n: "list_lookup lt k (contents s t) = None" "rbm_find h lt d k s = Some h"
    then have "(\<lambda>q. if equiv k q \<and> m k = None then Some v else m q) = (\<lambda>q. if equiv k q then Some v else m q)"
      by (simp add: m_def)
    then show ?thesis using insert_becomes[OF assms(1,2), of k v, folded m_def] RbmAssign n
      by (fastforce simp: rbm_insert_or_assign_def rb_end_def m_def)
  next
    fix A a B assume f: "ptrs t = A @ a # B" "equiv k (fst (rb_value s a))" "rbm_find h lt d k s = Some a" "a \<noteq> h"
      "list_lookup lt k (contents s t) = Some (snd (rb_value s a))"
    then show ?thesis using assign_law[OF assms(1,2) f(1,2), of v] RbmAssign unfolding m_def
      by (fastforce simp: rbm_insert_or_assign_def rb_end_def)
  qed
next
  case (RbmExtract k)
  show ?thesis
    using assms(1,2)
  proof (rule map_find_cases[of h s t k d])
    assume n: "list_lookup lt k (contents s t) = None" "rbm_find h lt d k s = Some h"
    have "m q = None" if "equiv k q" for q using lookup_same[OF that, of "contents s t"] n(1) by (simp add: m_def)
    then have "snd (rbm_spec equiv op m) = m" "fst (rbm_spec equiv op m) = 0" using RbmExtract n(1) by (auto simp: m_def)
    moreover have "rbm_do h lt d op s = Some (0, s)" using RbmExtract n(2) by (simp add: rb_end_def)
    moreover have "becomes h s t s m" by (rule becomes_refl[OF assms(1,2)]) (simp add: m_def)
    ultimately show ?thesis by metis
  next
    fix A a B assume f: "ptrs t = A @ a # B" "equiv k (fst (rb_value s a))" "rbm_find h lt d k s = Some a" "a \<noteq> h"
      "list_lookup lt k (contents s t) = Some (snd (rb_value s a))"
    then show ?thesis using extract_law[OF assms(1,2) f(1,2)] RbmExtract unfolding m_def
      by (fastforce simp: rb_end_def)
  qed
qed

lemma rbm_run_refines:
  assumes "tree_ok h s t" "entries.ordered (contents s t)"
  defines "m \<equiv> \<lambda>q. list_lookup lt q (contents s t)"
  shows "\<exists>s' t'. rbm_run h lt d ops s = Some (fst (rbm_spec_run equiv ops m), s') \<and> tree_ok h s' t'
    \<and> entries.ordered (contents s' t') \<and> (\<lambda>q. list_lookup lt q (contents s' t')) = snd (rbm_spec_run equiv ops m)"
  using assms(1,2) unfolding m_def
proof (induction ops arbitrary: s t)
  case Nil
  then show ?case by auto
next
  case (Cons op ops)
  let ?m = "\<lambda>q. list_lookup lt q (contents s t)"
  obtain s1 s0 t0 where d: "rbm_do h lt d op s = Some (fst (rbm_spec equiv op ?m), s1)"
    "becomes h s0 t0 s1 (snd (rbm_spec equiv op ?m))" using rbm_do_refines[OF Cons.prems, of d op] by blast
  obtain t1 where t1: "tree_ok h s1 t1" "entries.ordered (contents s1 t1)"
    and l: "\<And>q. list_lookup lt q (contents s1 t1) = snd (rbm_spec equiv op ?m) q" using becomes_ok[OF d(2)] by blast
  from l have t1m: "(\<lambda>q. list_lookup lt q (contents s1 t1)) = snd (rbm_spec equiv op ?m)" by (rule ext)
  obtain s' t' where "rbm_run h lt d ops s1 = Some (fst (rbm_spec_run equiv ops (snd (rbm_spec equiv op ?m))), s')"
    "tree_ok h s' t'" "entries.ordered (contents s' t')"
    "(\<lambda>q. list_lookup lt q (contents s' t')) = snd (rbm_spec_run equiv ops (snd (rbm_spec equiv op ?m)))"
    using Cons.IH[OF t1(1,2)] unfolding t1m by blast
  then show ?case using d(1) by (intro exI[of _ s'] exI[of _ t']) (simp add: case_prod_unfold Let_def)
qed

lemma map_program:
  fixes ops :: "('k, 'v) rbm_op list"
  assumes "h < rb_fresh s"
  defines "sp \<equiv> rbm_spec_run (\<lambda>a b. \<not> lt a b \<and> \<not> lt b a) ops (\<lambda>_. None)"
  shows "\<exists>s' kvs m. rbm_run h lt d ops (rb_construct h s) = Some (fst sp, s') \<and> m = snd sp
    \<and> (\<forall>k. rbm_at h lt d k s' = Some (case m k of Some v \<Rightarrow> Inr v | None \<Rightarrow> Inl OutOfRange))
    \<and> (\<forall>k. rbm_count h lt d k s' = Some (of_bool (m k \<noteq> None)))
    \<and> rb_walk h s' (rb_begin h s') (rb_end h s') = Some kvs \<and> sorted_wrt lt (map fst kvs)
    \<and> (\<forall>k. m k = map_option snd (List.find (\<lambda>kv. \<not> lt k (fst kv) \<and> \<not> lt (fst kv) k) kvs))"
proof -
  note c = construct_ok(1)[OF assms(1)]
  have same: "(\<lambda>a b. \<not> lt a b \<and> \<not> lt b a) = equiv" by (simp add: fun_eq_iff equiv_def)
  have empty: "(\<lambda>q. list_lookup lt q (contents (rb_construct h s) Tip)) = (\<lambda>_. None)"
    by (simp add: contents_def list_lookup_def)
  have "entries.ordered (contents (rb_construct h s) Tip)" by (simp add: contents_def entries.ordered_def)
  from rbm_run_refines[OF c this, of d ops] obtain s' t' where r: "rbm_run h lt d ops (rb_construct h s) = Some (fst sp, s')"
    "tree_ok h s' t'" "entries.ordered (contents s' t')" "(\<lambda>q. list_lookup lt q (contents s' t')) = snd sp"
    unfolding empty sp_def same by blast
  have m: "list_lookup lt k (contents s' t') = snd sp k" for k using fun_cong[OF r(4), of k] .
  have "rbm_at h lt d k s' = Some (case snd sp k of Some v \<Rightarrow> Inr v | None \<Rightarrow> Inl OutOfRange)" for k
    using at_eq[OF r(2,3), of d k] unfolding m by (simp split: option.split)
  moreover have "rbm_count h lt d k s' = Some (of_bool (snd sp k \<noteq> None))" for k
    unfolding rbm_count_def map_contains_eq[OF r(2,3)] m by simp
  moreover have "sorted_wrt lt (map fst (contents s' t'))"
    using r(3) unfolding entries.ordered_def by (simp add: value_compare_def[abs_def] sorted_wrt_map)
  moreover have "snd sp k = map_option snd (List.find (\<lambda>kv. \<not> lt k (fst kv) \<and> \<not> lt (fst kv) k) (contents s' t'))" for k
    unfolding m[symmetric] list_lookup_def ..
  ultimately show ?thesis using r(1) walk_all[OF r(2)] by blast
qed

end

end
