(* ===== verification/RBProps.thy ===== *)
theory RBProps
  imports RBMap
begin

text \<open>
  The properties of the red-black trees and of the map on them, stated over whole programs that start with newly constructed
  trees, and the constructor that does not keep its part: a tree that is moved from hands its nodes to a header
  whose colour was never set.
\<close>

section \<open>Concrete stores\<close>

definition blank :: "nat \<Rightarrow> 'v \<Rightarrow> 'v rbstore" where
  "blank n x = \<lparr>rb_value = \<lambda>_. x, rb_parent = \<lambda>_. 0, rb_left = \<lambda>_. 0, rb_right = \<lambda>_. 0, rb_black = \<lambda>_. False,
     rb_size = \<lambda>_. 0, rb_live = \<lambda>_. False, rb_fresh = n\<rparr>"

text \<open>To run a program on a store by rewriting, its fields are tables of the first few addresses.\<close>

definition table :: "'a \<Rightarrow> 'a list \<Rightarrow> nat \<Rightarrow> 'a" where
  "table d xs a = (if a < length xs then xs ! a else d)"

lemma table_upd: "n < length xs \<Longrightarrow> (table d xs)(n := x) = table d (xs[n := x])"
  by (auto simp: table_def fun_eq_iff)

lemma update_numeral: "(x # xs)[numeral n := y] = x # xs[pred_numeral n := y]"
  by (simp add: numeral_eq_Suc)

lemma blank_table:
  "blank n x =
     (let zs = table 0 (replicate 6 0); no = table False (replicate 6 False)
      in \<lparr>rb_value = table x (replicate 6 x), rb_parent = zs, rb_left = zs, rb_right = zs, rb_black = no,
          rb_size = zs, rb_live = no, rb_fresh = n\<rparr>)"
proof -
  have "(\<lambda>_. d) = table d (replicate 6 d)" for d :: 'b by (auto simp: table_def fun_eq_iff)
  from this[of "0 :: nat"] this[of False] show ?thesis
    by (auto simp: blank_def Let_def table_def fun_eq_iff)
qed

text \<open>Rewriting strictly, the arguments of a \<open>bind\<close> and of a \<open>let\<close> first.\<close>

lemma bind_strict: "a = b \<Longrightarrow> Option.bind a f = Option.bind b f"
  by simp

lemmas tree_eval =
  rb_loops
  rb_walk.simps
  rb_construct_def
  rb_init_header_def
  rb_header_def
  rb_create_node_def
  rb_insert_def
  rb_insert_fixup_def
  rb_insert_fix_step_def
  rb_left_rotate_def
  rb_right_rotate_def
  rb_update_extremes_def
  rb_minimum_def
  rb_maximum_def
  rb_begin_def
  rb_end_def
  rb_increment_def
  rb_find_node_def
  rb_erase_value_def
  rb_erase_node_def
  rb_unlink_def
  rb_transplant_def
  rb_erase_fixup_def
  rb_erase_fix_step_def
  rb_destroy_node_def
  rb_clear_def
  rb_move_def
  rb_move_assign_def
  rb_detach_def
  set_parent_def
  set_left_def
  set_right_def
  set_black_def
  set_value_def
  set_size_def
  table_upd
  table_def
  update_numeral
  blank_table
  numeral_eq_Suc
  Let_def

section \<open>Trees\<close>

text \<open>
  C30: programs over any number of red-black trees of one comparator that share a store refine programs over sorted lists. Every
  sequence of insertions (of one value or of a list), erasures by value, at an iterator and of a range, clear, copy and move
  assignment and swap returns, the loops of the fixups included, and answers as the lists do; afterwards every tree has the
  elements of its list, in order from \<^verbatim>\<open>begin\<close> to \<^verbatim>\<open>end\<close> and in reverse from \<^verbatim>\<open>end\<close> to
  \<^verbatim>\<open>begin\<close>, and their number.
\<close>

lemma trees_refine_sorted_lists:
  assumes "strict_weak lt" "\<forall>h\<in>set hs. h < rb_fresh s" "tree_ops_ok lt (set hs) ops (\<lambda>_. [])"
  shows "\<exists>s'. trees_run lt ops (fold rb_construct hs s) = Some (fst (lists_run lt ops (\<lambda>_. [])), s')
    \<and> (\<forall>h\<in>set hs. let xs = snd (lists_run lt ops (\<lambda>_. [])) h in
         sorted_wrt lt xs \<and> rb_size s' h = length xs \<and> (rb_is_empty h s' \<longleftrightarrow> xs = [])
         \<and> rb_walk h s' (rb_begin h s') (rb_end h s') = Some xs
         \<and> rb_walk_back h s' (rb_end h s') (rb_begin h s') = Some (rev xs))"
proof -
  obtain s' T where r: "trees_run lt ops (fold rb_construct hs s) = Some (fst (lists_run lt ops (\<lambda>_. [])), s')"
    "forest lt (set hs) s' T (snd (lists_run lt ops (\<lambda>_. [])))" using program_runs[OF assms] by blast
  have "let xs = snd (lists_run lt ops (\<lambda>_. [])) h in
      sorted_wrt lt xs \<and> rb_size s' h = length xs \<and> (rb_is_empty h s' \<longleftrightarrow> xs = [])
      \<and> rb_walk h s' (rb_begin h s') (rb_end h s') = Some xs
      \<and> rb_walk_back h s' (rb_end h s') (rb_begin h s') = Some (rev xs)" if "h \<in> set hs" for h
  proof -
    have t: "tree_ok h s' (T h)" "contents s' (T h) = snd (lists_run lt ops (\<lambda>_. [])) h"
      "sorted_wrt lt (snd (lists_run lt ops (\<lambda>_. [])) h)" using r(2) that by (simp_all add: forest_def)
    then have "rb_size s' h = length (snd (lists_run lt ops (\<lambda>_. [])) h)"
      by (simp add: tree_ok_def contents_def flip: t(2))
    then show ?thesis using walk_all[OF t(1)] walk_back_all[OF t(1)] t(2,3) by (simp add: rb_is_empty_def)
  qed
  then show ?thesis using r(1) by blast
qed

lemma trees_refine_sorted_lists_witness:
  "\<exists>s'. trees_run (<) [TreeFill 1 [1, 4, 2], TreeInsert 0 7, TreeInsert 1 4, TreeSwap 0 1, TreeEraseAt 0 1, TreeErase 0 9]
       (fold rb_construct [0, 1] (blank 2 (0 :: nat))) = Some ([0, 1, 0, 0, 1, 0], s')
     \<and> rb_walk 0 s' (rb_begin 0 s') (rb_end 0 s') = Some [1, 4] \<and> rb_walk 1 s' (rb_begin 1 s') (rb_end 1 s') = Some [7]"
  using trees_refine_sorted_lists[OF std_less.strict_weak_axioms, of "[0, 1]" "blank 2 (0 :: nat)"
      "[TreeFill 1 [1, 4, 2], TreeInsert 0 7, TreeInsert 1 4, TreeSwap 0 1, TreeEraseAt 0 1, TreeErase 0 9]"]
  by (simp add: list_insert_def list_erase_def blank_def Let_def) blast

primrec rb_destroy_all :: "ptr list \<Rightarrow> 'v rbstore \<Rightarrow> 'v rbstore option" where
  "rb_destroy_all [] s = Some s"
| "rb_destroy_all (h # hs) s = Option.bind (rb_destroy h s) (rb_destroy_all hs)"

lemma destroy_all_freed:
  "\<forall>h\<in>set hs. tree_ok h s (T h) \<Longrightarrow> rb_destroy_all hs s = Some (freed (owned (set hs) T) s)"
proof -
  have "rb_destroy_all hs (freed A s) = Some (freed (owned (set hs) T) (freed A s))"
    if "\<forall>h\<in>set hs. rb_root h s = apex h (T h) \<and> rep h s h (T h)" for A
    using that
  proof (induction hs arbitrary: A)
    case Nil
    then show ?case by (simp add: owned_def)
  next
    case (Cons h hs)
    have "rb_destroy h (freed A s) = Some (freed (set (ptrs (T h))) (freed A s))"
      using destroy_subtree[of h "freed A s" h "T h"] Cons.prems by (simp add: rb_destroy_def)
    then show ?case using Cons.IH[of "set (ptrs (T h)) \<union> A"] Cons.prems by (simp add: owned_def Un_ac)
  qed
  from this[of "{}"] show "\<forall>h\<in>set hs. tree_ok h s (T h) \<Longrightarrow> rb_destroy_all hs s = Some (freed (owned (set hs) T) s)"
    by (simp add: tree_ok_def shaped_def)
qed

text \<open>
  C31: after every such program, every tree is a red-black tree that its header describes: the links between parents and children agree,
  no red node has a red child, all paths pass the same number of black nodes, nil is black, and \<^verbatim>\<open>_size\<close>, \<^verbatim>\<open>_left\<close>
  and \<^verbatim>\<open>_right\<close> of the header are right. The trees share no node, every node of a tree is allocated, and no
  allocated node is outside the trees; destroying the trees gives all of them back.
\<close>

lemma trees_stay_red_black:
  assumes "strict_weak lt" "\<forall>h\<in>set hs. h < rb_fresh s" "tree_ops_ok lt (set hs) ops (\<lambda>_. [])" "\<forall>a. \<not> rb_live s a"
  shows "\<exists>ns s' T s''. trees_run lt ops (fold rb_construct hs s) = Some (ns, s')
    \<and> (\<forall>h\<in>set hs. tree_ok h s' (T h)) \<and> (\<forall>h\<in>set hs. \<forall>k\<in>set hs. h \<noteq> k \<longrightarrow> apart h (T h) k (T k))
    \<and> {a. a < rb_fresh s' \<and> rb_live s' a} = (\<Union>h\<in>set hs. set (ptrs (T h)))
    \<and> rb_destroy_all hs s' = Some s'' \<and> {a. a < rb_fresh s'' \<and> rb_live s'' a} = {}"
proof -
  obtain s' T where r: "trees_run lt ops (fold rb_construct hs s) = Some (fst (lists_run lt ops (\<lambda>_. [])), s')"
    "forest lt (set hs) s' T (snd (lists_run lt ops (\<lambda>_. [])))" "strays s' (owned (set hs) T) = strays s {}"
    using program_runs[OF assms(1-3)] by blast
  have t: "\<forall>h\<in>set hs. tree_ok h s' (T h)" using r(2) by (simp add: forest_def)
  have n: "strays s' (owned (set hs) T) = {}" using r(3) assms(4) by (simp add: strays_def)
  moreover have "\<forall>a\<in>owned (set hs) T. a < rb_fresh s' \<and> rb_live s' a" using t by (auto simp: owned_def tree_ok_def)
  ultimately have "{a. a < rb_fresh s' \<and> rb_live s' a} = owned (set hs) T" by (auto simp: strays_def)
  moreover have "{a. a < rb_fresh s' \<and> rb_live (freed (owned (set hs) T) s') a} = {}" using n by (auto simp: strays_def)
  ultimately show ?thesis using r(1,2) t destroy_all_freed[OF t]
    by (intro exI[of _ "fst (lists_run lt ops (\<lambda>_. []))"] exI[of _ s'] exI[of _ T] exI[of _ "freed (owned (set hs) T) s'"]) (simp add: forest_def owned_def)
qed

lemma trees_stay_red_black_witness:
  "\<exists>ns s' T. trees_run (<) [TreeFill 1 [1, 4, 2], TreeMoveAssign 0 1] (fold rb_construct [0, 1] (blank 2 (0 :: nat))) = Some (ns, s')
     \<and> tree_ok 0 s' (T (0 :: ptr)) \<and> tree_ok 1 s' (T 1) \<and> {a. a < rb_fresh s' \<and> rb_live s' a} = set (ptrs (T 0)) \<union> set (ptrs (T 1))"
proof -
  have ok: "\<forall>h\<in>set [0, 1]. h < rb_fresh (blank 2 (0 :: nat))" "\<forall>a. \<not> rb_live (blank 2 (0 :: nat)) a"
    by (simp_all add: blank_def)
  have in_contract: "tree_ops_ok (<) (set [0, 1]) [TreeFill 1 [1, 4, 2], TreeMoveAssign 0 1] (\<lambda>_. [] :: nat list)" by simp
  obtain ns s' T where "trees_run (<) [TreeFill 1 [1, 4, 2], TreeMoveAssign 0 1] (fold rb_construct [0, 1] (blank 2 (0 :: nat))) = Some (ns, s')"
    "\<forall>h\<in>set [0, 1]. tree_ok h s' (T h)" "{a. a < rb_fresh s' \<and> rb_live s' a} = (\<Union>h\<in>set [0, 1]. set (ptrs (T h)))"
    using trees_stay_red_black[OF std_less.strict_weak_axioms ok(1) in_contract ok(2)] by (elim exE conjE) (rule that)
  then show ?thesis by (intro exI[of _ ns] exI[of _ s'] exI[of _ T]) (simp del: One_nat_def)
qed

lemma program_tree:
  assumes "strict_weak lt" "\<forall>h\<in>set hs. h < rb_fresh s" "tree_ops_ok lt (set hs) ops (\<lambda>_. [])"
    "trees_run lt ops (fold rb_construct hs s) = Some (ns, s')" "h \<in> set hs"
  shows "\<exists>t. tree_ok h s' t \<and> contents s' t = snd (lists_run lt ops (\<lambda>_. [])) h
    \<and> sorted_wrt lt (snd (lists_run lt ops (\<lambda>_. [])) h)"
proof -
  obtain s1 T where r: "trees_run lt ops (fold rb_construct hs s) = Some (fst (lists_run lt ops (\<lambda>_. [])), s1)"
    "forest lt (set hs) s1 T (snd (lists_run lt ops (\<lambda>_. [])))" using program_runs[OF assms(1-3)] by blast
  have "s1 = s'" using r(1) assms(4) by simp
  then show ?thesis using r(2) assms(5) by (intro exI[of _ "T h"]) (simp add: forest_def)
qed

text \<open>
  C32: lookups after every such program: \<^verbatim>\<open>contains\<close> tells whether the list has an equivalent element, \<^verbatim>\<open>find\<close>
  returns a position of such an element or \<^verbatim>\<open>end\<close>, and from \<^verbatim>\<open>lower_bound\<close> and \<^verbatim>\<open>upper_bound\<close> an
  iterator goes through the elements that are not smaller, and those that are greater.
\<close>

lemma tree_lookups:
  assumes "strict_weak lt" "\<forall>h\<in>set hs. h < rb_fresh s" "tree_ops_ok lt (set hs) ops (\<lambda>_. [])"
    "trees_run lt ops (fold rb_construct hs s) = Some (ns, s')" "h \<in> set hs"
    "xs = snd (lists_run lt ops (\<lambda>_. [])) h"
  shows "rb_contains h lt val s' = Some (\<exists>x\<in>set xs. \<not> lt val x \<and> \<not> lt x val)
    \<and> (\<exists>it. rb_find h lt val s' = Some it
         \<and> (if it = rb_end h s' then \<forall>x\<in>set xs. lt val x \<or> lt x val
            else rb_value s' it \<in> set xs \<and> \<not> lt val (rb_value s' it) \<and> \<not> lt (rb_value s' it) val))
    \<and> (\<exists>lo hi. rbs_equal_range h lt val s' = Some (lo, hi)
         \<and> rb_walk h s' lo (rb_end h s') = Some (filter (\<lambda>x. \<not> lt x val) xs)
         \<and> rb_walk h s' hi (rb_end h s') = Some (filter (lt val) xs))"
proof -
  obtain t where "tree_ok h s' t" "contents s' t = xs" "sorted_wrt lt xs" using program_tree[OF assms(1-5)] assms(6) by auto
  then show ?thesis by (rule strict_weak.lookups[OF assms(1)])
qed

lemma tree_lookups_witness:
  "\<exists>ns s' lo hi. trees_run (<) [TreeFill 0 [1, 4, 2]] (fold rb_construct [0] (blank 1 (0 :: nat))) = Some (ns, s')
     \<and> rb_contains 0 (<) 2 s' = Some True \<and> rbs_equal_range 0 (<) 2 s' = Some (lo, hi)
     \<and> rb_walk 0 s' lo (rb_end 0 s') = Some [2, 4] \<and> rb_walk 0 s' hi (rb_end 0 s') = Some [4]"
proof -
  have ok: "\<forall>h\<in>set [0]. h < rb_fresh (blank 1 (0 :: nat))" by (simp add: blank_def)
  obtain ns s' where r: "trees_run (<) [TreeFill 0 [1, 4, 2]] (fold rb_construct [0] (blank 1 (0 :: nat))) = Some (ns, s')"
    using program_runs[OF std_less.strict_weak_axioms ok, of "[TreeFill 0 [1, 4, 2]]"] by force
  show ?thesis
    using tree_lookups[OF std_less.strict_weak_axioms ok _ r, of 0 "[1, 2, 4]" 2] r by (auto simp: list_insert_def)
qed

text \<open>
  searches are logarithmic: after every such program, the node that \<^verbatim>\<open>find\<close> returns has at most twice the binary logarithm of
  \<^verbatim>\<open>size() + 1\<close> nodes on its path from the root, itself included.
\<close>

lemma search_depth:
  assumes "strict_weak lt" "\<forall>h\<in>set hs. h < rb_fresh s" "tree_ops_ok lt (set hs) ops (\<lambda>_. [])"
    "trees_run lt ops (fold rb_construct hs s) = Some (ns, s')" "h \<in> set hs"
    "rb_find h lt val s' = Some it" "it \<noteq> rb_end h s'"
  shows "\<exists>d. rb_level h s' it = Some d \<and> 2 ^ d \<le> (rb_size s' h + 1)\<^sup>2"
proof -
  obtain t where "tree_ok h s' t" "contents s' t = snd (lists_run lt ops (\<lambda>_. [])) h"
    "sorted_wrt lt (snd (lists_run lt ops (\<lambda>_. [])) h)" using program_tree[OF assms(1-5)] by blast
  then show ?thesis using strict_weak.find_level[OF assms(1) _ _ assms(6,7)] by simp
qed

lemma search_depth_witness:
  "\<exists>ns s' it d. trees_run (<) [TreeFill 0 [1, 4, 2]] (fold rb_construct [0] (blank 1 (0 :: nat))) = Some (ns, s')
     \<and> rb_find 0 (<) 4 s' = Some it \<and> rb_level 0 s' it = Some d \<and> 2 ^ d \<le> (rb_size s' 0 + 1)\<^sup>2"
proof -
  have ok: "\<forall>h\<in>set [0]. h < rb_fresh (blank 1 (0 :: nat))" by (simp add: blank_def)
  obtain ns s' where r: "trees_run (<) [TreeFill 0 [1, 4, 2]] (fold rb_construct [0] (blank 1 (0 :: nat))) = Some (ns, s')"
    using program_runs[OF std_less.strict_weak_axioms ok, of "[TreeFill 0 [1, 4, 2]]"] by force
  obtain t where t: "tree_ok 0 s' t" "contents s' t = [1, 2, 4]" "sorted_wrt (<) [1, 2, 4 :: nat]"
    using program_tree[OF std_less.strict_weak_axioms ok _ r, of 0] by (auto simp: list_insert_def)
  obtain it where it: "rb_find 0 (<) 4 s' = Some it" "it \<noteq> rb_end 0 s'"
    using strict_weak.lookups[OF std_less.strict_weak_axioms t, of 4] by (auto split: if_splits)
  then show ?thesis using search_depth[OF std_less.strict_weak_axioms ok _ r _ it] r by auto
qed

section \<open>Moving out of a tree\<close>

text \<open>An insertion and an erasure after a move, from a tree of 1, 4 and 2 into the other.\<close>

definition after_move :: "nat rbstore \<Rightarrow> nat list option" where
  "after_move s = Option.bind (rb_insert 0 (<) 5 s) (\<lambda>(it, ok, s).
     Option.bind (rb_erase_value 0 (<) 1 s) (\<lambda>(n, s). rb_walk 0 s (rb_begin 0 s) (rb_end 0 s)))"

definition moved_tree :: "(ptr \<Rightarrow> ptr \<Rightarrow> nat rbstore \<Rightarrow> nat rbstore option) \<Rightarrow> nat rbstore option" where
  "moved_tree move = Option.bind (rb_insert_list 1 (<) [1, 4, 2] (fold rb_construct [0, 1] (blank 2 0))) (move 0 1)"

lemma after_move_eval:
  "Option.bind (moved_tree rb_move) after_move = Some [4, 5]"
  "Option.bind (moved_tree rb_move_assign) after_move = Some [2, 4, 5]"
  by (simp_all add: tree_eval moved_tree_def after_move_def cong: bind_strict let_weak_cong)

text \<open>
  C33: the move constructor hands over all elements, but leaves the new header's colour as it is default initialised, red, unless the
  other tree is empty: after any program on two trees that leaves the new one empty, the moved elements are iterated in order, the
  other tree is empty, and nil is black only if nothing was moved. A red nil makes later operations go wrong: after moving from a
  tree of 1, 4 and 2, inserting 5 and erasing 1 leaves 4 and 5, whereas the same program with move assignment leaves 2, 4 and 5.
\<close>

lemma move_constructor_red_nil:
  assumes "strict_weak lt" "h < rb_fresh s" "k < rb_fresh s" "h \<noteq> k" "tree_ops_ok lt {h, k} ops (\<lambda>_. [])"
    "trees_run lt ops (fold rb_construct [h, k] s) = Some (ns, s1)"
    "snd (lists_run lt ops (\<lambda>_. [])) h = []" "xs = snd (lists_run lt ops (\<lambda>_. [])) k"
  shows "\<exists>s2. rb_move h k s1 = Some s2 \<and> rb_walk h s2 (rb_begin h s2) (rb_end h s2) = Some xs \<and> rb_size s2 h = length xs
    \<and> rb_is_empty k s2 \<and> rb_walk k s2 (rb_begin k s2) (rb_end k s2) = Some [] \<and> (rb_black s2 (rb_end h s2) \<longleftrightarrow> xs = [])
    \<and> Option.bind (moved_tree rb_move) after_move = Some [4, 5]
    \<and> Option.bind (moved_tree rb_move_assign) after_move = Some [2, 4, 5]"
proof -
  obtain T where f: "forest lt {h, k} s1 T (snd (lists_run lt ops (\<lambda>_. [])))"
    using program_runs[of lt "[h, k]" s ops] assms by auto
  have t: "tree_ok k s1 (T k)" "contents s1 (T k) = xs" "tree_ok h s1 (T h)" "contents s1 (T h) = []" "apart h (T h) k (T k)"
    using f assms(4,7,8) by (simp_all add: forest_def)
  then have "apart h Tip k (T k)" "h < rb_fresh s1" by (simp_all add: apart_def tree_ok_def)
  then obtain s2 where m: "rb_move h k s1 = Some s2" "rb_value s2 = rb_value s1" "tree_ok k s2 Tip"
    "tree_ok h (set_black h True s2) (T k)" "rb_black s2 h \<longleftrightarrow> T k = Tip" using move_ok[OF t(1)] by blast
  have n: "h \<notin> set (ptrs (T k))" using t(5) by (simp add: apart_def)
  have c: "contents s2 (T k) = xs" using m(2) t(2) by (simp add: contents_def)
  have "shaped h s2 (T k)" "extremes h s2 (T k)" using m(4) n by (simp_all add: tree_ok_def shaped_def extremes_def)
  moreover have "rb_size s2 h = length (ptrs (T k))" using m(4) by (simp add: tree_ok_def set_black_def)
  ultimately have "rb_walk h s2 (rb_begin h s2) (rb_end h s2) = Some xs" "rb_size s2 h = length xs"
    using walk[of h s2 "T k" "[]" "ptrs (T k)" "[]"] c by (simp_all add: extremes_def rb_begin_def rb_end_def contents_def flip: c)
  moreover have "T k = Tip \<longleftrightarrow> xs = []" using t(2) by (cases "T k") (auto simp: contents_def)
  moreover have "rb_walk k s2 (rb_begin k s2) (rb_end k s2) = Some []" "rb_is_empty k s2"
    using walk_all[OF m(3)] m(3) by (simp_all add: contents_def rb_is_empty_def tree_ok_def)
  ultimately show ?thesis using m(1,5) after_move_eval by (simp add: rb_end_def)
qed

lemma move_constructor_red_nil_witness:
  "\<exists>ns s1 s2 s3. trees_run (<) [TreeFill 1 [1, 4, 2]] (fold rb_construct [0, 1] (blank 2 0)) = Some (ns, s1)
     \<and> rb_move 0 1 s1 = Some s2 \<and> rb_walk 0 s2 (rb_begin 0 s2) (rb_end 0 s2) = Some [1, 2, 4] \<and> \<not> rb_black s2 (rb_end 0 s2)
     \<and> after_move s2 = Some [4, 5] \<and> rb_move_assign 0 1 s1 = Some s3 \<and> after_move s3 = Some [2, 4, 5]"
proof -
  have ok: "0 < rb_fresh (blank 2 (0 :: nat))" "1 < rb_fresh (blank 2 (0 :: nat))" by (simp_all add: blank_def)
  obtain s1 s2 where s1: "rb_insert_list 1 (<) [1, 4, 2] (fold rb_construct [0, 1] (blank 2 (0 :: nat))) = Some s1"
    and s2: "rb_move 0 1 s1 = Some s2" "after_move s2 = Some [4, 5]"
    using after_move_eval(1) unfolding moved_tree_def bind_eq_Some_conv by blast
  then obtain s3 where s3: "rb_move_assign 0 1 s1 = Some s3" "after_move s3 = Some [2, 4, 5]"
    using after_move_eval(2) unfolding moved_tree_def bind_eq_Some_conv by auto
  have r: "trees_run (<) [TreeFill 1 [1, 4, 2]] (fold rb_construct [0, 1] (blank 2 0)) = Some ([0], s1)"
    using s1 by simp
  have "rb_walk 0 s2 (rb_begin 0 s2) (rb_end 0 s2) = Some [1, 2, 4]" "\<not> rb_black s2 (rb_end 0 s2)"
    using move_constructor_red_nil[OF std_less.strict_weak_axioms ok zero_neq_one _ r, of "[1, 2, 4]"] s2(1)
    by (auto simp: list_insert_def)
  then show ?thesis using r s2 s3 by blast
qed

section \<open>Maps\<close>

text \<open>
  C34: a map on a red-black tree implements functions from keys to optional values, for every strict weak order of the keys. Every
  sequence of insert, assignment through \<^verbatim>\<open>operator[]\<close>, try_emplace, insert_or_assign, erase by key, find and extract,
  assignment from a list and clear returns and gives the answers of the operations on functions; afterwards
  \<^verbatim>\<open>at\<close> returns the value of a key or throws \<^verbatim>\<open>out_of_range\<close>, \<^verbatim>\<open>count\<close> agrees, and iterating visits
  the entries in the order of their keys.
\<close>

lemma tree_map_refines_functions:
  assumes "strict_weak lt" "h < rb_fresh s"
  shows "\<exists>s' kvs m. rbm_run h lt d ops (rb_construct h s) = Some (fst (rbm_spec_run (\<lambda>a b. \<not> lt a b \<and> \<not> lt b a) ops (\<lambda>_. None)), s')
    \<and> m = snd (rbm_spec_run (\<lambda>a b. \<not> lt a b \<and> \<not> lt b a) ops (\<lambda>_. None))
    \<and> (\<forall>k. rbm_at h lt d k s' = Some (case m k of Some v \<Rightarrow> Inr v | None \<Rightarrow> Inl OutOfRange))
    \<and> (\<forall>k. rbm_count h lt d k s' = Some (of_bool (m k \<noteq> None)))
    \<and> rb_walk h s' (rb_begin h s') (rb_end h s') = Some kvs \<and> sorted_wrt lt (map fst kvs)
    \<and> (\<forall>k. m k = map_option snd (List.find (\<lambda>kv. \<not> lt k (fst kv) \<and> \<not> lt (fst kv) k) kvs))"
  using key_order.map_program[OF key_order.intro[OF assms(1)] assms(2), of d ops] by blast

lemma tree_map_refines_functions_witness:
  "\<exists>s'. rbm_run 0 (<) 0 [RbmInsert 5 50, RbmIndexSet 3 30, RbmInsert 5 51, RbmAssign 7 70, RbmErase 5, RbmTryEmplace 3 31]
       (rb_construct 0 (blank 1 (0, 0))) = Some ([1, 0, 0, 1, 1, 0], s')
     \<and> rbm_at 0 (<) 0 3 s' = Some (Inr (30 :: int)) \<and> rbm_at 0 (<) 0 (5 :: int) s' = Some (Inl OutOfRange)"
  using tree_map_refines_functions[OF std_less.strict_weak_axioms, of 0 "blank 1 (0 :: int, 0 :: int)" 0
      "[RbmInsert 5 50, RbmIndexSet 3 30, RbmInsert 5 51, RbmAssign 7 70, RbmErase 5, RbmTryEmplace 3 31]"]
  by (auto simp: blank_def Let_def)

end
