(* ===== verification/LList.thy ===== *)
theory LList
  imports Nodes
begin

text \<open>
  The doubly linked list of \<^verbatim>\<open>libs/base/list.hpp\<close>. A list is the address of its header \<^verbatim>\<open>_head\<close>, which is linked into
  a ring with the nodes. Iterators are addresses; the header is the iterator \<^verbatim>\<open>end()\<close>. An input range or an initializer list
  is a list of values, a comparator or a predicate an argument. Loops over links are partial functions, \<open>None\<close>
  being a loop that does not end.
\<close>

section \<open>Links\<close>

definition ls_construct :: "addr \<Rightarrow> 'v nodes \<Rightarrow> 'v nodes" where
  "ls_construct h s = put_next h h (put_prev h h (put_size h 0 s))"

definition ls_destroy_node :: "addr \<Rightarrow> addr \<Rightarrow> 'v nodes \<Rightarrow> 'v nodes" where
  "ls_destroy_node h n s = (if n \<noteq> null \<and> n \<noteq> h then nd_free n s else s)"

text \<open>The loops that destroy nodes up to \<open>stop\<close>, and count them.\<close>

partial_function (option) ls_free_loop :: "addr \<Rightarrow> addr \<Rightarrow> addr \<Rightarrow> nat \<Rightarrow> 'v nodes \<Rightarrow> (nat \<times> 'v nodes) option" where
  "ls_free_loop h stop n cnt s =
     (if n \<noteq> stop
      then ls_free_loop h stop (nd_next s n) (cnt + 1) (ls_destroy_node h n s)
      else Some (cnt, s))"

definition ls_destroy_all :: "addr \<Rightarrow> 'v nodes \<Rightarrow> 'v nodes option" where
  "ls_destroy_all h s =
     Option.bind (ls_free_loop h h (nd_next s h) 0 s) (\<lambda>(cnt, s).
     Some (put_size h 0 (put_next h h (put_prev h h s))))"

definition ls_link_before :: "addr \<Rightarrow> addr \<Rightarrow> 'v nodes \<Rightarrow> 'v nodes" where
  "ls_link_before pos n s =
     (let s = put_prev n (nd_prev s pos) s;
          s = put_next n pos s;
          s = put_next (nd_prev s pos) n s
      in put_prev pos n s)"

definition ls_link_block_before :: "addr \<Rightarrow> addr \<Rightarrow> addr \<Rightarrow> 'v nodes \<Rightarrow> 'v nodes" where
  "ls_link_block_before pos first stop s =
     (let s = put_prev first (nd_prev s pos) s;
          s = put_next stop pos s;
          s = put_next (nd_prev s pos) first s
      in put_prev pos stop s)"

definition ls_unlink :: "addr \<Rightarrow> 'v nodes \<Rightarrow> 'v nodes" where
  "ls_unlink n s =
     (let s = put_next (nd_prev s n) (nd_next s n) s
      in put_prev (nd_next s n) (nd_prev s n) s)"

text \<open>The loops that append new nodes to \<open>tail\<close>; the second one also counts them in \<^verbatim>\<open>_size\<close>.\<close>

fun ls_extend :: "addr \<Rightarrow> 'v list \<Rightarrow> 'v nodes \<Rightarrow> addr \<times> 'v nodes" where
  "ls_extend tail [] s = (tail, s)"
| "ls_extend tail (val # vals) s =
     (let (n, s) = nd_create val s;
          s = put_next tail n s;
          s = put_prev n tail s
      in ls_extend n vals s)"

fun ls_extend_sized :: "addr \<Rightarrow> addr \<Rightarrow> 'v list \<Rightarrow> 'v nodes \<Rightarrow> addr \<times> 'v nodes" where
  "ls_extend_sized h tail [] s = (tail, s)"
| "ls_extend_sized h tail (val # vals) s =
     (let (n, s) = nd_create val s;
          s = put_next tail n s;
          s = put_prev n tail s;
          s = put_size h (nd_size s h + 1) s
      in ls_extend_sized h n vals s)"

definition ls_close :: "addr \<Rightarrow> addr \<Rightarrow> 'v nodes \<Rightarrow> 'v nodes" where
  "ls_close h tail s = put_prev h tail (put_next tail h s)"

section \<open>Construction and assignment\<close>

definition ls_of_list :: "addr \<Rightarrow> 'v list \<Rightarrow> 'v nodes \<Rightarrow> 'v nodes" where
  "ls_of_list h vals s =
     (let s = ls_construct h s;
          (tail, s) = ls_extend_sized h h vals s
      in ls_close h tail s)"

definition ls_of_count :: "addr \<Rightarrow> nat \<Rightarrow> 'v \<Rightarrow> 'v nodes \<Rightarrow> 'v nodes" where
  "ls_of_count h cnt val s =
     (let s = ls_construct h s;
          (tail, s) = ls_extend_sized h h (replicate cnt val) s
      in ls_close h tail s)"

partial_function (option) ls_copy_loop :: "addr \<Rightarrow> addr \<Rightarrow> addr \<Rightarrow> addr \<Rightarrow> 'v nodes \<Rightarrow> (addr \<times> 'v nodes) option" where
  "ls_copy_loop h other n tail s =
     (if n \<noteq> other then
        let copy = fst (nd_create (nd_value s n) s);
            s = snd (nd_create (nd_value s n) s);
            s = put_next tail copy s;
            s = put_prev copy tail s;
            s = put_size h (nd_size s h + 1) s
        in ls_copy_loop h other (nd_next s n) copy s
      else Some (tail, s))"

definition ls_copy :: "addr \<Rightarrow> addr \<Rightarrow> 'v nodes \<Rightarrow> 'v nodes option" where
  "ls_copy h other s =
     (let s = ls_construct h s
      in Option.bind (ls_copy_loop h other (nd_next s other) h s) (\<lambda>(tail, s). Some (ls_close h tail s)))"

text \<open>The header takes over the ring of another one.\<close>

definition ls_take_ring :: "addr \<Rightarrow> addr \<Rightarrow> 'v nodes \<Rightarrow> 'v nodes" where
  "ls_take_ring h other s =
     (let s = put_next h (nd_next s other) s;
          s = put_prev h (nd_prev s other) s;
          s = put_prev (nd_next s h) h s;
          s = put_next (nd_prev s h) h s;
          s = put_prev other other s
      in put_next other other s)"

definition ls_move :: "addr \<Rightarrow> addr \<Rightarrow> 'v nodes \<Rightarrow> 'v nodes" where
  "ls_move h other s =
     (let s = put_size other 0 (put_size h (nd_size s other) s)
      in if nd_next s other \<noteq> other then ls_take_ring h other s
         else put_next h h (put_prev h h s))"

definition ls_copy_assign :: "addr \<Rightarrow> addr \<Rightarrow> 'v nodes \<Rightarrow> 'v nodes option" where
  "ls_copy_assign h other s =
     (if h \<noteq> other then
        Option.bind (ls_destroy_all h s) (\<lambda>s.
        Option.bind (ls_copy_loop h other (nd_next s other) h s) (\<lambda>(tail, s). Some (ls_close h tail s)))
      else Some s)"

definition ls_move_assign :: "addr \<Rightarrow> addr \<Rightarrow> 'v nodes \<Rightarrow> 'v nodes option" where
  "ls_move_assign h other s =
     (if h \<noteq> other then
        Option.bind (ls_destroy_all h s) (\<lambda>s.
        let s = (if nd_next s other \<noteq> other then ls_take_ring h other s else put_next h h (put_prev h h s))
        in Some (put_size other 0 (put_size h (nd_size s other) s)))
      else Some s)"

definition ls_assign_count :: "addr \<Rightarrow> nat \<Rightarrow> 'v \<Rightarrow> 'v nodes \<Rightarrow> 'v nodes option" where
  "ls_assign_count h cnt val s =
     Option.bind (ls_destroy_all h s) (\<lambda>s.
     if cnt = 0 then Some s
     else let (tail, s) = ls_extend h (replicate cnt val) s
          in Some (put_size h cnt (ls_close h tail s)))"

definition ls_assign_list :: "addr \<Rightarrow> 'v list \<Rightarrow> 'v nodes \<Rightarrow> 'v nodes option" where
  "ls_assign_list h vals s =
     Option.bind (ls_destroy_all h s) (\<lambda>s.
     if vals = [] then Some s
     else let (tail, s) = ls_extend_sized h h vals s in Some (ls_close h tail s))"

section \<open>Access\<close>

definition ls_begin :: "addr \<Rightarrow> 'v nodes \<Rightarrow> addr" where
  "ls_begin h s = nd_next s h"

definition ls_end :: "addr \<Rightarrow> 'v nodes \<Rightarrow> addr" where
  "ls_end h s = h"

definition ls_is_empty :: "addr \<Rightarrow> 'v nodes \<Rightarrow> bool" where
  "ls_is_empty h s \<longleftrightarrow> nd_next s h = h"

definition ls_front :: "addr \<Rightarrow> 'v nodes \<Rightarrow> 'v" where
  "ls_front h s = nd_value s (nd_next s h)"

definition ls_back :: "addr \<Rightarrow> 'v nodes \<Rightarrow> 'v" where
  "ls_back h s = nd_value s (nd_prev s h)"

section \<open>Insertion\<close>

definition ls_insert :: "addr \<Rightarrow> addr \<Rightarrow> 'v \<Rightarrow> 'v nodes \<Rightarrow> addr \<times> 'v nodes" where
  "ls_insert h pos val s =
     (let (n, s) = nd_create val s;
          s = ls_link_before pos n s
      in (n, put_size h (nd_size s h + 1) s))"

definition ls_insert_count :: "addr \<Rightarrow> addr \<Rightarrow> nat \<Rightarrow> 'v \<Rightarrow> 'v nodes \<Rightarrow> addr \<times> 'v nodes" where
  "ls_insert_count h pos cnt val s =
     (if cnt = 0 then (pos, s)
      else let (first_node, s) = nd_create val s;
               (tail, s) = ls_extend first_node (replicate (cnt - 1) val) s;
               s = ls_link_block_before pos first_node tail s
           in (first_node, put_size h (nd_size s h + cnt) s))"

definition ls_insert_list :: "addr \<Rightarrow> addr \<Rightarrow> 'v list \<Rightarrow> 'v nodes \<Rightarrow> addr \<times> 'v nodes" where
  "ls_insert_list h pos vals s =
     (case vals of
        [] \<Rightarrow> (pos, s)
      | val # vals \<Rightarrow>
          let (first_node, s) = nd_create val s;
              (prev_node, s) = ls_extend first_node vals s;
              s = ls_link_block_before pos first_node prev_node s
          in (first_node, put_size h (nd_size s h + (1 + length vals)) s))"

definition ls_emplace :: "addr \<Rightarrow> addr \<Rightarrow> 'v \<Rightarrow> 'v nodes \<Rightarrow> addr \<times> 'v nodes" where
  "ls_emplace h pos val s =
     (let (n, s) = nd_create val s;
          s = ls_link_before pos n s
      in (n, put_size h (nd_size s h + 1) s))"

definition ls_emplace_back :: "addr \<Rightarrow> 'v \<Rightarrow> 'v nodes \<Rightarrow> addr \<times> 'v nodes" where
  "ls_emplace_back h val s =
     (let (n, s) = nd_create val s;
          s = ls_link_before h n s
      in (n, put_size h (nd_size s h + 1) s))"

definition ls_emplace_front :: "addr \<Rightarrow> 'v \<Rightarrow> 'v nodes \<Rightarrow> addr \<times> 'v nodes" where
  "ls_emplace_front h val s =
     (let (n, s) = nd_create val s;
          s = ls_link_before (nd_next s h) n s
      in (n, put_size h (nd_size s h + 1) s))"

definition ls_push_front :: "addr \<Rightarrow> 'v \<Rightarrow> 'v nodes \<Rightarrow> 'v nodes" where
  "ls_push_front h val s = snd (ls_insert h (ls_begin h s) val s)"

definition ls_push_back :: "addr \<Rightarrow> 'v \<Rightarrow> 'v nodes \<Rightarrow> 'v nodes" where
  "ls_push_back h val s = snd (ls_insert h (ls_end h s) val s)"

section \<open>Erasure\<close>

definition ls_erase :: "addr \<Rightarrow> addr \<Rightarrow> 'v nodes \<Rightarrow> addr \<times> 'v nodes" where
  "ls_erase h node s =
     (let nxt = nd_next s node;
          s = ls_unlink node s;
          s = ls_destroy_node h node s
      in (nxt, put_size h (nd_size s h - 1) s))"

definition ls_pop_front :: "addr \<Rightarrow> 'v nodes \<Rightarrow> 'v nodes" where
  "ls_pop_front h s = snd (ls_erase h (ls_begin h s) s)"

definition ls_pop_back :: "addr \<Rightarrow> 'v nodes \<Rightarrow> 'v nodes" where
  "ls_pop_back h s = snd (ls_erase h (nd_prev s (ls_end h s)) s)"

definition ls_erase_range :: "addr \<Rightarrow> addr \<Rightarrow> addr \<Rightarrow> 'v nodes \<Rightarrow> (addr \<times> 'v nodes) option" where
  "ls_erase_range h first_node last_node s =
     (if first_node = last_node then Some (last_node, s)
      else
        let s = put_next (nd_prev s first_node) last_node s;
            s = put_prev last_node (nd_prev s first_node) s
        in Option.bind (ls_free_loop h last_node first_node 0 s) (\<lambda>(cnt, s).
           Some (last_node, put_size h (nd_size s h - cnt) s)))"

primrec ls_advance :: "nat \<Rightarrow> 'v nodes \<Rightarrow> addr \<Rightarrow> addr" where
  "ls_advance 0 s n = n"
| "ls_advance (Suc i) s n = ls_advance i s (nd_next s n)"

definition ls_resize :: "addr \<Rightarrow> nat \<Rightarrow> 'v \<Rightarrow> 'v nodes \<Rightarrow> 'v nodes option" where
  "ls_resize h cnt val s =
     (if cnt < nd_size s h then
        let n = ls_advance cnt s (nd_next s h);
            last_kept = nd_prev s n;
            s = put_next last_kept h s;
            s = put_prev h last_kept s
        in Option.bind (ls_free_loop h h n 0 s) (\<lambda>(k, s). Some (put_size h cnt s))
      else if cnt > nd_size s h then
        let (tail, s) = ls_extend (nd_prev s h) (replicate (cnt - nd_size s h) val) s
        in Some (put_size h cnt (ls_close h tail s))
      else Some s)"

section \<open>Whole lists\<close>

definition ls_swap :: "addr \<Rightarrow> addr \<Rightarrow> 'v nodes \<Rightarrow> 'v nodes" where
  "ls_swap h other s =
     (if h = other then s
      else
        let s = put_size h (nd_size s other) (put_size other (nd_size s h) s);
            this_empty = (nd_next s h = h);
            other_empty = (nd_next s other = other)
        in if this_empty \<and> other_empty then s
           else if this_empty then ls_take_ring h other s
           else if other_empty then
             let s = put_next other (nd_next s h) s;
                 s = put_prev other (nd_prev s h) s;
                 s = put_prev (nd_next s other) other s;
                 s = put_next (nd_prev s other) other s;
                 s = put_prev h h s
             in put_next h h s
           else
             let s = put_next h (nd_next s other) (put_next other (nd_next s h) s);
                 s = put_prev h (nd_prev s other) (put_prev other (nd_prev s h) s);
                 s = put_prev (nd_next s h) h s;
                 s = put_next (nd_prev s h) h s;
                 s = put_prev (nd_next s other) other s
             in put_next (nd_prev s other) other s)"

text \<open>\<^verbatim>\<open>base::swap\<close> on the two links of a node.\<close>

definition ls_swap_links :: "addr \<Rightarrow> 'v nodes \<Rightarrow> 'v nodes" where
  "ls_swap_links n s = put_prev n (nd_next s n) (put_next n (nd_prev s n) s)"

partial_function (option) ls_reverse_loop :: "addr \<Rightarrow> addr \<Rightarrow> 'v nodes \<Rightarrow> 'v nodes option" where
  "ls_reverse_loop h cur s =
     (if cur \<noteq> h
      then ls_reverse_loop h (nd_prev (ls_swap_links cur s) cur) (ls_swap_links cur s)
      else Some s)"

definition ls_reverse :: "addr \<Rightarrow> 'v nodes \<Rightarrow> 'v nodes option" where
  "ls_reverse h s =
     (if nd_size s h \<le> 1 then Some s
      else Option.bind (ls_reverse_loop h (nd_next s h) s) (\<lambda>s. Some (ls_swap_links h s)))"

partial_function (option) ls_remove_loop :: "addr \<Rightarrow> ('v \<Rightarrow> bool) \<Rightarrow> addr \<Rightarrow> nat \<Rightarrow> 'v nodes \<Rightarrow> (nat \<times> 'v nodes) option" where
  "ls_remove_loop h pred cur cnt s =
     (if cur \<noteq> h then
        let nxt = nd_next s cur
        in if pred (nd_value s cur) then
             let s = ls_unlink cur s;
                 s = ls_destroy_node h cur s;
                 s = put_size h (nd_size s h - 1) s
             in ls_remove_loop h pred nxt (cnt + 1) s
           else ls_remove_loop h pred nxt cnt s
      else Some (cnt, s))"

definition ls_remove_if :: "addr \<Rightarrow> ('v \<Rightarrow> bool) \<Rightarrow> 'v nodes \<Rightarrow> (nat \<times> 'v nodes) option" where
  "ls_remove_if h pred s = ls_remove_loop h pred (nd_next s h) 0 s"

definition ls_remove :: "addr \<Rightarrow> 'v \<Rightarrow> 'v nodes \<Rightarrow> (nat \<times> 'v nodes) option" where
  "ls_remove h val s = ls_remove_if h (\<lambda>v. v = val) s"

partial_function (option) ls_unique_loop ::
  "addr \<Rightarrow> ('v \<Rightarrow> 'v \<Rightarrow> bool) \<Rightarrow> addr \<Rightarrow> nat \<Rightarrow> 'v nodes \<Rightarrow> (nat \<times> 'v nodes) option" where
  "ls_unique_loop h pred cur cnt s =
     (if cur \<noteq> h \<and> nd_next s cur \<noteq> h then
        if pred (nd_value s cur) (nd_value s (nd_next s cur)) then
          let target = nd_next s cur;
              s = ls_unlink target s;
              s = ls_destroy_node h target s;
              s = put_size h (nd_size s h - 1) s
          in ls_unique_loop h pred cur (cnt + 1) s
        else ls_unique_loop h pred (nd_next s cur) cnt s
      else Some (cnt, s))"

definition ls_unique :: "addr \<Rightarrow> ('v \<Rightarrow> 'v \<Rightarrow> bool) \<Rightarrow> 'v nodes \<Rightarrow> (nat \<times> 'v nodes) option" where
  "ls_unique h pred s = ls_unique_loop h pred (nd_next s h) 0 s"

section \<open>Merging and sorting\<close>

text \<open>The merge loop relinks nodes of two chains, which end at \<open>enda\<close> and at \<open>endb\<close>, behind \<open>tail\<close>.\<close>

partial_function (option) ls_merge_loop ::
  "addr \<Rightarrow> addr \<Rightarrow> ('v \<Rightarrow> 'v \<Rightarrow> bool) \<Rightarrow> addr \<Rightarrow> addr \<Rightarrow> addr \<Rightarrow> 'v nodes \<Rightarrow> (addr \<times> addr \<times> addr \<times> 'v nodes) option" where
  "ls_merge_loop enda endb lt a b tail s =
     (if a \<noteq> enda \<and> b \<noteq> endb then
        if lt (nd_value s a) (nd_value s b) then
          let s = put_next tail a s;
              s = put_prev a tail s
          in ls_merge_loop enda endb lt (nd_next s a) b a s
        else
          let s = put_next tail b s;
              s = put_prev b tail s
          in ls_merge_loop enda endb lt a (nd_next s b) b s
      else Some (a, b, tail, s))"

partial_function (option) ls_find_tail :: "addr \<Rightarrow> addr \<Rightarrow> 'v nodes \<Rightarrow> addr option" where
  "ls_find_tail h tail s = (if nd_next s tail \<noteq> h then ls_find_tail h (nd_next s tail) s else Some tail)"

definition ls_rebuild_tail :: "addr \<Rightarrow> 'v nodes \<Rightarrow> 'v nodes option" where
  "ls_rebuild_tail h s = Option.bind (ls_find_tail h (nd_next s h) s) (\<lambda>tail. Some (ls_close h tail s))"

partial_function (option) ls_split_loop :: "addr \<Rightarrow> addr \<Rightarrow> addr \<Rightarrow> 'v nodes \<Rightarrow> addr option" where
  "ls_split_loop h slow fast s =
     (if fast \<noteq> h \<and> nd_next s fast \<noteq> h
      then ls_split_loop h (nd_next s slow) (nd_next s (nd_next s fast)) s
      else Some slow)"

definition ls_split :: "addr \<Rightarrow> addr \<Rightarrow> 'v nodes \<Rightarrow> (addr \<times> addr \<times> 'v nodes) option" where
  "ls_split h head s =
     Option.bind (ls_split_loop h head (nd_next s head) s) (\<lambda>slow.
     let b = nd_next s slow;
         s = put_next slow h s;
         s = put_prev b h s
     in Some (head, b, s))"

text \<open>
  The node \<^verbatim>\<open>result\<close> is a local variable; its address is one that is not used otherwise, and the first node is left linked
  back to it.
\<close>

definition ls_sorted_merge ::
  "addr \<Rightarrow> ('v \<Rightarrow> 'v \<Rightarrow> bool) \<Rightarrow> addr \<Rightarrow> addr \<Rightarrow> 'v nodes \<Rightarrow> (addr \<times> 'v nodes) option" where
  "ls_sorted_merge h lt a b s =
     (let result = nd_fresh s;
          s = put_prev result h s;
          s = put_next result h s
      in Option.bind (ls_merge_loop h h lt a b result s) (\<lambda>(a, b, tail, s).
         let remainder = (if a \<noteq> h then a else b);
             s = put_next tail remainder s;
             s = put_prev remainder tail s
         in Option.bind (ls_find_tail h tail s) (\<lambda>tail.
            let s = ls_close h tail s in Some (nd_next s result, s))))"

partial_function (option) ls_merge_sort ::
  "addr \<Rightarrow> ('v \<Rightarrow> 'v \<Rightarrow> bool) \<Rightarrow> addr \<Rightarrow> 'v nodes \<Rightarrow> (addr \<times> 'v nodes) option" where
  "ls_merge_sort h lt head s =
     (if head = h \<or> nd_next s head = h then Some (head, s)
      else
        Option.bind (ls_split h head s) (\<lambda>r.
        Option.bind (ls_merge_sort h lt (fst r) (snd (snd r))) (\<lambda>ra.
        Option.bind (ls_merge_sort h lt (fst (snd r)) (snd ra)) (\<lambda>rb.
        ls_sorted_merge h lt (fst ra) (fst rb) (snd rb)))))"

definition ls_sort :: "addr \<Rightarrow> ('v \<Rightarrow> 'v \<Rightarrow> bool) \<Rightarrow> 'v nodes \<Rightarrow> 'v nodes option" where
  "ls_sort h lt s =
     (if nd_size s h \<le> 1 then Some s
      else Option.bind (ls_merge_sort h lt (nd_next s h) s) (\<lambda>(new_head, s).
           let s = put_next h new_head s;
               s = put_prev new_head h s
           in ls_rebuild_tail h s))"

definition ls_merge :: "addr \<Rightarrow> ('v \<Rightarrow> 'v \<Rightarrow> bool) \<Rightarrow> addr \<Rightarrow> 'v nodes \<Rightarrow> 'v nodes option" where
  "ls_merge h lt other s =
     (if h = other \<or> ls_is_empty other s then Some s
      else
        Option.bind (ls_merge_loop h other lt (nd_next s h) (nd_next s other) h s) (\<lambda>(a, b, tail, s).
        let remainder = (if a \<noteq> h then a else b);
            s = put_next tail remainder s;
            s = put_prev remainder tail s
        in Option.bind (ls_rebuild_tail h s) (\<lambda>s.
           let s = put_size h (nd_size s h + nd_size s other) s;
               s = put_prev other other s;
               s = put_next other other s
           in Some (put_size other 0 s))))"

section \<open>Splicing\<close>

definition ls_splice :: "addr \<Rightarrow> addr \<Rightarrow> addr \<Rightarrow> 'v nodes \<Rightarrow> 'v nodes" where
  "ls_splice h pos other s =
     (if ls_is_empty other s then s
      else
        let first = nd_next s other;
            stop = nd_prev s other;
            s = put_next other other s;
            s = put_prev other other s;
            s = ls_link_block_before pos first stop s;
            s = put_size h (nd_size s h + nd_size s other) s
        in put_size other 0 s)"

definition ls_splice_one :: "addr \<Rightarrow> addr \<Rightarrow> addr \<Rightarrow> addr \<Rightarrow> 'v nodes \<Rightarrow> 'v nodes" where
  "ls_splice_one h pos other node s =
     (if node = other then s
      else
        let s = ls_unlink node s;
            s = put_size other (nd_size s other - 1) s;
            s = ls_link_before pos node s
        in put_size h (nd_size s h + 1) s)"

partial_function (option) ls_count_loop :: "addr \<Rightarrow> addr \<Rightarrow> nat \<Rightarrow> 'v nodes \<Rightarrow> nat option" where
  "ls_count_loop n stop cnt s =
     (if n \<noteq> stop then ls_count_loop (nd_next s n) stop (cnt + 1) s else Some cnt)"

definition ls_splice_range :: "addr \<Rightarrow> addr \<Rightarrow> addr \<Rightarrow> addr \<Rightarrow> addr \<Rightarrow> 'v nodes \<Rightarrow> 'v nodes option" where
  "ls_splice_range h pos other first_node last_node s =
     (if first_node = last_node then Some s
      else
        Option.bind (ls_count_loop first_node last_node 0 s) (\<lambda>cnt.
        let block_last = nd_prev s last_node;
            s = put_next (nd_prev s first_node) last_node s;
            s = put_prev last_node (nd_prev s first_node) s;
            s = ls_link_block_before pos first_node block_last s;
            s = put_size h (nd_size s h + cnt) s
        in Some (put_size other (nd_size s other - cnt) s)))"

text \<open>The loops compute by their equations.\<close>

lemmas ls_loops =
  ls_free_loop.simps
  ls_copy_loop.simps
  ls_reverse_loop.simps
  ls_remove_loop.simps
  ls_unique_loop.simps
  ls_merge_loop.simps
  ls_find_tail.simps
  ls_split_loop.simps
  ls_merge_sort.simps
  ls_count_loop.simps

declare ls_loops [code]

end
