(* ===== verification/LListOps.thy ===== *)
theory LListOps
  imports LList
begin

text \<open>
  The operations of a doubly linked list on the list of its nodes. A list in order is a ring: header, nodes and header
  again are linked in both directions, and every operation cuts and joins such rings.
\<close>

section \<open>Rings\<close>

definition ring :: "addr \<Rightarrow> 'v nodes \<Rightarrow> addr list \<Rightarrow> bool" where
  "ring h s xs \<longleftrightarrow> fwd s (h # xs @ [h]) \<and> bwd s (h # xs @ [h]) \<and> distinct (h # xs)"

definition list_ok :: "addr \<Rightarrow> 'v nodes \<Rightarrow> addr list \<Rightarrow> bool" where
  "list_ok h s xs \<longleftrightarrow> ring h s xs \<and> nd_size s h = length xs \<and> h < nd_fresh s
     \<and> (\<forall>x\<in>set xs. nd_live s x \<and> x < nd_fresh s \<and> x \<noteq> null)"

lemma ring_cong:
  assumes "\<And>x. x \<in> insert h (set xs) \<Longrightarrow> nd_next s' x = nd_next s x \<and> nd_prev s' x = nd_prev s x"
  shows "ring h s' xs = ring h s xs"
proof -
  have "fwd s' (h # xs @ [h]) = fwd s (h # xs @ [h])" by (rule fwd_cong) (use assms in \<open>auto dest: in_set_butlastD\<close>)
  moreover have "bwd s' (h # xs @ [h]) = bwd s (h # xs @ [h])" by (rule bwd_cong) (use assms in auto)
  ultimately show ?thesis by (simp add: ring_def)
qed

lemma list_ok_cong:
  assumes "list_ok h s xs" "changes A s s'" "h \<notin> A" "set xs \<inter> A = {}"
  shows "list_ok h s' xs"
proof -
  have same: "nd_next s' x = nd_next s x \<and> nd_prev s' x = nd_prev s x \<and> nd_live s' x = nd_live s x \<and> nd_size s' x = nd_size s x"
    if "x \<in> insert h (set xs)" for x
    using assms that unfolding changes_def list_ok_def by blast
  have "ring h s' xs = ring h s xs" by (rule ring_cong) (use same in blast)
  then show ?thesis using assms(1,2) same by (fastforce simp: list_ok_def changes_def)
qed

interpretation dl: node_container list_ok
proof
  show "list_ok h s xs \<Longrightarrow> changes A s s' \<Longrightarrow> h \<notin> A \<Longrightarrow> set xs \<inter> A = {} \<Longrightarrow> list_ok h s' xs" for h and s s' :: "'a nodes" and xs A
    by (rule list_ok_cong)
qed (auto simp: list_ok_def ring_def)

lemma last_butlast: "distinct xs \<Longrightarrow> xs \<noteq> [] \<Longrightarrow> last xs \<notin> set (butlast xs)"
  using distinct_butlast[of xs] append_butlast_last_id[of xs] by (metis distinct_append distinct.simps(2) not_distinct_conv_prefix)

lemma hd_tl: "distinct xs \<Longrightarrow> xs \<noteq> [] \<Longrightarrow> hd xs \<notin> set (tl xs)"
  by (cases xs) auto

text \<open>The neighbours of a place in the ring.\<close>

lemma ring_neighbours:
  assumes "ring h s (A @ B)"
  shows "nd_next s (last (h # A)) = hd (B @ [h])" "nd_prev s (hd (B @ [h])) = last (h # A)"
    "fwd s (h # A)" "bwd s (h # A)" "fwd s (B @ [h])" "bwd s (B @ [h])"
  using assms fwd_join[of "h # A" "B @ [h]" s] bwd_join[of "h # A" "B @ [h]" s] by (auto simp: ring_def)

lemma ring_join:
  assumes "distinct (h # A @ B)" "fwd s (h # A)" "bwd s (h # A)" "fwd s (B @ [h])" "bwd s (B @ [h])"
    "nd_next s (last (h # A)) = hd (B @ [h])" "nd_prev s (hd (B @ [h])) = last (h # A)"
  shows "ring h s (A @ B)"
  using assms fwd_join[of "h # A" "B @ [h]" s] bwd_join[of "h # A" "B @ [h]" s] by (auto simp: ring_def)

lemma ring_ends:
  assumes "distinct (h # A @ B)"
  shows "last (h # A) \<notin> set (butlast (h # A))" "last (h # A) \<notin> set B" "hd (B @ [h]) \<notin> set A" "hd (B @ [h]) \<notin> set (tl (B @ [h]))"
    "last (h # A) \<in> insert h (set A)" "hd (B @ [h]) \<in> insert h (set B)"
proof -
  show "last (h # A) \<notin> set (butlast (h # A))" by (rule last_butlast) (use assms in auto)
  show "last (h # A) \<notin> set B" using assms last_in_set[of "h # A"] by auto
  show "hd (B @ [h]) \<notin> set A" "hd (B @ [h]) \<notin> set (tl (B @ [h]))" using assms by (cases B; auto)+
  show "last (h # A) \<in> insert h (set A)" using last_in_set[of "h # A"] by auto
  show "hd (B @ [h]) \<in> insert h (set B)" by (cases B) auto
qed

lemma link_before_block: "ls_link_before pos n s = ls_link_block_before pos n n s"
  by (simp add: ls_link_before_def ls_link_block_before_def)

lemma link_block:
  assumes r: "ring h s (A @ B)" and M: "M \<noteq> []" "fwd s M" "bwd s M" "distinct M" "set M \<inter> insert h (set A \<union> set B) = {}"
  defines "s' \<equiv> ls_link_block_before (hd (B @ [h])) (hd M) (last M) s"
  shows "ring h s' (A @ M @ B)" "nd_value s' = nd_value s" "nd_live s' = nd_live s" "nd_size s' = nd_size s" "nd_fresh s' = nd_fresh s"
    "changes (insert h (set A \<union> set M \<union> set B)) s s'"
proof -
  let ?p = "last (h # A)" and ?q = "hd (B @ [h])"
  have di: "distinct (h # A @ B)" using r by (simp add: ring_def)
  note n = ring_neighbours[OF r] and e = ring_ends[OF di]
  have m: "hd M \<in> set M" "last M \<in> set M" "last M \<notin> set (butlast M)" "hd M \<notin> set (tl M)"
    using M(1,4) last_butlast hd_tl by auto
  have ne: "?q \<noteq> hd M" "?p \<noteq> last M" "?q \<notin> set M" "?p \<notin> set M" using e(5,6) m M(5) by auto
  have s': "s' = put_prev ?q (last M) (put_next ?p (hd M) (put_next (last M) ?q (put_prev (hd M) ?p s)))"
    using n(2) ne by (simp add: s'_def ls_link_block_before_def Let_def)
  have hm: "last M \<notin> insert h (set A \<union> set B)" "hd M \<notin> insert h (set A \<union> set B)" using m M(5) by auto
  have f: "fwd s' ys = fwd s ys" if "last M \<notin> set (butlast ys)" "?p \<notin> set (butlast ys)" for ys
    by (rule fwd_cong) (use that in \<open>auto simp: s'\<close>)
  have b: "bwd s' ys = bwd s ys" if "hd M \<notin> set (tl ys)" "?q \<notin> set (tl ys)" for ys
    by (rule bwd_cong) (use that in \<open>auto simp: s'\<close>)
  have t: "set (tl (B @ [h])) \<subseteq> insert h (set B)" by (cases B) auto
  have "fwd s' (h # A)" using f[of "h # A"] n(3) e(1) hm(1) by (auto dest: in_set_butlastD split: if_splits)
  moreover have "bwd s' (h # A)" using b[of "h # A"] n(4) e(3) hm(2) by auto
  moreover have "fwd s' M" using f[of M] M(2) m(3) ne(4) by (auto dest: in_set_butlastD)
  moreover have "bwd s' M" using b[of M] M(3) m(4) ne(3) list.set_sel(2)[OF M(1)] by auto
  moreover have "fwd s' (B @ [h])" using f[of "B @ [h]"] n(5) e(2) hm(1) by simp
  moreover have "bwd s' (B @ [h])" using b[of "B @ [h]"] n(6) e(4) hm(2) t by auto
  moreover have "nd_next s' ?p = hd M" "nd_next s' (last M) = ?q" "nd_prev s' (hd M) = ?p" "nd_prev s' ?q = last M"
    using ne by (auto simp: s')
  ultimately show "ring h s' (A @ M @ B)"
    using di M fwd_join[of M "B @ [h]" s'] bwd_join[of M "B @ [h]" s'] by (intro ring_join) (auto simp: hd_append)
  show "nd_value s' = nd_value s" "nd_live s' = nd_live s" "nd_size s' = nd_size s" "nd_fresh s' = nd_fresh s"
    by (simp_all add: s')
  show "changes (insert h (set A \<union> set M \<union> set B)) s s'"
    unfolding s' using e(5,6) m by (intro changes_put) auto
qed

definition ls_cut :: "addr \<Rightarrow> addr \<Rightarrow> 'v nodes \<Rightarrow> 'v nodes" where
  "ls_cut p q s = put_prev q p (put_next p q s)"

lemma cut_block:
  assumes r: "ring h s (A @ M @ B)" and M: "M \<noteq> []"
  defines "s' \<equiv> ls_cut (last (h # A)) (hd (B @ [h])) s"
  shows "ring h s' (A @ B)" "fwd s' M" "bwd s' M" "nd_value s' = nd_value s" "nd_live s' = nd_live s" "nd_size s' = nd_size s"
    "nd_fresh s' = nd_fresh s" "changes (insert h (set A \<union> set B)) s s'" "nd_prev s (hd M) = last (h # A)"
    "nd_next s (last M) = hd (B @ [h])" "\<And>x. x \<in> set M \<Longrightarrow> nd_next s' x = nd_next s x \<and> nd_prev s' x = nd_prev s x"
proof -
  let ?p = "last (h # A)" and ?q = "hd (B @ [h])"
  have di: "distinct (h # A @ M @ B)" "distinct (h # A @ B)" using r by (auto simp: ring_def)
  note n1 = ring_neighbours[of h s A "M @ B", OF r] and e = ring_ends[OF di(2)]
  have r2: "ring h s ((A @ M) @ B)" using r by simp
  note n2 = ring_neighbours[OF r2]
  have fM: "fwd s M" "fwd s (B @ [h])" using n1(5) fwd_join[of M "B @ [h]" s] M by auto
  have bM: "bwd s M" "bwd s (B @ [h])" using n1(6) bwd_join[of M "B @ [h]" s] M by auto
  have pq: "?p \<notin> set M" "?q \<notin> set M" using e(5,6) di(1) by auto
  have f: "fwd s' ys = fwd s ys" if "?p \<notin> set (butlast ys)" for ys
    by (rule fwd_cong) (use that in \<open>auto simp: s'_def ls_cut_def\<close>)
  have b: "bwd s' ys = bwd s ys" if "?q \<notin> set (tl ys)" for ys
    by (rule bwd_cong) (use that in \<open>auto simp: s'_def ls_cut_def\<close>)
  show "fwd s' M" using f[of M] fM(1) pq(1) by (auto dest: in_set_butlastD)
  show "bwd s' M" using b[of M] bM(1) pq(2) list.set_sel(2)[OF M] by auto
  show "ring h s' (A @ B)"
    using di(2) f[of "h # A"] f[of "B @ [h]"] b[of "h # A"] b[of "B @ [h]"] n1(3,4) fM(2) bM(2) e
    by (intro ring_join) (auto simp: s'_def ls_cut_def)
  show "nd_prev s (hd M) = ?p" using n1(2) M by simp
  show "nd_next s (last M) = ?q" using n2(1) M by simp
  show "changes (insert h (set A \<union> set B)) s s'" unfolding s'_def ls_cut_def using e(5,6) by (intro changes_put) auto
  show "\<And>x. x \<in> set M \<Longrightarrow> nd_next s' x = nd_next s x \<and> nd_prev s' x = nd_prev s x"
    using pq by (auto simp: s'_def ls_cut_def)
qed (simp_all add: s'_def ls_cut_def)

lemma unlink_cut:
  assumes "ring h s (A @ a # B)"
  shows "ls_unlink a s = ls_cut (last (h # A)) (hd (B @ [h])) s"
proof -
  have r: "ring h s (A @ [a] @ B)" using assms by simp
  note c = cut_block[OF r]
  have "last (h # A) \<noteq> a" using assms last_in_set[of "h # A"] by (auto simp: ring_def)
  then show ?thesis using c(9,10) by (simp add: ls_unlink_def ls_cut_def Let_def)
qed

section \<open>New nodes\<close>

lemma extend:
  fixes vals :: "'v list"
  assumes "t < nd_fresh s"
  defines "M \<equiv> [nd_fresh s..<nd_fresh s + length vals]" and "s' \<equiv> snd (ls_extend t vals s)"
  shows "fst (ls_extend t vals s) = last (t # M)" "fwd s' (t # M)" "bwd s' (t # M)" "map (nd_value s') M = vals"
    "changes {t} s s'" "nd_size s' = nd_size s" "nd_fresh s' = nd_fresh s + length vals"
    "\<And>q. nd_live s' q = (nd_live s q \<or> q \<in> set M)" "\<And>q. q \<noteq> t \<Longrightarrow> q < nd_fresh s \<Longrightarrow> nd_next s' q = nd_next s q"
    "\<And>q. q < nd_fresh s \<Longrightarrow> nd_prev s' q = nd_prev s q \<and> nd_value s' q = nd_value s q"
proof -
  let ?P = "\<lambda>t s vals. let M = [nd_fresh s..<nd_fresh s + length vals]; s' = snd (ls_extend t vals s) in
     fst (ls_extend t vals s) = last (t # M) \<and> fwd s' (t # M) \<and> bwd s' (t # M) \<and> map (nd_value s') M = vals
     \<and> nd_size s' = nd_size s \<and> nd_fresh s' = nd_fresh s + length vals \<and> (\<forall>q. nd_live s' q = (nd_live s q \<or> q \<in> set M))
     \<and> (\<forall>q. q \<noteq> t \<longrightarrow> q < nd_fresh s \<longrightarrow> nd_next s' q = nd_next s q)
     \<and> (\<forall>q. q < nd_fresh s \<longrightarrow> nd_prev s' q = nd_prev s q \<and> nd_value s' q = nd_value s q)
     \<and> (vals \<noteq> [] \<longrightarrow> nd_next s' t = nd_fresh s)"
  have "t < nd_fresh s \<Longrightarrow> ?P t s vals" for t s
  proof (induction vals arbitrary: t s)
    case Nil
    then show ?case by (simp add: Let_def)
  next
    case (Cons val vals)
    let ?f = "nd_fresh s"
    define s1 where "s1 = put_prev ?f t (put_next t ?f (snd (nd_create val s)))"
    have s1: "nd_fresh s1 = Suc ?f" "nd_value s1 ?f = val" "nd_next s1 t = ?f" "nd_prev s1 ?f = t" "nd_size s1 = nd_size s"
      "\<And>q. nd_live s1 q = (nd_live s q \<or> q = ?f)" "\<And>q. q \<noteq> t \<Longrightarrow> q < ?f \<Longrightarrow> nd_next s1 q = nd_next s q"
      "\<And>q. q < ?f \<Longrightarrow> nd_prev s1 q = nd_prev s q \<and> nd_value s1 q = nd_value s q"
      using Cons.prems by (auto simp: s1_def)
    have e: "ls_extend t (val # vals) s = ls_extend ?f vals s1"
      by (simp add: s1_def case_prod_unfold Let_def)
    have M: "[?f..<?f + length (val # vals)] = ?f # [Suc ?f..<Suc ?f + length vals]" by (simp add: upt_rec)
    have i: "?P ?f s1 vals" using Cons.IH[of ?f s1] s1(1) by simp
    define s' where "s' = snd (ls_extend ?f vals s1)"
    have i': "fst (ls_extend ?f vals s1) = last (?f # [Suc ?f..<Suc ?f + length vals])" "fwd s' (?f # [Suc ?f..<Suc ?f + length vals])"
      "bwd s' (?f # [Suc ?f..<Suc ?f + length vals])" "map (nd_value s') [Suc ?f..<Suc ?f + length vals] = vals"
      "nd_size s' = nd_size s" "nd_fresh s' = Suc ?f + length vals"
      "\<And>q. nd_live s' q = (nd_live s q \<or> q = ?f \<or> q \<in> set [Suc ?f..<Suc ?f + length vals])"
      "\<And>q. q \<noteq> ?f \<Longrightarrow> q < Suc ?f \<Longrightarrow> nd_next s' q = nd_next s1 q"
      "\<And>q. q < Suc ?f \<Longrightarrow> nd_prev s' q = nd_prev s1 q \<and> nd_value s' q = nd_value s1 q"
      using i s1(1,5,6) unfolding Let_def s'_def by (simp_all del: upt_Suc)
    show ?case
      unfolding Let_def e M s'_def[symmetric]
      using i' s1 Cons.prems by (simp del: upt_Suc)
  qed
  from this[OF assms(1)] show "fst (ls_extend t vals s) = last (t # M)" "fwd s' (t # M)" "bwd s' (t # M)" "map (nd_value s') M = vals"
    "nd_size s' = nd_size s" "nd_fresh s' = nd_fresh s + length vals" "\<And>q. nd_live s' q = (nd_live s q \<or> q \<in> set M)"
    "\<And>q. q \<noteq> t \<Longrightarrow> q < nd_fresh s \<Longrightarrow> nd_next s' q = nd_next s q"
    "\<And>q. q < nd_fresh s \<Longrightarrow> nd_prev s' q = nd_prev s q \<and> nd_value s' q = nd_value s q"
    unfolding M_def s'_def Let_def by blast+
  then show "changes {t} s s'" by (auto simp: changes_def M_def)
qed

lemma put_size_commute:
  "put_next a b (put_size h n s) = put_size h n (put_next a b s)" "put_prev a b (put_size h n s) = put_size h n (put_prev a b s)"
  "nd_create val (put_size h n s) = (fst (nd_create val s), put_size h n (snd (nd_create val s)))"
  "put_size h n (put_size h m s) = put_size h n s"
  by (simp_all add: put_next_def put_prev_def put_size_def nd_create_def Let_def)

lemma extend_put_size:
  "ls_extend t vals (put_size h n s) = (fst (ls_extend t vals s), put_size h n (snd (ls_extend t vals s)))"
proof (induction vals arbitrary: t s)
  case (Cons val vals)
  then show ?case by (simp add: put_size_commute case_prod_unfold Let_def)
qed simp

lemma extend_sized:
  "ls_extend_sized h t vals s = (fst (ls_extend t vals s), put_size h (nd_size s h + length vals) (snd (ls_extend t vals s)))"
proof (induction vals arbitrary: t s)
  case Nil
  show ?case by (simp add: put_size_def)
next
  case (Cons val vals)
  show ?case
    by (simp add: Cons.IH case_prod_unfold Let_def extend_put_size put_size_commute)
qed

lemma extend_ring:
  fixes vals :: "'v list"
  assumes "fwd s (h # xs)" "bwd s (h # xs)" "distinct (h # xs)" "\<forall>x\<in>insert h (set xs). x < nd_fresh s"
  defines "M \<equiv> [nd_fresh s..<nd_fresh s + length vals]"
    and "s' \<equiv> ls_close h (fst (ls_extend (last (h # xs)) vals s)) (snd (ls_extend (last (h # xs)) vals s))"
  shows "ring h s' (xs @ M)" "map (nd_value s') M = vals" "nd_size s' = nd_size s" "nd_fresh s' = nd_fresh s + length vals"
    "\<And>q. nd_live s' q = (nd_live s q \<or> q \<in> set M)" "changes (insert h (set xs)) s s'" "\<And>q. q < nd_fresh s \<Longrightarrow> nd_value s' q = nd_value s q"
proof -
  let ?t = "last (h # xs)"
  have t: "?t \<in> insert h (set xs)" using last_in_set[of "h # xs"] by auto
  then have tf: "?t < nd_fresh s" using assms(4) by blast
  note e = extend[OF tf, where vals = vals, folded M_def]
  define s1 where "s1 = snd (ls_extend ?t vals s)"
  have s': "s' = ls_close h (last (?t # M)) s1" using e(1) by (simp add: s'_def s1_def)
  have split: "h # xs = butlast (h # xs) @ [?t]" using append_butlast_last_id[of "h # xs"] by simp
  have tl: "last (?t # M) = last (h # xs @ M)" by (simp add: last_append)
  have nb: "?t \<notin> set (butlast (h # xs))" by (rule last_butlast) (use assms(3) in auto)
  have "fwd s1 (h # xs) = fwd s (h # xs)"
  proof (rule fwd_cong)
    fix x assume x: "x \<in> set (butlast (h # xs))"
    then have "x \<in> insert h (set xs)" using in_set_butlastD[OF x] by auto
    then have "x < nd_fresh s" using assms(4) by blast
    moreover have "x \<noteq> ?t" using x nb by blast
    ultimately show "nd_next s1 x = nd_next s x" using e(9) by (simp add: s1_def)
  qed
  moreover have "bwd s1 (h # xs) = bwd s (h # xs)"
    by (rule bwd_cong) (use e(10) assms(4) in \<open>auto simp: s1_def\<close>)
  ultimately have fb: "fwd s1 (h # xs)" "bwd s1 (h # xs)" using assms(1,2) by simp_all
  have all: "h # xs @ M = butlast (h # xs) @ ?t # M" 
    using arg_cong[OF split, of "\<lambda>l. l @ M"] by (simp only: append_Cons append_assoc append_Nil)
  have "fwd s1 (butlast (h # xs) @ [?t])" "bwd s1 (butlast (h # xs) @ [?t])" using fb split by simp_all
  moreover have "fwd s1 (?t # M)" "bwd s1 (?t # M)" unfolding s1_def by (rule e(2), rule e(3))
  ultimately have f1: "fwd s1 (h # xs @ M)" "bwd s1 (h # xs @ M)"
    unfolding all using iffD2[OF fwd_append conjI] iffD2[OF bwd_append conjI] by blast+
  have di: "distinct (h # xs @ M)" using assms(3,4) by (auto simp: M_def)
  have "last (h # xs @ M) \<notin> set (butlast (h # xs @ M))" by (rule last_butlast) (use di in auto)
  then have "fwd s' (h # xs @ M)" unfolding s' tl ls_close_def using f1(1) by simp
  moreover have "bwd s' (h # xs @ M)" unfolding s' ls_close_def using f1(2) di by simp
  moreover have "nd_next s' (last (h # xs @ M)) = h" "nd_prev s' h = last (h # xs @ M)" unfolding s' tl ls_close_def by simp_all
  ultimately have "ring h s' ((xs @ M) @ [])" using di by (intro ring_join) (simp_all del: last.simps)
  then show "ring h s' (xs @ M)" by simp
  show "map (nd_value s') M = vals" "nd_size s' = nd_size s" "nd_fresh s' = nd_fresh s + length vals"
    "\<And>q. nd_live s' q = (nd_live s q \<or> q \<in> set M)" "\<And>q. q < nd_fresh s \<Longrightarrow> nd_value s' q = nd_value s q"
    using e(4,6,7,8,10) by (simp_all add: s' s1_def ls_close_def)
  have "changes (insert h (set xs)) s s1" using e(5) t by (auto simp: s1_def elim!: changes_mono)
  moreover have "last (?t # M) \<in> insert h (set xs) \<or> nd_fresh s \<le> last (?t # M)"
  proof (cases "M = []")
    case True
    then show ?thesis using t by simp
  next
    case False
    then have "last (?t # M) \<in> set M" by simp
    then show ?thesis by (simp add: M_def)
  qed
  ultimately have "changes (insert h (set xs)) s (put_next (last (?t # M)) h s1)" using changes_put(1,4) by blast
  then show "changes (insert h (set xs)) s s'" unfolding s' ls_close_def by (intro changes_put(2)) simp
qed

section \<open>Freeing nodes\<close>

lemma free_loop:
  "fwd s (M @ [stop]) \<Longrightarrow> stop \<notin> set M \<Longrightarrow> h \<notin> set M \<Longrightarrow> null \<notin> set M \<Longrightarrow>
    ls_free_loop h stop (hd (M @ [stop])) c s = Some (c + length M, nd_freed (set M) s)"
proof (induction M arbitrary: c s)
  case Nil
  show ?case by (simp add: ls_free_loop.simps)
next
  case (Cons a M)
  then have "nd_next s a = hd (M @ [stop])" "fwd s (M @ [stop])" by (cases M; auto)+
  moreover have "ls_destroy_node h a s = nd_freed {a} s" using Cons.prems by (simp add: ls_destroy_node_def free_is_freed)
  ultimately show ?case using Cons.IH[of "nd_freed {a} s" "c + 1"] Cons.prems
    by (subst ls_free_loop.simps) (simp add: Un_commute)
qed

lemma ring_empty: "ring h (put_next h h (put_prev h h s)) []" "ring h (put_size h n s) xs = ring h s xs"
  "ring h (nd_freed A s) xs = ring h s xs" "ring h (put_size k n s) xs = ring h s xs"
  by (simp_all add: ring_def)

lemma destroy_all:
  assumes "list_ok h s xs"
  shows "\<exists>s'. ls_destroy_all h s = Some s' \<and> dl.step h s xs s' [] \<and> nd_fresh s' = nd_fresh s"
proof -
  have r: "ring h s ([] @ xs)" and nz: "null \<notin> set xs" "h \<notin> set xs" using assms by (auto simp: list_ok_def ring_def)
  note n = ring_neighbours[OF r]
  let ?s = "put_size h 0 (put_next h h (put_prev h h (nd_freed (set xs) s)))"
  have "nd_next s h = hd (xs @ [h])" using n(1) by simp
  then have "ls_destroy_all h s = Some ?s"
    using free_loop[OF n(5) nz(2,2,1), of 0] by (simp add: ls_destroy_all_def)
  moreover have "dl.step h s xs ?s []"
  proof -
    have "changes (insert h (set xs)) s ?s" by (intro changes_put) auto
    moreover have "nd_strays ?s {} = nd_strays s (set xs)" by (auto simp: nd_strays_def)
    ultimately show ?thesis using assms by (simp add: dl.step_def list_ok_def ring_empty)
  qed
  ultimately show ?thesis by simp
qed

section \<open>Construction and assignment\<close>

lemma construct_list:
  assumes "h < nd_fresh s"
  shows "list_ok h (ls_construct h s) []" "changes {h} s (ls_construct h s)" "nd_fresh (ls_construct h s) = nd_fresh s"
    "nd_live (ls_construct h s) = nd_live s"
  using assms by (auto simp: ls_construct_def list_ok_def ring_def changes_def)

text \<open>Filling an empty list, as constructors and assignments do.\<close>

definition ls_filled :: "addr \<Rightarrow> 'v list \<Rightarrow> 'v nodes \<Rightarrow> 'v nodes" where
  "ls_filled h vals s = put_size h (length vals) (ls_close h (fst (ls_extend h vals s)) (snd (ls_extend h vals s)))"

lemma close_put_size: "ls_close h t (put_size k n s) = put_size k n (ls_close h t s)"
  by (simp add: ls_close_def put_size_commute)

lemma extend_sized_filled:
  "nd_size s h = 0 \<Longrightarrow> (case ls_extend_sized h h vals s of (tail, s) \<Rightarrow> ls_close h tail s) = ls_filled h vals s"
  by (simp add: extend_sized ls_filled_def close_put_size)

lemma filled_step:
  fixes vals :: "'v list"
  assumes "list_ok h s []"
  defines "M \<equiv> [nd_fresh s..<nd_fresh s + length vals]"
  shows "dl.step h s [] (ls_filled h vals s) M" "map (nd_value (ls_filled h vals s)) M = vals"
proof -
  have p: "fwd s (h # [])" "bwd s (h # [])" "distinct (h # [])" "\<forall>x\<in>insert h (set []). x < nd_fresh s"
    using assms(1) by (simp_all add: list_ok_def)
  note e = extend_ring[OF p, where vals = vals, folded M_def]
  let ?s = "ls_close h (fst (ls_extend h vals s)) (snd (ls_extend h vals s))"
  have "list_ok h (put_size h (length vals) ?s) M"
    using e(1,4,5) assms(1) by (auto simp: list_ok_def M_def ring_empty)
  moreover have "nd_strays (put_size h (length vals) ?s) (set M) = nd_strays s {}"
    using e(4,5) by (auto simp: nd_strays_def M_def)
  moreover have "changes {h} s (put_size h (length vals) ?s)" using e(6) by (intro changes_put) auto
  ultimately show "dl.step h s [] (ls_filled h vals s) M" by (auto simp: dl.step_def ls_filled_def M_def)
  show "map (nd_value (ls_filled h vals s)) M = vals" using e(2) by (simp add: ls_filled_def)
qed

lemma assign_list_step:
  assumes "list_ok h s xs"
  shows "\<exists>s' ys. ls_assign_list h vals s = Some s' \<and> dl.step h s xs s' ys \<and> map (nd_value s') ys = vals"
proof -
  obtain s1 where d: "ls_destroy_all h s = Some s1" "dl.step h s xs s1 []" using destroy_all[OF assms] by blast
  have ok: "list_ok h s1 []" "nd_size s1 h = 0" using dl.step_ok[OF d(2)] by (simp_all add: list_ok_def)
  show ?thesis
  proof (cases "vals = []")
    case True
    then show ?thesis using d by (intro exI[of _ s1] exI[of _ "[]"]) (simp add: ls_assign_list_def)
  next
    case False
    have "ls_assign_list h vals s = Some (ls_filled h vals s1)"
      using d(1) False extend_sized_filled[OF ok(2), of vals] by (simp add: ls_assign_list_def case_prod_unfold Let_def)
    then show ?thesis using filled_step[OF ok(1), of vals] dl.step_trans[OF d(2)] by blast
  qed
qed

lemma assign_count_step:
  assumes "list_ok h s xs"
  shows "\<exists>s' ys. ls_assign_count h n val s = Some s' \<and> dl.step h s xs s' ys \<and> map (nd_value s') ys = replicate n val"
proof -
  obtain s1 where d: "ls_destroy_all h s = Some s1" "dl.step h s xs s1 []" using destroy_all[OF assms] by blast
  have ok: "list_ok h s1 []" "nd_size s1 h = 0" using dl.step_ok[OF d(2)] by (simp_all add: list_ok_def)
  show ?thesis
  proof (cases "n = 0")
    case True
    then show ?thesis using d by (intro exI[of _ s1] exI[of _ "[]"]) (simp add: ls_assign_count_def)
  next
    case False
    have "ls_assign_count h n val s = Some (ls_filled h (replicate n val) s1)"
      using d(1) False by (simp add: ls_assign_count_def ls_filled_def case_prod_unfold Let_def)
    then show ?thesis using filled_step[OF ok(1), of "replicate n val"] dl.step_trans[OF d(2)] by blast
  qed
qed

lemma of_list_filled:
  "ls_of_list h vals s = ls_filled h vals (ls_construct h s)" "ls_of_count h n val s = ls_filled h (replicate n val) (ls_construct h s)"
  using extend_sized_filled[of "ls_construct h s" h]
  by (simp_all add: ls_of_list_def ls_of_count_def case_prod_unfold Let_def) (simp_all add: ls_construct_def)

section \<open>Insertion\<close>

lemma list_values:
  assumes "list_ok h s xs" "changes A s s'" "set xs \<inter> A = {}"
  shows "map (nd_value s') xs = map (nd_value s) xs"
  using assms by (auto simp: list_ok_def changes_def)

text \<open>New nodes \<open>M\<close> with the values \<open>vals\<close> in a chain of their own.\<close>

definition new_block :: "'v nodes \<Rightarrow> addr list \<Rightarrow> 'v list \<Rightarrow> 'v nodes \<Rightarrow> bool" where
  "new_block s M vals s' \<longleftrightarrow> M = [nd_fresh s..<nd_fresh s + length vals] \<and> nd_fresh s' = nd_fresh s + length vals
     \<and> fwd s' M \<and> bwd s' M \<and> map (nd_value s') M = vals \<and> changes {} s s' \<and> nd_size s' = nd_size s
     \<and> (\<forall>q. nd_live s' q = (nd_live s q \<or> q \<in> set M))"

lemma new_block:
  fixes val :: 'v
  defines "s1 \<equiv> \<lambda>s. snd (nd_create val s)"
  assumes "e = ls_extend (nd_fresh s) vals (s1 s)"
  shows "\<exists>M. new_block s M (val # vals) (snd e) \<and> hd M = nd_fresh s \<and> last M = fst e"
proof -
  have f: "nd_fresh s < nd_fresh (s1 s)" "nd_fresh (s1 s) = Suc (nd_fresh s)" by (simp_all add: s1_def)
  note x = extend[OF f(1), where vals = vals, folded assms(2)]
  let ?M = "nd_fresh s # [Suc (nd_fresh s)..<Suc (nd_fresh s) + length vals]"
  have M: "?M = [nd_fresh s..<nd_fresh s + length (val # vals)]" by (simp add: upt_rec)
  have v: "nd_value (snd e) (nd_fresh s) = val" using x(10)[of "nd_fresh s"] f(2) by (simp add: s1_def)
  have "changes {} s (snd e)" using x(6-10) f(2) by (auto simp: changes_def s1_def)
  moreover have "nd_live (snd e) q = (nd_live s q \<or> q \<in> set ?M)" for q using x(8)[of q] f(2) by (auto simp: s1_def simp del: upt_Suc)
  moreover have "fwd (snd e) ?M" "bwd (snd e) ?M" "map (nd_value (snd e)) ?M = val # vals" using x(2,3,4) f(2) v by simp_all
  moreover have "nd_size (snd e) = nd_size s" "nd_fresh (snd e) = nd_fresh s + length (val # vals)"
    using x(6,7) by (simp_all add: s1_def)
  ultimately have "new_block s ?M (val # vals) (snd e)"
    unfolding new_block_def M[symmetric] by (intro conjI allI refl)
  moreover have "last ?M = fst e" using x(1) f(2) by simp
  ultimately show ?thesis by auto
qed

lemma insert_block:
  assumes "list_ok h s (A @ B)" "new_block s M vals s1" "vals \<noteq> []"
  defines "s' \<equiv> put_size h (nd_size s1 h + length vals) (ls_link_block_before (hd (B @ [h])) (hd M) (last M) s1)"
  shows "dl.step h s (A @ B) s' (A @ M @ B)"
    "map (nd_value s') (A @ M @ B) = map (nd_value s) A @ vals @ map (nd_value s) B"
proof -
  have n: "M = [nd_fresh s..<nd_fresh s + length vals]" "nd_fresh s1 = nd_fresh s + length vals" "fwd s1 M" "bwd s1 M"
    "map (nd_value s1) M = vals" "changes {} s s1" "nd_size s1 = nd_size s" "\<And>q. nd_live s1 q = (nd_live s q \<or> q \<in> set M)"
    using assms(2) unfolding new_block_def by blast+
  have ok1: "list_ok h s1 (A @ B)" by (rule list_ok_cong[OF assms(1) n(6)]) auto
  then have r: "ring h s1 (A @ B)" by (simp add: list_ok_def)
  have old: "\<forall>x\<in>insert h (set A \<union> set B). x < nd_fresh s" using assms(1) by (auto simp: list_ok_def)
  moreover have "nd_fresh s \<le> x" if "x \<in> set M" for x using that by (simp add: n(1))
  ultimately have dj: "set M \<inter> insert h (set A \<union> set B) = {}" using leD by blast
  have "M \<noteq> []" "distinct M" using n(1) assms(3) by auto
  note l = link_block[OF r \<open>M \<noteq> []\<close> n(3,4) \<open>distinct M\<close> dj]
  let ?l = "ls_link_block_before (hd (B @ [h])) (hd M) (last M) s1"
  have "x < nd_fresh s + length vals" if "x \<in> set A \<union> set B" for x using old that by (simp add: trans_less_add1)
  then have "list_ok h s' (A @ M @ B)"
    using l(1,3,4,5) n(2,7,8) assms(1) unfolding s'_def by (auto simp: list_ok_def ring_empty n(1))
  moreover have "nd_strays s' (set (A @ M @ B)) = nd_strays s (set (A @ B))"
    using l(3,5) n(2,8) unfolding s'_def by (auto simp: nd_strays_def n(1))
  moreover have "changes (insert h (set (A @ B))) s s'"
  proof -
    have c1: "changes (insert h (set (A @ B)) \<union> set M) s1 s'" unfolding s'_def
      by (rule changes_put(3)) (use l(6) in \<open>auto elim!: changes_mono\<close>)
    have c2: "changes (insert h (set (A @ B))) s s1" using n(6) by (rule changes_mono) simp
    show ?thesis by (rule changes_trans[OF c2 c1]) (auto simp: n(1))
  qed
  ultimately show "dl.step h s (A @ B) s' (A @ M @ B)" by (auto simp: dl.step_def n(1))
  show "map (nd_value s') (A @ M @ B) = map (nd_value s) A @ vals @ map (nd_value s) B"
    using l(2) n(5) list_values[OF assms(1) n(6)] unfolding s'_def by simp
qed

lemma insert_list_step:
  assumes "list_ok h s (A @ B)" "p = hd (B @ [h])"
  shows "\<exists>s' M. ls_insert_list h p vals s = (hd (M @ B @ [h]), s') \<and> dl.step h s (A @ B) s' (A @ M @ B)
    \<and> map (nd_value s') (A @ M @ B) = map (nd_value s) A @ vals @ map (nd_value s) B"
proof (cases vals)
  case Nil
  then show ?thesis using dl.step_refl[OF assms(1)] assms(2) by (intro exI[of _ s] exI[of _ "[]"]) (simp add: ls_insert_list_def)
next
  case (Cons v vs)
  define e where "e = ls_extend (nd_fresh s) vs (snd (nd_create v s))"
  obtain M where M: "new_block s M (v # vs) (snd e)" "hd M = nd_fresh s" "last M = fst e" using new_block[OF e_def] by blast
  let ?s = "put_size h (nd_size (snd e) h + length (v # vs)) (ls_link_block_before (hd (B @ [h])) (hd M) (last M) (snd e))"
  have "ls_insert_list h p vals s = (hd M, ?s)"
    using M(2,3) assms(2) Cons
    by (simp add: ls_insert_list_def case_prod_unfold Let_def e_def ls_link_block_before_def)
  moreover have "M \<noteq> []" using M(1) by (auto simp: new_block_def)
  ultimately show ?thesis using insert_block[OF assms(1) M(1)] Cons by (intro exI[of _ ?s] exI[of _ M]) (simp add: hd_append)
qed

lemma insert_count_list: "ls_insert_count h p n val s = ls_insert_list h p (replicate n val) s"
  by (cases n) (simp_all add: ls_insert_count_def ls_insert_list_def)

lemma insert_one:
  "ls_insert h p val s = ls_insert_list h p [val] s" "ls_emplace h p val s = ls_insert_list h p [val] s"
  "ls_emplace_back h val s = ls_insert_list h h [val] s" "ls_emplace_front h val s = ls_insert_list h (nd_next s h) [val] s" if "h < nd_fresh s"
  using that
  by (simp_all add: ls_insert_def ls_emplace_def ls_emplace_back_def ls_emplace_front_def ls_insert_list_def link_before_block
      case_prod_unfold Let_def)

section \<open>Erasure\<close>

lemma drop_block:
  assumes "list_ok h s (A @ M @ B)" "M \<noteq> []"
  defines "s' \<equiv> put_size h (length (A @ B)) (nd_freed (set M) (ls_cut (last (h # A)) (hd (B @ [h])) s))"
  shows "dl.step h s (A @ M @ B) s' (A @ B)" "nd_value s' = nd_value s"
proof -
  have r: "ring h s (A @ M @ B)" and di: "distinct (h # A @ M @ B)" using assms(1) by (simp_all add: list_ok_def ring_def)
  note c = cut_block[OF r assms(2)]
  let ?c = "ls_cut (last (h # A)) (hd (B @ [h])) s"
  have "list_ok h s' (A @ B)" using c(1,5,7) assms(1) di unfolding s'_def by (auto simp: list_ok_def ring_empty)
  moreover have "nd_strays s' (set (A @ B)) = nd_strays s (set (A @ M @ B))"
    using c(5,7) di unfolding s'_def by (auto simp: nd_strays_def)
  moreover have "changes (insert h (set (A @ M @ B))) s s'"
    unfolding s'_def by (intro changes_put changes_mono[OF c(8)]) auto
  ultimately show "dl.step h s (A @ M @ B) s' (A @ B)" by (auto simp: dl.step_def)
  show "nd_value s' = nd_value s" using c(4) by (simp add: s'_def)
qed

text \<open>Unlinking, destroying and counting one node, as four operations do.\<close>

lemma drop_one:
  assumes "list_ok h s (A @ a # B)"
  defines "s' \<equiv> put_size h (nd_size s h - 1) (ls_destroy_node h a (ls_unlink a s))"
  shows "dl.step h s (A @ a # B) s' (A @ B)" "nd_value s' = nd_value s"
    "nd_size (ls_destroy_node h a (ls_unlink a s)) = nd_size s"
proof -
  have r: "ring h s (A @ a # B)" and n: "nd_size s h = Suc (length (A @ B))" "a \<noteq> null" "a \<noteq> h"
    using assms(1) by (auto simp: list_ok_def ring_def)
  have "ls_destroy_node h a (ls_unlink a s) = nd_freed {a} (ls_cut (last (h # A)) (hd (B @ [h])) s)"
    using n unlink_cut[OF r] by (simp add: ls_destroy_node_def free_is_freed)
  moreover from this have "nd_size (ls_destroy_node h a (ls_unlink a s)) = nd_size s" by (simp add: ls_cut_def)
  ultimately show "dl.step h s (A @ a # B) s' (A @ B)" "nd_value s' = nd_value s"
    "nd_size (ls_destroy_node h a (ls_unlink a s)) = nd_size s"
    using drop_block[of h s A "[a]" B] assms(1) n(1) by (simp_all add: s'_def)
qed

lemma erase_step:
  assumes "list_ok h s (A @ a # B)"
  shows "\<exists>s'. ls_erase h a s = (hd (B @ [h]), s') \<and> dl.step h s (A @ a # B) s' (A @ B) \<and> nd_value s' = nd_value s"
proof -
  have r: "ring h s ((A @ [a]) @ B)" using assms by (simp add: list_ok_def)
  have "nd_next s a = hd (B @ [h])" using ring_neighbours(1)[OF r] by simp
  then show ?thesis using drop_one[OF assms] by (simp add: ls_erase_def Let_def)
qed

lemma erase_range_step:
  assumes "list_ok h s (A @ M @ B)"
  shows "\<exists>s'. ls_erase_range h (hd (M @ B @ [h])) (hd (B @ [h])) s = Some (hd (B @ [h]), s')
    \<and> dl.step h s (A @ M @ B) s' (A @ B) \<and> nd_value s' = nd_value s"
proof (cases "M = []")
  case True
  then show ?thesis using dl.step_refl[OF assms] by (simp add: ls_erase_range_def)
next
  case False
  have r: "ring h s (A @ M @ B)" and di: "distinct (h # A @ M @ B)" and sz: "nd_size s h = length (A @ M @ B)" and nz: "null \<notin> set M"
    using assms by (auto simp: list_ok_def ring_def)
  note c = cut_block[OF r False]
  let ?q = "hd (B @ [h])" and ?c = "ls_cut (last (h # A)) (hd (B @ [h])) s"
  have q: "?q \<notin> set M" "h \<notin> set M" using di by (cases B; auto)+
  have "nd_next ?c (last M) = ?q" using c(10,11) False by simp
  then have "fwd ?c (M @ [?q])" using c(2) fwd_join[of M "[?q]" ?c] False by simp
  then have l: "ls_free_loop h ?q (hd M) 0 ?c = Some (length M, nd_freed (set M) ?c)"
    using free_loop[of ?c M ?q h 0] q nz False by simp
  have "hd M \<noteq> ?q" using q False by (metis hd_in_set)
  then have "ls_erase_range h (hd M) ?q s = Some (?q, put_size h (length (A @ B)) (nd_freed (set M) ?c))"
    using l c(6,9) sz by (simp add: ls_erase_range_def ls_cut_def Let_def)
  then show ?thesis using drop_block[OF assms False] False by (simp add: hd_append)
qed

lemma advance_list:
  "ring h s (A @ M @ B) \<Longrightarrow> ls_advance (length M) s (hd (M @ B @ [h])) = hd (B @ [h])"
proof (induction M arbitrary: A)
  case (Cons a M)
  have "nd_next s a = hd (M @ B @ [h])" using ring_neighbours(1)[of h s "A @ [a]" "M @ B"] Cons.prems by simp
  then show ?case using Cons.IH[of "A @ [a]"] Cons.prems by simp
qed simp

lemma begin_list: "ring h s xs \<Longrightarrow> nd_next s h = hd (xs @ [h])" "ring h s xs \<Longrightarrow> nd_prev s h = last (h # xs)"
  using ring_neighbours(1)[of h s "[]" xs] ring_neighbours(2)[of h s xs "[]"] by simp_all

lemma advance_begin_list:
  assumes "list_ok h s (A @ B)"
  shows "ls_advance (length A) s (ls_begin h s) = hd (B @ [h])"
  using advance_list[of h s "[]" A B] begin_list[of h s "A @ B"] assms by (simp add: list_ok_def ls_begin_def)

end
