(* ===== verification/LListWhole.thy ===== *)
theory LListWhole
  imports LListOps
begin

text \<open>
  The operations of a doubly linked list that go through a whole list or exchange nodes with another one: resizing, copying, moving,
  swapping, reversing, filtering and splicing.
\<close>

section \<open>Resizing\<close>

lemma shrink_step:
  assumes "list_ok h s (A @ M)" "M \<noteq> []"
  shows "\<exists>s'. ls_resize h (length A) val s = Some s' \<and> dl.step h s (A @ M) s' A \<and> nd_value s' = nd_value s"
proof -
  have ok: "list_ok h s (A @ M @ [])" using assms(1) by simp
  then have r: "ring h s (A @ M @ [])" and nz: "null \<notin> set M" "h \<notin> set M" and sz: "length A < nd_size s h"
    using assms(2) by (auto simp: list_ok_def ring_def)
  note c = cut_block[OF r assms(2)]
  let ?c = "ls_cut (last (h # A)) (hd ([] @ [h])) s"
  have n: "ls_advance (length A) s (nd_next s h) = hd M"
    using advance_begin_list[OF assms(1)] assms(2) by (simp add: ls_begin_def)
  have "nd_next ?c (last M) = h" using c(10,11) assms(2) by simp
  then have "fwd ?c (M @ [h])" using c(2) fwd_join[of M "[h]" ?c] assms(2) by simp
  then have "ls_free_loop h h (hd M) 0 ?c = Some (length M, nd_freed (set M) ?c)"
    using free_loop[of ?c M h h 0] nz assms(2) by simp
  then have "ls_resize h (length A) val s = Some (put_size h (length A) (nd_freed (set M) ?c))"
    using sz n c(9) by (simp add: ls_resize_def ls_cut_def Let_def)
  then show ?thesis using drop_block[OF ok assms(2)] by simp
qed

lemma grow_step:
  assumes "list_ok h s xs"
  shows "\<exists>s' ys. ls_resize h (length xs + n) val s = Some s' \<and> dl.step h s xs s' ys
    \<and> map (nd_value s') ys = map (nd_value s) xs @ replicate n val"
proof (cases "n = 0")
  case True
  then have "ls_resize h (length xs + n) val s = Some s" using assms by (simp add: ls_resize_def list_ok_def)
  then show ?thesis using dl.step_refl[OF assms] True by (intro exI[of _ s] exI[of _ xs]) simp
next
  case False
  have r: "ring h s (xs @ [])" and sz: "nd_size s h = length xs" using assms by (simp_all add: list_ok_def)
  note nb = ring_neighbours[OF r]
  have p: "fwd s (h # xs)" "bwd s (h # xs)" "distinct (h # xs)" "\<forall>x\<in>insert h (set xs). x < nd_fresh s"
    using nb(3,4) assms by (auto simp: list_ok_def ring_def)
  let ?vals = "replicate n val" and ?t = "last (h # xs)"
  let ?M = "[nd_fresh s..<nd_fresh s + length ?vals]"
    and ?s = "ls_close h (fst (ls_extend ?t ?vals s)) (snd (ls_extend ?t ?vals s))"
  note e = extend_ring[OF p, where vals = ?vals]
  have t: "nd_prev s h = ?t" using nb(2) by simp
  have "ls_resize h (length xs + n) val s = Some (put_size h (length xs + n) ?s)"
    using False sz t by (simp add: ls_resize_def case_prod_unfold Let_def)
  moreover have "list_ok h (put_size h (length xs + n) ?s) (xs @ ?M)"
    using e(1,4,5) p(4) assms by (auto simp: list_ok_def ring_empty)
  moreover have "nd_strays (put_size h (length xs + n) ?s) (set (xs @ ?M)) = nd_strays s (set xs)"
    using e(4,5) by (auto simp: nd_strays_def)
  moreover have "changes (insert h (set xs)) s (put_size h (length xs + n) ?s)" using e(6) by (intro changes_put) auto
  moreover have "map (nd_value (put_size h (length xs + n) ?s)) (xs @ ?M) = map (nd_value s) xs @ ?vals"
    using e(2,7) p(4) by simp
  ultimately show ?thesis
    by (intro exI[of _ "put_size h (length xs + n) ?s"] exI[of _ "xs @ ?M"]) (auto simp: dl.step_def)
qed

lemma resize_step:
  assumes "list_ok h s xs"
  shows "\<exists>s' ys. ls_resize h n val s = Some s' \<and> dl.step h s xs s' ys
    \<and> map (nd_value s') ys = take n (map (nd_value s) xs) @ replicate (n - length xs) val"
proof (cases "n < length xs")
  case True
  then have "length (take n xs) = n" "drop n xs \<noteq> []" by simp_all
  then show ?thesis
    using shrink_step[of h s "take n xs" "drop n xs" val] assms True by (auto simp: take_map)
next
  case False
  then show ?thesis using grow_step[OF assms, of "n - length xs" val] by simp
qed

section \<open>Reversing\<close>

lemma swap_links_simps [simp]:
  "nd_next (ls_swap_links n s) = (nd_next s)(n := nd_prev s n)" "nd_prev (ls_swap_links n s) = (nd_prev s)(n := nd_next s n)"
  "nd_value (ls_swap_links n s) = nd_value s" "nd_size (ls_swap_links n s) = nd_size s"
  "nd_live (ls_swap_links n s) = nd_live s" "nd_fresh (ls_swap_links n s) = nd_fresh s"
  by (simp_all add: ls_swap_links_def)

text \<open>The links of the addresses of \<open>A\<close> exchanged.\<close>

definition nd_swapped :: "addr set \<Rightarrow> 'v nodes \<Rightarrow> 'v nodes" where
  "nd_swapped A s = s\<lparr>nd_next := (\<lambda>a. if a \<in> A then nd_prev s a else nd_next s a),
     nd_prev := (\<lambda>a. if a \<in> A then nd_next s a else nd_prev s a)\<rparr>"

lemma swapped_simps [simp]:
  "nd_next (nd_swapped A s) a = (if a \<in> A then nd_prev s a else nd_next s a)"
  "nd_prev (nd_swapped A s) a = (if a \<in> A then nd_next s a else nd_prev s a)"
  "nd_value (nd_swapped A s) = nd_value s" "nd_size (nd_swapped A s) = nd_size s"
  "nd_live (nd_swapped A s) = nd_live s" "nd_fresh (nd_swapped A s) = nd_fresh s"
  by (simp_all add: nd_swapped_def)

lemma swapped_one: "a \<notin> A \<Longrightarrow> ls_swap_links a (nd_swapped A s) = nd_swapped (insert a A) s"
  by (simp add: ls_swap_links_def put_next_def put_prev_def nd_swapped_def fun_eq_iff)

lemma reverse_loop:
  "fwd s (M @ [h]) \<Longrightarrow> distinct (M @ [h]) \<Longrightarrow> A \<inter> set (M @ [h]) = {} \<Longrightarrow>
    ls_reverse_loop h (hd (M @ [h])) (nd_swapped A s) = Some (nd_swapped (A \<union> set M) s)"
proof (induction M arbitrary: A)
  case Nil
  show ?case by (simp add: ls_reverse_loop.simps)
next
  case (Cons a M)
  then have "nd_next s a = hd (M @ [h])" "fwd s (M @ [h])" by (cases M; auto)+
  then show ?case using Cons.IH[of "insert a A"] Cons.prems swapped_one[of a A s]
    by (subst ls_reverse_loop.simps) simp
qed

lemma swapped_chain:
  assumes "set xs \<subseteq> A"
  shows "fwd (nd_swapped A s) (rev xs) = bwd s xs" "bwd (nd_swapped A s) (rev xs) = fwd s xs"
proof -
  have "set xs \<subseteq> A \<Longrightarrow> fwd (nd_swapped A s) (rev xs) = bwd s xs \<and> bwd (nd_swapped A s) (rev xs) = fwd s xs"
  proof (induction s xs rule: fwd.induct)
    case (3 s a b xs)
    then have i: "fwd (nd_swapped A s) (rev xs @ [b]) = bwd s (b # xs)" "bwd (nd_swapped A s) (rev xs @ [b]) = fwd s (b # xs)" by auto
    then show ?case
      using 3(2) fwd_append[of _ "rev xs" b "[a]"] bwd_append[of _ "rev xs" b "[a]"] by (auto simp del: fwd.simps(3) bwd.simps(3)) auto
  qed auto
  then show "fwd (nd_swapped A s) (rev xs) = bwd s xs" "bwd (nd_swapped A s) (rev xs) = fwd s xs" using assms by blast+
qed

lemma reverse_step:
  assumes "list_ok h s xs"
  shows "\<exists>s'. ls_reverse h s = Some s' \<and> dl.step h s xs s' (rev xs) \<and> nd_value s' = nd_value s"
proof (cases "length xs \<le> 1")
  case True
  then have "rev xs = xs" by (cases xs; cases "tl xs"; auto)
  moreover have "ls_reverse h s = Some s" using True assms by (simp add: ls_reverse_def list_ok_def)
  ultimately show ?thesis using dl.step_refl[OF assms] by simp
next
  case False
  have r: "ring h s xs" using assms by (simp add: list_ok_def)
  have n: "nd_next s h = hd (xs @ [h])" and f: "fwd s (xs @ [h])" using ring_neighbours(1,5)[of h s "[]" xs] r by simp_all
  have di: "distinct (xs @ [h])" using r by (simp add: ring_def)
  let ?s = "nd_swapped (insert h (set xs)) s"
  have "nd_swapped {} s = s" by (simp add: nd_swapped_def)
  then have "ls_reverse_loop h (nd_next s h) s = Some (nd_swapped (set xs) s)"
    using reverse_loop[OF f di, of "{}"] n by simp
  then have "ls_reverse h s = Some ?s"
    using False assms swapped_one[of h "set xs" s] di by (simp add: ls_reverse_def list_ok_def)
  moreover have "ring h ?s (rev xs)"
    using swapped_chain[of "h # xs @ [h]" "insert h (set xs)" s] r by (auto simp: ring_def)
  moreover have "changes (insert h (set xs)) s ?s" by (auto simp: changes_def)
  ultimately show ?thesis using assms by (auto simp: dl.step_def list_ok_def nd_strays_def)
qed

section \<open>Filtering\<close>

lemma remove_loop:
  "list_ok h s (A @ B) \<Longrightarrow> \<exists>s'. ls_remove_loop h P (hd (B @ [h])) c s = Some (c + length (filter (\<lambda>x. P (nd_value s x)) B), s')
     \<and> dl.step h s (A @ B) s' (A @ filter (\<lambda>x. \<not> P (nd_value s x)) B) \<and> nd_value s' = nd_value s"
proof (induction B arbitrary: A c s)
  case Nil
  then show ?case using dl.step_refl[of h s A] by (simp add: ls_remove_loop.simps)
next
  case (Cons a B)
  have r: "ring h s ((A @ [a]) @ B)" and ah: "a \<noteq> h" using Cons.prems by (auto simp: list_ok_def ring_def)
  have n: "nd_next s a = hd (B @ [h])" using ring_neighbours(1)[OF r] by simp
  show ?case
  proof (cases "P (nd_value s a)")
    case True
    define s1 where "s1 = put_size h (nd_size s h - 1) (ls_destroy_node h a (ls_unlink a s))"
    have d: "dl.step h s (A @ a # B) s1 (A @ B)" "nd_value s1 = nd_value s"
      "nd_size (ls_destroy_node h a (ls_unlink a s)) = nd_size s"
      using drop_one[OF Cons.prems] by (simp_all add: s1_def)
    have "ls_remove_loop h P (hd ((a # B) @ [h])) c s = ls_remove_loop h P (hd (B @ [h])) (c + 1) s1"
      using True ah n d(3) by (subst ls_remove_loop.simps) (simp add: s1_def)
    then show ?thesis
      using Cons.IH[OF dl.step_ok[OF d(1)], of "c + 1"] d(2) True dl.step_trans[OF d(1)] by auto
  next
    case False
    have "ls_remove_loop h P (hd ((a # B) @ [h])) c s = ls_remove_loop h P (hd (B @ [h])) c s"
      using False ah n by (subst ls_remove_loop.simps) simp
    then show ?thesis using Cons.IH[of s "A @ [a]" c] Cons.prems False by simp
  qed
qed

lemma remove_if_step:
  assumes "list_ok h s xs"
  shows "\<exists>s' ys. ls_remove_if h P s = Some (length (filter P (map (nd_value s) xs)), s') \<and> dl.step h s xs s' ys
    \<and> map (nd_value s') ys = filter (\<lambda>v. \<not> P v) (map (nd_value s) xs)"
proof -
  have "nd_next s h = hd (xs @ [h])" using assms begin_list(1)[of h s xs] by (simp add: list_ok_def)
  then show ?thesis
    using remove_loop[of h s "[]" xs P 0] assms by (force simp: ls_remove_if_def filter_map comp_def)
qed

text \<open>\<^verbatim>\<open>unique\<close> on values: an element is dropped when it equals the last one kept.\<close>

fun list_unique :: "('v \<Rightarrow> 'v \<Rightarrow> bool) \<Rightarrow> 'v list \<Rightarrow> 'v list" where
  "list_unique P (a # b # xs) = (if P a b then list_unique P (a # xs) else a # list_unique P (b # xs))"
| "list_unique P xs = xs"

lemma list_unique_map: "map f (list_unique (\<lambda>a b. P (f a) (f b)) xs) = list_unique P (map f xs)"
  by (induction "\<lambda>a b. P (f a) (f b)" xs rule: list_unique.induct) auto

lemma list_unique_length: "length (list_unique P xs) \<le> length xs"
  by (induction P xs rule: list_unique.induct) auto

lemma unique_loop:
  "list_ok h s (A @ B) \<Longrightarrow> \<exists>s'. ls_unique_loop h P (hd (B @ [h])) c s
       = Some (c + (length B - length (list_unique (\<lambda>a b. P (nd_value s a) (nd_value s b)) B)), s')
     \<and> dl.step h s (A @ B) s' (A @ list_unique (\<lambda>a b. P (nd_value s a) (nd_value s b)) B) \<and> nd_value s' = nd_value s"
proof (induction B arbitrary: A c s rule: length_induct)
  case (1 B)
  let ?Q = "\<lambda>a b. P (nd_value s a) (nd_value s b)"
  consider "B = []" | a where "B = [a]" | a b C where "B = a # b # C" by (cases B; cases "tl B"; auto)
  then show ?case
  proof cases
    case 1
    then show ?thesis using dl.step_refl[OF "1.prems"] by (simp add: ls_unique_loop.simps)
  next
    case (2 a)
    have "ring h s ((A @ [a]) @ [])" using "1.prems" 2 by (simp add: list_ok_def)
    then have "nd_next s a = h" using ring_neighbours(1)[of h s "A @ [a]" "[]"] by simp
    then show ?thesis using dl.step_refl[OF "1.prems"] 2 by (simp add: ls_unique_loop.simps)
  next
    case (3 a b C)
    have "ring h s ((A @ [a]) @ b # C)" using "1.prems" 3 by (simp add: list_ok_def)
    then have n: "nd_next s a = b" "a \<noteq> h" "b \<noteq> h"
      using ring_neighbours(1)[of h s "A @ [a]" "b # C"] by (auto simp: ring_def)
    show ?thesis
    proof (cases "?Q a b")
      case True
      define s1 where "s1 = put_size h (nd_size s h - 1) (ls_destroy_node h b (ls_unlink b s))"
      have "list_ok h s ((A @ [a]) @ b # C)" using "1.prems" 3 by simp
      note drop = drop_one[OF this, folded s1_def]
      have "ls_unique_loop h P (hd (B @ [h])) c s = ls_unique_loop h P (hd ((a # C) @ [h])) (c + 1) s1"
        using True n drop(3) 3 by (subst ls_unique_loop.simps) (simp add: s1_def)
      moreover have "list_ok h s1 (A @ a # C)" using dl.step_ok[OF drop(1)] by simp
      ultimately show ?thesis
        using "1.IH"[rule_format, of "a # C" s1 A "c + 1"] drop(2) dl.step_trans[OF drop(1)] 3 True
          list_unique_length[of ?Q "a # C"] by (auto simp: Suc_diff_le)
    next
      case False
      have "ls_unique_loop h P (hd (B @ [h])) c s = ls_unique_loop h P (hd ((b # C) @ [h])) c s"
        using False n 3 by (subst ls_unique_loop.simps) simp
      then show ?thesis
        using "1.IH"[rule_format, of "b # C" s "A @ [a]" c] "1.prems" 3 False by simp
    qed
  qed
qed

lemma unique_step:
  assumes "list_ok h s xs"
  shows "\<exists>s' ys. ls_unique h P s = Some (length xs - length (list_unique P (map (nd_value s) xs)), s') \<and> dl.step h s xs s' ys
    \<and> map (nd_value s') ys = list_unique P (map (nd_value s) xs)"
proof -
  let ?ys = "list_unique (\<lambda>a b. P (nd_value s a) (nd_value s b)) xs"
  have n: "nd_next s h = hd (xs @ [h])" using assms begin_list(1)[of h s xs] by (simp add: list_ok_def)
  obtain s' where "ls_unique_loop h P (hd (xs @ [h])) 0 s = Some (length xs - length ?ys, s')"
    "dl.step h s xs s' ?ys" "nd_value s' = nd_value s"
    using unique_loop[of h s "[]" xs P 0] assms by auto
  moreover have "map (nd_value s) ?ys = list_unique P (map (nd_value s) xs)" by (rule list_unique_map)
  moreover from this have "length (list_unique P (map (nd_value s) xs)) = length ?ys" by (metis length_map)
  ultimately show ?thesis using n by (intro exI[of _ s'] exI[of _ ?ys]) (simp add: ls_unique_def)
qed

section \<open>Copying\<close>

lemma copy_loop:
  "fwd s (ns @ [k]) \<Longrightarrow> k \<notin> set ns \<Longrightarrow> \<forall>x\<in>set ns. x < nd_fresh s \<and> x \<noteq> t \<Longrightarrow>
    ls_copy_loop h k (hd (ns @ [k])) t s = Some (ls_extend_sized h t (map (nd_value s) ns) s)"
proof (induction ns arbitrary: t s)
  case Nil
  show ?case by (simp add: ls_copy_loop.simps)
next
  case (Cons a ns)
  have n: "nd_next s a = hd (ns @ [k])" "fwd s (ns @ [k])" using Cons.prems(1) by (cases ns; simp)+
  let ?f = "nd_fresh s"
  define s1 where "s1 = put_size h (Suc (nd_size s h)) (put_prev ?f t (put_next t ?f (snd (nd_create (nd_value s a) s))))"
  have af: "a \<noteq> ?f" "a \<noteq> t" "a \<noteq> k" and f: "?f \<notin> set ns" using Cons.prems(2,3) by auto
  have "fwd s1 (ns @ [k]) = fwd s (ns @ [k])"
    by (rule fwd_cong) (use Cons.prems(3) f in \<open>auto simp: s1_def\<close>)
  moreover have v: "map (nd_value s1) ns = map (nd_value s) ns" using f by (auto simp: s1_def)
  moreover have "\<forall>x\<in>set ns. x < nd_fresh s1 \<and> x \<noteq> ?f" "k \<notin> set ns"
    using Cons.prems(2,3) f by (auto simp: s1_def)
  ultimately have "ls_copy_loop h k (hd (ns @ [k])) ?f s1 = Some (ls_extend_sized h ?f (map (nd_value s) ns) s1)"
    using Cons.IH[of s1 ?f] n(2) by (simp only: v simp_thms)
  moreover have "ls_copy_loop h k (hd ((a # ns) @ [k])) t s = ls_copy_loop h k (hd (ns @ [k])) ?f s1"
    using af n(1) by (subst ls_copy_loop.simps) (simp add: s1_def Let_def)
  ultimately show ?case by (simp add: s1_def case_prod_unfold Let_def)
qed

lemma copy_filled:
  assumes "dl.pair h k s [] ys"
  shows "ls_copy_loop h k (nd_next s k) h s = Some (ls_extend_sized h h (map (nd_value s) ys) s)"
    "(case ls_extend_sized h h (map (nd_value s) ys) s of (tail, s) \<Rightarrow> ls_close h tail s) = ls_filled h (map (nd_value s) ys) s"
proof -
  have r: "ring k s ([] @ ys)" and y: "\<forall>x\<in>set ys. x < nd_fresh s \<and> x \<noteq> h" "k \<notin> set ys" "nd_size s h = 0"
    using assms by (auto simp: dl.pair_def list_ok_def ring_def)
  show "ls_copy_loop h k (nd_next s k) h s = Some (ls_extend_sized h h (map (nd_value s) ys) s)"
    using copy_loop[OF ring_neighbours(5)[OF r] y(2,1)] ring_neighbours(1)[OF r] by simp
  show "(case ls_extend_sized h h (map (nd_value s) ys) s of (tail, s) \<Rightarrow> ls_close h tail s) = ls_filled h (map (nd_value s) ys) s"
    by (rule extend_sized_filled[OF y(3)])
qed

lemma copy_assign_step:
  assumes "dl.pair h k s xs ys"
  shows "\<exists>s' zs. ls_copy_assign h k s = Some s' \<and> dl.step h s xs s' zs \<and> map (nd_value s') zs = map (nd_value s) ys"
proof -
  have hk: "h \<noteq> k" "list_ok h s xs" using assms by (simp_all add: dl.pair_def)
  obtain s1 where d: "ls_destroy_all h s = Some s1" "dl.step h s xs s1 []" using destroy_all[OF hk(2)] by blast
  note p = dl.step_pair[OF d(2) assms]
  have q: "dl.pair h k s1 [] ys" using p(1) by (simp add: dl.step2_def)
  have "ls_copy_assign h k s = Some (ls_filled h (map (nd_value s1) ys) s1)"
    using d(1) hk(1) copy_filled[OF q] by (simp add: ls_copy_assign_def case_prod_unfold)
  then show ?thesis using filled_step[OF dl.step_ok[OF d(2)], of "map (nd_value s1) ys"] dl.step_trans[OF d(2)] p(2) by metis
qed

section \<open>Exchanging rings\<close>

lemma ring_moved:
  assumes "ring k s ys" "ys \<noteq> []" "h \<notin> set ys" "nd_next s' h = hd ys" "nd_prev s' h = last ys" "nd_prev s' (hd ys) = h"
    "nd_next s' (last ys) = h" "\<And>x. x \<in> set (butlast ys) \<Longrightarrow> nd_next s' x = nd_next s x"
    "\<And>x. x \<in> set (tl ys) \<Longrightarrow> nd_prev s' x = nd_prev s x"
  shows "ring h s' ys"
proof -
  have "fwd s ys" "bwd s ys" using ring_neighbours(3,4)[of k s ys "[]"] assms(1,2) by (cases ys; simp)+
  moreover have "fwd s' ys = fwd s ys" by (rule fwd_cong) (rule assms(8))
  moreover have "bwd s' ys = bwd s ys" by (rule bwd_cong) (rule assms(9))
  moreover have "distinct (h # ys)" using assms(1,3) by (simp add: ring_def)
  ultimately have "ring h s' (ys @ [])" using assms(2,4-7) by (intro ring_join) (cases ys; simp)+
  then show ?thesis by simp
qed

lemma take_ring_size: "ls_take_ring h k (put_size p n s) = put_size p n (ls_take_ring h k s)"
  by (simp add: ls_take_ring_def put_size_commute)

lemma ring_ends_in:
  assumes "distinct ys" "ys \<noteq> []"
  shows "hd ys \<in> set ys" "last ys \<in> set ys" "last ys \<notin> set (butlast ys)" "hd ys \<notin> set (tl ys)"
    "set (butlast ys) \<subseteq> set ys" "set (tl ys) \<subseteq> set ys"
  using assms last_butlast hd_tl by (auto dest: in_set_butlastD list.set_sel(2))

lemma take_ring:
  assumes p: "dl.pair h k s [] ys" and ne: "ys \<noteq> []"
  defines "s' \<equiv> put_size k 0 (put_size h (length ys) (ls_take_ring h k s))"
  shows "dl.step2 h k s [] ys s' ys []" "nd_value s' = nd_value s"
proof -
  have r: "ring k s ys" and di: "h \<notin> set ys" "k \<notin> set ys" "h \<noteq> k" "distinct ys" using p by (auto simp: dl.pair_def list_ok_def ring_def)
  note m = ring_ends_in[OF di(4) ne]
  have b: "nd_next s k = hd ys" "nd_prev s k = last ys" using begin_list[OF r] ne by simp_all
  have s': "s' = put_size k 0 (put_size h (length ys) (put_next k k (put_prev k k (put_next (last ys) h (put_prev (hd ys) h
      (put_prev h (last ys) (put_next h (hd ys) s)))))))"
    using b di m(1,2) by (auto simp: s'_def ls_take_ring_def Let_def)
  have ne2: "hd ys \<noteq> h" "last ys \<noteq> h" "hd ys \<noteq> k" "last ys \<noteq> k" using m(1,2) di by auto
  have "ring h s' ys"
    by (rule ring_moved[OF r ne di(1)]) (use ne2 m di in \<open>auto simp: s'\<close>)
  moreover have "ring k s' []" using di(3) ne2 by (simp add: s' ring_def)
  moreover have "changes ({h, k} \<union> set ys) s s'"
    unfolding s' using m(1,2) by (intro changes_put) auto
  ultimately show "dl.step2 h k s [] ys s' ys []"
    using p di by (auto simp: dl.step2_def dl.pair_def list_ok_def nd_strays_def s')
  show "nd_value s' = nd_value s" by (simp add: s')
qed

lemma move_assign_step:
  assumes "dl.pair h k s xs ys"
  shows "\<exists>s'. ls_move_assign h k s = Some s' \<and> dl.step2 h k s xs ys s' ys [] \<and> map (nd_value s') ys = map (nd_value s) ys"
proof -
  have hk: "h \<noteq> k" "list_ok h s xs" using assms by (simp_all add: dl.pair_def)
  obtain s1 where d: "ls_destroy_all h s = Some s1" "dl.step h s xs s1 []" using destroy_all[OF hk(2)] by blast
  note p = dl.step_pair[OF d(2) assms]
  have q: "dl.pair h k s1 [] ys" using p(1) by (simp add: dl.step2_def)
  then have k: "ring k s1 ys" "nd_size s1 k = length ys" "list_ok h s1 []" by (simp_all add: dl.pair_def list_ok_def)
  show ?thesis
  proof (cases "ys = []")
    case True
    have "nd_size s1 h = 0" "nd_size s1 k = 0" "nd_next s1 h = h" "nd_prev s1 h = h" using k True by (simp_all add: list_ok_def ring_def)
    then have "put_next h h (put_prev h h s1) = s1" "put_size k 0 (put_size h 0 s1) = s1"
      using fun_upd_triv[of "nd_next s1" h] fun_upd_triv[of "nd_prev s1" h] fun_upd_triv[of "nd_size s1" h] fun_upd_triv[of "nd_size s1" k]
      by (simp_all add: put_next_def put_prev_def put_size_def)
    then have "ls_move_assign h k s = Some s1" using d(1) hk(1) k True by (simp add: ls_move_assign_def ring_def)
    then show ?thesis using p True by auto
  next
    case False
    have "nd_next s1 k \<noteq> k" using begin_list(1)[OF k(1)] k(1) False by (cases ys) (auto simp: ring_def)
    then have "ls_move_assign h k s = Some (put_size k 0 (put_size h (length ys) (ls_take_ring h k s1)))"
      using d(1) hk(1) k(2) by (simp add: ls_move_assign_def Let_def ls_take_ring_def)
    then show ?thesis using take_ring[OF q False] dl.step2_trans[OF p(1)] p(2) by metis
  qed
qed

lemma empty_ring: "list_ok h s xs \<Longrightarrow> nd_next s h = h \<longleftrightarrow> xs = []"
  using begin_list(1)[of h s xs] by (cases xs) (auto simp: list_ok_def ring_def)

lemma swap_nonempty:
  assumes p: "dl.pair h k s xs ys" and ne: "xs \<noteq> []" "ys \<noteq> []"
  shows "dl.step2 h k s xs ys (ls_swap h k s) ys xs" "nd_value (ls_swap h k s) = nd_value s"
proof -
  have ok: "list_ok h s xs" "list_ok k s ys" and r: "ring h s xs" "ring k s ys" and hk: "h \<noteq> k"
    and di: "h \<notin> set xs" "k \<notin> set xs" "h \<notin> set ys" "k \<notin> set ys" "distinct xs" "distinct ys" "set xs \<inter> set ys = {}"
    using p by (auto simp: dl.pair_def list_ok_def ring_def)
  note m = ring_ends_in[OF di(5) ne(1)] ring_ends_in[OF di(6) ne(2)]
  have b: "nd_next s h = hd xs" "nd_prev s h = last xs" "nd_next s k = hd ys" "nd_prev s k = last ys"
    using begin_list[OF r(1)] begin_list[OF r(2)] ne by simp_all
  have sz: "nd_size s h = length xs" "nd_size s k = length ys" using ok by (simp_all add: list_ok_def)
  have ne2: "hd xs \<noteq> h" "last xs \<noteq> h" "hd xs \<noteq> k" "last xs \<noteq> k" "hd ys \<noteq> h" "last ys \<noteq> h" "hd ys \<noteq> k" "last ys \<noteq> k"
    "hd xs \<noteq> hd ys" "hd xs \<noteq> last ys" "last xs \<noteq> hd ys" "last xs \<noteq> last ys"
    using m(1,2,7,8) di by auto
  define s' where "s' = ls_swap h k s"
  have s': "s' = put_next (last xs) k (put_prev (hd xs) k (put_next (last ys) h (put_prev (hd ys) h
      (put_prev h (last ys) (put_prev k (last xs) (put_next h (hd ys) (put_next k (hd xs)
      (put_size h (length ys) (put_size k (length xs) s)))))))))"
    using b sz hk ne2 by (simp add: s'_def ls_swap_def Let_def)
  have "last xs \<notin> set ys" "hd xs \<notin> set ys" "last ys \<notin> set xs" "hd ys \<notin> set xs" using m(1,2,7,8) di(7) by blast+
  then have o: "last xs \<notin> set (butlast ys)" "hd xs \<notin> set (tl ys)" "last ys \<notin> set (butlast xs)" "hd ys \<notin> set (tl xs)"
    "h \<notin> set (butlast ys)" "h \<notin> set (tl ys)" "k \<notin> set (butlast ys)" "k \<notin> set (tl ys)"
    "h \<notin> set (butlast xs)" "h \<notin> set (tl xs)" "k \<notin> set (butlast xs)" "k \<notin> set (tl xs)"
    using m di by blast+
  have "ring h s' ys"
    by (rule ring_moved[OF r(2) ne(2) di(3)]) (use ne2 m(9,10) o hk in \<open>auto simp: s'\<close>)
  moreover have "ring k s' xs"
    by (rule ring_moved[OF r(1) ne(1) di(2)]) (use ne2 m(3,4) o hk in \<open>auto simp: s'\<close>)
  moreover have "changes ({h, k} \<union> set xs \<union> set ys) s s'"
    unfolding s' using m(1,2,7,8) by (intro changes_put) auto
  moreover have "nd_size s' h = length ys" "nd_size s' k = length xs" "nd_live s' = nd_live s" "nd_fresh s' = nd_fresh s"
    using hk by (simp_all add: s')
  ultimately have "dl.pair h k s' ys xs" "changes ({h, k} \<union> set xs \<union> set ys) s s'" "nd_live s' = nd_live s" "nd_fresh s' = nd_fresh s"
    using p di by (auto simp: dl.pair_def list_ok_def)
  then show "dl.step2 h k s xs ys (ls_swap h k s) ys xs"
    unfolding s'_def by (auto simp: dl.step2_def nd_strays_def Un_commute)
  have "nd_value s' = nd_value s" by (simp add: s')
  then show "nd_value (ls_swap h k s) = nd_value s" by (simp add: s'_def)
qed

lemma swap_step:
  assumes p: "dl.pair h k s xs ys"
  shows "dl.step2 h k s xs ys (ls_swap h k s) ys xs" "nd_value (ls_swap h k s) = nd_value s"
proof -
  have ok: "list_ok h s xs" "list_ok k s ys" and hk: "h \<noteq> k" using p by (auto simp: dl.pair_def)
  have e: "nd_next s h = h \<longleftrightarrow> xs = []" "nd_next s k = k \<longleftrightarrow> ys = []" using empty_ring[OF ok(1)] empty_ring[OF ok(2)] .
  have sz: "nd_size s h = length xs" "nd_size s k = length ys" using ok by (simp_all add: list_ok_def)
  consider "xs = []" "ys = []" | "xs = []" "ys \<noteq> []" | "xs \<noteq> []" "ys = []" | "xs \<noteq> []" "ys \<noteq> []" by blast
  then have "dl.step2 h k s xs ys (ls_swap h k s) ys xs \<and> nd_value (ls_swap h k s) = nd_value s"
  proof cases
    case 1
    have "put_size h 0 (put_size k 0 s) = s"
      using sz 1 fun_upd_triv[of "nd_size s" h] fun_upd_triv[of "nd_size s" k] by (simp add: put_size_def)
    then have "ls_swap h k s = s" using e sz 1 hk by (simp add: ls_swap_def)
    moreover have "dl.step2 h k s [] [] s [] []" using p 1 by (simp add: dl.step2_def)
    ultimately show ?thesis using 1 by simp
  next
    case 2
    have "ls_swap h k s = put_size k 0 (put_size h (length ys) (ls_take_ring h k s))"
      using e sz 2 hk by (simp add: ls_swap_def Let_def take_ring_size) (simp add: put_size_def fun_upd_twist)
    then show ?thesis using take_ring[of h k s ys] p 2 by simp
  next
    case 3
    have "ls_swap h k s = put_size h 0 (put_size k (length xs) (ls_take_ring k h s))"
      using e sz 3 hk by (simp add: ls_swap_def Let_def ls_take_ring_def put_size_commute)
    then show ?thesis using take_ring[of k h s xs] dl.pair_sym[OF p] 3 dl.step2_sym by metis
  next
    case 4
    then show ?thesis using swap_nonempty[OF p] by simp
  qed
  then show "dl.step2 h k s xs ys (ls_swap h k s) ys xs" "nd_value (ls_swap h k s) = nd_value s" by simp_all
qed

section \<open>Splicing\<close>

lemma move_block:
  assumes p: "dl.pair h k s (A @ B) (C @ M @ D)" and M: "M \<noteq> []"
  defines "s' \<equiv> ls_link_block_before (hd (B @ [h])) (hd M) (last M) (ls_cut (last (k # C)) (hd (D @ [k])) s)"
  shows "dl.step2 h k s (A @ B) (C @ M @ D) (put_size h (length (A @ M @ B)) (put_size k (length (C @ D)) s')) (A @ M @ B) (C @ D)"
    "nd_value s' = nd_value s" "nd_size s' = nd_size s"
proof -
  have r: "ring h s (A @ B)" "ring k s (C @ M @ D)" and hk: "h \<noteq> k"
    and d1: "h \<notin> set (C @ M @ D)" "k \<notin> set (A @ B)" "set (A @ B) \<inter> set (C @ M @ D) = {}" "distinct (k # C @ M @ D)"
    using p by (auto simp: dl.pair_def list_ok_def ring_def)
  let ?c = "ls_cut (last (k # C)) (hd (D @ [k])) s"
  note c = cut_block[OF r(2) M]
  have cd: "last (k # C) \<in> insert k (set C)" "hd (D @ [k]) \<in> insert k (set D)" using ring_ends(5,6)[of k C D] d1(4) by auto
  obtain u v where uv: "last (k # C) = u" "hd (D @ [k]) = v" "u \<notin> insert h (set (A @ B))" "v \<notin> insert h (set (A @ B))"
    using cd d1(1-3) hk by auto
  have "ring h ?c (A @ B) = ring h s (A @ B)"
    unfolding uv(1,2) ls_cut_def by (rule ring_cong) (use uv(3,4) in auto)
  then have rc: "ring h ?c (A @ B)" using r(1) by simp
  have dM: "distinct M" "set M \<inter> insert h (set A \<union> set B) = {}" using d1 by auto
  note l = link_block[OF rc M c(2,3) dM, folded s'_def]
  have "changes (insert h (set A \<union> set M \<union> set B)) ?c s'" by (rule l(6))
  then have same: "nd_next s' x = nd_next ?c x \<and> nd_prev s' x = nd_prev ?c x"
    if "x \<in> insert k (set (C @ D))" for x
  proof -
    have "x \<notin> insert h (set A \<union> set M \<union> set B)" using that d1 hk by auto
    moreover have "x < nd_fresh ?c" using p that c(7) by (auto simp: dl.pair_def list_ok_def)
    ultimately show ?thesis using l(6) by (simp add: changes_def)
  qed
  have "ring k s' (C @ D) = ring k ?c (C @ D)" by (rule ring_cong) (rule same)
  then have rk: "ring k s' (C @ D)" using c(1) by simp
  let ?s = "put_size h (length (A @ M @ B)) (put_size k (length (C @ D)) s')"
  have f: "nd_live ?s = nd_live s" "nd_fresh ?s = nd_fresh s" using l c by simp_all
  have "dl.pair h k ?s (A @ M @ B) (C @ D)"
    using l(1) rk p f d1 hk by (auto simp: dl.pair_def list_ok_def ring_empty)
  moreover have "changes ({h, k} \<union> set (A @ B) \<union> set (C @ M @ D)) s ?s"
  proof -
    have "changes ({h, k} \<union> set (A @ B) \<union> set (C @ M @ D)) s ?c" by (rule changes_mono[OF c(8)]) auto
    moreover have "changes ({h, k} \<union> set (A @ B) \<union> set (C @ M @ D)) ?c s'" by (rule changes_mono[OF l(6)]) auto
    ultimately have "changes ({h, k} \<union> set (A @ B) \<union> set (C @ M @ D)) s s'" by (rule changes_trans) (rule Un_upper1)
    then show ?thesis by (intro changes_put) simp_all
  qed
  moreover have "set (A @ M @ B) \<union> set (C @ D) = set (A @ B) \<union> set (C @ M @ D)" by auto
  ultimately show "dl.step2 h k s (A @ B) (C @ M @ D) ?s (A @ M @ B) (C @ D)"
    using f by (simp add: dl.step2_def nd_strays_def)
  show "nd_value s' = nd_value s" "nd_size s' = nd_size s" using l(2,4) c(4,6) by simp_all
qed

lemma splice_step:
  assumes p: "dl.pair h k s (A @ B) ys" and pos: "pos = hd (B @ [h])"
  shows "dl.step2 h k s (A @ B) ys (ls_splice h pos k s) (A @ ys @ B) []" "nd_value (ls_splice h pos k s) = nd_value s"
proof -
  have ok: "list_ok h s (A @ B)" "list_ok k s ys" and hk: "h \<noteq> k" using p by (auto simp: dl.pair_def)
  have e: "ls_is_empty k s \<longleftrightarrow> ys = []" using empty_ring[OF ok(2)] by (simp add: ls_is_empty_def)
  have "dl.step2 h k s (A @ B) ys (ls_splice h pos k s) (A @ ys @ B) [] \<and> nd_value (ls_splice h pos k s) = nd_value s"
  proof (cases "ys = []")
    case True
    then show ?thesis using e p by (simp add: ls_splice_def dl.step2_def)
  next
    case False
    have q: "dl.pair h k s (A @ B) ([] @ ys @ [])" using p by simp
    note m = move_block[OF q False]
    have b: "nd_next s k = hd ys" "nd_prev s k = last ys" using begin_list[of k s ys] ok(2) False by (simp_all add: list_ok_def)
    have sz: "nd_size s h + nd_size s k = length (A @ ys @ B)" using ok by (simp add: list_ok_def)
    let ?l = "ls_link_block_before pos (hd ys) (last ys) (ls_cut k k s)"
    have "ls_splice h pos k s = put_size k 0 (put_size h (length (A @ ys @ B)) ?l)"
      using e False b m(3) sz pos by (simp add: ls_splice_def Let_def ls_cut_def)
    also have "\<dots> = put_size h (length (A @ ys @ B)) (put_size k 0 ?l)" using hk by (simp add: put_size_def fun_upd_twist)
    finally show ?thesis using m pos by simp
  qed
  then show "dl.step2 h k s (A @ B) ys (ls_splice h pos k s) (A @ ys @ B) []" "nd_value (ls_splice h pos k s) = nd_value s"
    by simp_all
qed

text \<open>A block moved within one list, to a place outside of the block.\<close>

lemma move_within:
  assumes ok: "list_ok h s (C @ M @ D)" and M: "M \<noteq> []" and AB: "C @ D = A @ B"
  defines "s' \<equiv> ls_link_block_before (hd (B @ [h])) (hd M) (last M) (ls_cut (last (h # C)) (hd (D @ [h])) s)"
  shows "dl.step h s (C @ M @ D) s' (A @ M @ B)" "nd_value s' = nd_value s" "nd_size s' = nd_size s"
proof -
  have r: "ring h s (C @ M @ D)" and d: "distinct (h # C @ M @ D)" using ok by (auto simp: list_ok_def ring_def)
  let ?c = "ls_cut (last (h # C)) (hd (D @ [h])) s"
  note c = cut_block[OF r M]
  have AB': "set A \<union> set B = set C \<union> set D" "length A + length B = length C + length D"
    using arg_cong[OF AB, of set] arg_cong[OF AB, of length] by auto
  have rc: "ring h ?c (A @ B)" using c(1) AB by simp
  have dM: "distinct M" "set M \<inter> insert h (set A \<union> set B) = {}" using d unfolding AB' by auto
  note l = link_block[OF rc M c(2,3) dM, folded s'_def]
  have s: "set (A @ M @ B) = set (C @ M @ D)" using AB' by auto
  have f: "nd_live s' = nd_live s" "nd_fresh s' = nd_fresh s" "nd_size s' = nd_size s" using l c by simp_all
  have "list_ok h s' (A @ M @ B)"
    using l(1) ok f AB'(2) unfolding list_ok_def s by simp
  moreover have "changes (insert h (set (C @ M @ D))) s s'"
  proof -
    have "changes (insert h (set (C @ M @ D))) s ?c" by (rule changes_mono[OF c(8)]) auto
    moreover have "changes (insert h (set (C @ M @ D))) ?c s'" by (rule changes_mono[OF l(6)]) (use AB' in auto)
    ultimately show ?thesis by (rule changes_trans) (rule Un_upper1)
  qed
  ultimately show "dl.step h s (C @ M @ D) s' (A @ M @ B)" unfolding dl.step_def s using f by (simp add: nd_strays_def)
  show "nd_value s' = nd_value s" "nd_size s' = nd_size s" using l(2) c(4) f(3) by simp_all
qed

lemma link_block_size: "ls_link_block_before p a b (put_size k n s) = put_size k n (ls_link_block_before p a b s)"
  by (simp add: ls_link_block_before_def put_size_commute)

lemma splice_one_step:
  assumes p: "dl.pair h k s (A @ B) (C @ a # D)" and pos: "pos = hd (B @ [h])"
  shows "dl.step2 h k s (A @ B) (C @ a # D) (ls_splice_one h pos k a s) (A @ a # B) (C @ D)"
    "nd_value (ls_splice_one h pos k a s) = nd_value s"
proof -
  have r: "ring k s (C @ a # D)" and hk: "h \<noteq> k" "a \<noteq> k" using p by (auto simp: dl.pair_def list_ok_def ring_def)
  have q: "dl.pair h k s (A @ B) (C @ [a] @ D)" using p by simp
  note m = move_block[OF q]
  have sz: "nd_size s h = length (A @ B)" "nd_size s k = Suc (length (C @ D))" using p by (simp_all add: dl.pair_def list_ok_def)
  have c: "nd_size (ls_cut u v s) = nd_size s" for u v by (simp add: ls_cut_def)
  let ?l = "ls_link_block_before pos a a (ls_cut (last (k # C)) (hd (D @ [k])) s)"
  have l: "nd_size ?l = nd_size s" using m(3) pos by simp
  have "ls_splice_one h pos k a s = put_size h (length (A @ [a] @ B)) (put_size k (length (C @ D)) ?l)"
    using sz hk l by (simp add: ls_splice_one_def Let_def unlink_cut[OF r] link_before_block link_block_size c)
  then show "dl.step2 h k s (A @ B) (C @ a # D) (ls_splice_one h pos k a s) (A @ a # B) (C @ D)"
    "nd_value (ls_splice_one h pos k a s) = nd_value s"
    using m(1,2) pos by simp_all
qed

lemma splice_one_same:
  assumes ok: "list_ok h s (C @ a # D)" and AB: "C @ D = A @ B" and pos: "pos = hd (B @ [h])"
  shows "dl.step h s (C @ a # D) (ls_splice_one h pos h a s) (A @ a # B)" "nd_value (ls_splice_one h pos h a s) = nd_value s"
proof -
  have r: "ring h s (C @ a # D)" and ah: "a \<noteq> h" and sz: "nd_size s h = Suc (length (C @ D))"
    using ok by (auto simp: list_ok_def ring_def)
  have "list_ok h s (C @ [a] @ D)" using ok by simp
  note m = move_within[OF this _ AB]
  have c: "nd_size (ls_cut u v s) = nd_size s" for u v by (simp add: ls_cut_def)
  let ?l = "ls_link_block_before pos a a (ls_cut (last (h # C)) (hd (D @ [h])) s)"
  have l: "nd_size ?l = nd_size s" using m(3) pos by simp
  have "put_size h (nd_size s h) ?l = ?l" using l fun_upd_triv[of "nd_size ?l" h] by (simp add: put_size_def)
  then have "ls_splice_one h pos h a s = ?l"
    using sz ah l by (simp add: ls_splice_one_def Let_def unlink_cut[OF r] link_before_block link_block_size c put_size_commute)
  then show "dl.step h s (C @ a # D) (ls_splice_one h pos h a s) (A @ a # B)" "nd_value (ls_splice_one h pos h a s) = nd_value s"
    using m(1,2) pos by simp_all
qed

lemma count_loop:
  "fwd s (M @ [stop]) \<Longrightarrow> stop \<notin> set M \<Longrightarrow> ls_count_loop (hd (M @ [stop])) stop c s = Some (c + length M)"
proof (induction M arbitrary: c)
  case Nil
  show ?case by (simp add: ls_count_loop.simps)
next
  case (Cons a M)
  then have "nd_next s a = hd (M @ [stop])" "fwd s (M @ [stop])" by (cases M; auto)+
  then show ?case using Cons.IH[of "c + 1"] Cons.prems by (subst ls_count_loop.simps) simp
qed

lemma splice_range_cut:
  assumes r: "ring k s (C @ M @ D)" and M: "M \<noteq> []"
  shows "ls_splice_range h pos k (hd (M @ D @ [k])) (hd (D @ [k])) s =
     (let s = ls_link_block_before pos (hd M) (last M) (ls_cut (last (k # C)) (hd (D @ [k])) s);
          s = put_size h (nd_size s h + length M) s
      in Some (put_size k (nd_size s k - length M) s))"
proof -
  have d: "distinct (k # C @ M @ D)" using r by (simp add: ring_def)
  note c = cut_block[OF r M]
  have q: "hd (D @ [k]) \<notin> set M" "hd M \<in> set M" using d M by (cases D; auto)+
  have r2: "ring k s ((C @ M) @ D)" using r by simp
  have "fwd s (M @ D @ [k])" using ring_neighbours(5)[of k s C "M @ D"] r by simp
  then have "fwd s M" using fwd_join[of M "D @ [k]" s] M by simp
  then have "fwd s (M @ [hd (D @ [k])])" using fwd_join[of M "[hd (D @ [k])]" s] M c(10) by simp
  then have "ls_count_loop (hd M) (hd (D @ [k])) 0 s = Some (length M)"
    using count_loop[of s M "hd (D @ [k])" 0] q(1) M by simp
  moreover have "nd_prev s (hd (D @ [k])) = last M" using ring_neighbours(2)[OF r2] M by simp
  moreover have "hd M \<noteq> hd (D @ [k])" using q by metis
  moreover have "hd (M @ D @ [k]) = hd M" using M by simp
  ultimately show ?thesis using c(9) by (simp add: ls_splice_range_def ls_cut_def Let_def)
qed

lemma splice_range_step:
  assumes p: "dl.pair h k s (A @ B) (C @ M @ D)" and pos: "pos = hd (B @ [h])"
  shows "\<exists>s'. ls_splice_range h pos k (hd (M @ D @ [k])) (hd (D @ [k])) s = Some s'
    \<and> dl.step2 h k s (A @ B) (C @ M @ D) s' (A @ M @ B) (C @ D) \<and> nd_value s' = nd_value s"
proof (cases "M = []")
  case True
  then show ?thesis using p by (intro exI[of _ s]) (simp add: ls_splice_range_def dl.step2_def)
next
  case False
  have r: "ring k s (C @ M @ D)" and hk: "h \<noteq> k" using p by (auto simp: dl.pair_def list_ok_def)
  note m = move_block[OF p False]
  have sz: "nd_size s h = length (A @ B)" "nd_size s k = length (C @ M @ D)" using p by (simp_all add: dl.pair_def list_ok_def)
  let ?l = "ls_link_block_before pos (hd M) (last M) (ls_cut (last (k # C)) (hd (D @ [k])) s)"
  have "ls_splice_range h pos k (hd (M @ D @ [k])) (hd (D @ [k])) s
      = Some (put_size k (length (C @ D)) (put_size h (length (A @ M @ B)) ?l))"
    using splice_range_cut[OF r False, of h pos] m(3) sz hk pos by (simp add: Let_def add.commute add.left_commute)
  also have "put_size k (length (C @ D)) (put_size h (length (A @ M @ B)) ?l) = put_size h (length (A @ M @ B)) (put_size k (length (C @ D)) ?l)"
    using hk by (simp add: put_size_def fun_upd_twist)
  finally show ?thesis using m(1,2) pos by simp
qed

lemma splice_range_same:
  assumes ok: "list_ok h s (C @ M @ D)" and AB: "C @ D = A @ B" and pos: "pos = hd (B @ [h])"
  shows "\<exists>s'. ls_splice_range h pos h (hd (M @ D @ [h])) (hd (D @ [h])) s = Some s'
    \<and> dl.step h s (C @ M @ D) s' (A @ M @ B) \<and> nd_value s' = nd_value s"
proof (cases "M = []")
  case True
  then show ?thesis using dl.step_refl[OF ok] AB by (intro exI[of _ s]) (simp add: ls_splice_range_def)
next
  case False
  have r: "ring h s (C @ M @ D)" using ok by (simp add: list_ok_def)
  note m = move_within[OF ok False AB]
  let ?l = "ls_link_block_before pos (hd M) (last M) (ls_cut (last (h # C)) (hd (D @ [h])) s)"
  have l: "nd_size ?l = nd_size s" using m(3) pos by simp
  then have "put_size h (nd_size s h) ?l = ?l" using fun_upd_triv[of "nd_size ?l" h] by (simp add: put_size_def)
  then have "ls_splice_range h pos h (hd (M @ D @ [h])) (hd (D @ [h])) s = Some ?l"
    using splice_range_cut[OF r False, of h pos] l by (simp add: Let_def put_size_commute)
  then show ?thesis using m(1,2) pos by simp
qed

section \<open>Constructors\<close>

lemma filled_new:
  fixes vals :: "'v list"
  assumes "h < nd_fresh s"
  defines "s' \<equiv> ls_filled h vals (ls_construct h s)"
  shows "\<exists>ys. list_ok h s' ys \<and> changes {h} s s' \<and> set ys \<subseteq> {nd_fresh s..} \<and> nd_strays s' (set ys) = nd_strays s {}
    \<and> map (nd_value s') ys = vals"
proof -
  note c = construct_list[OF assms(1)]
  note f = filled_step[OF c(1), where vals = vals, folded s'_def]
  have "changes {h} s s'"
    using c(2) f(1) changes_trans[of "{h}" s "ls_construct h s" "{h}" s'] by (simp add: dl.step_def)
  moreover have "nd_strays (ls_construct h s) {} = nd_strays s {}" using c(3,4) by (simp add: nd_strays_def)
  ultimately show ?thesis using f c(3) by (intro exI) (auto simp: dl.step_def)
qed

lemma copied_new:
  assumes "list_ok k s ys" "h \<noteq> k" "h \<notin> set ys" "h < nd_fresh s"
  shows "ls_copy h k s = Some (ls_filled h (map (nd_value s) ys) (ls_construct h s))"
proof -
  note c = construct_list[OF assms(4)]
  have "list_ok k (ls_construct h s) ys" by (rule list_ok_cong[OF assms(1) c(2)]) (use assms in auto)
  then have q: "dl.pair h k (ls_construct h s) [] ys" using c(1) assms by (simp add: dl.pair_def list_ok_def ring_def)
  moreover have "nd_value (ls_construct h s) = nd_value s" by (simp add: ls_construct_def)
  ultimately show ?thesis using copy_filled[OF q] by (simp add: ls_copy_def case_prod_unfold)
qed

lemma move_new:
  assumes "list_ok k s ys" "h \<noteq> k" "h \<notin> set ys" "k \<notin> set ys" "h < nd_fresh s"
  shows "ls_move h k s = ls_swap h k (ls_construct h s)"
proof -
  have e: "nd_next s k = k \<longleftrightarrow> ys = []" "nd_size s k = length ys" using empty_ring[OF assms(1)] assms(1) by (simp_all add: list_ok_def)
  show ?thesis
  proof (cases "ys = []")
    case True
    have "put_size k 0 s = s" using e True fun_upd_triv[of "nd_size s" k] by (simp add: put_size_def)
    then show ?thesis
      using e True assms(2) by (simp add: ls_move_def ls_swap_def ls_construct_def put_size_commute Let_def)
        (simp add: put_next_def put_prev_def put_size_def fun_upd_twist)
  next
    case False
    have "nd_next s k = hd ys" "nd_prev s k = last ys" using begin_list[of k s ys] assms(1) False by (simp_all add: list_ok_def)
    moreover have "hd ys \<noteq> h" "last ys \<noteq> h" "hd ys \<noteq> k" "last ys \<noteq> k" using assms(3,4) False by auto
    ultimately show ?thesis
      using e assms(2) False unfolding ls_move_def ls_swap_def ls_construct_def Let_def
      by (simp add: take_ring_size) (simp add: ls_take_ring_def put_next_def put_prev_def put_size_def fun_upd_twist Let_def)
  qed
qed

end
