(* ===== verification/LListSort.thy ===== *)
theory LListSort
  imports LListWhole Algorithm
begin

text \<open>
  Merging and sorting of doubly linked lists: the functions on value lists that they compute, the merge loop over two
  chains of nodes, the sort, and when the merge of two lists does not return.
\<close>

section \<open>On values\<close>

fun list_merge :: "('v \<Rightarrow> 'v \<Rightarrow> bool) \<Rightarrow> 'v list \<Rightarrow> 'v list \<Rightarrow> 'v list" where
  "list_merge lt (x # xs) (y # ys) = (if lt x y then x # list_merge lt xs (y # ys) else y # list_merge lt (x # xs) ys)"
| "list_merge lt [] ys = ys"
| "list_merge lt xs [] = xs"

text \<open>What is left of the first list when one of the lists is used up.\<close>

fun merge_rest :: "('v \<Rightarrow> 'v \<Rightarrow> bool) \<Rightarrow> 'v list \<Rightarrow> 'v list \<Rightarrow> 'v list" where
  "merge_rest lt (x # xs) (y # ys) = (if lt x y then merge_rest lt xs (y # ys) else merge_rest lt (x # xs) ys)"
| "merge_rest lt [] ys = []"
| "merge_rest lt xs [] = xs"

function list_sort :: "('v \<Rightarrow> 'v \<Rightarrow> bool) \<Rightarrow> 'v list \<Rightarrow> 'v list" where
  "list_sort lt xs =
     (let k = Suc ((length xs - 1) div 2)
      in if length xs \<le> 1 then xs else list_merge lt (list_sort lt (take k xs)) (list_sort lt (drop k xs)))"
  by pat_completeness auto
termination by (relation "measure (\<lambda>(lt, xs). length xs)") auto

declare list_sort.simps [simp del]

lemma list_sort_eval:
  "list_sort lt [] = []" "list_sort lt [x] = [x]"
  "list_sort lt (x # y # xs) = (let k = Suc (Suc (length xs) div 2)
     in list_merge lt (list_sort lt (take k (x # y # xs))) (list_sort lt (drop k (x # y # xs))))"
  by (simp_all add: list_sort.simps[of lt "[]"] list_sort.simps[of lt "[x]"] list_sort.simps[of lt "x # y # xs"])

text \<open>The rule for two lists of which one is taken from in each step.\<close>

lemma two_lists_induct [case_names Nil1 Nil2 Cons]:
  assumes "\<And>ys. P [] ys" "\<And>x xs. P (x # xs) []"
    "\<And>x xs y ys. (Q x y \<Longrightarrow> P xs (y # ys)) \<Longrightarrow> (\<not> Q x y \<Longrightarrow> P (x # xs) ys) \<Longrightarrow> P (x # xs) (y # ys)"
  shows "P xs ys"
proof (induction xs arbitrary: ys)
  case Nil
  show ?case by (rule assms(1))
next
  case (Cons x xs)
  show ?case by (induction ys) (use assms(2,3) Cons in auto)
qed

lemma list_merge_mset [simp]: "mset (list_merge lt xs ys) = mset xs + mset ys"
  by (induction lt xs ys rule: list_merge.induct) simp_all

lemma list_merge_Nil [simp]: "list_merge lt xs [] = xs"
  by (cases xs) simp_all

lemma merge_rest_Nil [simp]: "merge_rest lt xs [] = xs"
  by (cases xs) simp_all

lemma list_merge_set [simp]: "set (list_merge lt xs ys) = set xs \<union> set ys"
  by (metis list_merge_mset set_mset_mset set_mset_union)

lemma list_merge_length [simp]: "length (list_merge lt xs ys) = length xs + length ys"
  by (metis list_merge_mset size_mset size_union)

lemma list_merge_map: "map f (list_merge (\<lambda>a b. lt (f a) (f b)) xs ys) = list_merge lt (map f xs) (map f ys)"
  by (induction "\<lambda>a b. lt (f a) (f b)" xs ys rule: list_merge.induct) auto

lemma merge_rest_map: "map f (merge_rest (\<lambda>a b. lt (f a) (f b)) xs ys) = merge_rest lt (map f xs) (map f ys)"
  by (induction "\<lambda>a b. lt (f a) (f b)" xs ys rule: merge_rest.induct) auto

lemma list_sort_mset: "mset (list_sort lt xs) = mset xs"
proof (induction lt xs rule: list_sort.induct)
  case (1 lt xs)
  let ?k = "Suc ((length xs - 1) div 2)"
  have "mset (take ?k xs) + mset (drop ?k xs) = mset xs" by (metis append_take_drop_id mset_append)
  then show ?case using 1 by (subst list_sort.simps) (simp add: Let_def)
qed

lemma list_sort_set [simp]: "set (list_sort lt xs) = set xs" "length (list_sort lt xs) = length xs"
  by (metis list_sort_mset set_mset_mset) (metis list_sort_mset size_mset)

lemma list_sort_map: "map f (list_sort (\<lambda>a b. lt (f a) (f b)) xs) = list_sort lt (map f xs)"
proof (induction "\<lambda>a b. lt (f a) (f b)" xs rule: list_sort.induct)
  case (1 xs)
  then show ?case
    by (subst (1 2) list_sort.simps) (simp add: Let_def list_merge_map take_map drop_map)
qed

definition ascending :: "('v \<Rightarrow> 'v \<Rightarrow> bool) \<Rightarrow> 'v list \<Rightarrow> bool" where
  "ascending lt xs \<longleftrightarrow> sorted_wrt (\<lambda>a b. \<not> lt b a) xs"

context strict_weak
begin

lemma merge_ascending: "ascending lt xs \<Longrightarrow> ascending lt ys \<Longrightarrow> ascending lt (list_merge lt xs ys)"
  unfolding ascending_def
proof (induction xs ys rule: two_lists_induct[where Q = lt])
  case (Cons x xs y ys)
  show ?case
  proof (cases "lt x y")
    case True
    have "\<not> lt z x" if "z \<in> insert y (set ys)" for z
      using that Cons.prems(2) lt_trans[OF _ True] lt_irrefl[of y] by auto
    then show ?thesis using Cons True by auto
  next
    case False
    have "\<not> lt z y" if "z \<in> insert x (set xs)" for z
      using that Cons.prems(1) False not_lt_trans[of z x y] by auto
    then show ?thesis using Cons False by auto
  qed
qed simp_all

lemma sort_ascending: "ascending lt (list_sort lt xs)"
proof (induction "length xs" arbitrary: xs rule: less_induct)
  case less
  show ?case
  proof (cases "length xs \<le> 1")
    case True
    then show ?thesis by (subst list_sort.simps) (cases xs; auto simp: ascending_def)
  next
    case False
    then show ?thesis
      by (subst list_sort.simps) (auto simp: Let_def intro!: merge_ascending less)
  qed
qed

text \<open>On sorted lists something is left of the first list exactly if its last element is not before that of the second one.\<close>

lemma merge_rest_ascending:
  assumes "ascending lt xs" "ascending lt ys" "ys \<noteq> []"
  shows "merge_rest lt xs ys \<noteq> [] \<longleftrightarrow> xs \<noteq> [] \<and> \<not> lt (last xs) (last ys)"
  using assms unfolding ascending_def
proof (induction xs ys rule: two_lists_induct[where Q = lt])
  case (Cons x xs y ys)
  have top: "\<not> lt (last (z # zs)) z" if "sorted_wrt (\<lambda>a b. \<not> lt b a) (z # zs)" for z zs
    using that lt_irrefl by (cases "zs = []") auto
  show ?case
  proof (cases "lt x y")
    case True
    then have "lt x (last (y # ys))" using top[OF Cons.prems(2)] not_lt_trans[of x "last (y # ys)" y] by blast
    then show ?thesis using Cons True by (cases "xs = []") auto
  next
    case False
    show ?thesis
    proof (cases "ys = []")
      case True
      then show ?thesis using top[OF Cons.prems(1)] False not_lt_trans[of "last (x # xs)" x y] by simp
    next
      case F: False
      then show ?thesis using Cons False by auto
    qed
  qed
qed simp_all

end

section \<open>The merge loop\<close>

lemma merge_loop:
  assumes "fwd s (as @ [ea])" "fwd s (bs @ [eb])" "distinct (as @ bs)" "t \<notin> set (as @ bs)" "ea \<notin> set as" "eb \<notin> set bs"
    "nd_value s = v"
  shows "\<exists>E as' bs' s'. ls_merge_loop ea eb lt (hd (as @ [ea])) (hd (bs @ [eb])) t s = Some (hd (as' @ [ea]), hd (bs' @ [eb]), last (t # E), s')
    \<and> list_merge (\<lambda>a b. lt (v a) (v b)) as bs = E @ as' @ bs' \<and> as' = merge_rest (\<lambda>a b. lt (v a) (v b)) as bs
    \<and> (as' = [] \<or> bs' = []) \<and> (bs \<noteq> [] \<longrightarrow> as' @ bs' \<noteq> []) \<and> suffix as' as \<and> suffix bs' bs
    \<and> fwd s' (t # E) \<and> bwd s' (t # E) \<and> nd_value s' = v \<and> nd_live s' = nd_live s \<and> nd_size s' = nd_size s \<and> nd_fresh s' = nd_fresh s
    \<and> (\<forall>x. x \<notin> set (butlast (t # E)) \<longrightarrow> nd_next s' x = nd_next s x) \<and> (\<forall>x. x \<notin> set E \<longrightarrow> nd_prev s' x = nd_prev s x)"
    (is "\<exists>E as' bs' s'. ?R s t as bs E as' bs' s'")
  using assms
proof (induction as bs arbitrary: s t rule: two_lists_induct[where Q = "\<lambda>a b. lt (v a) (v b)"])
  case (Nil1 bs)
  show ?case
    by (intro exI[of _ "[]"] exI[of _ bs] exI[of _ s]) (use Nil1 in \<open>simp add: ls_merge_loop.simps\<close>)
next
  case (Nil2 x xs)
  show ?case
    by (intro exI[of _ "[]"] exI[of _ "x # xs"] exI[of _ s]) (use Nil2 in \<open>simp add: ls_merge_loop.simps\<close>)
next
  case (Cons x xs y ys)
  let ?L = "\<lambda>a b. lt (v a) (v b)"
  have taken: "\<exists>E as' bs' s'. ?R s t (x # xs) (y # ys) E as' bs' s'"
    if c: "c \<in> {x, y}" and s1: "s1 = put_prev c t (put_next t c s)"
      and l: "ls_merge_loop ea eb lt x y t s = ls_merge_loop ea eb lt (hd (as @ [ea])) (hd (bs @ [eb])) c s1"
      and m: "list_merge ?L (x # xs) (y # ys) = c # list_merge ?L as bs" "merge_rest ?L (x # xs) (y # ys) = merge_rest ?L as bs"
      and sub: "set (as @ bs) = set (x # xs @ y # ys) - {c}" "suffix as (x # xs)" "suffix bs (y # ys)" "as \<noteq> [] \<or> bs \<noteq> []"
        "bs = [] \<longrightarrow> as \<noteq> []"
      and i: "\<exists>E as' bs' s'. ?R s1 c as bs E as' bs' s'" for c s1 as bs
  proof -
    obtain E as' bs' s' where r: "ls_merge_loop ea eb lt (hd (as @ [ea])) (hd (bs @ [eb])) c s1 = Some (hd (as' @ [ea]), hd (bs' @ [eb]), last (c # E), s')"
      "list_merge ?L as bs = E @ as' @ bs'" "as' = merge_rest ?L as bs" "as' = [] \<or> bs' = []" "bs \<noteq> [] \<longrightarrow> as' @ bs' \<noteq> []"
      "suffix as' as" "suffix bs' bs" and chain: "fwd s' (c # E)" "bwd s' (c # E)"
      and same: "nd_value s' = v" "nd_live s' = nd_live s1" "nd_size s' = nd_size s1" "nd_fresh s' = nd_fresh s1"
      and links: "\<And>x. x \<notin> set (butlast (c # E)) \<Longrightarrow> nd_next s' x = nd_next s1 x" "\<And>x. x \<notin> set E \<Longrightarrow> nd_prev s' x = nd_prev s1 x"
      using i by blast
    have E: "set E \<subseteq> set (x # xs @ y # ys) - {c}"
      using r(2) sub(1) list_merge_set[of ?L as bs] by auto
    have t: "t \<notin> set (x # xs @ y # ys)" using Cons.prems(4) by auto
    have tb: "t \<notin> set (butlast (c # E))" "t \<noteq> c" "c \<notin> set E" using E t c by (auto dest: in_set_butlastD split: if_splits)
    have "nd_next s' t = c" "nd_prev s' c = t" using links(1)[OF tb(1)] links(2)[OF tb(3)] by (simp_all add: s1)
    then have chain2: "fwd s' (t # c # E)" "bwd s' (t # c # E)" using chain by simp_all
    have links2: "nd_next s' z = nd_next s z" if "z \<notin> set (butlast (t # c # E))" for z
      using links(1)[of z] that by (simp add: s1 split: if_splits)
    have links3: "nd_prev s' z = nd_prev s z" if "z \<notin> set (c # E)" for z using links(2)[of z] that by (simp add: s1)
    have ne: "as' @ bs' \<noteq> []"
    proof (cases "bs = []")
      case True
      then show ?thesis using r(3) sub(5) by simp
    qed (use r(5) in blast)
    have suf: "suffix as' (x # xs)" "suffix bs' (y # ys)" using r(6,7) sub(2,3) suffix_order.trans by blast+
    show ?thesis
    proof (intro exI conjI)
      show "ls_merge_loop ea eb lt (hd ((x # xs) @ [ea])) (hd ((y # ys) @ [eb])) t s
          = Some (hd (as' @ [ea]), hd (bs' @ [eb]), last (t # c # E), s')" using r(1) l by simp
      show "list_merge ?L (x # xs) (y # ys) = (c # E) @ as' @ bs'" "as' = merge_rest ?L (x # xs) (y # ys)"
        using r(2,3) m by simp_all
      show "\<forall>z. z \<notin> set (butlast (t # c # E)) \<longrightarrow> nd_next s' z = nd_next s z" "\<forall>z. z \<notin> set (c # E) \<longrightarrow> nd_prev s' z = nd_prev s z"
        using links2 links3 by blast+
    qed (use r(4) ne suf chain2 same in \<open>simp_all add: s1\<close>)
  qed
  have xy: "x \<noteq> ea" "y \<noteq> eb" "x \<noteq> t" "y \<noteq> t" "x \<noteq> y" "x \<notin> set ys" "y \<notin> set xs" using Cons.prems by auto
  have n: "nd_next s x = hd (xs @ [ea])" "nd_next s y = hd (ys @ [eb])" "fwd s (xs @ [ea])" "fwd s (ys @ [eb])"
    using Cons.prems(1,2) fwd_Cons by (metis append_Cons)+
  show ?case
  proof (cases "?L x y")
    case True
    let ?s = "put_prev x t (put_next t x s)"
    show ?thesis
    proof (rule taken[of x ?s xs "y # ys"])
      show "ls_merge_loop ea eb lt x y t s = ls_merge_loop ea eb lt (hd (xs @ [ea])) (hd ((y # ys) @ [eb])) x ?s"
        using xy n True Cons.prems(7) by (subst ls_merge_loop.simps) simp
      show "\<exists>E as' bs' s'. ?R ?s x xs (y # ys) E as' bs' s'"
        using Cons.IH(1)[OF True, of ?s x] Cons.prems xy n by simp
    qed (use True Cons.prems(3) xy in \<open>auto simp: suffix_def\<close>)
  next
    case False
    let ?s = "put_prev y t (put_next t y s)"
    show ?thesis
    proof (rule taken[of y ?s "x # xs" ys])
      show "ls_merge_loop ea eb lt x y t s = ls_merge_loop ea eb lt (hd ((x # xs) @ [ea])) (hd (ys @ [eb])) y ?s"
        using xy n False Cons.prems(7) by (subst ls_merge_loop.simps) simp
      show "\<exists>E as' bs' s'. ?R ?s y (x # xs) ys E as' bs' s'"
        using Cons.IH(2)[OF False, of ?s y] Cons.prems xy n by simp
    qed (use False Cons.prems(3) xy in \<open>auto simp: suffix_def\<close>)
  qed
qed

section \<open>Sorting\<close>

lemma in_set_tl: "x \<in> set (tl xs) \<Longrightarrow> x \<in> set xs"
  by (cases xs) auto

lemma find_tail: "fwd s (t # R @ [h]) \<Longrightarrow> h \<notin> set R \<Longrightarrow> ls_find_tail h t s = Some (last (t # R))"
proof (induction R arbitrary: t)
  case Nil
  then show ?case by (simp add: ls_find_tail.simps)
next
  case (Cons a R)
  then show ?case by (subst ls_find_tail.simps) simp
qed

lemma find_tail_None:
  assumes "\<And>x. x \<in> S \<Longrightarrow> nd_next s x \<in> S" "h \<notin> S" "t \<in> S"
  shows "ls_find_tail h t s = None"
proof (cases "ls_find_tail h t s")
  case (Some r)
  have "t \<in> S \<longrightarrow> False"
  proof (rule ls_find_tail.raw_induct[where P = "\<lambda>h' t s' _. h' = h \<longrightarrow> s' = s \<longrightarrow> t \<in> S \<longrightarrow> False", OF _ Some, THEN mp, THEN mp])
    fix rec and h' t and s' :: "'a nodes" and r
    assume rec: "\<And>h' t s' r. rec h' t s' = Some r \<Longrightarrow> h' = h \<longrightarrow> s' = s \<longrightarrow> t \<in> S \<longrightarrow> False"
      and eq: "(if nd_next s' t \<noteq> h' then rec h' (nd_next s' t) s' else Some t) = Some r"
    show "h' = h \<longrightarrow> s' = s \<longrightarrow> t \<in> S \<longrightarrow> False"
    proof (intro impI)
      assume "h' = h" "s' = s" "t \<in> S"
      moreover from this have "nd_next s t \<in> S" "nd_next s t \<noteq> h" using assms(1,2) by auto
      ultimately show False using eq rec[of h "nd_next s t" s r] by simp
    qed
  qed simp_all
  then show ?thesis using assms(3) by blast
qed simp

lemma fwd_suffix: "fwd s (xs @ [h]) \<Longrightarrow> suffix ys xs \<Longrightarrow> fwd s (ys @ [h])"
  using fwd_join[of _ "ys @ [h]" s] by (auto simp: suffix_def) (metis append_Nil)

lemma bwd_suffix: "bwd s xs \<Longrightarrow> suffix ys xs \<Longrightarrow> bwd s ys"
  using bwd_join[of _ ys s] by (auto simp: suffix_def) (metis append_Nil append_Nil2 bwd.simps(1))

text \<open>A chain of nodes that ends at the header.\<close>

definition seg :: "addr \<Rightarrow> 'v nodes \<Rightarrow> addr list \<Rightarrow> bool" where
  "seg h s ns \<longleftrightarrow> fwd s (ns @ [h]) \<and> bwd s ns \<and> distinct ns \<and> h \<notin> set ns \<and> (\<forall>x\<in>insert h (set ns). x < nd_fresh s)"

lemma seg_cong:
  assumes "seg h s ns" "changes A s s'" "set ns \<inter> A = {}"
  shows "seg h s' ns"
proof -
  have "nd_next s' x = nd_next s x \<and> nd_prev s' x = nd_prev s x" if "x \<in> set ns" for x
  proof -
    have "x \<notin> A" "x < nd_fresh s" using that assms(1,3) by (auto simp: seg_def)
    then show ?thesis using assms(2) by (simp add: changes_def)
  qed
  then have "fwd s' (ns @ [h]) = fwd s (ns @ [h])" "bwd s' ns = bwd s ns"
    by (intro fwd_cong bwd_cong; auto dest: in_set_tl)+
  then show ?thesis using assms(1,2) by (auto simp: seg_def changes_def)
qed

definition kept :: "addr set \<Rightarrow> 'v nodes \<Rightarrow> 'v nodes \<Rightarrow> bool" where
  "kept A s s' \<longleftrightarrow> changes A s s' \<and> nd_value s' = nd_value s \<and> nd_live s' = nd_live s \<and> nd_size s' = nd_size s \<and> nd_fresh s' = nd_fresh s"

lemma kept_trans: "kept A s s1 \<Longrightarrow> kept B s1 s2 \<Longrightarrow> A \<union> B \<subseteq> C \<Longrightarrow> kept C s s2"
  unfolding kept_def using changes_mono[of A s s1 C] changes_trans[of C s s1 B s2] by auto

text \<open>Both merges append what is left to the nodes merged so far, behind \<open>t\<close>.\<close>

lemma append_rest:
  assumes c: "fwd s (t # E)" "bwd s (t # E)" "fwd s (R @ [h])" "bwd s R" "distinct (t # E @ R)" "h \<notin> set (E @ R)" "R \<noteq> []"
  defines "s' \<equiv> put_prev (hd R) (last (t # E)) (put_next (last (t # E)) (hd R) s)"
  shows "fwd s' (t # E @ R @ [h])" "bwd s' (t # E @ R)" "ls_find_tail h (last (t # E)) s' = Some (last R)"
proof -
  let ?t = "last (t # E)"
  have R: "R = hd R # tl R" using c(7) by simp
  have nb: "?t \<notin> set (butlast (t # E))" by (rule last_butlast) (use c(5) in auto)
  have tR: "?t \<notin> set R" using last_in_set[of "t # E"] c(5) by auto
  have "fwd s' (t # E) = fwd s (t # E)" "fwd s' (R @ [h]) = fwd s (R @ [h])"
    by (rule fwd_cong; use nb tR in \<open>auto simp: s'_def\<close>)+
  then have f: "fwd s' (t # E)" "fwd s' (R @ [h])" using c(1,3) by simp_all
  have hR: "hd R \<notin> set (tl (t # E))" "hd R \<notin> set (tl R)" using c(5) R by (auto simp: hd_tl c(7))
  have "bwd s' (t # E) = bwd s (t # E)" "bwd s' R = bwd s R"
    by (rule bwd_cong; use hR in \<open>auto simp: s'_def\<close>)+
  then have b: "bwd s' (t # E)" "bwd s' R" using c(2,4) by simp_all
  have l: "nd_next s' ?t = hd R" "nd_prev s' (hd R) = ?t" by (simp_all add: s'_def)
  show "fwd s' (t # E @ R @ [h])" using fwd_join[of "t # E" "R @ [h]" s'] f l c(7) by simp
  show "bwd s' (t # E @ R)" using bwd_join[of "t # E" R s'] b l c(7) by simp
  have "fwd s' (?t # R @ [h])" using fwd_join[of "[?t]" "R @ [h]" s'] f(2) l(1) c(7) by simp
  then show "ls_find_tail h ?t s' = Some (last R)" using find_tail[of s' ?t R h] c(6,7) by simp
qed

lemma sorted_merge:
  fixes lt :: "'v \<Rightarrow> 'v \<Rightarrow> bool" and s :: "'v nodes"
  assumes a: "seg h s as" "seg h s bs" and d: "set as \<inter> set bs = {}" and ne: "as \<noteq> []" "bs \<noteq> []"
  defines "ns \<equiv> list_merge (\<lambda>a b. lt (nd_value s a) (nd_value s b)) as bs"
  shows "\<exists>s'. ls_sorted_merge h lt (hd as) (hd bs) s = Some (hd ns, s') \<and> seg h s' ns \<and> kept (insert h (set as \<union> set bs)) s s'"
proof -
  let ?f = "nd_fresh s"
  define s0 where "s0 = put_next ?f h (put_prev ?f h s)"
  have f: "?f \<notin> set (as @ bs)" "?f \<noteq> h" using a by (auto simp: seg_def)
  have k0: "kept {} s s0" unfolding kept_def s0_def by (simp add: changes_put)
  then have a0: "seg h s0 as" "seg h s0 bs" using a seg_cong[of h s _ "{}" s0] by (simp_all add: kept_def)
  have dist: "distinct (as @ bs)" "h \<notin> set as" "h \<notin> set bs" using a d by (auto simp: seg_def)
  have pre: "fwd s0 (as @ [h])" "fwd s0 (bs @ [h])" "nd_value s0 = nd_value s" using a0 k0 by (simp_all add: seg_def kept_def)
  obtain E as' bs' s1 where m: "ls_merge_loop h h lt (hd (as @ [h])) (hd (bs @ [h])) ?f s0 = Some (hd (as' @ [h]), hd (bs' @ [h]), last (?f # E), s1)"
    "ns = E @ as' @ bs'" "as' = [] \<or> bs' = []" "as' @ bs' \<noteq> []" "suffix as' as" "suffix bs' bs"
    "fwd s1 (?f # E)" "bwd s1 (?f # E)" "nd_value s1 = nd_value s" "nd_live s1 = nd_live s0" "nd_size s1 = nd_size s0" "nd_fresh s1 = nd_fresh s0"
    "\<And>x. x \<notin> set (butlast (?f # E)) \<Longrightarrow> nd_next s1 x = nd_next s0 x" "\<And>x. x \<notin> set E \<Longrightarrow> nd_prev s1 x = nd_prev s0 x"
    using merge_loop[OF pre(1,2) dist(1) f(1) dist(2,3) pre(3)] ne(2) unfolding ns_def by blast
  define R where "R = as' @ bs'"
  have ns: "ns = E @ R" using m(2) by (simp add: R_def)
  have set_ns: "set (E @ R) = set as \<union> set bs" "distinct (E @ R)"
    using list_merge_set[of _ as bs] mset_eq_imp_distinct_iff[of ns "as @ bs"] dist(1) unfolding ns[symmetric] ns_def by auto
  have R: "fwd s0 (R @ [h])" "bwd s0 R"
    using m(3) fwd_suffix[OF pre(1) m(5)] fwd_suffix[OF pre(2) m(6)] bwd_suffix[OF _ m(5), of s0] bwd_suffix[OF _ m(6), of s0] a0
    unfolding R_def seg_def by auto
  have out: "x \<notin> set (butlast (?f # E))" "x \<notin> set E" if "x \<in> set R" for x
    using that set_ns f(1) by (auto dest: in_set_butlastD split: if_splits)
  have "fwd s1 (R @ [h]) = fwd s0 (R @ [h])" by (rule fwd_cong) (use m(13) out(1) in auto)
  moreover have "bwd s1 R = bwd s0 R" by (rule bwd_cong) (use m(14) out(2) in \<open>auto dest: in_set_tl\<close>)
  ultimately have R1: "fwd s1 (R @ [h])" "bwd s1 R" using R by simp_all
  have dis: "distinct (?f # E @ R)" "h \<notin> set (E @ R)" "R \<noteq> []" using set_ns f(1) dist m(4) by (auto simp: R_def)
  define t where "t = last (?f # E)"
  define s2 where "s2 = put_prev (hd R) t (put_next t (hd R) s1)"
  note c = append_rest[OF m(7,8) R1 dis, folded t_def, folded s2_def]
  have rem: "(if hd (as' @ [h]) \<noteq> h then hd (as' @ [h]) else hd (bs' @ [h])) = hd R"
    using m(3,4) dis(2) by (cases as'; cases bs') (auto simp: R_def)
  have lR: "nd_next s2 (last R) = h" using fwd_join[of "?f # E @ R" "[h]" s2] c(1) dis(3) by simp
  define s3 where "s3 = put_prev h (last R) s2"
  have close: "ls_close h (last R) s2 = s3"
    using lR fun_upd_triv[of "nd_next s2" "last R"] by (simp add: ls_close_def s3_def put_next_def)
  have f3: "fwd s3 (?f # ns @ [h])" using c(1) by (simp add: s3_def ns)
  have "bwd s3 (?f # ns) = bwd s2 (?f # ns)" unfolding s3_def by (rule bwd_put) (use dis(2) ns in auto)
  then have b3: "bwd s3 (?f # ns)" using c(2) by (simp add: ns)
  have "ls_sorted_merge h lt (hd as) (hd bs) s = Some (nd_next s3 ?f, s3)"
    using m(1)[folded t_def] ne c(3) rem close by (simp add: ls_sorted_merge_def Let_def s0_def[symmetric] s2_def[symmetric])
  moreover have "ns \<noteq> []" using ns dis(3) by simp
  then have "nd_next s3 ?f = hd ns" "fwd s3 (ns @ [h])" using iffD1[OF fwd_Cons f3] by simp_all
  moreover have "bwd s3 ns" using b3 bwd_join[of "[?f]" ns s3] ns dis(3) by simp
  moreover have k: "kept (insert h (set as \<union> set bs)) s s3"
  proof -
    let ?A = "insert h (set as \<union> set bs)"
    have "changes ?A s s1"
    proof -
      have "nd_next s1 q = nd_next s q" "nd_prev s1 q = nd_prev s q" if "q \<notin> ?A" "q < ?f" for q
      proof -
        have "q \<notin> set (butlast (?f # E))" "q \<notin> set E" using that set_ns by (auto dest: in_set_butlastD split: if_splits)
        then show "nd_next s1 q = nd_next s q" "nd_prev s1 q = nd_prev s q" using m(13,14) that(2) by (simp_all add: s0_def)
      qed
      then show ?thesis using m(9-12) by (simp add: changes_def s0_def)
    qed
    moreover have "hd R \<in> ?A" using set_ns dis(3) by (metis Un_iff hd_in_set insertI2 set_append)
    moreover have "t \<in> ?A \<or> ?f \<le> t" unfolding t_def using set_ns last_in_set[of "?f # E"] by auto
    ultimately have "changes ?A s s3" unfolding s3_def s2_def by (metis changes_put(1,2,4) insertI1)
    then show ?thesis using m(9-12) by (simp add: kept_def s3_def s2_def s0_def)
  qed
  moreover have "distinct ns" "h \<notin> set ns" "\<forall>x\<in>insert h (set ns). x < nd_fresh s3"
    using set_ns ns dis(2) a k unfolding kept_def seg_def by auto
  ultimately show ?thesis by (auto simp: seg_def)
qed

lemma fwd_nth: "fwd s L \<Longrightarrow> Suc i < length L \<Longrightarrow> nd_next s (L ! i) = L ! Suc i"
proof (induction s L arbitrary: i rule: fwd.induct)
  case (3 s a b xs)
  then show ?case by (cases i) simp_all
qed simp_all

text \<open>The slow pointer stops at the last node of the first half.\<close>

lemma split_loop:
  assumes "fwd s (ns @ [h])" "distinct (ns @ [h])" "2 * i + 1 \<le> length ns"
  shows "ls_split_loop h (ns ! i) ((ns @ [h]) ! (2 * i + 1)) s = Some (ns ! ((length ns - 1) div 2))"
  using assms(3)
proof (induction "length ns - i" arbitrary: i rule: less_induct)
  case less
  let ?L = "ns @ [h]"
  have at_h: "?L ! j = h \<longleftrightarrow> j = length ns" if "j \<le> length ns" for j
    using that assms(2) nth_eq_iff_index_eq[OF assms(2), of j "length ns"] by simp
  consider "2 * i + 1 = length ns" | "2 * i + 2 = length ns" | "2 * i + 3 \<le> length ns" using less.prems by linarith
  then show ?case
  proof cases
    case 1
    then have "(ns @ [h]) ! (2 * i + 1) = h" "(length ns - 1) div 2 = i" by (simp_all add: nth_append)
    then show ?thesis by (subst ls_split_loop.simps) simp
  next
    case 2
    then have "nd_next s (?L ! (2 * i + 1)) = h" "(length ns - 1) div 2 = i"
      using fwd_nth[OF assms(1), of "2 * i + 1"] by auto
    then show ?thesis by (subst ls_split_loop.simps) simp
  next
    case 3
    have n: "nd_next s (?L ! (2 * i + 1)) = ?L ! (2 * i + 2)" "nd_next s (?L ! (2 * i + 2)) = ?L ! (2 * Suc i + 1)"
      "nd_next s (ns ! i) = ns ! Suc i"
      using fwd_nth[OF assms(1), of "2 * i + 1"] fwd_nth[OF assms(1), of "2 * i + 2"] fwd_nth[OF assms(1), of i] 3
      by (simp_all add: nth_append)
    have "?L ! (2 * i + 1) \<noteq> h" "?L ! (2 * i + 2) \<noteq> h" using at_h[of "2 * i + 1"] at_h[of "2 * i + 2"] 3 by linarith+
    then have "ls_split_loop h (ns ! i) (?L ! (2 * i + 1)) s = ls_split_loop h (ns ! Suc i) (?L ! (2 * Suc i + 1)) s"
      using n by (subst ls_split_loop.simps) simp
    then show ?thesis using less.hyps[of "Suc i"] 3 by simp
  qed
qed

lemma split_segs:
  assumes s: "seg h s ns" and len: "2 \<le> length ns"
  defines "A \<equiv> take (Suc ((length ns - 1) div 2)) ns" and "B \<equiv> drop (Suc ((length ns - 1) div 2)) ns"
  shows "\<exists>s'. ls_split h (hd ns) s = Some (hd A, hd B, s') \<and> seg h s' A \<and> seg h s' B \<and> kept (set ns) s s'
    \<and> A \<noteq> [] \<and> B \<noteq> [] \<and> set A \<inter> set B = {} \<and> ns = A @ B"
proof -
  let ?k = "(length ns - 1) div 2"
  have k: "Suc ?k < length ns" using len by linarith
  have AB: "ns = A @ B" "A \<noteq> []" "B \<noteq> []" using k by (auto simp: A_def B_def)
  have la: "last A = ns ! ?k" using k by (simp add: A_def take_Suc_conv_app_nth)
  have f: "fwd s (ns @ [h])" "bwd s ns" "distinct ns" "h \<notin> set ns" using s by (simp_all add: seg_def)
  have d: "set A \<inter> set B = {}" "distinct A" "distinct B" "h \<notin> set A" "h \<notin> set B" using f(3,4) AB(1) by auto
  have fA: "fwd s A" "nd_next s (last A) = hd B" "fwd s (B @ [h])"
    using f(1) fwd_join[of A "B @ [h]" s] AB by simp_all
  have bA: "bwd s A" "bwd s B" using f(2) bwd_join[of A B s] AB by simp_all
  have "nd_next s (hd ns) = (ns @ [h]) ! 1"
    using fwd_nth[OF f(1), of 0] len by (cases ns) auto
  moreover have "hd ns = ns ! 0" using len by (intro hd_conv_nth) auto
  ultimately have l: "ls_split_loop h (hd ns) (nd_next s (hd ns)) s = Some (last A)"
    using split_loop[OF f(1), of 0] f(3,4) len la by simp
  let ?s = "put_prev (hd B) h (put_next (last A) h s)"
  have "ls_split h (hd ns) s = Some (hd A, hd B, ?s)" using l fA(2) AB by (simp add: ls_split_def Let_def)
  moreover have "changes (set ns) s ?s"
    by (rule changes_put(2)[OF _ changes_put(1)[OF _ changes_refl]]) (use AB in auto)
  then have k': "kept (set ns) s ?s" by (simp add: kept_def)
  moreover have "last A \<notin> set (butlast A)" "last A \<notin> set B" using last_butlast[OF d(2) AB(2)] d(1) AB(2) last_in_set by blast+
  moreover have "hd B \<notin> set (tl B)" "hd B \<notin> set (tl A)"
    using hd_tl[OF d(3) AB(3)] d(1) hd_in_set[OF AB(3)] in_set_tl[of "hd B" A] by blast+
  ultimately have "fwd ?s A" "fwd ?s (B @ [h])" "bwd ?s A" "bwd ?s B"
    using fA bA by (auto dest: in_set_tl)
  moreover from this have "fwd ?s (A @ [h])" using fwd_join[of A "[h]" ?s] AB(2) by simp
  ultimately have "seg h ?s A" "seg h ?s B" using s d AB by (auto simp: seg_def)
  then show ?thesis using \<open>ls_split h (hd ns) s = _\<close> k' AB d(1) by blast
qed

lemma merge_sort:
  "seg h s ns \<Longrightarrow> \<exists>s'. ls_merge_sort h lt (hd (ns @ [h])) s = Some (hd (list_sort (\<lambda>a b. lt (nd_value s a) (nd_value s b)) ns @ [h]), s')
    \<and> seg h s' (list_sort (\<lambda>a b. lt (nd_value s a) (nd_value s b)) ns) \<and> kept (insert h (set ns)) s s'"
proof (induction "length ns" arbitrary: ns s rule: less_induct)
  case less
  let ?L = "\<lambda>a b. lt (nd_value s a) (nd_value s b)"
  show ?case
  proof (cases "length ns \<le> 1")
    case True
    then have "list_sort ?L ns = ns" by (subst list_sort.simps) simp
    moreover have "ls_merge_sort h lt (hd (ns @ [h])) s = Some (hd (ns @ [h]), s)"
      using True less.prems by (subst ls_merge_sort.simps) (cases ns; auto simp: seg_def)
    ultimately show ?thesis using less.prems by (simp add: kept_def)
  next
    case False
    let ?k = "Suc ((length ns - 1) div 2)"
    let ?A = "take ?k ns" and ?B = "drop ?k ns"
    have len: "2 \<le> length ns" using False by simp
    obtain s1 where s1: "ls_split h (hd ns) s = Some (hd ?A, hd ?B, s1)" "seg h s1 ?A" "seg h s1 ?B" "kept (set ns) s s1"
      and AB: "?A \<noteq> []" "?B \<noteq> []" "set ?A \<inter> set ?B = {}" "ns = ?A @ ?B" using split_segs[OF less.prems len] by blast
    have setAB: "set ns = set ?A \<union> set ?B" using AB(4) by (metis set_append)
    have la: "length ?A < length ns" "length ?B < length ns" using len by auto
    have v1: "nd_value s1 = nd_value s" using s1(4) by (simp add: kept_def)
    let ?A' = "list_sort ?L ?A" and ?B' = "list_sort ?L ?B"
    have ne: "?A' \<noteq> []" "?B' \<noteq> []" using AB(1,2) list_sort_set(2) by (metis length_0_conv)+
    obtain s2 where s2: "ls_merge_sort h lt (hd (?A @ [h])) s1 = Some (hd (?A' @ [h]), s2)" "seg h s2 ?A'" "kept (insert h (set ?A)) s1 s2"
      using less.hyps[OF la(1) s1(2)] v1 by auto
    have v2: "nd_value s2 = nd_value s" using s2(3) v1 by (simp add: kept_def)
    have hB: "h \<notin> set ?B" "h \<notin> set ?A" using less.prems setAB by (auto simp: seg_def)
    have B2: "seg h s2 ?B" by (rule seg_cong[OF s1(3), of "insert h (set ?A)"]) (use s2(3) AB(3) hB in \<open>auto simp: kept_def\<close>)
    obtain s3 where s3: "ls_merge_sort h lt (hd (?B @ [h])) s2 = Some (hd (?B' @ [h]), s3)" "seg h s3 ?B'" "kept (insert h (set ?B)) s2 s3"
      using less.hyps[OF la(2) B2] v2 by auto
    have v3: "nd_value s3 = nd_value s" using s3(3) v2 by (simp add: kept_def)
    have A3: "seg h s3 ?A'" by (rule seg_cong[OF s2(2), of "insert h (set ?B)"]) (use s3(3) AB(3) hB in \<open>auto simp: kept_def\<close>)
    have d: "set ?A' \<inter> set ?B' = {}" using AB(3) by simp
    obtain s4 where s4: "ls_sorted_merge h lt (hd ?A') (hd ?B') s3 = Some (hd (list_merge ?L ?A' ?B'), s4)"
      "seg h s4 (list_merge ?L ?A' ?B')" "kept (insert h (set ?A \<union> set ?B)) s3 s4"
      using sorted_merge[OF A3 s3(2) d ne, of lt] v3 by auto
    have L: "list_sort ?L ns = list_merge ?L ?A' ?B'" using False by (subst list_sort.simps) (simp add: Let_def)
    have nn: "hd (ns @ [h]) = hd ns" "hd ns \<noteq> h" "nd_next s (hd ns) \<noteq> h"
    proof -
      show "hd (ns @ [h]) = hd ns" "hd ns \<noteq> h" using less.prems len by (cases ns; auto simp: seg_def)+
      have "nd_next s (hd ns) = ns ! 1"
        using less.prems fwd_nth[of s "ns @ [h]" 0] len by (cases ns) (auto simp: seg_def nth_append)
      moreover have "ns ! 1 \<in> set ns" using len by simp
      ultimately show "nd_next s (hd ns) \<noteq> h" using less.prems by (auto simp: seg_def)
    qed
    have "ls_merge_sort h lt (hd (ns @ [h])) s = Some (hd (list_merge ?L ?A' ?B'), s4)"
      using nn s1(1) s2(1) s3(1) s4(1) AB(1,2) ne by (subst ls_merge_sort.simps) simp
    moreover have "list_merge ?L ?A' ?B' \<noteq> []" using ne list_merge_length by (metis add_is_0 length_0_conv)
    moreover have "kept (insert h (set ns)) s s4"
    proof -
      have "kept (insert h (set ns)) s s2" by (rule kept_trans[OF s1(4) s2(3)]) (use setAB in auto)
      then have "kept (insert h (set ns)) s s3" by (rule kept_trans[OF _ s3(3)]) (use setAB in auto)
      then show ?thesis by (rule kept_trans[OF _ s4(3)]) (use setAB in auto)
    qed
    ultimately show ?thesis using s4(2) by (simp add: L)
  qed
qed

text \<open>With the chain of next links right, \<^verbatim>\<open>_rebuild_tail\<close> completes the ring.\<close>

lemma rebuild_ring:
  assumes f: "fwd s (h # ns @ [h])" "bwd s (h # ns)" "distinct (h # ns)" "ns \<noteq> []"
  shows "ls_rebuild_tail h s = Some (put_prev h (last ns) s)" "ring h (put_prev h (last ns) s) ns"
proof -
  have n: "nd_next s h = hd ns" "fwd s (ns @ [h])" using iffD1[OF fwd_Cons f(1)] f(4) by simp_all
  have ht: "ns = hd ns # tl ns" using f(4) by simp
  then have "fwd s (hd ns # tl ns @ [h])" using n(2) by (metis append_Cons)
  then have l: "ls_find_tail h (hd ns) s = Some (last ns)" using find_tail[of s "hd ns" "tl ns" h] f(3) ht by (metis distinct.simps(2) in_set_tl)
  have nl: "nd_next s (last ns) = h" using fwd_join[of ns "[h]" s] n(2) f(4) by simp
  then have "ls_close h (last ns) s = put_prev h (last ns) s"
    using fun_upd_triv[of "nd_next s" "last ns"] by (simp add: ls_close_def put_next_def)
  then show "ls_rebuild_tail h s = Some (put_prev h (last ns) s)" using l n(1) by (simp add: ls_rebuild_tail_def)
  let ?s = "put_prev h (last ns) s"
  have "fwd s (h # ns)" using f(1) fwd_join[of "h # ns" "[h]" s] by simp
  moreover have "bwd ?s (h # ns) = bwd s (h # ns)" by (rule bwd_put) (use f(3) in simp)
  ultimately have "ring h ?s (ns @ [])" using f nl by (intro ring_join) (simp_all del: last.simps add: last_ConsR)
  then show "ring h ?s ns" by simp
qed

lemma ring_seg:
  assumes "list_ok h s xs"
  shows "seg h s xs"
proof -
  have r: "ring h s ([] @ xs)" using assms by (simp add: list_ok_def)
  have "bwd s xs" using ring_neighbours(6)[OF r] bwd_join[of xs "[h]" s] by (cases "xs = []") simp_all
  then show ?thesis using ring_neighbours(5)[OF r] assms by (simp add: seg_def list_ok_def ring_def)
qed

lemma sort_step:
  fixes lt :: "'v \<Rightarrow> 'v \<Rightarrow> bool" and s :: "'v nodes"
  assumes ok: "list_ok h s xs"
  defines "ns \<equiv> list_sort (\<lambda>a b. lt (nd_value s a) (nd_value s b)) xs"
  shows "\<exists>s'. ls_sort h lt s = Some s' \<and> dl.step h s xs s' ns \<and> nd_value s' = nd_value s"
proof (cases "length xs \<le> 1")
  case True
  then have "ns = xs" unfolding ns_def by (subst list_sort.simps) simp
  moreover have "ls_sort h lt s = Some s" using True ok by (simp add: ls_sort_def list_ok_def)
  ultimately show ?thesis using dl.step_refl[OF ok] by simp
next
  case False
  have sz: "nd_size s h = length xs" "nd_next s h = hd (xs @ [h])" using ok begin_list(1)[of h s xs] by (simp_all add: list_ok_def)
  obtain s1 where s1: "ls_merge_sort h lt (hd (xs @ [h])) s = Some (hd (ns @ [h]), s1)" "seg h s1 ns" "kept (insert h (set xs)) s s1"
    using merge_sort[OF ring_seg[OF ok], of lt] unfolding ns_def by blast
  have set: "set ns = set xs" "length ns = length xs" by (simp_all add: ns_def)
  have ne: "ns \<noteq> []" using set(2) False by auto
  have d: "distinct (h # ns)" using s1(2) by (simp add: seg_def)
  have hn: "hd ns \<in> set ns" "hd ns \<notin> set (tl ns)" "hd ns \<noteq> h" using d ne hd_tl[of ns] by auto
  let ?s2 = "put_prev (hd ns) h (put_next h (hd ns) s1)"
  have f: "fwd s1 (ns @ [h])" "bwd s1 ns" using s1(2) by (simp_all add: seg_def)
  have f2: "fwd ?s2 (ns @ [h])" "bwd ?s2 ns" using f d hn by simp_all
  have "fwd ?s2 (h # ns @ [h])" using f2(1) ne fwd_Cons[of ?s2 h ns h] by simp
  moreover have "bwd ?s2 (h # ns)" using f2(2) bwd_join[of "[h]" ns ?s2] ne by simp
  ultimately have rb: "ls_rebuild_tail h ?s2 = Some (put_prev h (last ns) ?s2)" "ring h (put_prev h (last ns) ?s2) ns"
    using rebuild_ring[of ?s2 h ns] d ne by blast+
  let ?s3 = "put_prev h (last ns) ?s2"
  have "ls_sort h lt s = Some ?s3" using False sz s1(1) rb(1) ne by (simp add: ls_sort_def Let_def)
  moreover have c1: "changes (insert h (set xs)) s s1" using s1(3) by (simp add: kept_def)
  have "changes (insert h (set xs)) s ?s3"
    by (rule changes_put(2)[OF _ changes_put(2)[OF _ changes_put(1)[OF _ c1]]]) (use hn set in auto)
  moreover have "nd_live ?s3 = nd_live s" "nd_fresh ?s3 = nd_fresh s" "nd_size ?s3 = nd_size s" "nd_value ?s3 = nd_value s"
    using s1(3) by (simp_all add: kept_def)
  ultimately show ?thesis using rb(2) ok set by (auto simp: dl.step_def list_ok_def nd_strays_def)
qed

section \<open>Merging two lists\<close>

lemma fwd_closed: "fwd s (xs @ [e]) \<Longrightarrow> x \<in> set xs \<Longrightarrow> nd_next s x \<in> insert e (set xs)"
proof (induction xs)
  case (Cons a xs)
  have n: "nd_next s a = hd (xs @ [e])" "fwd s (xs @ [e])" using iffD1[OF fwd_Cons] Cons.prems(1) by (metis append_Cons)+
  show ?case
  proof (cases "x = a")
    case True
    then show ?thesis using n(1) by (cases xs) auto
  next
    case False
    then show ?thesis using Cons.IH n(2) Cons.prems(2) by auto
  qed
qed simp

text \<open>
  The store at the call of \<^verbatim>\<open>_rebuild_tail\<close>: the nodes of both lists are merged behind the header, and the last of them is linked to
  the header of the list it comes from.
\<close>

definition merge_relinked :: "addr \<Rightarrow> addr \<Rightarrow> 'v nodes \<Rightarrow> addr list \<Rightarrow> addr list \<Rightarrow> addr list \<Rightarrow> addr \<Rightarrow> 'v nodes \<Rightarrow> bool" where
  "merge_relinked h k s xs ys ns e s' \<longleftrightarrow> ns \<noteq> [] \<and> set ns = set xs \<union> set ys \<and> distinct (h # k # ns) \<and> length ns = length xs + length ys
     \<and> fwd s' (h # ns @ [e]) \<and> bwd s' (h # ns) \<and> nd_next s' k = hd ys \<and> kept (insert h (set ns)) s s'"

definition merge_finish :: "addr \<Rightarrow> addr \<Rightarrow> 'v nodes \<Rightarrow> 'v nodes option" where
  "merge_finish h k s = Option.bind (ls_rebuild_tail h s) (\<lambda>s. Some (put_size k 0 (put_next k k (put_prev k k
     (put_size h (nd_size s h + nd_size s k) s)))))"

lemma merge_relinks:
  fixes lt :: "'v \<Rightarrow> 'v \<Rightarrow> bool" and s :: "'v nodes"
  assumes p: "dl.pair h k s xs ys" and ys: "ys \<noteq> []"
  defines "L \<equiv> \<lambda>a b. lt (nd_value s a) (nd_value s b)"
  shows "\<exists>s2. ls_merge h lt k s = merge_finish h k s2
    \<and> merge_relinked h k s xs ys (list_merge L xs ys) (if merge_rest L xs ys \<noteq> [] then h else k) s2"
proof -
  have ok: "list_ok h s xs" "list_ok k s ys" and hk: "h \<noteq> k" using p by (auto simp: dl.pair_def)
  have d: "distinct (xs @ ys)" "h \<notin> set (xs @ ys)" "k \<notin> set (xs @ ys)" using p by (auto simp: dl.pair_def list_ok_def ring_def)
  note sx = ring_seg[OF ok(1)] and sy = ring_seg[OF ok(2)]
  have f: "fwd s (xs @ [h])" "fwd s (ys @ [k])" using sx sy by (simp_all add: seg_def)
  have h: "h \<notin> set xs" "k \<notin> set ys" using d by simp_all
  obtain E as' bs' s1 where m: "ls_merge_loop h k lt (hd (xs @ [h])) (hd (ys @ [k])) h s = Some (hd (as' @ [h]), hd (bs' @ [k]), last (h # E), s1)"
    "list_merge L xs ys = E @ as' @ bs'" "as' = merge_rest L xs ys" "as' = [] \<or> bs' = []" "as' @ bs' \<noteq> []" "suffix as' xs" "suffix bs' ys"
    "fwd s1 (h # E)" "bwd s1 (h # E)" "nd_value s1 = nd_value s" "nd_live s1 = nd_live s" "nd_size s1 = nd_size s" "nd_fresh s1 = nd_fresh s"
    "\<And>x. x \<notin> set (butlast (h # E)) \<Longrightarrow> nd_next s1 x = nd_next s x" "\<And>x. x \<notin> set E \<Longrightarrow> nd_prev s1 x = nd_prev s x"
    using merge_loop[OF f d(1,2) h refl] ys unfolding L_def by blast
  have b: "nd_next s h = hd (xs @ [h])" "nd_next s k = hd (ys @ [k])" using ok begin_list(1) by (auto simp: list_ok_def)
  have em: "\<not> ls_is_empty k s" using empty_ring[OF ok(2)] ys by (simp add: ls_is_empty_def)
  define R where "R = as' @ bs'"
  let ?e = "if merge_rest L xs ys \<noteq> [] then h else k"
  have set_ns: "set (E @ R) = set xs \<union> set ys" "distinct (E @ R)"
    using list_merge_set[of L xs ys] mset_eq_imp_distinct_iff[of "E @ R" "xs @ ys"] list_merge_mset[of L xs ys] d(1) unfolding m(2) R_def by auto
  have dis: "distinct (h # E @ R)" "h \<notin> set (E @ R)" "k \<notin> set (E @ R)" "R \<noteq> []" using set_ns d m(5) by (auto simp: R_def)
  have out: "x \<notin> set (butlast (h # E))" "x \<notin> set E" if "x \<in> set R" for x
    using that set_ns dis by (auto dest: in_set_butlastD split: if_splits)
  have e: "fwd s (R @ [?e])" "bwd s R" "?e \<notin> set (E @ R)"
    using m(3,4) fwd_suffix[OF f(1) m(6)] fwd_suffix[OF f(2) m(7)] bwd_suffix[OF _ m(6)] bwd_suffix[OF _ m(7)] sx sy dis(2,3)
    unfolding R_def seg_def by auto
  define t where "t = last (h # E)"
  define s2 where "s2 = put_prev (hd R) t (put_next t (hd R) s1)"
  have rem: "(if hd (as' @ [h]) \<noteq> h then hd (as' @ [h]) else hd (bs' @ [k])) = hd R"
    using m(4,5) dis(2) by (cases as'; cases bs') (auto simp: R_def)
  have run: "ls_merge h lt k s = merge_finish h k s2"
    using m(1)[folded t_def] hk em b rem by (simp add: ls_merge_def merge_finish_def Let_def s2_def)
  have "fwd s1 (R @ [?e]) = fwd s (R @ [?e])" by (rule fwd_cong) (use m(14) out(1) in auto)
  moreover have "bwd s1 R = bwd s R" by (rule bwd_cong) (use m(15) out(2) in \<open>auto dest: in_set_tl\<close>)
  ultimately have "fwd s1 (R @ [?e])" "bwd s1 R" using e by simp_all
  then have chain: "fwd s2 (h # E @ R @ [?e])" "bwd s2 (h # E @ R)"
    using append_rest[OF m(8,9) _ _ dis(1) e(3) dis(4)] unfolding s2_def t_def by blast+
  have "k \<notin> set (butlast (h # E))" "k \<noteq> t"
    using hk dis(3) last_in_set[of "h # E"] by (auto simp: t_def dest: in_set_butlastD split: if_splits)
  then have nk: "nd_next s2 k = hd ys" using m(14) b(2) ys by (simp add: s2_def)
  let ?A = "insert h (set (E @ R))"
  have "changes ?A s s1"
  proof -
    have "nd_next s1 q = nd_next s q" "nd_prev s1 q = nd_prev s q" if "q \<notin> ?A" for q
    proof -
      have "q \<notin> set (butlast (h # E))" "q \<notin> set E" using that by (auto dest: in_set_butlastD split: if_splits)
      then show "nd_next s1 q = nd_next s q" "nd_prev s1 q = nd_prev s q" using m(14,15) by blast+
    qed
    then show ?thesis using m(10-13) by (simp add: changes_def)
  qed
  moreover have "t \<in> ?A" using last_in_set[of "h # E"] by (auto simp: t_def)
  moreover have "hd R \<in> ?A" using hd_in_set[OF dis(4)] by auto
  ultimately have "changes ?A s s2" unfolding s2_def by (intro changes_put(2) changes_put(1))
  then have "kept ?A s s2" using m(10-13) by (simp add: kept_def s2_def)
  moreover have "length (E @ R) = length xs + length ys" using arg_cong[OF m(2), of length] by (simp add: R_def)
  moreover have "list_merge L xs ys = E @ R" using m(2) by (simp add: R_def)
  moreover have "distinct (h # k # E @ R)" using dis hk by simp
  ultimately have "merge_relinked h k s xs ys (list_merge L xs ys) ?e s2"
    using set_ns chain nk dis(4) d unfolding merge_relinked_def by simp
  then show ?thesis using run by blast
qed

lemma merge_step:
  assumes p: "dl.pair h k s xs ys" and ys: "ys \<noteq> []"
    and r: "merge_rest lt (map (nd_value s) xs) (map (nd_value s) ys) \<noteq> []"
  defines "ns \<equiv> list_merge (\<lambda>a b. lt (nd_value s a) (nd_value s b)) xs ys"
  shows "\<exists>s'. ls_merge h lt k s = Some s' \<and> dl.step2 h k s xs ys s' ns [] \<and> nd_value s' = nd_value s"
proof -
  have ok: "list_ok h s xs" "list_ok k s ys" using p by (auto simp: dl.pair_def)
  have "merge_rest (\<lambda>a b. lt (nd_value s a) (nd_value s b)) xs ys \<noteq> []" using r merge_rest_map[of "nd_value s" lt xs ys] by auto
  then obtain s2 where s2: "ls_merge h lt k s = merge_finish h k s2" "merge_relinked h k s xs ys ns h s2"
    using merge_relinks[OF p ys, of lt] unfolding ns_def by auto
  then have c: "fwd s2 (h # ns @ [h])" "bwd s2 (h # ns)" "distinct (h # ns)" "ns \<noteq> []" and d: "h \<noteq> k" "k \<notin> set ns" "h \<notin> set ns"
    and kept: "changes (insert h (set ns)) s s2" "nd_value s2 = nd_value s" "nd_live s2 = nd_live s" "nd_size s2 = nd_size s" "nd_fresh s2 = nd_fresh s"
    and set: "set ns = set xs \<union> set ys" "length ns = length xs + length ys"
    unfolding merge_relinked_def kept_def distinct.simps list.set by blast+
  note rb = rebuild_ring[OF c]
  let ?s3 = "put_prev h (last ns) s2"
  let ?s4 = "put_size k 0 (put_next k k (put_prev k k (put_size h (nd_size ?s3 h + nd_size ?s3 k) ?s3)))"
  have "ring h ?s4 ns = ring h ?s3 ns" by (rule ring_cong) (use d in auto)
  then have "ring h ?s4 ns" "ring k ?s4 []" using rb(2) by (simp_all add: ring_def)
  moreover have "nd_size ?s4 h = length ns" "nd_live ?s4 = nd_live s" "nd_fresh ?s4 = nd_fresh s" "nd_size ?s4 k = 0"
    using ok kept d set(2) by (simp_all add: list_ok_def)
  moreover have "nd_live s x \<and> x < nd_fresh s \<and> x \<noteq> null" if "x \<in> set ns" for x
    using that set(1) ok by (auto simp: list_ok_def)
  ultimately have p4: "dl.pair h k ?s4 ns []" using ok d unfolding dl.pair_def list_ok_def by simp
  have c4: "changes ({h, k} \<union> set xs \<union> set ys) s ?s4"
  proof -
    have "changes ({h, k} \<union> set xs \<union> set ys) s s2" by (rule changes_mono[OF kept(1)]) (use set(1) in auto)
    then show ?thesis by (intro changes_put(3) changes_put(2) changes_put(1)) auto
  qed
  have s4: "nd_strays ?s4 (set ns \<union> set []) = nd_strays s (set xs \<union> set ys)"
    using set(1) kept by (simp add: nd_strays_def)
  have "set ns \<union> set [] \<subseteq> set xs \<union> set ys \<union> {nd_fresh s..}" using set(1) by simp
  then have "dl.step2 h k s xs ys ?s4 ns []" unfolding dl.step2_def by (intro conjI p4 c4 s4)
  moreover have "ls_merge h lt k s = Some ?s4" using s2(1) rb(1) by (simp add: merge_finish_def)
  moreover have "nd_value ?s4 = nd_value s" using kept by simp
  ultimately show ?thesis by blast
qed

lemma merge_diverges:
  assumes p: "dl.pair h k s xs ys" and ys: "ys \<noteq> []"
    and r: "merge_rest lt (map (nd_value s) xs) (map (nd_value s) ys) = []"
  shows "ls_merge h lt k s = None"
proof -
  let ?L = "\<lambda>a b. lt (nd_value s a) (nd_value s b)"
  let ?ns = "list_merge ?L xs ys"
  have "merge_rest ?L xs ys = []" using r merge_rest_map[of "nd_value s" lt xs ys] by simp
  then obtain s2 where s2: "ls_merge h lt k s = merge_finish h k s2" "merge_relinked h k s xs ys ?ns k s2"
    using merge_relinks[OF p ys, of lt] by auto
  have d: "h \<noteq> k" "h \<notin> set ?ns" "?ns \<noteq> []" and set: "set ?ns = set xs \<union> set ys" and k: "nd_next s2 k = hd ys"
    and c: "fwd s2 (h # ?ns @ [k])" using s2(2) by (auto simp: merge_relinked_def)
  have n: "nd_next s2 h = hd ?ns" "fwd s2 (?ns @ [k])" using iffD1[OF fwd_Cons c] d(3) by simp_all
  let ?S = "insert k (set ?ns)"
  have "hd ys \<in> ?S" using set ys by simp
  then have "nd_next s2 x \<in> ?S" if "x \<in> ?S" for x
    using that fwd_closed[OF n(2), of x] k by (cases "x = k") simp_all
  moreover have "h \<notin> ?S" using d by simp
  moreover have "nd_next s2 h \<in> ?S" using n(1) hd_in_set[OF d(3)] by simp
  ultimately have "ls_find_tail h (nd_next s2 h) s2 = None" by (rule find_tail_None)
  then show ?thesis using s2(1) by (simp add: merge_finish_def ls_rebuild_tail_def)
qed

end
