(* ===== verification/LListProg.thy ===== *)
theory LListProg
  imports LListSort
begin

text \<open>
  Programs over several doubly linked lists in one store, and the same programs on plain lists of values. A position in a list is
  the iterator reached from \<^verbatim>\<open>begin()\<close> by that many increments. An answer is a number and the values that an
  iteration reads.
\<close>

section \<open>Iterators\<close>

definition it_deref :: "'v nodes \<Rightarrow> addr \<Rightarrow> 'v" where
  "it_deref s it = nd_value s it"

definition it_inc :: "'v nodes \<Rightarrow> addr \<Rightarrow> addr" where
  "it_inc s it = nd_next s it"

definition it_dec :: "'v nodes \<Rightarrow> addr \<Rightarrow> addr" where
  "it_dec s it = nd_prev s it"

text \<open>The loops of a client, from an iterator up to \<open>stop\<close>, and backwards with reverse iterators.\<close>

partial_function (option) ls_iterate :: "'v nodes \<Rightarrow> addr \<Rightarrow> addr \<Rightarrow> 'v list option" where
  "ls_iterate s it stop =
     (if it \<noteq> stop then Option.bind (ls_iterate s (it_inc s it) stop) (\<lambda>vals. Some (it_deref s it # vals)) else Some [])"

partial_function (option) ls_iterate_back :: "'v nodes \<Rightarrow> addr \<Rightarrow> addr \<Rightarrow> 'v list option" where
  "ls_iterate_back s it stop =
     (if it \<noteq> stop then Option.bind (ls_iterate_back s (it_dec s it) stop) (\<lambda>vals. Some (it_deref s (it_dec s it) # vals)) else Some [])"

definition ls_at :: "addr \<Rightarrow> nat \<Rightarrow> 'v nodes \<Rightarrow> addr" where
  "ls_at h i s = ls_advance i s (ls_begin h s)"

declare ls_iterate.simps [code] ls_iterate_back.simps [code]

lemma iterate_list:
  "ring h s (A @ B) \<Longrightarrow> ls_iterate s (hd (B @ [h])) h = Some (map (nd_value s) B)"
proof (induction B arbitrary: A)
  case Nil
  show ?case by (simp add: ls_iterate.simps)
next
  case (Cons b B)
  have r: "ring h s ((A @ [b]) @ B)" and bh: "b \<noteq> h" using Cons.prems by (auto simp: ring_def)
  have "it_inc s b = hd (B @ [h])" using ring_neighbours(1)[OF r] by (simp add: it_inc_def)
  then show ?case using Cons.IH[OF r] bh by (subst ls_iterate.simps) (simp add: it_deref_def)
qed

lemma iterate_back_list:
  "ring h s (A @ B) \<Longrightarrow> ls_iterate_back s (hd (B @ [h])) (hd (A @ B @ [h])) = Some (rev (map (nd_value s) A))"
proof (induction A arbitrary: B rule: rev_induct)
  case Nil
  show ?case by (simp add: ls_iterate_back.simps)
next
  case (snoc a A)
  have r: "ring h s ((A @ [a]) @ B)" "ring h s (A @ a # B)" using snoc.prems by simp_all
  have "it_dec s (hd (B @ [h])) = a" using ring_neighbours(2)[OF r(1)] by (simp add: it_dec_def)
  moreover have "hd (B @ [h]) \<noteq> hd (A @ a # B @ [h])"
    using r(1) by (cases A; cases B) (auto simp: ring_def)
  ultimately show ?case using snoc.IH[OF r(2)] by (subst ls_iterate_back.simps) (simp add: it_deref_def)
qed

lemma at_list:
  assumes "list_ok h s (A @ B)"
  shows "ls_at h (length A) s = hd (B @ [h])"
  using advance_begin_list[OF assms] by (simp add: ls_at_def)

lemma at_index:
  assumes "list_ok h s xs" "i \<le> length xs"
  shows "ls_at h i s = hd (drop i xs @ [h])"
  using at_list[of h s "take i xs" "drop i xs"] assms by simp

section \<open>Operations\<close>

datatype 'v list_op =
    Assign addr "'v list"
  | Assign_count addr nat 'v
  | Clear addr
  | Insert addr nat "'v list"
  | Insert_count addr nat nat 'v
  | Insert_one addr nat 'v
  | Emplace addr nat 'v
  | Push_front addr 'v
  | Push_back addr 'v
  | Emplace_front addr 'v
  | Emplace_back addr 'v
  | Pop_front addr
  | Pop_back addr
  | Erase addr nat
  | Erase_range addr nat nat
  | Resize addr nat 'v
  | Copy addr addr
  | Move addr addr
  | Swap addr addr
  | Reverse addr
  | Remove addr 'v
  | Remove_if addr "'v \<Rightarrow> bool"
  | Unique addr "'v \<Rightarrow> 'v \<Rightarrow> bool"
  | Merge addr addr "'v \<Rightarrow> 'v \<Rightarrow> bool"
  | Sort addr "'v \<Rightarrow> 'v \<Rightarrow> bool"
  | Splice addr nat addr
  | Splice_one addr nat addr nat
  | Splice_range addr nat addr nat nat
  | Front addr
  | Back addr
  | Count addr
  | Is_empty addr
  | Iterate addr
  | Iterate_back addr

text \<open>An operation that returns an iterator, and the values from there to the end.\<close>

definition from_here :: "addr \<Rightarrow> (addr \<times> 'v nodes) option \<Rightarrow> (('v answer) \<times> 'v nodes) option" where
  "from_here h r = Option.bind r (\<lambda>(it, s). map_option (\<lambda>vals. ((0, vals), s)) (ls_iterate s it h))"

fun ls_do :: "'v list_op \<Rightarrow> 'v nodes \<Rightarrow> ('v answer \<times> 'v nodes) option" where
  "ls_do (Assign h vals) s = Option.bind (ls_assign_list h vals s) quiet"
| "ls_do (Assign_count h n val) s = Option.bind (ls_assign_count h n val s) quiet"
| "ls_do (Clear h) s = Option.bind (ls_destroy_all h s) quiet"
| "ls_do (Insert h i vals) s = from_here h (Some (ls_insert_list h (ls_at h i s) vals s))"
| "ls_do (Insert_count h i n val) s = from_here h (Some (ls_insert_count h (ls_at h i s) n val s))"
| "ls_do (Insert_one h i val) s = from_here h (Some (ls_insert h (ls_at h i s) val s))"
| "ls_do (Emplace h i val) s = from_here h (Some (ls_emplace h (ls_at h i s) val s))"
| "ls_do (Push_front h val) s = quiet (ls_push_front h val s)"
| "ls_do (Push_back h val) s = quiet (ls_push_back h val s)"
| "ls_do (Emplace_front h val) s = (let (n, s) = ls_emplace_front h val s in Some ((0, [it_deref s n]), s))"
| "ls_do (Emplace_back h val) s = (let (n, s) = ls_emplace_back h val s in Some ((0, [it_deref s n]), s))"
| "ls_do (Pop_front h) s = quiet (ls_pop_front h s)"
| "ls_do (Pop_back h) s = quiet (ls_pop_back h s)"
| "ls_do (Erase h i) s = from_here h (Some (ls_erase h (ls_at h i s) s))"
| "ls_do (Erase_range h i j) s = from_here h (ls_erase_range h (ls_at h i s) (ls_at h j s) s)"
| "ls_do (Resize h n val) s = Option.bind (ls_resize h n val s) quiet"
| "ls_do (Copy h k) s = Option.bind (ls_copy_assign h k s) quiet"
| "ls_do (Move h k) s = Option.bind (ls_move_assign h k s) quiet"
| "ls_do (Swap h k) s = quiet (ls_swap h k s)"
| "ls_do (Reverse h) s = Option.bind (ls_reverse h s) quiet"
| "ls_do (Remove h val) s = counted (ls_remove h val s)"
| "ls_do (Remove_if h P) s = counted (ls_remove_if h P s)"
| "ls_do (Unique h P) s = counted (ls_unique h P s)"
| "ls_do (Merge h k lt) s = Option.bind (ls_merge h lt k s) quiet"
| "ls_do (Sort h lt) s = Option.bind (ls_sort h lt s) quiet"
| "ls_do (Splice h i k) s = quiet (ls_splice h (ls_at h i s) k s)"
| "ls_do (Splice_one h i k j) s = quiet (ls_splice_one h (ls_at h i s) k (ls_at k j s) s)"
| "ls_do (Splice_range h i k j l) s = Option.bind (ls_splice_range h (ls_at h i s) k (ls_at k j s) (ls_at k l s) s) quiet"
| "ls_do (Front h) s = Some ((0, [ls_front h s]), s)"
| "ls_do (Back h) s = Some ((0, [ls_back h s]), s)"
| "ls_do (Count h) s = Some ((nd_size s h, []), s)"
| "ls_do (Is_empty h) s = Some ((if ls_is_empty h s then 1 else 0, []), s)"
| "ls_do (Iterate h) s = map_option (\<lambda>vals. ((0, vals), s)) (ls_iterate s (ls_begin h s) (ls_end h s))"
| "ls_do (Iterate_back h) s = map_option (\<lambda>vals. ((0, vals), s)) (ls_iterate_back s (ls_end h s) (ls_begin h s))"

section \<open>The same on values\<close>

text \<open>The elements \<open>j\<close> to \<open>l\<close> of a list moved in front of the element \<open>i\<close> of the same list.\<close>

definition list_rotate :: "nat \<Rightarrow> nat \<Rightarrow> nat \<Rightarrow> 'v list \<Rightarrow> 'v list" where
  "list_rotate i j l vs =
     (if i < j then take i vs @ take (l - j) (drop j vs) @ take (j - i) (drop i vs) @ drop l vs
      else take j vs @ take (i - l) (drop l vs) @ take (l - j) (drop j vs) @ drop i vs)"

definition spliced :: "addr \<Rightarrow> nat \<Rightarrow> addr \<Rightarrow> nat \<Rightarrow> nat \<Rightarrow> (addr \<Rightarrow> 'v list) \<Rightarrow> addr \<Rightarrow> 'v list" where
  "spliced h i k j l m =
     (if h = k then if j = l then m else m(h := list_rotate i j l (m h))
      else m(h := take i (m h) @ take (l - j) (drop j (m k)) @ drop i (m h), k := take j (m k) @ drop l (m k)))"

fun values_do :: "'v list_op \<Rightarrow> (addr \<Rightarrow> 'v list) \<Rightarrow> 'v answer \<times> (addr \<Rightarrow> 'v list)" where
  "values_do (Assign h vals) m = ((0, []), m(h := vals))"
| "values_do (Assign_count h n val) m = ((0, []), m(h := replicate n val))"
| "values_do (Clear h) m = ((0, []), m(h := []))"
| "values_do (Insert h i vals) m = ((0, vals @ drop i (m h)), m(h := take i (m h) @ vals @ drop i (m h)))"
| "values_do (Insert_count h i n val) m = ((0, replicate n val @ drop i (m h)), m(h := take i (m h) @ replicate n val @ drop i (m h)))"
| "values_do (Insert_one h i val) m = ((0, val # drop i (m h)), m(h := take i (m h) @ val # drop i (m h)))"
| "values_do (Emplace h i val) m = ((0, val # drop i (m h)), m(h := take i (m h) @ val # drop i (m h)))"
| "values_do (Push_front h val) m = ((0, []), m(h := val # m h))"
| "values_do (Push_back h val) m = ((0, []), m(h := m h @ [val]))"
| "values_do (Emplace_front h val) m = ((0, [val]), m(h := val # m h))"
| "values_do (Emplace_back h val) m = ((0, [val]), m(h := m h @ [val]))"
| "values_do (Pop_front h) m = ((0, []), m(h := tl (m h)))"
| "values_do (Pop_back h) m = ((0, []), m(h := butlast (m h)))"
| "values_do (Erase h i) m = ((0, drop (Suc i) (m h)), m(h := take i (m h) @ drop (Suc i) (m h)))"
| "values_do (Erase_range h i j) m = ((0, drop j (m h)), m(h := take i (m h) @ drop j (m h)))"
| "values_do (Resize h n val) m = ((0, []), m(h := take n (m h) @ replicate (n - length (m h)) val))"
| "values_do (Copy h k) m = ((0, []), m(h := m k))"
| "values_do (Move h k) m = ((0, []), if h = k then m else m(h := m k, k := []))"
| "values_do (Swap h k) m = ((0, []), m(h := m k, k := m h))"
| "values_do (Reverse h) m = ((0, []), m(h := rev (m h)))"
| "values_do (Remove h val) m = ((length (filter (\<lambda>v. v = val) (m h)), []), m(h := filter (\<lambda>v. v \<noteq> val) (m h)))"
| "values_do (Remove_if h P) m = ((length (filter P (m h)), []), m(h := filter (\<lambda>v. \<not> P v) (m h)))"
| "values_do (Unique h P) m = ((length (m h) - length (list_unique P (m h)), []), m(h := list_unique P (m h)))"
| "values_do (Merge h k lt) m = ((0, []), if h = k then m else m(h := list_merge lt (m h) (m k), k := []))"
| "values_do (Sort h lt) m = ((0, []), m(h := list_sort lt (m h)))"
| "values_do (Splice h i k) m = ((0, []), m(h := take i (m h) @ m k @ drop i (m h), k := []))"
| "values_do (Splice_one h i k j) m = ((0, []), spliced h i k j (Suc j) m)"
| "values_do (Splice_range h i k j l) m = ((0, []), spliced h i k j l m)"
| "values_do (Front h) m = ((0, [hd (m h)]), m)"
| "values_do (Back h) m = ((0, [last (m h)]), m)"
| "values_do (Count h) m = ((length (m h), []), m)"
| "values_do (Is_empty h) m = ((if m h = [] then 1 else 0, []), m)"
| "values_do (Iterate h) m = ((0, m h), m)"
| "values_do (Iterate_back h) m = ((0, rev (m h)), m)"

text \<open>
  The contract: iterators of the list they are used with, elements where one is removed or read, no list spliced into itself as a
  whole, no range spliced into itself, and the merges that return.
\<close>

fun list_pre :: "addr set \<Rightarrow> 'v list_op \<Rightarrow> (addr \<Rightarrow> 'v list) \<Rightarrow> bool" where
  "list_pre H (Assign h vals) m = (h \<in> H)"
| "list_pre H (Assign_count h n val) m = (h \<in> H)"
| "list_pre H (Clear h) m = (h \<in> H)"
| "list_pre H (Insert h i vals) m = (h \<in> H \<and> i \<le> length (m h))"
| "list_pre H (Insert_count h i n val) m = (h \<in> H \<and> i \<le> length (m h))"
| "list_pre H (Insert_one h i val) m = (h \<in> H \<and> i \<le> length (m h))"
| "list_pre H (Emplace h i val) m = (h \<in> H \<and> i \<le> length (m h))"
| "list_pre H (Push_front h val) m = (h \<in> H)"
| "list_pre H (Push_back h val) m = (h \<in> H)"
| "list_pre H (Emplace_front h val) m = (h \<in> H)"
| "list_pre H (Emplace_back h val) m = (h \<in> H)"
| "list_pre H (Pop_front h) m = (h \<in> H \<and> m h \<noteq> [])"
| "list_pre H (Pop_back h) m = (h \<in> H \<and> m h \<noteq> [])"
| "list_pre H (Erase h i) m = (h \<in> H \<and> i < length (m h))"
| "list_pre H (Erase_range h i j) m = (h \<in> H \<and> i \<le> j \<and> j \<le> length (m h))"
| "list_pre H (Resize h n val) m = (h \<in> H)"
| "list_pre H (Copy h k) m = (h \<in> H \<and> k \<in> H)"
| "list_pre H (Move h k) m = (h \<in> H \<and> k \<in> H)"
| "list_pre H (Swap h k) m = (h \<in> H \<and> k \<in> H)"
| "list_pre H (Reverse h) m = (h \<in> H)"
| "list_pre H (Remove h val) m = (h \<in> H)"
| "list_pre H (Remove_if h P) m = (h \<in> H)"
| "list_pre H (Unique h P) m = (h \<in> H)"
| "list_pre H (Merge h k lt) m = (h \<in> H \<and> k \<in> H \<and> (h = k \<or> m k = [] \<or> merge_rest lt (m h) (m k) \<noteq> []))"
| "list_pre H (Sort h lt) m = (h \<in> H)"
| "list_pre H (Splice h i k) m = (h \<in> H \<and> k \<in> H \<and> h \<noteq> k \<and> i \<le> length (m h))"
| "list_pre H (Splice_one h i k j) m = (h \<in> H \<and> k \<in> H \<and> i \<le> length (m h) \<and> j < length (m k) \<and> (h = k \<longrightarrow> i \<noteq> j))"
| "list_pre H (Splice_range h i k j l) m = (h \<in> H \<and> k \<in> H \<and> i \<le> length (m h) \<and> j \<le> l \<and> l \<le> length (m k)
     \<and> (h = k \<longrightarrow> i < j \<or> l \<le> i))"
| "list_pre H (Front h) m = (h \<in> H \<and> m h \<noteq> [])"
| "list_pre H (Back h) m = (h \<in> H \<and> m h \<noteq> [])"
| "list_pre H (Count h) m = (h \<in> H)"
| "list_pre H (Is_empty h) m = (h \<in> H)"
| "list_pre H (Iterate h) m = (h \<in> H)"
| "list_pre H (Iterate_back h) m = (h \<in> H)"

end
