(* ===== verification/LListRefine.thy ===== *)
theory LListRefine
  imports LListProg
begin

text \<open>
  Every operation of a program over doubly linked lists does to the nodes what the value lists say, allocates what it links and frees what
  it drops: the lists are a \<open>node_program\<close>.
\<close>

definition refined :: "addr set \<Rightarrow> 'v nodes \<Rightarrow> (addr \<Rightarrow> addr list) \<Rightarrow> (addr \<Rightarrow> 'v list) \<Rightarrow> 'v list_op \<Rightarrow> bool" where
  "refined H s X m op \<longleftrightarrow> (\<exists>s' X'. ls_do op s = Some (fst (values_do op m), s') \<and> dl.group H s' X' (snd (values_do op m))
     \<and> nd_strays s' (dl.held H X') = nd_strays s (dl.held H X))"

lemma refined_same: "dl.group H s X m \<Longrightarrow> ls_do op s = Some (fst (values_do op m), s) \<Longrightarrow> snd (values_do op m) = m \<Longrightarrow> refined H s X m op"
  unfolding refined_def by auto

lemma refined_step:
  assumes "dl.group H s X m" "h \<in> H" "dl.step h s (X h) s' ys" "ls_do op s = Some (fst (values_do op m), s')"
    "snd (values_do op m) = m(h := map (nd_value s') ys)"
  shows "refined H s X m op"
  using dl.group_step_to[OF assms(1-3) refl] assms(4,5) unfolding refined_def by metis

lemma refined_step2:
  assumes "dl.group H s X m" "h \<in> H" "k \<in> H" "dl.step2 h k s (X h) (X k) s' ys zs" "ls_do op s = Some (fst (values_do op m), s')"
    "snd (values_do op m) = m(h := map (nd_value s') ys, k := map (nd_value s') zs)"
  shows "refined H s X m op"
  using dl.group_step2_to[OF assms(1-4) refl refl] assms(5,6) unfolding refined_def by metis

lemma group_list:
  assumes "dl.group H s X m" "h \<in> H"
  shows "list_ok h s (X h)" "map (nd_value s) (X h) = m h" "length (X h) = length (m h)"
    "map (nd_value s) (take i (X h)) = take i (m h)" "map (nd_value s) (drop i (X h)) = drop i (m h)"
proof -
  show "list_ok h s (X h)" and v: "map (nd_value s) (X h) = m h" using assms by (simp_all add: dl.group_def)
  show "length (X h) = length (m h)" "map (nd_value s) (take i (X h)) = take i (m h)" "map (nd_value s) (drop i (X h)) = drop i (m h)"
    unfolding v[symmetric] by (simp_all add: take_map drop_map)
qed

text \<open>Operations that return an iterator.\<close>

lemma from_here_list:
  assumes "list_ok h s' (A @ B)"
  shows "from_here h (Some (hd (B @ [h]), s')) = Some ((0, map (nd_value s') B), s')"
  using iterate_list[of h s' A B] assms by (simp add: from_here_def list_ok_def)

lemma map_after: "map f (A @ C) = P @ Q \<Longrightarrow> length A = length P \<Longrightarrow> map f C = Q"
  by simp

lemma map_before: "map f (A @ C) = P @ Q \<Longrightarrow> length C = length Q \<Longrightarrow> map f A = P"
  by simp

lemma refined_insert:
  assumes g: "dl.group H s X m" and h: "h \<in> H" "i \<le> length (m h)"
    and op: "ls_do op s = from_here h (Some (ls_insert_list h (ls_at h i s) vals s))"
    "values_do op m = ((0, vals @ drop i (m h)), m(h := take i (m h) @ vals @ drop i (m h)))"
  shows "refined H s X m op"
proof -
  note x = group_list[OF g h(1)]
  have ok: "list_ok h s (take i (X h) @ drop i (X h))" using x(1) by simp
  have p: "ls_at h i s = hd (drop i (X h) @ [h])" using at_index[OF x(1), of i] h(2) x(3) by simp
  obtain s' M where s': "ls_insert_list h (ls_at h i s) vals s = (hd (M @ drop i (X h) @ [h]), s')"
    "dl.step h s (X h) s' (take i (X h) @ M @ drop i (X h))"
    "map (nd_value s') (take i (X h) @ M @ drop i (X h)) = take i (m h) @ vals @ drop i (m h)"
    using insert_list_step[OF ok p, of vals] x(4,5)[of i] by auto
  have "map (nd_value s') (M @ drop i (X h)) = vals @ drop i (m h)"
    by (rule map_after[OF s'(3)]) (use x(3) in simp)
  then have "ls_do op s = Some ((0, vals @ drop i (m h)), s')"
    using op(1) s'(1) from_here_list[OF dl.step_ok[OF s'(2)]] by simp
  then show ?thesis using refined_step[OF g h(1) s'(2)] op(2) s'(3) by simp
qed

lemma refined_push:
  assumes g: "dl.group H s X m" and h: "h \<in> H" "i \<le> length (m h)"
    and e: "e = ls_insert_list h (ls_at h i s) [val] s"
  shows "\<exists>ys. dl.step h s (X h) (snd e) ys \<and> map (nd_value (snd e)) ys = take i (m h) @ val # drop i (m h) \<and> nd_value (snd e) (fst e) = val"
proof -
  note x = group_list[OF g h(1)]
  have ok: "list_ok h s (take i (X h) @ drop i (X h))" using x(1) by simp
  have p: "ls_at h i s = hd (drop i (X h) @ [h])" using at_index[OF x(1), of i] h(2) x(3) by simp
  obtain s' M where s': "e = (hd (M @ drop i (X h) @ [h]), s')" "dl.step h s (X h) s' (take i (X h) @ M @ drop i (X h))"
    "map (nd_value s') (take i (X h) @ M @ drop i (X h)) = take i (m h) @ [val] @ drop i (m h)"
    using insert_list_step[OF ok p, of "[val]"] x(4,5)[of i] e by auto
  have "map (nd_value s') (M @ drop i (X h)) = [val] @ drop i (m h)"
    by (rule map_after[OF s'(3)]) (use x(3) in simp)
  then have "map (nd_value s') M = [val]" by (rule map_before) (use x(3) in simp)
  then have "M \<noteq> []" "nd_value s' (hd M) = val" by auto
  then show ?thesis using s' by auto
qed

lemma at_ends:
  assumes "list_ok h s xs"
  shows "ls_at h 0 s = nd_next s h" "ls_at h (length xs) s = h"
  using at_list[of h s xs "[]"] assms by (simp_all add: ls_at_def ls_begin_def)

lemma refined_pushes:
  assumes g: "dl.group H s X m" and h: "h \<in> H"
  shows "refined H s X m (Push_front h val)" "refined H s X m (Push_back h val)"
    "refined H s X m (Emplace_front h val)" "refined H s X m (Emplace_back h val)"
proof -
  note x = group_list[OF g h]
  have hf: "h < nd_fresh s" using x(1) by (simp add: list_ok_def)
  note e = at_ends[OF x(1), unfolded x(3)]
  let ?f = "ls_insert_list h (nd_next s h) [val] s" and ?b = "ls_insert_list h h [val] s"
  obtain ys where f: "dl.step h s (X h) (snd ?f) ys" "map (nd_value (snd ?f)) ys = val # m h" "nd_value (snd ?f) (fst ?f) = val"
    using refined_push[OF g h, where i = 0 and val = val, OF _ refl] e(1) by auto
  obtain zs where b: "dl.step h s (X h) (snd ?b) zs" "map (nd_value (snd ?b)) zs = m h @ [val]" "nd_value (snd ?b) (fst ?b) = val"
    using refined_push[OF g h, where i = "length (m h)" and val = val, OF _ refl] e(2) by auto
  note one = insert_one[OF hf]
  show "refined H s X m (Push_front h val)"
    by (rule refined_step[OF g h f(1)]) (use f one in \<open>simp_all add: quiet_def ls_push_front_def ls_begin_def\<close>)
  show "refined H s X m (Push_back h val)"
    by (rule refined_step[OF g h b(1)]) (use b one in \<open>simp_all add: quiet_def ls_push_back_def ls_end_def\<close>)
  show "refined H s X m (Emplace_front h val)"
    by (rule refined_step[OF g h f(1)]) (use f one in \<open>simp_all add: it_deref_def case_prod_unfold\<close>)
  show "refined H s X m (Emplace_back h val)"
    by (rule refined_step[OF g h b(1)]) (use b one in \<open>simp_all add: it_deref_def case_prod_unfold\<close>)
qed

lemma erased_at:
  assumes g: "dl.group H s X m" and h: "h \<in> H" "i < length (m h)"
  shows "\<exists>s'. ls_erase h (X h ! i) s = (hd (drop (Suc i) (X h) @ [h]), s') \<and> dl.step h s (X h) s' (take i (X h) @ drop (Suc i) (X h))
    \<and> nd_value s' = nd_value s" "ls_at h i s = X h ! i"
proof -
  note x = group_list[OF g h(1)]
  have i: "i < length (X h)" using h(2) x(3) by simp
  then have "X h = take i (X h) @ X h ! i # drop (Suc i) (X h)" by (rule id_take_nth_drop)
  then show "\<exists>s'. ls_erase h (X h ! i) s = (hd (drop (Suc i) (X h) @ [h]), s') \<and> dl.step h s (X h) s' (take i (X h) @ drop (Suc i) (X h))
    \<and> nd_value s' = nd_value s" using erase_step[of h s "take i (X h)" "X h ! i" "drop (Suc i) (X h)"] x(1) by simp
  show "ls_at h i s = X h ! i" using at_index[OF x(1), of i] i by (simp add: Cons_nth_drop_Suc[symmetric])
qed

lemma refined_erase:
  assumes g: "dl.group H s X m" and h: "h \<in> H"
  shows "i < length (m h) \<Longrightarrow> refined H s X m (Erase h i)" "m h \<noteq> [] \<Longrightarrow> refined H s X m (Pop_front h)"
    "m h \<noteq> [] \<Longrightarrow> refined H s X m (Pop_back h)"
proof -
  note x = group_list[OF g h]
  show "refined H s X m (Erase h i)" if i: "i < length (m h)"
  proof -
    obtain s' where s': "ls_erase h (X h ! i) s = (hd (drop (Suc i) (X h) @ [h]), s')"
      "dl.step h s (X h) s' (take i (X h) @ drop (Suc i) (X h))" "nd_value s' = nd_value s" "ls_at h i s = X h ! i"
      using erased_at[OF g h i] by blast
    show ?thesis
      by (rule refined_step[OF g h s'(2)]) (use s' x from_here_list[OF dl.step_ok[OF s'(2)]] in simp_all)
  qed
  have r: "ring h s (X h)" using x(1) by (simp add: list_ok_def)
  show "refined H s X m (Pop_front h)" if ne: "m h \<noteq> []"
  proof -
    have i: "0 < length (m h)" using ne by simp
    obtain s' where s': "snd (ls_erase h (X h ! 0) s) = s'" "dl.step h s (X h) s' (drop 1 (X h))" "nd_value s' = nd_value s" "ls_at h 0 s = X h ! 0"
      using erased_at[OF g h i] by auto
    show ?thesis
      by (rule refined_step[OF g h s'(2)])
        (use s' x(5)[of 1] at_ends(1)[OF x(1)] in \<open>simp_all add: quiet_def ls_pop_front_def ls_begin_def drop_Suc\<close>)
  qed
  show "refined H s X m (Pop_back h)" if ne: "m h \<noteq> []"
  proof -
    let ?i = "length (m h) - 1"
    have i: "?i < length (m h)" using ne by simp
    have nx: "X h \<noteq> []" using ne x(3) by auto
    obtain s' where s': "snd (ls_erase h (X h ! ?i) s) = s'" "dl.step h s (X h) s' (take ?i (X h) @ drop (Suc ?i) (X h))" "nd_value s' = nd_value s"
      using erased_at[OF g h i] by auto
    have "drop (Suc ?i) (X h) = []" "take ?i (X h) = butlast (X h)" using x(3) ne by (simp_all add: butlast_conv_take)
    then have st: "dl.step h s (X h) s' (butlast (X h))" using s'(2) by simp
    have "nd_prev s h = X h ! ?i" using begin_list(2)[OF r] nx x(3) by (simp add: last_conv_nth)
    then show ?thesis
      by (intro refined_step[OF g h st])
        (use s' x(2) in \<open>simp_all add: quiet_def ls_pop_back_def ls_end_def map_butlast\<close>)
  qed
qed

lemma refined_erase_range:
  assumes g: "dl.group H s X m" and h: "h \<in> H" "i \<le> j" "j \<le> length (m h)"
  shows "refined H s X m (Erase_range h i j)"
proof -
  note x = group_list[OF g h(1)]
  let ?A = "take i (X h)" and ?M = "take (j - i) (drop i (X h))" and ?B = "drop j (X h)"
  have X: "X h = ?A @ ?M @ ?B" by (rule take_append_drop_mid) (use h x(3) in auto)
  then have MB: "drop i (X h) = ?M @ ?B" using h x(3) by (metis append_take_drop_id drop_drop le_add_diff_inverse2)
  have ok: "list_ok h s (?A @ ?M @ ?B)" using x(1) X by simp
  obtain s' where s': "ls_erase_range h (hd (?M @ ?B @ [h])) (hd (?B @ [h])) s = Some (hd (?B @ [h]), s')"
    "dl.step h s (?A @ ?M @ ?B) s' (?A @ ?B)" "nd_value s' = nd_value s" using erase_range_step[OF ok] by blast
  have at: "ls_at h i s = hd (?M @ ?B @ [h])" "ls_at h j s = hd (?B @ [h])"
    using at_index[OF x(1), of i] at_index[OF x(1), of j] h x(3) arg_cong[OF MB, of "\<lambda>l. hd (l @ [h])"] by simp_all
  have st: "dl.step h s (X h) s' (?A @ ?B)" using s'(2) X by simp
  show ?thesis
    by (rule refined_step[OF g h(1) st]) (use s' at x(4,5) from_here_list[OF dl.step_ok[OF st]] in simp_all)
qed

lemma refined_whole:
  assumes g: "dl.group H s X m" and h: "h \<in> H"
  shows "refined H s X m (Assign h vals)" "refined H s X m (Assign_count h n val)" "refined H s X m (Clear h)"
    "refined H s X m (Resize h n val)" "refined H s X m (Reverse h)" "refined H s X m (Sort h lt)"
    "refined H s X m (Remove_if h P)" "refined H s X m (Remove h val)" "refined H s X m (Unique h Q)"
proof -
  note x = group_list[OF g h]
  note by_step = refined_step[OF g h]
  obtain s1 ys1 where "ls_assign_list h vals s = Some s1" "dl.step h s (X h) s1 ys1" "map (nd_value s1) ys1 = vals"
    using assign_list_step[OF x(1)] by blast
  then show "refined H s X m (Assign h vals)" by (intro by_step) (auto simp: quiet_def)
  obtain s2 ys2 where "ls_assign_count h n val s = Some s2" "dl.step h s (X h) s2 ys2" "map (nd_value s2) ys2 = replicate n val"
    using assign_count_step[OF x(1)] by blast
  then show "refined H s X m (Assign_count h n val)" by (intro by_step) (auto simp: quiet_def)
  obtain s3 where "ls_destroy_all h s = Some s3" "dl.step h s (X h) s3 []" using destroy_all[OF x(1)] by blast
  then show "refined H s X m (Clear h)" by (intro by_step) (auto simp: quiet_def)
  obtain s4 ys4 where "ls_resize h n val s = Some s4" "dl.step h s (X h) s4 ys4"
    "map (nd_value s4) ys4 = take n (map (nd_value s) (X h)) @ replicate (n - length (X h)) val"
    using resize_step[OF x(1)] by blast
  then show "refined H s X m (Resize h n val)" using x(2,3) by (intro by_step) (auto simp: quiet_def)
  obtain s5 where "ls_reverse h s = Some s5" "dl.step h s (X h) s5 (rev (X h))" "nd_value s5 = nd_value s"
    using reverse_step[OF x(1)] by blast
  then show "refined H s X m (Reverse h)" using x(2) by (intro by_step) (auto simp: quiet_def rev_map[symmetric])
  obtain s6 where "ls_sort h lt s = Some s6" "nd_value s6 = nd_value s"
    "dl.step h s (X h) s6 (list_sort (\<lambda>a b. lt (nd_value s a) (nd_value s b)) (X h))"
    using sort_step[OF x(1), of lt] by blast
  then show "refined H s X m (Sort h lt)" using x(2) by (intro by_step) (auto simp: quiet_def list_sort_map)
  have r: "refined H s X m op" if "ls_do op s = counted (ls_remove_if h P s)"
    "values_do op m = ((length (filter P (m h)), []), m(h := filter (\<lambda>v. \<not> P v) (m h)))" for P op
  proof -
    obtain s7 ys7 where s7: "ls_remove_if h P s = Some (length (filter P (map (nd_value s) (X h))), s7)" "dl.step h s (X h) s7 ys7"
      "map (nd_value s7) ys7 = filter (\<lambda>v. \<not> P v) (map (nd_value s) (X h))"
      using remove_if_step[OF x(1)] by blast
    show ?thesis by (rule by_step[OF s7(2)]) (use s7(1,3)[unfolded x(2)] that in \<open>simp_all add: counted_def\<close>)
  qed
  show "refined H s X m (Remove_if h P)" by (rule r) simp_all
  show "refined H s X m (Remove h val)" by (rule r[where P = "\<lambda>v. v = val"]) (simp_all add: ls_remove_def)
  obtain s8 ys8 where s8: "ls_unique h Q s = Some (length (X h) - length (list_unique Q (map (nd_value s) (X h))), s8)" "dl.step h s (X h) s8 ys8"
    "map (nd_value s8) ys8 = list_unique Q (map (nd_value s) (X h))"
    using unique_step[OF x(1)] by blast
  show "refined H s X m (Unique h Q)"
    by (rule by_step[OF s8(2)]) (use s8(1,3)[unfolded x(2,3)] in \<open>simp_all add: counted_def\<close>)
qed

lemma refined_exchange:
  assumes g: "dl.group H s X m" and H: "h \<in> H" "k \<in> H"
  shows "refined H s X m (Copy h k)" "refined H s X m (Move h k)" "refined H s X m (Swap h k)"
proof -
  note x = group_list[OF g H(1)] and y = group_list[OF g H(2)]
  have "refined H s X m (Copy h k) \<and> refined H s X m (Move h k) \<and> refined H s X m (Swap h k)"
  proof (cases "h = k")
    case True
    then show ?thesis
      using g by (auto intro!: refined_same simp: ls_copy_assign_def ls_move_assign_def ls_swap_def quiet_def)
  next
    case False
    note p = dl.group_pair[OF g H False]
    obtain s1 zs where s1: "ls_copy_assign h k s = Some s1" "dl.step h s (X h) s1 zs" "map (nd_value s1) zs = map (nd_value s) (X k)"
      using copy_assign_step[OF p] by blast
    have "refined H s X m (Copy h k)"
      by (rule refined_step[OF g H(1) s1(2)]) (use s1 y in \<open>simp_all add: quiet_def\<close>)
    moreover obtain s2 where s2: "ls_move_assign h k s = Some s2" "dl.step2 h k s (X h) (X k) s2 (X k) []"
      "map (nd_value s2) (X k) = map (nd_value s) (X k)" using move_assign_step[OF p] by blast
    have "refined H s X m (Move h k)"
      by (rule refined_step2[OF g H s2(2)]) (use s2 y False in \<open>simp_all add: quiet_def\<close>)
    moreover have "refined H s X m (Swap h k)"
      by (rule refined_step2[OF g H swap_step(1)[OF p]]) (use swap_step(2)[OF p] x y in \<open>simp_all add: quiet_def\<close>)
    ultimately show ?thesis by blast
  qed
  then show "refined H s X m (Copy h k)" "refined H s X m (Move h k)" "refined H s X m (Swap h k)" by blast+
qed

lemma refined_merge:
  assumes g: "dl.group H s X m" and H: "h \<in> H" "k \<in> H" "h = k \<or> m k = [] \<or> merge_rest lt (m h) (m k) \<noteq> []"
  shows "refined H s X m (Merge h k lt)"
proof -
  note x = group_list[OF g H(1)] and y = group_list[OF g H(2)]
  consider "h = k" | "h \<noteq> k" "m k = []" | "h \<noteq> k" "m k \<noteq> []" "merge_rest lt (m h) (m k) \<noteq> []" using H(3) by blast
  then show ?thesis
  proof cases
    case 1
    then show ?thesis by (intro refined_same[OF g]) (simp_all add: ls_merge_def quiet_def)
  next
    case 2
    have "X k = []" using 2 y(3) by simp
    then have "ls_is_empty k s" using empty_ring[OF y(1)] by (simp add: ls_is_empty_def)
    moreover have "m(k := []) = m" using 2 by (metis fun_upd_triv)
    ultimately show ?thesis using 2 by (intro refined_same[OF g]) (auto simp: ls_merge_def quiet_def)
  next
    case 3
    have "X k \<noteq> []" using 3 y(3) by auto
    then obtain s1 where s1: "ls_merge h lt k s = Some s1" "nd_value s1 = nd_value s"
      "dl.step2 h k s (X h) (X k) s1 (list_merge (\<lambda>a b. lt (nd_value s a) (nd_value s b)) (X h) (X k)) []"
      using merge_step[OF dl.group_pair[OF g H(1,2) 3(1)], of lt] 3 x(2) y(2) by auto
    show ?thesis
      by (rule refined_step2[OF g H(1,2) s1(3)]) (use s1 3(1) x(2) y(2) in \<open>simp_all add: quiet_def list_merge_map\<close>)
  qed
qed

lemma refined_queries:
  assumes g: "dl.group H s X m" and h: "h \<in> H"
  shows "m h \<noteq> [] \<Longrightarrow> refined H s X m (Front h)" "m h \<noteq> [] \<Longrightarrow> refined H s X m (Back h)" "refined H s X m (Count h)"
    "refined H s X m (Is_empty h)" "refined H s X m (Iterate h)" "refined H s X m (Iterate_back h)"
proof -
  note x = group_list[OF g h]
  have r: "ring h s (X h)" and sz: "nd_size s h = length (m h)" using x(1,3) by (simp_all add: list_ok_def)
  note b = begin_list[OF r]
  have e: "X h = [] \<longleftrightarrow> m h = []" using x(3) by (metis length_0_conv)
  have ends: "ls_front h s = hd (m h)" "ls_back h s = last (m h)" if "m h \<noteq> []"
    using that e b arg_cong[OF x(2), of hd] arg_cong[OF x(2), of last] by (simp_all add: ls_front_def ls_back_def hd_map last_map)
  show "m h \<noteq> [] \<Longrightarrow> refined H s X m (Front h)" "m h \<noteq> [] \<Longrightarrow> refined H s X m (Back h)"
    using ends by (simp_all add: refined_same[OF g])
  show "refined H s X m (Count h)" using sz by (intro refined_same[OF g]) simp_all
  show "refined H s X m (Is_empty h)" using empty_ring[OF x(1)] e by (intro refined_same[OF g]) (simp_all add: ls_is_empty_def)
  have "ls_iterate s (ls_begin h s) (ls_end h s) = Some (m h)" "ls_iterate_back s (ls_end h s) (ls_begin h s) = Some (rev (m h))"
    using iterate_list[of h s "[]" "X h"] iterate_back_list[of h s "X h" "[]"] r b(1) x(2)
    by (simp_all add: ls_begin_def ls_end_def)
  then show "refined H s X m (Iterate h)" "refined H s X m (Iterate_back h)" by (auto intro!: refined_same[OF g])
qed

section \<open>Splices\<close>

lemma splice_lists:
  assumes g: "dl.group H s X m" and H: "h \<in> H" "k \<in> H" "h \<noteq> k" and i: "i \<le> length (m h)"
  shows "dl.pair h k s (take i (X h) @ drop i (X h)) (X k)" "ls_at h i s = hd (drop i (X h) @ [h])"
  using dl.group_pair[OF g H] at_index[OF group_list(1)[OF g H(1)], of i] i group_list(3)[OF g H(1)] by simp_all

lemma refined_splice:
  assumes g: "dl.group H s X m" and H: "h \<in> H" "k \<in> H" "h \<noteq> k" and i: "i \<le> length (m h)"
  shows "refined H s X m (Splice h i k)"
proof -
  note x = group_list[OF g H(1)] and y = group_list[OF g H(2)]
  note sp = splice_step[OF splice_lists[OF g H i]]
  have "dl.step2 h k s (X h) (X k) (ls_splice h (ls_at h i s) k s) (take i (X h) @ X k @ drop i (X h)) []" using sp(1) by simp
  then show ?thesis
    by (rule refined_step2[OF g H(1,2)]) (use sp(2) x y H(3) in \<open>simp_all add: quiet_def\<close>)
qed

text \<open>Where elements of a list go when they are moved within it.\<close>

lemma rotate_parts:
  assumes "i < j \<or> l \<le> i" "j \<le> l" "l \<le> length xs" "i \<le> length xs"
  defines "A \<equiv> if i < j then take i xs else take j xs @ take (i - l) (drop l xs)"
    and "B \<equiv> if i < j then take (j - i) (drop i xs) @ drop l xs else drop i xs"
  shows "take j xs @ drop l xs = A @ B" "list_rotate i j l xs = A @ take (l - j) (drop j xs) @ B"
    "hd (B @ [h]) = hd (drop i xs @ [h])"
proof -
  have e: "take j xs = take i xs @ take (j - i) (drop i xs)" if "i < j"
    using that by (metis less_imp_le_nat take_add le_add_diff_inverse)
  have f: "drop l xs = take (i - l) (drop l xs) @ drop i xs" if "l \<le> i"
    using that by (metis append_take_drop_id drop_drop le_add_diff_inverse2)
  show "take j xs @ drop l xs = A @ B" using e f assms(1) by (auto simp: A_def B_def)
  show "list_rotate i j l xs = A @ take (l - j) (drop j xs) @ B" by (simp add: A_def B_def list_rotate_def)
  have "hd (take (j - i) (drop i xs) @ drop l xs @ [h]) = hd (drop i xs @ [h])" if "i < j"
    using that assms(2,3) by (cases "drop i xs") (auto simp: take_Cons' drop_eq_Nil)
  then show "hd (B @ [h]) = hd (drop i xs @ [h])" by (simp add: B_def)
qed

lemma list_rotate_map: "map f (list_rotate i j l xs) = list_rotate i j l (map f xs)"
  by (simp add: list_rotate_def take_map drop_map)

lemma list_rotate_none: "list_rotate i j j vs = vs"
proof (cases "i < j")
  case True
  have "take i vs @ take (j - i) (drop i vs) = take j vs" using take_add[of i "j - i" vs] True by simp
  then have "take i vs @ take (j - i) (drop i vs) @ drop j vs = take j vs @ drop j vs" by (metis append_assoc)
  then show ?thesis using True by (simp add: list_rotate_def)
next
  case False
  have "take j vs @ take (i - j) (drop j vs) = take i vs" using take_add[of j "i - j" vs] False by simp
  then have "take j vs @ take (i - j) (drop j vs) @ drop i vs = take i vs @ drop i vs" by (metis append_assoc)
  then show ?thesis using False by (simp add: list_rotate_def)
qed

lemma list_parts:
  assumes "j \<le> l" "l \<le> length xs"
  shows "xs = take j xs @ take (l - j) (drop j xs) @ drop l xs" "drop j xs = take (l - j) (drop j xs) @ drop l xs"
proof -
  show xs: "xs = take j xs @ take (l - j) (drop j xs) @ drop l xs" by (rule take_append_drop_mid[OF assms])
  have "take j xs @ drop j xs = take j xs @ take (l - j) (drop j xs) @ drop l xs" using xs by simp
  then show "drop j xs = take (l - j) (drop j xs) @ drop l xs" by (simp only: append_same_eq same_append_eq)
qed

text \<open>A splice of the elements \<open>j\<close> to \<open>l\<close>, whatever the operation that does it.\<close>

lemma refined_spliced:
  assumes g: "dl.group H s X m" and H: "h \<in> H" "k \<in> H" and i: "i \<le> length (m h)" "j \<le> l" "l \<le> length (m k)" "h = k \<Longrightarrow> i < j \<or> l \<le> i"
    and op: "ls_do op s = Option.bind r quiet" "values_do op m = ((0, []), spliced h i k j l m)"
    and other: "\<And>A B C M D. h \<noteq> k \<Longrightarrow> dl.pair h k s (A @ B) (C @ M @ D) \<Longrightarrow> ls_at h i s = hd (B @ [h]) \<Longrightarrow> length M = l - j \<Longrightarrow>
      ls_at k j s = hd (M @ D @ [k]) \<Longrightarrow> ls_at k l s = hd (D @ [k]) \<Longrightarrow>
      \<exists>s'. r = Some s' \<and> dl.step2 h k s (A @ B) (C @ M @ D) s' (A @ M @ B) (C @ D) \<and> nd_value s' = nd_value s"
    and same: "\<And>A B C M D. h = k \<Longrightarrow> list_ok h s (C @ M @ D) \<Longrightarrow> C @ D = A @ B \<Longrightarrow> ls_at h i s = hd (B @ [h]) \<Longrightarrow> length M = l - j \<Longrightarrow>
      ls_at k j s = hd (M @ D @ [k]) \<Longrightarrow> ls_at k l s = hd (D @ [k]) \<Longrightarrow>
      \<exists>s'. r = Some s' \<and> dl.step h s (C @ M @ D) s' (A @ M @ B) \<and> nd_value s' = nd_value s"
  shows "refined H s X m op"
proof -
  note x = group_list[OF g H(1)] and y = group_list[OF g H(2)]
  let ?C = "take j (X k)" and ?M = "take (l - j) (drop j (X k))" and ?D = "drop l (X k)"
  have l: "j \<le> l" "l \<le> length (X k)" "i \<le> length (X h)" using i x(3) y(3) by simp_all
  note parts = list_parts[OF l(1,2)]
  have at: "ls_at h i s = hd (drop i (X h) @ [h])" "ls_at k j s = hd (?M @ ?D @ [k])" "ls_at k l s = hd (?D @ [k])"
    using at_index[OF x(1) l(3)] at_index[OF y(1), of j] at_index[OF y(1) l(2)] l(1,2)
      arg_cong[OF parts(2), of "\<lambda>xs. hd (xs @ [k])"] by simp_all
  have lM: "length ?M = l - j" using l by simp
  show ?thesis
  proof (cases "h = k")
    case False
    have p: "dl.pair h k s (take i (X h) @ drop i (X h)) (?C @ ?M @ ?D)"
      using dl.group_pair[OF g H False] parts(1) by simp
    obtain s' where o: "r = Some s'" "nd_value s' = nd_value s"
      "dl.step2 h k s (take i (X h) @ drop i (X h)) (?C @ ?M @ ?D) s' (take i (X h) @ ?M @ drop i (X h)) (?C @ ?D)"
      using other[OF False p at(1) lM at(2,3)] by blast
    have "dl.step2 h k s (X h) (X k) s' (take i (X h) @ ?M @ drop i (X h)) (?C @ ?D)" using o(3) parts(1) by simp
    then show ?thesis
      by (rule refined_step2[OF g H])
        (use o(1,2) False op x(2) y(2) in \<open>simp_all add: quiet_def spliced_def take_map[symmetric] drop_map[symmetric]\<close>)
  next
    case True
    have il: "i < j \<or> l \<le> i" using i(4) True by blast
    have l': "l \<le> length (X h)" using l(2) True by simp
    obtain A B where AB: "take j (X h) @ drop l (X h) = A @ B" "list_rotate i j l (X h) = A @ take (l - j) (drop j (X h)) @ B"
      "hd (B @ [h]) = hd (drop i (X h) @ [h])"
      using rotate_parts[OF il l(1) l' l(3)] by blast
    have ok: "list_ok h s (?C @ ?M @ ?D)" using x(1) parts(1) True by simp
    have "\<exists>s'. r = Some s' \<and> dl.step h s (?C @ ?M @ ?D) s' (A @ ?M @ B) \<and> nd_value s' = nd_value s"
      by (rule same[OF True ok _ _ lM at(2,3)]) (use AB at(1) True in simp_all)
    then obtain s' where o: "r = Some s'" "dl.step h s (?C @ ?M @ ?D) s' (A @ ?M @ B)" "nd_value s' = nd_value s" by blast
    then have st: "dl.step h s (X h) s' (list_rotate i j l (X h))" using parts(1) AB(2) True by simp
    have "spliced h i k j l m = m(h := list_rotate i j l (m h))"
      using True list_rotate_none[of i l "m h"] by (auto simp: spliced_def)
    then show ?thesis
      by (intro refined_step[OF g H(1) st]) (use o(1,3) op x(2) in \<open>simp_all add: quiet_def list_rotate_map\<close>)
  qed
qed

lemma refined_splice_one:
  assumes g: "dl.group H s X m" and H: "h \<in> H" "k \<in> H" and i: "i \<le> length (m h)" "j < length (m k)" "h = k \<Longrightarrow> i \<noteq> j"
  shows "refined H s X m (Splice_one h i k j)"
proof (rule refined_spliced[OF g H, where i = i and j = j and l = "Suc j"])
  let ?s = "ls_splice_one h (ls_at h i s) k (ls_at k j s) s"
  show "ls_do (Splice_one h i k j) s = Option.bind (Some ?s) quiet" by simp
  fix A B C M D :: "addr list"
  assume M: "length M = Suc j - j" "ls_at k j s = hd (M @ D @ [k])" "ls_at h i s = hd (B @ [h])"
  obtain a where a: "M = [a]" using M(1) by (cases M) auto
  show "\<exists>s'. Some ?s = Some s' \<and> dl.step2 h k s (A @ B) (C @ M @ D) s' (A @ M @ B) (C @ D) \<and> nd_value s' = nd_value s"
    if "dl.pair h k s (A @ B) (C @ M @ D)"
    using splice_one_step[of h k s A B C a D, OF _ M(3)] that M(2) a by simp
  show "\<exists>s'. Some ?s = Some s' \<and> dl.step h s (C @ M @ D) s' (A @ M @ B) \<and> nd_value s' = nd_value s"
    if "h = k" "list_ok h s (C @ M @ D)" "C @ D = A @ B"
    using splice_one_same[of h s C a D A B, OF _ that(3) M(3)] that M(2) a by simp
qed (use i in auto)

lemma refined_splice_range:
  assumes g: "dl.group H s X m" and H: "h \<in> H" "k \<in> H"
    and i: "i \<le> length (m h)" "j \<le> l" "l \<le> length (m k)" "h = k \<Longrightarrow> i < j \<or> l \<le> i"
  shows "refined H s X m (Splice_range h i k j l)"
proof (rule refined_spliced[OF g H i(1-3) i(4)])
  show "ls_do (Splice_range h i k j l) s = Option.bind (ls_splice_range h (ls_at h i s) k (ls_at k j s) (ls_at k l s) s) quiet" by simp
  fix A B C M D :: "addr list"
  assume M: "ls_at k j s = hd (M @ D @ [k])" "ls_at k l s = hd (D @ [k])" "ls_at h i s = hd (B @ [h])"
  let ?r = "ls_splice_range h (ls_at h i s) k (ls_at k j s) (ls_at k l s) s"
  show "\<exists>s'. ?r = Some s' \<and> dl.step2 h k s (A @ B) (C @ M @ D) s' (A @ M @ B) (C @ D) \<and> nd_value s' = nd_value s"
    if "dl.pair h k s (A @ B) (C @ M @ D)" using splice_range_step[OF that M(3)] M(1,2) by simp
  show "\<exists>s'. ?r = Some s' \<and> dl.step h s (C @ M @ D) s' (A @ M @ B) \<and> nd_value s' = nd_value s"
    if "h = k" "list_ok h s (C @ M @ D)" "C @ D = A @ B" using splice_range_same[OF that(2,3) M(3)] M(1,2) that(1) by simp
qed auto

lemma values_do_refined:
  assumes "dl.group H s X m" "list_pre H op m"
  shows "refined H s X m op"
  using assms(2)
proof (cases op)
  case (Insert h i vals)
  then show ?thesis using assms(2) by (intro refined_insert[OF assms(1)]) auto
next
  case (Insert_count h i n val)
  then show ?thesis using assms(2) by (intro refined_insert[OF assms(1), where i = i and vals = "replicate n val"]) (auto simp: insert_count_list)
next
  case (Insert_one h i val)
  then have "h < nd_fresh s" using assms group_list(1)[OF assms(1)] by (auto simp: list_ok_def)
  then show ?thesis using assms(2) Insert_one
    by (intro refined_insert[OF assms(1), where i = i and vals = "[val]"]) (auto simp: insert_one)
next
  case (Emplace h i val)
  then have "h < nd_fresh s" using assms group_list(1)[OF assms(1)] by (auto simp: list_ok_def)
  then show ?thesis using assms(2) Emplace
    by (intro refined_insert[OF assms(1), where i = i and vals = "[val]"]) (auto simp: insert_one)
qed (auto intro!: refined_pushes[OF assms(1)] refined_erase[OF assms(1)] refined_erase_range[OF assms(1)] refined_whole[OF assms(1)]
    refined_exchange[OF assms(1)] refined_merge[OF assms(1)] refined_queries[OF assms(1)] refined_splice[OF assms(1)]
    refined_splice_one[OF assms(1)] refined_splice_range[OF assms(1)])

interpretation dlp: node_program list_ok ls_do values_do list_pre
proof
  show "\<exists>s' X'. ls_do op s = Some (fst (values_do op m), s') \<and> dl.group H s' X' (snd (values_do op m))
      \<and> nd_strays s' (dl.held H X') = nd_strays s (dl.held H X)"
    if "dl.group H s X m" "list_pre H op m" for H and s :: "'a nodes" and X m op
    using values_do_refined[OF that] by (simp add: refined_def)
qed

end
