(* ===== verification/LListProps.thy ===== *)
theory LListProps
  imports LListRefine
begin

text \<open>
  The properties of doubly linked lists: programs over newly constructed lists against value lists, constructors and
  destructor, sorting, and when a merge returns.
\<close>

section \<open>New lists\<close>

lemma list_group_new:
  assumes g: "dl.group H s X m" and h: "h \<notin> H" "h \<notin> dl.held H X" "h < nd_fresh s"
  shows "\<exists>X'. dl.group (insert h H) (ls_filled h vals (ls_construct h s)) X' (m(h := vals))
    \<and> nd_strays (ls_filled h vals (ls_construct h s)) (dl.held (insert h H) X') = nd_strays s (dl.held H X)
    \<and> dl.held (insert h H) X' \<subseteq> dl.held H X \<union> {nd_fresh s..}"
proof -
  let ?s = "ls_filled h vals (ls_construct h s)"
  obtain ys where ys: "list_ok h ?s ys" "changes {h} s ?s" "set ys \<subseteq> {nd_fresh s..}" "nd_strays ?s (set ys) = nd_strays s {}"
    "map (nd_value ?s) ys = vals" using filled_new[OF h(3)] by blast
  note n = dl.group_new[OF g h(1,2) ys(1-4)]
  have "dl.held (insert h H) (X(h := ys)) \<subseteq> set ys \<union> dl.held H X" by (auto simp: dl.held_def split: if_splits)
  then show ?thesis using n ys(3,5) by (intro exI[of _ "X(h := ys)"]) auto
qed

definition nd_blank :: "addr \<Rightarrow> 'v \<Rightarrow> 'v nodes" where
  "nd_blank n x = \<lparr>nd_value = \<lambda>_. x, nd_prev = \<lambda>_. null, nd_next = \<lambda>_. null, nd_size = \<lambda>_. 0, nd_live = \<lambda>_. False, nd_fresh = n\<rparr>"

text \<open>One list after the other constructed from an initializer list, and one after the other destroyed.\<close>

definition ls_build :: "addr list \<Rightarrow> (addr \<Rightarrow> 'v list) \<Rightarrow> 'v nodes \<Rightarrow> 'v nodes" where
  "ls_build hs f s = fold (\<lambda>h. ls_of_list h (f h)) hs s"

primrec ls_destroy_lists :: "addr list \<Rightarrow> 'v nodes \<Rightarrow> 'v nodes option" where
  "ls_destroy_lists [] s = Some s"
| "ls_destroy_lists (h # hs) s = Option.bind (ls_destroy_all h s) (ls_destroy_lists hs)"

lemma group_values_cong: "dl.group H s X m \<Longrightarrow> (\<And>h. h \<in> H \<Longrightarrow> m h = m' h) \<Longrightarrow> dl.group H s X m'"
  by (simp add: dl.group_def)

lemma lists_built:
  "distinct hs \<Longrightarrow> \<forall>h\<in>set hs. h < nd_fresh s \<Longrightarrow> \<exists>X. dl.group (set hs) (ls_build hs f s) X f
     \<and> nd_strays (ls_build hs f s) (dl.held (set hs) X) = nd_strays s {} \<and> dl.held (set hs) X \<subseteq> {nd_fresh s..}
     \<and> nd_fresh s \<le> nd_fresh (ls_build hs f s)"
proof (induction hs rule: rev_induct)
  case Nil
  show ?case by (simp add: ls_build_def dl.group_def dl.held_def)
next
  case (snoc h hs)
  let ?s = "ls_build hs f s"
  obtain X where X: "dl.group (set hs) ?s X f" "nd_strays ?s (dl.held (set hs) X) = nd_strays s {}"
    "dl.held (set hs) X \<subseteq> {nd_fresh s..}" "nd_fresh s \<le> nd_fresh ?s" using snoc by auto
  have h: "h \<notin> set hs" "h \<notin> dl.held (set hs) X" "h < nd_fresh ?s" using snoc.prems X(3,4) by auto
  have b: "ls_build (hs @ [h]) f s = ls_filled h (f h) (ls_construct h ?s)" by (simp add: ls_build_def of_list_filled)
  obtain X' where X': "dl.group (insert h (set hs)) (ls_build (hs @ [h]) f s) X' (f(h := f h))"
    "nd_strays (ls_build (hs @ [h]) f s) (dl.held (insert h (set hs)) X') = nd_strays ?s (dl.held (set hs) X)"
    "dl.held (insert h (set hs)) X' \<subseteq> dl.held (set hs) X \<union> {nd_fresh ?s..}"
    using list_group_new[OF X(1) h, of "f h"] unfolding b by blast
  have "changes {h} ?s (ls_build (hs @ [h]) f s)" using filled_new[OF h(3), of "f h"] unfolding b by blast
  then have le: "nd_fresh ?s \<le> nd_fresh (ls_build (hs @ [h]) f s)" by (simp add: changes_def)
  have "{nd_fresh ?s..} \<subseteq> {nd_fresh s..}" using X(4) by simp
  then have "dl.held (insert h (set hs)) X' \<subseteq> {nd_fresh s..}" using X'(3) X(3) by (meson Un_least order.trans)
  then show ?case using X' X(2,4) le by (intro exI[of _ X']) simp
qed

lemma lists_destroyed:
  "dl.group H s X m \<Longrightarrow> set hs \<subseteq> H \<Longrightarrow> \<exists>s' X'. ls_destroy_lists hs s = Some s' \<and> dl.group H s' X' (\<lambda>h. if h \<in> set hs then [] else m h)
     \<and> nd_strays s' (dl.held H X') = nd_strays s (dl.held H X)"
proof (induction hs arbitrary: s X m)
  case Nil
  then show ?case by auto
next
  case (Cons h hs)
  note g = group_list(1)[OF Cons.prems(1), of h]
  obtain s1 where s1: "ls_destroy_all h s = Some s1" "dl.step h s (X h) s1 []" using destroy_all[OF g] Cons.prems(2) by auto
  obtain X1 where X1: "dl.group H s1 X1 (m(h := []))" "nd_strays s1 (dl.held H X1) = nd_strays s (dl.held H X)"
    using dl.group_step_to[OF Cons.prems(1) _ s1(2)] Cons.prems(2) by auto
  have "(\<lambda>k. if k \<in> set hs then [] else (m(h := [])) k) = (\<lambda>k. if k \<in> set (h # hs) then [] else m k)" by auto
  then show ?case using Cons.IH[OF X1(1)] Cons.prems(2) s1(1) X1(2) by auto
qed

section \<open>Programs\<close>

lemma group_reads:
  assumes "dl.group H s X m" "h \<in> H"
  shows "ls_iterate s (ls_begin h s) (ls_end h s) = Some (m h)" "ls_iterate_back s (ls_end h s) (ls_begin h s) = Some (rev (m h))"
    "nd_size s h = length (m h)"
proof -
  have "ls_do (Iterate h) s = Some ((0, m h), s)" "ls_do (Iterate_back h) s = Some ((0, rev (m h)), s)"
    "ls_do (Count h) s = Some ((length (m h), []), s)"
    using refined_queries(3,5,6)[OF assms] by (auto simp: refined_def)
  then show "ls_iterate s (ls_begin h s) (ls_end h s) = Some (m h)" "ls_iterate_back s (ls_end h s) (ls_begin h s) = Some (rev (m h))"
    "nd_size s h = length (m h)" by auto
qed

text \<open>
  C35: A program over any number of newly constructed lists in one store (every insertion, erasure, assignment, move and swap,
  resizing, reversal, filter, sort, splice and merge) whose calls are inside the contract returns and acts as on lists of values,
  answers and returned iterators included; afterwards iterations in both directions and the sizes agree with the values, and
  destroying the lists leaves no live node that was not there before. The contract: iterators are positions of the list they are
  used with, an element is there where one is read or removed, no list is spliced into itself as a whole, no element in front of
  itself and no range into itself, and a merge is of a list with itself or with an empty list, or one in which this list still has
  elements when the other's are used up. The code accepts splices of an element in front of itself and merges outside the
  contract, and then breaks the list or loops.
\<close>

lemma lists_refine_value_lists:
  fixes s :: "'v nodes"
  assumes "distinct hs" "\<forall>h\<in>set hs. h < nd_fresh s" "ops_pre values_do (list_pre (set hs)) ops f"
  shows "\<exists>s'. ops_run ls_do ops (ls_build hs f s) = Some (fst (ops_spec values_do ops f), s')
    \<and> (\<forall>h\<in>set hs. ls_iterate s' (ls_begin h s') (ls_end h s') = Some (snd (ops_spec values_do ops f) h)
        \<and> ls_iterate_back s' (ls_end h s') (ls_begin h s') = Some (rev (snd (ops_spec values_do ops f) h))
        \<and> nd_size s' h = length (snd (ops_spec values_do ops f) h))
    \<and> (\<exists>s''. ls_destroy_lists hs s' = Some s'' \<and> nd_strays s'' {} = nd_strays s {})"
proof -
  obtain X where X: "dl.group (set hs) (ls_build hs f s) X f"
    "nd_strays (ls_build hs f s) (dl.held (set hs) X) = nd_strays s {}" using lists_built[OF assms(1,2)] by blast
  obtain s' X' where r: "ops_run ls_do ops (ls_build hs f s) = Some (fst (ops_spec values_do ops f), s')"
    "dl.group (set hs) s' X' (snd (ops_spec values_do ops f))" "nd_strays s' (dl.held (set hs) X') = nd_strays s {}"
    using dlp.run_refines[OF X(1) assms(3)] X(2) by auto
  obtain s'' X'' where d: "ls_destroy_lists hs s' = Some s''"
    "dl.group (set hs) s'' X'' (\<lambda>h. if h \<in> set hs then [] else snd (ops_spec values_do ops f) h)"
    "nd_strays s'' (dl.held (set hs) X'') = nd_strays s {}"
    using lists_destroyed[OF r(2) order.refl] r(3) by auto
  have "dl.held (set hs) X'' = {}" using group_list(3)[OF d(2)] by (auto simp: dl.held_def)
  then show ?thesis using r(1) d(1,3) group_reads[OF r(2)] by auto
qed

lemma lists_refine_value_lists_witness:
  "\<exists>s'. ops_run ls_do [Insert 0 1 [7, 8], Splice 0 2 1, Sort 0 (<), Push_back 1 5, Merge 0 1 (<), Erase 0 0, Reverse 0, Copy 1 0]
      (ls_build [0, 1] (\<lambda>h. if h = 0 then [9 :: nat, 3] else [4]) (nd_blank 2 0))
      = Some ([(0, [7, 8, 3]), (0, []), (0, []), (0, []), (0, []), (0, [4, 5, 7, 8, 9]), (0, []), (0, [])], s')
    \<and> ls_iterate s' (ls_begin 1 s') (ls_end 1 s') = Some [9, 8, 7, 5, 4]"
  using lists_refine_value_lists[of "[0, 1]" "nd_blank 2 (0 :: nat)"
      "[Insert 0 1 [7, 8], Splice 0 2 1, Sort 0 (<), Push_back 1 5, Merge 0 1 (<), Erase 0 0, Reverse 0, Copy 1 0]"
      "\<lambda>h. if h = 0 then [9, 3] else [4]"]
  by (simp add: nd_blank_def list_sort_eval Let_def) blast

section \<open>Constructors and the destructor\<close>

lemma list_group_move:
  assumes g: "dl.group H s X m" and h: "h \<notin> H" "h \<notin> dl.held H X" "h < nd_fresh s" and k: "k \<in> H"
  shows "\<exists>X'. dl.group (insert h H) (ls_move h k s) X' (m(h := m k, k := []))
    \<and> nd_strays (ls_move h k s) (dl.held (insert h H) X') = nd_strays s (dl.held H X)"
proof -
  let ?c = "ls_construct h s"
  note y = group_list[OF g k]
  have hk: "h \<noteq> k" using h(1) k by blast
  have hy: "h \<notin> set (X k)" "k \<notin> set (X k)" using h(2) k y(1) by (auto simp: dl.held_def list_ok_def ring_def)
  note c = construct_list[OF h(3)]
  have sc: "nd_strays ?c (set []) = nd_strays s {}" using c(3,4) by (simp add: nd_strays_def)
  define X0 where "X0 = X(h := [])"
  have n: "dl.group (insert h H) ?c X0 (m(h := []))" "nd_strays ?c (dl.held (insert h H) X0) = nd_strays s (dl.held H X)"
    using dl.group_new[OF g h(1,2) c(1,2) _ sc] by (simp_all add: X0_def)
  have kH: "h \<in> insert h H" "k \<in> insert h H" using k by simp_all
  have X0: "X0 h = []" "X0 k = X k" using hk by (simp_all add: X0_def)
  have p: "dl.pair h k ?c [] (X k)" using dl.group_pair[OF n(1) kH hk] X0 by simp
  note sw = swap_step[OF p]
  have st: "dl.step2 h k ?c (X0 h) (X0 k) (ls_swap h k ?c) (X k) []" using sw(1) X0 by simp
  have "nd_value ?c = nd_value s" by (simp add: ls_construct_def)
  then have v: "map (nd_value (ls_swap h k ?c)) (X k) = m k" using sw(2) y(2) by simp
  have "(m(h := []))(h := m k, k := map (nd_value (ls_swap h k ?c)) []) = m(h := m k, k := [])" by simp
  then obtain X' where "dl.group (insert h H) (ls_swap h k ?c) X' (m(h := m k, k := []))"
    "nd_strays (ls_swap h k ?c) (dl.held (insert h H) X') = nd_strays ?c (dl.held (insert h H) X0)"
    using dl.group_step2_to[OF n(1) kH st v refl] by metis
  then show ?thesis using n(2) unfolding move_new[OF y(1) hk hy h(3)] by metis
qed

text \<open>
  C36: Constructing a list at an address that no list uses, from an initializer list, from a count and a value, as a copy of
  another list or by moving one, gives a list with the values it should have beside the others, which keep theirs (a moved
  list is left empty), and destroying a list returns exactly its nodes.
\<close>

lemma list_constructors:
  assumes g: "dl.group H s X m" and h: "h \<notin> H" "h \<notin> dl.held H X" "h < nd_fresh s" and k: "k \<in> H"
  shows "(\<exists>X'. dl.group (insert h H) (ls_of_list h vals s) X' (m(h := vals))
      \<and> nd_strays (ls_of_list h vals s) (dl.held (insert h H) X') = nd_strays s (dl.held H X))
    \<and> (\<exists>X'. dl.group (insert h H) (ls_of_count h n val s) X' (m(h := replicate n val))
      \<and> nd_strays (ls_of_count h n val s) (dl.held (insert h H) X') = nd_strays s (dl.held H X))
    \<and> (\<exists>s' X'. ls_copy h k s = Some s' \<and> dl.group (insert h H) s' X' (m(h := m k))
      \<and> nd_strays s' (dl.held (insert h H) X') = nd_strays s (dl.held H X))
    \<and> (\<exists>X'. dl.group (insert h H) (ls_move h k s) X' (m(h := m k, k := []))
      \<and> nd_strays (ls_move h k s) (dl.held (insert h H) X') = nd_strays s (dl.held H X))
    \<and> (\<exists>s' X'. ls_destroy_all k s = Some s' \<and> dl.group H s' X' (m(k := []))
      \<and> nd_strays s' (dl.held H X') = nd_strays s (dl.held H X))"
proof (intro conjI)
  note y = group_list[OF g k]
  show "\<exists>X'. dl.group (insert h H) (ls_of_list h vals s) X' (m(h := vals))
      \<and> nd_strays (ls_of_list h vals s) (dl.held (insert h H) X') = nd_strays s (dl.held H X)"
    "\<exists>X'. dl.group (insert h H) (ls_of_count h n val s) X' (m(h := replicate n val))
      \<and> nd_strays (ls_of_count h n val s) (dl.held (insert h H) X') = nd_strays s (dl.held H X)"
    using list_group_new[OF g h] unfolding of_list_filled by blast+
  have "h \<noteq> k" "h \<notin> set (X k)" using h(1,2) k by (auto simp: dl.held_def)
  then have "ls_copy h k s = Some (ls_filled h (m k) (ls_construct h s))" using copied_new[OF y(1)] h(3) y(2) by simp
  then show "\<exists>s' X'. ls_copy h k s = Some s' \<and> dl.group (insert h H) s' X' (m(h := m k))
      \<and> nd_strays s' (dl.held (insert h H) X') = nd_strays s (dl.held H X)"
    using list_group_new[OF g h, of "m k"] by auto
  show "\<exists>X'. dl.group (insert h H) (ls_move h k s) X' (m(h := m k, k := []))
      \<and> nd_strays (ls_move h k s) (dl.held (insert h H) X') = nd_strays s (dl.held H X)"
    by (rule list_group_move[OF g h k])
  show "\<exists>s' X'. ls_destroy_all k s = Some s' \<and> dl.group H s' X' (m(k := []))
      \<and> nd_strays s' (dl.held H X') = nd_strays s (dl.held H X)"
    using destroy_all[OF y(1)] dl.group_step_to[OF g k _ refl] by (metis list.map(1))
qed

text \<open>A list to start from: the nodes of a list constructed at 0.\<close>

lemma first_list:
  "\<exists>X. dl.group {0} (ls_build [0] (\<lambda>_. vals) (nd_blank 4 x)) X (\<lambda>_. vals) \<and> dl.held {0} X \<subseteq> {4..}
    \<and> 4 \<le> nd_fresh (ls_build [0] (\<lambda>_. vals) (nd_blank 4 x))"
  using lists_built[of "[0]" "nd_blank 4 x" "\<lambda>_. vals"] by (auto simp: nd_blank_def)

lemma list_constructors_witness:
  "\<exists>s' X'. ls_copy 1 0 (ls_build [0] (\<lambda>_. [6 :: nat, 2]) (nd_blank 4 0)) = Some s' \<and> dl.group (insert 1 {0}) s' X' ((\<lambda>_. [6, 2])(1 := [6, 2]))"
proof -
  let ?s = "ls_build [0] (\<lambda>_. [6 :: nat, 2]) (nd_blank 4 0)"
  obtain X where X: "dl.group {0} ?s X (\<lambda>_. [6, 2])" "dl.held {0} X \<subseteq> {4..}" "4 \<le> nd_fresh ?s"
    using first_list[of "[6, 2]" "0 :: nat"] by blast
  have h: "1 \<notin> {0 :: addr}" "1 \<notin> dl.held {0} X" "1 < nd_fresh ?s" "0 \<in> {0 :: addr}" using X(2,3) by auto
  have "\<exists>s' X'. ls_copy 1 0 ?s = Some s' \<and> dl.group (insert 1 {0}) s' X' ((\<lambda>_. [6, 2])(1 := [6, 2]))
      \<and> nd_strays s' (dl.held (insert 1 {0}) X') = nd_strays ?s (dl.held {0} X)"
    by (rule conjunct1[OF conjunct2[OF conjunct2[OF list_constructors[OF X(1) h]]]])
  then show ?thesis by blast
qed

section \<open>Sorting\<close>

text \<open>
  C37: Sorting a list with a strict weak order returns, with its nodes, values untouched, relinked in ascending order: an
  iterator keeps pointing to its element. Nothing else in the store changes.
\<close>

lemma list_sort_relinks:
  assumes "strict_weak lt" "list_ok h s xs"
  shows "\<exists>s' ns. ls_sort h lt s = Some s' \<and> list_ok h s' ns \<and> mset ns = mset xs \<and> nd_value s' = nd_value s
    \<and> ascending lt (map (nd_value s') ns) \<and> changes (insert h (set xs)) s s'"
proof -
  let ?ns = "list_sort (\<lambda>a b. lt (nd_value s a) (nd_value s b)) xs"
  obtain s' where s': "ls_sort h lt s = Some s'" "dl.step h s xs s' ?ns" "nd_value s' = nd_value s"
    using sort_step[OF assms(2), of lt] by blast
  have "map (nd_value s') ?ns = list_sort lt (map (nd_value s) xs)" using s'(3) by (simp add: list_sort_map)
  then show ?thesis
    using s' strict_weak.sort_ascending[OF assms(1)] list_sort_mset[of _ xs]
    by (intro exI[of _ s'] exI[of _ ?ns]) (simp add: dl.step_def)
qed

lemma less_strict_weak: "strict_weak ((<) :: nat \<Rightarrow> nat \<Rightarrow> bool)"
  by unfold_locales auto

lemma list_sort_relinks_witness:
  "\<exists>xs s' ns. list_ok 0 (ls_build [0] (\<lambda>_. [6 :: nat, 2, 4]) (nd_blank 4 0)) xs
    \<and> ls_sort 0 (<) (ls_build [0] (\<lambda>_. [6 :: nat, 2, 4]) (nd_blank 4 0)) = Some s' \<and> list_ok 0 s' ns \<and> mset ns = mset xs
    \<and> ascending (<) (map (nd_value s') ns)"
proof -
  obtain X where "dl.group {0} (ls_build [0] (\<lambda>_. [6 :: nat, 2, 4]) (nd_blank 4 0)) X (\<lambda>_. [6, 2, 4])"
    using first_list[of "[6, 2, 4]" "0 :: nat"] by blast
  then have "list_ok 0 (ls_build [0] (\<lambda>_. [6 :: nat, 2, 4]) (nd_blank 4 0)) (X 0)" by (simp add: dl.group_def)
  then show ?thesis using list_sort_relinks[OF less_strict_weak] by blast
qed

text \<open>Ties are taken from the second half: the sort is not stable.\<close>

lemma list_sort_not_stable: "list_sort (\<lambda>a b. fst a < fst b) [(1 :: nat, 1 :: nat), (1, 2)] = [(1, 2), (1, 1)]"
  by (simp add: list_sort_eval)

section \<open>Merging\<close>

text \<open>
  C38: Merging a sorted list into another sorted list returns exactly if the list merged from is empty, or the list merged into is
  not and its last element is not before the last element of the other; then it has all the elements, sorted, and the other
  none. Otherwise the search for the new tail goes around the other list's header forever.
\<close>

lemma list_merge_returns:
  assumes "strict_weak lt" "dl.pair h k s xs ys" "ascending lt (map (nd_value s) xs)" "ascending lt (map (nd_value s) ys)"
  shows "((\<exists>s'. ls_merge h lt k s = Some s') \<longleftrightarrow> ys = [] \<or> xs \<noteq> [] \<and> \<not> lt (nd_value s (last xs)) (nd_value s (last ys)))
    \<and> (\<forall>s'. ls_merge h lt k s = Some s' \<longrightarrow> (\<exists>ns. dl.pair h k s' ns [] \<and> mset ns = mset xs + mset ys \<and> nd_value s' = nd_value s
      \<and> ascending lt (map (nd_value s') ns)))"
proof (intro conjI allI impI)
  let ?L = "\<lambda>a b. lt (nd_value s a) (nd_value s b)"
  let ?rest = "merge_rest lt (map (nd_value s) xs) (map (nd_value s) ys)"
  have ok: "list_ok k s ys" using assms(2) by (simp add: dl.pair_def)
  have e: "ls_merge h lt k s = Some s" if "ys = []" using empty_ring[OF ok] that by (simp add: ls_merge_def ls_is_empty_def)
  have r: "?rest \<noteq> [] \<longleftrightarrow> xs \<noteq> [] \<and> \<not> lt (nd_value s (last xs)) (nd_value s (last ys))" if "ys \<noteq> []"
    using strict_weak.merge_rest_ascending[OF assms(1,3,4)] that by (auto simp: last_map)
  have m: "\<exists>s'. ls_merge h lt k s = Some s' \<and> dl.step2 h k s xs ys s' (list_merge ?L xs ys) [] \<and> nd_value s' = nd_value s"
    if "ys \<noteq> []" "?rest \<noteq> []" by (rule merge_step[OF assms(2) that])
  show "(\<exists>s'. ls_merge h lt k s = Some s') \<longleftrightarrow> ys = [] \<or> xs \<noteq> [] \<and> \<not> lt (nd_value s (last xs)) (nd_value s (last ys))"
  proof (cases "ys = []")
    case False
    then show ?thesis using r m merge_diverges[OF assms(2) False] by (cases "?rest = []") auto
  qed (use e in simp)
  show "\<exists>ns. dl.pair h k s' ns [] \<and> mset ns = mset xs + mset ys \<and> nd_value s' = nd_value s \<and> ascending lt (map (nd_value s') ns)"
    if s': "ls_merge h lt k s = Some s'" for s'
  proof (cases "ys = []")
    case True
    then show ?thesis using e s' assms(2,3) by (intro exI[of _ xs]) simp
  next
    case False
    then have "?rest \<noteq> []" using s' merge_diverges[OF assms(2) False] by fastforce
    then have st: "dl.step2 h k s xs ys s' (list_merge ?L xs ys) []" "nd_value s' = nd_value s" using m[OF False] s' by auto
    have "ascending lt (map (nd_value s') (list_merge ?L xs ys))"
      using strict_weak.merge_ascending[OF assms(1,3,4)] st(2) by (simp add: list_merge_map)
    then show ?thesis using st by (intro exI[of _ "list_merge ?L xs ys"]) (simp add: dl.step2_def)
  qed
qed

lemma list_merge_returns_witness:
  "ls_merge 0 (<) 1 (ls_build [0, 1] (\<lambda>h. if h = 0 then [1 :: nat, 2] else [1, 3]) (nd_blank 4 0)) = None"
proof -
  let ?f = "\<lambda>h. if h = 0 then [1 :: nat, 2] else [1, 3]"
  let ?s = "ls_build [0, 1] ?f (nd_blank 4 0)"
  obtain X where g: "dl.group (set [0, 1]) ?s X ?f" using lists_built[of "[0, 1]" "nd_blank 4 (0 :: nat)" ?f] by (auto simp: nd_blank_def)
  have v: "map (nd_value ?s) (X 0) = [1, 2]" "map (nd_value ?s) (X 1) = [1, 3]" using group_list(2)[OF g] by simp_all
  have p: "dl.pair 0 1 ?s (X 0) (X 1)" using dl.group_pair[OF g] by simp
  have ne: "X 0 \<noteq> []" "X 1 \<noteq> []" using v by auto
  have "nd_value ?s (last (X 0)) = 2" "nd_value ?s (last (X 1)) = 3"
    using last_map[OF ne(1), of "nd_value ?s"] last_map[OF ne(2), of "nd_value ?s"] v by simp_all
  then have "\<not> (\<exists>s'. ls_merge 0 (<) 1 ?s = Some s')"
    using list_merge_returns[OF less_strict_weak p] ne v by (simp add: ascending_def)
  then show ?thesis by (cases "ls_merge 0 (<) 1 ?s") blast+
qed

section \<open>A splice in front of itself\<close>

lemma iterate_None:
  assumes "\<And>x. x \<in> S \<Longrightarrow> nd_next s x \<in> S" "h \<notin> S" "it \<in> S"
  shows "ls_iterate s it h = None"
proof (cases "ls_iterate s it h")
  case (Some r)
  have "it \<in> S \<longrightarrow> False"
  proof (rule ls_iterate.raw_induct[where P = "\<lambda>s' it h' _. h' = h \<longrightarrow> s' = s \<longrightarrow> it \<in> S \<longrightarrow> False", OF _ Some, THEN mp, THEN mp])
    fix rec and h' it and s' :: "'a nodes" and r
    assume rec: "\<And>s' it h' r. rec s' it h' = Some r \<Longrightarrow> h' = h \<longrightarrow> s' = s \<longrightarrow> it \<in> S \<longrightarrow> False"
      and eq: "(if it \<noteq> h' then Option.bind (rec s' (it_inc s' it) h') (\<lambda>vals. Some (it_deref s' it # vals)) else Some []) = Some r"
    show "h' = h \<longrightarrow> s' = s \<longrightarrow> it \<in> S \<longrightarrow> False"
    proof (intro impI)
      assume a: "h' = h" "s' = s" "it \<in> S"
      then have "it \<noteq> h" "nd_next s it \<in> S" using assms(1,2) by auto
      then obtain r' where "rec s (nd_next s it) h = Some r'" using eq a by (auto simp: it_inc_def split: bind_splits)
      then show False using rec[of s "nd_next s it" h r'] \<open>nd_next s it \<in> S\<close> by simp
    qed
  qed simp_all
  then show ?thesis using assms(3) by blast
qed simp

text \<open>An element spliced in front of itself is linked to itself, and the list cannot be iterated any more.\<close>

lemma splice_in_front_of_itself:
  assumes ok: "list_ok h s (A @ a # B)"
  defines "s' \<equiv> ls_splice_one h a h a s"
  shows "nd_next s' a = a" "ls_iterate s' (ls_begin h s') (ls_end h s') = None"
proof -
  let ?p = "last (h # A)" and ?q = "hd (B @ [h])"
  have r: "ring h s (A @ a # B)" "ring h s ((A @ [a]) @ B)" using ok by (simp_all add: list_ok_def)
  have d: "distinct (h # A @ a # B)" using r(1) by (simp add: ring_def)
  have n: "nd_next s ?p = a" "nd_prev s a = ?p" "fwd s (h # A)" using ring_neighbours(1,2,3)[OF r(1)] by simp_all
  have pa: "?p \<noteq> a" using d last_in_set[of "h # A"] by auto
  have qa: "?q \<noteq> a" using d by (cases B) auto
  define p where "p = ?p"
  have s': "s' = put_size h (Suc (nd_size s h - 1)) (put_prev a a (put_next p a (put_next a a (put_prev a p
      (put_size h (nd_size s h - 1) (ls_cut p ?q s))))))"
    using pa qa n(2) d by (simp add: s'_def ls_splice_one_def unlink_cut[OF r(1)] ls_link_before_def Let_def p_def ls_cut_def)
  have pa': "p \<noteq> a" using pa by (simp add: p_def)
  then show na: "nd_next s' a = a" by (simp add: s')
  have np: "nd_next s' p = a" by (simp add: s')
  have other: "nd_next s' x = nd_next s x" if "x \<noteq> a" "x \<noteq> p" for x using that by (simp add: s' ls_cut_def)
  let ?S = "insert a (set A)"
  have step: "nd_next s' x \<in> ?S" if x: "x \<in> insert h (set A)" for x
  proof (cases "x = p")
    case False
    have xa: "x \<noteq> a" using x d by auto
    have "fwd s (h # A @ [a])" using r(1) fwd_join[of "h # A" "[a]" s] n by simp
    then have "nd_next s h = hd (A @ [a])" "fwd s (A @ [a])" using iffD1[OF fwd_Cons] by blast+
    then have "nd_next s x \<in> ?S" using x fwd_closed[of s A a x] by (cases "x = h"; cases A) auto
    then show ?thesis using other[OF xa False] by simp
  qed (use np in simp)
  then have "nd_next s' x \<in> ?S" if "x \<in> ?S" for x using that na by auto
  moreover have "h \<notin> ?S" using d by auto
  moreover have "nd_next s' h \<in> ?S" using step by blast
  ultimately have "ls_iterate s' (nd_next s' h) h = None" by (rule iterate_None)
  then show "ls_iterate s' (ls_begin h s') (ls_end h s') = None" by (simp add: ls_begin_def ls_end_def)
qed

end
