(* ===== verification/FList.thy ===== *)
theory FList
  imports LListSort
begin

text \<open>
  The singly linked list of \<^verbatim>\<open>libs/base/forward_list.hpp\<close>, on the store of nodes of \<open>Nodes\<close>, of which it does not use the
  links back. A list is the address of its header, from which a chain of nodes goes to the null pointer. Iterators are
  addresses: the header is \<^verbatim>\<open>before_begin()\<close>, null is \<^verbatim>\<open>end()\<close>.
\<close>

section \<open>Nodes\<close>

definition fl_create :: "'v \<Rightarrow> 'v nodes \<Rightarrow> addr \<times> 'v nodes" where
  "fl_create val s =
     (let mem = nd_fresh s;
          s = s\<lparr>nd_fresh := mem + 1, nd_live := (nd_live s)(mem := True), nd_value := (nd_value s)(mem := val)\<rparr>
      in (mem, put_next mem null s))"

definition fl_destroy_node :: "addr \<Rightarrow> 'v nodes \<Rightarrow> 'v nodes" where
  "fl_destroy_node n s = (if n \<noteq> null then nd_free n s else s)"

partial_function (option) fl_free_loop :: "addr \<Rightarrow> 'v nodes \<Rightarrow> 'v nodes option" where
  "fl_free_loop n s = (if n \<noteq> null then fl_free_loop (nd_next s n) (fl_destroy_node n s) else Some s)"

definition fl_destroy_all :: "addr \<Rightarrow> 'v nodes \<Rightarrow> 'v nodes option" where
  "fl_destroy_all h s =
     Option.bind (fl_free_loop (nd_next s h) s) (\<lambda>s. Some (put_size h 0 (put_next h null s)))"

text \<open>The loops that append new nodes behind \<open>prev\<close>, with and without counting them.\<close>

fun fl_extend :: "addr \<Rightarrow> addr \<Rightarrow> 'v list \<Rightarrow> 'v nodes \<Rightarrow> 'v nodes" where
  "fl_extend h prev [] s = s"
| "fl_extend h prev (val # vals) s =
     (let (n, s) = fl_create val s;
          s = put_next prev n s;
          s = put_size h (nd_size s h + 1) s
      in fl_extend h n vals s)"

fun fl_append :: "addr \<Rightarrow> 'v list \<Rightarrow> 'v nodes \<Rightarrow> 'v nodes" where
  "fl_append prev [] s = s"
| "fl_append prev (val # vals) s =
     (let (n, s) = fl_create val s;
          s = put_next prev n s
      in fl_append n vals s)"

section \<open>Construction and assignment\<close>

definition fl_construct :: "addr \<Rightarrow> 'v nodes \<Rightarrow> 'v nodes" where
  "fl_construct h s = put_next h null (put_size h 0 s)"

definition fl_of_list :: "addr \<Rightarrow> 'v list \<Rightarrow> 'v nodes \<Rightarrow> 'v nodes" where
  "fl_of_list h vals s = fl_extend h h vals (fl_construct h s)"

definition fl_of_count :: "addr \<Rightarrow> nat \<Rightarrow> 'v \<Rightarrow> 'v nodes \<Rightarrow> 'v nodes" where
  "fl_of_count h cnt val s = fl_extend h h (replicate cnt val) (fl_construct h s)"

partial_function (option) fl_copy_loop :: "addr \<Rightarrow> addr \<Rightarrow> addr \<Rightarrow> 'v nodes \<Rightarrow> 'v nodes option" where
  "fl_copy_loop h n prev s =
     (if n \<noteq> null then
        let copy = fst (fl_create (nd_value s n) s);
            s = snd (fl_create (nd_value s n) s);
            s = put_next prev copy s;
            s = put_size h (nd_size s h + 1) s
        in fl_copy_loop h (nd_next s n) copy s
      else Some s)"

definition fl_copy :: "addr \<Rightarrow> addr \<Rightarrow> 'v nodes \<Rightarrow> 'v nodes option" where
  "fl_copy h other s = (let s = fl_construct h s in fl_copy_loop h (nd_next s other) h s)"

definition fl_move :: "addr \<Rightarrow> addr \<Rightarrow> 'v nodes \<Rightarrow> 'v nodes" where
  "fl_move h other s =
     (let s = put_size other 0 (put_size h (nd_size s other) s);
          s = put_next h (nd_next s other) s
      in put_next other null s)"

definition fl_copy_assign :: "addr \<Rightarrow> addr \<Rightarrow> 'v nodes \<Rightarrow> 'v nodes option" where
  "fl_copy_assign h other s =
     (if h \<noteq> other then
        Option.bind (fl_destroy_all h s) (\<lambda>s. fl_copy_loop h (nd_next s other) h s)
      else Some s)"

definition fl_move_assign :: "addr \<Rightarrow> addr \<Rightarrow> 'v nodes \<Rightarrow> 'v nodes option" where
  "fl_move_assign h other s =
     (if h \<noteq> other then
        Option.bind (fl_destroy_all h s) (\<lambda>s.
        let s = put_next h (nd_next s other) s;
            s = put_size other 0 (put_size h (nd_size s other) s)
        in Some (put_next other null s))
      else Some s)"

definition fl_assign_list :: "addr \<Rightarrow> 'v list \<Rightarrow> 'v nodes \<Rightarrow> 'v nodes option" where
  "fl_assign_list h vals s = Option.bind (fl_destroy_all h s) (\<lambda>s. Some (fl_extend h h vals s))"

section \<open>Access\<close>

definition fl_before_begin :: "addr \<Rightarrow> 'v nodes \<Rightarrow> addr" where
  "fl_before_begin h s = h"

definition fl_begin :: "addr \<Rightarrow> 'v nodes \<Rightarrow> addr" where
  "fl_begin h s = nd_next s h"

definition fl_end :: "addr \<Rightarrow> 'v nodes \<Rightarrow> addr" where
  "fl_end h s = null"

definition fl_is_empty :: "addr \<Rightarrow> 'v nodes \<Rightarrow> bool" where
  "fl_is_empty h s \<longleftrightarrow> nd_next s h = null"

definition fl_front :: "addr \<Rightarrow> 'v nodes \<Rightarrow> 'v" where
  "fl_front h s = nd_value s (nd_next s h)"

section \<open>Insertion and erasure\<close>

definition fl_push_front :: "addr \<Rightarrow> 'v \<Rightarrow> 'v nodes \<Rightarrow> 'v nodes" where
  "fl_push_front h val s =
     (let (n, s) = fl_create val s;
          s = put_next n (nd_next s h) s;
          s = put_next h n s
      in put_size h (nd_size s h + 1) s)"

definition fl_pop_front :: "addr \<Rightarrow> 'v nodes \<Rightarrow> 'v nodes" where
  "fl_pop_front h s =
     (let n = nd_next s h
      in if n \<noteq> null then
           let s = put_next h (nd_next s n) s;
               s = fl_destroy_node n s
           in put_size h (nd_size s h - 1) s
         else s)"

definition fl_emplace_front :: "addr \<Rightarrow> 'v \<Rightarrow> 'v nodes \<Rightarrow> addr \<times> 'v nodes" where
  "fl_emplace_front h val s =
     (let (n, s) = fl_create val s;
          s = put_next n (nd_next s h) s;
          s = put_next h n s
      in (n, put_size h (nd_size s h + 1) s))"

definition fl_insert_after :: "addr \<Rightarrow> addr \<Rightarrow> 'v \<Rightarrow> 'v nodes \<Rightarrow> addr \<times> 'v nodes" where
  "fl_insert_after h node val s =
     (let (n, s) = fl_create val s;
          s = put_next n (nd_next s node) s;
          s = put_next node n s
      in (n, put_size h (nd_size s h + 1) s))"

fun fl_insert_after_list :: "addr \<Rightarrow> addr \<Rightarrow> 'v list \<Rightarrow> 'v nodes \<Rightarrow> addr \<times> 'v nodes" where
  "fl_insert_after_list h node [] s = (node, s)"
| "fl_insert_after_list h node (val # vals) s =
     (let (n, s) = fl_create val s;
          s = put_next n (nd_next s node) s;
          s = put_next node n s;
          s = put_size h (nd_size s h + 1) s
      in fl_insert_after_list h n vals s)"

definition fl_emplace_after :: "addr \<Rightarrow> addr \<Rightarrow> 'v \<Rightarrow> 'v nodes \<Rightarrow> addr \<times> 'v nodes" where
  "fl_emplace_after h node val s =
     (let (n, s) = fl_create val s;
          s = put_next n (nd_next s node) s;
          s = put_next node n s
      in (n, put_size h (nd_size s h + 1) s))"

definition fl_erase_after :: "addr \<Rightarrow> addr \<Rightarrow> 'v nodes \<Rightarrow> addr \<times> 'v nodes" where
  "fl_erase_after h node s =
     (let target = nd_next s node;
          s = (if target \<noteq> null then
                 let s = put_next node (nd_next s target) s;
                     s = fl_destroy_node target s
                 in put_size h (nd_size s h - 1) s
               else s)
      in (nd_next s node, s))"

partial_function (option) fl_erase_loop :: "addr \<Rightarrow> addr \<Rightarrow> addr \<Rightarrow> 'v nodes \<Rightarrow> 'v nodes option" where
  "fl_erase_loop h node end_node s =
     (if nd_next s node \<noteq> end_node then
        let target = nd_next s node;
            s = put_next node (nd_next s target) s;
            s = fl_destroy_node target s;
            s = put_size h (nd_size s h - 1) s
        in fl_erase_loop h node end_node s
      else Some s)"

definition fl_erase_after_range :: "addr \<Rightarrow> addr \<Rightarrow> addr \<Rightarrow> 'v nodes \<Rightarrow> (addr \<times> 'v nodes) option" where
  "fl_erase_after_range h node end_node s = Option.bind (fl_erase_loop h node end_node s) (\<lambda>s. Some (end_node, s))"

partial_function (option) fl_last :: "addr \<Rightarrow> 'v nodes \<Rightarrow> addr option" where
  "fl_last prev s = (if nd_next s prev \<noteq> null then fl_last (nd_next s prev) s else Some prev)"

definition fl_resize :: "addr \<Rightarrow> nat \<Rightarrow> 'v \<Rightarrow> 'v nodes \<Rightarrow> 'v nodes option" where
  "fl_resize h cnt val s =
     (if cnt < nd_size s h then
        let prev = ls_advance cnt s h;
            n = nd_next s prev;
            s = put_next prev null s
        in Option.bind (fl_free_loop n s) (\<lambda>s. Some (put_size h cnt s))
      else if cnt > nd_size s h then
        Option.bind (fl_last h s) (\<lambda>prev.
        let s = fl_append prev (replicate (cnt - nd_size s h) val) s
        in Some (put_size h cnt s))
      else Some s)"

section \<open>Whole lists\<close>

definition fl_swap :: "addr \<Rightarrow> addr \<Rightarrow> 'v nodes \<Rightarrow> 'v nodes" where
  "fl_swap h other s =
     (let s = put_next other (nd_next s h) (put_next h (nd_next s other) s)
      in put_size other (nd_size s h) (put_size h (nd_size s other) s))"

partial_function (option) fl_reverse_loop :: "addr \<Rightarrow> addr \<Rightarrow> 'v nodes \<Rightarrow> (addr \<times> 'v nodes) option" where
  "fl_reverse_loop prev cur s =
     (if cur \<noteq> null then
        let nxt = nd_next s cur;
            s = put_next cur prev s
        in fl_reverse_loop cur nxt s
      else Some (prev, s))"

definition fl_reverse :: "addr \<Rightarrow> 'v nodes \<Rightarrow> 'v nodes option" where
  "fl_reverse h s = Option.bind (fl_reverse_loop null (nd_next s h) s) (\<lambda>(prev, s). Some (put_next h prev s))"

partial_function (option) fl_remove_loop :: "addr \<Rightarrow> ('v \<Rightarrow> bool) \<Rightarrow> addr \<Rightarrow> nat \<Rightarrow> 'v nodes \<Rightarrow> (nat \<times> 'v nodes) option" where
  "fl_remove_loop h pred prev cnt s =
     (if nd_next s prev \<noteq> null then
        if pred (nd_value s (nd_next s prev)) then
          let target = nd_next s prev;
              s = put_next prev (nd_next s target) s;
              s = fl_destroy_node target s;
              s = put_size h (nd_size s h - 1) s
          in fl_remove_loop h pred prev (cnt + 1) s
        else fl_remove_loop h pred (nd_next s prev) cnt s
      else Some (cnt, s))"

definition fl_remove_if :: "addr \<Rightarrow> ('v \<Rightarrow> bool) \<Rightarrow> 'v nodes \<Rightarrow> (nat \<times> 'v nodes) option" where
  "fl_remove_if h pred s = fl_remove_loop h pred h 0 s"

definition fl_remove :: "addr \<Rightarrow> 'v \<Rightarrow> 'v nodes \<Rightarrow> (nat \<times> 'v nodes) option" where
  "fl_remove h val s = fl_remove_if h (\<lambda>v. v = val) s"

partial_function (option) fl_unique_loop ::
  "addr \<Rightarrow> ('v \<Rightarrow> 'v \<Rightarrow> bool) \<Rightarrow> addr \<Rightarrow> nat \<Rightarrow> 'v nodes \<Rightarrow> (nat \<times> 'v nodes) option" where
  "fl_unique_loop h pred cur cnt s =
     (if cur \<noteq> null \<and> nd_next s cur \<noteq> null then
        if pred (nd_value s cur) (nd_value s (nd_next s cur)) then
          let target = nd_next s cur;
              s = put_next cur (nd_next s target) s;
              s = fl_destroy_node target s;
              s = put_size h (nd_size s h - 1) s
          in fl_unique_loop h pred cur (cnt + 1) s
        else fl_unique_loop h pred (nd_next s cur) cnt s
      else Some (cnt, s))"

definition fl_unique :: "addr \<Rightarrow> ('v \<Rightarrow> 'v \<Rightarrow> bool) \<Rightarrow> 'v nodes \<Rightarrow> (nat \<times> 'v nodes) option" where
  "fl_unique h pred s = fl_unique_loop h pred (nd_next s h) 0 s"

text \<open>\<^verbatim>\<open>Node **tail\<close> points to the link of a node, which is \<open>tail\<close> here.\<close>

partial_function (option) fl_merge_loop ::
  "('v \<Rightarrow> 'v \<Rightarrow> bool) \<Rightarrow> addr \<Rightarrow> addr \<Rightarrow> addr \<Rightarrow> 'v nodes \<Rightarrow> (addr \<times> addr \<times> addr \<times> 'v nodes) option" where
  "fl_merge_loop lt a b tail s =
     (if a \<noteq> null \<and> b \<noteq> null then
        if lt (nd_value s a) (nd_value s b) then
          let s = put_next tail a s
          in fl_merge_loop lt (nd_next s a) b a s
        else
          let s = put_next tail b s
          in fl_merge_loop lt a (nd_next s b) b s
      else Some (a, b, tail, s))"

definition fl_merge :: "addr \<Rightarrow> ('v \<Rightarrow> 'v \<Rightarrow> bool) \<Rightarrow> addr \<Rightarrow> 'v nodes \<Rightarrow> 'v nodes option" where
  "fl_merge h lt other s =
     Option.bind (fl_merge_loop lt (nd_next s h) (nd_next s other) h s) (\<lambda>(a, b, tail, s).
     let s = put_next tail (if a \<noteq> null then a else b) s;
         s = put_size h (nd_size s h + nd_size s other) s;
         s = put_next other null s
     in Some (put_size other 0 s))"

lemmas fl_loops =
  fl_free_loop.simps
  fl_copy_loop.simps
  fl_erase_loop.simps
  fl_last.simps
  fl_reverse_loop.simps
  fl_remove_loop.simps
  fl_unique_loop.simps
  fl_merge_loop.simps

declare fl_loops [code]

section \<open>Chains to null\<close>

definition flist_ok :: "addr \<Rightarrow> 'v nodes \<Rightarrow> addr list \<Rightarrow> bool" where
  "flist_ok h s xs \<longleftrightarrow> fwd s (h # xs @ [null]) \<and> distinct (h # xs) \<and> nd_size s h = length xs \<and> h < nd_fresh s \<and> h \<noteq> null
     \<and> (\<forall>x\<in>set xs. nd_live s x \<and> x < nd_fresh s \<and> x \<noteq> null)"

lemma flist_ok_cong:
  assumes "flist_ok h s xs" "changes A s s'" "h \<notin> A" "set xs \<inter> A = {}"
  shows "flist_ok h s' xs"
proof -
  have same: "nd_next s' x = nd_next s x \<and> nd_live s' x = nd_live s x \<and> nd_size s' x = nd_size s x \<and> x < nd_fresh s'"
    if "x \<in> insert h (set xs)" for x
  proof -
    have "x \<notin> A" "x < nd_fresh s" using that assms(1,3,4) by (auto simp: flist_ok_def)
    then show ?thesis using assms(2) by (auto simp: changes_def)
  qed
  have "fwd s' (h # xs @ [null]) = fwd s (h # xs @ [null])"
    by (rule fwd_cong) (use same in \<open>auto simp: butlast_append\<close>)
  then show ?thesis using assms(1) same by (simp add: flist_ok_def)
qed

interpretation fl: node_container flist_ok
proof
  show "flist_ok h s xs \<Longrightarrow> changes A s s' \<Longrightarrow> h \<notin> A \<Longrightarrow> set xs \<inter> A = {} \<Longrightarrow> flist_ok h s' xs" for h and s s' :: "'a nodes" and xs A
    by (rule flist_ok_cong)
qed (auto simp: flist_ok_def)

lemma fl_create_simps [simp]:
  "fst (fl_create val s) = nd_fresh s" "nd_next (snd (fl_create val s)) = (nd_next s)(nd_fresh s := null)"
  "nd_prev (snd (fl_create val s)) = nd_prev s" "nd_value (snd (fl_create val s)) = (nd_value s)(nd_fresh s := val)"
  "nd_size (snd (fl_create val s)) = nd_size s" "nd_live (snd (fl_create val s)) = (nd_live s)(nd_fresh s := True)"
  "nd_fresh (snd (fl_create val s)) = Suc (nd_fresh s)"
  by (simp_all add: fl_create_def Let_def put_next_def)

text \<open>A place in the chain.\<close>

lemma flist_split:
  assumes "flist_ok h s (A @ B)"
  shows "nd_next s (last (h # A)) = hd (B @ [null])" "fwd s (h # A)" "fwd s (B @ [null])"
    "last (h # A) \<in> insert h (set A)" "last (h # A) \<notin> set (butlast (h # A))" "last (h # A) \<notin> set B"
proof -
  show "nd_next s (last (h # A)) = hd (B @ [null])" "fwd s (h # A)" "fwd s (B @ [null])"
    using assms fwd_join[of "h # A" "B @ [null]" s] by (auto simp: flist_ok_def)
  have d: "distinct (h # A @ B)" using assms by (simp add: flist_ok_def)
  show l: "last (h # A) \<in> insert h (set A)" using last_in_set[of "h # A"] by auto
  show "last (h # A) \<notin> set (butlast (h # A))" by (rule last_butlast) (use d in auto)
  show "last (h # A) \<notin> set B" using l d by auto
qed

lemma fwd_link:
  assumes "fwd s (h # A)" "fwd s (B @ [e])" "last (h # A) \<notin> set (butlast (h # A))" "last (h # A) \<notin> set B"
  shows "fwd (put_next (last (h # A)) (hd (B @ [e])) s) (h # A @ B @ [e])"
proof -
  let ?s = "put_next (last (h # A)) (hd (B @ [e])) s"
  have "fwd ?s (h # A) = fwd s (h # A)" "fwd ?s (B @ [e]) = fwd s (B @ [e])"
    by (rule fwd_put; use assms(3,4) in simp)+
  then show ?thesis using fwd_join[of "h # A" "B @ [e]" ?s] assms(1,2) by simp
qed

end
