(* ===== verification/FListOps.thy ===== *)
theory FListOps
  imports FList
begin

text \<open>The operations of a singly linked list on the list of its nodes.\<close>

section \<open>Dropping nodes\<close>

lemma fl_drop:
  assumes ok: "flist_ok h s (A @ M @ B)"
  defines "s' \<equiv> put_size h (length (A @ B)) (nd_freed (set M) (put_next (last (h # A)) (hd (B @ [null])) s))"
  shows "fl.step h s (A @ M @ B) s' (A @ B)" "nd_value s' = nd_value s"
proof -
  note a = flist_split[OF ok]
  have "flist_ok h s ((A @ M) @ B)" using ok by simp
  note b = flist_split[OF this]
  have d: "distinct (h # A @ M @ B)" using ok by (simp add: flist_ok_def)
  have "last (h # A) \<notin> set B" using a(6) by simp
  then have "fwd s' (h # A @ B @ [null])" using fwd_link[OF a(2) b(3) a(5)] by (simp add: s'_def)
  then have "flist_ok h s' (A @ B)" using ok d by (auto simp: flist_ok_def s'_def)
  moreover have "changes (insert h (set (A @ M @ B))) s s'"
    unfolding s'_def by (intro changes_put(3) changes_put(6) changes_put(1)) (use a(4) in auto)
  moreover have "nd_strays s' (set (A @ B)) = nd_strays s (set (A @ M @ B))" using d by (auto simp: nd_strays_def s'_def)
  ultimately show "fl.step h s (A @ M @ B) s' (A @ B)" by (auto simp: fl.step_def)
  show "nd_value s' = nd_value s" by (simp add: s'_def)
qed

lemma fl_destroy_freed: "n \<noteq> null \<Longrightarrow> fl_destroy_node n s = nd_freed {n} s"
  by (simp add: fl_destroy_node_def free_is_freed)

text \<open>The one node after a place, which five operations take out.\<close>

lemma fl_drop_one:
  assumes ok: "flist_ok h s (A @ a # B)"
  defines "s' \<equiv> put_size h (nd_size s h - 1) (fl_destroy_node a (put_next (last (h # A)) (nd_next s a) s))"
  shows "fl.step h s (A @ a # B) s' (A @ B)" "nd_value s' = nd_value s" "nd_next s (last (h # A)) = a" "a \<noteq> null"
    "nd_next s a = hd (B @ [null])"
proof -
  have ok1: "flist_ok h s (A @ [a] @ B)" "flist_ok h s ((A @ [a]) @ B)" using ok by simp_all
  show "a \<noteq> null" using ok by (simp add: flist_ok_def)
  show "nd_next s (last (h # A)) = a" using flist_split(1)[OF ok1(1)] by simp
  show na: "nd_next s a = hd (B @ [null])" using flist_split(1)[OF ok1(2)] by simp
  have "nd_size s h - 1 = length (A @ B)" using ok by (simp add: flist_ok_def)
  then have "s' = put_size h (length (A @ B)) (nd_freed (set [a]) (put_next (last (h # A)) (hd (B @ [null])) s))"
    using \<open>a \<noteq> null\<close> na by (simp add: s'_def fl_destroy_freed)
  then show "fl.step h s (A @ a # B) s' (A @ B)" "nd_value s' = nd_value s" using fl_drop[OF ok1(1)] by simp_all
qed

lemma fl_free_loop:
  "fwd s (M @ [null]) \<Longrightarrow> null \<notin> set M \<Longrightarrow> fl_free_loop (hd (M @ [null])) s = Some (nd_freed (set M) s)"
proof (induction M arbitrary: s)
  case Nil
  show ?case by (simp add: fl_free_loop.simps)
next
  case (Cons a M)
  have n: "nd_next s a = hd (M @ [null])" "fwd s (M @ [null])" using iffD1[OF fwd_Cons] Cons.prems(1) by (metis append_Cons)+
  have "fl_free_loop (hd ((a # M) @ [null])) s = fl_free_loop (hd (M @ [null])) (nd_freed {a} s)"
    using Cons.prems(2) n(1) by (subst fl_free_loop.simps) (simp add: fl_destroy_freed)
  then show ?case using Cons.IH[of "nd_freed {a} s"] n(2) Cons.prems(2) by (simp add: Un_commute)
qed

lemma fl_destroy_all:
  assumes "flist_ok h s xs"
  shows "\<exists>s'. fl_destroy_all h s = Some s' \<and> fl.step h s xs s' [] \<and> nd_value s' = nd_value s"
proof -
  have ok: "flist_ok h s ([] @ xs @ [])" using assms by simp
  have nz: "null \<notin> set xs" using assms by (auto simp: flist_ok_def)
  have "flist_ok h s ([] @ xs)" using assms by simp
  note f = flist_split[OF this]
  have "fl_free_loop (nd_next s h) s = Some (nd_freed (set xs) s)" using fl_free_loop[OF f(3) nz] f(1) by simp
  moreover have "put_next h null (nd_freed (set xs) s) = nd_freed (set xs) (put_next h null s)"
    by (simp add: put_next_def nd_freed_def)
  ultimately have "fl_destroy_all h s = Some (put_size h 0 (nd_freed (set xs) (put_next h null s)))"
    by (simp add: fl_destroy_all_def)
  then show ?thesis using fl_drop[OF ok] by simp
qed

section \<open>New nodes\<close>

text \<open>A node created and linked in behind the place after \<open>A\<close>, as all insertions do.\<close>

definition fl_linked :: "addr \<Rightarrow> addr \<Rightarrow> 'v \<Rightarrow> 'v nodes \<Rightarrow> 'v nodes" where
  "fl_linked h node val s =
     (let n = nd_fresh s; s = put_next n (nd_next s node) (snd (fl_create val s))
      in put_size h (nd_size s h + 1) (put_next node n s))"

lemma fl_link_new:
  fixes val :: 'v and s :: "'v nodes"
  assumes ok: "flist_ok h s (A @ B)"
  defines "n \<equiv> nd_fresh s" and "s' \<equiv> fl_linked h (last (h # A)) val s"
  shows "fl.step h s (A @ B) s' (A @ n # B)" "map (nd_value s') (A @ n # B) = map (nd_value s) A @ val # map (nd_value s) B"
    "nd_fresh s' = Suc n" "\<And>q. q < n \<Longrightarrow> nd_value s' q = nd_value s q" "\<And>q. q \<noteq> n \<Longrightarrow> q \<noteq> last (h # A) \<Longrightarrow> nd_next s' q = nd_next s q"
proof -
  note a = flist_split[OF ok]
  let ?p = "last (h # A)"
  have old: "\<forall>x\<in>insert h (set (A @ B)). x < n" using ok by (auto simp: flist_ok_def n_def)
  then have new: "n \<notin> insert h (set (A @ B))" by blast
  have pn: "?p \<noteq> n" "?p < n" using a(4) old by auto
  define s1 where "s1 = put_next n (hd (B @ [null])) (snd (fl_create val s))"
  have s': "s' = put_size h (nd_size s h + 1) (put_next ?p n s1)"
    using pn a(1) by (simp add: s'_def fl_linked_def s1_def n_def Let_def)
  have "fwd s1 (h # A) = fwd s (h # A)" "fwd s1 (B @ [null]) = fwd s (B @ [null])"
    by (rule fwd_cong; use new in \<open>auto simp: s1_def n_def dest: in_set_butlastD split: if_splits\<close>)+
  moreover have "nd_next s1 n = hd (B @ [null])" by (simp add: s1_def)
  ultimately have f1: "fwd s1 (h # A)" "fwd s1 ((n # B) @ [null])" using a(2,3) iffD2[OF fwd_Cons] by (metis append_Cons)+
  have "?p \<notin> set (n # B)" using a(6) pn by simp
  then have "fwd s' (h # A @ (n # B) @ [null])" using fwd_link[OF f1 a(5)] by (simp add: s')
  moreover have "nd_live s' = (nd_live s)(n := True)" "nd_size s' = (nd_size s)(h := nd_size s h + 1)" and fr: "nd_fresh s' = Suc n"
    and v: "nd_value s' = (nd_value s)(n := val)" by (simp_all add: s' s1_def n_def)
  ultimately have "flist_ok h s' (A @ n # B)" using ok old new by (auto simp: flist_ok_def less_SucI)
  moreover have "changes (insert h (set (A @ B))) s s'"
  proof -
    have "changes (insert h (set (A @ B))) s s1" unfolding s1_def
      by (rule changes_put(4)) (auto simp: n_def changes_def)
    then show ?thesis unfolding s' by (intro changes_put(3) changes_put(1)) (use a(4) in auto)
  qed
  moreover have "nd_strays s' (set (A @ n # B)) = nd_strays s (set (A @ B))"
    using new fr by (auto simp: nd_strays_def s' s1_def n_def)
  ultimately show "fl.step h s (A @ B) s' (A @ n # B)" by (auto simp: fl.step_def n_def)
  show "map (nd_value s') (A @ n # B) = map (nd_value s) A @ val # map (nd_value s) B" using v new by auto
  show "nd_fresh s' = Suc n" by (rule fr)
  show "\<And>q. q < n \<Longrightarrow> nd_value s' q = nd_value s q" using v by simp
  show "\<And>q. q \<noteq> n \<Longrightarrow> q \<noteq> ?p \<Longrightarrow> nd_next s' q = nd_next s q" by (simp add: s' s1_def n_def)
qed

lemma fl_inserts_linked:
  "fl_push_front h val s = fl_linked h h val s" "fl_emplace_front h val s = (nd_fresh s, fl_linked h h val s)"
  "fl_insert_after h node val s = (nd_fresh s, fl_linked h node val s)"
  "fl_emplace_after h node val s = (nd_fresh s, fl_linked h node val s)" if "h < nd_fresh s" "node < nd_fresh s"
  using that
  by (simp_all add: fl_push_front_def fl_emplace_front_def fl_insert_after_def fl_emplace_after_def fl_linked_def case_prod_unfold Let_def)

lemma fl_insert_list_linked:
  "node < nd_fresh s \<Longrightarrow> fl_insert_after_list h node (val # vals) s = fl_insert_after_list h (nd_fresh s) vals (fl_linked h node val s)"
  by (simp add: fl_linked_def case_prod_unfold Let_def)

lemma fl_insert_list:
  "flist_ok h s (A @ B) \<Longrightarrow> \<exists>s' M. fl_insert_after_list h (last (h # A)) vals s = (last (h # A @ M), s') \<and> fl.step h s (A @ B) s' (A @ M @ B)
     \<and> map (nd_value s') (A @ M @ B) = map (nd_value s) A @ vals @ map (nd_value s) B"
proof (induction vals arbitrary: A s)
  case Nil
  then show ?case using fl.step_refl by (intro exI[of _ s] exI[of _ "[]"]) simp
next
  case (Cons val vals)
  let ?n = "nd_fresh s" and ?s = "fl_linked h (last (h # A)) val s"
  note l = fl_link_new[OF Cons.prems, where val = val]
  have lt: "last (h # A) < ?n" using flist_split(4)[OF Cons.prems] Cons.prems by (auto simp: flist_ok_def)
  have "flist_ok h ?s ((A @ [?n]) @ B)" using fl.step_ok[OF l(1)] by simp
  from Cons.IH[OF this] obtain s' M where s': "fl_insert_after_list h ?n vals ?s = (last (h # (A @ [?n]) @ M), s')"
    "fl.step h ?s ((A @ [?n]) @ B) s' ((A @ [?n]) @ M @ B)"
    "map (nd_value s') ((A @ [?n]) @ M @ B) = map (nd_value ?s) (A @ [?n]) @ vals @ map (nd_value ?s) B" by auto
  have st: "fl.step h s (A @ B) s' (A @ (?n # M) @ B)" using fl.step_trans[OF l(1)] s'(2) by simp
  have "map (nd_value ?s) (A @ [?n]) @ map (nd_value ?s) B = (map (nd_value s) A @ [val]) @ map (nd_value s) B" using l(2) by simp
  then have "map (nd_value ?s) (A @ [?n]) = map (nd_value s) A @ [val]" "map (nd_value ?s) B = map (nd_value s) B"
    by auto
  then have "map (nd_value s') (A @ (?n # M) @ B) = map (nd_value s) A @ (val # vals) @ map (nd_value s) B" using s'(3) by simp
  moreover have "fl_insert_after_list h (last (h # A)) (val # vals) s = (last (h # A @ ?n # M), s')"
    using s'(1) lt by (simp only: fl_insert_list_linked) simp
  ultimately show ?case using st by (intro exI[of _ s'] exI[of _ "?n # M"]) simp
qed

text \<open>At the end of the chain the new node needs no link: constructors, assignments and \<^verbatim>\<open>resize\<close>.\<close>

lemma put_next_same: "nd_next s n = q \<Longrightarrow> put_next n q s = s"
  using fun_upd_triv[of "nd_next s" n] by (simp add: put_next_def)

lemma fl_linked_end:
  assumes "nd_next s p = null" "p < nd_fresh s"
  shows "fl_linked h p val s = put_size h (nd_size s h + 1) (put_next p (nd_fresh s) (snd (fl_create val s)))"
    "nd_next (fl_linked h p val s) (nd_fresh s) = null" "nd_fresh (fl_linked h p val s) = Suc (nd_fresh s)"
  using assms by (simp_all add: fl_linked_def Let_def put_next_same)

lemma fl_extend_linked:
  "nd_next s p = null \<Longrightarrow> p < nd_fresh s \<Longrightarrow> fl_extend h p vals s = snd (fl_insert_after_list h p vals s)"
proof (induction vals arbitrary: p s)
  case (Cons val vals)
  note e = fl_linked_end[OF Cons.prems, of h val]
  have "fl_extend h p (val # vals) s = fl_extend h (nd_fresh s) vals (fl_linked h p val s)"
    by (simp add: e(1) case_prod_unfold Let_def)
  then show ?case using Cons.IH[OF e(2)] e(3) fl_insert_list_linked[OF Cons.prems(2)] by simp
qed simp

lemma fl_put_size_commute: "fl_create val (put_size h n s) = (fst (fl_create val s), put_size h n (snd (fl_create val s)))"
  by (simp add: fl_create_def put_size_def put_next_def Let_def)

lemma fl_append_size:
  "fl_append p vals (put_size h n s) = put_size h n (fl_append p vals s)"
  by (induction vals arbitrary: p s) (simp_all add: fl_put_size_commute put_size_commute case_prod_unfold Let_def)

lemma fl_append_extend: "put_size h m (fl_append p vals s) = put_size h m (fl_extend h p vals s)"
proof (induction vals arbitrary: p s)
  case (Cons val vals)
  let ?s = "put_next p (nd_fresh s) (snd (fl_create val s))"
  have "put_size h m (fl_extend h p (val # vals) s) = put_size h m (fl_append (nd_fresh s) vals (put_size h (nd_size s h + 1) ?s))"
    using Cons.IH by (simp add: case_prod_unfold Let_def)
  then show ?case by (simp add: fl_append_size put_size_commute(4) case_prod_unfold Let_def)
qed simp

lemma fl_extend:
  assumes ok: "flist_ok h s A"
  shows "\<exists>s' M. fl_extend h (last (h # A)) vals s = s' \<and> fl.step h s A s' (A @ M) \<and> map (nd_value s') (A @ M) = map (nd_value s) A @ vals"
proof -
  have ok': "flist_ok h s (A @ [])" using ok by simp
  have "nd_next s (last (h # A)) = null" "last (h # A) < nd_fresh s"
    using flist_split(1,4)[OF ok'] ok by (auto simp: flist_ok_def)
  then show ?thesis using fl_insert_list[OF ok', of vals] by (auto simp: fl_extend_linked)
qed

lemma fl_construct_ok:
  assumes "h < nd_fresh s" "h \<noteq> null"
  shows "flist_ok h (fl_construct h s) []" "changes {h} s (fl_construct h s)" "nd_fresh (fl_construct h s) = nd_fresh s"
    "nd_live (fl_construct h s) = nd_live s" "nd_value (fl_construct h s) = nd_value s"
  using assms by (auto simp: fl_construct_def flist_ok_def changes_def)

lemma fl_fill:
  assumes "flist_ok h s []"
  shows "\<exists>M. fl.step h s [] (fl_extend h h vals s) M \<and> map (nd_value (fl_extend h h vals s)) M = vals"
  using fl_extend[OF assms, of vals] by auto

lemma fl_assign_list_step:
  assumes "flist_ok h s xs"
  shows "\<exists>s' ys. fl_assign_list h vals s = Some s' \<and> fl.step h s xs s' ys \<and> map (nd_value s') ys = vals"
proof -
  obtain s1 where s1: "fl_destroy_all h s = Some s1" "fl.step h s xs s1 []" using fl_destroy_all[OF assms] by blast
  show ?thesis using fl_fill[OF fl.step_ok[OF s1(2)], of vals] fl.step_trans[OF s1(2)] s1(1) by (auto simp: fl_assign_list_def)
qed

section \<open>Copying\<close>

lemma fl_copy_loop:
  "fwd s (ns @ [null]) \<Longrightarrow> null \<notin> set ns \<Longrightarrow> \<forall>x\<in>set ns. x < nd_fresh s \<and> x \<noteq> t \<Longrightarrow>
    fl_copy_loop h (hd (ns @ [null])) t s = Some (fl_extend h t (map (nd_value s) ns) s)"
proof (induction ns arbitrary: t s)
  case Nil
  show ?case by (simp add: fl_copy_loop.simps)
next
  case (Cons a ns)
  have n: "nd_next s a = hd (ns @ [null])" "fwd s (ns @ [null])" using iffD1[OF fwd_Cons] Cons.prems(1) by (metis append_Cons)+
  let ?f = "nd_fresh s"
  define s1 where "s1 = put_size h (Suc (nd_size s h)) (put_next t ?f (snd (fl_create (nd_value s a) s)))"
  have af: "a \<noteq> ?f" "a \<noteq> t" "a \<noteq> null" and f: "?f \<notin> set ns" using Cons.prems(2,3) by auto
  have "fwd s1 (ns @ [null]) = fwd s (ns @ [null])"
    by (rule fwd_cong) (use Cons.prems(3) f in \<open>auto simp: s1_def\<close>)
  moreover have v: "map (nd_value s1) ns = map (nd_value s) ns" using f by (auto simp: s1_def)
  moreover have "\<forall>x\<in>set ns. x < nd_fresh s1 \<and> x \<noteq> ?f" "null \<notin> set ns" using Cons.prems(2,3) f by (auto simp: s1_def)
  ultimately have "fl_copy_loop h (hd (ns @ [null])) ?f s1 = Some (fl_extend h ?f (map (nd_value s) ns) s1)"
    using Cons.IH[of s1 ?f] n(2) by (simp only: v simp_thms)
  moreover have "fl_copy_loop h (hd ((a # ns) @ [null])) t s = fl_copy_loop h (hd (ns @ [null])) ?f s1"
    using af n(1) by (subst fl_copy_loop.simps) (simp add: s1_def Let_def)
  ultimately show ?case by (simp add: s1_def case_prod_unfold Let_def)
qed

lemma fl_copy_filled:
  assumes "fl.pair h k s [] ys"
  shows "fl_copy_loop h (nd_next s k) h s = Some (fl_extend h h (map (nd_value s) ys) s)"
proof -
  have "flist_ok k s ([] @ ys)" and y: "\<forall>x\<in>set ys. x < nd_fresh s \<and> x \<noteq> h" "null \<notin> set ys"
    using assms by (auto simp: fl.pair_def flist_ok_def)
  then show ?thesis using fl_copy_loop[OF flist_split(3) y(2,1)] flist_split(1) by fastforce
qed

lemma fl_copy_assign_step:
  assumes "fl.pair h k s xs ys"
  shows "\<exists>s' zs. fl_copy_assign h k s = Some s' \<and> fl.step h s xs s' zs \<and> map (nd_value s') zs = map (nd_value s) ys"
proof -
  have hk: "h \<noteq> k" "flist_ok h s xs" using assms by (simp_all add: fl.pair_def)
  obtain s1 where d: "fl_destroy_all h s = Some s1" "fl.step h s xs s1 []" using fl_destroy_all[OF hk(2)] by blast
  note p = fl.step_pair[OF d(2) assms]
  have q: "fl.pair h k s1 [] ys" using p(1) by (simp add: fl.step2_def)
  have "fl_copy_assign h k s = Some (fl_extend h h (map (nd_value s1) ys) s1)"
    using d(1) hk(1) fl_copy_filled[OF q] by (simp add: fl_copy_assign_def)
  then show ?thesis using fl_fill[OF fl.step_ok[OF d(2)], of "map (nd_value s1) ys"] fl.step_trans[OF d(2)] p(2) by metis
qed

section \<open>Exchanging chains\<close>

lemma fl_swap_step:
  assumes p: "fl.pair h k s xs ys"
  shows "fl.step2 h k s xs ys (fl_swap h k s) ys xs" "nd_value (fl_swap h k s) = nd_value s"
proof -
  let ?s = "fl_swap h k s"
  have ok: "flist_ok h s ([] @ xs)" "flist_ok k s ([] @ ys)" and hk: "h \<noteq> k"
    and d: "h \<notin> set ys" "k \<notin> set xs" "h \<notin> set xs" "k \<notin> set ys" "h \<noteq> null" "k \<noteq> null"
    using p by (auto simp: fl.pair_def flist_ok_def)
  note x = flist_split[OF ok(1)] and y = flist_split[OF ok(2)]
  have s: "?s = put_size k (length xs) (put_size h (length ys) (put_next k (hd (xs @ [null])) (put_next h (hd (ys @ [null])) s)))"
    using x(1) y(1) hk ok by (simp add: fl_swap_def flist_ok_def)
  have "fwd ?s (ys @ [null]) = fwd s (ys @ [null])" "fwd ?s (xs @ [null]) = fwd s (xs @ [null])"
    by (rule fwd_cong; use d in \<open>auto simp: s\<close>)+
  then have "fwd ?s (h # ys @ [null])" "fwd ?s (k # xs @ [null])"
    using x(3) y(3) hk by (auto intro!: iffD2[OF fwd_Cons] simp: s)
  then have "fl.pair h k ?s ys xs" using p d hk by (auto simp: fl.pair_def flist_ok_def s)
  moreover have "changes ({h, k} \<union> set xs \<union> set ys) s ?s"
    unfolding s by (intro changes_put(3) changes_put(1)) auto
  ultimately show "fl.step2 h k s xs ys ?s ys xs" by (simp add: fl.step2_def nd_strays_def s Un_commute)
  show "nd_value ?s = nd_value s" by (simp add: s)
qed

text \<open>A list that takes over a chain has nothing to give: it is a swap with an empty list.\<close>

lemma fl_take_swap:
  assumes "fl.pair h k s [] ys"
  shows "put_next k null (put_size k 0 (put_size h (nd_size s k) (put_next h (nd_next s k) s))) = fl_swap h k s"
proof -
  have "nd_next s h = null" "nd_size s h = 0" "h \<noteq> k" using assms by (simp_all add: fl.pair_def flist_ok_def)
  then show ?thesis by (simp add: fl_swap_def put_size_commute)
qed

lemma fl_move_assign_step:
  assumes "fl.pair h k s xs ys"
  shows "\<exists>s'. fl_move_assign h k s = Some s' \<and> fl.step2 h k s xs ys s' ys [] \<and> map (nd_value s') ys = map (nd_value s) ys"
proof -
  have hk: "h \<noteq> k" "flist_ok h s xs" using assms by (simp_all add: fl.pair_def)
  obtain s1 where d: "fl_destroy_all h s = Some s1" "fl.step h s xs s1 []" using fl_destroy_all[OF hk(2)] by blast
  note p = fl.step_pair[OF d(2) assms]
  have q: "fl.pair h k s1 [] ys" using p(1) by (simp add: fl.step2_def)
  have "fl_move_assign h k s = Some (fl_swap h k s1)"
    using d(1) hk(1) fl_take_swap[OF q] by (simp add: fl_move_assign_def Let_def)
  then show ?thesis using fl_swap_step[OF q] fl.step2_trans[OF p(1)] p(2) by metis
qed

end
