(* ===== verification/FListWhole.thy ===== *)
theory FListWhole
  imports FListOps
begin

text \<open>Operations that go through a whole singly linked list: erasing ranges, resizing, reversing, filtering and merging.\<close>

section \<open>Erasing and resizing\<close>

lemma fl_erase_after_step:
  assumes ok: "flist_ok h s (A @ B)"
  shows "\<exists>s'. fl_erase_after h (last (h # A)) s = (hd (tl B @ [null]), s') \<and> fl.step h s (A @ B) s' (A @ tl B) \<and> nd_value s' = nd_value s"
proof (cases B)
  case Nil
  then have "nd_next s (last (h # A)) = null" using flist_split(1)[OF ok] by simp
  then show ?thesis using Nil fl.step_refl[OF ok] by (simp add: fl_erase_after_def Let_def)
next
  case (Cons a C)
  then have ok': "flist_ok h s (A @ a # C)" using ok by simp
  define p where "p = last (h # A)"
  note d = fl_drop_one[OF ok', folded p_def]
  have "nd_next (fl_destroy_node a (put_next p (nd_next s a) s)) p = hd (C @ [null])"
    using d(4,5) by (simp add: fl_destroy_freed)
  moreover have "nd_size (fl_destroy_node a (put_next p (nd_next s a) s)) = nd_size s" using d(4) by (simp add: fl_destroy_freed)
  ultimately have "fl_erase_after h p s = (hd (C @ [null]), put_size h (nd_size s h - 1) (fl_destroy_node a (put_next p (nd_next s a) s)))"
    using d(3,4) by (simp add: fl_erase_after_def Let_def)
  then show ?thesis using d(1,2) Cons by (simp add: p_def)
qed

lemma fl_pop_erase: "snd (fl_erase_after h h s) = fl_pop_front h s"
  by (simp add: fl_erase_after_def fl_pop_front_def Let_def)

lemma fl_erase_loop:
  "flist_ok h s (A @ M @ B) \<Longrightarrow> \<exists>s'. fl_erase_loop h (last (h # A)) (hd (B @ [null])) s = Some s'
     \<and> fl.step h s (A @ M @ B) s' (A @ B) \<and> nd_value s' = nd_value s"
proof (induction M arbitrary: s)
  case Nil
  have "nd_next s (last (h # A)) = hd (B @ [null])" using flist_split(1)[of h s A B] Nil by simp
  then show ?case using fl.step_refl[OF Nil] by (simp add: fl_erase_loop.simps)
next
  case (Cons a M)
  have ok: "flist_ok h s (A @ a # M @ B)" using Cons.prems by simp
  define p where "p = last (h # A)"
  note d = fl_drop_one[OF ok, folded p_def]
  let ?s = "put_size h (nd_size s h - 1) (fl_destroy_node a (put_next p (nd_next s a) s))"
  have "distinct (h # A @ a # M @ B)" using ok by (simp add: flist_ok_def)
  then have "a \<noteq> hd (B @ [null])" using d(4) by (cases B) auto
  moreover have "nd_size (fl_destroy_node a (put_next p (nd_next s a) s)) = nd_size s" using d(4) by (simp add: fl_destroy_freed)
  ultimately have "fl_erase_loop h p (hd (B @ [null])) s = fl_erase_loop h p (hd (B @ [null])) ?s"
    using d(3) by (subst fl_erase_loop.simps) (simp add: Let_def)
  then show ?case using Cons.IH[of ?s] fl.step_ok[OF d(1)] fl.step_trans[OF d(1)] d(2) by (auto simp: p_def)
qed

lemma fl_last: "fwd s (p # R @ [null]) \<Longrightarrow> null \<notin> set R \<Longrightarrow> fl_last p s = Some (last (p # R))"
proof (induction R arbitrary: p)
  case Nil
  then show ?case by (simp add: fl_last.simps)
next
  case (Cons a R)
  then show ?case by (subst fl_last.simps) simp
qed

lemma fl_advance:
  "fwd s (p # A @ [e]) \<Longrightarrow> ls_advance (length A) s p = last (p # A)"
proof (induction A arbitrary: p)
  case (Cons a A)
  then show ?case by simp
qed simp

lemma fl_at:
  assumes "flist_ok h s xs" "i \<le> length xs"
  shows "ls_advance i s h = last (h # take i xs)"
proof -
  have ok: "flist_ok h s (take i xs @ drop i xs)" using assms(1) by simp
  have "fwd s ((h # take i xs) @ [hd (drop i xs @ [null])])"
    using flist_split(1,2)[OF ok] fwd_join[of "h # take i xs" "[hd (drop i xs @ [null])]" s] by simp
  then show ?thesis using fl_advance[of s h "take i xs"] assms(2) by simp
qed

lemma fl_resize_step:
  assumes ok: "flist_ok h s xs"
  shows "\<exists>s' ys. fl_resize h n val s = Some s' \<and> fl.step h s xs s' ys
    \<and> map (nd_value s') ys = take n (map (nd_value s) xs) @ replicate (n - length xs) val"
proof -
  have sz: "nd_size s h = length xs" using ok by (simp add: flist_ok_def)
  consider "n < length xs" | "n = length xs" | "length xs < n" by linarith
  then show ?thesis
  proof cases
    case 1
    let ?A = "take n xs" and ?M = "drop n xs"
    have ok': "flist_ok h s (?A @ ?M @ [])" "flist_ok h s (?A @ ?M)" using ok by simp_all
    define p where "p = last (h # ?A)"
    note f = flist_split[OF ok'(2), folded p_def]
    have at: "ls_advance n s h = p" using fl_at[OF ok, of n] 1 by (simp add: p_def)
    have nz: "null \<notin> set ?M" using ok by (auto simp: flist_ok_def dest: in_set_dropD)
    have "fwd (put_next p null s) (?M @ [null])" using f(3,6) by simp
    then have "fl_free_loop (hd (?M @ [null])) (put_next p null s) = Some (nd_freed (set ?M) (put_next p null s))"
      using fl_free_loop nz by blast
    then have "fl_resize h n val s = Some (put_size h n (nd_freed (set ?M) (put_next p null s)))"
      using 1 sz at f(1) by (simp add: fl_resize_def Let_def)
    then show ?thesis using fl_drop[OF ok'(1), folded p_def] 1 by (intro exI[of _ "put_size h n (nd_freed (set ?M) (put_next p null s))"] exI[of _ ?A]) (simp add: take_map)
  next
    case 2
    then show ?thesis using fl.step_refl[OF ok] sz by (intro exI[of _ s] exI[of _ xs]) (simp add: fl_resize_def)
  next
    case 3
    let ?vals = "replicate (n - length xs) val"
    have "null \<notin> set xs" using ok by (auto simp: flist_ok_def)
    then have l: "fl_last h s = Some (last (h # xs))" using fl_last[of s h xs] ok by (simp add: flist_ok_def)
    obtain M where M: "fl.step h s xs (fl_extend h (last (h # xs)) ?vals s) (xs @ M)"
      "map (nd_value (fl_extend h (last (h # xs)) ?vals s)) (xs @ M) = map (nd_value s) xs @ ?vals"
      using fl_extend[OF ok, of ?vals] by blast
    let ?s = "fl_extend h (last (h # xs)) ?vals s"
    have "length (map (nd_value ?s) (xs @ M)) = length (map (nd_value s) xs @ ?vals)" using M(2) by (rule arg_cong)
    then have "nd_size ?s h = n" using fl.step_ok[OF M(1)] 3 by (simp add: flist_ok_def)
    then have "put_size h n ?s = ?s" using fun_upd_triv[of "nd_size ?s" h] by (simp add: put_size_def)
    then have "put_size h n (fl_append (last (h # xs)) ?vals s) = ?s" by (simp only: fl_append_extend)
    then have "fl_resize h n val s = Some ?s" using 3 sz l by (simp add: fl_resize_def Let_def)
    then show ?thesis using M 3 by (intro exI[of _ ?s] exI[of _ "xs @ M"]) simp
  qed
qed

section \<open>Reversing\<close>

text \<open>Links between the addresses of \<open>A\<close> change, and nothing else.\<close>

definition rechained :: "addr set \<Rightarrow> 'v nodes \<Rightarrow> 'v nodes \<Rightarrow> bool" where
  "rechained A s s' \<longleftrightarrow> (\<exists>f. s' = s\<lparr>nd_next := f\<rparr> \<and> (\<forall>x. x \<notin> A \<longrightarrow> f x = nd_next s x))"

lemma rechained_refl: "rechained A s s"
  unfolding rechained_def by (intro exI[of _ "nd_next s"]) simp

lemma rechained_put: "rechained A s s1 \<Longrightarrow> n \<in> A \<Longrightarrow> rechained A s (put_next n p s1)"
  unfolding rechained_def put_next_def by auto

lemma rechained_trans: "rechained A s s1 \<Longrightarrow> rechained B s1 s2 \<Longrightarrow> A \<union> B \<subseteq> C \<Longrightarrow> rechained C s s2"
proof -
  assume "rechained A s s1" "rechained B s1 s2" and C: "A \<union> B \<subseteq> C"
  then obtain f g where f: "s1 = s\<lparr>nd_next := f\<rparr>" "\<And>x. x \<notin> A \<Longrightarrow> f x = nd_next s x"
    and g: "s2 = s1\<lparr>nd_next := g\<rparr>" "\<And>x. x \<notin> B \<Longrightarrow> g x = nd_next s1 x"
    by (auto simp: rechained_def)
  have "s2 = s\<lparr>nd_next := g\<rparr>" using f(1) g(1) by simp
  moreover have "g x = nd_next s x" if "x \<notin> C" for x
  proof -
    have "x \<notin> A" "x \<notin> B" using that C by auto
    then show ?thesis using f g(2) by simp
  qed
  ultimately show "rechained C s s2" by (auto simp: rechained_def)
qed

lemma rechained_same:
  assumes "rechained A s s'"
  shows "nd_value s' = nd_value s" "nd_size s' = nd_size s" "nd_live s' = nd_live s" "nd_fresh s' = nd_fresh s" "nd_prev s' = nd_prev s"
    "x \<notin> A \<Longrightarrow> nd_next s' x = nd_next s x"
  using assms by (auto simp: rechained_def)

lemma rechained_changes: "rechained A s s' \<Longrightarrow> changes A s s'"
  using rechained_same[of A s s'] by (simp add: changes_def)

lemma fl_reverse_loop:
  "fwd s (M @ [null]) \<Longrightarrow> fwd s (R @ [null]) \<Longrightarrow> distinct (M @ R) \<Longrightarrow> null \<notin> set M \<Longrightarrow>
    \<exists>s'. fl_reverse_loop (hd (R @ [null])) (hd (M @ [null])) s = Some (hd (rev M @ R @ [null]), s')
      \<and> fwd s' (rev M @ R @ [null]) \<and> rechained (set M) s s'"
proof (induction M arbitrary: R s)
  case Nil
  then show ?case using rechained_refl by (simp add: fl_reverse_loop.simps)
next
  case (Cons a M)
  have n: "nd_next s a = hd (M @ [null])" "fwd s (M @ [null])" using iffD1[OF fwd_Cons] Cons.prems(1) by (metis append_Cons)+
  let ?s = "put_next a (hd (R @ [null])) s"
  have "a \<notin> set (M @ R)" using Cons.prems(3) by auto
  then have "fwd ?s (M @ [null])" "fwd ?s (R @ [null])" using n(2) Cons.prems(2) by simp_all
  moreover from this(2) have "fwd ?s ((a # R) @ [null])" using iffD2[OF fwd_Cons, of ?s a R null] by simp
  ultimately obtain s' where s': "fl_reverse_loop a (hd (M @ [null])) ?s = Some (hd (rev M @ (a # R) @ [null]), s')"
    "fwd s' (rev M @ (a # R) @ [null])" "rechained (set M) ?s s'"
    using Cons.IH[of ?s "a # R"] Cons.prems(3,4) by auto
  have "fl_reverse_loop (hd (R @ [null])) (hd ((a # M) @ [null])) s = fl_reverse_loop a (hd (M @ [null])) ?s"
    using Cons.prems(4) n(1) by (subst fl_reverse_loop.simps) simp
  moreover have "rechained (set (a # M)) s s'"
    by (rule rechained_trans[OF rechained_put[OF rechained_refl, where n = a and A = "{a}"] s'(3)]) auto
  ultimately show ?case using s'(1,2) by simp
qed

lemma fl_reverse_step:
  assumes ok: "flist_ok h s xs"
  shows "\<exists>s'. fl_reverse h s = Some s' \<and> fl.step h s xs s' (rev xs) \<and> nd_value s' = nd_value s"
proof -
  have ok': "flist_ok h s ([] @ xs)" using ok by simp
  note f = flist_split[OF ok']
  have d: "distinct (xs @ [])" "null \<notin> set xs" "h \<notin> set xs" using ok by (auto simp: flist_ok_def)
  obtain s1 where s1: "fl_reverse_loop null (hd (xs @ [null])) s = Some (hd (rev xs @ [null]), s1)"
    "fwd s1 (rev xs @ [null])" "rechained (set xs) s s1"
    using fl_reverse_loop[of s xs "[]"] f(3) d by auto
  let ?s = "put_next h (hd (rev xs @ [null])) s1"
  note r = rechained_same[OF s1(3)]
  have "fwd ?s (rev xs @ [null])" using s1(2) d(3) by simp
  then have "fwd ?s (h # rev xs @ [null])" using iffD2[OF fwd_Cons, of ?s h "rev xs" null] by simp
  then have "flist_ok h ?s (rev xs)" using ok r by (simp add: flist_ok_def)
  moreover have "changes (insert h (set xs)) s ?s"
    by (rule changes_put(1)[OF _ changes_mono[OF rechained_changes[OF s1(3)]]]) auto
  moreover have "fl_reverse h s = Some ?s" using s1(1) f(1) by (simp add: fl_reverse_def)
  ultimately show ?thesis using r by (auto simp: fl.step_def nd_strays_def)
qed

section \<open>Filtering\<close>

lemma fl_remove_loop:
  "flist_ok h s (A @ B) \<Longrightarrow> \<exists>s'. fl_remove_loop h P (last (h # A)) c s = Some (c + length (filter (\<lambda>x. P (nd_value s x)) B), s')
     \<and> fl.step h s (A @ B) s' (A @ filter (\<lambda>x. \<not> P (nd_value s x)) B) \<and> nd_value s' = nd_value s"
proof (induction B arbitrary: A c s)
  case Nil
  have "nd_next s (last (h # A)) = null" using flist_split(1)[OF Nil] by simp
  then show ?case using fl.step_refl[OF Nil] by (simp add: fl_remove_loop.simps)
next
  case (Cons a B)
  define p where "p = last (h # A)"
  note d = fl_drop_one[OF Cons.prems, folded p_def]
  show ?case
  proof (cases "P (nd_value s a)")
    case True
    define s1 where "s1 = put_size h (nd_size s h - 1) (fl_destroy_node a (put_next p (nd_next s a) s))"
    have "nd_size (fl_destroy_node a (put_next p (nd_next s a) s)) = nd_size s" using d(4) by (simp add: fl_destroy_freed)
    then have "fl_remove_loop h P p c s = fl_remove_loop h P p (c + 1) s1"
      using True d(3,4) by (subst fl_remove_loop.simps) (simp add: s1_def Let_def)
    then show ?thesis
      using Cons.IH[OF fl.step_ok[OF d(1)], of "c + 1", folded s1_def p_def] d(2) True fl.step_trans[OF d(1)]
      unfolding s1_def[symmetric] p_def[symmetric] by auto
  next
    case False
    have "fl_remove_loop h P p c s = fl_remove_loop h P (last (h # A @ [a])) c s"
      using False d(3,4) by (subst fl_remove_loop.simps) simp
    then show ?thesis using Cons.IH[of s "A @ [a]" c] Cons.prems False by (simp add: p_def)
  qed
qed

lemma fl_remove_if_step:
  assumes "flist_ok h s xs"
  shows "\<exists>s' ys. fl_remove_if h P s = Some (length (filter P (map (nd_value s) xs)), s') \<and> fl.step h s xs s' ys
    \<and> map (nd_value s') ys = filter (\<lambda>v. \<not> P v) (map (nd_value s) xs)"
  using fl_remove_loop[of h s "[]" xs P 0] assms by (force simp: fl_remove_if_def filter_map comp_def)

lemma fl_unique_loop:
  "flist_ok h s (A @ B) \<Longrightarrow> \<exists>s'. fl_unique_loop h P (hd (B @ [null])) c s
       = Some (c + (length B - length (list_unique (\<lambda>a b. P (nd_value s a) (nd_value s b)) B)), s')
     \<and> fl.step h s (A @ B) s' (A @ list_unique (\<lambda>a b. P (nd_value s a) (nd_value s b)) B) \<and> nd_value s' = nd_value s"
proof (induction B arbitrary: A c s rule: length_induct)
  case (1 B)
  let ?Q = "\<lambda>a b. P (nd_value s a) (nd_value s b)"
  consider "B = []" | a where "B = [a]" | a b C where "B = a # b # C" by (cases B; cases "tl B"; auto)
  then show ?case
  proof cases
    case 1
    then show ?thesis using fl.step_refl[OF "1.prems"] by (simp add: fl_unique_loop.simps)
  next
    case (2 a)
    have "nd_next s a = null" using flist_split(1)[of h s "A @ [a]" "[]"] "1.prems" 2 by simp
    then show ?thesis using fl.step_refl[OF "1.prems"] 2 by (simp add: fl_unique_loop.simps)
  next
    case (3 a b C)
    have ok: "flist_ok h s ((A @ [a]) @ b # C)" using "1.prems" 3 by simp
    have an: "a \<noteq> null" using "1.prems" 3 by (simp add: flist_ok_def)
    note d = fl_drop_one[OF ok, simplified]
    show ?thesis
    proof (cases "?Q a b")
      case True
      define s1 where "s1 = put_size h (nd_size s h - 1) (fl_destroy_node b (put_next a (nd_next s b) s))"
      have "nd_size (fl_destroy_node b (put_next a (nd_next s b) s)) = nd_size s" using d(4) by (simp add: fl_destroy_freed)
      then have l: "fl_unique_loop h P (hd (B @ [null])) c s = fl_unique_loop h P (hd ((a # C) @ [null])) (c + 1) s1"
        using True d(3,4) an 3 by (subst fl_unique_loop.simps) (simp add: s1_def Let_def)
      have st: "fl.step h s (A @ B) s1 (A @ a # C)" "nd_value s1 = nd_value s" using d(1,2) 3 by (simp_all add: s1_def)
      then show ?thesis
        using "1.IH"[rule_format, of "a # C" s1 A "c + 1"] fl.step_ok[OF st(1)] fl.step_trans[OF st(1)] 3 True l
          list_unique_length[of ?Q "a # C"] by (auto simp: Suc_diff_le)
    next
      case False
      have "fl_unique_loop h P (hd (B @ [null])) c s = fl_unique_loop h P (hd ((b # C) @ [null])) c s"
        using False d(3,4) an 3 by (subst fl_unique_loop.simps) simp
      then show ?thesis
        using "1.IH"[rule_format, of "b # C" s "A @ [a]" c] "1.prems" 3 False by simp
    qed
  qed
qed

lemma fl_unique_step:
  assumes "flist_ok h s xs"
  shows "\<exists>s' ys. fl_unique h P s = Some (length xs - length (list_unique P (map (nd_value s) xs)), s') \<and> fl.step h s xs s' ys
    \<and> map (nd_value s') ys = list_unique P (map (nd_value s) xs)"
proof -
  let ?ys = "list_unique (\<lambda>a b. P (nd_value s a) (nd_value s b)) xs"
  have n: "nd_next s h = hd (xs @ [null])" using flist_split(1)[of h s "[]" xs] assms by simp
  obtain s' where "fl_unique_loop h P (hd (xs @ [null])) 0 s = Some (length xs - length ?ys, s')"
    "fl.step h s xs s' ?ys" "nd_value s' = nd_value s"
    using fl_unique_loop[of h s "[]" xs P 0] assms by auto
  moreover have "map (nd_value s) ?ys = list_unique P (map (nd_value s) xs)" by (rule list_unique_map)
  moreover from this have "length (list_unique P (map (nd_value s) xs)) = length ?ys" by (metis length_map)
  ultimately show ?thesis using n by (intro exI[of _ s'] exI[of _ ?ys]) (simp add: fl_unique_def)
qed

end
