(* ===== verification/FListMerge.thy ===== *)
theory FListMerge
  imports FListWhole
begin

text \<open>Merging two singly linked lists, and what happens when a list is merged with itself.\<close>

section \<open>Two lists\<close>

lemma rechained_one: "n \<in> A \<Longrightarrow> rechained A s (put_next n p s)"
  by (rule rechained_put[OF rechained_refl])

lemma fl_merge_loop:
  assumes "fwd s (as @ [null])" "fwd s (bs @ [null])" "distinct (as @ bs)" "t \<notin> set (as @ bs)" "null \<notin> set (as @ bs)" "nd_value s = v"
  shows "\<exists>a b t' s'. fl_merge_loop lt (hd (as @ [null])) (hd (bs @ [null])) t s = Some (a, b, t', s')
    \<and> fwd (put_next t' (if a \<noteq> null then a else b) s') (t # list_merge (\<lambda>a b. lt (v a) (v b)) as bs @ [null])
    \<and> rechained (insert t (set (as @ bs))) s (put_next t' (if a \<noteq> null then a else b) s')"
    (is "\<exists>a b t' s'. ?R s t as bs a b t' s'")
  using assms
proof (induction as bs arbitrary: s t rule: two_lists_induct[where Q = "\<lambda>a b. lt (v a) (v b)"])
  case (Nil1 bs)
  have "fwd (put_next t (hd (bs @ [null])) s) (t # bs @ [null])" using Nil1 by (intro iffD2[OF fwd_Cons]) simp
  note f = this
  show ?case
    by (rule exI[of _ null], rule exI[of _ "hd (bs @ [null])"], rule exI[of _ t], rule exI[of _ s])
      (use f in \<open>simp add: fl_merge_loop.simps rechained_one\<close>)
next
  case (Nil2 x xs)
  have "fwd (put_next t x s) (t # (x # xs) @ [null])" using Nil2 by (intro iffD2[OF fwd_Cons]) simp
  note f = this
  show ?case
    by (rule exI[of _ x], rule exI[of _ null], rule exI[of _ t], rule exI[of _ s])
      (use f Nil2(5) in \<open>simp add: fl_merge_loop.simps rechained_one\<close>)
next
  case (Cons x xs y ys)
  let ?L = "\<lambda>a b. lt (v a) (v b)"
  have xy: "x \<noteq> null" "y \<noteq> null" "x \<noteq> t" "y \<noteq> t" "x \<noteq> y" "x \<notin> set ys" "y \<notin> set xs" using Cons.prems by auto
  have n: "nd_next s x = hd (xs @ [null])" "nd_next s y = hd (ys @ [null])" "fwd s (xs @ [null])" "fwd s (ys @ [null])"
    using Cons.prems(1,2) fwd_Cons by (metis append_Cons)+
  have taken: "\<exists>a b t' s'. ?R s t (x # xs) (y # ys) a b t' s'"
    if c: "c \<in> {x, y}"
      and l: "fl_merge_loop lt x y t s = fl_merge_loop lt (hd (as @ [null])) (hd (bs @ [null])) c (put_next t c s)"
      and m: "list_merge ?L (x # xs) (y # ys) = c # list_merge ?L as bs" "insert c (set (as @ bs)) = set ((x # xs) @ y # ys)"
      and i: "\<exists>a b t' s'. ?R (put_next t c s) c as bs a b t' s'" for c as bs
  proof -
    obtain a b t' s' where r: "fl_merge_loop lt (hd (as @ [null])) (hd (bs @ [null])) c (put_next t c s) = Some (a, b, t', s')"
      "fwd (put_next t' (if a \<noteq> null then a else b) s') (c # list_merge ?L as bs @ [null])"
      "rechained (insert c (set (as @ bs))) (put_next t c s) (put_next t' (if a \<noteq> null then a else b) s')" using i by blast
    let ?S = "set ((x # xs) @ y # ys)" and ?s = "put_next t' (if a \<noteq> null then a else b) s'"
    have s: "rechained ?S (put_next t c s) ?s" using r(3) unfolding m(2) .
    have "nd_next ?s t = c" using rechained_same(6)[OF s Cons.prems(4)] by simp
    moreover have "rechained (insert t ?S) s ?s"
      by (rule rechained_trans[OF rechained_one[where A = "{t}"] s]) auto
    ultimately have "?R s t (x # xs) (y # ys) a b t' s'" using r(1,2) l m(1) by simp
    then show ?thesis by blast
  qed
  show ?case
  proof (cases "?L x y")
    case True
    show ?thesis
    proof (rule taken[where c = x and as = xs and bs = "y # ys"])
      show "fl_merge_loop lt x y t s = fl_merge_loop lt (hd (xs @ [null])) (hd ((y # ys) @ [null])) x (put_next t x s)"
        using xy n True Cons.prems(6) by (subst fl_merge_loop.simps) simp
      show "\<exists>a b t' s'. ?R (put_next t x s) x xs (y # ys) a b t' s'"
        using Cons.IH(1)[OF True, of "put_next t x s" x] Cons.prems xy n by simp
    qed (use True in auto)
  next
    case False
    show ?thesis
    proof (rule taken[where c = y and as = "x # xs" and bs = ys])
      show "fl_merge_loop lt x y t s = fl_merge_loop lt (hd ((x # xs) @ [null])) (hd (ys @ [null])) y (put_next t y s)"
        using xy n False Cons.prems(6) by (subst fl_merge_loop.simps) simp
      show "\<exists>a b t' s'. ?R (put_next t y s) y (x # xs) ys a b t' s'"
        using Cons.IH(2)[OF False, of "put_next t y s" y] Cons.prems xy n by simp
    qed (use False in auto)
  qed
qed

lemma fl_merge_step:
  assumes p: "fl.pair h k s xs ys"
  shows "\<exists>s'. fl_merge h lt k s = Some s' \<and> nd_value s' = nd_value s
    \<and> fl.step2 h k s xs ys s' (list_merge (\<lambda>a b. lt (nd_value s a) (nd_value s b)) xs ys) []"
proof -
  let ?ns = "list_merge (\<lambda>a b. lt (nd_value s a) (nd_value s b)) xs ys"
  have ok: "flist_ok h s ([] @ xs)" "flist_ok k s ([] @ ys)" and hk: "h \<noteq> k" "k \<noteq> null" "h \<noteq> null"
    and d: "distinct (xs @ ys)" "h \<notin> set (xs @ ys)" "k \<notin> set (xs @ ys)" "null \<notin> set (xs @ ys)"
    using p by (auto simp: fl.pair_def flist_ok_def)
  note x = flist_split[OF ok(1)] and y = flist_split[OF ok(2)]
  obtain a b t s1 where l: "fl_merge_loop lt (nd_next s h) (nd_next s k) h s = Some (a, b, t, s1)"
    and f: "fwd (put_next t (if a \<noteq> null then a else b) s1) (h # ?ns @ [null])"
    and r: "rechained (insert h (set (xs @ ys))) s (put_next t (if a \<noteq> null then a else b) s1)"
    using fl_merge_loop[OF x(3) y(3) d(1,2,4) refl, of lt] x(1) y(1) by auto
  define s2 where "s2 = put_next t (if a \<noteq> null then a else b) s1"
  define s' where "s' = put_size k 0 (put_next k null (put_size h (length xs + length ys) s2))"
  note r2 = rechained_same[OF r, folded s2_def]
  have sz: "nd_size s h = length xs" "nd_size s k = length ys" using ok by (simp_all add: flist_ok_def)
  have m: "fl_merge h lt k s = Some s'"
    using l r2(2) sz by (simp add: fl_merge_def s'_def s2_def Let_def)
  have dns: "distinct ?ns" by (metis d(1) list_merge_mset mset_append mset_eq_imp_distinct_iff)
  have "fwd s' (h # ?ns @ [null]) = fwd s2 (h # ?ns @ [null])"
    by (rule fwd_cong) (use hk d(3) in \<open>auto simp: s'_def butlast_append\<close>)
  then have "flist_ok h s' ?ns" using f ok hk d(2) dns r2 by (auto simp: flist_ok_def s'_def s2_def)
  moreover have "flist_ok k s' []" using ok hk r2 by (simp add: flist_ok_def s'_def)
  ultimately have "fl.pair h k s' ?ns []" using hk d by (auto simp: fl.pair_def)
  moreover have "changes ({h, k} \<union> set xs \<union> set ys) s s'"
  proof -
    have "changes ({h, k} \<union> set xs \<union> set ys) s s2"
      by (rule changes_mono[OF rechained_changes[OF r[folded s2_def]]]) auto
    then show ?thesis unfolding s'_def by (intro changes_put(1,3)) auto
  qed
  ultimately have "fl.step2 h k s xs ys s' ?ns []" using r2 by (simp add: fl.step2_def nd_strays_def s'_def)
  then show ?thesis using m r2 by (simp add: s'_def)
qed

section \<open>A list and itself\<close>

text \<open>
  The loop goes around the nodes \<open>S\<close> forever when their links stay among them and the other chain stands at an element that comes
  after all of them.
\<close>

definition merge_stuck :: "addr set \<Rightarrow> ('v \<Rightarrow> 'v \<Rightarrow> bool) \<Rightarrow> addr \<Rightarrow> addr \<Rightarrow> addr \<Rightarrow> 'v nodes \<Rightarrow> bool" where
  "merge_stuck S lt a b t s \<longleftrightarrow> a \<in> S \<and> t \<in> S \<and> null \<notin> S \<and> b \<noteq> null \<and> (\<forall>u\<in>S. lt (nd_value s u) (nd_value s b))
     \<and> (\<forall>u\<in>S. u \<noteq> t \<longrightarrow> nd_next s u \<in> S)"

lemma merge_stuck_step:
  assumes "merge_stuck S lt a b t s"
  shows "a \<noteq> null" "b \<noteq> null" "lt (nd_value s a) (nd_value s b)" "merge_stuck S lt (nd_next (put_next t a s) a) b a (put_next t a s)"
proof -
  show "a \<noteq> null" using assms unfolding merge_stuck_def by metis
qed (use assms in \<open>auto simp: merge_stuck_def\<close>)

lemma fl_merge_stuck: "merge_stuck S lt a b t s \<Longrightarrow> fl_merge_loop lt a b t s = None"
proof (rule ccontr)
  assume stuck: "merge_stuck S lt a b t s" and "fl_merge_loop lt a b t s \<noteq> None"
  then obtain r where r: "fl_merge_loop lt a b t s = Some r" by blast
  have "merge_stuck S lt a b t s \<longrightarrow> False"
  proof (rule fl_merge_loop.raw_induct[where P = "\<lambda>lt a b t s _. merge_stuck S lt a b t s \<longrightarrow> False", OF _ r])
    fix rec and lt :: "'a \<Rightarrow> 'a \<Rightarrow> bool" and a b t and s :: "'a nodes" and r
    assume rec: "\<And>lt a b t s r. rec lt a b t s = Some r \<Longrightarrow> merge_stuck S lt a b t s \<longrightarrow> False"
      and eq: "(if a \<noteq> null \<and> b \<noteq> null then
        if lt (nd_value s a) (nd_value s b) then let s = put_next t a s in rec lt (nd_next s a) b a s
        else let s = put_next t b s in rec lt a (nd_next s b) b s
      else Some (a, b, t, s)) = Some r"
    show "merge_stuck S lt a b t s \<longrightarrow> False"
    proof
      assume m: "merge_stuck S lt a b t s"
      note n = merge_stuck_step[OF m]
      have "rec lt (nd_next (put_next t a s) a) b a (put_next t a s) = Some r" using eq n(1-3) by (simp only: Let_def simp_thms if_True)
      then show False using rec n(4) by blast
    qed
  qed
  then show False using stuck by blast
qed

lemma fwd_inner_links:
  assumes "fwd s (P @ z # R)" "u \<in> set P" "u \<noteq> last P"
  shows "nd_next s u \<in> set P"
proof -
  obtain A b B where P: "P = A @ u # b # B" using assms(2,3) by (metis append_is_Nil_conv last_snoc list.exhaust split_list)
  have "fwd s (A @ u # b # B @ z # R)" using assms(1) P by simp
  then have "fwd s (u # b # B @ z # R)" using fwd_append[of s A u "b # B @ z # R"] by blast
  then have "nd_next s u = b" by simp
  then show ?thesis using P by simp
qed

lemma fl_self_loop:
  assumes "strict_weak lt" "fwd s ((x # P) @ R @ [null])" "null \<notin> set (x # P @ R)"
    "\<forall>u\<in>set (x # P). \<not> lt (nd_value s x) (nd_value s u)"
  shows "fl_merge_loop lt x (hd (R @ [null])) (last (x # P)) s =
    (if \<exists>u\<in>set R. lt (nd_value s x) (nd_value s u) then None else Some (x, null, last (x # P @ R), s))"
  using assms(2-)
proof (induction R arbitrary: P)
  case Nil
  then show ?case by (simp add: fl_merge_loop.simps)
next
  case (Cons z R)
  have xz: "x \<noteq> null" "z \<noteq> null" using Cons.prems(2) by auto
  have n: "nd_next s (last (x # P)) = z" using fwd_join[of "x # P" "z # R @ [null]" s] Cons.prems(1) by simp
  have nz: "nd_next s z = hd (R @ [null])"
    using fwd_join[of "x # P @ [z]" "R @ [null]" s] Cons.prems(1) by simp
  show ?case
  proof (cases "lt (nd_value s x) (nd_value s z)")
    case True
    have "lt (nd_value s u) (nd_value s z)" if "u \<in> set (x # P)" for u
      using strict_weak.not_lt_trans[OF assms(1), of "nd_value s x" "nd_value s u" "nd_value s z"] that Cons.prems(3) True by blast
    moreover have "\<forall>u\<in>set (x # P). u \<noteq> last (x # P) \<longrightarrow> nd_next s u \<in> set (x # P)"
      using fwd_inner_links[of s "x # P" z "R @ [null]"] Cons.prems(1) by simp
    moreover have "last (x # P) \<in> set (x # P)" by (rule last_in_set) simp
    ultimately have "merge_stuck (set (x # P)) lt x z (last (x # P)) s"
      using xz Cons.prems(2) unfolding merge_stuck_def by (metis Un_iff append_Cons list.set_intros(1) set_append)
    then have "fl_merge_loop lt x z (last (x # P)) s = None" by (rule fl_merge_stuck)
    then show ?thesis using True by simp
  next
    case False
    have "fl_merge_loop lt x z (last (x # P)) s = fl_merge_loop lt x (hd (R @ [null])) z s"
      using xz False n nz by (subst fl_merge_loop.simps) (simp add: put_next_same)
    then show ?thesis using Cons.IH[of "P @ [z]"] Cons.prems False by simp
  qed
qed

lemma fl_self_merge:
  assumes sw: "strict_weak lt" and ok: "flist_ok h s (x # xs)"
  shows "\<exists>u\<in>set xs. lt (nd_value s x) (nd_value s u) \<Longrightarrow> fl_merge h lt h s = None"
    "\<forall>u\<in>set xs. \<not> lt (nd_value s x) (nd_value s u) \<Longrightarrow> \<exists>s'. fl_merge h lt h s = Some s' \<and> flist_ok h s' []
       \<and> nd_strays s' {} = nd_strays s (set (x # xs)) \<union> set (x # xs)"
proof -
  have f: "nd_next s h = x" "fwd s ((x # []) @ xs @ [null])" using flist_split[of h s "[]" "x # xs"] ok by simp_all
  have nz: "null \<notin> set (x # [] @ xs)" "x \<noteq> null" using ok by (auto simp: flist_ok_def)
  have irr: "\<not> lt (nd_value s x) (nd_value s x)" by (rule strict_weak.lt_irrefl[OF sw])
  have n: "nd_next s x = hd (xs @ [null])" using fwd_join[of "[x]" "xs @ [null]" s] f(2) by simp
  have "fl_merge_loop lt x x h s = fl_merge_loop lt x (hd (xs @ [null])) x s"
    using nz(2) irr n put_next_same[OF f(1)] by (subst fl_merge_loop.simps) (simp add: Let_def)
  also have "\<dots> = (if \<exists>u\<in>set xs. lt (nd_value s x) (nd_value s u) then None else Some (x, null, last (x # xs), s))"
    using fl_self_loop[OF sw f(2) nz(1)] irr by simp
  finally have l: "fl_merge_loop lt (nd_next s h) (nd_next s h) h s =
    (if \<exists>u\<in>set xs. lt (nd_value s x) (nd_value s u) then None else Some (x, null, last (x # xs), s))" unfolding f(1) .
  show "fl_merge h lt h s = None" if "\<exists>u\<in>set xs. lt (nd_value s x) (nd_value s u)" using l that by (simp add: fl_merge_def)
  show "\<exists>s'. fl_merge h lt h s = Some s' \<and> flist_ok h s' [] \<and> nd_strays s' {} = nd_strays s (set (x # xs)) \<union> set (x # xs)"
    if "\<forall>u\<in>set xs. \<not> lt (nd_value s x) (nd_value s u)"
  proof -
    have "\<not> (\<exists>u\<in>set xs. lt (nd_value s x) (nd_value s u))" using that by blast
    then have "fl_merge_loop lt (nd_next s h) (nd_next s h) h s = Some (x, null, last (x # xs), s)" using l by simp
    then have m: "fl_merge h lt h s = Some (put_size h 0 (put_next h null (put_size h (nd_size s h + nd_size s h) (put_next (last (x # xs)) x s))))"
      using nz(2) by (simp add: fl_merge_def Let_def)
    have "nd_strays s {} = nd_strays s (set (x # xs)) \<union> set (x # xs)" using ok by (auto simp: nd_strays_def flist_ok_def)
    then show ?thesis using m ok by (simp add: flist_ok_def nd_strays_def)
  qed
qed

end
