(* ===== verification/FListProg.thy ===== *)
theory FListProg
  imports FListMerge
begin

text \<open>
  Programs over several singly linked lists in one store, and the same programs on plain lists of values. A position is the iterator
  reached from \<^verbatim>\<open>before_begin()\<close> by that many increments: position 0 is before the first element.
\<close>

section \<open>Iterators\<close>

definition fl_deref :: "'v nodes \<Rightarrow> addr \<Rightarrow> 'v" where
  "fl_deref s it = nd_value s it"

definition fl_inc :: "'v nodes \<Rightarrow> addr \<Rightarrow> addr" where
  "fl_inc s it = nd_next s it"

partial_function (option) fl_iterate :: "'v nodes \<Rightarrow> addr \<Rightarrow> addr \<Rightarrow> 'v list option" where
  "fl_iterate s it stop =
     (if it \<noteq> stop then Option.bind (fl_iterate s (fl_inc s it) stop) (\<lambda>vals. Some (fl_deref s it # vals)) else Some [])"

declare fl_iterate.simps [code]

fun fl_advance_it :: "nat \<Rightarrow> 'v nodes \<Rightarrow> addr \<Rightarrow> addr" where
  "fl_advance_it 0 s it = it"
| "fl_advance_it (Suc i) s it = fl_advance_it i s (fl_inc s it)"

definition fl_pos :: "addr \<Rightarrow> nat \<Rightarrow> 'v nodes \<Rightarrow> addr" where
  "fl_pos h i s = fl_advance_it i s (fl_before_begin h s)"

lemma iterate_flist:
  "flist_ok h s (A @ B) \<Longrightarrow> fl_iterate s (hd (B @ [null])) null = Some (map (nd_value s) B)"
proof (induction B arbitrary: A)
  case Nil
  show ?case by (simp add: fl_iterate.simps)
next
  case (Cons b B)
  have ok: "flist_ok h s ((A @ [b]) @ B)" and bn: "b \<noteq> null" using Cons.prems by (auto simp: flist_ok_def)
  have "fl_inc s b = hd (B @ [null])" using flist_split(1)[OF ok] by (simp add: fl_inc_def)
  then show ?case using Cons.IH[OF ok] bn by (subst fl_iterate.simps) (simp add: fl_deref_def)
qed

lemma advance_it: "fl_advance_it i s it = ls_advance i s it"
  by (induction i arbitrary: it) (simp_all add: fl_inc_def)

lemma advance_Suc: "ls_advance (Suc i) s it = nd_next s (ls_advance i s it)"
  by (induction i arbitrary: it) simp_all

lemma flist_pos:
  assumes "flist_ok h s xs" "i \<le> length xs"
  shows "fl_pos h i s = last (h # take i xs)" "fl_pos h (Suc i) s = hd (drop i xs @ [null])"
proof -
  have p: "fl_pos h j s = ls_advance j s h" for j by (simp add: fl_pos_def fl_before_begin_def advance_it)
  show "fl_pos h i s = last (h # take i xs)" using fl_at[OF assms] p by simp
  have "flist_ok h s (take i xs @ drop i xs)" using assms(1) by simp
  then have "nd_next s (last (h # take i xs)) = hd (drop i xs @ [null])" by (rule flist_split(1))
  then show "fl_pos h (Suc i) s = hd (drop i xs @ [null])" unfolding p advance_Suc fl_at[OF assms] .
qed

section \<open>Operations\<close>

datatype 'v flist_op =
    FAssign addr "'v list"
  | FClear addr
  | FPush_front addr 'v
  | FEmplace_front addr 'v
  | FPop_front addr
  | FInsert_after addr nat 'v
  | FInsert_after_list addr nat "'v list"
  | FEmplace_after addr nat 'v
  | FErase_after addr nat
  | FErase_after_range addr nat nat
  | FResize addr nat 'v
  | FCopy addr addr
  | FMove addr addr
  | FSwap addr addr
  | FReverse addr
  | FRemove addr 'v
  | FRemove_if addr "'v \<Rightarrow> bool"
  | FUnique addr "'v \<Rightarrow> 'v \<Rightarrow> bool"
  | FMerge addr addr "'v \<Rightarrow> 'v \<Rightarrow> bool"
  | FFront addr
  | FCount addr
  | FIs_empty addr
  | FIterate addr

text \<open>An operation that returns an iterator, and the values from there to the end, or after it.\<close>

definition fl_from :: "(addr \<times> 'v nodes) option \<Rightarrow> ('v answer \<times> 'v nodes) option" where
  "fl_from r = Option.bind r (\<lambda>(it, s). map_option (\<lambda>vals. ((0, vals), s)) (fl_iterate s it null))"

definition fl_after :: "addr \<times> 'v nodes \<Rightarrow> ('v answer \<times> 'v nodes) option" where
  "fl_after r = fl_from (Some (fl_inc (snd r) (fst r), snd r))"

fun flist_do :: "'v flist_op \<Rightarrow> 'v nodes \<Rightarrow> ('v answer \<times> 'v nodes) option" where
  "flist_do (FAssign h vals) s = Option.bind (fl_assign_list h vals s) quiet"
| "flist_do (FClear h) s = Option.bind (fl_destroy_all h s) quiet"
| "flist_do (FPush_front h val) s = quiet (fl_push_front h val s)"
| "flist_do (FEmplace_front h val) s = (let (n, s) = fl_emplace_front h val s in Some ((0, [fl_deref s n]), s))"
| "flist_do (FPop_front h) s = quiet (fl_pop_front h s)"
| "flist_do (FInsert_after h i val) s = fl_from (Some (fl_insert_after h (fl_pos h i s) val s))"
| "flist_do (FInsert_after_list h i vals) s = fl_after (fl_insert_after_list h (fl_pos h i s) vals s)"
| "flist_do (FEmplace_after h i val) s = fl_from (Some (fl_emplace_after h (fl_pos h i s) val s))"
| "flist_do (FErase_after h i) s = fl_from (Some (fl_erase_after h (fl_pos h i s) s))"
| "flist_do (FErase_after_range h i j) s = fl_from (fl_erase_after_range h (fl_pos h i s) (fl_pos h j s) s)"
| "flist_do (FResize h n val) s = Option.bind (fl_resize h n val s) quiet"
| "flist_do (FCopy h k) s = Option.bind (fl_copy_assign h k s) quiet"
| "flist_do (FMove h k) s = Option.bind (fl_move_assign h k s) quiet"
| "flist_do (FSwap h k) s = quiet (fl_swap h k s)"
| "flist_do (FReverse h) s = Option.bind (fl_reverse h s) quiet"
| "flist_do (FRemove h val) s = counted (fl_remove h val s)"
| "flist_do (FRemove_if h P) s = counted (fl_remove_if h P s)"
| "flist_do (FUnique h P) s = counted (fl_unique h P s)"
| "flist_do (FMerge h k lt) s = Option.bind (fl_merge h lt k s) quiet"
| "flist_do (FFront h) s = Some ((0, [fl_front h s]), s)"
| "flist_do (FCount h) s = Some ((nd_size s h, []), s)"
| "flist_do (FIs_empty h) s = Some ((if fl_is_empty h s then 1 else 0, []), s)"
| "flist_do (FIterate h) s = fl_from (Some (fl_begin h s, s))"

section \<open>The same on values\<close>

fun flist_values :: "'v flist_op \<Rightarrow> (addr \<Rightarrow> 'v list) \<Rightarrow> 'v answer \<times> (addr \<Rightarrow> 'v list)" where
  "flist_values (FAssign h vals) m = ((0, []), m(h := vals))"
| "flist_values (FClear h) m = ((0, []), m(h := []))"
| "flist_values (FPush_front h val) m = ((0, []), m(h := val # m h))"
| "flist_values (FEmplace_front h val) m = ((0, [val]), m(h := val # m h))"
| "flist_values (FPop_front h) m = ((0, []), m(h := tl (m h)))"
| "flist_values (FInsert_after h i val) m = ((0, val # drop i (m h)), m(h := take i (m h) @ val # drop i (m h)))"
| "flist_values (FInsert_after_list h i vals) m = ((0, drop i (m h)), m(h := take i (m h) @ vals @ drop i (m h)))"
| "flist_values (FEmplace_after h i val) m = ((0, val # drop i (m h)), m(h := take i (m h) @ val # drop i (m h)))"
| "flist_values (FErase_after h i) m = ((0, drop (Suc i) (m h)), m(h := take i (m h) @ drop (Suc i) (m h)))"
| "flist_values (FErase_after_range h i j) m = ((0, drop (j - 1) (m h)), m(h := take i (m h) @ drop (j - 1) (m h)))"
| "flist_values (FResize h n val) m = ((0, []), m(h := take n (m h) @ replicate (n - length (m h)) val))"
| "flist_values (FCopy h k) m = ((0, []), m(h := m k))"
| "flist_values (FMove h k) m = ((0, []), if h = k then m else m(h := m k, k := []))"
| "flist_values (FSwap h k) m = ((0, []), m(h := m k, k := m h))"
| "flist_values (FReverse h) m = ((0, []), m(h := rev (m h)))"
| "flist_values (FRemove h val) m = ((length (filter (\<lambda>v. v = val) (m h)), []), m(h := filter (\<lambda>v. v \<noteq> val) (m h)))"
| "flist_values (FRemove_if h P) m = ((length (filter P (m h)), []), m(h := filter (\<lambda>v. \<not> P v) (m h)))"
| "flist_values (FUnique h P) m = ((length (m h) - length (list_unique P (m h)), []), m(h := list_unique P (m h)))"
| "flist_values (FMerge h k lt) m = ((0, []), m(h := list_merge lt (m h) (m k), k := []))"
| "flist_values (FFront h) m = ((0, [hd (m h)]), m)"
| "flist_values (FCount h) m = ((length (m h), []), m)"
| "flist_values (FIs_empty h) m = ((if m h = [] then 1 else 0, []), m)"
| "flist_values (FIterate h) m = ((0, m h), m)"

text \<open>
  The contract: positions of the list they are used with, a first element where it is read, and no list merged with itself. Unlike
  with \<open>list_pre\<close>, taking the first element of an empty list, and the one after the last, is allowed.
\<close>

fun flist_pre :: "addr set \<Rightarrow> 'v flist_op \<Rightarrow> (addr \<Rightarrow> 'v list) \<Rightarrow> bool" where
  "flist_pre H (FAssign h vals) m = (h \<in> H)"
| "flist_pre H (FClear h) m = (h \<in> H)"
| "flist_pre H (FPush_front h val) m = (h \<in> H)"
| "flist_pre H (FEmplace_front h val) m = (h \<in> H)"
| "flist_pre H (FPop_front h) m = (h \<in> H)"
| "flist_pre H (FInsert_after h i val) m = (h \<in> H \<and> i \<le> length (m h))"
| "flist_pre H (FInsert_after_list h i vals) m = (h \<in> H \<and> i \<le> length (m h))"
| "flist_pre H (FEmplace_after h i val) m = (h \<in> H \<and> i \<le> length (m h))"
| "flist_pre H (FErase_after h i) m = (h \<in> H \<and> i \<le> length (m h))"
| "flist_pre H (FErase_after_range h i j) m = (h \<in> H \<and> i < j \<and> j \<le> length (m h) + 1)"
| "flist_pre H (FResize h n val) m = (h \<in> H)"
| "flist_pre H (FCopy h k) m = (h \<in> H \<and> k \<in> H)"
| "flist_pre H (FMove h k) m = (h \<in> H \<and> k \<in> H)"
| "flist_pre H (FSwap h k) m = (h \<in> H \<and> k \<in> H)"
| "flist_pre H (FReverse h) m = (h \<in> H)"
| "flist_pre H (FRemove h val) m = (h \<in> H)"
| "flist_pre H (FRemove_if h P) m = (h \<in> H)"
| "flist_pre H (FUnique h P) m = (h \<in> H)"
| "flist_pre H (FMerge h k lt) m = (h \<in> H \<and> k \<in> H \<and> h \<noteq> k)"
| "flist_pre H (FFront h) m = (h \<in> H \<and> m h \<noteq> [])"
| "flist_pre H (FCount h) m = (h \<in> H)"
| "flist_pre H (FIs_empty h) m = (h \<in> H)"
| "flist_pre H (FIterate h) m = (h \<in> H)"

end
