(* ===== verification/FListRefine.thy ===== *)
theory FListRefine
  imports FListProg
begin

text \<open>
  Every operation of a program over singly linked lists does to the nodes what the value lists say: the lists are a
  \<open>node_program\<close>.
\<close>

definition fl_refined :: "addr set \<Rightarrow> 'v nodes \<Rightarrow> (addr \<Rightarrow> addr list) \<Rightarrow> (addr \<Rightarrow> 'v list) \<Rightarrow> 'v flist_op \<Rightarrow> bool" where
  "fl_refined H s X m op \<longleftrightarrow> (\<exists>s' X'. flist_do op s = Some (fst (flist_values op m), s') \<and> fl.group H s' X' (snd (flist_values op m))
     \<and> nd_strays s' (fl.held H X') = nd_strays s (fl.held H X))"

lemma fl_refined_same:
  "fl.group H s X m \<Longrightarrow> flist_do op s = Some (fst (flist_values op m), s) \<Longrightarrow> snd (flist_values op m) = m \<Longrightarrow> fl_refined H s X m op"
  unfolding fl_refined_def by auto

lemma fl_refined_step:
  assumes "fl.group H s X m" "h \<in> H" "fl.step h s (X h) s' ys" "flist_do op s = Some (fst (flist_values op m), s')"
    "snd (flist_values op m) = m(h := map (nd_value s') ys)"
  shows "fl_refined H s X m op"
  using fl.group_step_to[OF assms(1-3) refl] assms(4,5) unfolding fl_refined_def by metis

lemma fl_refined_step2:
  assumes "fl.group H s X m" "h \<in> H" "k \<in> H" "fl.step2 h k s (X h) (X k) s' ys zs" "flist_do op s = Some (fst (flist_values op m), s')"
    "snd (flist_values op m) = m(h := map (nd_value s') ys, k := map (nd_value s') zs)"
  shows "fl_refined H s X m op"
  using fl.group_step2_to[OF assms(1-4) refl refl] assms(5,6) unfolding fl_refined_def by metis

lemma fl_group_list:
  assumes "fl.group H s X m" "h \<in> H"
  shows "flist_ok h s (X h)" "map (nd_value s) (X h) = m h" "length (X h) = length (m h)"
    "map (nd_value s) (take i (X h)) = take i (m h)" "map (nd_value s) (drop i (X h)) = drop i (m h)"
proof -
  show "flist_ok h s (X h)" and v: "map (nd_value s) (X h) = m h" using assms by (simp_all add: fl.group_def)
  show "length (X h) = length (m h)" "map (nd_value s) (take i (X h)) = take i (m h)" "map (nd_value s) (drop i (X h)) = drop i (m h)"
    unfolding v[symmetric] by (simp_all add: take_map drop_map)
qed

lemma fl_from_list:
  assumes "flist_ok h s' (A @ B)"
  shows "fl_from (Some (hd (B @ [null]), s')) = Some ((0, map (nd_value s') B), s')"
  using iterate_flist[OF assms] by (simp add: fl_from_def)

lemma fl_linked_at:
  assumes g: "fl.group H s X m" and h: "h \<in> H" "i \<le> length (m h)"
  shows "\<exists>ys. fl.step h s (X h) (fl_linked h (fl_pos h i s) val s) ys
    \<and> map (nd_value (fl_linked h (fl_pos h i s) val s)) ys = take i (m h) @ val # drop i (m h)
    \<and> fl_from (Some (nd_fresh s, fl_linked h (fl_pos h i s) val s)) = Some ((0, val # drop i (m h)), fl_linked h (fl_pos h i s) val s)"
    "h < nd_fresh s" "fl_pos h i s < nd_fresh s"
proof -
  note x = fl_group_list[OF g h(1)]
  let ?s = "fl_linked h (fl_pos h i s) val s" and ?n = "nd_fresh s"
  let ?A = "take i (X h)" and ?B = "drop i (X h)"
  have ok: "flist_ok h s (?A @ ?B)" using x(1) by simp
  have p: "fl_pos h i s = last (h # ?A)" using flist_pos(1)[OF x(1), of i] h(2) x(3) by simp
  note l = fl_link_new[OF ok, where val = val, folded p]
  show hf: "h < nd_fresh s" using x(1) by (simp add: flist_ok_def)
  show "fl_pos h i s < nd_fresh s" 
  proof -
    have "last (h # ?A) \<in> insert h (set (X h))" using flist_split(4)[OF ok] set_take_subset[of i "X h"] by blast
    then show ?thesis using x(1) unfolding p by (auto simp: flist_ok_def)
  qed
  have st: "fl.step h s (X h) ?s (?A @ ?n # ?B)" using l(1) by simp
  have v: "map (nd_value ?s) (?A @ ?n # ?B) = take i (m h) @ val # drop i (m h)" unfolding l(2) x(4,5) ..
  then have "map (nd_value ?s) (?n # ?B) = val # drop i (m h)" by (simp add: x(3))
  then have "fl_from (Some (?n, ?s)) = Some ((0, val # drop i (m h)), ?s)" using fl_from_list[OF fl.step_ok[OF st]] by simp
  then show "\<exists>ys. fl.step h s (X h) ?s ys \<and> map (nd_value ?s) ys = take i (m h) @ val # drop i (m h)
    \<and> fl_from (Some (?n, ?s)) = Some ((0, val # drop i (m h)), ?s)" using st v by blast
qed

lemma fl_pos_0: "fl_pos h 0 s = h"
  by (simp add: fl_pos_def fl_before_begin_def)

lemma fl_refined_insert:
  assumes g: "fl.group H s X m" and h: "h \<in> H"
  shows "i \<le> length (m h) \<Longrightarrow> fl_refined H s X m (FInsert_after h i val)"
    "i \<le> length (m h) \<Longrightarrow> fl_refined H s X m (FEmplace_after h i val)"
    "fl_refined H s X m (FPush_front h val)" "fl_refined H s X m (FEmplace_front h val)"
proof -
  show "fl_refined H s X m (FInsert_after h i val)" "fl_refined H s X m (FEmplace_after h i val)" if i: "i \<le> length (m h)"
  proof -
    note l = fl_linked_at(1)[OF g h i, where val = val] fl_linked_at(2,3)[OF g h i]
    obtain ys where ys: "fl.step h s (X h) (fl_linked h (fl_pos h i s) val s) ys"
      "map (nd_value (fl_linked h (fl_pos h i s) val s)) ys = take i (m h) @ val # drop i (m h)"
      "fl_from (Some (nd_fresh s, fl_linked h (fl_pos h i s) val s)) = Some ((0, val # drop i (m h)), fl_linked h (fl_pos h i s) val s)"
      using l(1) by blast
    show "fl_refined H s X m (FInsert_after h i val)" "fl_refined H s X m (FEmplace_after h i val)"
      by (rule fl_refined_step[OF g h ys(1)]; use ys(2,3) fl_inserts_linked[OF l(2,3)] in simp)+
  qed
  have i0: "0 \<le> length (m h)" by simp
  note l = fl_linked_at(1)[OF g h i0, where val = val, unfolded fl_pos_0 take_0 drop_0 append_Nil] fl_linked_at(2)[OF g h i0]
  from l(1) obtain ys where ys: "fl.step h s (X h) (fl_linked h h val s) ys" "map (nd_value (fl_linked h h val s)) ys = val # m h"
    by (elim exE conjE)
  have "nd_value (fl_linked h h val s) (nd_fresh s) = val" using l(2) by (simp add: fl_linked_def Let_def)
  then have d: "flist_do (FPush_front h val) s = Some ((0, []), fl_linked h h val s)"
    "flist_do (FEmplace_front h val) s = Some ((0, [val]), fl_linked h h val s)"
    using fl_inserts_linked(1,2)[OF l(2) l(2)] by (simp_all add: quiet_def fl_deref_def)
  show "fl_refined H s X m (FPush_front h val)" by (rule fl_refined_step[OF g h ys(1)]) (simp_all only: d ys(2) flist_values.simps fst_conv snd_conv)
  show "fl_refined H s X m (FEmplace_front h val)" by (rule fl_refined_step[OF g h ys(1)]) (simp_all only: d ys(2) flist_values.simps fst_conv snd_conv)
qed

lemma fl_refined_insert_list:
  assumes g: "fl.group H s X m" and h: "h \<in> H" "i \<le> length (m h)"
  shows "fl_refined H s X m (FInsert_after_list h i vals)"
proof -
  note x = fl_group_list[OF g h(1)]
  let ?A = "take i (X h)" and ?B = "drop i (X h)"
  have ok: "flist_ok h s (?A @ ?B)" using x(1) by simp
  have p: "fl_pos h i s = last (h # ?A)" using flist_pos(1)[OF x(1), of i] h(2) x(3) by simp
  obtain s' M where s': "fl_insert_after_list h (last (h # ?A)) vals s = (last (h # ?A @ M), s')"
    "fl.step h s (?A @ ?B) s' (?A @ M @ ?B)" "map (nd_value s') (?A @ M @ ?B) = take i (m h) @ vals @ drop i (m h)"
    using fl_insert_list[OF ok, of vals] unfolding x(4,5) by blast
  have ok': "flist_ok h s' ((?A @ M) @ ?B)" using fl.step_ok[OF s'(2)] by simp
  have "map (nd_value s') ((?A @ M) @ ?B) = (take i (m h) @ vals) @ drop i (m h)" using s'(3) by simp
  then have v: "map (nd_value s') ?B = drop i (m h)" using x(3) by (simp only: map_append append_eq_append_conv length_map length_drop disjI2)
  have "fl_inc s' (last (h # ?A @ M)) = hd (?B @ [null])" using flist_split(1)[OF ok'] by (simp add: fl_inc_def)
  then have a: "fl_after (last (h # ?A @ M), s') = Some ((0, drop i (m h)), s')"
    using fl_from_list[OF ok'] v by (simp only: fl_after_def fst_conv snd_conv)
  have st: "fl.step h s (X h) s' (?A @ M @ ?B)" using s'(2) by simp
  have "flist_do (FInsert_after_list h i vals) s = Some ((0, drop i (m h)), s')" by (simp only: flist_do.simps p s'(1) a)
  then show ?thesis using fl_refined_step[OF g h(1) st, of "FInsert_after_list h i vals"] s'(3) by (simp only: flist_values.simps fst_conv snd_conv)
qed

lemma fl_refined_erase:
  assumes g: "fl.group H s X m" and h: "h \<in> H"
  shows "i \<le> length (m h) \<Longrightarrow> fl_refined H s X m (FErase_after h i)" "fl_refined H s X m (FPop_front h)"
    "i < j \<Longrightarrow> j \<le> length (m h) + 1 \<Longrightarrow> fl_refined H s X m (FErase_after_range h i j)"
proof -
  note x = fl_group_list[OF g h]
  have one: "\<exists>s'. fl_erase_after h (fl_pos h i s) s = (hd (drop (Suc i) (X h) @ [null]), s') \<and> fl.step h s (X h) s' (take i (X h) @ drop (Suc i) (X h))
    \<and> nd_value s' = nd_value s" if i: "i \<le> length (m h)" for i
  proof -
    have "flist_ok h s (take i (X h) @ drop i (X h))" using x(1) by simp
    moreover have "fl_pos h i s = last (h # take i (X h))" using flist_pos(1)[OF x(1), of i] i x(3) by simp
    ultimately show ?thesis using fl_erase_after_step[of h s "take i (X h)" "drop i (X h)"] by (simp add: drop_Suc tl_drop)
  qed
  show "fl_refined H s X m (FErase_after h i)" if i: "i \<le> length (m h)"
  proof -
    obtain s' where s': "fl_erase_after h (fl_pos h i s) s = (hd (drop (Suc i) (X h) @ [null]), s')"
      "fl.step h s (X h) s' (take i (X h) @ drop (Suc i) (X h))" "nd_value s' = nd_value s" using one[OF i] by blast
    show ?thesis by (rule fl_refined_step[OF g h s'(2)]) (use s' x(4,5) fl_from_list[OF fl.step_ok[OF s'(2)]] in simp_all)
  qed
  obtain s' where s': "fl_erase_after h h s = (hd (drop 1 (X h) @ [null]), s')" "fl.step h s (X h) s' (drop 1 (X h))" "nd_value s' = nd_value s"
    using one[of 0] by (auto simp: fl_pos_0)
  show "fl_refined H s X m (FPop_front h)"
    by (rule fl_refined_step[OF g h s'(2)]) (use s' x(5)[of 1] in \<open>simp_all add: quiet_def fl_pop_erase[symmetric] drop_Suc\<close>)
  show "fl_refined H s X m (FErase_after_range h i j)" if ij: "i < j" "j \<le> length (m h) + 1"
  proof -
    obtain l where l: "j = Suc l" "i \<le> l" "l \<le> length (X h)" using ij x(3) by (cases j) auto
    let ?A = "take i (X h)" and ?M = "take (l - i) (drop i (X h))" and ?B = "drop l (X h)"
    have X: "?A @ ?M @ ?B = X h" by (rule take_append_drop_mid[symmetric]) (use l in auto)
    then have ok: "flist_ok h s (?A @ ?M @ ?B)" using x(1) by simp
    obtain s' where s': "fl_erase_loop h (last (h # ?A)) (hd (?B @ [null])) s = Some s'" "fl.step h s (?A @ ?M @ ?B) s' (?A @ ?B)"
      "nd_value s' = nd_value s" using fl_erase_loop[OF ok] by blast
    have p: "fl_pos h i s = last (h # ?A)" "fl_pos h j s = hd (?B @ [null])" using flist_pos[OF x(1)] l by simp_all
    have st: "fl.step h s (X h) s' (?A @ ?B)" using s'(2) unfolding X .
    have "fl_from (Some (hd (?B @ [null]), s')) = Some ((0, drop l (m h)), s')"
      using fl_from_list[OF fl.step_ok[OF st]] x(5) s'(3) by simp
    then have "flist_do (FErase_after_range h i j) s = Some ((0, drop l (m h)), s')"
      by (simp only: flist_do.simps fl_erase_after_range_def p s'(1) bind.bind_lunit)
    then show ?thesis
      by (intro fl_refined_step[OF g h st]) (use s'(3) x(4,5) l(1) in simp_all)
  qed
qed

lemma fl_refined_whole:
  assumes g: "fl.group H s X m" and h: "h \<in> H"
  shows "fl_refined H s X m (FAssign h vals)" "fl_refined H s X m (FClear h)"
    "fl_refined H s X m (FResize h n val)" "fl_refined H s X m (FReverse h)"
    "fl_refined H s X m (FRemove_if h P)" "fl_refined H s X m (FRemove h val)" "fl_refined H s X m (FUnique h Q)"
proof -
  note x = fl_group_list[OF g h]
  note by_step = fl_refined_step[OF g h]
  obtain s1 ys1 where "fl_assign_list h vals s = Some s1" "fl.step h s (X h) s1 ys1" "map (nd_value s1) ys1 = vals"
    using fl_assign_list_step[OF x(1)] by blast
  then show "fl_refined H s X m (FAssign h vals)" by (intro by_step) (auto simp: quiet_def)
  obtain s3 where "fl_destroy_all h s = Some s3" "fl.step h s (X h) s3 []" using fl_destroy_all[OF x(1)] by blast
  then show "fl_refined H s X m (FClear h)" by (intro by_step) (auto simp: quiet_def)
  obtain s4 ys4 where "fl_resize h n val s = Some s4" "fl.step h s (X h) s4 ys4"
    "map (nd_value s4) ys4 = take n (map (nd_value s) (X h)) @ replicate (n - length (X h)) val"
    using fl_resize_step[OF x(1)] by blast
  then show "fl_refined H s X m (FResize h n val)" using x(2,3) by (intro by_step) (auto simp: quiet_def)
  obtain s5 where "fl_reverse h s = Some s5" "fl.step h s (X h) s5 (rev (X h))" "nd_value s5 = nd_value s"
    using fl_reverse_step[OF x(1)] by blast
  then show "fl_refined H s X m (FReverse h)" using x(2) by (intro by_step) (auto simp: quiet_def rev_map[symmetric])
  have r: "fl_refined H s X m op" if "flist_do op s = counted (fl_remove_if h P s)"
    "flist_values op m = ((length (filter P (m h)), []), m(h := filter (\<lambda>v. \<not> P v) (m h)))" for P op
  proof -
    obtain s7 ys7 where s7: "fl_remove_if h P s = Some (length (filter P (map (nd_value s) (X h))), s7)" "fl.step h s (X h) s7 ys7"
      "map (nd_value s7) ys7 = filter (\<lambda>v. \<not> P v) (map (nd_value s) (X h))"
      using fl_remove_if_step[OF x(1)] by blast
    show ?thesis by (rule by_step[OF s7(2)]) (use s7(1,3)[unfolded x(2)] that in \<open>simp_all add: counted_def\<close>)
  qed
  show "fl_refined H s X m (FRemove_if h P)" by (rule r) simp_all
  show "fl_refined H s X m (FRemove h val)" by (rule r[where P = "\<lambda>v. v = val"]) (simp_all add: fl_remove_def)
  obtain s8 ys8 where s8: "fl_unique h Q s = Some (length (X h) - length (list_unique Q (map (nd_value s) (X h))), s8)" "fl.step h s (X h) s8 ys8"
    "map (nd_value s8) ys8 = list_unique Q (map (nd_value s) (X h))"
    using fl_unique_step[OF x(1)] by blast
  show "fl_refined H s X m (FUnique h Q)"
    by (rule by_step[OF s8(2)]) (use s8(1,3)[unfolded x(2,3)] in \<open>simp_all add: counted_def\<close>)
qed

lemma fl_swap_self: "fl_swap h h s = s"
  by (simp add: fl_swap_def put_next_def put_size_def)

lemma fl_refined_exchange:
  assumes g: "fl.group H s X m" and H: "h \<in> H" "k \<in> H"
  shows "fl_refined H s X m (FCopy h k)" "fl_refined H s X m (FMove h k)" "fl_refined H s X m (FSwap h k)"
proof -
  note x = fl_group_list[OF g H(1)] and y = fl_group_list[OF g H(2)]
  have "fl_refined H s X m (FCopy h k) \<and> fl_refined H s X m (FMove h k) \<and> fl_refined H s X m (FSwap h k)"
  proof (cases "h = k")
    case True
    then show ?thesis
      using g by (auto intro!: fl_refined_same simp: fl_copy_assign_def fl_move_assign_def fl_swap_self quiet_def)
  next
    case False
    note p = fl.group_pair[OF g H False]
    obtain s1 zs where s1: "fl_copy_assign h k s = Some s1" "fl.step h s (X h) s1 zs" "map (nd_value s1) zs = map (nd_value s) (X k)"
      using fl_copy_assign_step[OF p] by blast
    have "fl_refined H s X m (FCopy h k)"
      by (rule fl_refined_step[OF g H(1) s1(2)]) (use s1 y in \<open>simp_all add: quiet_def\<close>)
    moreover obtain s2 where s2: "fl_move_assign h k s = Some s2" "fl.step2 h k s (X h) (X k) s2 (X k) []"
      "map (nd_value s2) (X k) = map (nd_value s) (X k)" using fl_move_assign_step[OF p] by blast
    have "fl_refined H s X m (FMove h k)"
      by (rule fl_refined_step2[OF g H s2(2)]) (use s2 y False in \<open>simp_all add: quiet_def\<close>)
    moreover have "fl_refined H s X m (FSwap h k)"
      by (rule fl_refined_step2[OF g H fl_swap_step(1)[OF p]]) (use fl_swap_step(2)[OF p] x y in \<open>simp_all add: quiet_def\<close>)
    ultimately show ?thesis by blast
  qed
  then show "fl_refined H s X m (FCopy h k)" "fl_refined H s X m (FMove h k)" "fl_refined H s X m (FSwap h k)" by blast+
qed

lemma fl_refined_merge:
  assumes g: "fl.group H s X m" and H: "h \<in> H" "k \<in> H" "h \<noteq> k"
  shows "fl_refined H s X m (FMerge h k lt)"
proof -
  note x = fl_group_list[OF g H(1)] and y = fl_group_list[OF g H(2)]
  obtain s1 where s1: "fl_merge h lt k s = Some s1" "nd_value s1 = nd_value s"
    "fl.step2 h k s (X h) (X k) s1 (list_merge (\<lambda>a b. lt (nd_value s a) (nd_value s b)) (X h) (X k)) []"
    using fl_merge_step[OF fl.group_pair[OF g H], of lt] by blast
  show ?thesis
    by (rule fl_refined_step2[OF g H(1,2) s1(3)]) (use s1 x(2) y(2) in \<open>simp_all add: quiet_def list_merge_map\<close>)
qed

lemma empty_chain: "flist_ok h s xs \<Longrightarrow> nd_next s h = null \<longleftrightarrow> xs = []"
  using flist_split(1)[of h s "[]" xs] by (cases xs) (auto simp: flist_ok_def)

lemma fl_refined_queries:
  assumes g: "fl.group H s X m" and h: "h \<in> H"
  shows "m h \<noteq> [] \<Longrightarrow> fl_refined H s X m (FFront h)" "fl_refined H s X m (FCount h)"
    "fl_refined H s X m (FIs_empty h)" "fl_refined H s X m (FIterate h)"
proof -
  note x = fl_group_list[OF g h]
  have ok: "flist_ok h s ([] @ X h)" and sz: "nd_size s h = length (m h)" using x(1,3) by (simp_all add: flist_ok_def)
  have b: "nd_next s h = hd (X h @ [null])" using flist_split(1)[OF ok] by simp
  have e: "X h = [] \<longleftrightarrow> m h = []" using x(3) by (metis length_0_conv)
  have "fl_front h s = hd (m h)" if "m h \<noteq> []"
    using that e b arg_cong[OF x(2), of hd] by (simp add: fl_front_def hd_map)
  then show "m h \<noteq> [] \<Longrightarrow> fl_refined H s X m (FFront h)" by (simp add: fl_refined_same[OF g])
  show "fl_refined H s X m (FCount h)" using sz by (intro fl_refined_same[OF g]) simp_all
  show "fl_refined H s X m (FIs_empty h)"
    using empty_chain[OF x(1)] e by (intro fl_refined_same[OF g]) (simp_all add: fl_is_empty_def)
  have "fl_from (Some (fl_begin h s, s)) = Some ((0, m h), s)" using fl_from_list[OF ok] b x(2) by (simp add: fl_begin_def)
  then show "fl_refined H s X m (FIterate h)" by (intro fl_refined_same[OF g]) simp_all
qed

lemma flist_values_refined:
  assumes "fl.group H s X m" "flist_pre H op m"
  shows "fl_refined H s X m op"
  using assms(2)
  by (cases op) (auto intro!: fl_refined_insert[OF assms(1)] fl_refined_insert_list[OF assms(1)] fl_refined_erase[OF assms(1)]
    fl_refined_whole[OF assms(1)] fl_refined_exchange[OF assms(1)] fl_refined_merge[OF assms(1)] fl_refined_queries[OF assms(1)])

interpretation flp: node_program flist_ok flist_do flist_values flist_pre
proof
  show "\<exists>s' X'. flist_do op s = Some (fst (flist_values op m), s') \<and> fl.group H s' X' (snd (flist_values op m))
      \<and> nd_strays s' (fl.held H X') = nd_strays s (fl.held H X)"
    if "fl.group H s X m" "flist_pre H op m" for H and s :: "'a nodes" and X m op
    using flist_values_refined[OF that] by (simp add: fl_refined_def)
qed

end
