(* ===== verification/FListProps.thy ===== *)
theory FListProps
  imports FListRefine LListProps
begin

text \<open>
  The properties of singly linked lists: programs over newly constructed lists against value lists, constructors and destructor,
  and the merge of a list with itself.
\<close>

section \<open>New lists\<close>

lemma fl_new:
  fixes s :: "'v nodes" and vals :: "'v list"
  assumes "h < nd_fresh s" "h \<noteq> null"
  defines "s' \<equiv> fl_extend h h vals (fl_construct h s)"
  shows "\<exists>ys. flist_ok h s' ys \<and> changes {h} s s' \<and> set ys \<subseteq> {nd_fresh s..} \<and> nd_strays s' (set ys) = nd_strays s {}
    \<and> map (nd_value s') ys = vals"
proof -
  note c = fl_construct_ok[OF assms(1,2)]
  obtain ys where f: "fl.step h (fl_construct h s) [] s' ys" "map (nd_value s') ys = vals"
    using fl_fill[OF c(1), of vals] unfolding s'_def by blast
  have "changes {h} s s'"
    using c(2) f(1) changes_trans[of "{h}" s "fl_construct h s" "{h}" s'] by (simp add: fl.step_def)
  moreover have "nd_strays (fl_construct h s) {} = nd_strays s {}" using c(3,4) by (simp add: nd_strays_def)
  ultimately show ?thesis using f c(3) by (intro exI) (auto simp: fl.step_def)
qed

lemma fl_constructed_pair:
  assumes "flist_ok k s ys" "h \<noteq> k" "h \<notin> set ys" "h < nd_fresh s" "h \<noteq> null"
  shows "fl.pair h k (fl_construct h s) [] ys"
proof -
  note c = fl_construct_ok[OF assms(4,5)]
  have "flist_ok k (fl_construct h s) ys" by (rule flist_ok_cong[OF assms(1) c(2)]) (use assms in auto)
  then show ?thesis using c(1) assms by (simp add: fl.pair_def flist_ok_def)
qed

lemma fl_copy_new:
  assumes "flist_ok k s ys" "h \<noteq> k" "h \<notin> set ys" "h < nd_fresh s" "h \<noteq> null"
  shows "fl_copy h k s = Some (fl_extend h h (map (nd_value s) ys) (fl_construct h s))"
  using fl_copy_filled[OF fl_constructed_pair[OF assms]] fl_construct_ok(5)[OF assms(4,5)] by (simp add: fl_copy_def Let_def)

lemma fl_move_new:
  assumes "flist_ok k s ys" "h \<noteq> k" "h \<notin> set ys" "h < nd_fresh s" "h \<noteq> null"
  shows "fl_move h k s = fl_swap h k (fl_construct h s)"
proof -
  have "fl_move h k s = put_next k null (put_size k 0 (put_size h (nd_size (fl_construct h s) k) (put_next h (nd_next (fl_construct h s) k) (fl_construct h s))))"
    using assms(2) by (simp add: fl_move_def fl_construct_def put_size_commute Let_def)
  then show ?thesis using fl_take_swap[OF fl_constructed_pair[OF assms]] by simp
qed

lemma fl_group_new:
  assumes g: "fl.group H s X m" and h: "h \<notin> H" "h \<notin> fl.held H X" "h < nd_fresh s" "h \<noteq> null"
  shows "\<exists>X'. fl.group (insert h H) (fl_extend h h vals (fl_construct h s)) X' (m(h := vals))
    \<and> nd_strays (fl_extend h h vals (fl_construct h s)) (fl.held (insert h H) X') = nd_strays s (fl.held H X)
    \<and> fl.held (insert h H) X' \<subseteq> fl.held H X \<union> {nd_fresh s..}"
proof -
  let ?s = "fl_extend h h vals (fl_construct h s)"
  obtain ys where ys: "flist_ok h ?s ys" "changes {h} s ?s" "set ys \<subseteq> {nd_fresh s..}" "nd_strays ?s (set ys) = nd_strays s {}"
    "map (nd_value ?s) ys = vals" using fl_new[OF h(3,4)] by blast
  note n = fl.group_new[OF g h(1,2) ys(1-4)]
  have "fl.held (insert h H) (X(h := ys)) \<subseteq> set ys \<union> fl.held H X" by (auto simp: fl.held_def split: if_splits)
  then show ?thesis using n ys(3,5) by (intro exI[of _ "X(h := ys)"]) auto
qed

text \<open>One list after the other constructed from an initializer list, and one after the other destroyed.\<close>

definition fl_build :: "addr list \<Rightarrow> (addr \<Rightarrow> 'v list) \<Rightarrow> 'v nodes \<Rightarrow> 'v nodes" where
  "fl_build hs f s = fold (\<lambda>h. fl_of_list h (f h)) hs s"

primrec fl_destroy_lists :: "addr list \<Rightarrow> 'v nodes \<Rightarrow> 'v nodes option" where
  "fl_destroy_lists [] s = Some s"
| "fl_destroy_lists (h # hs) s = Option.bind (fl_destroy_all h s) (fl_destroy_lists hs)"

lemma fl_built:
  "distinct hs \<Longrightarrow> \<forall>h\<in>set hs. h < nd_fresh s \<and> h \<noteq> null \<Longrightarrow> \<exists>X. fl.group (set hs) (fl_build hs f s) X f
     \<and> nd_strays (fl_build hs f s) (fl.held (set hs) X) = nd_strays s {} \<and> fl.held (set hs) X \<subseteq> {nd_fresh s..}
     \<and> nd_fresh s \<le> nd_fresh (fl_build hs f s)"
proof (induction hs rule: rev_induct)
  case Nil
  show ?case by (simp add: fl_build_def fl.group_def fl.held_def)
next
  case (snoc h hs)
  let ?s = "fl_build hs f s"
  obtain X where X: "fl.group (set hs) ?s X f" "nd_strays ?s (fl.held (set hs) X) = nd_strays s {}"
    "fl.held (set hs) X \<subseteq> {nd_fresh s..}" "nd_fresh s \<le> nd_fresh ?s" using snoc by auto
  have h: "h \<notin> set hs" "h \<notin> fl.held (set hs) X" "h < nd_fresh ?s" "h \<noteq> null" using snoc.prems X(3,4) by auto
  have b: "fl_build (hs @ [h]) f s = fl_extend h h (f h) (fl_construct h ?s)" by (simp add: fl_build_def fl_of_list_def)
  obtain X' where X': "fl.group (insert h (set hs)) (fl_build (hs @ [h]) f s) X' (f(h := f h))"
    "nd_strays (fl_build (hs @ [h]) f s) (fl.held (insert h (set hs)) X') = nd_strays ?s (fl.held (set hs) X)"
    "fl.held (insert h (set hs)) X' \<subseteq> fl.held (set hs) X \<union> {nd_fresh ?s..}"
    using fl_group_new[OF X(1) h, of "f h"] unfolding b by blast
  have "changes {h} ?s (fl_build (hs @ [h]) f s)" using fl_new[OF h(3,4), of "f h"] unfolding b by blast
  then have le: "nd_fresh ?s \<le> nd_fresh (fl_build (hs @ [h]) f s)" by (simp add: changes_def)
  have "{nd_fresh ?s..} \<subseteq> {nd_fresh s..}" using X(4) by simp
  then have "fl.held (insert h (set hs)) X' \<subseteq> {nd_fresh s..}" using X'(3) X(3) by (meson Un_least order.trans)
  then show ?case using X' X(2,4) le by (intro exI[of _ X']) simp
qed

lemma fl_destroyed:
  "fl.group H s X m \<Longrightarrow> set hs \<subseteq> H \<Longrightarrow> \<exists>s' X'. fl_destroy_lists hs s = Some s' \<and> fl.group H s' X' (\<lambda>h. if h \<in> set hs then [] else m h)
     \<and> nd_strays s' (fl.held H X') = nd_strays s (fl.held H X)"
proof (induction hs arbitrary: s X m)
  case Nil
  then show ?case by auto
next
  case (Cons h hs)
  note g = fl_group_list(1)[OF Cons.prems(1), of h]
  obtain s1 where s1: "fl_destroy_all h s = Some s1" "fl.step h s (X h) s1 []" using fl_destroy_all[OF g] Cons.prems(2) by auto
  obtain X1 where X1: "fl.group H s1 X1 (m(h := []))" "nd_strays s1 (fl.held H X1) = nd_strays s (fl.held H X)"
    using fl.group_step_to[OF Cons.prems(1) _ s1(2)] Cons.prems(2) by auto
  have "(\<lambda>k. if k \<in> set hs then [] else (m(h := [])) k) = (\<lambda>k. if k \<in> set (h # hs) then [] else m k)" by auto
  then show ?case using Cons.IH[OF X1(1)] Cons.prems(2) s1(1) X1(2) by auto
qed

section \<open>Programs\<close>

text \<open>
  C39: A program over any number of newly constructed singly linked lists in one store (every insertion and erasure after a
  position, assignment, move and swap, resizing, reversal, filter and merge) whose calls are inside the contract returns and acts
  as on lists of values, answers and returned iterators included; afterwards iterations and sizes agree with the values, and
  destroying the lists leaves no live node that was not there before. The contract: positions are positions of the list they are
  used with (the first of a range before its last), the first element is read from a list that has one, and no list is merged with
  itself, which the code accepts and which then loops or leaks.
\<close>

lemma flists_refine_value_lists:
  fixes s :: "'v nodes"
  assumes "distinct hs" "\<forall>h\<in>set hs. h < nd_fresh s \<and> h \<noteq> null" "ops_pre flist_values (flist_pre (set hs)) ops f"
  shows "\<exists>s'. ops_run flist_do ops (fl_build hs f s) = Some (fst (ops_spec flist_values ops f), s')
    \<and> (\<forall>h\<in>set hs. fl_iterate s' (fl_begin h s') (fl_end h s') = Some (snd (ops_spec flist_values ops f) h)
        \<and> nd_size s' h = length (snd (ops_spec flist_values ops f) h))
    \<and> (\<exists>s''. fl_destroy_lists hs s' = Some s'' \<and> nd_strays s'' {} = nd_strays s {})"
proof -
  obtain X where X: "fl.group (set hs) (fl_build hs f s) X f"
    "nd_strays (fl_build hs f s) (fl.held (set hs) X) = nd_strays s {}" using fl_built[OF assms(1,2)] by blast
  obtain s' X' where r: "ops_run flist_do ops (fl_build hs f s) = Some (fst (ops_spec flist_values ops f), s')"
    "fl.group (set hs) s' X' (snd (ops_spec flist_values ops f))" "nd_strays s' (fl.held (set hs) X') = nd_strays s {}"
    using flp.run_refines[OF X(1) assms(3)] X(2) by auto
  obtain s'' X'' where d: "fl_destroy_lists hs s' = Some s''"
    "fl.group (set hs) s'' X'' (\<lambda>h. if h \<in> set hs then [] else snd (ops_spec flist_values ops f) h)"
    "nd_strays s'' (fl.held (set hs) X'') = nd_strays s {}"
    using fl_destroyed[OF r(2) order.refl] r(3) by auto
  have "fl.held (set hs) X'' = {}" using fl_group_list(3)[OF d(2)] by (auto simp: fl.held_def)
  moreover have "fl_iterate s' (fl_begin h s') (fl_end h s') = Some (snd (ops_spec flist_values ops f) h)"
    "nd_size s' h = length (snd (ops_spec flist_values ops f) h)" if h: "h \<in> set hs" for h
  proof -
    note x = fl_group_list[OF r(2) h]
    have ok: "flist_ok h s' ([] @ X' h)" using x(1) by simp
    show "fl_iterate s' (fl_begin h s') (fl_end h s') = Some (snd (ops_spec flist_values ops f) h)"
      using iterate_flist[OF ok] flist_split(1)[OF ok] x(2) by (simp add: fl_begin_def fl_end_def)
    show "nd_size s' h = length (snd (ops_spec flist_values ops f) h)" using x(1,3) by (simp add: flist_ok_def)
  qed
  ultimately show ?thesis using r(1) d(1,3) by auto
qed

lemma flists_refine_value_lists_witness:
  "\<exists>s'. ops_run flist_do [FInsert_after_list 1 1 [7, 8], FMerge 1 2 (<), FErase_after 1 0, FReverse 1, FInsert_after 2 0 5, FErase_after_range 1 1 4, FCopy 2 1]
      (fl_build [1, 2] (\<lambda>h. if h = 1 then [3 :: nat, 9] else [4]) (nd_blank 3 0))
      = Some ([(0, [9]), (0, []), (0, [4, 7, 8, 9]), (0, []), (0, [5]), (0, [4]), (0, [])], s')
    \<and> fl_iterate s' (fl_begin 2 s') (fl_end 2 s') = Some [9, 4]"
  using flists_refine_value_lists[of "[1, 2]" "nd_blank 3 (0 :: nat)"
      "[FInsert_after_list 1 1 [7, 8], FMerge 1 2 (<), FErase_after 1 0, FReverse 1, FInsert_after 2 0 5, FErase_after_range 1 1 4, FCopy 2 1]"
      "\<lambda>h. if h = 1 then [3, 9] else [4]"]
  by (simp add: nd_blank_def Let_def) blast

section \<open>Constructors and the destructor\<close>

lemma fl_group_move:
  assumes g: "fl.group H s X m" and h: "h \<notin> H" "h \<notin> fl.held H X" "h < nd_fresh s" "h \<noteq> null" and k: "k \<in> H"
  shows "\<exists>X'. fl.group (insert h H) (fl_move h k s) X' (m(h := m k, k := []))
    \<and> nd_strays (fl_move h k s) (fl.held (insert h H) X') = nd_strays s (fl.held H X)"
proof -
  let ?c = "fl_construct h s"
  note y = fl_group_list[OF g k]
  have hk: "h \<noteq> k" using h(1) k by blast
  have hy: "h \<notin> set (X k)" using h(2) k by (auto simp: fl.held_def)
  note c = fl_construct_ok[OF h(3,4)]
  have sc: "nd_strays ?c (set []) = nd_strays s {}" using c(3,4) by (simp add: nd_strays_def)
  define X0 where "X0 = X(h := [])"
  have n: "fl.group (insert h H) ?c X0 (m(h := []))" "nd_strays ?c (fl.held (insert h H) X0) = nd_strays s (fl.held H X)"
    using fl.group_new[OF g h(1,2) c(1,2) _ sc] by (simp_all add: X0_def)
  have kH: "h \<in> insert h H" "k \<in> insert h H" using k by simp_all
  have X0: "X0 h = []" "X0 k = X k" using hk by (simp_all add: X0_def)
  have p: "fl.pair h k ?c [] (X k)" using fl.group_pair[OF n(1) kH hk] X0 by simp
  note sw = fl_swap_step[OF p]
  have st: "fl.step2 h k ?c (X0 h) (X0 k) (fl_swap h k ?c) (X k) []" using sw(1) X0 by simp
  have v: "map (nd_value (fl_swap h k ?c)) (X k) = m k" using sw(2) y(2) c(5) by simp
  have "(m(h := []))(h := m k, k := map (nd_value (fl_swap h k ?c)) []) = m(h := m k, k := [])" by simp
  then obtain X' where "fl.group (insert h H) (fl_swap h k ?c) X' (m(h := m k, k := []))"
    "nd_strays (fl_swap h k ?c) (fl.held (insert h H) X') = nd_strays ?c (fl.held (insert h H) X0)"
    using fl.group_step2_to[OF n(1) kH st v refl] by metis
  then show ?thesis using n(2) unfolding fl_move_new[OF y(1) hk hy h(3,4)] by metis
qed

text \<open>
  Constructing a singly linked list at an address that no list uses, from an initializer list, from a count and a value, as a
  copy of another list or by moving one, gives a list with the values it should have beside the others, which keep theirs (a
  moved list is left empty), and destroying a list returns exactly its nodes.
\<close>

lemma flist_constructors:
  assumes g: "fl.group H s X m" and h: "h \<notin> H" "h \<notin> fl.held H X" "h < nd_fresh s" "h \<noteq> null" and k: "k \<in> H"
  shows "(\<exists>X'. fl.group (insert h H) (fl_of_list h vals s) X' (m(h := vals))
      \<and> nd_strays (fl_of_list h vals s) (fl.held (insert h H) X') = nd_strays s (fl.held H X))
    \<and> (\<exists>X'. fl.group (insert h H) (fl_of_count h n val s) X' (m(h := replicate n val))
      \<and> nd_strays (fl_of_count h n val s) (fl.held (insert h H) X') = nd_strays s (fl.held H X))
    \<and> (\<exists>s' X'. fl_copy h k s = Some s' \<and> fl.group (insert h H) s' X' (m(h := m k))
      \<and> nd_strays s' (fl.held (insert h H) X') = nd_strays s (fl.held H X))
    \<and> (\<exists>X'. fl.group (insert h H) (fl_move h k s) X' (m(h := m k, k := []))
      \<and> nd_strays (fl_move h k s) (fl.held (insert h H) X') = nd_strays s (fl.held H X))
    \<and> (\<exists>s' X'. fl_destroy_all k s = Some s' \<and> fl.group H s' X' (m(k := []))
      \<and> nd_strays s' (fl.held H X') = nd_strays s (fl.held H X))"
proof (intro conjI)
  note y = fl_group_list[OF g k]
  show "\<exists>X'. fl.group (insert h H) (fl_of_list h vals s) X' (m(h := vals))
      \<and> nd_strays (fl_of_list h vals s) (fl.held (insert h H) X') = nd_strays s (fl.held H X)"
    "\<exists>X'. fl.group (insert h H) (fl_of_count h n val s) X' (m(h := replicate n val))
      \<and> nd_strays (fl_of_count h n val s) (fl.held (insert h H) X') = nd_strays s (fl.held H X)"
    using fl_group_new[OF g h] unfolding fl_of_list_def fl_of_count_def by blast+
  have "h \<noteq> k" "h \<notin> set (X k)" using h(1,2) k by (auto simp: fl.held_def)
  then have "fl_copy h k s = Some (fl_extend h h (m k) (fl_construct h s))" using fl_copy_new[OF y(1)] h(3,4) y(2) by simp
  then show "\<exists>s' X'. fl_copy h k s = Some s' \<and> fl.group (insert h H) s' X' (m(h := m k))
      \<and> nd_strays s' (fl.held (insert h H) X') = nd_strays s (fl.held H X)"
    using fl_group_new[OF g h, of "m k"] by auto
  show "\<exists>X'. fl.group (insert h H) (fl_move h k s) X' (m(h := m k, k := []))
      \<and> nd_strays (fl_move h k s) (fl.held (insert h H) X') = nd_strays s (fl.held H X)"
    by (rule fl_group_move[OF g h k])
  show "\<exists>s' X'. fl_destroy_all k s = Some s' \<and> fl.group H s' X' (m(k := []))
      \<and> nd_strays s' (fl.held H X') = nd_strays s (fl.held H X)"
    using fl_destroy_all[OF y(1)] fl.group_step_to[OF g k _ refl] by (metis list.map(1))
qed

lemma first_flist:
  "\<exists>X. fl.group {1} (fl_build [1] (\<lambda>_. vals) (nd_blank 4 x)) X (\<lambda>_. vals) \<and> fl.held {1} X \<subseteq> {4..}
    \<and> 4 \<le> nd_fresh (fl_build [1] (\<lambda>_. vals) (nd_blank 4 x))"
  using fl_built[of "[1]" "nd_blank 4 x" "\<lambda>_. vals"] by (auto simp: nd_blank_def)

lemma flist_constructors_witness:
  "\<exists>s' X'. fl_copy 2 1 (fl_build [1] (\<lambda>_. [6 :: nat, 2]) (nd_blank 4 0)) = Some s' \<and> fl.group (insert 2 {1}) s' X' ((\<lambda>_. [6, 2])(2 := [6, 2]))"
proof -
  let ?s = "fl_build [1] (\<lambda>_. [6 :: nat, 2]) (nd_blank 4 0)"
  obtain X where X: "fl.group {1} ?s X (\<lambda>_. [6, 2])" "fl.held {1} X \<subseteq> {4..}" "4 \<le> nd_fresh ?s"
    using first_flist[of "[6, 2]" "0 :: nat"] by blast
  have h: "2 \<notin> {1 :: addr}" "2 \<notin> fl.held {1} X" "2 < nd_fresh ?s" "2 \<noteq> null" "1 \<in> {1 :: addr}" using X(2,3) by auto
  have "\<exists>s' X'. fl_copy 2 1 ?s = Some s' \<and> fl.group (insert 2 {1}) s' X' ((\<lambda>_. [6, 2])(2 := [6, 2]))
      \<and> nd_strays s' (fl.held (insert 2 {1}) X') = nd_strays ?s (fl.held {1} X)"
    by (rule conjunct1[OF conjunct2[OF conjunct2[OF flist_constructors[OF X(1) h]]]])
  then show ?thesis by blast
qed

section \<open>A list merged with itself\<close>

text \<open>
  C40: Merging a singly linked list with itself, which \<^verbatim>\<open>List::merge\<close> guards against and \<^verbatim>\<open>ForwardList::merge\<close>
  does not: if some element comes after the first one in the order, the merge never returns; otherwise it returns an empty list, and all
  the nodes that the list had stay allocated with no list to free them.
\<close>

lemma flist_self_merge:
  assumes "strict_weak lt" "flist_ok h s (x # xs)"
  shows "if \<exists>u\<in>set xs. lt (nd_value s x) (nd_value s u) then fl_merge h lt h s = None
    else \<exists>s'. fl_merge h lt h s = Some s' \<and> flist_ok h s' [] \<and> nd_strays s' {} = nd_strays s (set (x # xs)) \<union> set (x # xs)"
  using fl_self_merge[OF assms] by simp

lemma flist_self_merge_witness:
  "fl_merge 1 (<) 1 (fl_build [1] (\<lambda>_. [2 :: nat, 6]) (nd_blank 4 0)) = None"
proof -
  let ?s = "fl_build [1] (\<lambda>_. [2 :: nat, 6]) (nd_blank 4 0)"
  obtain X where g: "fl.group {1} ?s X (\<lambda>_. [2, 6])" using first_flist[of "[2, 6]" "0 :: nat"] by blast
  have "map (nd_value ?s) (X 1) = [2, 6]" using fl_group_list(2)[OF g] by simp
  then obtain a b where X: "X 1 = [a, b]" "nd_value ?s a = 2" "nd_value ?s b = 6" by (auto simp: map_eq_Cons_conv)
  then show ?thesis using flist_self_merge[OF less_strict_weak, of 1 ?s a "[b]"] fl_group_list(1)[OF g, of 1] by simp
qed

end
