(* ===== verification/Spec2Isabelle.thy ===== *)
theory Spec2Isabelle
  imports Forms Money Persistence Vector BString HashSet FixedArray RBProps LListProps FListProps
begin

text \<open>
  A verification development for KTLT, a banking system of a server, a terminal client and a small
  container library, in C++.

  \<^bold>\<open>The program.\<close> The server (\<^verbatim>\<open>server/\<close>) accepts connections. A session reads one packet at a time, turns
  it into a work item for the account database and reads the next packet when the answer was sent. The database
  (\<^verbatim>\<open>DbManager\<close>) has a queue and a worker thread that processes one item after the other, posts the answers back
  to the event loop, and saves its two files when a timer finds changes and when it is destroyed. The client
  (\<^verbatim>\<open>app/client\<close>) keeps the handlers of its requests in a queue and gives each packet that arrives to the
  first of them. The pages (\<^verbatim>\<open>app/pages\<close>, \<^verbatim>\<open>app/App.cpp\<close>) check what was typed, send requests and show the answers.
  All of them use the containers, the hash functions and the algorithms of \<^verbatim>\<open>libs/base\<close> and the packets
  of \<^verbatim>\<open>libs/network\<close>.

  \<^bold>\<open>Shared theories.\<close> \<open>Prelude\<close> has the integer types of \<^verbatim>\<open>types.hpp\<close> and facts on lists and words.
  \<open>Bytes\<close> has the object representation of integers on both byte orders, \<open>StdLib\<close> the functions of the C++ standard
  library the sources call, \<open>Codec\<close> the interfaces of byte formats (\<open>framing\<close>, \<open>fixed_codec\<close>),
  \<open>Memory\<close> buffers of raw and live cells and the interface \<open>growable\<close>, \<open>MapSpec\<close> the interface \<open>map_spec\<close>
  of the associative containers.

  \<^bold>\<open>Theories and sources.\<close>
  \<^item> \<open>Packet\<close>: \<^verbatim>\<open>libs/network/Packet.cpp\<close>, \<^verbatim>\<open>PacketType.hpp\<close>. Sockets are byte streams. The packets are an instance
    of \<open>framing\<close>: a stream of them is read back one by one, and what is cut inside a packet is not delivered.
  \<^item> \<open>Sha256\<close>: \<^verbatim>\<open>libs/base/sha256.hpp\<close>. Absorption in pieces, salts, and equivalence with FIPS 180-4, which
    the theory writes out on its own: rotations of the library, and constants defined by the fractional parts of the cube and
    square roots of primes.
  \<^item> \<open>Algorithm\<close>: \<^verbatim>\<open>libs/base/algorithm.hpp\<close>. The sort is a \<open>partial_function\<close>, and shown to return a sorted
    permutation under the interface \<open>strict_weak\<close>.
  \<^item> \<open>Accounts\<close>, \<open>Ledger\<close>, \<open>Bank\<close>: the records, and one definition per branch of \<^verbatim>\<open>processItem\<close> in \<^verbatim>\<open>server/Database.cpp\<close>;
    the invariant of the account table and the ledgers; refinement of an abstract bank with natural-number balances,
    what refused items leave alone, locked accounts, passwords (interface \<open>password_scheme\<close>, instance SHA-256).
  \<^item> \<open>Money\<close>: the books in integer arithmetic. The invariant of \<open>Bank\<close> compares 64-bit words; here every work item within the
    range of the C++ arithmetic keeps ledgers that explain the balances without wrapping.
  \<^item> \<open>DbFile\<close>, \<open>Database\<close>, \<open>Persistence\<close>: the two file formats, \<^verbatim>\<open>save\<close> and \<^verbatim>\<open>load\<close>; the manager as a step relation over
    submissions, rounds of the worker and the timer; sequential behaviour under all interleavings, and restart.
  \<^item> \<open>Session\<close>, \<open>ServerSystem\<close>: \<^verbatim>\<open>server/Server.cpp\<close> and \<^verbatim>\<open>ServerLog.cpp\<close>, one definition per case of the packet switch,
    and the run of the whole server over events in any order: answers in order, progress, invariants. The name of a log file ends at a NUL, as \<^verbatim>\<open>c_str()\<close> does.
  \<^item> \<open>ClientModel\<close>: \<^verbatim>\<open>app/client/Client.cpp\<close>, the composition of client, server and database in a call, and runs of a
    client over events, in which every caller is told exactly once.
  \<^item> \<open>HistoryView\<close>, \<open>Forms\<close>: \<^verbatim>\<open>app/pages\<close> and \<^verbatim>\<open>app/App.cpp\<close> without the drawing: parsing, sorting and filtering of
    histories, the checks and requests of the forms, navigation as a step function over events.
  \<^item> \<open>Vector\<close>, \<open>BString\<close>: \<^verbatim>\<open>libs/base/vector.hpp\<close> and \<^verbatim>\<open>string.hpp\<close> on the buffers of \<open>Memory\<close>, with one lemma per
    operation and a refinement theorem over sequences of operations; for the vector it is exact in contents, capacity and
    refusals, and spells out what an insertion does to the last element.
  \<^item> \<open>Hash\<close>, \<open>HashTable\<close>, \<open>HashMap\<close>, \<open>HashSet\<close>: \<^verbatim>\<open>libs/base/hash.hpp\<close>, \<^verbatim>\<open>hash_table.hpp\<close>, \<^verbatim>\<open>hash_map.hpp\<close> and \<^verbatim>\<open>hash_set.hpp\<close>. The
    hash is MurmurHash3 as \<open>Hash\<close> describes it on its own, for lengths an \<^verbatim>\<open>i32\<close> can hold. The chained table under an arbitrary
    hash function is an instance of \<open>map_spec\<close>; the map refines functions and the set sets of keys for the operations named there.
  \<^item> \<open>FixedArray\<close>: \<^verbatim>\<open>libs/base/array.hpp\<close>.
  \<^item> \<open>RBTree\<close>, \<open>RBMap\<close>: \<^verbatim>\<open>libs/base/rbtree.hpp\<close>, \<^verbatim>\<open>map.hpp\<close> and \<^verbatim>\<open>set.hpp\<close> on a store of nodes that several trees
    share, every rotation, recolouring and relinking as the code does it. \<open>RBShape\<close> relates links to shapes, \<open>RBInsert\<close> and
    \<open>RBErase\<close> follow the two fixup loops, \<open>RBTreeOps\<close> has searching, iterating, clearing, copying, moving and swapping,
    \<open>RBForest\<close> programs over several trees against sorted lists, \<open>RBProps\<close> their properties. The map is an instance of
    \<open>map_spec\<close> for every strict weak order (locale \<open>key_order\<close>, interpreted on \<^verbatim>\<open>std::less\<close>).
  \<^item> \<open>Nodes\<close>, \<open>LList\<close>: \<^verbatim>\<open>libs/base/list.hpp\<close> on a store of nodes that several lists share, with every assignment to a link as
    the code has it. \<open>Nodes\<close> has the store and two interfaces: \<open>node_container\<close>, what containers in one store rest on, and
    \<open>node_program\<close>, operations that refine operations on value lists. \<open>LListOps\<close>, \<open>LListWhole\<close> and \<open>LListSort\<close> have the single
    operations, \<open>LListProg\<close> and \<open>LListRefine\<close> programs over several lists, \<open>LListProps\<close> their properties.
  \<^item> \<open>FList\<close>: \<^verbatim>\<open>libs/base/forward_list.hpp\<close> on the same store and interfaces, with the chains ending at null;
    \<open>FListOps\<close>, \<open>FListWhole\<close>, \<open>FListMerge\<close>, \<open>FListProg\<close>, \<open>FListRefine\<close> and \<open>FListProps\<close> correspond to those of the doubly linked list.

  \<^bold>\<open>Conventions.\<close> An object is a record, an enumeration a datatype. Integers are words where their width
  can be observed (amounts, balances, packet lengths, hashes) and natural numbers where the code measures objects in
  memory. An exception or an undefined operation is the left value of a sum (\<open>res\<close>), so a theorem that an operation
  returns a right value also excludes undefined behaviour. Threads appear as interleavings of steps, each as
  large as what the code does under one lock or in one handler.

  \<^bold>\<open>Termination, bounds and fuel.\<close> A loop whose end is not evident is a \<open>partial_function\<close>, \<open>None\<close> being a loop that does
  not return: the sort, the buffering loop of SHA-256 and every loop and recursion of the red-black tree are shown to return
  always, \<^verbatim>\<open>erase(first, last)\<close> of the hash map is shown not to. The loops of the lists return, but for two: exactly when
  the merge of two sorted lists of \<^verbatim>\<open>List\<close> returns is a theorem, and so is when \<^verbatim>\<open>ForwardList\<close> merged with itself does.
  The only fuel is the number of steps of \<open>ht_walk\<close>, an iteration over a table; as many as there are entries are shown to
  suffice. The liveness theorem of the server counts the steps of its backlog. The allocator's limit is an argument \<open>mx\<close> of
  the vector and the string.

  \<^bold>\<open>Not modelled.\<close> Drawing and layout with FTXUI and the theme; ASIO (sockets, resolving, the signal set, stopping the event
  loop) beyond bytes read and written and the error flags it reports; the main programs and the generator of test data;
  iterator classes that only wrap an index, allocator propagation, stream output and formatting of strings.
\<close>

end
